(* ===== verification/Prelude.thy ===== *)
theory Prelude
  imports Main "HOL-Library.AList" "HOL-Library.Monad_Syntax"
begin

text \<open>
  What the components share: the model of the Python containers the compiler uses (a dict used
  as a set, a dict in insertion order, \<open>list.remove\<close>), the rounding of a byte offset up to an
  alignment, and reachability by a work list.  An operation of the source that can raise has
  an \<open>option\<close> result in the model: \<^const>\<open>None\<close> is the exception.
\<close>

named_theorems pydict "laws of the Python containers"

section \<open>A dict used as a set, in insertion order\<close>

text \<open>\<open>d[k] = 1\<close> on a dict used as a set: an existing key keeps its place.\<close>

definition dset_add :: "'a \<Rightarrow> 'a list \<Rightarrow> 'a list" where
  "dset_add k d = (if k \<in> set d then d else d @ [k])"

lemma set_dset_add [simp]: "set (dset_add k d) = insert k (set d)"
  by (auto simp: dset_add_def)

lemma distinct_dset_add [simp]: "distinct (dset_add k d) = distinct d"
  by (auto simp: dset_add_def)

lemma dset_add_same: "k \<in> set d \<Longrightarrow> dset_add k d = d"
  by (simp add: dset_add_def)

text \<open>Adding several keys one after the other.\<close>

definition dset_add_all :: "'a list \<Rightarrow> 'a list \<Rightarrow> 'a list" where
  "dset_add_all ks d = fold dset_add ks d"

lemma set_dset_add_all [simp]: "set (dset_add_all ks d) = set ks \<union> set d"
  unfolding dset_add_all_def by (induction ks arbitrary: d) auto

lemma distinct_dset_add_all [simp]: "distinct (dset_add_all ks d) = distinct d"
  unfolding dset_add_all_def by (induction ks arbitrary: d) auto

text \<open>\<open>xs.remove(x)\<close>: the first occurrence goes; ValueError when there is none.\<close>

definition py_remove :: "'a \<Rightarrow> 'a list \<Rightarrow> 'a list option" where
  "py_remove x xs = (if x \<in> set xs then Some (remove1 x xs) else None)"

lemma py_remove_Some [pydict]:
  "py_remove x xs = Some ys \<longleftrightarrow> x \<in> set xs \<and> ys = remove1 x xs"
  by (auto simp: py_remove_def)

lemma py_remove_length: "py_remove x xs = Some ys \<Longrightarrow> length xs = Suc (length ys)"
  by (auto simp: py_remove_def length_remove1 split: if_splits)
     (metis Suc_pred length_pos_if_in_set)

text \<open>A loop over a list whose body may raise.\<close>

fun ofold :: "('a \<Rightarrow> 's \<Rightarrow> 's option) \<Rightarrow> 'a list \<Rightarrow> 's \<Rightarrow> 's option" where
  "ofold f [] s = Some s"
| "ofold f (x # xs) s = (case f x s of None \<Rightarrow> None | Some s' \<Rightarrow> ofold f xs s')"

lemma ofold_invariant:
  assumes "ofold f xs s = Some s'" and "P s"
    and "\<And>x t t'. x \<in> set xs \<Longrightarrow> P t \<Longrightarrow> f x t = Some t' \<Longrightarrow> P t'"
  shows "P s'"
  using assms
proof (induction xs arbitrary: s)
  case (Cons x xs)
  then obtain t where t: "f x s = Some t" "ofold f xs t = Some s'" by (auto split: option.splits)
  show ?case
    by (rule Cons.IH [OF t(2)]) (use t(1) Cons.prems in auto)
qed simp

lemma ofold_Some:
  assumes "P s" and "\<And>x t. x \<in> set xs \<Longrightarrow> P t \<Longrightarrow> \<exists>t'. f x t = Some t' \<and> P t'"
  shows "\<exists>s'. ofold f xs s = Some s' \<and> P s'"
  using assms
proof (induction xs arbitrary: s)
  case (Cons x xs)
  then obtain t where t: "f x s = Some t" "P t" by fastforce
  have "\<exists>s'. ofold f xs t = Some s' \<and> P s'"
    by (rule Cons.IH) (use t Cons.prems in auto)
  then show ?case using t by simp
qed simp

text \<open>A loop whose body keeps \<open>P\<close>, moves along a preorder \<open>R\<close> and establishes \<open>Q x\<close>, which \<open>R\<close>
  preserves, establishes \<open>Q x\<close> for every element.\<close>

lemma ofold_collect:
  assumes "P s"
    and step: "\<And>x t. x \<in> set xs \<Longrightarrow> P t \<Longrightarrow> \<exists>t'. f x t = Some t' \<and> P t' \<and> R t t' \<and> Q x t'"
    and refl: "\<And>t. R t t" and trans: "\<And>t u v. R t u \<Longrightarrow> R u v \<Longrightarrow> R t v"
    and keep: "\<And>x t t'. Q x t \<Longrightarrow> R t t' \<Longrightarrow> Q x t'"
  shows "\<exists>s'. ofold f xs s = Some s' \<and> P s' \<and> R s s' \<and> (\<forall>x \<in> set xs. Q x s')"
  using assms(1) step
proof (induction xs arbitrary: s)
  case (Cons x xs)
  obtain t where t: "f x s = Some t" "P t" "R s t" "Q x t" using Cons.prems(2) [of x s] Cons.prems(1) by auto
  have "\<exists>s'. ofold f xs t = Some s' \<and> P s' \<and> R t s' \<and> (\<forall>x \<in> set xs. Q x s')"
    by (rule Cons.IH [OF t(2)]) (use Cons.prems(2) in simp)
  then show ?case using t trans keep by fastforce
qed (simp add: refl)

lemma ofold_append:
  "ofold f (xs @ ys) s = (case ofold f xs s of None \<Rightarrow> None | Some t \<Rightarrow> ofold f ys t)"
  by (induction xs arbitrary: s) (auto split: option.splits)

section \<open>Rounding up to an alignment\<close>

text \<open>\<open>(off + al - 1) // al * al\<close>, Python's floor division.\<close>

definition align_up :: "int \<Rightarrow> int \<Rightarrow> int" where
  "align_up off al = (off + al - 1) div al * al"

lemma align_up_dvd [simp]: "al dvd align_up off al"
  by (simp add: align_up_def)

lemma align_up_ge: "0 < al \<Longrightarrow> off \<le> align_up off al"
proof -
  assume al: "0 < al"
  have "off + al - 1 = (off + al - 1) div al * al + (off + al - 1) mod al" by simp
  moreover have "(off + al - 1) mod al < al" using al by simp
  ultimately show ?thesis unfolding align_up_def by linarith
qed

lemma align_up_less: "0 < al \<Longrightarrow> align_up off al < off + al"
proof -
  assume al: "0 < al"
  have "off + al - 1 = (off + al - 1) div al * al + (off + al - 1) mod al" by simp
  moreover have "0 \<le> (off + al - 1) mod al" using al by simp
  ultimately show ?thesis unfolding align_up_def by linarith
qed

lemma align_up_least:
  assumes "0 < al" "off \<le> k" "al dvd k"
  shows "align_up off al \<le> k"
proof (rule ccontr)
  assume "\<not> align_up off al \<le> k"
  then have less: "k < align_up off al" by simp
  have "al dvd align_up off al - k" using assms(3) by simp
  with less have "al \<le> align_up off al - k" by (intro zdvd_imp_le) auto
  with align_up_less [OF assms(1), of off] assms(2) show False by linarith
qed

lemma align_up_nonneg: "0 < al \<Longrightarrow> 0 \<le> off \<Longrightarrow> 0 \<le> align_up off al"
  using align_up_ge [of al off] by linarith

section \<open>Reachability by a work list\<close>

text \<open>
  The interface of a work-list search: a finite graph given by its successor lists.  The
  search keeps the marked nodes and the nodes still to expand; a client relies on
  the result being exactly the nodes reachable from the roots.
\<close>

definition step_rel :: "('a \<Rightarrow> 'a list) \<Rightarrow> ('a \<times> 'a) set" where
  "step_rel succs = {(u, v). v \<in> set (succs u)}"

lemma step_relI [intro]: "v \<in> set (succs u) \<Longrightarrow> (u, v) \<in> step_rel succs"
  by (simp add: step_rel_def)

lemma closed_reach:
  assumes "roots \<subseteq> S" and "\<And>u v. u \<in> S \<Longrightarrow> v \<in> set (succs u) \<Longrightarrow> v \<in> S"
  shows "(step_rel succs)\<^sup>* `` roots \<subseteq> S"
proof
  fix v assume "v \<in> (step_rel succs)\<^sup>* `` roots"
  then obtain r where r: "r \<in> roots" and rv: "(r, v) \<in> (step_rel succs)\<^sup>*" by auto
  from rv show "v \<in> S"
    by (induction rule: rtrancl_induct) (use r assms in \<open>auto simp: step_rel_def\<close>)
qed

end
