(* ===== verification/MemberElim.thy ===== *)
theory MemberElim
  imports Prelude
begin

text \<open>
  \<open>shivyc/member_elim.py\<close>: the whole-program analysis that finds struct members no translation
  unit accesses.  The module's globals are the fields of \<open>me_state\<close>; each function of the
  module is one operation on it.
\<close>

record me_state =
  me_collecting :: bool
  me_accessed :: "string \<rightharpoonup> string set"
  me_ineligible :: "string set"
  me_all_members :: "(string \<times> string list) list"
  me_removable :: "string \<rightharpoonup> string set"
  me_enabled :: bool

definition begin_collection :: "me_state \<Rightarrow> me_state" where
  "begin_collection s = s\<lparr>me_collecting := True, me_accessed := Map.empty,
     me_ineligible := {}, me_all_members := []\<rparr>"

definition record_access :: "string option \<Rightarrow> string \<Rightarrow> me_state \<Rightarrow> me_state" where
  "record_access tag member s =
     (if me_collecting s then
        (case tag of None \<Rightarrow> s
         | Some t \<Rightarrow> s\<lparr>me_accessed := (me_accessed s)
             (t \<mapsto> insert member (case me_accessed s t of None \<Rightarrow> {} | Some ms \<Rightarrow> ms))\<rparr>)
      else s)"

definition record_all_members :: "string option \<Rightarrow> string list \<Rightarrow> me_state \<Rightarrow> me_state" where
  "record_all_members tag names s =
     (if me_collecting s then
        (case tag of None \<Rightarrow> s
         | Some t \<Rightarrow> (if t \<in> fst ` set (me_all_members s) then s
             else s\<lparr>me_all_members := me_all_members s @ [(t, names)]\<rparr>))
      else s)"

definition mark_ineligible :: "string option \<Rightarrow> me_state \<Rightarrow> me_state" where
  "mark_ineligible tag s =
     (if me_collecting s then
        (case tag of None \<Rightarrow> s | Some t \<Rightarrow> s\<lparr>me_ineligible := insert t (me_ineligible s)\<rparr>)
      else s)"

definition collecting :: "me_state \<Rightarrow> bool" where
  "collecting s = me_collecting s"

text \<open>The body of the loop in \<open>finalize\<close>, over the members in declaration order.\<close>

definition unused_members :: "me_state \<Rightarrow> string \<Rightarrow> string list \<Rightarrow> string list" where
  "unused_members s tag members =
     filter (\<lambda>m. m \<notin> (case me_accessed s tag of None \<Rightarrow> {} | Some ms \<Rightarrow> ms)) members"

fun finalize_loop :: "me_state \<Rightarrow> (string \<times> string list) list \<Rightarrow> (string \<rightharpoonup> string set) \<Rightarrow>
    (string \<rightharpoonup> string set)" where
  "finalize_loop s [] result = result"
| "finalize_loop s ((tag, members) # rest) result =
     (if tag \<in> me_ineligible s then finalize_loop s rest result
      else let rem = unused_members s tag members in
        if rem \<noteq> [] then finalize_loop s rest (result(tag \<mapsto> set rem))
        else finalize_loop s rest result)"

definition finalize :: "me_state \<Rightarrow> (string \<rightharpoonup> string set) \<times> me_state" where
  "finalize s = (let s' = s\<lparr>me_collecting := False\<rparr>
     in (finalize_loop s' (me_all_members s') Map.empty, s'))"

definition install :: "(string \<rightharpoonup> string set) \<Rightarrow> me_state \<Rightarrow> me_state" where
  "install mapping s = s\<lparr>me_removable := mapping\<rparr>"

definition removable_for :: "string option \<Rightarrow> me_state \<Rightarrow> string set" where
  "removable_for tag s =
     (if \<not> me_enabled s then {}
      else (case tag of None \<Rightarrow> {}
            | Some t \<Rightarrow> (case me_removable s t of None \<Rightarrow> {} | Some ms \<Rightarrow> ms)))"

lemmas me_defs = begin_collection_def record_access_def record_all_members_def
  mark_ineligible_def collecting_def install_def removable_for_def

section \<open>A run of the analysis\<close>

text \<open>The operations the front end performs between \<open>begin_collection\<close> and \<open>finalize\<close>.\<close>

datatype me_op = Access "string option" string | Members "string option" "string list"
  | Ineligible "string option"

fun me_step :: "me_state \<Rightarrow> me_op \<Rightarrow> me_state" where
  "me_step s (Access t m) = record_access t m s"
| "me_step s (Members t ms) = record_all_members t ms s"
| "me_step s (Ineligible t) = mark_ineligible t s"

fun me_run :: "me_state \<Rightarrow> me_op list \<Rightarrow> me_state" where
  "me_run s [] = s"
| "me_run s (e # es) = me_run (me_step s e) es"

text \<open>The first list of members recorded for a tag.\<close>

fun first_members :: "string \<Rightarrow> me_op list \<Rightarrow> string list option" where
  "first_members t [] = None"
| "first_members t (Members (Some u) ms # es) =
     (if u = t then Some ms else first_members t es)"
| "first_members t (e # es) = first_members t es"

lemma me_step_keeps [simp]:
  "me_collecting (me_step s e) = me_collecting s"
  "me_enabled (me_step s e) = me_enabled s"
  by (cases e; simp add: me_defs split: option.splits)+

lemma me_run_keeps [simp]:
  "me_collecting (me_run s es) = me_collecting s"
  "me_enabled (me_run s es) = me_enabled s"
  by (induction es arbitrary: s) auto

lemma me_run_ineligible:
  "me_collecting s \<Longrightarrow> me_ineligible (me_run s es) = me_ineligible s \<union> {t. Ineligible (Some t) \<in> set es}"
proof (induction es arbitrary: s)
  case (Cons e es)
  then show ?case by (cases e) (auto simp: me_defs split: option.splits)
qed simp

lemma me_run_accessed:
  "me_collecting s \<Longrightarrow>
   (case me_accessed (me_run s es) t of None \<Rightarrow> {} | Some ms \<Rightarrow> ms) =
   (case me_accessed s t of None \<Rightarrow> {} | Some ms \<Rightarrow> ms) \<union> {m. Access (Some t) m \<in> set es}"
proof (induction es arbitrary: s)
  case (Cons e es)
  show ?case using Cons.IH [of "me_step s e"] Cons.prems
    by (cases e) (auto simp: me_defs split: option.splits if_splits)
qed simp

lemma map_of_has_key: "(t \<in> fst ` set xs) = (map_of xs t \<noteq> None)"
  by (simp add: map_of_eq_None_iff)

lemma me_step_all_members:
  "me_collecting s \<Longrightarrow>
   map_of (me_all_members (me_step s e)) t =
     (case map_of (me_all_members s) t of Some ms \<Rightarrow> Some ms | None \<Rightarrow> first_members t [e])"
proof (cases e)
  case (Members tg ms)
  assume "me_collecting s"
  with Members show ?thesis
    by (cases tg) (simp_all add: me_defs map_of_has_key map_add_def split: option.splits)
qed (simp_all add: me_defs split: option.splits)

lemma first_members_Cons:
  "first_members t (e # es) =
     (case first_members t [e] of Some ms \<Rightarrow> Some ms | None \<Rightarrow> first_members t es)"
  by (cases "(t, [e])" rule: first_members.cases) auto

lemma me_run_all_members:
  "me_collecting s \<Longrightarrow>
   map_of (me_all_members (me_run s es)) t =
     (case map_of (me_all_members s) t of Some ms \<Rightarrow> Some ms | None \<Rightarrow> first_members t es)"
proof (induction es arbitrary: s)
  case (Cons e es)
  then show ?case
    by (simp add: me_step_all_members first_members_Cons [of t e es] split: option.splits)
qed (simp split: option.splits)

lemma distinct_all_members:
  "distinct (map fst (me_all_members s)) \<Longrightarrow> distinct (map fst (me_all_members (me_run s es)))"
proof (induction es arbitrary: s)
  case (Cons e es)
  have "distinct (map fst (me_all_members (me_step s e)))"
    using Cons.prems by (cases e) (auto simp: me_defs split: option.splits)
  then show ?case using Cons.IH by simp
qed simp

lemma finalize_loop_spec:
  "distinct (map fst xs) \<Longrightarrow>
   finalize_loop s xs result t =
     (case map_of xs t of
        Some ms \<Rightarrow> (if t \<notin> me_ineligible s \<and> unused_members s t ms \<noteq> []
                    then Some (set (unused_members s t ms)) else result t)
      | None \<Rightarrow> result t)"
proof (induction xs arbitrary: result t)
  case (Cons x rest)
  obtain tag members where x: "x = (tag, members)" by (cases x)
  have none: "map_of rest tag = None" using Cons.prems x by (simp add: map_of_eq_None_iff)
  have "distinct (map fst rest)" using Cons.prems x by simp
  note IH = Cons.IH [OF this]
  show ?case
    by (cases "tag \<in> me_ineligible s"; cases "unused_members s tag members = []";
        cases "t = tag") (simp_all add: x IH none Let_def split: option.splits)
qed simp

text \<open>C19: What the analysis removes.  After any run of analysis operations, \<open>finalize\<close>
  returns for a tag exactly the members of the first list recorded for it that no operation
  accessed, and nothing for a tag marked ineligible; so no accessed member and no member of an
  unsafe struct is ever dropped by the compile that follows.\<close>

theorem finalize_removes_exactly_unused:
  "removable_for (Some t)
     (install (fst (finalize (me_run (begin_collection s) es))) (s\<lparr>me_enabled := True\<rparr>)) =
   {m. (\<exists>ms. first_members t es = Some ms \<and> m \<in> set ms) \<and> Access (Some t) m \<notin> set es
       \<and> Ineligible (Some t) \<notin> set es}"
proof -
  let ?r = "me_run (begin_collection s) es"
  have c: "me_collecting (begin_collection s)" by (simp add: me_defs)
  have d: "distinct (map fst (me_all_members ?r))"
    by (rule distinct_all_members) (simp add: me_defs)
  have m: "map_of (me_all_members ?r) t = first_members t es"
    by (simp add: me_run_all_members [OF c]) (simp add: me_defs split: option.splits)
  have u: "set (unused_members (?r\<lparr>me_collecting := False\<rparr>) t ms) =
      {m \<in> set ms. Access (Some t) m \<notin> set es}" for ms
    using me_run_accessed [OF c, of es t] by (auto simp: unused_members_def me_defs)
  have i: "t \<in> me_ineligible ?r \<longleftrightarrow> Ineligible (Some t) \<in> set es"
    by (simp add: me_run_ineligible [OF c]) (simp add: me_defs)
  have f: "fst (finalize ?r) t =
      (case first_members t es of None \<Rightarrow> None
       | Some ms \<Rightarrow> (if Ineligible (Some t) \<notin> set es \<and> unused_members (?r\<lparr>me_collecting := False\<rparr>) t ms \<noteq> []
                    then Some (set (unused_members (?r\<lparr>me_collecting := False\<rparr>) t ms)) else None))"
    using d m i by (simp add: finalize_def Let_def finalize_loop_spec split: option.splits)
  show ?thesis
  proof (cases "first_members t es")
    case None
    then show ?thesis using f by (simp add: removable_for_def install_def)
  next
    case (Some ms)
    have e: "{m. (\<exists>ms. first_members t es = Some ms \<and> m \<in> set ms) \<and> Access (Some t) m \<notin> set es
        \<and> Ineligible (Some t) \<notin> set es} =
        (if Ineligible (Some t) \<in> set es then {} else {m \<in> set ms. Access (Some t) m \<notin> set es})"
      using Some by auto
    have n: "unused_members (?r\<lparr>me_collecting := False\<rparr>) t ms = [] \<longleftrightarrow>
        {m \<in> set ms. Access (Some t) m \<notin> set es} = {}"
      using u [of ms] by (metis set_empty)
    show ?thesis
      unfolding e using f Some n u [of ms] by (simp add: removable_for_def install_def)
  qed
qed

end
