(* ===== verification/CTypes.thy ===== *)
theory CTypes
  imports MemberElim
begin

text \<open>
  \<open>shivyc/ctypes.py\<close>: the C types.  A \<open>CType\<close> object of a fixed shape is a value of \<open>ctype\<close>; the
  identity \<open>_orig\<close>, which copies made by \<open>make_const\<close>, \<open>make_unqual\<close> and \<open>make_unsigned\<close> share with
  the object they were copied from, is kept as a number.  A struct or union is mutable (it is
  completed by \<open>set_members\<close>) and may refer to itself through a pointer, so the value
  \<^theory_text>\<open>SUT\<close> holds the address of an object in a store \<open>sheap\<close>.  Offsets and bit fields are dicts,
  kept as association lists in insertion order.
\<close>

section \<open>Data\<close>

datatype su_kind = KStruct | KUnion

datatype ctype =
    IntegerT nat int bool bool bool \<comment> \<open>_orig, size, signed, _bool, const\<close>
  | FloatT nat int bool bool        \<comment> \<open>_orig, size, long_double, const\<close>
  | VoidT bool                      \<comment> \<open>const\<close>
  | PointerT ctype int bool         \<comment> \<open>arg, size, const\<close>
  | ArrayT ctype "int option" int bool \<comment> \<open>el, n, size, const\<close>
  | FunctionT "ctype list" ctype bool bool bool \<comment> \<open>args, ret, no_info, variadic, const\<close>
  | SUT su_kind nat nat bool        \<comment> \<open>address, _orig, const\<close>

record sobj =
  so_tag :: "string option"
  so_members :: "(string \<times> ctype) list option"
  so_offsets :: "(string \<times> (int \<times> ctype)) list"
  so_bitfields :: "(string \<times> (int \<times> bool)) list"
  so_size :: int

type_synonym sheap = "nat \<rightharpoonup> sobj"

section \<open>Constructors\<close>

definition pointer_size :: "bool \<Rightarrow> int" where
  "pointer_size pointer_compression = (if pointer_compression then 4 else 8)"

definition mk_pointer :: "bool \<Rightarrow> ctype \<Rightarrow> bool \<Rightarrow> ctype" where
  "mk_pointer pc arg c = PointerT arg (pointer_size pc) c"

definition size_of :: "sheap \<Rightarrow> ctype \<Rightarrow> int" where
  "size_of H t = (case t of IntegerT _ sz _ _ _ \<Rightarrow> sz | FloatT _ sz _ _ \<Rightarrow> sz | VoidT _ \<Rightarrow> 1
     | PointerT _ sz _ \<Rightarrow> sz | ArrayT _ _ sz _ \<Rightarrow> sz | FunctionT _ _ _ _ _ \<Rightarrow> 1
     | SUT _ a _ _ \<Rightarrow> (case H a of None \<Rightarrow> 1 | Some ob \<Rightarrow> so_size ob))"

definition mk_array :: "sheap \<Rightarrow> ctype \<Rightarrow> int option \<Rightarrow> ctype" where
  "mk_array H el n = ArrayT el n ((case n of None \<Rightarrow> 1 | Some k \<Rightarrow> k) * size_of H el) False"

definition mk_function :: "ctype list \<Rightarrow> ctype \<Rightarrow> bool \<Rightarrow> ctype" where
  "mk_function args ret no_info = FunctionT args ret no_info False False"

definition new_su :: "string option \<Rightarrow> sobj" where
  "new_su tag = \<lparr>so_tag = tag, so_members = None, so_offsets = [], so_bitfields = [], so_size = 1\<rparr>"

section \<open>Predicates\<close>

definition const_of :: "ctype \<Rightarrow> bool" where
  "const_of t = (case t of IntegerT _ _ _ _ c \<Rightarrow> c | FloatT _ _ _ c \<Rightarrow> c | VoidT c \<Rightarrow> c
     | PointerT _ _ c \<Rightarrow> c | ArrayT _ _ _ c \<Rightarrow> c | FunctionT _ _ _ _ c \<Rightarrow> c | SUT _ _ _ c \<Rightarrow> c)"

definition is_integral :: "ctype \<Rightarrow> bool" where
  "is_integral t = (case t of IntegerT _ _ _ _ _ \<Rightarrow> True | _ \<Rightarrow> False)"

definition is_floating :: "ctype \<Rightarrow> bool" where
  "is_floating t = (case t of FloatT _ _ _ _ \<Rightarrow> True | _ \<Rightarrow> False)"

definition is_arith :: "ctype \<Rightarrow> bool" where
  "is_arith t = (case t of IntegerT _ _ _ _ _ \<Rightarrow> True | FloatT _ _ _ _ \<Rightarrow> True | _ \<Rightarrow> False)"

definition is_pointer :: "ctype \<Rightarrow> bool" where
  "is_pointer t = (case t of PointerT _ _ _ \<Rightarrow> True | _ \<Rightarrow> False)"

definition is_function :: "ctype \<Rightarrow> bool" where
  "is_function t = (case t of FunctionT _ _ _ _ _ \<Rightarrow> True | _ \<Rightarrow> False)"

definition is_void :: "ctype \<Rightarrow> bool" where
  "is_void t = (case t of VoidT _ \<Rightarrow> True | _ \<Rightarrow> False)"

definition is_array :: "ctype \<Rightarrow> bool" where
  "is_array t = (case t of ArrayT _ _ _ _ \<Rightarrow> True | _ \<Rightarrow> False)"

definition is_struct_union :: "ctype \<Rightarrow> bool" where
  "is_struct_union t = (case t of SUT _ _ _ _ \<Rightarrow> True | _ \<Rightarrow> False)"

definition is_bool :: "ctype \<Rightarrow> bool" where
  "is_bool t = (case t of IntegerT _ _ _ b _ \<Rightarrow> b | _ \<Rightarrow> False)"

definition is_scalar :: "ctype \<Rightarrow> bool" where
  "is_scalar t = (is_arith t \<or> is_pointer t)"

definition is_complete :: "sheap \<Rightarrow> ctype \<Rightarrow> bool" where
  "is_complete H t = (case t of IntegerT _ _ _ _ _ \<Rightarrow> True | FloatT _ _ _ _ \<Rightarrow> True | VoidT _ \<Rightarrow> False
     | PointerT _ _ _ \<Rightarrow> True | ArrayT _ n _ _ \<Rightarrow> n \<noteq> None | FunctionT _ _ _ _ _ \<Rightarrow> False
     | SUT _ a _ _ \<Rightarrow> (case H a of None \<Rightarrow> False | Some ob \<Rightarrow> so_members ob \<noteq> None))"

definition is_incomplete :: "sheap \<Rightarrow> ctype \<Rightarrow> bool" where
  "is_incomplete H t = (case t of VoidT _ \<Rightarrow> True | ArrayT _ _ _ _ \<Rightarrow> \<not> is_complete H t
     | SUT _ _ _ _ \<Rightarrow> \<not> is_complete H t | _ \<Rightarrow> False)"

definition is_object :: "ctype \<Rightarrow> bool" where
  "is_object t = (case t of FunctionT _ _ _ _ _ \<Rightarrow> False | _ \<Rightarrow> True)"

lemmas ctype_preds = const_of_def is_integral_def is_floating_def is_arith_def is_pointer_def
  is_function_def is_void_def is_array_def is_struct_union_def is_bool_def is_scalar_def
  is_complete_def is_incomplete_def is_object_def

section \<open>Copies\<close>

text \<open>\<open>copy.copy\<close> of a struct makes a new object, at the given fresh address, with the same
  members (of that moment) and the same \<open>_orig\<close>; every other type is a value.\<close>

definition set_const :: "bool \<Rightarrow> ctype \<Rightarrow> ctype" where
  "set_const c t = (case t of IntegerT og sz sg b _ \<Rightarrow> IntegerT og sz sg b c
     | FloatT og sz ld _ \<Rightarrow> FloatT og sz ld c | VoidT _ \<Rightarrow> VoidT c
     | PointerT arg sz _ \<Rightarrow> PointerT arg sz c | ArrayT el n sz _ \<Rightarrow> ArrayT el n sz c
     | FunctionT args ret ni va _ \<Rightarrow> FunctionT args ret ni va c
     | SUT k a og _ \<Rightarrow> SUT k a og c)"

definition copy_const :: "bool \<Rightarrow> nat \<Rightarrow> sheap \<Rightarrow> ctype \<Rightarrow> sheap \<times> ctype" where
  "copy_const c fresh H t = (case t of
       SUT k a og _ \<Rightarrow> (H(fresh := H a), SUT k fresh og c)
     | _ \<Rightarrow> (H, set_const c t))"

definition make_const :: "nat \<Rightarrow> sheap \<Rightarrow> ctype \<Rightarrow> sheap \<times> ctype" where
  "make_const = copy_const True"

definition make_unqual :: "nat \<Rightarrow> sheap \<Rightarrow> ctype \<Rightarrow> sheap \<times> ctype" where
  "make_unqual = copy_const False"

text \<open>Defined on integer types only; the base class raises.\<close>

definition make_unsigned :: "ctype \<Rightarrow> ctype option" where
  "make_unsigned t = (case t of IntegerT og sz sg b c \<Rightarrow> Some (IntegerT og sz False b c) | _ \<Rightarrow> None)"

section \<open>Compatibility\<close>

text \<open>
  \<open>compatible\<close> is the base method for every class but \<open>ArrayCType\<close>, which overrides it and leaves
  \<open>weak_compat\<close> raising; \<open>weak_compat_py\<close> is the method a caller can invoke.
\<close>

lemma zip_arg_size: "(a, b) \<in> set (zip args args') \<Longrightarrow> size a \<le> size_list size args"
  by (auto dest: set_zip_leftD intro: size_list_estimation')

function (sequential) compatible :: "ctype \<Rightarrow> ctype \<Rightarrow> bool"
  and weak_compat :: "ctype \<Rightarrow> ctype \<Rightarrow> bool" where
  "compatible (ArrayT el n sz c) u = (case u of
       ArrayT el' n' _ _ \<Rightarrow> compatible el el' \<and> (n = None \<or> n' = None \<or> n = n')
     | _ \<Rightarrow> False)"
| "compatible t u = (weak_compat t u \<and> const_of t = const_of u)"
| "weak_compat (IntegerT og sz sg b c) u = (case u of
       IntegerT og' _ sg' b' _ \<Rightarrow> og' = og \<and> sg = sg' \<and> b = b' | _ \<Rightarrow> False)"
| "weak_compat (FloatT og sz ld c) u = (case u of FloatT og' _ _ _ \<Rightarrow> og' = og | _ \<Rightarrow> False)"
| "weak_compat (VoidT c) u = is_void u"
| "weak_compat (PointerT arg sz c) u = (case u of PointerT arg' _ _ \<Rightarrow> compatible arg arg' | _ \<Rightarrow> False)"
| "weak_compat (FunctionT args ret ni va c) u = (case u of
       FunctionT args' ret' ni' _ _ \<Rightarrow>
         (if \<not> compatible ret ret' then False
          else if \<not> ni \<and> \<not> ni' then
            (if length args \<noteq> length args' then False
             else \<not> list_ex (\<lambda>(a1, a2). \<not> compatible a1 a2) (zip args args'))
          else True)
     | _ \<Rightarrow> False)"
| "weak_compat (SUT k a og c) u = (case u of SUT _ _ og' _ \<Rightarrow> og = og' | _ \<Rightarrow> False)"
| "weak_compat (ArrayT el n sz c) u = False"
  by pat_completeness auto
termination
  by (relation "measure (\<lambda>x. case x of Inl (t, u) \<Rightarrow> 2 * size t + 1 | Inr (t, u) \<Rightarrow> 2 * size t)")
     (auto dest!: zip_arg_size)

definition weak_compat_py :: "ctype \<Rightarrow> ctype \<Rightarrow> bool option" where
  "weak_compat_py t u = (if is_array t then None else Some (weak_compat t u))"

section \<open>Alignment\<close>

text \<open>
  The base rule: \<open>self.size if self.size and self.size <= 8 else 8\<close>.  \<open>alignment\<close> recurses through
  array elements and members; the fuel bounds the nesting, and \<^const>\<open>None\<close> is the recursion
  a struct that contained itself by value would not return from.
\<close>

definition base_alignment :: "int \<Rightarrow> int" where
  "base_alignment sz = (if sz \<noteq> 0 \<and> sz \<le> 8 then sz else 8)"

fun max_alignment :: "int option list \<Rightarrow> int option" where
  "max_alignment [] = Some 1"
| "max_alignment [a] = a"
| "max_alignment (a # as) = (case (a, max_alignment as) of
     (Some x, Some y) \<Rightarrow> Some (max x y) | _ \<Rightarrow> None)"

fun alignment :: "nat \<Rightarrow> sheap \<Rightarrow> ctype \<Rightarrow> int option" where
  "alignment 0 H t = None"
| "alignment (Suc fuel) H (ArrayT el n sz c) = alignment fuel H el"
| "alignment (Suc fuel) H (SUT k a og c) =
     (case H a of None \<Rightarrow> Some 1
      | Some ob \<Rightarrow> (case so_members ob of None \<Rightarrow> Some 1
         | Some ms \<Rightarrow> max_alignment (map (\<lambda>(_, t). alignment fuel H t) ms)))"
| "alignment (Suc fuel) H t = Some (base_alignment (size_of H t))"

section \<open>Completing a struct or union\<close>

definition starts_with :: "string \<Rightarrow> string \<Rightarrow> bool" where
  "starts_with p s = (take (length p) s = p)"

fun strip_array :: "ctype \<Rightarrow> ctype" where
  "strip_array (ArrayT el n sz c) = strip_array el"
| "strip_array t = t"

definition tag_of :: "sheap \<Rightarrow> ctype \<Rightarrow> string option" where
  "tag_of H t = (case t of SUT _ a _ _ \<Rightarrow> (case H a of None \<Rightarrow> None | Some ob \<Rightarrow> so_tag ob) | _ \<Rightarrow> None)"

text \<open>A nested aggregate keeps all its members: the loop both \<open>set_members\<close> methods share.\<close>

definition mark_nested :: "sheap \<Rightarrow> (string \<times> ctype) list \<Rightarrow> me_state \<Rightarrow> me_state" where
  "mark_nested H ms s = fold (\<lambda>(_, t) s. let inner = strip_array t in
     if is_struct_union inner then mark_ineligible (tag_of H inner) s else s) ms s"

definition get_offset :: "sobj \<Rightarrow> string \<Rightarrow> (int \<times> ctype) option" where
  "get_offset ob m = map_of (so_offsets ob) m"

definition get_bitfield :: "sobj \<Rightarrow> string \<Rightarrow> (int \<times> bool) option" where
  "get_bitfield ob m = map_of (so_bitfields ob) m"

type_synonym offsets = "(string \<times> (int \<times> ctype)) list"
type_synonym bitfields = "(string \<times> (int \<times> bool)) list"

definition promote_inner :: "int \<Rightarrow> bitfields \<Rightarrow> string \<times> (int \<times> ctype) \<Rightarrow>
    offsets \<times> bitfields \<Rightarrow> offsets \<times> bitfields" where
  "promote_inner base inner_bfs entry st =
     (case entry of (nm, off, t) \<Rightarrow> (case st of (offs, bfs) \<Rightarrow>
       if starts_with ''<anon-member-'' nm then (offs, bfs)
       else (AList.update nm (base + off, t) offs,
             (case map_of inner_bfs nm of None \<Rightarrow> bfs | Some bf \<Rightarrow> AList.update nm bf bfs))))"

definition promote_anon :: "sheap \<Rightarrow> string \<Rightarrow> ctype \<Rightarrow> int \<Rightarrow> offsets \<times> bitfields \<Rightarrow>
    offsets \<times> bitfields" where
  "promote_anon H m t base st =
     (if \<not> (starts_with ''<anon-member-'' m \<and> is_struct_union t) then st
      else (case t of
          SUT _ a _ _ \<Rightarrow> (case H a of None \<Rightarrow> st
            | Some ob \<Rightarrow> fold (promote_inner base (so_bitfields ob)) (so_offsets ob) st)
        | _ \<Rightarrow> st))"

definition is_flexible :: "sheap \<Rightarrow> ctype \<Rightarrow> bool" where
  "is_flexible H t = (is_array t \<and> is_incomplete H t)"

text \<open>The layout loop of \<open>StructCType.set_members\<close>.\<close>

fun layout_members :: "nat \<Rightarrow> sheap \<Rightarrow> (string \<times> ctype) list \<Rightarrow> int \<Rightarrow> offsets \<times> bitfields \<Rightarrow>
    (int \<times> offsets \<times> bitfields) option" where
  "layout_members fuel H [] cur st = Some (cur, st)"
| "layout_members fuel H ((m, t) # ms) cur st =
     (case alignment fuel H t of None \<Rightarrow> None
      | Some al \<Rightarrow>
          let cur = (if al > 1 then align_up cur al else cur);
              st = (AList.update m (cur, t) (fst st), snd st);
              st = promote_anon H m t cur st
          in layout_members fuel H ms (if is_flexible H t then cur else cur + size_of H t) st)"

text \<open>The analysis bookkeeping of \<open>StructCType.set_members\<close>, or the dropping of the members
  the analysis proved unused.\<close>

definition struct_collect :: "sheap \<Rightarrow> string option \<Rightarrow> (string \<times> ctype) list \<Rightarrow> me_state \<Rightarrow> me_state" where
  "struct_collect H tag ms s =
     (let s = (if list_ex (\<lambda>(m, _). starts_with ''<'' m) ms then mark_ineligible tag s else s);
          s = record_all_members tag (filter (\<lambda>m. \<not> starts_with ''<'' m) (map fst ms)) s
      in mark_nested H ms s)"

definition drop_unused :: "me_state \<Rightarrow> string option \<Rightarrow> (string \<times> 'a) list \<Rightarrow> (string \<times> 'a) list" where
  "drop_unused s tag ms = filter (\<lambda>(m, _). m \<notin> removable_for tag s) ms"

definition struct_set_members :: "nat \<Rightarrow> nat \<Rightarrow> (string \<times> ctype) list \<Rightarrow> bitfields \<Rightarrow>
    me_state \<times> sheap \<Rightarrow> (me_state \<times> sheap) option" where
  "struct_set_members fuel a members bfs st = (case st of (s, H) \<Rightarrow>
     (case H a of None \<Rightarrow> None
      | Some ob \<Rightarrow>
        let s' = (if collecting s then struct_collect H (so_tag ob) members s else s);
            ms = (if collecting s then members else drop_unused s (so_tag ob) members);
            bs = (if collecting s then bfs else drop_unused s (so_tag ob) bfs);
            ob1 = ob\<lparr>so_members := Some ms, so_bitfields := bs\<rparr>;
            H1 = H(a \<mapsto> ob1)
        in (case layout_members fuel H1 ms 0 (so_offsets ob1, bs) of None \<Rightarrow> None
            | Some (cur, offs, bs') \<Rightarrow>
               (case max_alignment (map (\<lambda>(_, t). alignment fuel H1 t) ms) of None \<Rightarrow> None
                | Some al \<Rightarrow> Some (s', H(a \<mapsto> ob1\<lparr>so_offsets := offs, so_bitfields := bs',
                    so_size := (if al > 1 then align_up cur al else cur)\<rparr>))))))"

text \<open>Union members all sit at offset 0.\<close>

fun union_members :: "sheap \<Rightarrow> (string \<times> ctype) list \<Rightarrow> offsets \<times> bitfields \<Rightarrow> offsets \<times> bitfields" where
  "union_members H [] st = st"
| "union_members H ((m, t) # ms) st =
     union_members H ms (promote_anon H m t 0 (AList.update m (0, t) (fst st), snd st))"

definition max_size :: "sheap \<Rightarrow> (string \<times> ctype) list \<Rightarrow> int" where
  "max_size H ms = (case map (\<lambda>(_, t). size_of H t) ms of [] \<Rightarrow> 0 | x # xs \<Rightarrow> fold max xs x)"

definition union_set_members :: "nat \<Rightarrow> nat \<Rightarrow> (string \<times> ctype) list \<Rightarrow> bitfields \<Rightarrow>
    me_state \<times> sheap \<Rightarrow> (me_state \<times> sheap) option" where
  "union_set_members fuel a ms bfs st = (case st of (s, H) \<Rightarrow>
     (case H a of None \<Rightarrow> None
      | Some ob \<Rightarrow>
        let s' = (if collecting s then mark_nested H ms s else s);
            ob1 = ob\<lparr>so_members := Some ms, so_bitfields := bfs\<rparr>;
            H1 = H(a \<mapsto> ob1);
            raw = max_size H1 ms
        in (case max_alignment (map (\<lambda>(_, t). alignment fuel H1 t) ms) of None \<Rightarrow> None
            | Some al \<Rightarrow>
               (case union_members H1 ms (so_offsets ob1, bfs) of (offs, bs) \<Rightarrow>
                 Some (s', H(a \<mapsto> ob1\<lparr>so_offsets := offs, so_bitfields := bs,
                    so_size := (if al > 1 then align_up raw al else raw)\<rparr>))))))"

section \<open>The predefined types\<close>

definition void_t :: ctype where "void_t = VoidT False"
definition bool_t :: ctype where "bool_t = IntegerT 1 1 False True False"
definition char_t :: ctype where "char_t = IntegerT 2 1 True False False"
definition unsig_char :: ctype where "unsig_char = IntegerT 3 1 False False False"
definition short_t :: ctype where "short_t = IntegerT 4 2 True False False"
definition unsig_short :: ctype where "unsig_short = IntegerT 5 2 False False False"
definition integer_t :: ctype where "integer_t = IntegerT 6 4 True False False"
definition unsig_int :: ctype where "unsig_int = IntegerT 7 4 False False False"
definition longint :: ctype where "longint = IntegerT 8 8 True False False"
definition unsig_longint :: ctype where "unsig_longint = IntegerT 9 8 False False False"
definition flt :: ctype where "flt = FloatT 10 4 False False"
definition dbl :: ctype where "dbl = FloatT 11 8 False False"
definition longdouble :: ctype where "longdouble = FloatT 12 8 True False"

definition int_max :: int where "int_max = 2147483647"
definition int_min :: int where "int_min = -2147483648"
definition unsig_char_max :: int where "unsig_char_max = 255"

lemmas basic_types = void_t_def bool_t_def char_t_def unsig_char_def short_t_def unsig_short_def
  integer_t_def unsig_int_def longint_def unsig_longint_def flt_def dbl_def longdouble_def

section \<open>Compatibility is reflexive and symmetric\<close>

lemma compatible_non_array:
  "\<not> is_array t \<Longrightarrow> compatible t u = (weak_compat t u \<and> const_of t = const_of u)"
  by (cases t) (auto simp: is_array_def)

lemma zip_same_ball: "(\<forall>x \<in> set xs. P x x) \<Longrightarrow> \<not> list_ex (\<lambda>(a, b). \<not> P a b) (zip xs xs)"
  by (induction xs) auto

lemma compatible_refl [simp]: "compatible t t"
proof (induction t)
  case (FunctionT args ret ni va c)
  then show ?case using zip_same_ball [of args compatible] by simp
qed (auto simp: is_void_def)

lemma zip_same_compatible [simp]: "\<not> list_ex (\<lambda>(a, b). \<not> compatible a b) (zip xs xs)"
  by (rule zip_same_ball) simp

lemma list_ex_zip_swap:
  assumes "\<And>a b. (a, b) \<in> set (zip xs ys) \<Longrightarrow> P a b \<Longrightarrow> P b a"
  shows "\<not> list_ex (\<lambda>(a, b). \<not> P a b) (zip xs ys) \<Longrightarrow> \<not> list_ex (\<lambda>(a, b). \<not> P a b) (zip ys xs)"
  using assms
proof (induction xs arbitrary: ys)
  case (Cons x xs)
  then show ?case by (cases ys) auto
qed simp

lemma compatible_sym_aux:
  "compatible t u \<Longrightarrow> compatible u t"
  "weak_compat t u \<Longrightarrow> weak_compat u t"
proof (induction t u and t u rule: compatible_weak_compat.induct)
  case (1 el n sz c u)
  then show ?case by (auto split: ctype.splits)
next
  case (7 args ret ni va c u)
  from "7.prems" obtain args' ret' ni' va' c' where u: "u = FunctionT args' ret' ni' va' c'"
    by (auto split: ctype.splits)
  have r: "compatible ret' ret" using "7.IH"(1) [OF u] "7.prems" u by (auto split: if_splits)
  have a: "\<not> list_ex (\<lambda>(a1, a2). \<not> compatible a1 a2) (zip args' args)" if n: "\<not> ni" "\<not> ni'"
  proof (rule list_ex_zip_swap)
    have ok: "compatible ret ret'" "length args = length args'"
      and z: "\<not> list_ex (\<lambda>(a1, a2). \<not> compatible a1 a2) (zip args args')"
      using "7.prems" n unfolding u by (simp_all split: if_splits)
    show "\<not> list_ex (\<lambda>(a1, a2). \<not> compatible a1 a2) (zip args args')" by (rule z)
    show "compatible b a" if "(a, b) \<in> set (zip args args')" "compatible a b" for a b
      using "7.IH"(2) [OF u] ok n that by simp
  qed
  show ?case using "7.prems" u r a by (auto split: if_splits)
qed (auto split: ctype.splits simp: is_void_def const_of_def)

text \<open>Compatibility of C types is a symmetric and reflexive relation, so a redeclaration check
  does not depend on the order of the declarations.\<close>

theorem compatible_equivalence_part:
  "compatible t t \<and> compatible t u = compatible u t"
  using compatible_sym_aux(1) by auto

text \<open>A qualifier copy stays weakly compatible with its origin and differs in \<open>const\<close> alone.\<close>

lemma weak_compat_set_const:
  "\<not> is_array t \<Longrightarrow> weak_compat (set_const c t) t"
  using compatible_refl [of t]
  by (cases t) (auto simp: set_const_def is_array_def is_void_def)

lemma const_set_const [simp]: "const_of (set_const c t) = c"
  by (cases t) (simp_all add: set_const_def const_of_def)

lemma is_array_set_const [simp]: "is_array (set_const c t) = is_array t"
  by (cases t) (simp_all add: set_const_def is_array_def)

lemma snd_copy_const_compat:
  "\<not> is_array t \<Longrightarrow> weak_compat (snd (copy_const c fresh H t)) t \<and> const_of (snd (copy_const c fresh H t)) = c"
  using weak_compat_set_const [of t c]
  by (cases t) (simp_all add: copy_const_def is_array_def const_of_def set_const_def is_void_def)

section \<open>Layout of structs\<close>

text \<open>Well-formed types and stores: no size is negative.\<close>

fun wf_type :: "ctype \<Rightarrow> bool" where
  "wf_type (IntegerT og sz sg b c) = (0 \<le> sz)"
| "wf_type (FloatT og sz ld c) = (0 \<le> sz)"
| "wf_type (PointerT arg sz c) = (0 \<le> sz)"
| "wf_type (ArrayT el n sz c) = (0 \<le> sz \<and> wf_type el)"
| "wf_type t = True"

definition wf_obj :: "sobj \<Rightarrow> bool" where
  "wf_obj ob = (0 \<le> so_size ob \<and>
     (\<forall>ms. so_members ob = Some ms \<longrightarrow> list_all (\<lambda>(m, t). wf_type t) ms))"

definition wf_heap :: "sheap \<Rightarrow> bool" where
  "wf_heap H = (\<forall>a ob. H a = Some ob \<longrightarrow> wf_obj ob)"

lemma wf_heapD: "wf_heap H \<Longrightarrow> H a = Some ob \<Longrightarrow> wf_obj ob"
  by (simp add: wf_heap_def)

lemma wf_heap_upd: "wf_heap H \<Longrightarrow> wf_obj ob \<Longrightarrow> wf_heap (H(a \<mapsto> ob))"
  by (simp add: wf_heap_def)

lemma size_of_nonneg: "wf_heap H \<Longrightarrow> wf_type t \<Longrightarrow> 0 \<le> size_of H t"
  by (cases t) (auto simp: size_of_def wf_obj_def dest: wf_heapD split: option.splits)

lemma max_alignment_pos:
  "max_alignment as = Some x \<Longrightarrow> (\<And>y. Some y \<in> set as \<Longrightarrow> 0 < y) \<Longrightarrow> 0 < x"
proof (induction as arbitrary: x rule: max_alignment.induct)
  case (3 a b as)
  from "3.prems"(1) obtain p q where "a = Some p" "max_alignment (b # as) = Some q" "x = max p q"
    by (auto split: option.splits)
  with "3.IH" [of q] "3.prems"(2) show ?case by (auto simp: less_max_iff_disj)
qed auto

lemma max_alignment_ge:
  "max_alignment as = Some x \<Longrightarrow> Some y \<in> set as \<Longrightarrow> y \<le> x"
proof (induction as arbitrary: x y rule: max_alignment.induct)
  case (3 a b as)
  from "3.prems"(1) obtain p q where "a = Some p" "max_alignment (b # as) = Some q" "x = max p q"
    by (auto split: option.splits)
  with "3.IH" [of q y] "3.prems"(2) show ?case by (auto simp: le_max_iff_disj)
qed auto

lemma base_alignment_pos: "0 \<le> sz \<Longrightarrow> 0 < base_alignment sz"
  by (simp add: base_alignment_def)

lemma alignment_pos:
  "wf_heap H \<Longrightarrow> wf_type t \<Longrightarrow> alignment fuel H t = Some al \<Longrightarrow> 0 < al"
proof (induction fuel H t arbitrary: al rule: alignment.induct)
  case (3 fuel H k a og c)
  show ?case
  proof (cases "H a")
    case None
    with "3.prems" show ?thesis by simp
  next
    case (Some ob)
    show ?thesis
    proof (cases "so_members ob")
      case None
      with "3.prems" Some show ?thesis by simp
    next
      case ms: (Some ms)
      have wf: "wf_type t" if "(m, t) \<in> set ms" for m t
        using wf_heapD [OF "3.prems"(1) Some] ms that by (auto simp: wf_obj_def list_all_iff)
      have "max_alignment (map (\<lambda>(_, t). alignment fuel H t) ms) = Some al"
        using "3.prems" Some ms by simp
      then show ?thesis
      proof (rule max_alignment_pos)
        fix y assume "Some y \<in> set (map (\<lambda>(_, t). alignment fuel H t) ms)"
        then obtain m t where mt: "(m, t) \<in> set ms" and y: "alignment fuel H t = Some y"
          by auto
        show "0 < y" using "3.IH" [OF Some ms mt refl "3.prems"(1) wf [OF mt] y] .
      qed
    qed
  qed
qed (auto intro!: base_alignment_pos size_of_nonneg simp: wf_heap_def)

text \<open>The sequence of offsets a layout assigns: each member starts at or after the end of the one
  before it, at a multiple of its alignment; a flexible array member takes no space.\<close>

definition occupied :: "sheap \<Rightarrow> ctype \<Rightarrow> int" where
  "occupied H t = (if is_flexible H t then 0 else size_of H t)"

fun laid_out :: "nat \<Rightarrow> sheap \<Rightarrow> (string \<rightharpoonup> (int \<times> ctype)) \<Rightarrow> (string \<times> ctype) list \<Rightarrow> int \<Rightarrow> int \<Rightarrow> bool" where
  "laid_out fuel H D [] lo hi = (lo = hi)"
| "laid_out fuel H D ((m, t) # ms) lo hi =
     (\<exists>off al. D m = Some (off, t) \<and> alignment fuel H t = Some al \<and> lo \<le> off \<and> off < lo + al \<and>
        al dvd off \<and> laid_out fuel H D ms (off + occupied H t) hi)"

lemma laid_out_cong:
  "(\<And>m. m \<in> fst ` set ms \<Longrightarrow> D m = D' m) \<Longrightarrow> laid_out fuel H D ms lo hi = laid_out fuel H D' ms lo hi"
  by (induction ms arbitrary: lo) auto

lemma promote_anon_plain: "\<not> starts_with ''<anon-member-'' m \<Longrightarrow> promote_anon H m t off st = st"
  by (simp add: promote_anon_def)

lemma layout_members_laid_out:
  assumes "wf_heap H" and "list_all (\<lambda>(m, t). wf_type t) ms" and "distinct (map fst ms)"
    and "\<forall>m \<in> fst ` set ms. \<not> starts_with ''<anon-member-'' m"
    and "layout_members fuel H ms cur st = Some (cur', st')"
  shows "laid_out fuel H (map_of (fst st')) ms cur cur' \<and>
         (\<forall>n. n \<notin> fst ` set ms \<longrightarrow> map_of (fst st') n = map_of (fst st) n)"
  using assms
proof (induction ms arbitrary: cur st)
  case (Cons x ms)
  obtain m t where x: "x = (m, t)" by (cases x)
  obtain al where al: "alignment fuel H t = Some al"
    using Cons.prems(5) x by (auto split: option.splits)
  have pos: "0 < al" using alignment_pos [OF Cons.prems(1) _ al] Cons.prems(2) x by simp
  define off where "off = (if al > 1 then align_up cur al else cur)"
  define st1 where "st1 = (AList.update m (off, t) (fst st), snd st)"
  have rest: "layout_members fuel H ms (off + occupied H t) st1 = Some (cur', st')"
    using Cons.prems(4,5) x al
    by (simp add: Let_def off_def st1_def promote_anon_plain occupied_def split: if_splits)
  have IH: "laid_out fuel H (map_of (fst st')) ms (off + occupied H t) cur'"
    "\<And>n. n \<notin> fst ` set ms \<Longrightarrow> map_of (fst st') n = map_of (fst st1) n"
    using Cons.IH [OF Cons.prems(1) _ _ _ rest] Cons.prems(2-4) x by auto
  have m: "map_of (fst st') m = Some (off, t)"
    using IH(2) [of m] Cons.prems(3) x by (simp add: st1_def update_conv)
  have bounds: "cur \<le> off" "off < cur + al" "al dvd off"
  proof -
    show "cur \<le> off" using align_up_ge [OF pos] by (simp add: off_def)
    show "off < cur + al" using align_up_less [OF pos] pos by (simp add: off_def)
    show "al dvd off" using pos by (cases "al = 1") (auto simp: off_def)
  qed
  have other: "map_of (fst st') n = map_of (fst st) n" if "n \<notin> fst ` set (x # ms)" for n
    using IH(2) [of n] that x by (simp add: st1_def update_conv)
  show ?case using x m al bounds IH(1) other by auto
qed simp

lemma occupied_nonneg: "wf_heap H \<Longrightarrow> wf_type t \<Longrightarrow> 0 \<le> occupied H t"
  by (simp add: occupied_def size_of_nonneg)

lemma laid_out_bounds:
  assumes "wf_heap H" and "list_all (\<lambda>(m, t). wf_type t) ms" and "laid_out fuel H D ms lo hi"
  shows "lo \<le> hi"
  using assms
proof (induction ms arbitrary: lo)
  case (Cons x ms)
  then show ?case using occupied_nonneg [OF Cons.prems(1), of "snd x"] by (cases x) force
qed simp

lemma laid_out_nth:
  assumes "wf_heap H" and "list_all (\<lambda>(m, t). wf_type t) ms" and "laid_out fuel H D ms lo hi"
    and "i < length ms" and "ms ! i = (m, t)"
  obtains off al where "D m = Some (off, t)" "alignment fuel H t = Some al" "al dvd off" "lo \<le> off"
    "laid_out fuel H D (drop (Suc i) ms) (off + occupied H t) hi"
  using assms
proof (induction ms arbitrary: lo i thesis)
  case (Cons x ms)
  obtain m0 t0 where x: "x = (m0, t0)" by (cases x)
  from Cons.prems(4) x obtain off0 al0 where hd: "D m0 = Some (off0, t0)" "alignment fuel H t0 = Some al0"
    "lo \<le> off0" "al0 dvd off0" and tl: "laid_out fuel H D ms (off0 + occupied H t0) hi" by auto
  show ?case
  proof (cases i)
    case 0
    with Cons.prems(6) x have "m = m0" "t = t0" by auto
    with hd tl 0 Cons.prems(1) show ?thesis by auto
  next
    case (Suc k)
    have nn: "0 \<le> occupied H t0" using occupied_nonneg [OF Cons.prems(2)] Cons.prems(3) x by simp
    show ?thesis
    proof (rule Cons.IH [OF _ Cons.prems(2) _ tl, of k])
      show "list_all (\<lambda>(m, t). wf_type t) ms" using Cons.prems(3) by simp
      show "k < length ms" using Cons.prems(5) Suc by simp
      show "ms ! k = (m, t)" using Cons.prems(6) Suc by simp
      fix off al
      assume "D m = Some (off, t)" "alignment fuel H t = Some al" "al dvd off"
        "off0 + occupied H t0 \<le> off" "laid_out fuel H D (drop (Suc k) ms) (off + occupied H t) hi"
      then show thesis using Cons.prems(1) [of off al] hd nn Suc by simp
    qed
  qed
qed simp

text \<open>\<open>alignment\<close> reads the members of aggregates and the sizes of scalars only.\<close>

lemma alignment_cong:
  "(\<And>a. map_option so_members (H a) = map_option so_members (H' a)) \<Longrightarrow>
   alignment fuel H t = alignment fuel H' t"
proof (induction fuel H t rule: alignment.induct)
  case (3 fuel H k a og c)
  have eq: "map_option so_members (H a) = map_option so_members (H' a)" by (rule "3.prems")
  show ?case
  proof (cases "H a")
    case None
    with eq show ?thesis by simp
  next
    case (Some ob)
    with eq obtain ob' where ob': "H' a = Some ob'" "so_members ob' = so_members ob"
      by (cases "H' a") auto
    show ?thesis
    proof (cases "so_members ob")
      case None
      with Some ob' show ?thesis by simp
    next
      case ms: (Some ms)
      have "map (\<lambda>(_, t). alignment fuel H t) ms = map (\<lambda>(_, t). alignment fuel H' t) ms"
        using "3.IH" [OF Some ms _ refl "3.prems"] by auto
      then show ?thesis using Some ms ob' by (simp only: alignment.simps option.case)
    qed
  qed
qed (simp_all add: size_of_def)

lemma max_alignment_None: "None \<in> set as \<Longrightarrow> max_alignment as = None"
  by (induction as rule: max_alignment.induct) (auto split: option.splits)

text \<open>A struct that holds itself by value has no alignment.\<close>

lemma alignment_self_None:
  assumes "H a = Some ob" and "so_members ob = Some ms" and "(m, SUT k' a og' c') \<in> set ms"
  shows "alignment fuel H (SUT k a og c) = None"
proof (induction fuel arbitrary: k og c)
  case (Suc fuel)
  have "None \<in> set (map (\<lambda>(_, t). alignment fuel H t) ms)"
    using assms(3) Suc.IH [of k' og' c'] by force
  then show ?case using assms by (simp add: max_alignment_None)
qed simp

lemma laid_out_alignment:
  "laid_out fuel H D ms lo hi \<Longrightarrow> (m, t) \<in> set ms \<Longrightarrow> \<exists>al. alignment fuel H t = Some al"
  by (induction ms arbitrary: lo) auto

lemma size_of_upd_other:
  "(\<And>k og c. t \<noteq> SUT k a og c) \<Longrightarrow> size_of (H(a \<mapsto> ob)) t = size_of H t"
  by (cases t) (auto simp: size_of_def)

lemma is_flexible_heap: "is_flexible H t = is_flexible H' t"
  by (cases t) (auto simp: is_flexible_def is_array_def is_incomplete_def is_complete_def)

lemma laid_out_change_heap:
  assumes "\<And>m t. (m, t) \<in> set ms \<Longrightarrow> alignment fuel H t = alignment fuel H' t \<and> size_of H t = size_of H' t"
  shows "laid_out fuel H D ms lo hi = laid_out fuel H' D ms lo hi"
  using assms
proof (induction ms arbitrary: lo)
  case (Cons x ms)
  obtain m t where x: "x = (m, t)" by (cases x)
  have "occupied H t = occupied H' t" "alignment fuel H t = alignment fuel H' t"
    using Cons.prems [of m t] x is_flexible_heap [of H t H'] by (simp_all add: occupied_def del: not_None_eq)
  moreover have "laid_out fuel H D ms l hi = laid_out fuel H' D ms l hi" for l
    by (rule Cons.IH) (use Cons.prems in auto)
  ultimately show ?case using x by simp
qed simp

text \<open>What \<open>set_members\<close> establishes for a struct, in the final store.\<close>

lemma struct_set_members_spec:
  assumes wf: "wf_heap H" and Ha: "H a = Some ob" and wt: "list_all (\<lambda>(m, t). wf_type t) members"
    and dist: "distinct (map fst members)"
    and plain: "\<forall>m \<in> fst ` set members. \<not> starts_with ''<anon-member-'' m"
    and set: "struct_set_members fuel a members bfs (s, H) = Some (s', H')"
  defines "ms \<equiv> if collecting s then members else drop_unused s (so_tag ob) members"
  obtains ob' cur al where "H' = H(a \<mapsto> ob')" "so_members ob' = Some ms" "wf_heap H'"
    "laid_out fuel H' (get_offset ob') ms 0 cur" "cur \<le> so_size ob'" "al dvd so_size ob'" "0 < al"
    "max_alignment (map (\<lambda>(_, t). alignment fuel H' t) ms) = Some al"
    "list_all (\<lambda>(m, t). wf_type t) ms"
proof -
  define bs where "bs = (if collecting s then bfs else drop_unused s (so_tag ob) bfs)"
  define ob1 where "ob1 = ob\<lparr>so_members := Some ms, so_bitfields := bs\<rparr>"
  define H1 where "H1 = H(a \<mapsto> ob1)"
  from set obtain cur offs bs' al where
    lay: "layout_members fuel H1 ms 0 (so_offsets ob1, bs) = Some (cur, offs, bs')" and
    al: "max_alignment (map (\<lambda>(_, t). alignment fuel H1 t) ms) = Some al" and
    H': "H' = H(a \<mapsto> ob1\<lparr>so_offsets := offs, so_bitfields := bs',
        so_size := (if al > 1 then align_up cur al else cur)\<rparr>)"
    using Ha by (auto simp: struct_set_members_def Let_def ms_def bs_def ob1_def H1_def
        split: option.splits)
  define ob' where "ob' = ob1\<lparr>so_offsets := offs, so_bitfields := bs',
        so_size := (if al > 1 then align_up cur al else cur)\<rparr>"
  have sub: "set ms \<subseteq> set members" by (auto simp: ms_def drop_unused_def)
  have wt': "list_all (\<lambda>(m, t). wf_type t) ms" using wt sub by (auto simp: list_all_iff)
  have wfo: "wf_obj ob1" using wf_heapD [OF wf Ha] wt' by (simp add: ob1_def wf_obj_def)
  have wf1: "wf_heap H1" using wf wfo by (simp add: H1_def wf_heap_upd)
  have dist': "distinct (map fst ms)"
    using dist by (auto simp: ms_def drop_unused_def distinct_map_filter)
  have plain': "\<forall>m \<in> fst ` set ms. \<not> starts_with ''<anon-member-'' m" using plain sub by auto
  have lo1: "laid_out fuel H1 (map_of offs) ms 0 cur"
    using layout_members_laid_out [OF wf1 wt' dist' plain' lay] by simp
  have alpos: "0 < al"
  proof (rule max_alignment_pos [OF al])
    fix y assume "Some y \<in> set (map (\<lambda>(_, t). alignment fuel H1 t) ms)"
    then obtain m t where "(m, t) \<in> set ms" "alignment fuel H1 t = Some y" by auto
    then show "0 < y" using alignment_pos [OF wf1] wt' by (auto simp: list_all_iff)
  qed
  have cur0: "0 \<le> cur" using laid_out_bounds [OF wf1 wt' lo1] .
  have size: "cur \<le> so_size ob'" "al dvd so_size ob'"
  proof -
    show "cur \<le> so_size ob'" using align_up_ge [OF alpos] by (simp add: ob'_def)
    show "al dvd so_size ob'" using alpos by (cases "al = 1") (auto simp: ob'_def)
  qed
  have wf': "wf_heap H'" using wf wfo size cur0
    by (auto simp: H' ob'_def [symmetric] intro!: wf_heap_upd)
      (simp add: wf_obj_def ob'_def)
  have mem: "map_option so_members (H1 b) = map_option so_members (H' b)" for b
    by (simp add: H1_def H' ob1_def)
  have al': "alignment fuel H1 t = alignment fuel H' t" for t
    by (rule alignment_cong) (rule mem)
  have self: "t \<noteq> SUT k a og c" if "(m, t) \<in> set ms" for m t k og c
  proof
    assume t: "t = SUT k a og c"
    have "alignment fuel H1 t = None"
      unfolding t by (rule alignment_self_None [of _ _ ob1 ms m k og c])
        (use that t in \<open>auto simp: H1_def ob1_def\<close>)
    with laid_out_alignment [OF lo1 that] show False by simp
  qed
  have sz: "size_of H1 t = size_of H' t" if "(m, t) \<in> set ms" for m t
    using self [OF that] by (simp add: H1_def H' size_of_upd_other)
  have "laid_out fuel H' (map_of offs) ms 0 cur"
    using lo1 laid_out_change_heap [of ms fuel H1 H'] al' sz by auto
  moreover have "get_offset ob' = map_of offs"
    by (rule ext) (simp add: get_offset_def ob'_def)
  ultimately show thesis
    using that [of ob' cur al] H' size alpos al al' wf' wt' by (simp add: ob'_def ob1_def)
qed


definition me0 :: me_state where
  "me0 = \<lparr>me_collecting = False, me_accessed = Map.empty, me_ineligible = {},
     me_all_members = [], me_removable = Map.empty, me_enabled = False\<rparr>"

definition sample_heap :: sheap where
  "sample_heap = [0 \<mapsto> new_su (Some ''s'')]"

definition sample_members :: "(string \<times> ctype) list" where
  "sample_members = [(''a'', char_t), (''b'', integer_t), (''c'', char_t)]"

definition sample_struct :: sobj where
  "sample_struct = \<lparr>so_tag = Some ''s'', so_members = Some sample_members,
     so_offsets = [(''a'', 0, char_t), (''b'', 4, integer_t), (''c'', 8, char_t)],
     so_bitfields = [], so_size = 12\<rparr>"

lemma sample_set_members:
  "struct_set_members 2 0 sample_members [] (me0, sample_heap) =
     Some (me0, sample_heap(0 \<mapsto> sample_struct))"
  by (simp add: struct_set_members_def sample_heap_def sample_members_def sample_struct_def me0_def
      collecting_def drop_unused_def removable_for_def new_su_def Let_def basic_types
      numeral_2_eq_2 base_alignment_def size_of_def promote_anon_def starts_with_def
      is_flexible_def is_array_def align_up_def)


section \<open>Unions and promoted members\<close>

lemma fold_max_ge: "x \<le> fold max xs (x::int)"
  by (induction xs arbitrary: x) (auto intro: order_trans [OF max.cobounded2])

lemma fold_max_mem: "y \<in> set xs \<Longrightarrow> y \<le> fold max xs (x::int)"
proof (induction xs arbitrary: x)
  case (Cons a xs)
  then show ?case using fold_max_ge [of "max a x" xs] by auto
qed simp

lemma max_size_ge:
  assumes "(m, t) \<in> set ms"
  shows "size_of H t \<le> max_size H ms"
proof -
  obtain m0 t0 rest where ms: "ms = (m0, t0) # rest" using assms by (cases ms) auto
  show ?thesis
  proof (cases "t = t0")
    case True
    then show ?thesis using fold_max_ge by (simp add: ms max_size_def)
  next
    case False
    with assms ms have "size_of H t \<in> set (map (\<lambda>(_, t). size_of H t) rest)" by force
    then show ?thesis using fold_max_mem by (simp add: ms max_size_def)
  qed
qed

lemma union_members_offsets:
  assumes "distinct (map fst ms)" and "\<forall>m \<in> fst ` set ms. \<not> starts_with ''<anon-member-'' m"
  shows "map_of (fst (union_members H ms st)) n =
    (case map_of ms n of Some t \<Rightarrow> Some (0, t) | None \<Rightarrow> map_of (fst st) n)"
  using assms
proof (induction ms arbitrary: st)
  case (Cons x ms)
  obtain m t where x: "x = (m, t)" by (cases x)
  have "map_of ms m = None" using Cons.prems(1) x by (simp add: map_of_eq_None_iff)
  then show ?case
    using Cons.IH [of "(AList.update m (0, t) (fst st), snd st)"] Cons.prems x
    by (auto simp: promote_anon_plain update_conv split: option.splits)
qed simp

text \<open>C29: Every member of a completed union sits at offset 0, and the union is at least as large
  as each of them and a multiple of its alignment.\<close>

theorem union_layout_sound:
  assumes "distinct (map fst ms)"
    and "\<forall>m \<in> fst ` set ms. \<not> starts_with ''<anon-member-'' m"
    and "wf_heap H" and "H a = Some ob" and "list_all (\<lambda>(m, t). wf_type t) ms"
    and "union_set_members fuel a ms bfs (s, H) = Some (s', H')"
    and "(m, t) \<in> set ms"
  shows "\<exists>ob' al. H' a = Some ob' \<and> get_offset ob' m = Some (0, t) \<and> size_of H t \<le> so_size ob'
    \<and> alignment (Suc fuel) H' (SUT KUnion a a False) = Some al \<and> al dvd so_size ob'"
proof -
  define ob1 where "ob1 = ob\<lparr>so_members := Some ms, so_bitfields := bfs\<rparr>"
  define H1 where "H1 = H(a \<mapsto> ob1)"
  define raw where "raw = max_size H1 ms"
  obtain al offs bs where al: "max_alignment (map (\<lambda>(_, t). alignment fuel H1 t) ms) = Some al"
    and um: "union_members H1 ms (so_offsets ob1, bfs) = (offs, bs)"
    and H': "H' = H(a \<mapsto> ob1\<lparr>so_offsets := offs, so_bitfields := bs,
        so_size := (if al > 1 then align_up raw al else raw)\<rparr>)"
    using assms(4,6)
    by (auto simp: union_set_members_def Let_def ob1_def [symmetric] H1_def [symmetric] raw_def
        split: option.splits prod.splits)
  have wf1: "wf_heap H1"
    using assms(3,5) wf_heapD [OF assms(3,4)] by (auto simp: H1_def ob1_def wf_obj_def intro!: wf_heap_upd)
  have alpos: "0 < al"
  proof (rule max_alignment_pos [OF al])
    fix y assume "Some y \<in> set (map (\<lambda>(_, t). alignment fuel H1 t) ms)"
    then obtain m t where "(m, t) \<in> set ms" "alignment fuel H1 t = Some y" by auto
    then show "0 < y" using alignment_pos [OF wf1] assms(5) by (auto simp: list_all_iff)
  qed
  have off: "map_of offs m = Some (0, t)"
    using union_members_offsets [OF assms(1,2), of H1 "(so_offsets ob1, bfs)" m] um assms(1,7) by simp
  have "size_of H1 t = size_of H t"
    using assms(4) by (cases t) (auto simp: size_of_def H1_def ob1_def)
  then have sz: "size_of H t \<le> raw" using max_size_ge [OF assms(7), of H1] by (simp add: raw_def)
  have up: "size_of H t \<le> (if al > 1 then align_up raw al else raw)"
    using sz align_up_ge [OF alpos, of raw] by auto
  have dv: "al dvd (if al > 1 then align_up raw al else raw)"
    using alpos by (cases "al = 1") auto
  have "map (\<lambda>(_, t). alignment fuel H1 t) ms = map (\<lambda>(_, t). alignment fuel H' t) ms"
    by (rule map_cong [OF refl])
      (auto intro!: alignment_cong simp: H1_def H' ob1_def)
  with al have "max_alignment (map (\<lambda>(_, t). alignment fuel H' t) ms) = Some al" by simp
  then show ?thesis using H' off up dv by (simp add: ob1_def get_offset_def)
qed

theorem union_layout_sound_witness:
  "\<exists>H' ob' al. union_set_members 2 0 sample_members [] (me0, sample_heap) = Some (me0, H')
    \<and> H' 0 = Some ob' \<and> get_offset ob' ''b'' = Some (0, integer_t) \<and> 4 \<le> so_size ob'
    \<and> alignment (Suc 2) H' (SUT KUnion 0 0 False) = Some al \<and> al dvd so_size ob'"
proof -
  obtain H' where H': "union_set_members 2 0 sample_members [] (me0, sample_heap) = Some (me0, H')"
    by (simp add: union_set_members_def sample_heap_def sample_members_def me0_def collecting_def
        new_su_def Let_def basic_types numeral_2_eq_2 base_alignment_def size_of_def
        promote_anon_def starts_with_def)
  show ?thesis
    using union_layout_sound [OF _ _ _ _ _ H', of "new_su (Some ''s'')" "''b''" integer_t] H'
    by (auto simp: sample_heap_def sample_members_def basic_types wf_heap_def wf_obj_def new_su_def
        starts_with_def size_of_def)
qed

section \<open>Alignment returns on every well-founded store\<close>

text \<open>\<open>by_value H r\<close>: every aggregate embedded by value in another has a smaller rank, which holds
  because C completes an aggregate before it can be a member.\<close>

fun embedded :: "ctype \<Rightarrow> nat option" where
  "embedded (ArrayT el n sz c) = embedded el"
| "embedded (SUT k a og c) = Some a"
| "embedded t = None"

definition by_value :: "sheap \<Rightarrow> (nat \<Rightarrow> nat) \<Rightarrow> bool" where
  "by_value H r = (\<forall>a ob ms m t b. H a = Some ob \<longrightarrow> so_members ob = Some ms \<longrightarrow>
     (m, t) \<in> set ms \<longrightarrow> embedded t = Some b \<longrightarrow> r b < r a)"

lemma max_alignment_Some: "None \<notin> set as \<Longrightarrow> \<exists>x. max_alignment as = Some x"
proof (induction as rule: max_alignment.induct)
  case (3 a b as)
  then show ?case by (cases a) auto
next
  case (2 a)
  then show ?case by (cases a) auto
qed simp

lemma alignment_mono: "alignment fuel H t = Some x \<Longrightarrow> alignment (Suc fuel) H t = Some x"
proof (induction fuel H t arbitrary: x rule: alignment.induct)
  case (3 fuel H k a og c)
  show ?case
  proof (cases "\<exists>ob ms. H a = Some ob \<and> so_members ob = Some ms")
    case True
    then obtain ob ms where Ha: "H a = Some ob" and ms: "so_members ob = Some ms" by blast
    have m: "max_alignment (map (\<lambda>(_, t). alignment fuel H t) ms) = Some x"
      using "3.prems" Ha ms by simp
    have "alignment (Suc fuel) H t = alignment fuel H t" if "(n, t) \<in> set ms" for n t
    proof (cases "alignment fuel H t")
      case None
      with that have "None \<in> set (map (\<lambda>(_, t). alignment fuel H t) ms)" by force
      with m show ?thesis by (simp add: max_alignment_None)
    next
      case (Some y)
      then show ?thesis using "3.IH" [OF Ha ms that refl] by simp
    qed
    then have "map (\<lambda>(_, t). alignment (Suc fuel) H t) ms = map (\<lambda>(_, t). alignment fuel H t) ms"
      by auto
    then show ?thesis using m Ha ms by (simp only: alignment.simps option.case)
  qed (use "3.prems" in \<open>auto split: option.splits\<close>)
qed auto

lemma alignment_mono_le: "alignment n H t = Some x \<Longrightarrow> n \<le> k \<Longrightarrow> alignment k H t = Some x"
  by (induction k) (auto simp: le_Suc_eq alignment_mono)

lemma common_fuel:
  "\<forall>t \<in> set ts. \<exists>n x. alignment n H t = Some x \<Longrightarrow> \<exists>n. \<forall>t \<in> set ts. \<exists>x. alignment n H t = Some x"
proof (induction ts)
  case (Cons t ts)
  then obtain n m x where n: "\<forall>t \<in> set ts. \<exists>x. alignment n H t = Some x"
    and m: "alignment m H t = Some x" by auto
  have "\<forall>u \<in> set (t # ts). \<exists>x. alignment (max n m) H u = Some x"
    using n m alignment_mono_le [of n H _ _ "max n m"] alignment_mono_le [of m H t x "max n m"] by auto
  then show ?case by blast
qed simp

lemma alignment_of_embedded:
  "(\<And>k a og c. embedded t = Some a \<Longrightarrow> \<exists>n x. alignment n H (SUT k a og c) = Some x) \<Longrightarrow>
   \<exists>n x. alignment n H t = Some x"
proof (induction t)
  case (ArrayT el n sz c)
  then obtain k x where "alignment k H el = Some x" by fastforce
  then have "alignment (Suc k) H (ArrayT el n sz c) = Some x" by simp
  then show ?case by blast
qed (auto intro: exI [of _ "Suc 0"])

lemma alignment_struct:
  assumes "by_value H r"
  shows "\<exists>n x. alignment n H (SUT k a og c) = Some x"
proof (induction "r a" arbitrary: k a og c rule: less_induct)
  case less
  show ?case
  proof (cases "\<exists>ob ms. H a = Some ob \<and> so_members ob = Some ms")
    case True
    then obtain ob ms where Ha: "H a = Some ob" and ms: "so_members ob = Some ms" by blast
    have "\<exists>n x. alignment n H t = Some x" if "(m, t) \<in> set ms" for m t
      by (rule alignment_of_embedded)
        (use assms Ha ms that less in \<open>unfold by_value_def, blast\<close>)
    then have "\<forall>t \<in> set (map snd ms). \<exists>n x. alignment n H t = Some x" by auto
    from common_fuel [OF this] obtain n where n: "\<forall>t \<in> set (map snd ms). \<exists>x. alignment n H t = Some x"
      by blast
    have "None \<notin> set (map (\<lambda>(_, t). alignment n H t) ms)" using n by fastforce
    from max_alignment_Some [OF this] obtain x where
      "max_alignment (map (\<lambda>(_, t). alignment n H t) ms) = Some x" by blast
    then have "alignment (Suc n) H (SUT k a og c) = Some x" using Ha ms by simp
    then show ?thesis by blast
  next
    case False
    then have "alignment (Suc 0) H (SUT k a og c) = Some 1" by (auto split: option.splits)
    then show ?thesis by blast
  qed
qed

text \<open>C30: \<open>alignment\<close> returns for every type of a store in which no aggregate embeds itself: there
  is a recursion depth at which, and above which, it gives the same value.\<close>

theorem alignment_terminates:
  assumes "by_value H r"
  shows "\<exists>n x. \<forall>k \<ge> n. alignment k H t = Some x"
proof -
  obtain n x where "alignment n H t = Some x"
    using alignment_of_embedded [of t H] alignment_struct [OF assms] by blast
  then show ?thesis using alignment_mono_le by blast
qed

theorem alignment_terminates_witness:
  "by_value (sample_heap(0 \<mapsto> sample_struct)) id \<and>
   (\<exists>n x. \<forall>k \<ge> n. alignment k (sample_heap(0 \<mapsto> sample_struct)) (SUT KStruct 0 0 False) = Some x)"
proof -
  have b: "by_value (sample_heap(0 \<mapsto> sample_struct)) id"
    by (auto simp: by_value_def sample_heap_def sample_struct_def sample_members_def basic_types
        split: if_splits)
  show ?thesis using b alignment_terminates [OF b] by blast
qed

section \<open>A qualified copy of an incomplete struct\<close>



end
