(* ===== verification/Spots.thy ===== *)
theory Spots
  imports Prelude
begin

text \<open>
  \<open>shivyc/spots.py\<close>: the places an IL value can live in.  Two spots are equal when class and detail
  are, so a spot is a value; the detail of a memory spot is the tuple (base, offset, chunk, count),
  its base a symbol or another spot.  A literal spot carries an \<open>int\<close> or, at some call sites, its
  decimal spelling.
\<close>

section \<open>Data\<close>

datatype literal = LInt int | LStr string

datatype spot =
    RegSpot string
  | XmmRegSpot string
  | MemSpot mem_base int int "spot option" \<comment> \<open>base, offset, chunk, count\<close>
  | LiteralSpot literal
and mem_base = BaseSym string | BaseSpot spot

definition asm_reserved :: "string list" where
  "asm_reserved = [''shr'', ''shl'', ''and'', ''or'', ''xor'', ''not'', ''mod'',
     ''eq'', ''ne'', ''lt'', ''le'', ''gt'', ''ge'', ''offset'']"

definition mangle_symbol :: "string \<Rightarrow> string" where
  "mangle_symbol name = (if name \<in> set asm_reserved then ''__shivyc_sym_'' @ name else name)"

definition reg_map :: "(string \<times> string list) list" where
  "reg_map = [(''rax'', [''rax'', ''eax'', ''ax'', ''al'']),
              (''rbx'', [''rbx'', ''ebx'', ''bx'', ''bl'']),
              (''rcx'', [''rcx'', ''ecx'', ''cx'', ''cl'']),
              (''rdx'', [''rdx'', ''edx'', ''dx'', ''dl'']),
              (''rsi'', [''rsi'', ''esi'', ''si'', ''sil'']),
              (''rdi'', [''rdi'', ''edi'', ''di'', ''dil'']),
              (''r8'', [''r8'', ''r8d'', ''r8w'', ''r8b'']),
              (''r9'', [''r9'', ''r9d'', ''r9w'', ''r9b'']),
              (''r10'', [''r10'', ''r10d'', ''r10w'', ''r10b'']),
              (''r11'', [''r11'', ''r11d'', ''r11w'', ''r11b'']),
              (''r12'', [''r12'', ''r12d'', ''r12w'', ''r12b'']),
              (''r13'', [''r13'', ''r13d'', ''r13w'', ''r13b'']),
              (''r14'', [''r14'', ''r14d'', ''r14w'', ''r14b'']),
              (''r15'', [''r15'', ''r15d'', ''r15w'', ''r15b'']),
              (''rbp'', [''rbp'', '''', '''', '''']),
              (''rsp'', [''rsp'', '''', '''', ''''])]"

section \<open>Decimal spelling of integers\<close>

text \<open>Python's \<open>str\<close> of an integer.\<close>

definition digit_char :: "nat \<Rightarrow> char" where
  "digit_char d = (char_of (48 + d) :: char)"

fun nat_str :: "nat \<Rightarrow> string" where
  "nat_str n = (if n < 10 then [digit_char n] else nat_str (n div 10) @ [digit_char (n mod 10)])"

declare nat_str.simps [simp del]

definition int_str :: "int \<Rightarrow> string" where
  "int_str i = (if i < 0 then ''-'' @ nat_str (nat (- i)) else nat_str (nat i))"

section \<open>Operations\<close>

definition reg_size_index :: "int \<Rightarrow> nat option" where
  "reg_size_index sz = (if sz = 0 \<or> sz = 8 then Some 0 else if sz = 1 then Some 3
     else if sz = 2 then Some 2 else if sz = 4 then Some 1 else None)"

definition reg_asm_str :: "string \<Rightarrow> int \<Rightarrow> string option" where
  "reg_asm_str name sz = (case reg_size_index sz of None \<Rightarrow> None
     | Some i \<Rightarrow> (case map_of reg_map name of None \<Rightarrow> None | Some vs \<Rightarrow> Some (vs ! i)))"

definition name_variants :: "string \<Rightarrow> string list option" where
  "name_variants name = map_of reg_map name"

definition size_desc :: "int \<Rightarrow> string" where
  "size_desc sz = (if sz = 1 then ''BYTE PTR '' else if sz = 2 then ''WORD PTR ''
     else if sz = 4 then ''DWORD PTR '' else if sz = 8 then ''QWORD PTR '' else '''')"

definition simple_addr :: "string \<Rightarrow> int \<Rightarrow> string" where
  "simple_addr bs tot =
     (if tot = 0 then bs
      else if tot > 0 then bs @ ''+'' @ int_str tot
      else bs @ ''-'' @ int_str (- tot))"

text \<open>\<^const>\<open>None\<close> where \<open>asm_str\<close> raises: an unsupported register size or an unknown register.\<close>

fun asm_str :: "spot \<Rightarrow> int \<Rightarrow> string option" and base_str :: "mem_base \<Rightarrow> string option" where
  "asm_str (RegSpot name) sz = reg_asm_str name sz"
| "asm_str (XmmRegSpot name) sz = Some name"
| "asm_str (LiteralSpot l) sz = Some (case l of LInt i \<Rightarrow> int_str i | LStr s \<Rightarrow> s)"
| "asm_str (MemSpot b off chunk cnt) sz = (case base_str b of None \<Rightarrow> None
     | Some bs \<Rightarrow>
        (let simple = simple_addr bs (if cnt = None then off + chunk else off)
         in case (case cnt of
               None \<Rightarrow> Some simple
             | Some c \<Rightarrow> (if chunk > 0 then map_option (\<lambda>s. simple @ ''+'' @ int_str chunk @ ''*'' @ s) (asm_str c 8)
                else if chunk < 0 then map_option (\<lambda>s. simple @ ''-'' @ int_str (- chunk) @ ''*'' @ s) (asm_str c 8)
                else Some simple)) of
              None \<Rightarrow> None
            | Some final \<Rightarrow> Some (size_desc sz @ ''['' @ final @ '']'')))"
| "base_str (BaseSym s) = Some (mangle_symbol s)"
| "base_str (BaseSpot s) = asm_str s 0"

definition rbp_offset :: "spot \<Rightarrow> int" where
  "rbp_offset s = (case s of MemSpot (BaseSpot (RegSpot r)) off _ _ \<Rightarrow> (if r = ''rbp'' then - off else 0)
     | _ \<Rightarrow> 0)"

text \<open>\<open>shift\<close>: a memory spot moves; any other spot stays when nothing is asked of it and raises otherwise.\<close>

definition shift :: "spot \<Rightarrow> int \<Rightarrow> spot option \<Rightarrow> spot option" where
  "shift s chunk cnt = (case s of
       MemSpot b off ch c \<Rightarrow>
         (case cnt of
            Some k \<Rightarrow> (if c \<noteq> None then None else Some (MemSpot b (off + ch) chunk (Some k)))
          | None \<Rightarrow> Some (MemSpot b (off + chunk) ch c))
     | _ \<Rightarrow> (if chunk \<noteq> 0 \<or> cnt \<noteq> None then None else Some s))"

definition is_reg :: "spot \<Rightarrow> bool" where
  "is_reg s = (case s of RegSpot _ \<Rightarrow> True | _ \<Rightarrow> False)"

definition is_mem :: "spot \<Rightarrow> bool" where
  "is_mem s = (case s of MemSpot _ _ _ _ \<Rightarrow> True | _ \<Rightarrow> False)"

definition is_literal_spot :: "spot \<Rightarrow> bool" where
  "is_literal_spot s = (case s of LiteralSpot _ \<Rightarrow> True | _ \<Rightarrow> False)"

section \<open>The register file\<close>

definition RAX :: spot where "RAX = RegSpot ''rax''"
definition RBX :: spot where "RBX = RegSpot ''rbx''"
definition RCX :: spot where "RCX = RegSpot ''rcx''"
definition RDX :: spot where "RDX = RegSpot ''rdx''"
definition RSI :: spot where "RSI = RegSpot ''rsi''"
definition RDI :: spot where "RDI = RegSpot ''rdi''"
definition R8 :: spot where "R8 = RegSpot ''r8''"
definition R9 :: spot where "R9 = RegSpot ''r9''"
definition R10 :: spot where "R10 = RegSpot ''r10''"
definition R11 :: spot where "R11 = RegSpot ''r11''"
definition R12 :: spot where "R12 = RegSpot ''r12''"
definition R13 :: spot where "R13 = RegSpot ''r13''"
definition R14 :: spot where "R14 = RegSpot ''r14''"
definition R15 :: spot where "R15 = RegSpot ''r15''"
definition RBP :: spot where "RBP = RegSpot ''rbp''"
definition RSP :: spot where "RSP = RegSpot ''rsp''"
definition XMM0 :: spot where "XMM0 = XmmRegSpot ''xmm0''"

lemmas reg_defs = RAX_def RBX_def RCX_def RDX_def RSI_def RDI_def R8_def R9_def R10_def R11_def
  R12_def R13_def R14_def R15_def RBP_def RSP_def

definition int_arg_regs :: "spot list" where
  "int_arg_regs = [RDI, RSI, RDX, RCX, R8, R9]"

definition caller_saved_registers :: "spot list" where
  "caller_saved_registers = [RAX, RCX, RDX, RSI, RDI, R8, R9, R10, R11]"

definition callee_saved_registers :: "spot list" where
  "callee_saved_registers = [RBX, R12, R13, R14, R15]"

definition registers :: "spot list" where
  "registers = caller_saved_registers @ callee_saved_registers"

lemmas register_lists = registers_def caller_saved_registers_def callee_saved_registers_def
  int_arg_regs_def

lemma distinct_registers [simp]: "distinct registers"
  by (simp add: register_lists reg_defs)

lemma registers_are_reg: "s \<in> set registers \<Longrightarrow> \<exists>r. s = RegSpot r"
  by (auto simp: register_lists reg_defs)

lemma length_registers [simp]: "length registers = 14"
  by (simp add: register_lists)

section \<open>Properties\<close>

lemma mangle_symbol_idem [simp]: "mangle_symbol (mangle_symbol n) = mangle_symbol n"
  by (simp add: mangle_symbol_def asm_reserved_def)

lemma mangle_symbol_never_reserved: "mangle_symbol n \<notin> set asm_reserved"
  by (simp add: mangle_symbol_def asm_reserved_def)

text \<open>Renaming merges no two symbols unless a program already uses the reserved prefix.\<close>

lemma mangle_symbol_inj:
  assumes "mangle_symbol a = mangle_symbol b"
    and "take 13 a \<noteq> ''__shivyc_sym_''" and "take 13 b \<noteq> ''__shivyc_sym_''"
  shows "a = b"
proof -
  have "take 13 (''__shivyc_sym_'' @ n) = ''__shivyc_sym_''" for n by simp
  with assms show ?thesis by (auto simp: mangle_symbol_def split: if_splits)
qed

text \<open>The byte address a memory spot stands for, with a value for every symbol and register.\<close>

fun spot_addr :: "(string \<Rightarrow> int) \<Rightarrow> (string \<Rightarrow> int) \<Rightarrow> spot \<Rightarrow> int" where
  "spot_addr S R (RegSpot r) = R r"
| "spot_addr S R (XmmRegSpot r) = 0"
| "spot_addr S R (LiteralSpot l) = (case l of LInt i \<Rightarrow> i | LStr _ \<Rightarrow> 0)"
| "spot_addr S R (MemSpot b off chunk cnt) =
     (case b of BaseSym s \<Rightarrow> S s | BaseSpot s \<Rightarrow> spot_addr S R s) + off +
     (case cnt of None \<Rightarrow> chunk | Some c \<Rightarrow> chunk * spot_addr S R c)"

text \<open>C32: Shifting a memory spot adds exactly the requested displacement to the address it
  stands for: \<open>chunk\<close> bytes, or \<open>chunk\<close> times the value of the count register; it fails only for a
  second count register.\<close>

theorem shift_address:
  "(case shift (MemSpot b off ch c) chunk cnt of
      Some t \<Rightarrow> spot_addr S R t = spot_addr S R (MemSpot b off ch c) +
                 (case cnt of None \<Rightarrow> chunk | Some k \<Rightarrow> chunk * spot_addr S R k)
    | None \<Rightarrow> c \<noteq> None \<and> cnt \<noteq> None)"
  by (cases cnt; cases c) (auto simp: shift_def)

text \<open>No two registers share a spelling at any operand size.\<close>

lemma reg_names_distinct: "distinct (filter (\<lambda>s. s \<noteq> []) (concat (map snd reg_map)))"
  by (simp add: reg_map_def)

lemma name_variants_all:
  "list_all (\<lambda>s. case s of RegSpot r \<Rightarrow> (case name_variants r of
       Some vs \<Rightarrow> length vs = 4 \<and> list_all (\<lambda>v. v \<noteq> []) vs | None \<Rightarrow> False) | _ \<Rightarrow> False) registers"
  by code_simp

lemma name_variants_registers:
  "s \<in> set registers \<Longrightarrow> \<exists>r vs. s = RegSpot r \<and> name_variants r = Some vs \<and> length vs = 4 \<and> [] \<notin> set vs"
  using name_variants_all by (cases s) (fastforce simp: list_all_iff split: option.splits)+

end
