(* ===== verification/NodeGraph.thy ===== *)
theory NodeGraph
  imports Spots
begin

text \<open>
  Class \<open>NodeGraph\<close> of \<open>shivyc/asm_gen.py\<close>: the interference graph of the register allocator.  A node
  is an IL value (an object compared by identity, here a number) or a machine register.  The
  conflict neighbours of a node are a dict used as a set, its preference neighbours a list; both
  dicts are partial functions, so an operation on a node that is not in the graph is the KeyError
  or ValueError of the source, \<^const>\<open>None\<close> here.
\<close>

section \<open>Data and operations\<close>

datatype node = Val nat | Phys spot

definition is_phys :: "node \<Rightarrow> bool" where
  "is_phys n = (case n of Phys _ \<Rightarrow> True | Val _ \<Rightarrow> False)"

record graph =
  real_nodes :: "node list"
  all_nodes :: "node list"
  conf :: "node \<rightharpoonup> node list"
  pref :: "node \<rightharpoonup> node list"

definition new_graph :: "node list \<Rightarrow> graph" where
  "new_graph nodes = \<lparr>real_nodes = nodes, all_nodes = nodes,
     conf = (\<lambda>n. if n \<in> set nodes then Some [] else None),
     pref = (\<lambda>n. if n \<in> set nodes then Some [] else None)\<rparr>"

definition is_node :: "node \<Rightarrow> graph \<Rightarrow> bool" where
  "is_node n g = (conf g n \<noteq> None \<and> pref g n \<noteq> None)"

definition add_conflict :: "node \<Rightarrow> node \<Rightarrow> graph \<Rightarrow> graph option" where
  "add_conflict n1 n2 g =
     (case conf g n1 of None \<Rightarrow> None
      | Some c1 \<Rightarrow> let g1 = g\<lparr>conf := (conf g)(n1 \<mapsto> dset_add n2 c1)\<rparr> in
         (case conf g1 n2 of None \<Rightarrow> None
          | Some c2 \<Rightarrow> Some (g1\<lparr>conf := (conf g1)(n2 \<mapsto> dset_add n1 c2)\<rparr>)))"

definition add_dummy_node :: "node \<Rightarrow> graph \<Rightarrow> graph option" where
  "add_dummy_node v g =
     (let g1 = g\<lparr>all_nodes := all_nodes g @ [v], conf := (conf g)(v \<mapsto> []), pref := (pref g)(v \<mapsto> [])\<rparr>
      in ofold (\<lambda>nd h. if nd \<notin> set (real_nodes h) \<and> nd \<noteq> v then add_conflict nd v h else Some h)
           (all_nodes g1) g1)"

definition add_pref :: "node \<Rightarrow> node \<Rightarrow> graph \<Rightarrow> graph option" where
  "add_pref n1 n2 g =
     (case pref g n1 of None \<Rightarrow> None
      | Some p1 \<Rightarrow> let g1 = g\<lparr>pref := (pref g)(n1 \<mapsto> dset_add n2 p1)\<rparr> in
         (case pref g1 n2 of None \<Rightarrow> None
          | Some p2 \<Rightarrow> Some (g1\<lparr>pref := (pref g1)(n2 \<mapsto> dset_add n1 p2)\<rparr>)))"

text \<open>\<open>pop\<close> and its duplicate \<open>remove_node\<close>.\<close>

definition remove_node :: "node \<Rightarrow> graph \<Rightarrow> graph option" where
  "remove_node n g =
     (if conf g n = None \<or> pref g n = None then None
      else case py_remove n (all_nodes g) of None \<Rightarrow> None
       | Some alln \<Rightarrow> Some \<lparr>real_nodes = (if n \<in> set (real_nodes g) then remove1 n (real_nodes g) else real_nodes g),
           all_nodes = alln,
           conf = (\<lambda>v. map_option (removeAll n) (((conf g)(n := None)) v)),
           pref = (\<lambda>v. map_option (remove1 n) (((pref g)(n := None)) v))\<rparr>)"

definition pop :: "node \<Rightarrow> graph \<Rightarrow> graph option" where
  "pop n g = remove_node n g"

text \<open>The four loops of \<open>merge\<close>, which folds \<open>n2\<close> into \<open>n1\<close>.\<close>

definition merge_conf_step :: "node \<Rightarrow> node \<Rightarrow> node \<Rightarrow> (node \<rightharpoonup> node list) \<Rightarrow> (node \<rightharpoonup> node list) option" where
  "merge_conf_step n1 n2 c cm = (case cm c of None \<Rightarrow> None
     | Some cs \<Rightarrow> Some (cm(c \<mapsto> dset_add n1 (removeAll n2 cs))))"

definition merge_pref_step :: "node \<Rightarrow> node \<Rightarrow> node \<Rightarrow> (node \<rightharpoonup> node list) \<Rightarrow> (node \<rightharpoonup> node list) option" where
  "merge_pref_step n1 n2 c pm = (case pm c of None \<Rightarrow> None
     | Some ps \<Rightarrow> Some (pm(c \<mapsto> dset_add n1 (remove1 n2 ps))))"

definition merge :: "node \<Rightarrow> node \<Rightarrow> graph \<Rightarrow> graph option" where
  "merge n1 n2 g =
     (case (conf g n2, conf g n1) of
        (Some c2, Some c1) \<Rightarrow>
         (let c12 = dset_add_all c2 c1; cm = (conf g)(n1 \<mapsto> c12) in
          case ofold (merge_conf_step n1 n2) c12 cm of None \<Rightarrow> None
          | Some cm' \<Rightarrow>
            (case (pref g n1, pref g n2) of
               (Some p1, Some p2) \<Rightarrow>
                (let tot = remove1 n2 (remove1 n1 (dset_add_all p2 p1)); pm = (pref g)(n1 \<mapsto> tot) in
                 case ofold (merge_pref_step n1 n2) tot pm of None \<Rightarrow> None
                 | Some pm' \<Rightarrow>
                   (if cm' n2 = None \<or> pm' n2 = None then None
                    else case (py_remove n2 (real_nodes g), py_remove n2 (all_nodes g)) of
                      (Some rs, Some as) \<Rightarrow> Some \<lparr>real_nodes = rs, all_nodes = as,
                         conf = cm'(n2 := None), pref = pm'(n2 := None)\<rparr>
                    | _ \<Rightarrow> None))
             | _ \<Rightarrow> None))
      | _ \<Rightarrow> None)"

definition remove_pref :: "node \<Rightarrow> node \<Rightarrow> graph \<Rightarrow> graph option" where
  "remove_pref n1 n2 g =
     (case pref g n1 of None \<Rightarrow> None
      | Some p1 \<Rightarrow> (case py_remove n2 p1 of None \<Rightarrow> None
        | Some p1' \<Rightarrow> let g1 = g\<lparr>pref := (pref g)(n1 \<mapsto> p1')\<rparr> in
          (case pref g1 n2 of None \<Rightarrow> None
           | Some p2 \<Rightarrow> (case py_remove n1 p2 of None \<Rightarrow> None
             | Some p2' \<Rightarrow> Some (g1\<lparr>pref := (pref g1)(n2 \<mapsto> p2')\<rparr>)))))"

definition prefs :: "graph \<Rightarrow> node \<Rightarrow> node list option" where
  "prefs g n = pref g n"

definition confs :: "graph \<Rightarrow> node \<Rightarrow> node list option" where
  "confs g n = conf g n"

definition nodes :: "graph \<Rightarrow> node list" where
  "nodes g = real_nodes g"

definition copy_node :: "graph \<Rightarrow> graph" where
  "copy_node g = \<lparr>real_nodes = real_nodes g, all_nodes = all_nodes g,
     conf = (\<lambda>n. if n \<in> set (all_nodes g) then conf g n else None),
     pref = (\<lambda>n. if n \<in> set (all_nodes g) then pref g n else None)\<rparr>"

section \<open>The invariant\<close>

text \<open>Edges as relations.\<close>

definition cedge :: "graph \<Rightarrow> node \<Rightarrow> node \<Rightarrow> bool" where
  "cedge g a b = (\<exists>cs. conf g a = Some cs \<and> b \<in> set cs)"

definition pedge :: "graph \<Rightarrow> node \<Rightarrow> node \<Rightarrow> bool" where
  "pedge g a b = (\<exists>ps. pref g a = Some ps \<and> b \<in> set ps)"

definition wf_graph :: "graph \<Rightarrow> bool" where
  "wf_graph g =
     (distinct (all_nodes g) \<and> distinct (real_nodes g) \<and> set (real_nodes g) \<subseteq> set (all_nodes g) \<and>
      dom (conf g) = set (all_nodes g) \<and> dom (pref g) = set (all_nodes g) \<and>
      (\<forall>n cs. conf g n = Some cs \<longrightarrow> distinct cs) \<and> (\<forall>n ps. pref g n = Some ps \<longrightarrow> distinct ps) \<and>
      (\<forall>a b. cedge g a b \<longrightarrow> cedge g b a) \<and> (\<forall>a. \<not> cedge g a a) \<and>
      (\<forall>a b. pedge g a b \<longrightarrow> pedge g b a) \<and> (\<forall>a. \<not> pedge g a a))"

lemma wf_graphD:
  assumes "wf_graph g"
  shows "distinct (all_nodes g)" "distinct (real_nodes g)" "set (real_nodes g) \<subseteq> set (all_nodes g)"
    "dom (conf g) = set (all_nodes g)" "dom (pref g) = set (all_nodes g)"
    "\<And>n cs. conf g n = Some cs \<Longrightarrow> distinct cs" "\<And>n ps. pref g n = Some ps \<Longrightarrow> distinct ps"
    "\<And>a b. cedge g a b \<Longrightarrow> cedge g b a" "\<And>a. \<not> cedge g a a"
    "\<And>a b. pedge g a b \<Longrightarrow> pedge g b a" "\<And>a. \<not> pedge g a a"
  using assms unfolding wf_graph_def by blast+

lemma cedge_nodes: "wf_graph g \<Longrightarrow> cedge g a b \<Longrightarrow> a \<in> set (all_nodes g) \<and> b \<in> set (all_nodes g)"
  using wf_graphD(4,8) [of g] unfolding cedge_def by (metis domI)

lemma pedge_nodes: "wf_graph g \<Longrightarrow> pedge g a b \<Longrightarrow> a \<in> set (all_nodes g) \<and> b \<in> set (all_nodes g)"
  using wf_graphD(5,10) [of g] unfolding pedge_def by (metis domI)

lemma wf_conf_Some: "wf_graph g \<Longrightarrow> n \<in> set (all_nodes g) \<Longrightarrow> \<exists>cs. conf g n = Some cs"
  using wf_graphD(4) by blast

lemma wf_pref_Some: "wf_graph g \<Longrightarrow> n \<in> set (all_nodes g) \<Longrightarrow> \<exists>ps. pref g n = Some ps"
  using wf_graphD(5) by blast

lemma cedge_conf: "conf g a = Some cs \<Longrightarrow> cedge g a b = (b \<in> set cs)"
  by (simp add: cedge_def)

lemma pedge_pref: "pref g a = Some ps \<Longrightarrow> pedge g a b = (b \<in> set ps)"
  by (simp add: pedge_def)

lemma new_graph_wf [simp]: "distinct ns \<Longrightarrow> wf_graph (new_graph ns)"
  by (auto simp: wf_graph_def new_graph_def cedge_def pedge_def split: if_splits)

lemma new_graph_edges [simp]: "\<not> cedge (new_graph ns) a b" "\<not> pedge (new_graph ns) a b"
  by (auto simp: new_graph_def cedge_def pedge_def split: if_splits)

section \<open>What each operation does to the edges\<close>

definition same_nodes :: "graph \<Rightarrow> graph \<Rightarrow> bool" where
  "same_nodes g g' = (real_nodes g' = real_nodes g \<and> all_nodes g' = all_nodes g)"

lemma add_conflict_spec:
  assumes wf: "wf_graph g" and a: "a \<in> set (all_nodes g)" and b: "b \<in> set (all_nodes g)" and ab: "a \<noteq> b"
  shows "\<exists>g'. add_conflict a b g = Some g' \<and> wf_graph g' \<and> same_nodes g g' \<and> pref g' = pref g \<and>
    (\<forall>x y. cedge g' x y = (cedge g x y \<or> (x = a \<and> y = b) \<or> (x = b \<and> y = a)))"
proof -
  obtain ca cb where c: "conf g a = Some ca" "conf g b = Some cb"
    using wf_conf_Some [OF wf a] wf_conf_Some [OF wf b] by blast
  define g' where "g' = g\<lparr>conf := (conf g)(a \<mapsto> dset_add b ca, b \<mapsto> dset_add a cb)\<rparr>"
  have eq: "add_conflict a b g = Some g'"
    using c ab by (simp add: add_conflict_def g'_def Let_def)
  have e: "cedge g' x y = (cedge g x y \<or> (x = a \<and> y = b) \<or> (x = b \<and> y = a))" for x y
    using c ab by (auto simp: cedge_def g'_def)
  have p: "pedge g' x y = pedge g x y" for x y by (simp add: pedge_def g'_def)
  have d: "distinct cs" if "conf g' n = Some cs" for n cs
    using that wf_graphD(6) [OF wf] c by (auto simp: g'_def split: if_splits)
  have "wf_graph g'"
    unfolding wf_graph_def e p using wf_graphD [OF wf] d ab a b by (auto simp: g'_def)
  then show ?thesis using eq e by (auto simp: same_nodes_def g'_def)
qed

lemma add_pref_spec:
  assumes wf: "wf_graph g" and a: "a \<in> set (all_nodes g)" and b: "b \<in> set (all_nodes g)" and ab: "a \<noteq> b"
  shows "\<exists>g'. add_pref a b g = Some g' \<and> wf_graph g' \<and> same_nodes g g' \<and> conf g' = conf g \<and>
    (\<forall>x y. pedge g' x y = (pedge g x y \<or> (x = a \<and> y = b) \<or> (x = b \<and> y = a)))"
proof -
  obtain ca cb where c: "pref g a = Some ca" "pref g b = Some cb"
    using wf_pref_Some [OF wf a] wf_pref_Some [OF wf b] by blast
  define g' where "g' = g\<lparr>pref := (pref g)(a \<mapsto> dset_add b ca, b \<mapsto> dset_add a cb)\<rparr>"
  have eq: "add_pref a b g = Some g'"
    using c ab by (simp add: add_pref_def g'_def Let_def)
  have e: "pedge g' x y = (pedge g x y \<or> (x = a \<and> y = b) \<or> (x = b \<and> y = a))" for x y
    using c ab by (auto simp: pedge_def g'_def)
  have p: "cedge g' x y = cedge g x y" for x y by (simp add: cedge_def g'_def)
  have d: "distinct cs" if "pref g' n = Some cs" for n cs
    using that wf_graphD(7) [OF wf] c by (auto simp: g'_def split: if_splits)
  have "wf_graph g'"
    unfolding wf_graph_def e p using wf_graphD [OF wf] d ab a b by (auto simp: g'_def)
  then show ?thesis using eq e by (auto simp: same_nodes_def g'_def)
qed

lemma remove_node_spec:
  assumes wf: "wf_graph g" and n: "n \<in> set (all_nodes g)"
  shows "\<exists>g'. remove_node n g = Some g' \<and> wf_graph g' \<and>
    all_nodes g' = remove1 n (all_nodes g) \<and> real_nodes g' = remove1 n (real_nodes g) \<and>
    (\<forall>x y. cedge g' x y = (cedge g x y \<and> x \<noteq> n \<and> y \<noteq> n)) \<and>
    (\<forall>x y. pedge g' x y = (pedge g x y \<and> x \<noteq> n \<and> y \<noteq> n))"
proof -
  obtain cn pn where cn: "conf g n = Some cn" "pref g n = Some pn"
    using wf_conf_Some [OF wf n] wf_pref_Some [OF wf n] by blast
  define g' where "g' = \<lparr>real_nodes = remove1 n (real_nodes g), all_nodes = remove1 n (all_nodes g),
           conf = (\<lambda>v. map_option (removeAll n) (((conf g)(n := None)) v)),
           pref = (\<lambda>v. map_option (remove1 n) (((pref g)(n := None)) v))\<rparr>"
  have eq: "remove_node n g = Some g'"
    using cn n by (simp add: remove_node_def g'_def py_remove_def remove1_idem)
  have e: "cedge g' x y = (cedge g x y \<and> x \<noteq> n \<and> y \<noteq> n)" for x y
    by (auto simp: cedge_def g'_def)
  have p: "pedge g' x y = (pedge g x y \<and> x \<noteq> n \<and> y \<noteq> n)" for x y
    using wf_graphD(7) [OF wf] by (auto simp: pedge_def g'_def set_remove1_eq)
  have dom: "dom (conf g') = set (all_nodes g) - {n}" "dom (pref g') = set (all_nodes g) - {n}"
    using wf_graphD(4,5) [OF wf] by (auto simp: g'_def dom_def split: if_splits)
  have d: "distinct cs" if "conf g' v = Some cs" for v cs
    using that wf_graphD(6) [OF wf] by (auto simp: g'_def distinct_removeAll split: if_splits)
  have d2: "distinct cs" if "pref g' v = Some cs" for v cs
    using that wf_graphD(7) [OF wf] by (auto simp: g'_def distinct_remove1 split: if_splits)
  have "wf_graph g'"
    unfolding wf_graph_def e p using wf_graphD [OF wf] d d2 dom
    by (auto simp: g'_def set_remove1_eq distinct_remove1)
  then show ?thesis using eq e p by (auto simp: g'_def)
qed

lemma remove_pref_spec:
  assumes wf: "wf_graph g" and ab: "pedge g a b"
  shows "\<exists>g'. remove_pref a b g = Some g' \<and> wf_graph g' \<and> same_nodes g g' \<and> conf g' = conf g \<and>
    (\<forall>x y. pedge g' x y = (pedge g x y \<and> \<not> (x = a \<and> y = b) \<and> \<not> (x = b \<and> y = a)))"
proof -
  have ba: "pedge g b a" and neq: "a \<noteq> b" using wf_graphD(10,11) [OF wf] ab by blast+
  obtain pa pb where p: "pref g a = Some pa" "pref g b = Some pb" "b \<in> set pa" "a \<in> set pb"
    using ab ba by (auto simp: pedge_def)
  have dd: "distinct pa" "distinct pb" using wf_graphD(7) [OF wf] p by blast+
  define g' where "g' = g\<lparr>pref := (pref g)(a \<mapsto> remove1 b pa, b \<mapsto> remove1 a pb)\<rparr>"
  have eq: "remove_pref a b g = Some g'"
    using p neq by (simp add: remove_pref_def g'_def Let_def py_remove_def)
  have e: "pedge g' x y = (pedge g x y \<and> \<not> (x = a \<and> y = b) \<and> \<not> (x = b \<and> y = a))" for x y
    using p neq dd by (auto simp: pedge_def g'_def set_remove1_eq)
  have c: "cedge g' x y = cedge g x y" for x y by (simp add: cedge_def g'_def)
  have d: "distinct cs" if "pref g' n = Some cs" for n cs
    using that wf_graphD(7) [OF wf] dd by (auto simp: g'_def distinct_remove1 split: if_splits)
  have "wf_graph g'"
    unfolding wf_graph_def e c using wf_graphD [OF wf] d p by (auto simp: g'_def)
  then show ?thesis using eq e by (auto simp: same_nodes_def g'_def)
qed

lemma add_dummy_node_spec:
  assumes wf: "wf_graph g" and v: "v \<notin> set (all_nodes g)"
  shows "\<exists>g'. add_dummy_node v g = Some g' \<and> wf_graph g' \<and> real_nodes g' = real_nodes g \<and>
    all_nodes g' = all_nodes g @ [v] \<and> (\<forall>x y. pedge g' x y = pedge g x y) \<and>
    (\<forall>x y. cedge g x y \<longrightarrow> cedge g' x y) \<and>
    (\<forall>x y. cedge g' x y \<longrightarrow> cedge g x y \<or> (x \<noteq> y \<and> x \<notin> set (real_nodes g) \<and> y \<notin> set (real_nodes g))) \<and>
    (\<forall>x \<in> set (all_nodes g). x \<notin> set (real_nodes g) \<longrightarrow> cedge g' x v)"
proof -
  define g1 where "g1 = g\<lparr>all_nodes := all_nodes g @ [v], conf := (conf g)(v \<mapsto> []), pref := (pref g)(v \<mapsto> [])\<rparr>"
  define step where "step nd h = (if nd \<notin> set (real_nodes h) \<and> nd \<noteq> v then add_conflict nd v h else Some h)"
    for nd h
  have stepf: "step = (\<lambda>nd h. if nd \<notin> set (real_nodes h) \<and> nd \<noteq> v then add_conflict nd v h else Some h)"
    by (intro ext) (simp add: step_def)
  have vr: "v \<notin> set (real_nodes g)" using v wf_graphD(3) [OF wf] by blast
  have nc: "\<not> cedge g x v" "\<not> cedge g v x" "\<not> pedge g x v" "\<not> pedge g v x" for x
    using v cedge_nodes [OF wf] pedge_nodes [OF wf] by blast+
  have e1: "cedge g1 x y = cedge g x y" "pedge g1 x y = pedge g x y" for x y
    using nc by (auto simp: cedge_def pedge_def g1_def)
  have wf1: "wf_graph g1"
    unfolding wf_graph_def e1 using wf_graphD [OF wf] v
    by (auto simp: g1_def split: if_splits)
  define Q where "Q xs h = (wf_graph h \<and> real_nodes h = real_nodes g \<and> all_nodes h = all_nodes g @ [v] \<and>
    (\<forall>x y. pedge h x y = pedge g x y) \<and> (\<forall>x y. cedge g x y \<longrightarrow> cedge h x y) \<and>
    (\<forall>x y. cedge h x y \<longrightarrow> cedge g x y \<or> (x \<noteq> y \<and> x \<notin> set (real_nodes g) \<and> y \<notin> set (real_nodes g))) \<and>
    (\<forall>x \<in> set xs. x \<notin> set (real_nodes g) \<longrightarrow> x \<noteq> v \<longrightarrow> cedge h x v))" for xs h
  have run: "\<exists>h'. ofold step xs h = Some h' \<and> Q (ys @ xs) h'"
    if "Q ys h" "set xs \<subseteq> set (all_nodes g @ [v])" for xs ys h
    using that
  proof (induction xs arbitrary: ys h)
    case (Cons x xs)
    have "\<exists>h'. step x h = Some h' \<and> Q (ys @ [x]) h'"
    proof (cases "x \<notin> set (real_nodes h) \<and> x \<noteq> v")
      case True
      have "wf_graph h" "x \<in> set (all_nodes h)" "v \<in> set (all_nodes h)"
        using Cons.prems by (auto simp: Q_def)
      from add_conflict_spec [OF this] True obtain h' where
        "add_conflict x v h = Some h'" "wf_graph h'" "same_nodes h h'" "pref h' = pref h"
        "\<And>p q. cedge h' p q = (cedge h p q \<or> (p = x \<and> q = v) \<or> (p = v \<and> q = x))" by blast
      then show ?thesis using True Cons.prems(1) vr
        by (auto simp: step_def Q_def same_nodes_def pedge_def)
    next
      case False
      then show ?thesis using Cons.prems(1) by (auto simp: step_def Q_def)
    qed
    then obtain h1 where h1: "step x h = Some h1" "Q (ys @ [x]) h1" by blast
    have "set xs \<subseteq> set (all_nodes g @ [v])" using Cons.prems by simp
    from Cons.IH [OF h1(2) this] show ?case using h1(1) by simp
  qed simp
  have "Q [] g1" unfolding Q_def using wf1 e1 by (auto simp: g1_def)
  from run [OF this, of "all_nodes g @ [v]"] obtain g' where
    g': "ofold step (all_nodes g @ [v]) g1 = Some g'" "Q (all_nodes g @ [v]) g'" by auto
  have "add_dummy_node v g = Some g'"
    using g'(1) unfolding stepf by (simp add: add_dummy_node_def Let_def g1_def)
  then show ?thesis using g'(2) v unfolding Q_def by fastforce
qed

text \<open>Updating every key of a duplicate-free list.\<close>

lemma ofold_update:
  assumes "distinct cs" and "set cs \<subseteq> dom m"
    and "\<And>c m. step c m = (case m c of None \<Rightarrow> None | Some x \<Rightarrow> Some (m(c \<mapsto> F x)))"
  shows "ofold step cs m = Some (\<lambda>v. if v \<in> set cs then map_option F (m v) else m v)"
  using assms(1,2)
proof (induction cs arbitrary: m)
  case (Cons c cs)
  then obtain x where x: "m c = Some x" by auto
  have "ofold step cs (m(c \<mapsto> F x)) =
      Some (\<lambda>v. if v \<in> set cs then map_option F ((m(c \<mapsto> F x)) v) else (m(c \<mapsto> F x)) v)"
    by (rule Cons.IH) (use Cons.prems in auto)
  moreover have "step c m = Some (m(c \<mapsto> F x))" by (simp add: assms(3) x)
  ultimately show ?case using x Cons.prems(1) by (auto simp: fun_eq_iff)
qed simp

lemma merge_spec:
  assumes wf: "wf_graph g" and n1: "n1 \<in> set (all_nodes g)" and n2: "n2 \<in> set (real_nodes g)"
    and ne: "n1 \<noteq> n2" and nc: "\<not> cedge g n1 n2"
  shows "\<exists>g'. merge n1 n2 g = Some g' \<and> wf_graph g' \<and>
    all_nodes g' = remove1 n2 (all_nodes g) \<and> real_nodes g' = remove1 n2 (real_nodes g) \<and>
    (\<forall>x y. cedge g' x y = (x \<noteq> n2 \<and> y \<noteq> n2 \<and>
       (cedge g x y \<or> (x = n1 \<and> cedge g n2 y) \<or> (y = n1 \<and> cedge g x n2)))) \<and>
    (\<forall>x y. pedge g' x y = (x \<noteq> n2 \<and> y \<noteq> n2 \<and> x \<noteq> y \<and>
       (pedge g x y \<or> (x = n1 \<and> pedge g n2 y) \<or> (y = n1 \<and> pedge g x n2))))"
proof -
  have n2a: "n2 \<in> set (all_nodes g)" using n2 wf_graphD(3) [OF wf] by blast
  obtain c1 c2 p1 p2 where c: "conf g n1 = Some c1" "conf g n2 = Some c2"
    and p: "pref g n1 = Some p1" "pref g n2 = Some p2"
    using wf_conf_Some [OF wf] wf_pref_Some [OF wf] n1 n2a by metis
  have dc: "distinct c1" "distinct c2" "distinct p1" "distinct p2"
    using wf_graphD(6,7) [OF wf] c p by blast+
  have notin: "n1 \<notin> set c1" "n2 \<notin> set c1" "n1 \<notin> set c2" "n2 \<notin> set c2"
    using wf_graphD(8,9) [OF wf] nc c unfolding cedge_def by (metis option.inject)+
  define c12 where "c12 = dset_add_all c2 c1"
  define cm where "cm = (\<lambda>v. if v \<in> set c12
      then map_option (\<lambda>xs. dset_add n1 (removeAll n2 xs)) (((conf g)(n1 \<mapsto> c12)) v)
      else ((conf g)(n1 \<mapsto> c12)) v)"
  define tot where "tot = remove1 n2 (remove1 n1 (dset_add_all p2 p1))"
  define pm where "pm = (\<lambda>v. if v \<in> set tot
      then map_option (\<lambda>xs. dset_add n1 (remove1 n2 xs)) (((pref g)(n1 \<mapsto> tot)) v)
      else ((pref g)(n1 \<mapsto> tot)) v)"
  have c12: "set c12 = set c1 \<union> set c2" "distinct c12" using dc by (auto simp: c12_def)
  have tot: "set tot = (set p1 \<union> set p2) - {n1, n2}" "distinct tot"
    using dc by (auto simp: tot_def set_remove1_eq distinct_remove1)
  have "set c12 \<subseteq> dom ((conf g)(n1 \<mapsto> c12))"
    using cedge_nodes [OF wf] c c12 wf_graphD(4) [OF wf] by (auto simp: cedge_def)
  then have f1: "ofold (merge_conf_step n1 n2) c12 ((conf g)(n1 \<mapsto> c12)) = Some cm"
    unfolding cm_def by (intro ofold_update c12(2)) (simp_all add: merge_conf_step_def)
  have "set tot \<subseteq> dom ((pref g)(n1 \<mapsto> tot))"
    using pedge_nodes [OF wf] p tot wf_graphD(5) [OF wf] by (auto simp: pedge_def)
  then have f2: "ofold (merge_pref_step n1 n2) tot ((pref g)(n1 \<mapsto> tot)) = Some pm"
    unfolding pm_def by (intro ofold_update tot(2)) (simp_all add: merge_pref_step_def)
  define g' where "g' = \<lparr>real_nodes = remove1 n2 (real_nodes g), all_nodes = remove1 n2 (all_nodes g),
      conf = cm(n2 := None), pref = pm(n2 := None)\<rparr>"
  have some: "cm n2 \<noteq> None" "pm n2 \<noteq> None" using ne c p by (auto simp: cm_def pm_def)
  have eq: "merge n1 n2 g = Some g'"
    using c p f1 f2 some n2 n2a
    by (simp add: merge_def Let_def c12_def [symmetric] tot_def [symmetric] py_remove_def g'_def)
  have cs: "cedge g y x = cedge g x y" and ps: "pedge g y x = pedge g x y" for x y
    using wf_graphD(8,10) [OF wf] by blast+
  have c1e: "x \<in> set c1 \<longleftrightarrow> cedge g n1 x" and c2e: "x \<in> set c2 \<longleftrightarrow> cedge g n2 x"
    and p1e: "x \<in> set p1 \<longleftrightarrow> pedge g n1 x" and p2e: "x \<in> set p2 \<longleftrightarrow> pedge g n2 x" for x
    using c p by (simp_all add: cedge_def pedge_def)
  have ce: "cedge g' x y = (x \<noteq> n2 \<and> y \<noteq> n2 \<and>
       (cedge g x y \<or> (x = n1 \<and> cedge g n2 y) \<or> (y = n1 \<and> cedge g x n2)))" for x y
  proof (cases "x = n2 \<or> x = n1")
    case True
    then show ?thesis
      using ne notin c12 c1e c2e cs wf_graphD(9) [OF wf] nc
      by (auto simp: cedge_def g'_def cm_def)
  next
    case False
    have "cedge g' x y = (\<exists>xs. conf g x = Some xs \<and>
        (if x \<in> set c12 then y = n1 \<or> (y \<in> set xs \<and> y \<noteq> n2) else y \<in> set xs))"
      using False by (auto simp: cedge_def g'_def cm_def)
    also have "\<dots> = (if x \<in> set c12 then y = n1 \<or> (cedge g x y \<and> y \<noteq> n2) else cedge g x y)"
    proof (cases "x \<in> set c12")
      case True
      then have "x \<in> set (all_nodes g)" using cedge_nodes [OF wf] c12(1) c1e c2e by blast
      then obtain xs where "conf g x = Some xs" using wf_conf_Some [OF wf] by blast
      with True show ?thesis by (auto simp: cedge_def)
    qed (simp add: cedge_def)
    finally show ?thesis using False c12(1) c1e c2e cs by (auto simp: ne)
  qed
  have pe: "pedge g' x y = (x \<noteq> n2 \<and> y \<noteq> n2 \<and> x \<noteq> y \<and>
       (pedge g x y \<or> (x = n1 \<and> pedge g n2 y) \<or> (y = n1 \<and> pedge g x n2)))" for x y
  proof (cases "x = n2 \<or> x = n1")
    case True
    then show ?thesis
      using ne tot p1e p2e ps wf_graphD(11) [OF wf]
      by (auto simp: pedge_def g'_def pm_def)
  next
    case False
    have "pedge g' x y = (\<exists>xs. pref g x = Some xs \<and>
        (if x \<in> set tot then y = n1 \<or> (y \<in> set xs \<and> y \<noteq> n2) else y \<in> set xs))"
      using False wf_graphD(7) [OF wf] by (auto simp: pedge_def g'_def pm_def set_remove1_eq)
    also have "\<dots> = (if x \<in> set tot then y = n1 \<or> (pedge g x y \<and> y \<noteq> n2) else pedge g x y)"
    proof (cases "x \<in> set tot")
      case True
      then have "x \<in> set (all_nodes g)" using pedge_nodes [OF wf] tot(1) p1e p2e by blast
      then obtain xs where "pref g x = Some xs" using wf_pref_Some [OF wf] by blast
      with True show ?thesis by (auto simp: pedge_def)
    qed (simp add: pedge_def)
    finally show ?thesis using False tot(1) p1e p2e ps wf_graphD(11) [OF wf] by (auto simp: ne)
  qed
  have dom: "dom (conf g') = set (all_nodes g) - {n2}" "dom (pref g') = set (all_nodes g) - {n2}"
    using wf_graphD(4,5) [OF wf] n1 ne by (auto simp: g'_def cm_def pm_def dom_def split: if_splits)
  have d1: "distinct xs" if "conf g' v = Some xs" for v xs
    using that wf_graphD(6) [OF wf] c12(2) by (auto simp: g'_def cm_def distinct_removeAll split: if_splits)
  have d2: "distinct xs" if "pref g' v = Some xs" for v xs
    using that wf_graphD(7) [OF wf] tot(2) by (auto simp: g'_def pm_def distinct_remove1 split: if_splits)
  have "wf_graph g'"
    unfolding wf_graph_def ce pe using wf_graphD [OF wf] d1 d2 dom nc
    by (auto simp: g'_def set_remove1_eq distinct_remove1 cs ps)
  then show ?thesis using eq ce pe by (auto simp: g'_def)
qed

lemma copy_node_wf [simp]: "wf_graph g \<Longrightarrow> copy_node g = g"
proof -
  assume wf: "wf_graph g"
  have "conf g n = None" "pref g n = None" if "n \<notin> set (all_nodes g)" for n
    using that wf_graphD(4,5) [OF wf] by blast+
  then show ?thesis by (cases g) (auto simp: copy_node_def fun_eq_iff)
qed

section \<open>The contract of an interference graph\<close>

text \<open>
  What the allocator relies on: edges are symmetric and irreflexive, removing a vertex removes its
  edges and nothing else, and merging a vertex into another one unites their edges.  The client
  works on a quotient: each vertex of the current graph stands for a class of original nodes.
\<close>

locale conflict_graph =
  fixes edge :: "'g \<Rightarrow> 'n \<Rightarrow> 'n \<Rightarrow> bool"
    and inv :: "'g \<Rightarrow> bool"
    and verts :: "'g \<Rightarrow> 'n set"
    and movable :: "'g \<Rightarrow> 'n set"
    and rem :: "'n \<Rightarrow> 'g \<Rightarrow> 'g option"
    and mrg :: "'n \<Rightarrow> 'n \<Rightarrow> 'g \<Rightarrow> 'g option"
  assumes edge_sym: "inv g \<Longrightarrow> edge g a b \<Longrightarrow> edge g b a"
    and edge_irrefl: "inv g \<Longrightarrow> \<not> edge g a a"
    and movable_verts: "inv g \<Longrightarrow> movable g \<subseteq> verts g"
    and rem_law: "inv g \<Longrightarrow> n \<in> verts g \<Longrightarrow> \<exists>g'. rem n g = Some g' \<and> inv g' \<and> verts g' = verts g - {n} \<and>
      movable g' = movable g - {n} \<and> (\<forall>x y. edge g' x y = (edge g x y \<and> x \<noteq> n \<and> y \<noteq> n))"
    and mrg_law: "inv g \<Longrightarrow> a \<in> verts g \<Longrightarrow> b \<in> movable g \<Longrightarrow> a \<noteq> b \<Longrightarrow> \<not> edge g a b \<Longrightarrow>
      \<exists>g'. mrg a b g = Some g' \<and> inv g' \<and> verts g' = verts g - {b} \<and> movable g' = movable g - {b} \<and>
      (\<forall>x y. edge g' x y = (x \<noteq> b \<and> y \<noteq> b \<and>
         (edge g x y \<or> (x = a \<and> edge g b y) \<or> (y = a \<and> edge g x b))))"
begin

lemma rem_SomeD:
  assumes "inv g" "n \<in> verts g" "rem n g = Some g'"
  shows "inv g' \<and> verts g' = verts g - {n} \<and> movable g' = movable g - {n} \<and>
    (\<forall>x y. edge g' x y = (edge g x y \<and> x \<noteq> n \<and> y \<noteq> n))"
  using rem_law [OF assms(1,2)] assms(3) by auto

lemma mrg_SomeD:
  assumes "inv g" "a \<in> verts g" "b \<in> movable g" "a \<noteq> b" "\<not> edge g a b" "mrg a b g = Some g'"
  shows "inv g' \<and> verts g' = verts g - {b} \<and> movable g' = movable g - {b} \<and>
    (\<forall>x y. edge g' x y = (x \<noteq> b \<and> y \<noteq> b \<and>
         (edge g x y \<or> (x = a \<and> edge g b y) \<or> (y = a \<and> edge g x b))))"
  using mrg_law [OF assms(1-5)] assms(6) by auto

definition represents :: "('n \<Rightarrow> 'n \<Rightarrow> bool) \<Rightarrow> ('n \<Rightarrow> 'n set) \<Rightarrow> 'g \<Rightarrow> bool" where
  "represents E cls g = (inv g \<and> (\<forall>x y. E x y \<longrightarrow> E y x) \<and>
     (\<forall>a \<in> verts g. \<forall>b \<in> verts g. edge g a b = (\<exists>x \<in> cls a. \<exists>y \<in> cls b. E x y)))"

lemma representsD:
  assumes "represents E cls g"
  shows "inv g" "\<And>x y. E x y \<Longrightarrow> E y x"
    "\<And>a b. a \<in> verts g \<Longrightarrow> b \<in> verts g \<Longrightarrow> edge g a b = (\<exists>x \<in> cls a. \<exists>y \<in> cls b. E x y)"
  using assms unfolding represents_def by blast+

lemma represents_cong:
  "represents E cls g \<Longrightarrow> (\<And>a. a \<in> verts g \<Longrightarrow> cls' a = cls a) \<Longrightarrow> represents E cls' g"
  unfolding represents_def by auto

lemma represents_start:
  "inv g \<Longrightarrow> represents (edge g) (\<lambda>a. {a}) g"
  unfolding represents_def using edge_sym by auto

text \<open>No class holds two conflicting nodes.\<close>

lemma represents_independent:
  assumes "represents E cls g" "a \<in> verts g" "x \<in> cls a" "y \<in> cls a"
  shows "\<not> E x y"
  using representsD(3) [OF assms(1) assms(2) assms(2)] edge_irrefl [OF representsD(1) [OF assms(1)]] assms
  by blast

lemma represents_rem:
  assumes "represents E cls g" "n \<in> verts g" "rem n g = Some g'"
  shows "represents E cls g'"
  using rem_SomeD [OF representsD(1) [OF assms(1)] assms(2,3)] representsD [OF assms(1)]
  unfolding represents_def by auto

lemma represents_mrg:
  assumes r: "represents E cls g" and ab: "a \<in> verts g" "b \<in> movable g" "a \<noteq> b" "\<not> edge g a b"
    and m: "mrg a b g = Some g'"
  shows "represents E (cls(a := cls a \<union> cls b)) g'"
proof -
  have i: "inv g" by (rule representsD(1) [OF r])
  have b: "b \<in> verts g" using movable_verts [OF i] ab(2) by blast
  note S = mrg_SomeD [OF i ab m]
  have e: "edge g' x y = (\<exists>p \<in> (cls(a := cls a \<union> cls b)) x. \<exists>q \<in> (cls(a := cls a \<union> cls b)) y. E p q)"
    if "x \<in> verts g'" "y \<in> verts g'" for x y
  proof -
    have v: "x \<in> verts g" "y \<in> verts g" "x \<noteq> b" "y \<noteq> b" using that S by auto
    have aa: "\<not> edge g a a" "\<not> edge g b a" "\<not> edge g b b"
      using edge_irrefl [OF i] edge_sym [OF i] ab(4) by blast+
    note R = representsD(3) [OF r v(1,2)] representsD(3) [OF r v(1) b] representsD(3) [OF r b v(2)]
      representsD(3) [OF r ab(1) b] representsD(3) [OF r b ab(1)] representsD(3) [OF r b b]
    have E: "edge g' x y = (edge g x y \<or> (x = a \<and> edge g b y) \<or> (y = a \<and> edge g x b))"
      using S v by blast
    consider (n) "x \<noteq> a" "y \<noteq> a" | (l) "x = a" "y \<noteq> a" | (r) "x \<noteq> a" "y = a" | (b) "x = a" "y = a"
      by blast
    then show ?thesis
    proof cases
      case n then show ?thesis unfolding E by (simp add: R(1))
    next
      case l
      then have "edge g' x y = (edge g x y \<or> edge g b y)" using E by simp
      then show ?thesis unfolding R(1) R(3) using l by (simp add: bex_Un)
    next
      case r
      then have "edge g' x y = (edge g x y \<or> edge g x b)" using E by simp
      then show ?thesis unfolding R(1) R(2) using r by (simp add: bex_Un bex_disj_distrib)
    next
      case b
      then have "\<not> edge g' x y" using E aa ab(4) by blast
      moreover have "\<forall>p \<in> cls a. \<forall>q \<in> cls a. \<not> E p q"
        using representsD(3) [OF r ab(1) ab(1)] aa(1) by simp
      moreover have "\<forall>p \<in> cls a. \<forall>q \<in> cls b. \<not> E p q" using R(4) ab(4) by simp
      moreover have "\<forall>p \<in> cls b. \<forall>q \<in> cls a. \<not> E p q" using R(5) aa(2) by simp
      moreover have "\<forall>p \<in> cls b. \<forall>q \<in> cls b. \<not> E p q" using R(6) aa(3) by simp
      ultimately show ?thesis unfolding b by (simp add: ball_Un)
    qed
  qed
  have i': "inv g'" using S by blast
  show ?thesis unfolding represents_def
    using i' representsD(2) [OF r] by (intro conjI ballI allI e) simp_all
qed

end

interpretation ng: conflict_graph cedge wf_graph "\<lambda>g. set (all_nodes g)" "\<lambda>g. set (real_nodes g)" remove_node merge
proof unfold_locales
  fix g a b assume "wf_graph g" "cedge g a b"
  then show "cedge g b a" by (rule wf_graphD(8))
next
  fix g a assume "wf_graph g"
  then show "\<not> cedge g a a" by (rule wf_graphD(9))
next
  fix g assume "wf_graph g"
  then show "set (real_nodes g) \<subseteq> set (all_nodes g)" by (rule wf_graphD(3))
next
  fix g n assume wf: "wf_graph g" and n: "n \<in> set (all_nodes g)"
  show "\<exists>g'. remove_node n g = Some g' \<and> wf_graph g' \<and> set (all_nodes g') = set (all_nodes g) - {n} \<and>
      set (real_nodes g') = set (real_nodes g) - {n} \<and>
      (\<forall>x y. cedge g' x y = (cedge g x y \<and> x \<noteq> n \<and> y \<noteq> n))"
    using remove_node_spec [OF wf n] wf_graphD(1,2) [OF wf] by (auto simp: set_remove1_eq)
next
  fix g a b assume wf: "wf_graph g" and ab: "a \<in> set (all_nodes g)" "b \<in> set (real_nodes g)" "a \<noteq> b"
    "\<not> cedge g a b"
  show "\<exists>g'. merge a b g = Some g' \<and> wf_graph g' \<and> set (all_nodes g') = set (all_nodes g) - {b} \<and>
      set (real_nodes g') = set (real_nodes g) - {b} \<and>
      (\<forall>x y. cedge g' x y = (x \<noteq> b \<and> y \<noteq> b \<and>
         (cedge g x y \<or> (x = a \<and> cedge g b y) \<or> (y = a \<and> cedge g x b))))"
    using merge_spec [OF wf ab] wf_graphD(1,2) [OF wf] by (auto simp: set_remove1_eq)
qed

text \<open>C24: Merging keeps the interference graph sound: when \<open>n2\<close> is merged into a node it does not
  conflict with, the graph stays well formed (symmetric, irreflexive, no dangling neighbour) and
  the merged node conflicts with exactly the neighbours either had.\<close>

theorem merge_unites_conflicts:
  assumes "wf_graph g" and "n1 \<in> set (all_nodes g)" and "n2 \<in> set (real_nodes g)"
    and "n1 \<noteq> n2" and "\<not> cedge g n1 n2"
  shows "\<exists>g'. merge n1 n2 g = Some g' \<and> wf_graph g' \<and> \<not> is_node n2 g' \<and>
    (\<forall>y. cedge g' n1 y = (cedge g n1 y \<or> cedge g n2 y)) \<and>
    (\<forall>x y. x \<noteq> n1 \<longrightarrow> y \<noteq> n1 \<longrightarrow> cedge g' x y = (cedge g x y \<and> x \<noteq> n2 \<and> y \<noteq> n2))"
proof -
  obtain g' where g': "merge n1 n2 g = Some g'" "wf_graph g'" "all_nodes g' = remove1 n2 (all_nodes g)"
    and e: "\<And>x y. cedge g' x y = (x \<noteq> n2 \<and> y \<noteq> n2 \<and>
       (cedge g x y \<or> (x = n1 \<and> cedge g n2 y) \<or> (y = n1 \<and> cedge g x n2)))"
    using merge_spec [OF assms] by blast
  have "n2 \<notin> set (all_nodes g')"
    using g'(3) wf_graphD(1) [OF assms(1)] by (simp add: set_remove1_eq)
  then have "\<not> is_node n2 g'" using wf_graphD(4) [OF g'(2)] by (auto simp: is_node_def)
  moreover have "\<not> cedge g n2 n2" "\<not> cedge g n1 n1" "\<not> cedge g n2 n1"
    using ng.edge_irrefl [OF assms(1)] ng.edge_sym [OF assms(1)] assms(5) by blast+
  ultimately show ?thesis using g' e assms(4,5) by (intro exI [of _ g']) auto
qed

definition sample_graph :: graph where
  "sample_graph = \<lparr>real_nodes = [Val 1, Val 2, Val 3], all_nodes = [Val 1, Val 2, Val 3],
     conf = [Val 1 \<mapsto> [Val 3], Val 2 \<mapsto> [], Val 3 \<mapsto> [Val 1]],
     pref = [Val 1 \<mapsto> [Val 2], Val 2 \<mapsto> [Val 1], Val 3 \<mapsto> []]\<rparr>"

lemma sample_graph_wf: "wf_graph sample_graph"
  by (auto simp: wf_graph_def sample_graph_def cedge_def pedge_def split: if_splits)

theorem merge_unites_conflicts_witness:
  "\<exists>g'. merge (Val 1) (Val 2) sample_graph = Some g' \<and> wf_graph g' \<and> cedge g' (Val 1) (Val 3)"
proof -
  have "\<not> cedge sample_graph (Val 1) (Val 2)" "cedge sample_graph (Val 1) (Val 3)"
    by (simp_all add: cedge_def sample_graph_def)
  then show ?thesis
    using merge_unites_conflicts [OF sample_graph_wf, of "Val 1" "Val 2"]
    by (auto simp: sample_graph_def)
qed

end
