(* ===== verification/RegAlloc.thy ===== *)
theory RegAlloc
  imports NodeGraph
begin

text \<open>
  The register allocator of \<open>shivyc/asm_gen.py\<close>: the simplify, coalesce and freeze phases over a
  conflict graph, the optimistic removal of a high-degree node, and the assignment of spots
  when the stack of removed nodes is popped.  A KeyError, ValueError or AttributeError is
  \<^const>\<open>None\<close>.
\<close>

section \<open>The state of one allocation\<close>

text \<open>\<open>removed_nodes\<close> (a stack, top last), \<open>merged_nodes\<close> and the working copy of the graph.\<close>

type_synonym merge_map = "node \<rightharpoonup> node list"

record ra_state =
  removed_nodes :: "node list"
  merged_nodes :: merge_map
  ra_graph :: graph

section \<open>Simplify\<close>

fun simplify_once :: "nat \<Rightarrow> node list \<Rightarrow> graph \<Rightarrow> (node \<times> graph) option option" where
  "simplify_once nreg [] g = Some None"
| "simplify_once nreg (v # vs) g =
     (case confs g v of None \<Rightarrow> None
      | Some cs \<Rightarrow>
        if length cs < nreg
        then (case remove_node v g of None \<Rightarrow> None | Some g' \<Rightarrow> Some (Some (v, g')))
        else simplify_once nreg vs g)"

function simplify_loop :: "nat \<Rightarrow> node list \<Rightarrow> bool \<Rightarrow> ra_state \<Rightarrow> (bool \<times> ra_state) option" where
  "simplify_loop nreg no_pref did s =
     (case simplify_once nreg no_pref (ra_graph s) of
        None \<Rightarrow> None
      | Some None \<Rightarrow> Some (did, s)
      | Some (Some (v, g')) \<Rightarrow>
        (case py_remove v no_pref of None \<Rightarrow> None
         | Some no_pref' \<Rightarrow> simplify_loop nreg no_pref' True
             (s\<lparr>removed_nodes := removed_nodes s @ [v], ra_graph := g'\<rparr>)))"
  by pat_completeness auto

termination
  by (relation "measure (\<lambda>(_, np, _, _). length np)") (auto dest: py_remove_length)

declare simplify_loop.simps [simp del]

fun no_prefs :: "graph \<Rightarrow> node list \<Rightarrow> node list option" where
  "no_prefs g [] = Some []"
| "no_prefs g (v # vs) =
     (case prefs g v of None \<Rightarrow> None
      | Some ps \<Rightarrow> map_option (\<lambda>r. if ps = [] then v # r else r) (no_prefs g vs))"

definition simplify_all :: "nat \<Rightarrow> ra_state \<Rightarrow> (bool \<times> ra_state) option" where
  "simplify_all nreg s =
     (case no_prefs (ra_graph s) (nodes (ra_graph s)) of None \<Rightarrow> None
      | Some np \<Rightarrow> simplify_loop nreg np False s)"

section \<open>Coalesce\<close>

text \<open>George's test: every neighbour of \<open>a\<close> already conflicts with \<open>b\<close> or has low degree.\<close>

fun george :: "graph \<Rightarrow> nat \<Rightarrow> node \<Rightarrow> node list \<Rightarrow> bool option" where
  "george g nreg b [] = Some True"
| "george g nreg b (t # ts) =
     (case confs g t of None \<Rightarrow> None
      | Some ct \<Rightarrow> if b \<in> set ct then george g nreg b ts
                   else if length ct < nreg then george g nreg b ts
                   else Some False)"

text \<open>The body of the loop for one preference neighbour \<open>v2\<close>; \<open>Some None\<close> goes on to the next one.\<close>

definition coalesce_pair :: "graph \<Rightarrow> node \<Rightarrow> nat \<Rightarrow> node \<Rightarrow> (node \<times> node \<times> graph) option option" where
  "coalesce_pair g v1 nreg v2 =
     (case confs g v1 of None \<Rightarrow> None
      | Some c1 \<Rightarrow>
        if v2 \<in> set c1 then Some None
        else (case confs g v2 of None \<Rightarrow> None
          | Some c2 \<Rightarrow>
            let total_confs = length c1 + length (filter (\<lambda>x. x \<notin> set c1) c2);
                a = (if is_phys v1 then v2 else v1); b = (if is_phys v1 then v1 else v2) in
            if is_phys b
            then (case confs g a of None \<Rightarrow> None
              | Some ca \<Rightarrow>
                (case george g nreg b ca of None \<Rightarrow> None
                 | Some ok \<Rightarrow> if ok then map_option (\<lambda>g'. Some (b, a, g')) (merge b a g) else Some None))
            else if total_confs < nreg then map_option (\<lambda>g'. Some (a, b, g')) (merge a b g)
            else Some None))"

fun coalesce_try :: "graph \<Rightarrow> node \<Rightarrow> nat \<Rightarrow> node list \<Rightarrow> (node \<times> node \<times> graph) option option" where
  "coalesce_try g v1 nreg [] = Some None"
| "coalesce_try g v1 nreg (v2 # vs) =
     (case coalesce_pair g v1 nreg v2 of
        None \<Rightarrow> None
      | Some None \<Rightarrow> coalesce_try g v1 nreg vs
      | Some (Some m) \<Rightarrow> Some (Some m))"

definition coalesce_node :: "graph \<Rightarrow> node \<Rightarrow> nat \<Rightarrow> (node \<times> node \<times> graph) option option" where
  "coalesce_node g v1 nreg =
     (case prefs g v1 of None \<Rightarrow> None | Some ps \<Rightarrow> coalesce_try g v1 nreg ps)"

text \<open>\<open>merged_nodes[a].append(b)\<close>, with the missing key created first.\<close>

definition record_merge :: "node \<Rightarrow> node \<Rightarrow> merge_map \<Rightarrow> merge_map" where
  "record_merge a b m = m(a \<mapsto> (case m a of None \<Rightarrow> [] | Some l \<Rightarrow> l) @ [b])"

fun coalesce_pass :: "nat \<Rightarrow> node list \<Rightarrow> bool \<Rightarrow> ra_state \<Rightarrow> (bool \<times> ra_state) option" where
  "coalesce_pass nreg [] merged_any s = Some (merged_any, s)"
| "coalesce_pass nreg (v1 # vs) merged_any s =
     (if \<not> is_node v1 (ra_graph s) then coalesce_pass nreg vs merged_any s
      else (case coalesce_node (ra_graph s) v1 nreg of
          None \<Rightarrow> None
        | Some None \<Rightarrow> coalesce_pass nreg vs merged_any s
        | Some (Some (a, b, g')) \<Rightarrow> coalesce_pass nreg vs True
            (s\<lparr>merged_nodes := record_merge a b (merged_nodes s), ra_graph := g'\<rparr>)))"

text \<open>The size of the working graph: every simplification and every merge makes it smaller.\<close>

definition ra_size :: "ra_state \<Rightarrow> nat" where
  "ra_size s = length (all_nodes (ra_graph s))"

lemma merge_shrinks: "merge a b g = Some g' \<Longrightarrow> length (all_nodes g) = Suc (length (all_nodes g'))"
  by (auto simp: merge_def Let_def dest: py_remove_length split: option.splits if_splits)

lemma remove_node_shrinks: "remove_node a g = Some g' \<Longrightarrow> length (all_nodes g) = Suc (length (all_nodes g'))"
  by (auto simp: remove_node_def dest: py_remove_length split: option.splits if_splits)

lemma coalesce_pair_merge:
  "coalesce_pair g v1 nreg v2 = Some (Some (a, b, g')) \<Longrightarrow> merge a b g = Some g'"
  by (auto simp: coalesce_pair_def Let_def split: option.split_asm if_split_asm)

lemma coalesce_try_pair:
  "coalesce_try g v1 nreg vs = Some (Some m) \<Longrightarrow> \<exists>v2 \<in> set vs. coalesce_pair g v1 nreg v2 = Some (Some m)"
  by (induction vs) (auto split: option.splits)

lemma coalesce_node_merge:
  "coalesce_node g v1 nreg = Some (Some (a, b, g')) \<Longrightarrow> merge a b g = Some g'"
  by (auto simp: coalesce_node_def dest!: coalesce_try_pair coalesce_pair_merge split: option.splits)

lemma coalesce_pass_size:
  "coalesce_pass nreg vs m s = Some (m', s') \<Longrightarrow>
     ra_size s' \<le> ra_size s \<and> (m' \<longrightarrow> \<not> m \<longrightarrow> ra_size s' < ra_size s) \<and> (\<not> m' \<longrightarrow> s' = s \<and> \<not> m)"
proof (induction nreg vs m s rule: coalesce_pass.induct)
  case (2 nreg v1 vs m s)
  show ?case
  proof (cases "\<not> is_node v1 (ra_graph s)")
    case True
    then show ?thesis using "2.IH"(1) "2.prems" by simp
  next
    case False
    then obtain r where r: "coalesce_node (ra_graph s) v1 nreg = Some r"
      using "2.prems" by (auto split: option.splits)
    show ?thesis
    proof (cases r)
      case None
      then show ?thesis using "2.IH"(2) [OF False, of None] "2.prems" False r by simp
    next
      case (Some t)
      obtain a b g' where t: "t = (a, b, g')" by (cases t)
      have sz: "ra_size (s\<lparr>merged_nodes := record_merge a b (merged_nodes s), ra_graph := g'\<rparr>) < ra_size s"
        using merge_shrinks [OF coalesce_node_merge] r Some t by (fastforce simp: ra_size_def)
      have "coalesce_pass nreg vs True (s\<lparr>merged_nodes := record_merge a b (merged_nodes s), ra_graph := g'\<rparr>)
          = Some (m', s')"
        using "2.prems" False r Some t by simp
      from "2.IH"(3) [OF False r Some t [symmetric] refl this] sz show ?thesis by simp
    qed
  qed
qed simp

function coalesce_loop :: "nat \<Rightarrow> bool \<Rightarrow> ra_state \<Rightarrow> (bool \<times> ra_state) option" where
  "coalesce_loop nreg did s =
     (case coalesce_pass nreg (nodes (ra_graph s)) False s of
        None \<Rightarrow> None
      | Some (False, s') \<Rightarrow> Some (did, s')
      | Some (True, s') \<Rightarrow> coalesce_loop nreg True s')"
  by pat_completeness auto

termination
  by (relation "measure (\<lambda>(_, _, s). ra_size s)") (auto dest: coalesce_pass_size)

declare coalesce_loop.simps [simp del]

definition coalesce_all :: "nat \<Rightarrow> ra_state \<Rightarrow> (bool \<times> ra_state) option" where
  "coalesce_all nreg s = coalesce_loop nreg False s"

section \<open>Freeze\<close>

text \<open>The conflict degrees, and the key of a preference edge, compared lexicographically.\<close>

definition deg_of :: "graph \<Rightarrow> node \<Rightarrow> nat option" where
  "deg_of g nd = (if nd \<in> set (all_nodes g) then map_option length (confs g nd) else None)"

type_synonym freeze_key = "nat \<times> nat \<times> nat"

definition freeze_key_of :: "nat \<Rightarrow> nat \<Rightarrow> freeze_key" where
  "freeze_key_of p1 p2 = (p1 + p2, min p1 p2, max p1 p2)"

definition key_less :: "freeze_key \<Rightarrow> freeze_key \<Rightarrow> bool" where
  "key_less k l = (fst k < fst l \<or> (fst k = fst l \<and> (fst (snd k) < fst (snd l) \<or>
     (fst (snd k) = fst (snd l) \<and> snd (snd k) < snd (snd l)))))"

text \<open>The best edge so far with its key.\<close>

type_synonym freeze_best = "(freeze_key \<times> node \<times> node) option"

definition better :: "freeze_key \<Rightarrow> node \<Rightarrow> node \<Rightarrow> freeze_best \<Rightarrow> freeze_best" where
  "better k na nb best = (case best of None \<Rightarrow> Some (k, na, nb)
     | Some (k', e) \<Rightarrow> if key_less k k' then Some (k, na, nb) else best)"

definition freeze_inner :: "graph \<Rightarrow> node \<Rightarrow> nat \<Rightarrow> node \<Rightarrow> freeze_best \<Rightarrow> freeze_best option" where
  "freeze_inner g na p1 nb best =
     (case deg_of g nb of None \<Rightarrow> None
      | Some p2 \<Rightarrow> Some (better (freeze_key_of p1 p2) na nb best))"

definition freeze_outer :: "graph \<Rightarrow> node \<Rightarrow> freeze_best \<Rightarrow> freeze_best option" where
  "freeze_outer g na best =
     (case (deg_of g na, prefs g na) of
        (Some p1, Some ps) \<Rightarrow> ofold (freeze_inner g na p1) ps best
      | _ \<Rightarrow> None)"

definition freeze_best_of :: "graph \<Rightarrow> freeze_best option" where
  "freeze_best_of g = ofold (freeze_outer g) (all_nodes g) None"

text \<open>\<open>Some None\<close> is the False of the source: no preference edge is left.\<close>

definition freeze :: "graph \<Rightarrow> graph option option" where
  "freeze g =
     (case freeze_best_of g of
        None \<Rightarrow> None
      | Some None \<Rightarrow> Some None
      | Some (Some (_, na, nb)) \<Rightarrow> map_option Some (remove_pref na nb g))"

section \<open>The loops of \<open>_make_asm\<close>\<close>

lemma simplify_once_removes:
  "simplify_once nreg vs g = Some (Some (v, g')) \<Longrightarrow> v \<in> set vs \<and> remove_node v g = Some g' \<and>
     (\<exists>cs. confs g v = Some cs \<and> length cs < nreg)"
  by (induction vs) (auto split: option.split_asm if_split_asm)

lemma simplify_loop_size:
  "simplify_loop nreg np did s = Some (did', s') \<Longrightarrow>
     ra_size s' \<le> ra_size s \<and> (did' \<longrightarrow> \<not> did \<longrightarrow> ra_size s' < ra_size s) \<and> (\<not> did' \<longrightarrow> s' = s \<and> \<not> did)"
proof (induction nreg np did s rule: simplify_loop.induct)
  case (1 nreg np did s)
  obtain r where r: "simplify_once nreg np (ra_graph s) = Some r"
    using "1.prems" by (auto simp: simplify_loop.simps [of nreg np did s] split: option.splits)
  show ?case
  proof (cases r)
    case None
    then show ?thesis using "1.prems" r by (simp add: simplify_loop.simps [of nreg np did s])
  next
    case (Some t)
    obtain v g' where t: "t = (v, g')" by (cases t)
    obtain np' where np': "py_remove v np = Some np'"
      using simplify_once_removes [of nreg np "ra_graph s" v g'] r Some t by (auto simp: py_remove_def)
    have "simplify_loop nreg np' True (s\<lparr>removed_nodes := removed_nodes s @ [v], ra_graph := g'\<rparr>) = Some (did', s')"
      using "1.prems" r Some t np' by (simp add: simplify_loop.simps [of nreg np did s])
    from "1.IH" [OF r Some t [symmetric] np' this] show ?thesis
      using simplify_once_removes [of nreg np "ra_graph s" v g'] r Some t remove_node_shrinks
      by (fastforce simp: ra_size_def)
  qed
qed

lemma simplify_all_size:
  assumes "simplify_all nreg s = Some (did, s')"
  shows "ra_size s' \<le> ra_size s \<and> (did \<longrightarrow> ra_size s' < ra_size s) \<and> (\<not> did \<longrightarrow> s' = s)"
  using assms simplify_loop_size unfolding simplify_all_def by (fastforce split: option.splits)

lemma coalesce_loop_size:
  "coalesce_loop nreg did s = Some (did', s') \<Longrightarrow>
     ra_size s' \<le> ra_size s \<and> (did' \<longrightarrow> \<not> did \<longrightarrow> ra_size s' < ra_size s) \<and> (\<not> did' \<longrightarrow> s' = s \<and> \<not> did)"
proof (induction nreg did s rule: coalesce_loop.induct)
  case (1 nreg did s)
  obtain m t where p: "coalesce_pass nreg (nodes (ra_graph s)) False s = Some (m, t)"
    using "1.prems" by (auto simp: coalesce_loop.simps [of nreg did s] split: option.splits)
  note sz = coalesce_pass_size [OF p]
  show ?case
  proof (cases m)
    case True
    then have "coalesce_loop nreg True t = Some (did', s')"
      using "1.prems" p by (simp add: coalesce_loop.simps [of nreg did s])
    from "1.IH" [OF p refl _ this] True sz show ?thesis by auto
  next
    case False
    then show ?thesis using "1.prems" p sz by (simp add: coalesce_loop.simps [of nreg did s])
  qed
qed

lemma coalesce_all_size:
  assumes "coalesce_all nreg s = Some (did, s')"
  shows "ra_size s' \<le> ra_size s \<and> (did \<longrightarrow> ra_size s' < ra_size s) \<and> (\<not> did \<longrightarrow> s' = s)"
  using assms coalesce_loop_size unfolding coalesce_all_def by blast

text \<open>Simplify and coalesce until nothing happens.\<close>

function simp_coal :: "nat \<Rightarrow> ra_state \<Rightarrow> ra_state option" where
  "simp_coal nreg s =
     (case simplify_all nreg s of None \<Rightarrow> None
      | Some (simplified, s1) \<Rightarrow>
        (case coalesce_all nreg s1 of None \<Rightarrow> None
         | Some (merged, s2) \<Rightarrow>
           if \<not> simplified \<and> \<not> merged then Some s2 else simp_coal nreg s2))"
  by pat_completeness auto

termination
proof (relation "measure (\<lambda>(_, s). ra_size s)", goal_cases)
  case (2 nreg s a did s1 b mg s2)
  then show ?case
    using simplify_all_size [of nreg s did s1] coalesce_all_size [of nreg s1 mg s2]
    by (auto intro: le_less_trans less_le_trans)
qed simp

declare simp_coal.simps [simp del]

lemma simp_coal_size:
  "simp_coal nreg s = Some s' \<Longrightarrow> ra_size s' < ra_size s \<or> s' = s"
proof (induction nreg s rule: simp_coal.induct)
  case (1 nreg s)
  obtain d s1 m s2 where p: "simplify_all nreg s = Some (d, s1)" "coalesce_all nreg s1 = Some (m, s2)"
    using "1.prems" by (auto simp: simp_coal.simps [of nreg s] split: option.splits)
  note sz = simplify_all_size [OF p(1)] coalesce_all_size [OF p(2)]
  show ?case
  proof (cases "\<not> d \<and> \<not> m")
    case True
    then show ?thesis using "1.prems" p sz by (simp add: simp_coal.simps [of nreg s])
  next
    case False
    then have "simp_coal nreg s2 = Some s'"
      using "1.prems" p by (auto simp: simp_coal.simps [of nreg s])
    from "1.IH" [OF p(1) refl p(2) refl False this] sz False show ?thesis by auto
  qed
qed

text \<open>The number of preference entries, which the freeze phase lowers.\<close>

definition pref_len :: "graph \<Rightarrow> node \<Rightarrow> nat" where
  "pref_len g n = (case pref g n of None \<Rightarrow> 0 | Some ps \<Rightarrow> length ps)"

definition pref_count :: "graph \<Rightarrow> nat" where
  "pref_count g = sum_list (map (pref_len g) (all_nodes g))"

lemma sum_list_less:
  fixes f g :: "'a \<Rightarrow> nat"
  assumes "\<And>x. f x \<le> g x" and "a \<in> set xs" and "f a < g a"
  shows "sum_list (map f xs) < sum_list (map g xs)"
  using assms(2)
proof (induction xs)
  case (Cons x xs)
  have "sum_list (map f xs) \<le> sum_list (map g xs)" by (rule sum_list_mono) (rule assms(1))
  then show ?case using Cons assms(1) [of x] assms(3) by (cases "x = a") (auto intro: add_less_le_mono add_le_less_mono)
qed simp

lemma remove_pref_shrinks:
  assumes r: "remove_pref a b g = Some g'" and a: "a \<in> set (all_nodes g)"
  shows "all_nodes g' = all_nodes g \<and> pref_count g' < pref_count g"
proof -
  obtain p1 p1' p2 p2' where p: "pref g a = Some p1" "py_remove b p1 = Some p1'"
      "((pref g)(a \<mapsto> p1')) b = Some p2" "py_remove a p2 = Some p2'"
      "g' = g\<lparr>pref := (pref g)(a \<mapsto> p1', b \<mapsto> p2')\<rparr>"
    using r by (auto simp: remove_pref_def Let_def split: option.split_asm)
  have l: "length p1 = Suc (length p1')" "length p2 = Suc (length p2')"
    using py_remove_length [OF p(2)] py_remove_length [OF p(4)] by simp_all
  have "pref_len g' x \<le> pref_len g x" for x
    using p l by (auto simp: pref_len_def split: if_split_asm)
  moreover have "pref_len g' a < pref_len g a"
    using p l by (auto simp: pref_len_def split: if_split_asm)
  moreover have "all_nodes g' = all_nodes g" using p by simp
  ultimately show ?thesis unfolding pref_count_def using sum_list_less a by metis
qed

lemma better_cases:
  "better k na nb best = best \<or> better k na nb best = Some (k, na, nb)"
  by (auto simp: better_def split: option.split)

lemma freeze_best_edge:
  assumes "freeze_best_of g = Some (Some (k, na, nb))"
  shows "na \<in> set (all_nodes g) \<and> pedge g na nb"
proof -
  define P where "P best = (\<forall>k x y. best = Some (k, x, y) \<longrightarrow> x \<in> set (all_nodes g) \<and> pedge g x y)"
    for best :: freeze_best
  have "P (Some (k, na, nb))"
  proof (rule ofold_invariant [where P = P])
    show "ofold (freeze_outer g) (all_nodes g) None = Some (Some (k, na, nb))"
      using assms by (simp add: freeze_best_of_def)
    show "P None" by (simp add: P_def)
    fix x best best'
    assume x: "x \<in> set (all_nodes g)" and P: "P best" and o: "freeze_outer g x best = Some best'"
    obtain p1 ps where ps: "prefs g x = Some ps" "ofold (freeze_inner g x p1) ps best = Some best'"
      using o by (auto simp: freeze_outer_def split: option.split_asm)
    show "P best'"
    proof (rule ofold_invariant [where P = P, OF ps(2) P])
      fix y t t' assume y: "y \<in> set ps" and t: "P t" and s: "freeze_inner g x p1 y t = Some t'"
      obtain p2 where "t' = better (freeze_key_of p1 p2) x y t"
        using s unfolding freeze_inner_def by (cases "deg_of g y") auto
      then show "P t'" using better_cases [of "freeze_key_of p1 p2" x y t] t x y ps(1)
        by (auto simp: P_def pedge_def prefs_def)
    qed
  qed
  then show ?thesis by (cases k) (simp add: P_def)
qed

lemma freeze_shrinks:
  "freeze g = Some (Some g') \<Longrightarrow> all_nodes g' = all_nodes g \<and> pref_count g' < pref_count g"
  using freeze_best_edge remove_pref_shrinks
  by (fastforce simp: freeze_def split: option.split_asm prod.split_asm)

text \<open>Repeat until the freeze phase finds nothing to remove.\<close>

function freeze_loop :: "nat \<Rightarrow> ra_state \<Rightarrow> ra_state option" where
  "freeze_loop nreg s =
     (case simp_coal nreg s of None \<Rightarrow> None
      | Some s1 \<Rightarrow>
        (case freeze (ra_graph s1) of
           None \<Rightarrow> None
         | Some None \<Rightarrow> Some s1
         | Some (Some g') \<Rightarrow> freeze_loop nreg (s1\<lparr>ra_graph := g'\<rparr>)))"
  by pat_completeness auto

termination
proof (relation "measures [\<lambda>(_, s). ra_size s, \<lambda>(_, s). pref_count (ra_graph s)]", goal_cases)
  case (2 nreg s s1 r g')
  then show ?case
    using simp_coal_size [of nreg s s1] freeze_shrinks [of "ra_graph s1" g']
    by (auto simp: ra_size_def)
qed simp

declare freeze_loop.simps [simp del]

lemma freeze_loop_size:
  "freeze_loop nreg s = Some s' \<Longrightarrow> ra_size s' \<le> ra_size s"
proof (induction nreg s rule: freeze_loop.induct)
  case (1 nreg s)
  obtain s1 r where p: "simp_coal nreg s = Some s1" "freeze (ra_graph s1) = Some r"
    using "1.prems" by (auto simp: freeze_loop.simps [of nreg s] split: option.splits)
  show ?case
  proof (cases r)
    case None
    then show ?thesis using "1.prems" p simp_coal_size [OF p(1)] by (auto simp: freeze_loop.simps [of nreg s])
  next
    case (Some g')
    then have "freeze_loop nreg (s1\<lparr>ra_graph := g'\<rparr>) = Some s'"
      using "1.prems" p by (simp add: freeze_loop.simps [of nreg s])
    from "1.IH" [OF p Some this] freeze_shrinks [of "ra_graph s1" g'] p Some simp_coal_size [OF p(1)]
    show ?thesis by (auto simp: ra_size_def)
  qed
qed

text \<open>The optimistic choice: the first node of the highest conflict degree.\<close>

definition spill_step :: "graph \<Rightarrow> node \<Rightarrow> node option \<times> int \<Rightarrow> (node option \<times> int) option" where
  "spill_step g cand st =
     (case confs g cand of None \<Rightarrow> None
      | Some cs \<Rightarrow> Some (if int (length cs) > snd st then (Some cand, int (length cs)) else st))"

definition spill_choice :: "graph \<Rightarrow> node option option" where
  "spill_choice g = map_option fst (ofold (spill_step g) (nodes g) (None, - 1))"

function alloc_loop :: "nat \<Rightarrow> ra_state \<Rightarrow> ra_state option" where
  "alloc_loop nreg s =
     (case freeze_loop nreg s of None \<Rightarrow> None
      | Some s1 \<Rightarrow>
        if nodes (ra_graph s1) = [] then Some s1
        else (case spill_choice (ra_graph s1) of
            Some (Some nd) \<Rightarrow>
              (case remove_node nd (ra_graph s1) of None \<Rightarrow> None
               | Some g' \<Rightarrow> alloc_loop nreg
                   (s1\<lparr>removed_nodes := removed_nodes s1 @ [nd], ra_graph := g'\<rparr>))
          | _ \<Rightarrow> None))"
  by pat_completeness auto

termination
proof (relation "measure (\<lambda>(_, s). ra_size s)", goal_cases)
  case (2 nreg s s1 r nd g')
  then show ?case
    using freeze_loop_size [of nreg s s1] remove_node_shrinks [of nd "ra_graph s1" g']
    by (auto simp: ra_size_def)
qed simp

declare alloc_loop.simps [simp del]

text \<open>What is left, the machine registers, goes on top of the stack.\<close>

function drain :: "node list \<Rightarrow> graph \<Rightarrow> node list option" where
  "drain rs g =
     (case all_nodes g of [] \<Rightarrow> Some rs
      | nd # _ \<Rightarrow> (case pop nd g of None \<Rightarrow> None | Some g' \<Rightarrow> drain (rs @ [nd]) g'))"
  by pat_completeness auto

termination
  by (relation "measure (\<lambda>(_, g). length (all_nodes g))") (auto simp: pop_def dest: remove_node_shrinks)

declare drain.simps [simp del]

section \<open>Stack slots\<close>

record frame =
  frame_offset :: int
  near_active :: bool
  near_label :: string
  near_off :: int
  near_size :: int

definition alloc_stack_slot :: "int \<Rightarrow> frame \<Rightarrow> spot \<times> frame" where
  "alloc_stack_slot bytes fr =
     (if near_active fr
      then (MemSpot (BaseSym (near_label fr)) (near_off fr) 0 None,
            fr\<lparr>near_off := near_off fr + bytes, near_size := max (near_size fr) (near_off fr + bytes)\<rparr>)
      else (MemSpot (BaseSpot RBP) (- (frame_offset fr + bytes)) 0 None,
            fr\<lparr>frame_offset := frame_offset fr + bytes\<rparr>))"

section \<open>Assigning the spots\<close>

text \<open>
  \<open>get_conflicts\<close> and \<open>get_merged\<close> recurse through \<open>merged_nodes\<close>; the fuel bounds the depth of that
  recursion and running out of it is \<^const>\<open>None\<close>, Python's RecursionError.
\<close>

definition merged_into :: "merge_map \<Rightarrow> node \<Rightarrow> node list" where
  "merged_into m nd = (case m nd of None \<Rightarrow> [] | Some l \<Rightarrow> l)"

fun get_conflicts :: "nat \<Rightarrow> graph \<Rightarrow> merge_map \<Rightarrow> node \<Rightarrow> node list option" where
  "get_conflicts 0 g m nd = None"
| "get_conflicts (Suc f) g m nd =
     (case confs g nd of None \<Rightarrow> None
      | Some cs \<Rightarrow> ofold (\<lambda>sub acc. map_option (\<lambda>c. dset_add_all c acc) (get_conflicts f g m sub))
          (merged_into m nd) (dset_add_all cs []))"

fun get_merged :: "nat \<Rightarrow> merge_map \<Rightarrow> node \<Rightarrow> node list option" where
  "get_merged 0 m nd = None"
| "get_merged (Suc f) m nd =
     ofold (\<lambda>sub acc. map_option (\<lambda>c. dset_add_all c acc) (get_merged f m sub)) (merged_into m nd) [nd]"

text \<open>One round of the loop that strikes out the conflicting registers.\<close>

definition strike :: "(node \<rightharpoonup> spot) \<Rightarrow> node \<Rightarrow> spot list \<Rightarrow> spot list" where
  "strike sm other regs =
     (let regs1 = (case other of Phys s \<Rightarrow> if s \<in> set regs then remove1 s regs else regs | Val _ \<Rightarrow> regs) in
      case sm other of
        None \<Rightarrow> regs1
      | Some s \<Rightarrow> if s \<in> set regs1 then remove1 s regs1 else regs1)"

definition assign_all :: "node list \<Rightarrow> spot \<Rightarrow> (node \<rightharpoonup> spot) \<Rightarrow> (node \<rightharpoonup> spot)" where
  "assign_all ns s sm = fold (\<lambda>n m. m(n \<mapsto> s)) ns sm"

record spot_state =
  spotmap :: "node \<rightharpoonup> spot"
  spilled_nodes :: "node list"
  sp_frame :: frame

text \<open>The size of a node's type; a machine register has none (AttributeError).\<close>

definition node_size :: "(nat \<Rightarrow> int) \<Rightarrow> node \<Rightarrow> int option" where
  "node_size sz n = (case n of Val v \<Rightarrow> Some (sz v) | Phys _ \<Rightarrow> None)"

definition spot_step ::
  "nat \<Rightarrow> spot list \<Rightarrow> (nat \<Rightarrow> int) \<Rightarrow> graph \<Rightarrow> merge_map \<Rightarrow> node \<Rightarrow> spot_state \<Rightarrow> spot_state option" where
  "spot_step fuel alloc_regs sz g m cur st =
     (let regs = rev alloc_regs in
      case (case cur of Phys s \<Rightarrow> if s \<in> set regs then Some s else None | Val _ \<Rightarrow> None) of
        Some reg \<Rightarrow> map_option (\<lambda>ms. st\<lparr>spotmap := assign_all ms reg (spotmap st)\<rparr>) (get_merged fuel m cur)
      | None \<Rightarrow>
        (case get_conflicts fuel g m cur of None \<Rightarrow> None
         | Some cs \<Rightarrow>
           let regs' = fold (strike (spotmap st)) cs regs in
           if regs' \<noteq> []
           then map_option (\<lambda>ms. st\<lparr>spotmap := assign_all ms (last regs') (spotmap st)\<rparr>) (get_merged fuel m cur)
           else (case node_size sz cur of None \<Rightarrow> None
             | Some bytes \<Rightarrow>
               (case get_merged fuel m cur of None \<Rightarrow> None
                | Some ms \<Rightarrow>
                  let slot_fr = alloc_stack_slot bytes (sp_frame st) in
                  Some \<lparr>spotmap = assign_all ms (fst slot_fr) (spotmap st),
                    spilled_nodes = spilled_nodes st @ [cur], sp_frame = snd slot_fr\<rparr>))))"

text \<open>\<open>_generate_spotmap\<close> pops the stack, so the list is walked from its end.\<close>

definition generate_spotmap ::
  "nat \<Rightarrow> spot list \<Rightarrow> (nat \<Rightarrow> int) \<Rightarrow> graph \<Rightarrow> merge_map \<Rightarrow> node list \<Rightarrow> frame \<Rightarrow> spot_state option" where
  "generate_spotmap fuel alloc_regs sz g m removed fr =
     ofold (spot_step fuel alloc_regs sz g m) (rev removed)
       \<lparr>spotmap = Map.empty, spilled_nodes = [], sp_frame = fr\<rparr>"

text \<open>The part of \<open>_make_asm\<close> from the copy of the graph to the spot map.\<close>

definition allocate :: "spot list \<Rightarrow> (nat \<Rightarrow> int) \<Rightarrow> frame \<Rightarrow> graph \<Rightarrow> spot_state option" where
  "allocate alloc_regs sz fr g_bak =
     (case alloc_loop (length alloc_regs)
             \<lparr>removed_nodes = [], merged_nodes = Map.empty, ra_graph = copy_node g_bak\<rparr> of
        None \<Rightarrow> None
      | Some s \<Rightarrow>
        (case drain (removed_nodes s) (ra_graph s) of None \<Rightarrow> None
         | Some rs \<Rightarrow> generate_spotmap (Suc (length (all_nodes g_bak))) alloc_regs sz g_bak
             (merged_nodes s) rs fr))"

end
