(* ===== verification/RegAllocSound.thy ===== *)
theory RegAllocSound
  imports RegAlloc
begin

text \<open>
  Why the allocation of \<open>RegAlloc\<close> is correct: the invariant of its loops, that no operation raises,
  and that conflicting nodes get different registers or disjoint stack slots.
\<close>

section \<open>Classes of merged nodes\<close>

definition cls :: "merge_map \<Rightarrow> node \<Rightarrow> node set" where
  "cls m a = (step_rel (merged_into m))\<^sup>* `` {a}"

lemma cls_self [simp]: "a \<in> cls m a"
  by (simp add: cls_def)

lemma cls_empty [simp]: "cls Map.empty a = {a}"
proof -
  have "step_rel (merged_into Map.empty) = {}" by (auto simp: step_rel_def merged_into_def)
  then show ?thesis by (simp add: cls_def)
qed

lemma merged_into_record [simp]:
  "merged_into (record_merge a b m) p = (if p = a then merged_into m a @ [b] else merged_into m p)"
  by (simp add: merged_into_def record_merge_def)

lemma step_rel_record: "step_rel (merged_into (record_merge a b m)) = insert (a, b) (step_rel (merged_into m))"
  by (auto simp: step_rel_def split: if_splits)

lemma rtrancl_insert_edge:
  "(insert (a, b) r)\<^sup>* = r\<^sup>* \<union> {(x, y). (x, a) \<in> r\<^sup>* \<and> (b, y) \<in> r\<^sup>*}"
proof -
  have "(x, y) \<in> r\<^sup>* \<or> ((x, a) \<in> r\<^sup>* \<and> (b, y) \<in> r\<^sup>*)" if "(x, y) \<in> (insert (a, b) r)\<^sup>*" for x y
    using that by (induction rule: rtrancl_induct) (auto intro: rtrancl_into_rtrancl)
  moreover have "(x, y) \<in> (insert (a, b) r)\<^sup>*" if "(x, y) \<in> r\<^sup>*" for x y
    using that rtrancl_mono [of r "insert (a, b) r"] by blast
  moreover have "(x, y) \<in> (insert (a, b) r)\<^sup>*" if "(x, a) \<in> r\<^sup>*" "(b, y) \<in> r\<^sup>*" for x y
  proof -
    have "(x, a) \<in> (insert (a, b) r)\<^sup>*" "(b, y) \<in> (insert (a, b) r)\<^sup>*"
      using that rtrancl_mono [of r "insert (a, b) r"] by blast+
    then show ?thesis by (meson insertI1 rtrancl.rtrancl_into_rtrancl rtrancl_trans)
  qed
  ultimately show ?thesis by auto
qed

lemma cls_record:
  "cls (record_merge a b m) x = (if a \<in> cls m x then cls m x \<union> cls m b else cls m x)"
  unfolding cls_def step_rel_record rtrancl_insert_edge by auto

lemma cls_trans: "y \<in> cls m x \<Longrightarrow> z \<in> cls m y \<Longrightarrow> z \<in> cls m x"
  unfolding cls_def by (auto intro: rtrancl_trans)

lemma cls_kid: "c \<in> set (merged_into m x) \<Longrightarrow> cls m c \<subseteq> cls m x"
  unfolding cls_def by (auto intro: converse_rtrancl_into_rtrancl)

lemma cls_unfold: "cls m x = insert x (\<Union>c \<in> set (merged_into m x). cls m c)"
proof -
  have "z = x \<or> (\<exists>c \<in> set (merged_into m x). z \<in> cls m c)" if "z \<in> cls m x" for z
    using that unfolding cls_def by (auto simp: step_rel_def elim: converse_rtranclE)
  then show ?thesis using cls_kid by fastforce
qed

section \<open>The invariant of the allocation loops\<close>

definition typed_graph :: "graph \<Rightarrow> bool" where
  "typed_graph g = (\<forall>v \<in> set (all_nodes g). (v \<in> set (real_nodes g)) = (\<not> is_phys v))"

definition adj :: "graph \<Rightarrow> merge_map \<Rightarrow> node \<Rightarrow> node \<Rightarrow> bool" where
  "adj g0 m a r = (\<exists>x \<in> cls m a. \<exists>y \<in> cls m r. cedge g0 x y)"

definition roots :: "ra_state \<Rightarrow> node set" where
  "roots s = set (removed_nodes s) \<union> set (all_nodes (ra_graph s))"

text \<open>The merged nodes partition the nodes of the graph, and no class holds two that conflict.\<close>

definition part_inv :: "graph \<Rightarrow> ra_state \<Rightarrow> bool" where
  "part_inv g0 s =
     ((\<Union>r \<in> roots s. cls (merged_nodes s) r) = set (all_nodes g0) \<and>
      (\<forall>a \<in> roots s. \<forall>b \<in> roots s. a \<noteq> b \<longrightarrow> cls (merged_nodes s) a \<inter> cls (merged_nodes s) b = {}) \<and>
      (\<forall>p. set (merged_into (merged_nodes s) p) \<inter> roots s = {}) \<and>
      (\<forall>r \<in> set (removed_nodes s). \<not> adj g0 (merged_nodes s) r r))"

text \<open>Merging is shallow: the recursion through \<open>merged_nodes\<close> is at most as deep as nodes were merged.\<close>

definition rank_inv :: "graph \<Rightarrow> ra_state \<Rightarrow> bool" where
  "rank_inv g0 s = (\<exists>rank :: node \<Rightarrow> nat.
     (\<forall>p. \<forall>c \<in> set (merged_into (merged_nodes s) p). rank c < rank p) \<and>
     (\<forall>x. rank x + length (removed_nodes s) + length (all_nodes (ra_graph s)) \<le> length (all_nodes g0)))"

text \<open>Conservative coalescing: a node has fewer neighbours than there are registers, among those
  coloured before it, unless it was never merged and had that many conflicts from the start.\<close>

definition heavy :: "graph \<Rightarrow> nat \<Rightarrow> merge_map \<Rightarrow> node \<Rightarrow> bool" where
  "heavy g0 nreg m a = (cls m a = {a} \<and> nreg \<le> card {r. cedge g0 a r})"

definition light_inv :: "graph \<Rightarrow> nat \<Rightarrow> ra_state \<Rightarrow> bool" where
  "light_inv g0 nreg s =
     ((\<forall>a \<in> set (real_nodes (ra_graph s)). heavy g0 nreg (merged_nodes s) a \<or>
         card {r. cedge (ra_graph s) a r} < nreg) \<and>
      (\<forall>xs a ys. removed_nodes s = xs @ a # ys \<longrightarrow> heavy g0 nreg (merged_nodes s) a \<or>
         card {r \<in> set ys \<union> set (all_nodes (ra_graph s)). adj g0 (merged_nodes s) a r} < nreg))"

definition stack_inv :: "graph \<Rightarrow> ra_state \<Rightarrow> bool" where
  "stack_inv g0 s =
     (typed_graph (ra_graph s) \<and> distinct (removed_nodes s @ all_nodes (ra_graph s)) \<and>
      (\<forall>r \<in> set (removed_nodes s). \<not> is_phys r) \<and>
      (\<forall>p \<in> set (all_nodes g0). is_phys p \<longrightarrow> p \<in> set (all_nodes (ra_graph s))))"

definition ra_inv :: "graph \<Rightarrow> nat \<Rightarrow> ra_state \<Rightarrow> bool" where
  "ra_inv g0 nreg s =
     (ng.represents (cedge g0) (cls (merged_nodes s)) (ra_graph s) \<and>
      part_inv g0 s \<and> rank_inv g0 s \<and> light_inv g0 nreg s \<and> stack_inv g0 s)"

lemma ra_invD:
  assumes "ra_inv g0 nreg s"
  shows "ng.represents (cedge g0) (cls (merged_nodes s)) (ra_graph s)" "wf_graph (ra_graph s)"
    "part_inv g0 s" "rank_inv g0 s" "light_inv g0 nreg s" "stack_inv g0 s" "typed_graph (ra_graph s)"
  using assms ng.representsD(1) unfolding ra_inv_def stack_inv_def by blast+

lemma nbrs_conf: "confs g a = Some cs \<Longrightarrow> {r. cedge g a r} = set cs"
  by (auto simp: confs_def cedge_def)

lemma finite_nbrs [simp]: "finite {r. cedge g a r}"
  by (cases "confs g a") (auto simp: nbrs_conf, simp add: confs_def cedge_def)

lemma ra_inv_start:
  assumes "wf_graph g0" "typed_graph g0"
  shows "ra_inv g0 nreg \<lparr>removed_nodes = [], merged_nodes = Map.empty, ra_graph = g0\<rparr>"
proof -
  have "merged_into Map.empty p = []" for p by (simp add: merged_into_def)
  then show ?thesis
    using ng.represents_cong [OF ng.represents_start [OF assms(1)], of "cls Map.empty"]
      assms wf_graphD(1) [OF assms(1)]
    by (auto simp: ra_inv_def part_inv_def rank_inv_def light_inv_def stack_inv_def roots_def heavy_def
      intro: exI [of _ "\<lambda>_. 0"])
qed

text \<open>Dropping a preference changes neither the nodes nor the conflicts.\<close>

lemma cedge_cong: "conf g' = conf g \<Longrightarrow> cedge g' = cedge g"
  by (simp add: cedge_def fun_eq_iff)

lemma ra_inv_pref:
  assumes i: "ra_inv g0 nreg s" and g': "wf_graph g'" "same_nodes (ra_graph s) g'" "conf g' = conf (ra_graph s)"
  shows "ra_inv g0 nreg (s\<lparr>ra_graph := g'\<rparr>)"
  using i g'(1) g'(2) cedge_cong [OF g'(3)]
  by (simp add: ra_inv_def part_inv_def rank_inv_def light_inv_def stack_inv_def roots_def same_nodes_def
      ng.represents_def typed_graph_def)

text \<open>Moving a node to the stack.\<close>

lemma light_card:
  assumes r: "ng.represents (cedge g0) (cls m) g" and v: "v \<in> set (all_nodes g)"
  shows "{r \<in> set (all_nodes g). adj g0 m v r} = {r. cedge g v r}"
  using ng.representsD(3) [OF r v] cedge_nodes [OF ng.representsD(1) [OF r]] unfolding adj_def by blast

lemma ra_inv_remove:
  assumes i: "ra_inv g0 nreg s" and v: "v \<in> set (real_nodes (ra_graph s))"
    and g': "remove_node v (ra_graph s) = Some g'"
  shows "ra_inv g0 nreg (s\<lparr>removed_nodes := removed_nodes s @ [v], ra_graph := g'\<rparr>)"
proof -
  let ?g = "ra_graph s" and ?m = "merged_nodes s"
  let ?s' = "s\<lparr>removed_nodes := removed_nodes s @ [v], ra_graph := g'\<rparr>"
  note I = ra_invD [OF i]
  have va: "v \<in> set (all_nodes ?g)" using v wf_graphD(3) [OF I(2)] by blast
  have G: "wf_graph g'" "all_nodes g' = remove1 v (all_nodes ?g)" "real_nodes g' = remove1 v (real_nodes ?g)"
    "\<And>x y. cedge g' x y = (cedge ?g x y \<and> x \<noteq> v \<and> y \<noteq> v)"
    using remove_node_spec [OF I(2) va] g' by auto
  have sets: "set (all_nodes g') = set (all_nodes ?g) - {v}" "set (real_nodes g') = set (real_nodes ?g) - {v}"
    using G(2,3) wf_graphD(1,2) [OF I(2)] by simp_all
  have rep: "ng.represents (cedge g0) (cls ?m) g'" by (rule ng.represents_rem [OF I(1) va g'])
  have roots: "roots ?s' = roots s" using va sets by (auto simp: roots_def)
  have "\<not> adj g0 ?m v v"
    using ng.represents_independent [OF I(1) va] unfolding adj_def by blast
  then have part: "part_inv g0 ?s'" using I(3) unfolding part_inv_def roots by auto
  have "length (all_nodes ?g) = Suc (length (all_nodes g'))" by (rule remove_node_shrinks [OF g'])
  then have rank: "rank_inv g0 ?s'" using I(4) unfolding rank_inv_def by simp
  have l1: "card {r. cedge g' a r} \<le> card {r. cedge ?g a r}" for a
    using G(4) by (intro card_mono) auto
  have lv: "heavy g0 nreg ?m v \<or> card {r. cedge ?g v r} < nreg"
    using I(5) v unfolding light_inv_def by blast
  have light: "light_inv g0 nreg ?s'" unfolding light_inv_def
  proof (intro conjI ballI allI impI)
    fix a assume "a \<in> set (real_nodes (ra_graph ?s'))"
    then show "heavy g0 nreg (merged_nodes ?s') a \<or> card {r. cedge (ra_graph ?s') a r} < nreg"
      using I(5) l1 [of a] sets by (force simp: light_inv_def)
  next
    fix xs a ys assume e: "removed_nodes ?s' = xs @ a # ys"
    let ?S = "{r \<in> set ys \<union> set (all_nodes (ra_graph ?s')). adj g0 (merged_nodes ?s') a r}"
    show "heavy g0 nreg (merged_nodes ?s') a \<or> card ?S < nreg"
    proof (cases ys rule: rev_cases)
      case Nil
      then have a: "a = v" using e by simp
      have "?S \<subseteq> {r. cedge ?g v r}" using light_card [OF I(1) va] sets Nil a by auto
      then have "card ?S \<le> card {r. cedge ?g v r}" by (intro card_mono) auto
      then show ?thesis using lv a by force
    next
      case (snoc zs z)
      then have "removed_nodes s = xs @ a # zs" "z = v" using e by auto
      moreover from this have "?S = {r \<in> set zs \<union> set (all_nodes ?g). adj g0 ?m a r}"
        using snoc sets va by auto
      ultimately show ?thesis using I(5) unfolding light_inv_def by auto
    qed
  qed
  have "stack_inv g0 ?s'"
    using I(6) v va sets G(2) wf_graphD(1) [OF I(2)]
    by (auto simp: stack_inv_def typed_graph_def distinct_remove1)
  then show ?thesis unfolding ra_inv_def using rep part rank light by simp
qed

text \<open>Merging \<open>b\<close> into \<open>a\<close>.\<close>

lemma card_image_le: "finite S \<Longrightarrow> T \<subseteq> f ` S \<Longrightarrow> card T \<le> card S"
  by (meson card_image_le card_mono finite_imageI le_trans)

lemma root_not_below:
  assumes "part_inv g0 s" "a \<in> roots s" "r \<in> roots s" "a \<noteq> r"
  shows "a \<notin> cls (merged_nodes s) r"
  using assms cls_self [of a "merged_nodes s"] unfolding part_inv_def by blast

lemma part_inv_merge:
  assumes p: "part_inv g0 s" and ab: "a \<in> set (all_nodes (ra_graph s))" "b \<in> roots s" "a \<noteq> b"
    and dis: "distinct (removed_nodes s @ all_nodes (ra_graph s))"
    and sets: "roots s' = roots s - {b}" "removed_nodes s' = removed_nodes s"
    and m': "merged_nodes s' = record_merge a b (merged_nodes s)"
  shows "part_inv g0 s'"
proof -
  let ?m = "merged_nodes s"
  have ar: "a \<in> roots s" using ab by (simp add: roots_def)
  have c: "cls (merged_nodes s') r = (if r = a then cls ?m a \<union> cls ?m b else cls ?m r)" if "r \<in> roots s" for r
    using root_not_below [OF p ar that] by (auto simp: m' cls_record)
  have P: "(\<Union>r \<in> roots s. cls ?m r) = set (all_nodes g0)"
      "\<And>x y. x \<in> roots s \<Longrightarrow> y \<in> roots s \<Longrightarrow> x \<noteq> y \<Longrightarrow> cls ?m x \<inter> cls ?m y = {}"
      "\<And>q. set (merged_into ?m q) \<inter> roots s = {}" "\<And>r. r \<in> set (removed_nodes s) \<Longrightarrow> \<not> adj g0 ?m r r"
    using p unfolding part_inv_def by blast+
  have "(\<Union>r \<in> roots s'. cls (merged_nodes s') r) = (\<Union>r \<in> roots s. cls ?m r)"
  proof
    show "(\<Union>r \<in> roots s'. cls (merged_nodes s') r) \<subseteq> (\<Union>r \<in> roots s. cls ?m r)"
      using c sets(1) ar ab(2) by (fastforce split: if_splits)
    show "(\<Union>r \<in> roots s. cls ?m r) \<subseteq> (\<Union>r \<in> roots s'. cls (merged_nodes s') r)"
    proof
      fix x assume "x \<in> (\<Union>r \<in> roots s. cls ?m r)"
      then obtain r where r: "r \<in> roots s" "x \<in> cls ?m r" by blast
      show "x \<in> (\<Union>r \<in> roots s'. cls (merged_nodes s') r)"
      proof (cases "r = b")
        case True
        then have "x \<in> cls (merged_nodes s') a" using r c [OF ar] by simp
        then show ?thesis using ar ab(3) sets(1) by blast
      next
        case False
        then have "x \<in> cls (merged_nodes s') r" using r c [OF r(1)] by (simp split: if_splits)
        then show ?thesis using r(1) False sets(1) by blast
      qed
    qed
  qed
  moreover have "cls (merged_nodes s') x \<inter> cls (merged_nodes s') y = {}"
    if "x \<in> roots s'" "y \<in> roots s'" "x \<noteq> y" for x y
  proof -
    have xy: "x \<in> roots s" "y \<in> roots s" "x \<noteq> b" "y \<noteq> b" using that sets(1) by auto
    show ?thesis
      using c [OF xy(1)] c [OF xy(2)] P(2) [OF xy(1,2) that(3)] P(2) [OF xy(1) ab(2) xy(3)]
        P(2) [OF ab(2) xy(2)] xy(4) that(3)
      by (auto split: if_splits)
  qed
  moreover have "set (merged_into (merged_nodes s') q) \<inter> roots s' = {}" for q
    using P(3) [of q] P(3) [of a] sets(1) by (auto simp: m')
  moreover have "\<not> adj g0 (merged_nodes s') r r" if "r \<in> set (removed_nodes s')" for r
  proof -
    have r: "r \<in> roots s" "r \<noteq> a" using that sets(2) ab(1) dis by (auto simp: roots_def)
    show ?thesis using P(4) that c [OF r(1)] r(2) sets(2) by (simp add: adj_def)
  qed
  ultimately show ?thesis using P(1) unfolding part_inv_def by simp
qed

lemma rank_inv_merge:
  assumes r: "rank_inv g0 s" and p: "part_inv g0 s" and ar: "a \<in> roots s" and ab: "a \<noteq> b"
    and len: "length (all_nodes (ra_graph s)) = Suc (length (all_nodes (ra_graph s')))"
    and s': "merged_nodes s' = record_merge a b (merged_nodes s)" "removed_nodes s' = removed_nodes s"
  shows "rank_inv g0 s'"
proof -
  obtain rank :: "node \<Rightarrow> nat" where
    k: "\<And>p c. c \<in> set (merged_into (merged_nodes s) p) \<Longrightarrow> rank c < rank p" and
    b: "\<And>x. rank x + length (removed_nodes s) + length (all_nodes (ra_graph s)) \<le> length (all_nodes g0)"
    using r unfolding rank_inv_def by blast
  let ?rank = "rank(a := max (rank a) (Suc (rank b)))"
  have na: "a \<notin> set (merged_into (merged_nodes s) p)" for p
    using p ar unfolding part_inv_def by blast
  have "?rank c < ?rank p" if "c \<in> set (merged_into (merged_nodes s') p)" for p c
    using that k na ab by (auto simp: s' split: if_splits intro: less_max_iff_disj [THEN iffD2])
  moreover have "?rank x + length (removed_nodes s') + length (all_nodes (ra_graph s')) \<le> length (all_nodes g0)" for x
    using b [of x] b [of a] b [of b] len by (simp add: s' max_def)
  ultimately show ?thesis unfolding rank_inv_def by blast
qed

lemma light_inv_merge:
  assumes i: "ra_inv g0 nreg s" and a: "a \<in> set (all_nodes (ra_graph s))"
    and b: "b \<in> set (real_nodes (ra_graph s))" and ab: "a \<noteq> b" "\<not> cedge (ra_graph s) a b"
    and g': "merge a b (ra_graph s) = Some g'"
    and ok: "\<not> is_phys a \<Longrightarrow> card ({r. cedge (ra_graph s) a r} \<union> {r. cedge (ra_graph s) b r}) < nreg"
  shows "light_inv g0 nreg (s\<lparr>merged_nodes := record_merge a b (merged_nodes s), ra_graph := g'\<rparr>)"
proof -
  let ?g = "ra_graph s" and ?m = "merged_nodes s"
  let ?m' = "record_merge a b ?m"
  note I = ra_invD [OF i]
  have ba: "b \<in> set (all_nodes ?g)" using b wf_graphD(3) [OF I(2)] by blast
  have G: "wf_graph g'" "all_nodes g' = remove1 b (all_nodes ?g)" "real_nodes g' = remove1 b (real_nodes ?g)"
    "\<And>x y. cedge g' x y = (x \<noteq> b \<and> y \<noteq> b \<and>
       (cedge ?g x y \<or> (x = a \<and> cedge ?g b y) \<or> (y = a \<and> cedge ?g x b)))"
    using merge_spec [OF I(2) a b ab] g' by auto
  have sets: "set (all_nodes g') = set (all_nodes ?g) - {b}" "set (real_nodes g') = set (real_nodes ?g) - {b}"
    using G(2,3) wf_graphD(1,2) [OF I(2)] by simp_all
  have dis: "distinct (removed_nodes s @ all_nodes ?g)" using I(6) by (simp add: stack_inv_def)
  have ar: "a \<in> roots s" and br: "b \<in> roots s" using a ba by (auto simp: roots_def)
  have c: "cls ?m' r = (if r = a then cls ?m a \<union> cls ?m b else cls ?m r)" if "r \<in> roots s" for r
    using root_not_below [OF I(3) ar that] by (auto simp: cls_record)
  have bb: "\<not> cedge ?g b a" "\<not> cedge ?g b b" "\<not> cedge ?g a a"
    using ab(2) wf_graphD(8,9) [OF I(2)] by blast+
  show ?thesis unfolding light_inv_def
  proof (intro conjI ballI allI impI)
    fix x assume "x \<in> set (real_nodes (ra_graph (s\<lparr>merged_nodes := ?m', ra_graph := g'\<rparr>)))"
    then have x: "x \<in> set (real_nodes ?g)" "x \<noteq> b" using sets by auto
    then have xr: "x \<in> set (all_nodes ?g)" "x \<in> roots s" using wf_graphD(3) [OF I(2)] by (auto simp: roots_def)
    have "heavy g0 nreg ?m' x \<or> card {r. cedge g' x r} < nreg"
    proof (cases "x = a")
      case True
      have "\<not> is_phys a" using I(7) x xr True by (simp add: typed_graph_def)
      moreover have "{r. cedge g' a r} \<subseteq> {r. cedge ?g a r} \<union> {r. cedge ?g b r}"
        using G(4) bb ab(2) by auto
      then have "card {r. cedge g' a r} \<le> card ({r. cedge ?g a r} \<union> {r. cedge ?g b r})"
        by (intro card_mono) auto
      ultimately show ?thesis using ok True by force
    next
      case False
      have "{r. cedge g' x r} \<subseteq> (\<lambda>r. if r = b then a else r) ` {r. cedge ?g x r}"
        using G(4) x False ab(2) wf_graphD(8) [OF I(2), of x b] by (auto simp: image_iff)
      then have "card {r. cedge g' x r} \<le> card {r. cedge ?g x r}" by (rule card_image_le [OF finite_nbrs])
      moreover have "heavy g0 nreg ?m' x = heavy g0 nreg ?m x" using c [OF xr(2)] False by (simp add: heavy_def)
      moreover have "heavy g0 nreg ?m x \<or> card {r. cedge ?g x r} < nreg"
        using I(5) x(1) unfolding light_inv_def by blast
      ultimately show ?thesis by linarith
    qed
    then show "heavy g0 nreg (merged_nodes (s\<lparr>merged_nodes := ?m', ra_graph := g'\<rparr>)) x \<or>
      card {r. cedge (ra_graph (s\<lparr>merged_nodes := ?m', ra_graph := g'\<rparr>)) x r} < nreg" by simp
  next
    fix xs x ys assume "removed_nodes (s\<lparr>merged_nodes := ?m', ra_graph := g'\<rparr>) = xs @ x # ys"
    then have e: "removed_nodes s = xs @ x # ys" by simp
    have x: "x \<in> roots s" "x \<noteq> a" "x \<noteq> b" and ys: "set ys \<subseteq> roots s" "b \<notin> set ys"
      using e dis a ba by (auto simp: roots_def)
    let ?S = "{r \<in> set ys \<union> set (all_nodes ?g). adj g0 ?m x r}"
    let ?T = "{r \<in> set ys \<union> set (all_nodes g'). adj g0 ?m' x r}"
    have "r \<in> (\<lambda>r. if r = b then a else r) ` ?S" if "r \<in> ?T" for r
    proof (cases "r = a")
      case True
      then have "adj g0 ?m x a \<or> adj g0 ?m x b"
        using that c [OF x(1)] c [OF ar] x(2) by (auto simp: adj_def)
      then show ?thesis using True a ba ab(1) by (force simp: image_iff)
    next
      case False
      have "r \<in> roots s" "r \<noteq> b" using that ys sets by (auto simp: roots_def)
      then have "r \<in> ?S" using that c [OF x(1)] c [of r] x(2) False sets by (auto simp: adj_def)
      then show ?thesis using \<open>r \<noteq> b\<close> by (auto simp: image_iff)
    qed
    then have "?T \<subseteq> (\<lambda>r. if r = b then a else r) ` ?S" by blast
    then have card: "card ?T \<le> card ?S" by (rule card_image_le [rotated]) simp
    have "heavy g0 nreg ?m x \<or> card ?S < nreg" using I(5) e unfolding light_inv_def by blast
    then have light_x: "heavy g0 nreg ?m x \<or> card ?T < nreg" using card by linarith
    have heavy_x: "heavy g0 nreg ?m' x = heavy g0 nreg ?m x" using c [OF x(1)] x(2) by (simp add: heavy_def)
    show "heavy g0 nreg (merged_nodes (s\<lparr>merged_nodes := ?m', ra_graph := g'\<rparr>)) x \<or>
      card {r \<in> set ys \<union> set (all_nodes (ra_graph (s\<lparr>merged_nodes := ?m', ra_graph := g'\<rparr>))).
        adj g0 (merged_nodes (s\<lparr>merged_nodes := ?m', ra_graph := g'\<rparr>)) x r} < nreg"
      using light_x heavy_x by simp
  qed
qed

lemma ra_inv_merge:
  assumes i: "ra_inv g0 nreg s" and a: "a \<in> set (all_nodes (ra_graph s))"
    and b: "b \<in> set (real_nodes (ra_graph s))" and ab: "a \<noteq> b" "\<not> cedge (ra_graph s) a b"
    and g': "merge a b (ra_graph s) = Some g'"
    and ok: "\<not> is_phys a \<Longrightarrow> card ({r. cedge (ra_graph s) a r} \<union> {r. cedge (ra_graph s) b r}) < nreg"
  shows "ra_inv g0 nreg (s\<lparr>merged_nodes := record_merge a b (merged_nodes s), ra_graph := g'\<rparr>)"
proof -
  let ?g = "ra_graph s" and ?m = "merged_nodes s"
  let ?s' = "s\<lparr>merged_nodes := record_merge a b (merged_nodes s), ra_graph := g'\<rparr>"
  note I = ra_invD [OF i]
  have ba: "b \<in> set (all_nodes ?g)" using b wf_graphD(3) [OF I(2)] by blast
  have G: "wf_graph g'" "all_nodes g' = remove1 b (all_nodes ?g)" "real_nodes g' = remove1 b (real_nodes ?g)"
    using merge_spec [OF I(2) a b ab] g' by auto
  have sets: "set (all_nodes g') = set (all_nodes ?g) - {b}" "set (real_nodes g') = set (real_nodes ?g) - {b}"
    using G(2,3) wf_graphD(1,2) [OF I(2)] by simp_all
  have dis: "distinct (removed_nodes s @ all_nodes ?g)" using I(6) by (simp add: stack_inv_def)
  have ar: "a \<in> roots s" and br: "b \<in> roots s" using a ba by (auto simp: roots_def)
  have roots: "roots ?s' = roots s - {b}" using dis ba sets by (auto simp: roots_def)
  have len: "length (all_nodes ?g) = Suc (length (all_nodes g'))" by (rule merge_shrinks [OF g'])
  have part: "part_inv g0 ?s'"
    by (rule part_inv_merge [OF I(3) a br ab(1) dis roots]) simp_all
  have rank: "rank_inv g0 ?s'"
    by (rule rank_inv_merge [OF I(4,3) ar ab(1)]) (simp_all add: len)
  have light: "light_inv g0 nreg ?s'" by (rule light_inv_merge [OF i a b ab g' ok])
  have nb: "\<not> is_phys b" using I(7) b ba by (simp add: typed_graph_def)
  have stack: "stack_inv g0 ?s'"
    using I(6) nb ba sets G(2) wf_graphD(1) [OF I(2)]
    by (auto simp: stack_inv_def typed_graph_def distinct_remove1)
  have "ng.represents (cedge g0) ((cls ?m)(a := cls ?m a \<union> cls ?m b)) g'"
    by (rule ng.represents_mrg [OF I(1) a b ab g'])
  then have "ng.represents (cedge g0) (cls (record_merge a b ?m)) g'"
    by (rule ng.represents_cong)
      (use sets root_not_below [OF I(3) ar] in \<open>auto simp: cls_record roots_def\<close>)
  then show ?thesis unfolding ra_inv_def using part rank light stack by simp
qed

section \<open>No phase raises, and each keeps the invariant\<close>

lemma simplify_once_total:
  assumes "wf_graph g" "set vs \<subseteq> set (all_nodes g)"
  shows "\<exists>r. simplify_once nreg vs g = Some r"
  using assms(2)
proof (induction vs)
  case (Cons v vs)
  then obtain cs g' where "confs g v = Some cs" "remove_node v g = Some g'"
    using wf_conf_Some [OF assms(1), of v] remove_node_spec [OF assms(1), of v] by (auto simp: confs_def)
  then show ?case using Cons by simp
qed simp

lemma simplify_loop_inv:
  "ra_inv g0 nreg s \<Longrightarrow> set np \<subseteq> set (real_nodes (ra_graph s)) \<Longrightarrow> distinct np \<Longrightarrow>
     \<exists>did' s'. simplify_loop nreg np did s = Some (did', s') \<and> ra_inv g0 nreg s'"
proof (induction nreg np did s rule: simplify_loop.induct)
  case (1 nreg np did s)
  note I = ra_invD [OF "1.prems"(1)]
  have "set np \<subseteq> set (all_nodes (ra_graph s))" using "1.prems"(2) wf_graphD(3) [OF I(2)] by blast
  then obtain r where r: "simplify_once nreg np (ra_graph s) = Some r"
    using simplify_once_total [OF I(2)] by blast
  show ?case
  proof (cases r)
    case None
    then show ?thesis using r "1.prems" by (simp add: simplify_loop.simps [of nreg np did s])
  next
    case (Some t)
    obtain v g' where t: "t = (v, g')" by (cases t)
    have v: "v \<in> set np" "remove_node v (ra_graph s) = Some g'"
      using simplify_once_removes [of nreg np "ra_graph s" v g'] r Some t by auto
    let ?s' = "s\<lparr>removed_nodes := removed_nodes s @ [v], ra_graph := g'\<rparr>"
    have np': "py_remove v np = Some (remove1 v np)" using v by (simp add: py_remove_def)
    have inv: "ra_inv g0 nreg ?s'" by (rule ra_inv_remove [OF "1.prems"(1) _ v(2)]) (use v "1.prems"(2) in auto)
    have "real_nodes g' = remove1 v (real_nodes (ra_graph s))"
      using remove_node_spec [OF I(2), of v] v "1.prems"(2) wf_graphD(3) [OF I(2)] by fastforce
    then have "set (remove1 v np) \<subseteq> set (real_nodes g')"
      using "1.prems"(2,3) wf_graphD(2) [OF I(2)] by auto
    then have sub: "set (remove1 v np) \<subseteq> set (real_nodes (ra_graph ?s'))" by simp
    have "\<exists>did' s'. simplify_loop nreg (remove1 v np) True ?s' = Some (did', s') \<and> ra_inv g0 nreg s'"
      by (rule "1.IH" [OF r Some t [symmetric] np' inv sub]) (use "1.prems"(3) in simp)
    then show ?thesis using r Some t np' by (simp add: simplify_loop.simps [of nreg np did s])
  qed
qed

lemma no_prefs_total:
  "wf_graph g \<Longrightarrow> set vs \<subseteq> set (all_nodes g) \<Longrightarrow>
     no_prefs g vs = Some (filter (\<lambda>v. prefs g v = Some []) vs)"
proof (induction vs)
  case (Cons v vs)
  then obtain ps where "prefs g v = Some ps" using wf_pref_Some [of g v] by (auto simp: prefs_def)
  then show ?case using Cons by auto
qed simp

lemma simplify_all_inv:
  assumes "ra_inv g0 nreg s"
  shows "\<exists>did s'. simplify_all nreg s = Some (did, s') \<and> ra_inv g0 nreg s'"
proof -
  note I = ra_invD [OF assms]
  let ?np = "filter (\<lambda>v. prefs (ra_graph s) v = Some []) (nodes (ra_graph s))"
  have "no_prefs (ra_graph s) (nodes (ra_graph s)) = Some ?np"
    by (rule no_prefs_total [OF I(2)]) (simp add: nodes_def wf_graphD(3) [OF I(2)])
  moreover have "\<exists>did s'. simplify_loop nreg ?np False s = Some (did, s') \<and> ra_inv g0 nreg s'"
    by (rule simplify_loop_inv [OF assms]) (auto simp: nodes_def wf_graphD(2) [OF I(2)])
  ultimately show ?thesis by (simp add: simplify_all_def)
qed

lemma george_total:
  "wf_graph g \<Longrightarrow> set ts \<subseteq> set (all_nodes g) \<Longrightarrow> \<exists>r. george g nreg b ts = Some r"
proof (induction ts)
  case (Cons t ts)
  then obtain ct where "confs g t = Some ct" using wf_conf_Some [of g t] by (auto simp: confs_def)
  then show ?case using Cons by auto
qed auto

lemma total_confs_card:
  "distinct c1 \<Longrightarrow> distinct c2 \<Longrightarrow>
     length c1 + length (filter (\<lambda>x. x \<notin> set c1) c2) = card (set c1 \<union> set c2)"
proof -
  assume d: "distinct c1" "distinct c2"
  have "card (set c1 \<union> set c2) = card (set (c1 @ filter (\<lambda>x. x \<notin> set c1) c2))"
    by (rule arg_cong [where f = card]) auto
  also have "\<dots> = length (c1 @ filter (\<lambda>x. x \<notin> set c1) c2)"
    by (rule distinct_card) (use d in auto)
  finally show ?thesis by simp
qed

lemma coalesce_pair_inv:
  assumes i: "ra_inv g0 nreg s" and v1: "v1 \<in> set (real_nodes (ra_graph s))" and p: "pedge (ra_graph s) v1 v2"
  shows "\<exists>r. coalesce_pair (ra_graph s) v1 nreg v2 = Some r \<and> (\<forall>a b g'. r = Some (a, b, g') \<longrightarrow>
    ra_inv g0 nreg (s\<lparr>merged_nodes := record_merge a b (merged_nodes s), ra_graph := g'\<rparr>))"
proof -
  let ?g = "ra_graph s"
  note I = ra_invD [OF i]
  have a1: "v1 \<in> set (all_nodes ?g)" using v1 wf_graphD(3) [OF I(2)] by blast
  have a2: "v2 \<in> set (all_nodes ?g)" using pedge_nodes [OF I(2) p] by blast
  have ne: "v1 \<noteq> v2" using p wf_graphD(11) [OF I(2)] by blast
  have np: "\<not> is_phys v1" using I(7) v1 a1 by (simp add: typed_graph_def)
  obtain c1 c2 where c: "confs ?g v1 = Some c1" "confs ?g v2 = Some c2"
    using wf_conf_Some [OF I(2) a1] wf_conf_Some [OF I(2) a2] by (auto simp: confs_def)
  have d: "distinct c1" "distinct c2" using wf_graphD(6) [OF I(2)] c by (simp_all add: confs_def)
  have ce: "v2 \<in> set c1 \<longleftrightarrow> cedge ?g v1 v2" using nbrs_conf [OF c(1)] by blast
  have sub: "set c1 \<subseteq> set (all_nodes ?g)" using nbrs_conf [OF c(1)] cedge_nodes [OF I(2)] by blast
  obtain ok where ok: "george ?g nreg v2 c1 = Some ok" using george_total [OF I(2) sub] by blast
  show ?thesis
  proof (cases "cedge ?g v1 v2")
    case True
    then show ?thesis using c ce by (simp add: coalesce_pair_def)
  next
    case nc: False
    then have nc': "\<not> cedge ?g v2 v1" using wf_graphD(8) [OF I(2)] by blast
    show ?thesis
    proof (cases "is_phys v2")
      case True
      obtain g' where g': "merge v2 v1 ?g = Some g'"
        using merge_spec [OF I(2) a2 v1 ne [symmetric] nc'] by blast
      have "ra_inv g0 nreg (s\<lparr>merged_nodes := record_merge v2 v1 (merged_nodes s), ra_graph := g'\<rparr>)"
        by (rule ra_inv_merge [OF i a2 v1 ne [symmetric] nc' g']) (use True in simp)
      then show ?thesis using c ce nc np True ok g' by (cases ok) (simp_all add: coalesce_pair_def)
    next
      case False
      then have v2: "v2 \<in> set (real_nodes ?g)" using I(7) a2 by (simp add: typed_graph_def)
      obtain g' where g': "merge v1 v2 ?g = Some g'"
        using merge_spec [OF I(2) a1 v2 ne nc] by blast
      have "ra_inv g0 nreg (s\<lparr>merged_nodes := record_merge v1 v2 (merged_nodes s), ra_graph := g'\<rparr>)"
        if "card (set c1 \<union> set c2) < nreg"
        by (rule ra_inv_merge [OF i a1 v2 ne nc g']) (use that nbrs_conf c in simp)
      then show ?thesis
        using c ce nc np False g' total_confs_card [OF d] by (simp add: coalesce_pair_def)
    qed
  qed
qed

lemma coalesce_try_inv:
  assumes i: "ra_inv g0 nreg s" and v1: "v1 \<in> set (real_nodes (ra_graph s))"
    and p: "\<And>v. v \<in> set vs \<Longrightarrow> pedge (ra_graph s) v1 v"
  shows "\<exists>r. coalesce_try (ra_graph s) v1 nreg vs = Some r \<and> (\<forall>a b g'. r = Some (a, b, g') \<longrightarrow>
    ra_inv g0 nreg (s\<lparr>merged_nodes := record_merge a b (merged_nodes s), ra_graph := g'\<rparr>))"
  using p
proof (induction vs)
  case (Cons v vs)
  obtain r where r: "coalesce_pair (ra_graph s) v1 nreg v = Some r" "\<forall>a b g'. r = Some (a, b, g') \<longrightarrow>
    ra_inv g0 nreg (s\<lparr>merged_nodes := record_merge a b (merged_nodes s), ra_graph := g'\<rparr>)"
    using coalesce_pair_inv [OF i v1] Cons.prems by fastforce
  show ?case using r Cons by (cases r) simp_all
qed simp

lemma coalesce_pass_inv:
  "ra_inv g0 nreg s \<Longrightarrow> \<forall>v \<in> set vs. \<not> is_phys v \<Longrightarrow>
     \<exists>m' s'. coalesce_pass nreg vs m s = Some (m', s') \<and> ra_inv g0 nreg s'"
proof (induction vs arbitrary: m s)
  case (Cons v vs)
  note I = ra_invD [OF Cons.prems(1)]
  show ?case
  proof (cases "is_node v (ra_graph s)")
    case True
    then have "v \<in> set (all_nodes (ra_graph s))" using wf_graphD(4) [OF I(2)] by (auto simp: is_node_def)
    then have v: "v \<in> set (real_nodes (ra_graph s))" using Cons.prems(2) I(7) by (simp add: typed_graph_def)
    obtain ps where ps: "prefs (ra_graph s) v = Some ps"
      using True by (auto simp: is_node_def prefs_def)
    obtain r where r: "coalesce_try (ra_graph s) v nreg ps = Some r" "\<forall>a b g'. r = Some (a, b, g') \<longrightarrow>
      ra_inv g0 nreg (s\<lparr>merged_nodes := record_merge a b (merged_nodes s), ra_graph := g'\<rparr>)"
      using coalesce_try_inv [OF Cons.prems(1) v, of ps] ps by (auto simp: pedge_def prefs_def)
    have cn: "coalesce_node (ra_graph s) v nreg = Some r" using ps r by (simp add: coalesce_node_def)
    show ?thesis
    proof (cases r)
      case None
      then show ?thesis using True cn Cons by simp
    next
      case (Some t)
      obtain a b g' where t: "t = (a, b, g')" by (cases t)
      then show ?thesis using True cn Some r(2) Cons by simp
    qed
  next
    case False
    then show ?thesis using Cons by simp
  qed
qed simp

lemma real_not_phys: "ra_inv g0 nreg s \<Longrightarrow> v \<in> set (nodes (ra_graph s)) \<Longrightarrow> \<not> is_phys v"
  using ra_invD(2,7) wf_graphD(3) unfolding typed_graph_def nodes_def by blast

lemma coalesce_loop_inv:
  "ra_inv g0 nreg s \<Longrightarrow> \<exists>did' s'. coalesce_loop nreg did s = Some (did', s') \<and> ra_inv g0 nreg s'"
proof (induction nreg did s rule: coalesce_loop.induct)
  case (1 nreg did s)
  obtain m t where p: "coalesce_pass nreg (nodes (ra_graph s)) False s = Some (m, t)" "ra_inv g0 nreg t"
    using coalesce_pass_inv [OF "1.prems"] real_not_phys [OF "1.prems"] by blast
  show ?case
  proof (cases m)
    case True
    then have m: "m = True" by simp
    from "1.IH" [OF p(1) refl m p(2)] p True show ?thesis by (simp add: coalesce_loop.simps [of nreg did s])
  next
    case False
    then show ?thesis using p by (simp add: coalesce_loop.simps [of nreg did s])
  qed
qed

lemma simp_coal_inv:
  "ra_inv g0 nreg s \<Longrightarrow> \<exists>s'. simp_coal nreg s = Some s' \<and> ra_inv g0 nreg s'"
proof (induction nreg s rule: simp_coal.induct)
  case (1 nreg s)
  obtain d s1 where s1: "simplify_all nreg s = Some (d, s1)" "ra_inv g0 nreg s1"
    using simplify_all_inv [OF "1.prems"] by blast
  obtain m s2 where s2: "coalesce_all nreg s1 = Some (m, s2)" "ra_inv g0 nreg s2"
    using coalesce_loop_inv [OF s1(2)] unfolding coalesce_all_def by blast
  show ?case
  proof (cases "\<not> d \<and> \<not> m")
    case True
    then show ?thesis using s1 s2 by (simp add: simp_coal.simps [of nreg s])
  next
    case False
    from "1.IH" [OF s1(1) refl s2(1) refl False s2(2)] False s1 s2
    show ?thesis by (auto simp: simp_coal.simps [of nreg s])
  qed
qed

lemma freeze_best_total:
  assumes "wf_graph g"
  shows "\<exists>r. freeze_best_of g = Some r"
proof -
  have d: "\<exists>p. deg_of g x = Some p" if "x \<in> set (all_nodes g)" for x
    using that wf_conf_Some [OF assms] by (fastforce simp: deg_of_def confs_def)
  have "\<exists>t'. freeze_outer g x t = Some t' \<and> True" if x: "x \<in> set (all_nodes g)" for x t
  proof -
    obtain p1 ps where ps: "deg_of g x = Some p1" "prefs g x = Some ps"
      using d [OF x] wf_pref_Some [OF assms x] by (auto simp: prefs_def)
    have "\<exists>t'. freeze_inner g x p1 y t = Some t' \<and> True" if "y \<in> set ps" for y t
    proof -
      have "pedge g x y" using that ps by (simp add: pedge_def prefs_def)
      then obtain p2 where "deg_of g y = Some p2" using d pedge_nodes [OF assms] by blast
      then show ?thesis by (simp add: freeze_inner_def)
    qed
    then have "\<exists>t'. ofold (freeze_inner g x p1) ps t = Some t' \<and> True"
      by (intro ofold_Some) auto
    then show ?thesis using ps by (simp add: freeze_outer_def)
  qed
  then have "\<exists>t'. ofold (freeze_outer g) (all_nodes g) None = Some t' \<and> True"
    by (intro ofold_Some) auto
  then show ?thesis by (simp add: freeze_best_of_def)
qed

lemma freeze_inv:
  assumes "ra_inv g0 nreg s"
  shows "\<exists>r. freeze (ra_graph s) = Some r \<and> (\<forall>g'. r = Some g' \<longrightarrow> ra_inv g0 nreg (s\<lparr>ra_graph := g'\<rparr>))"
proof -
  note I = ra_invD [OF assms]
  obtain r where r: "freeze_best_of (ra_graph s) = Some r" using freeze_best_total [OF I(2)] by blast
  show ?thesis
  proof (cases r)
    case None
    then show ?thesis using r by (simp add: freeze_def)
  next
    case (Some t)
    obtain k a b where t: "t = (k, a, b)" by (cases t)
    have "pedge (ra_graph s) a b" using freeze_best_edge r Some t by blast
    from remove_pref_spec [OF I(2) this] obtain g' where
      g': "remove_pref a b (ra_graph s) = Some g'" "wf_graph g'" "same_nodes (ra_graph s) g'"
        "conf g' = conf (ra_graph s)" by blast
    then show ?thesis using ra_inv_pref [OF assms g'(2-4)] r Some t by (simp add: freeze_def)
  qed
qed

lemma freeze_loop_inv:
  "ra_inv g0 nreg s \<Longrightarrow> \<exists>s'. freeze_loop nreg s = Some s' \<and> ra_inv g0 nreg s'"
proof (induction nreg s rule: freeze_loop.induct)
  case (1 nreg s)
  obtain s1 where s1: "simp_coal nreg s = Some s1" "ra_inv g0 nreg s1"
    using simp_coal_inv [OF "1.prems"] by blast
  obtain r where r: "freeze (ra_graph s1) = Some r" "\<forall>g'. r = Some g' \<longrightarrow> ra_inv g0 nreg (s1\<lparr>ra_graph := g'\<rparr>)"
    using freeze_inv [OF s1(2)] by blast
  show ?case
  proof (cases r)
    case None
    then show ?thesis using s1 r by (simp add: freeze_loop.simps [of nreg s])
  next
    case (Some g')
    have "ra_inv g0 nreg (s1\<lparr>ra_graph := g'\<rparr>)" using r(2) Some by blast
    from "1.IH" [OF s1(1) r(1) Some this] s1 r Some show ?thesis
      by (simp add: freeze_loop.simps [of nreg s])
  qed
qed

lemma spill_choice_total:
  assumes "wf_graph g" "nodes g \<noteq> []"
  shows "\<exists>v \<in> set (nodes g). spill_choice g = Some (Some v)"
proof -
  obtain n ns where ns: "nodes g = n # ns" using assms(2) by (cases "nodes g") auto
  have c: "\<exists>cs. confs g v = Some cs" if "v \<in> set (nodes g)" for v
    using that wf_conf_Some [OF assms(1)] wf_graphD(3) [OF assms(1)] by (auto simp: nodes_def confs_def)
  obtain cs where cs: "confs g n = Some cs" using c [of n] ns by auto
  have "\<exists>st. ofold (spill_step g) ns (Some n, int (length cs)) = Some st \<and> (\<exists>v \<in> set (nodes g). fst st = Some v)"
  proof (rule ofold_Some)
    fix x :: node and t :: "node option \<times> int"
    assume "x \<in> set ns" "\<exists>v \<in> set (nodes g). fst t = Some v"
    then show "\<exists>t'. spill_step g x t = Some t' \<and> (\<exists>v \<in> set (nodes g). fst t' = Some v)"
      using c [of x] ns by (cases t) (auto simp: spill_step_def)
  qed (use ns in auto)
  moreover have "ofold (spill_step g) (nodes g) (None, - 1) = ofold (spill_step g) ns (Some n, int (length cs))"
    using ns cs by (simp add: spill_step_def)
  ultimately show ?thesis by (auto simp: spill_choice_def)
qed

lemma alloc_loop_inv:
  "ra_inv g0 nreg s \<Longrightarrow> \<exists>s'. alloc_loop nreg s = Some s' \<and> ra_inv g0 nreg s' \<and> nodes (ra_graph s') = []"
proof (induction nreg s rule: alloc_loop.induct)
  case (1 nreg s)
  obtain s1 where s1: "freeze_loop nreg s = Some s1" "ra_inv g0 nreg s1"
    using freeze_loop_inv [OF "1.prems"] by blast
  note I = ra_invD [OF s1(2)]
  show ?case
  proof (cases "nodes (ra_graph s1) = []")
    case True
    then show ?thesis using s1 by (simp add: alloc_loop.simps [of nreg s])
  next
    case False
    obtain v where v: "v \<in> set (nodes (ra_graph s1))" "spill_choice (ra_graph s1) = Some (Some v)"
      using spill_choice_total [OF I(2) False] by blast
    then have va: "v \<in> set (all_nodes (ra_graph s1))" using wf_graphD(3) [OF I(2)] by (auto simp: nodes_def)
    obtain g' where g': "remove_node v (ra_graph s1) = Some g'" using remove_node_spec [OF I(2) va] by blast
    have "ra_inv g0 nreg (s1\<lparr>removed_nodes := removed_nodes s1 @ [v], ra_graph := g'\<rparr>)"
      by (rule ra_inv_remove [OF s1(2) _ g']) (use v in \<open>simp add: nodes_def\<close>)
    from "1.IH" [OF s1(1) False v(2) refl g' this] s1 False v g' show ?thesis
      by (simp add: alloc_loop.simps [of nreg s])
  qed
qed

lemma drain_all: "wf_graph g \<Longrightarrow> drain rs g = Some (rs @ all_nodes g)"
proof (induction rs g rule: drain.induct)
  case (1 rs g)
  show ?case
  proof (cases "all_nodes g")
    case Nil
    then show ?thesis by (simp add: drain.simps [of rs g])
  next
    case (Cons v vs)
    obtain g' where g': "remove_node v g = Some g'" "wf_graph g'" "all_nodes g' = remove1 v (all_nodes g)"
      using remove_node_spec [OF "1.prems", of v] Cons by auto
    from "1.IH" [OF Cons _ g'(2)] g' Cons show ?thesis by (simp add: drain.simps [of rs g] pop_def)
  qed
qed

section \<open>The colouring stack\<close>

text \<open>What the loops leave behind, for the assignment of spots.\<close>

definition stack_ok :: "graph \<Rightarrow> nat \<Rightarrow> merge_map \<Rightarrow> node list \<Rightarrow> bool" where
  "stack_ok g0 nreg m rs =
     (distinct rs \<and> (\<Union>r \<in> set rs. cls m r) = set (all_nodes g0) \<and>
      (\<forall>a \<in> set rs. \<forall>b \<in> set rs. a \<noteq> b \<longrightarrow> cls m a \<inter> cls m b = {}) \<and>
      (\<forall>r \<in> set rs. \<not> adj g0 m r r) \<and>
      (\<forall>p \<in> set (all_nodes g0). is_phys p \<longrightarrow> p \<in> set rs) \<and>
      (\<forall>xs a ys. rs = xs @ a # ys \<longrightarrow> is_phys a \<longrightarrow> (\<forall>y \<in> set ys. is_phys y)) \<and>
      (\<forall>xs a ys. rs = xs @ a # ys \<longrightarrow> \<not> is_phys a \<longrightarrow> heavy g0 nreg m a \<or> card {r \<in> set ys. adj g0 m a r} < nreg))"

lemma split_append:
  "R @ ps = xs @ a # ys \<longleftrightarrow> (\<exists>zs. R = xs @ a # zs \<and> ys = zs @ ps) \<or> (\<exists>zs. xs = R @ zs \<and> ps = zs @ a # ys)"
  by (auto simp: append_eq_append_conv2 Cons_eq_append_conv append_eq_Cons_conv)

lemma alloc_stack:
  assumes i: "ra_inv g0 nreg s" and e: "nodes (ra_graph s) = []"
  shows "stack_ok g0 nreg (merged_nodes s) (removed_nodes s @ all_nodes (ra_graph s))"
proof -
  let ?R = "removed_nodes s" and ?ps = "all_nodes (ra_graph s)" and ?m = "merged_nodes s"
  note I = ra_invD [OF i]
  have ph: "is_phys p" if "p \<in> set ?ps" for p
    using I(7) e that by (auto simp: typed_graph_def nodes_def)
  have S: "distinct (?R @ ?ps)" "\<And>r. r \<in> set ?R \<Longrightarrow> \<not> is_phys r"
    "\<And>p. p \<in> set (all_nodes g0) \<Longrightarrow> is_phys p \<Longrightarrow> p \<in> set ?ps"
    using I(6) unfolding stack_inv_def by blast+
  have na: "\<not> adj g0 ?m p p" if "p \<in> set ?ps" for p
    using ng.represents_independent [OF I(1) that] unfolding adj_def by blast
  have roots: "set (?R @ ?ps) = roots s" by (simp add: roots_def)
  have P: "(\<Union>r \<in> set (?R @ ?ps). cls ?m r) = set (all_nodes g0)"
      "\<forall>a \<in> set (?R @ ?ps). \<forall>b \<in> set (?R @ ?ps). a \<noteq> b \<longrightarrow> cls ?m a \<inter> cls ?m b = {}"
      "\<And>r. r \<in> set ?R \<Longrightarrow> \<not> adj g0 ?m r r"
    using I(3) unfolding part_inv_def roots by blast+
  have L: "heavy g0 nreg ?m a \<or> card {r \<in> set ys \<union> set ?ps. adj g0 ?m a r} < nreg"
    if "?R = xs @ a # ys" for xs a ys
    using I(5) that by (simp add: light_inv_def)
  have f1: "\<forall>y \<in> set ys. is_phys y" if "?R @ ?ps = xs @ a # ys" "is_phys a" for xs a ys
    using that(1) unfolding split_append
  proof (elim disjE exE conjE)
    fix zs assume "?R = xs @ a # zs"
    then show ?thesis using S(2) [of a] that(2) by simp
  next
    fix zs assume "?ps = zs @ a # ys"
    then show ?thesis using ph by simp
  qed
  have f2: "heavy g0 nreg ?m a \<or> card {r \<in> set ys. adj g0 ?m a r} < nreg"
    if "?R @ ?ps = xs @ a # ys" "\<not> is_phys a" for xs a ys
    using that(1) unfolding split_append
  proof (elim disjE exE conjE)
    fix zs assume "?R = xs @ a # zs" "ys = zs @ ?ps"
    then show ?thesis using L [of xs a zs] by simp
  next
    fix zs assume "?ps = zs @ a # ys"
    then show ?thesis using ph [of a] that(2) by simp
  qed
  have f3: "\<forall>p \<in> set (all_nodes g0). is_phys p \<longrightarrow> p \<in> set (?R @ ?ps)" using S(3) by auto
  have f4: "\<forall>r \<in> set (?R @ ?ps). \<not> adj g0 ?m r r" using P(3) na by auto
  show ?thesis unfolding stack_ok_def using S(1) P(1,2) f1 f2 f3 f4 by blast
qed

text \<open>The recursions through \<open>merged_nodes\<close> collect the class and its conflicts.\<close>

lemma ofold_union:
  assumes "\<And>x. x \<in> set xs \<Longrightarrow> \<exists>c. h x = Some c \<and> set c = S x"
  shows "\<exists>r. ofold (\<lambda>x acc. map_option (\<lambda>c. dset_add_all c acc) (h x)) xs acc = Some r \<and>
    set r = set acc \<union> (\<Union>x \<in> set xs. S x)"
  using assms
proof (induction xs arbitrary: acc)
  case (Cons x xs)
  obtain c where c: "h x = Some c" "set c = S x" using Cons.prems by fastforce
  obtain r where "ofold (\<lambda>x acc. map_option (\<lambda>c. dset_add_all c acc) (h x)) xs (dset_add_all c acc) = Some r"
    "set r = set (dset_add_all c acc) \<union> (\<Union>x \<in> set xs. S x)"
    using Cons.IH [of "dset_add_all c acc"] Cons.prems by auto
  then show ?case using c by auto
qed simp

lemma get_merged_spec:
  fixes rank :: "node \<Rightarrow> nat"
  assumes "\<And>p c. c \<in> set (merged_into m p) \<Longrightarrow> rank c < rank p"
  shows "rank x < f \<Longrightarrow> \<exists>ms. get_merged f m x = Some ms \<and> set ms = cls m x"
proof (induction f arbitrary: x)
  case (Suc f)
  have "\<exists>c. get_merged f m y = Some c \<and> set c = cls m y" if "y \<in> set (merged_into m x)" for y
    using Suc assms [OF that] by simp
  from ofold_union [OF this, of "merged_into m x" "\<lambda>x. x" "[x]"] show ?case
    using cls_unfold [of m x] by auto
qed simp

lemma get_conflicts_spec:
  fixes rank :: "node \<Rightarrow> nat"
  assumes wf: "wf_graph g" and "\<And>p c. c \<in> set (merged_into m p) \<Longrightarrow> rank c < rank p"
  shows "rank x < f \<Longrightarrow> cls m x \<subseteq> set (all_nodes g) \<Longrightarrow>
    \<exists>cs. get_conflicts f g m x = Some cs \<and> set cs = {z. \<exists>y \<in> cls m x. cedge g y z}"
proof (induction f arbitrary: x)
  case (Suc f)
  have "x \<in> set (all_nodes g)" using Suc.prems(2) cls_self [of x m] by blast
  then obtain cx where cx: "confs g x = Some cx" using wf_conf_Some [OF wf] by (auto simp: confs_def)
  have "\<exists>c. get_conflicts f g m y = Some c \<and> set c = {z. \<exists>w \<in> cls m y. cedge g w z}"
    if "y \<in> set (merged_into m x)" for y
  proof (rule Suc.IH)
    show "rank y < f" using Suc.prems(1) assms(2) [OF that] by simp
    show "cls m y \<subseteq> set (all_nodes g)" using Suc.prems(2) cls_kid [OF that] by simp
  qed
  from ofold_union [OF this, of "merged_into m x" "\<lambda>x. x" "dset_add_all cx []"] show ?case
    using cls_unfold [of m x] cx nbrs_conf [OF cx] by auto
qed simp

end
