(* ===== verification/SpotMap.thy ===== *)
theory SpotMap
  imports RegAllocSound
begin

text \<open>
  The last phase of the register allocator, \<open>_generate_spotmap\<close> of \<open>shivyc/asm_gen.py\<close>: popping the
  colouring stack gives every node a register or a stack slot, conflicting nodes never share
  storage, and only nodes that were never merged and have many conflicts are spilled.
\<close>

section \<open>Storage\<close>

text \<open>Two spots holding \<open>n\<close> and \<open>k\<close> bytes share storage: the same register, or overlapping bytes off
  the same base.\<close>

fun overlap :: "spot \<Rightarrow> int \<Rightarrow> spot \<Rightarrow> int \<Rightarrow> bool" where
  "overlap (MemSpot b off ch c) n (MemSpot b' off' ch' c') k = (b = b' \<and> off < off' + k \<and> off' < off + n)"
| "overlap s n t k = (s = t)"

definition node_bytes :: "(nat \<Rightarrow> int) \<Rightarrow> node \<Rightarrow> int" where
  "node_bytes sz n = (case n of Val v \<Rightarrow> sz v | Phys _ \<Rightarrow> 8)"

definition slot_at :: "frame \<Rightarrow> int \<Rightarrow> spot" where
  "slot_at fr off = MemSpot (if near_active fr then BaseSym (near_label fr) else BaseSpot RBP) off 0 None"

text \<open>The bytes handed out between two states of the frame.\<close>

definition in_frame :: "frame \<Rightarrow> frame \<Rightarrow> int \<Rightarrow> int \<Rightarrow> bool" where
  "in_frame fr0 fr off n =
     (if near_active fr0 then near_off fr0 \<le> off \<and> off + n \<le> near_off fr
      else - frame_offset fr \<le> off \<and> off + n \<le> - frame_offset fr0)"

definition frame_grown :: "frame \<Rightarrow> frame \<Rightarrow> bool" where
  "frame_grown fr0 fr = (near_active fr = near_active fr0 \<and> near_label fr = near_label fr0)"

lemma alloc_stack_slot_spec:
  assumes "frame_grown fr0 fr" and "0 < n"
  shows "\<exists>off fr'. alloc_stack_slot n fr = (slot_at fr0 off, fr') \<and> frame_grown fr0 fr' \<and>
    (\<forall>o' k. in_frame fr0 fr o' k \<longrightarrow> in_frame fr0 fr' o' k) \<and>
    (in_frame fr0 fr (if near_active fr0 then near_off fr0 else - frame_offset fr0) 0 \<longrightarrow>
      in_frame fr0 fr' off n \<and> in_frame fr0 fr' (if near_active fr0 then near_off fr0 else - frame_offset fr0) 0) \<and>
    (\<forall>o' k. in_frame fr0 fr o' k \<longrightarrow> o' + k \<le> off \<or> off + n \<le> o')"
proof (cases "near_active fr0")
  case True
  then show ?thesis using assms
    by (intro exI [of _ "near_off fr"] exI [of _ "snd (alloc_stack_slot n fr)"])
      (auto simp: alloc_stack_slot_def frame_grown_def slot_at_def in_frame_def)
next
  case False
  then show ?thesis using assms
    by (intro exI [of _ "- (frame_offset fr + n)"] exI [of _ "snd (alloc_stack_slot n fr)"])
      (auto simp: alloc_stack_slot_def frame_grown_def slot_at_def in_frame_def)
qed

section \<open>Striking out conflicting registers\<close>

lemma strike_eq:
  assumes "distinct regs"
  shows "set (strike sm c regs) = {r \<in> set regs. c \<noteq> Phys r \<and> sm c \<noteq> Some r} \<and> distinct (strike sm c regs)"
  using assms by (auto simp: strike_def Let_def distinct_remove1 split: node.splits option.splits if_splits)

lemma strike_fold:
  "distinct regs \<Longrightarrow> set (fold (strike sm) cs regs) = {r \<in> set regs. \<forall>c \<in> set cs. c \<noteq> Phys r \<and> sm c \<noteq> Some r} \<and>
     distinct (fold (strike sm) cs regs)"
proof (induction cs arbitrary: regs)
  case (Cons c cs)
  note s = strike_eq [OF Cons.prems, of sm c]
  show ?case using Cons.IH [of "strike sm c regs"] s by auto
qed simp

lemma assign_all_apply: "assign_all ns s sm x = (if x \<in> set ns then Some s else sm x)"
  unfolding assign_all_def by (induction ns arbitrary: sm) auto

section \<open>The invariant of the colouring loop\<close>

definition slots_ok :: "(nat \<Rightarrow> int) \<Rightarrow> frame \<Rightarrow> spot_state \<Rightarrow> bool" where
  "slots_ok sz fr0 st = (frame_grown fr0 (sp_frame st) \<and>
     in_frame fr0 (sp_frame st) (if near_active fr0 then near_off fr0 else - frame_offset fr0) 0 \<and>
     (\<exists>off. (\<forall>r \<in> set (spilled_nodes st). spotmap st r = Some (slot_at fr0 (off r)) \<and>
               in_frame fr0 (sp_frame st) (off r) (node_bytes sz r)) \<and>
            (\<forall>r \<in> set (spilled_nodes st). \<forall>q \<in> set (spilled_nodes st). r \<noteq> q \<longrightarrow>
               off r + node_bytes sz r \<le> off q \<or> off q + node_bytes sz q \<le> off r)))"

definition coloured :: "graph \<Rightarrow> nat \<Rightarrow> merge_map \<Rightarrow> spot list \<Rightarrow> (nat \<Rightarrow> int) \<Rightarrow> frame \<Rightarrow> node list \<Rightarrow> spot_state \<Rightarrow> bool" where
  "coloured g0 nreg m regs sz fr0 ys st =
     (dom (spotmap st) = (\<Union>r \<in> set ys. cls m r) \<and>
      (\<forall>r \<in> set ys. \<forall>x \<in> cls m r. spotmap st x = spotmap st r) \<and>
      (\<forall>p. Phys p \<in> set ys \<longrightarrow> spotmap st (Phys p) = Some p) \<and>
      (\<forall>r \<in> set ys. r \<in> set (spilled_nodes st) \<or> (\<exists>q \<in> set regs. spotmap st r = Some q)) \<and>
      (\<forall>r \<in> set (spilled_nodes st). r \<in> set ys \<and> \<not> is_phys r \<and> heavy g0 nreg m r) \<and>
      (\<forall>r \<in> set ys. \<forall>q \<in> set ys. adj g0 m r q \<longrightarrow> spotmap st r = spotmap st q \<longrightarrow>
         r \<in> set (spilled_nodes st) \<and> q \<in> set (spilled_nodes st)) \<and>
      slots_ok sz fr0 st)"

lemma coloured_start:
  "coloured g0 nreg m regs sz fr [] \<lparr>spotmap = Map.empty, spilled_nodes = [], sp_frame = fr\<rparr>"
  by (auto simp: coloured_def slots_ok_def frame_grown_def in_frame_def)

lemma adj_sym: "wf_graph g0 \<Longrightarrow> adj g0 m a r = adj g0 m r a"
  unfolding adj_def using wf_graphD(8) by blast

lemma colouredD:
  assumes "coloured g0 nreg m regs sz fr0 ys st"
  shows "dom (spotmap st) = (\<Union>r \<in> set ys. cls m r)"
    "\<And>r x. r \<in> set ys \<Longrightarrow> x \<in> cls m r \<Longrightarrow> spotmap st x = spotmap st r"
    "\<And>p. Phys p \<in> set ys \<Longrightarrow> spotmap st (Phys p) = Some p"
    "\<And>r. r \<in> set ys \<Longrightarrow> r \<in> set (spilled_nodes st) \<or> (\<exists>q \<in> set regs. spotmap st r = Some q)"
    "\<And>r. r \<in> set (spilled_nodes st) \<Longrightarrow> r \<in> set ys \<and> \<not> is_phys r \<and> heavy g0 nreg m r"
    "\<And>r q. r \<in> set ys \<Longrightarrow> q \<in> set ys \<Longrightarrow> adj g0 m r q \<Longrightarrow> spotmap st r = spotmap st q \<Longrightarrow>
         r \<in> set (spilled_nodes st) \<and> q \<in> set (spilled_nodes st)"
    "slots_ok sz fr0 st"
  using assms unfolding coloured_def by blast+

lemma colouredI:
  assumes "spotmap st = sm" "spilled_nodes st = sp"
    and "dom sm = (\<Union>r \<in> set ys. cls m r)"
    and "\<And>r x. r \<in> set ys \<Longrightarrow> x \<in> cls m r \<Longrightarrow> sm x = sm r"
    and "\<And>p. Phys p \<in> set ys \<Longrightarrow> sm (Phys p) = Some p"
    and "\<And>r. r \<in> set ys \<Longrightarrow> r \<in> set sp \<or> (\<exists>q \<in> set regs. sm r = Some q)"
    and "\<And>r. r \<in> set sp \<Longrightarrow> r \<in> set ys \<and> \<not> is_phys r \<and> heavy g0 nreg m r"
    and "\<And>r q. r \<in> set ys \<Longrightarrow> q \<in> set ys \<Longrightarrow> adj g0 m r q \<Longrightarrow> sm r = sm q \<Longrightarrow> r \<in> set sp \<and> q \<in> set sp"
    and "slots_ok sz fr0 st"
  shows "coloured g0 nreg m regs sz fr0 ys st"
  unfolding coloured_def assms(1,2)
proof (intro conjI)
  show "dom sm = (\<Union>r \<in> set ys. cls m r)" by (rule assms(3))
  show "\<forall>r \<in> set ys. \<forall>x \<in> cls m r. sm x = sm r" using assms(4) by blast
  show "\<forall>p. Phys p \<in> set ys \<longrightarrow> sm (Phys p) = Some p" using assms(5) by blast
  show "\<forall>r \<in> set ys. r \<in> set sp \<or> (\<exists>q \<in> set regs. sm r = Some q)" using assms(6) by blast
  show "\<forall>r \<in> set sp. r \<in> set ys \<and> \<not> is_phys r \<and> heavy g0 nreg m r" using assms(7) by blast
  show "\<forall>r \<in> set ys. \<forall>q \<in> set ys. adj g0 m r q \<longrightarrow> sm r = sm q \<longrightarrow> r \<in> set sp \<and> q \<in> set sp"
    using assms(8) by blast
  show "slots_ok sz fr0 st" by (rule assms(9))
qed

text \<open>Everything one more class changes in the spot map.\<close>

lemma assign_class:
  assumes "set ms = cls m a" and "\<forall>r \<in> set ys. cls m a \<inter> cls m r = {}"
  shows "r \<in> set ys \<Longrightarrow> x \<in> cls m r \<Longrightarrow> assign_all ms q sm x = sm x"
    and "x \<in> cls m a \<Longrightarrow> assign_all ms q sm x = Some q"
    and "r \<in> set ys \<Longrightarrow> assign_all ms q sm r = sm r"
    and "dom (assign_all ms q sm) = cls m a \<union> dom sm"
proof -
  have "x \<notin> cls m a" if "r \<in> set ys" "x \<in> cls m r" for r x using assms(2) that by blast
  then show "r \<in> set ys \<Longrightarrow> x \<in> cls m r \<Longrightarrow> assign_all ms q sm x = sm x"
    "r \<in> set ys \<Longrightarrow> assign_all ms q sm r = sm r" for r x
    using assms(1) cls_self by (auto simp: assign_all_apply)
qed (use assms(1) in \<open>auto simp: assign_all_apply split: if_splits\<close>)

lemma coloured_reg:
  assumes c: "coloured g0 nreg m regs sz fr0 ys st" and wf: "wf_graph g0"
    and ms: "set ms = cls m a" and dis: "\<forall>r \<in> set ys. cls m a \<inter> cls m r = {}"
    and a: "\<not> adj g0 m a a" "\<And>p. a = Phys p \<Longrightarrow> q = p"
    and q: "q \<in> set regs" "\<And>r. r \<in> set ys \<Longrightarrow> adj g0 m a r \<Longrightarrow> spotmap st r \<noteq> Some q"
  shows "coloured g0 nreg m regs sz fr0 (a # ys) (st\<lparr>spotmap := assign_all ms q (spotmap st)\<rparr>)"
proof -
  note C = colouredD [OF c] and A = assign_class [OF ms dis]
  let ?sm = "assign_all ms q (spotmap st)"
  have old: "?sm r = spotmap st r" if "r \<in> set ys" for r by (rule A(3) [OF that])
  have new: "?sm a = Some q" by (rule A(2)) simp
  have sl: "slots_ok sz fr0 (st\<lparr>spotmap := ?sm\<rparr>)"
  proof -
    have "spotmap (st\<lparr>spotmap := ?sm\<rparr>) r = spotmap st r" if "r \<in> set (spilled_nodes st)" for r
      using old C(5) that by simp
    then show ?thesis using C(7) unfolding slots_ok_def by simp
  qed
  have edge: "r \<in> set (spilled_nodes st) \<and> p \<in> set (spilled_nodes st)"
    if "r \<in> set (a # ys)" "p \<in> set (a # ys)" "adj g0 m r p" "?sm r = ?sm p" for r p
  proof (cases "r \<in> set ys \<and> p \<in> set ys")
    case True
    then show ?thesis using C(6) [of r p] that old by simp
  next
    case False
    then have "(r = a \<and> p = a) \<or> (r = a \<and> p \<in> set ys) \<or> (r \<in> set ys \<and> p = a)" using that(1,2) by auto
    then consider "r = a" "p = a" | "r = a" "p \<in> set ys" | "r \<in> set ys" "p = a" by blast
    then show ?thesis
    proof cases
      case 1 then show ?thesis using a(1) that(3) by simp
    next
      case 2 then show ?thesis using q(2) [of p] that(3,4) old new by simp
    next
      case 3 then show ?thesis using q(2) [of r] that(3,4) old new adj_sym [OF wf] by metis
    qed
  qed
  have ph: "?sm (Phys p) = Some p" if "Phys p \<in> set (a # ys)" for p
    using that C(3) old new a(2) by (cases "Phys p \<in> set ys") auto
  have cl: "?sm x = ?sm r" if rx: "r \<in> set (a # ys)" "x \<in> cls m r" for r x
  proof (cases "r \<in> set ys")
    case True
    show ?thesis using A(1) [OF True rx(2)] C(2) [OF True rx(2)] old [OF True] by simp
  next
    case False
    then have "r = a" using rx(1) by simp
    then show ?thesis using A(2) rx(2) new by simp
  qed
  have rg: "r \<in> set (spilled_nodes st) \<or> (\<exists>p \<in> set regs. ?sm r = Some p)" if "r \<in> set (a # ys)" for r
    using that C(4) old new q(1) by (cases "r \<in> set ys") auto
  have sp: "r \<in> set (a # ys) \<and> \<not> is_phys r \<and> heavy g0 nreg m r" if "r \<in> set (spilled_nodes st)" for r
    using C(5) [OF that] by simp
  have d: "dom ?sm = (\<Union>r \<in> set (a # ys). cls m r)" using A(4) C(1) by simp
  show ?thesis by (rule colouredI [OF _ _ d cl ph rg sp edge sl]) simp_all
qed

lemma coloured_slot:
  assumes c: "coloured g0 nreg m regs sz fr0 ys st" and wf: "wf_graph g0"
    and ms: "set ms = cls m a" and dis: "\<forall>r \<in> set ys. cls m a \<inter> cls m r = {}"
    and a: "\<not> adj g0 m a a" "\<not> is_phys a" "heavy g0 nreg m a" "0 < node_bytes sz a"
    and regs: "set regs \<subseteq> set registers" and out: "a \<notin> set ys"
    and slot: "alloc_stack_slot (node_bytes sz a) (sp_frame st) = (sl, fr')"
  shows "coloured g0 nreg m regs sz fr0 (a # ys)
    \<lparr>spotmap = assign_all ms sl (spotmap st), spilled_nodes = spilled_nodes st @ [a], sp_frame = fr'\<rparr>"
proof -
  note C = colouredD [OF c] and A = assign_class [OF ms dis]
  let ?sm = "assign_all ms sl (spotmap st)"
  have old: "?sm r = spotmap st r" if "r \<in> set ys" for r by (rule A(3) [OF that])
  have new: "?sm a = Some sl" by (rule A(2)) simp
  obtain off where g: "frame_grown fr0 (sp_frame st)"
      "in_frame fr0 (sp_frame st) (if near_active fr0 then near_off fr0 else - frame_offset fr0) 0"
    and off: "\<And>r. r \<in> set (spilled_nodes st) \<Longrightarrow> spotmap st r = Some (slot_at fr0 (off r)) \<and>
               in_frame fr0 (sp_frame st) (off r) (node_bytes sz r)"
      "\<And>r q. r \<in> set (spilled_nodes st) \<Longrightarrow> q \<in> set (spilled_nodes st) \<Longrightarrow> r \<noteq> q \<Longrightarrow>
               off r + node_bytes sz r \<le> off q \<or> off q + node_bytes sz q \<le> off r"
    using C(7) unfolding slots_ok_def by blast
  obtain o1 where o1: "sl = slot_at fr0 o1" "frame_grown fr0 fr'"
      "\<And>o' k. in_frame fr0 (sp_frame st) o' k \<Longrightarrow> in_frame fr0 fr' o' k"
      "in_frame fr0 fr' o1 (node_bytes sz a)"
      "in_frame fr0 fr' (if near_active fr0 then near_off fr0 else - frame_offset fr0) 0"
      "\<And>o' k. in_frame fr0 (sp_frame st) o' k \<Longrightarrow> o' + k \<le> o1 \<or> o1 + node_bytes sz a \<le> o'"
    using alloc_stack_slot_spec [OF g(1) a(4)] slot g(2) by auto
  have spo: "r \<in> set ys" if "r \<in> set (spilled_nodes st)" for r using C(5) that by blast
  let ?st = "\<lparr>spotmap = ?sm, spilled_nodes = spilled_nodes st @ [a], sp_frame = fr'\<rparr>"
  have s1: "?sm r = Some (slot_at fr0 ((off(a := o1)) r)) \<and> in_frame fr0 fr' ((off(a := o1)) r) (node_bytes sz r)"
    if "r \<in> set (spilled_nodes st @ [a])" for r
    using that off(1) old spo new o1(1,3,4) out by (cases "r = a") auto
  have s2: "(off(a := o1)) r + node_bytes sz r \<le> (off(a := o1)) q \<or> (off(a := o1)) q + node_bytes sz q \<le> (off(a := o1)) r"
    if "r \<in> set (spilled_nodes st @ [a])" "q \<in> set (spilled_nodes st @ [a])" "r \<noteq> q" for r q
    using that off(2) [of r q] o1(6) off(1) by (cases "r = a"; cases "q = a") auto
  have sl: "slots_ok sz fr0 ?st"
    unfolding slots_ok_def spot_state.simps using o1(2,5) s1 s2 by blast
  have ne: "Some sl \<noteq> spotmap st r" if "r \<in> set ys" "r \<notin> set (spilled_nodes st)" for r
    using C(4) [OF that(1)] that(2) regs o1(1) registers_are_reg by (fastforce simp: slot_at_def)
  have edge: "r \<in> set (spilled_nodes st @ [a]) \<and> p \<in> set (spilled_nodes st @ [a])"
    if "r \<in> set (a # ys)" "p \<in> set (a # ys)" "adj g0 m r p" "?sm r = ?sm p" for r p
  proof (cases "r \<in> set ys \<and> p \<in> set ys")
    case True
    then show ?thesis using C(6) [of r p] that old by simp
  next
    case False
    then have "(r = a \<and> p = a) \<or> (r = a \<and> p \<in> set ys) \<or> (r \<in> set ys \<and> p = a)" using that(1,2) by auto
    then consider "r = a" "p = a" | "r = a" "p \<in> set ys" | "r \<in> set ys" "p = a" by blast
    then show ?thesis
    proof cases
      case 1 then show ?thesis by simp
    next
      case 2 then show ?thesis using ne [of p] old [of p] new that(4) by auto
    next
      case 3 then show ?thesis using ne [of r] old [of r] new that(4) by auto
    qed
  qed
  have ph: "?sm (Phys p) = Some p" if "Phys p \<in> set (a # ys)" for p
    using that C(3) old a(2) by (cases "Phys p \<in> set ys") (auto simp: is_phys_def)
  have cl: "?sm x = ?sm r" if rx: "r \<in> set (a # ys)" "x \<in> cls m r" for r x
  proof (cases "r \<in> set ys")
    case True
    show ?thesis using A(1) [OF True rx(2)] C(2) [OF True rx(2)] old [OF True] by simp
  next
    case False
    then have "r = a" using rx(1) by simp
    then show ?thesis using A(2) rx(2) new by simp
  qed
  have rg: "r \<in> set (spilled_nodes st @ [a]) \<or> (\<exists>p \<in> set regs. ?sm r = Some p)" if "r \<in> set (a # ys)" for r
    using that C(4) old by (cases "r \<in> set ys") auto
  have sp: "r \<in> set (a # ys) \<and> \<not> is_phys r \<and> heavy g0 nreg m r" if "r \<in> set (spilled_nodes st @ [a])" for r
    using that C(5) a by auto
  have d: "dom ?sm = (\<Union>r \<in> set (a # ys). cls m r)" using A(4) C(1) by simp
  show ?thesis by (rule colouredI [OF _ _ d cl ph rg sp edge sl]) simp_all
qed

section \<open>One round of the loop\<close>

definition alloc_input :: "spot list \<Rightarrow> (nat \<Rightarrow> int) \<Rightarrow> graph \<Rightarrow> bool" where
  "alloc_input regs sz g = (wf_graph g \<and> typed_graph g \<and> distinct regs \<and> set regs \<subseteq> set registers \<and>
     (\<forall>p. Phys p \<in> set (all_nodes g) \<longrightarrow> p \<in> set regs) \<and> (\<forall>v. Val v \<in> set (all_nodes g) \<longrightarrow> 0 < sz v))"

lemma stack_okD:
  assumes "stack_ok g0 nreg m (xs @ a # ys)"
  shows "\<not> adj g0 m a a" "\<forall>r \<in> set ys. cls m a \<inter> cls m r = {}" "a \<notin> set ys"
    "cls m a \<subseteq> set (all_nodes g0)" "is_phys a \<Longrightarrow> y \<in> set ys \<Longrightarrow> is_phys y"
    "\<not> is_phys a \<Longrightarrow> heavy g0 nreg m a \<or> card {r \<in> set ys. adj g0 m a r} < nreg"
    "\<not> is_phys a \<Longrightarrow> p \<in> set (all_nodes g0) \<Longrightarrow> is_phys p \<Longrightarrow> p \<in> set ys"
proof -
  note S = assms [unfolded stack_ok_def]
  let ?rs = "xs @ a # ys"
  have d: "distinct ?rs" and U: "(\<Union>r \<in> set ?rs. cls m r) = set (all_nodes g0)"
    and D: "\<forall>a \<in> set ?rs. \<forall>b \<in> set ?rs. a \<noteq> b \<longrightarrow> cls m a \<inter> cls m b = {}"
    and N: "\<forall>r \<in> set ?rs. \<not> adj g0 m r r"
    and P: "\<forall>p \<in> set (all_nodes g0). is_phys p \<longrightarrow> p \<in> set ?rs"
    and T: "\<forall>xs' b zs. ?rs = xs' @ b # zs \<longrightarrow> is_phys b \<longrightarrow> (\<forall>y \<in> set zs. is_phys y)"
    and L: "\<forall>xs' b zs. ?rs = xs' @ b # zs \<longrightarrow> \<not> is_phys b \<longrightarrow>
      heavy g0 nreg m b \<or> card {r \<in> set zs. adj g0 m b r} < nreg"
    using S by - (elim conjE, assumption)+
  show out: "a \<notin> set ys" using d by simp
  show "\<not> adj g0 m a a" using N by simp
  have "cls m a \<inter> cls m r = {}" if "r \<in> set ys" for r
    using D out that by (metis Un_iff list.set_intros set_append)
  then show "\<forall>r \<in> set ys. cls m a \<inter> cls m r = {}" by blast
  show "cls m a \<subseteq> set (all_nodes g0)" unfolding U [symmetric] by auto
  show "is_phys y" if "is_phys a" "y \<in> set ys"
    by (rule T [rule_format, OF refl that])
  show "heavy g0 nreg m a \<or> card {r \<in> set ys. adj g0 m a r} < nreg" if "\<not> is_phys a"
    by (rule L [rule_format, OF refl that])
  assume na: "\<not> is_phys a" and p: "p \<in> set (all_nodes g0)" "is_phys p"
  have "p \<in> set ?rs" using P p by blast
  moreover have "p \<notin> set xs"
  proof
    assume "p \<in> set xs"
    then obtain zs ws where "xs = zs @ p # ws" by (auto simp: in_set_conv_decomp)
    then have "?rs = zs @ p # (ws @ a # ys)" by simp
    then have "is_phys a" using T p(2) by (metis in_set_conv_decomp)
    then show False using na by simp
  qed
  ultimately show "p \<in> set ys" using na p(2) by auto
qed

lemma no_register_left:
  assumes c: "coloured g0 nreg m regs sz fr0 ys st" and st: "stack_ok g0 nreg m (xs @ a # ys)"
    and wf: "wf_graph g0" and v: "\<not> is_phys a" and nreg: "nreg = length regs" and dr: "distinct regs"
    and cs: "set cs = {z. \<exists>y \<in> cls m a. cedge g0 y z}"
    and e: "fold (strike (spotmap st)) cs (rev regs) = []"
  shows "heavy g0 nreg m a"
proof -
  note C = colouredD [OF c] and S = stack_okD [OF st]
  let ?A = "{r \<in> set ys. adj g0 m a r}"
  have "q \<in> (\<lambda>r. the (spotmap st r)) ` ?A" if q: "q \<in> set regs" for q
  proof -
    have "\<exists>z \<in> set cs. z = Phys q \<or> spotmap st z = Some q"
      using strike_fold [of "rev regs" "spotmap st" cs] e q dr by auto
    then obtain z y where z: "z \<in> set cs" "z = Phys q \<or> spotmap st z = Some q" "y \<in> cls m a" "cedge g0 y z"
      using cs by blast
    have "z \<in> set (all_nodes g0)" using cedge_nodes [OF wf z(4)] by blast
    then have sz: "spotmap st z = Some q" using z(2) S(7) [OF v] C(3) by (auto simp: is_phys_def)
    then have "z \<in> dom (spotmap st)" by blast
    then obtain r where r: "r \<in> set ys" "z \<in> cls m r" using C(1) by blast
    then have "adj g0 m a r" using z(3,4) unfolding adj_def by blast
    moreover have "spotmap st r = Some q" using C(2) [OF r] sz by simp
    ultimately show ?thesis using r(1) by (force simp: image_iff)
  qed
  then have "card (set regs) \<le> card ?A" by (intro card_image_le [of _ _ "\<lambda>r. the (spotmap st r)"]) auto
  then show ?thesis using S(6) [OF v] nreg dr by (auto simp: distinct_card)
qed

lemma spot_step_inv:
  fixes rank :: "node \<Rightarrow> nat"
  assumes c: "coloured g0 nreg m regs sz fr0 ys st" and st: "stack_ok g0 nreg m (xs @ a # ys)"
    and inp: "alloc_input regs sz g0" and nreg: "nreg = length regs"
    and rank: "\<And>p c. c \<in> set (merged_into m p) \<Longrightarrow> rank c < rank p" "rank a < f"
  shows "\<exists>st'. spot_step f regs sz g0 m a st = Some st' \<and> coloured g0 nreg m regs sz fr0 (a # ys) st'"
proof -
  note C = colouredD [OF c] and S = stack_okD [OF st]
  have wf: "wf_graph g0" and dr: "distinct regs" and rr: "set regs \<subseteq> set registers"
    using inp by (simp_all add: alloc_input_def)
  obtain ms where ms: "get_merged f m a = Some ms" "set ms = cls m a"
    using get_merged_spec [of m rank a f] rank by blast
  obtain cs where cs: "get_conflicts f g0 m a = Some cs" "set cs = {z. \<exists>y \<in> cls m a. cedge g0 y z}"
    using get_conflicts_spec [OF wf, of m rank a f] rank S(4) by blast
  have aV: "a \<in> set (all_nodes g0)" using S(4) cls_self [of a m] by blast
  show ?thesis
  proof (cases a)
    case (Phys p)
    then have p: "p \<in> set regs" using inp aV by (simp add: alloc_input_def)
    have "spotmap st r \<noteq> Some p" if r: "r \<in> set ys" "adj g0 m a r" for r
    proof -
      obtain q where "r = Phys q" using S(5) [of r] r(1) Phys by (cases r) (auto simp: is_phys_def)
      then show ?thesis using C(3) [of q] r(1) S(3) Phys by auto
    qed
    then have "coloured g0 nreg m regs sz fr0 (a # ys) (st\<lparr>spotmap := assign_all ms p (spotmap st)\<rparr>)"
      by (intro coloured_reg [OF c wf ms(2) S(2,1) _ p]) (simp_all add: Phys)
    then show ?thesis using Phys p ms(1) by (simp add: spot_step_def Let_def)
  next
    case (Val v)
    then have nv: "\<not> is_phys a" by (simp add: is_phys_def)
    let ?regs = "fold (strike (spotmap st)) cs (rev regs)"
    show ?thesis
    proof (cases "?regs = []")
      case False
      have q: "last ?regs \<in> {r \<in> set regs. \<forall>c \<in> set cs. c \<noteq> Phys r \<and> spotmap st c \<noteq> Some r}"
        using last_in_set [OF False] strike_fold [of "rev regs" "spotmap st" cs] dr by simp
      have "spotmap st r \<noteq> Some (last ?regs)" if r: "r \<in> set ys" "adj g0 m a r" for r
      proof -
        obtain x y where "x \<in> cls m a" "y \<in> cls m r" "cedge g0 x y" using r(2) unfolding adj_def by blast
        then have "y \<in> set cs" "spotmap st y = spotmap st r" using cs(2) C(2) [OF r(1)] by blast+
        then show ?thesis using q by auto
      qed
      then have "coloured g0 nreg m regs sz fr0 (a # ys) (st\<lparr>spotmap := assign_all ms (last ?regs) (spotmap st)\<rparr>)"
        using q by (intro coloured_reg [OF c wf ms(2) S(2,1)]) (simp_all add: Val)
      then show ?thesis using Val False ms(1) cs(1) by (simp add: spot_step_def Let_def)
    next
      case True
      have h: "heavy g0 nreg m a" by (rule no_register_left [OF c st wf nv nreg dr cs(2) True])
      have b: "0 < node_bytes sz a" using inp aV Val by (simp add: alloc_input_def node_bytes_def)
      obtain sl fr' where sl: "alloc_stack_slot (node_bytes sz a) (sp_frame st) = (sl, fr')" by fastforce
      have "coloured g0 nreg m regs sz fr0 (a # ys)
        \<lparr>spotmap = assign_all ms sl (spotmap st), spilled_nodes = spilled_nodes st @ [a], sp_frame = fr'\<rparr>"
        by (rule coloured_slot [OF c wf ms(2) S(2) S(1) nv h b rr S(3) sl])
      then show ?thesis using Val True ms(1) cs(1) sl
        by (simp add: spot_step_def Let_def node_size_def node_bytes_def)
    qed
  qed
qed

lemma spotmap_loop:
  fixes rank :: "node \<Rightarrow> nat"
  assumes inp: "alloc_input regs sz g0" and nreg: "nreg = length regs"
    and rank: "\<And>p c. c \<in> set (merged_into m p) \<Longrightarrow> rank c < rank p" "\<And>x. rank x < f"
  shows "stack_ok g0 nreg m (xs @ ys) \<Longrightarrow>
    \<exists>st. ofold (spot_step f regs sz g0 m) (rev ys) \<lparr>spotmap = Map.empty, spilled_nodes = [], sp_frame = fr\<rparr> = Some st \<and>
      coloured g0 nreg m regs sz fr ys st"
proof (induction ys arbitrary: xs)
  case Nil
  then show ?case using coloured_start by simp
next
  case (Cons a ys)
  obtain st where st: "ofold (spot_step f regs sz g0 m) (rev ys)
      \<lparr>spotmap = Map.empty, spilled_nodes = [], sp_frame = fr\<rparr> = Some st"
    "coloured g0 nreg m regs sz fr ys st"
    using Cons.IH [of "xs @ [a]"] Cons.prems by auto
  show ?case using spot_step_inv [where rank = rank, OF st(2) Cons.prems inp nreg rank(1) rank(2)] st(1)
    by (auto simp: ofold_append)
qed

section \<open>The allocation as a whole\<close>

lemma allocate_result:
  assumes "alloc_input regs sz g"
  shows "\<exists>st m rs. allocate regs sz fr g = Some st \<and> stack_ok g (length regs) m rs \<and>
    coloured g (length regs) m regs sz fr rs st"
proof -
  have wf: "wf_graph g" "typed_graph g" using assms by (simp_all add: alloc_input_def)
  obtain s where s: "alloc_loop (length regs) \<lparr>removed_nodes = [], merged_nodes = Map.empty, ra_graph = g\<rparr> = Some s"
    "ra_inv g (length regs) s" "nodes (ra_graph s) = []"
    using alloc_loop_inv [OF ra_inv_start [OF wf]] by blast
  note I = ra_invD [OF s(2)]
  let ?rs = "removed_nodes s @ all_nodes (ra_graph s)"
  have st: "stack_ok g (length regs) (merged_nodes s) ([] @ ?rs)" using alloc_stack [OF s(2,3)] by simp
  obtain rank :: "node \<Rightarrow> nat" where
    rank: "\<And>p c. c \<in> set (merged_into (merged_nodes s) p) \<Longrightarrow> rank c < rank p"
      "\<And>x. rank x < Suc (length (all_nodes g))"
    using I(4) unfolding rank_inv_def by (metis add_leD1 le_imp_less_Suc)
  from spotmap_loop [where rank = rank, OF assms refl rank st] obtain t where
    t: "generate_spotmap (Suc (length (all_nodes g))) regs sz g (merged_nodes s) ?rs fr = Some t"
      "coloured g (length regs) (merged_nodes s) regs sz fr ?rs t"
    unfolding generate_spotmap_def by blast
  have "drain (removed_nodes s) (ra_graph s) = Some ?rs" by (rule drain_all [OF I(2)])
  then have "allocate regs sz fr g = Some t" using s(1) t(1) wf(1) by (simp add: allocate_def)
  then show ?thesis using st t(2) by fastforce
qed

text \<open>What a coloured stack means for the nodes themselves.\<close>

lemma coloured_classes:
  assumes "stack_ok g nreg m rs" and "coloured g nreg m regs sz fr rs st"
  shows "dom (spotmap st) = set (all_nodes g)"
    and "x \<in> set (all_nodes g) \<Longrightarrow> \<exists>r \<in> set rs. x \<in> cls m r \<and> spotmap st x = spotmap st r \<and>
      (r \<in> set (spilled_nodes st) \<longrightarrow> r = x) \<and> (r \<notin> set (spilled_nodes st) \<longrightarrow> (\<exists>q \<in> set regs. spotmap st r = Some q))"
proof -
  have U: "(\<Union>r \<in> set rs. cls m r) = set (all_nodes g)"
    using assms(1) unfolding stack_ok_def by (elim conjE)
  note C = colouredD [OF assms(2)]
  show "dom (spotmap st) = set (all_nodes g)" using C(1) U by simp
  assume "x \<in> set (all_nodes g)"
  then obtain r where r: "r \<in> set rs" "x \<in> cls m r" using U by blast
  have "r = x" if "r \<in> set (spilled_nodes st)" using C(5) [OF that] r(2) by (simp add: heavy_def)
  then show "\<exists>r \<in> set rs. x \<in> cls m r \<and> spotmap st x = spotmap st r \<and>
      (r \<in> set (spilled_nodes st) \<longrightarrow> r = x) \<and> (r \<notin> set (spilled_nodes st) \<longrightarrow> (\<exists>q \<in> set regs. spotmap st r = Some q))"
    using r C(2) [OF r] C(4) [OF r(1)] by blast
qed

lemma reg_slot_differ:
  "set regs \<subseteq> set registers \<Longrightarrow> q \<in> set regs \<Longrightarrow> \<not> overlap q n (slot_at fr off) k \<and> \<not> overlap (slot_at fr off) k q n \<and>
     q \<noteq> slot_at fr off"
proof -
  assume "set regs \<subseteq> set registers" "q \<in> set regs"
  then obtain r where "q = RegSpot r" using registers_are_reg by blast
  then show ?thesis by (simp add: slot_at_def)
qed

lemma reg_overlap:
  "set regs \<subseteq> set registers \<Longrightarrow> q \<in> set regs \<Longrightarrow> p \<in> set regs \<Longrightarrow> overlap q n p k = (q = p)"
proof -
  assume "set regs \<subseteq> set registers" "q \<in> set regs"
  then obtain r where "q = RegSpot r" using registers_are_reg by blast
  then show ?thesis by simp
qed

lemma spilled_slots:
  assumes "slots_ok sz fr st" and "r \<in> set (spilled_nodes st)" and "q \<in> set (spilled_nodes st)"
  shows "\<exists>o1 o2. spotmap st r = Some (slot_at fr o1) \<and> in_frame fr (sp_frame st) o1 (node_bytes sz r) \<and>
    spotmap st q = Some (slot_at fr o2) \<and>
    (r \<noteq> q \<longrightarrow> o1 + node_bytes sz r \<le> o2 \<or> o2 + node_bytes sz q \<le> o1)"
  using assms unfolding slots_ok_def by blast

lemma no_overlap:
  assumes inp: "alloc_input regs sz g" and st: "stack_ok g nreg m rs" and c: "coloured g nreg m regs sz fr rs st"
    and e: "cedge g x y" and xy: "spotmap st x = Some s" "spotmap st y = Some t"
  shows "\<not> overlap s (node_bytes sz x) t (node_bytes sz y)"
proof -
  have wf: "wf_graph g" and rr: "set regs \<subseteq> set registers" using inp by (simp_all add: alloc_input_def)
  note C = colouredD [OF c] and K = coloured_classes [OF st c]
  have "x \<in> set (all_nodes g)" "y \<in> set (all_nodes g)" using cedge_nodes [OF wf e] by blast+
  then obtain r q where
    r: "r \<in> set rs" "x \<in> cls m r" "spotmap st x = spotmap st r" "r \<in> set (spilled_nodes st) \<longrightarrow> r = x"
       "r \<notin> set (spilled_nodes st) \<longrightarrow> (\<exists>q \<in> set regs. spotmap st r = Some q)" and
    q: "q \<in> set rs" "y \<in> cls m q" "spotmap st y = spotmap st q" "q \<in> set (spilled_nodes st) \<longrightarrow> q = y"
       "q \<notin> set (spilled_nodes st) \<longrightarrow> (\<exists>p \<in> set regs. spotmap st q = Some p)"
    using K(2) by metis
  have adj: "adj g m r q" using e r(2) q(2) unfolding adj_def by blast
  have ne: "x \<noteq> y" using e wf_graphD(9) [OF wf] by blast
  show ?thesis
  proof (cases "r \<in> set (spilled_nodes st)"; cases "q \<in> set (spilled_nodes st)")
    assume "r \<in> set (spilled_nodes st)" "q \<in> set (spilled_nodes st)"
    then show ?thesis using spilled_slots [OF C(7), of r q] r(3,4) q(3,4) xy ne
      by (auto simp: slot_at_def)
  next
    assume a: "r \<in> set (spilled_nodes st)" "q \<notin> set (spilled_nodes st)"
    then show ?thesis using spilled_slots [OF C(7), of r r] r(3) q(3,5) xy reg_slot_differ [OF rr] by fastforce
  next
    assume a: "r \<notin> set (spilled_nodes st)" "q \<in> set (spilled_nodes st)"
    then show ?thesis using spilled_slots [OF C(7), of q q] r(3,5) q(3) xy reg_slot_differ [OF rr] by fastforce
  next
    assume a: "r \<notin> set (spilled_nodes st)" "q \<notin> set (spilled_nodes st)"
    then have "s \<in> set regs" "t \<in> set regs" "s \<noteq> t"
      using r(3,5) q(3,5) xy C(6) [OF r(1) q(1) adj] by auto
    then show ?thesis using reg_overlap [OF rr] by blast
  qed
qed

text \<open>C2: Register allocation returns and is sound: every node of the conflict graph gets a spot, a
  machine register stands for itself, and two conflicting nodes never share storage: neither one
  register nor overlapping bytes of two stack slots, each counted with its own node's size.\<close>

theorem allocation_sound:
  assumes "alloc_input regs sz g"
  shows "\<exists>st. allocate regs sz fr g = Some st \<and> dom (spotmap st) = set (all_nodes g) \<and>
    (\<forall>p. Phys p \<in> set (all_nodes g) \<longrightarrow> spotmap st (Phys p) = Some p) \<and>
    (\<forall>x y s t. cedge g x y \<longrightarrow> spotmap st x = Some s \<longrightarrow> spotmap st y = Some t \<longrightarrow>
       \<not> overlap s (node_bytes sz x) t (node_bytes sz y))"
proof -
  obtain st m rs where st: "allocate regs sz fr g = Some st" "stack_ok g (length regs) m rs"
    "coloured g (length regs) m regs sz fr rs st"
    using allocate_result [OF assms] by blast
  have "\<forall>p \<in> set (all_nodes g). is_phys p \<longrightarrow> p \<in> set rs"
    using st(2) unfolding stack_ok_def by (elim conjE)
  then have "spotmap st (Phys p) = Some p" if "Phys p \<in> set (all_nodes g)" for p
    using that colouredD(3) [OF st(3)] by (auto simp: is_phys_def)
  then show ?thesis using st(1) coloured_classes(1) [OF st(2,3)] no_overlap [OF assms st(2,3)] by blast
qed

text \<open>C25: Only a node with at least as many conflicts as there are registers is ever spilled, and
  no other node shares its slot (so the slot, cut to the size of that node, is never too small for
  a node merged with it); every node that is not spilled lives in an allocatable register, and
  the slot lies in the part of the frame the allocation reserved.\<close>

theorem spills_are_heavy_and_alone:
  assumes inp: "alloc_input regs sz g" and al: "allocate regs sz fr g = Some st"
  shows "(\<forall>n \<in> set (spilled_nodes st). length regs \<le> card {r. cedge g n r} \<and>
      (\<exists>off. spotmap st n = Some (slot_at fr off) \<and> in_frame fr (sp_frame st) off (node_bytes sz n)) \<and>
      (\<forall>x. spotmap st x = spotmap st n \<longrightarrow> x = n)) \<and>
    (\<forall>x \<in> set (all_nodes g). x \<notin> set (spilled_nodes st) \<longrightarrow> (\<exists>q \<in> set regs. spotmap st x = Some q))"
proof -
  obtain m rs where st: "stack_ok g (length regs) m rs" "coloured g (length regs) m regs sz fr rs st"
    using allocate_result [OF inp, of fr] al by auto
  have rr: "set regs \<subseteq> set registers" using inp by (simp add: alloc_input_def)
  note C = colouredD [OF st(2)] and K = coloured_classes [OF st]
  have pos: "0 < node_bytes sz x" if "x \<in> set (all_nodes g)" for x
    using inp that by (auto simp: node_bytes_def alloc_input_def split: node.split)
  have alone: "x = n" if n: "n \<in> set (spilled_nodes st)" and x: "spotmap st x = spotmap st n" for x n
  proof -
    obtain off where off: "spotmap st n = Some (slot_at fr off)"
      using spilled_slots [OF C(7) n n] by blast
    have "x \<in> set (all_nodes g)" "n \<in> set (all_nodes g)" using off x K(1) by (metis domI)+
    moreover obtain r where r: "r \<in> set rs" "x \<in> cls m r" "spotmap st x = spotmap st r"
       "r \<in> set (spilled_nodes st) \<longrightarrow> r = x"
       "r \<notin> set (spilled_nodes st) \<longrightarrow> (\<exists>q \<in> set regs. spotmap st r = Some q)"
      using K(2) calculation(1) by metis
    ultimately have "r \<in> set (spilled_nodes st)" using off x reg_slot_differ [OF rr] by force
    then show "x = n"
      using spilled_slots [OF C(7) _ n, of r] r x pos \<open>x \<in> set (all_nodes g)\<close> \<open>n \<in> set (all_nodes g)\<close>
      by (force simp: slot_at_def)
  qed
  have "length regs \<le> card {r. cedge g n r}" if "n \<in> set (spilled_nodes st)" for n
    using C(5) [OF that] by (simp add: heavy_def)
  moreover have "\<exists>off. spotmap st n = Some (slot_at fr off) \<and> in_frame fr (sp_frame st) off (node_bytes sz n)"
    if "n \<in> set (spilled_nodes st)" for n
    using spilled_slots [OF C(7) that that] by blast
  moreover have "\<exists>q \<in> set regs. spotmap st x = Some q"
    if "x \<in> set (all_nodes g)" "x \<notin> set (spilled_nodes st)" for x
    using K(2) [OF that(1)] that(2) by metis
  ultimately show ?thesis using alone by blast
qed

text \<open>C33: Low register pressure never spills: when every value has fewer conflicts than there are
  registers, allocation places every node in an allocatable register.\<close>

theorem low_pressure_no_spill:
  assumes "alloc_input regs sz g"
    and "\<And>n. n \<in> set (real_nodes g) \<Longrightarrow> card {r. cedge g n r} < length regs"
  shows "\<exists>st. allocate regs sz fr g = Some st \<and> spilled_nodes st = [] \<and>
    (\<forall>x \<in> set (all_nodes g). \<exists>q \<in> set regs. spotmap st x = Some q)"
proof -
  obtain st m rs where st: "allocate regs sz fr g = Some st" "stack_ok g (length regs) m rs"
    "coloured g (length regs) m regs sz fr rs st"
    using allocate_result [OF assms(1)] by blast
  have ty: "typed_graph g" using assms(1) by (simp add: alloc_input_def)
  note C = colouredD [OF st(3)] and K = coloured_classes [OF st(2,3)]
  have no: "n \<notin> set (spilled_nodes st)" for n
  proof
    assume n: "n \<in> set (spilled_nodes st)"
    then obtain o1 where "spotmap st n = Some o1" using spilled_slots [OF C(7) n n] by blast
    then have "n \<in> set (all_nodes g)" using K(1) by blast
    then have "n \<in> set (real_nodes g)" using C(5) [OF n] ty by (simp add: typed_graph_def)
    from assms(2) [OF this] show False using C(5) [OF n] by (simp add: heavy_def)
  qed
  then have "spilled_nodes st = []" by (meson last_in_set)
  moreover have "\<exists>q \<in> set regs. spotmap st x = Some q" if "x \<in> set (all_nodes g)" for x
    using K(2) [OF that] no by metis
  ultimately show ?thesis using st(1) by blast
qed

definition empty_frame :: frame where
  "empty_frame = \<lparr>frame_offset = 0, near_active = False, near_label = [], near_off = 0, near_size = 0\<rparr>"

text \<open>Three values alive together, and two registers for them.\<close>

definition triangle :: graph where
  "triangle = \<lparr>real_nodes = [Val 1, Val 2, Val 3], all_nodes = [Val 1, Val 2, Val 3],
     conf = [Val 1 \<mapsto> [Val 2, Val 3], Val 2 \<mapsto> [Val 1, Val 3], Val 3 \<mapsto> [Val 1, Val 2]],
     pref = [Val 1 \<mapsto> [], Val 2 \<mapsto> [], Val 3 \<mapsto> []]\<rparr>"

lemma triangle_wf: "wf_graph triangle" "typed_graph triangle"
  by (auto simp: wf_graph_def triangle_def cedge_def pedge_def typed_graph_def is_phys_def split: if_splits)

lemma triangle_input: "distinct regs \<Longrightarrow> set regs \<subseteq> set registers \<Longrightarrow> alloc_input regs (\<lambda>_. 4) triangle"
  using triangle_wf by (auto simp: alloc_input_def) (auto simp: triangle_def)

lemma sample_input: "alloc_input registers (\<lambda>_. 4) sample_graph"
  using sample_graph_wf
  by (auto simp: alloc_input_def typed_graph_def) (auto simp: sample_graph_def is_phys_def)

theorem allocation_sound_witness:
  "\<exists>st s t. allocate registers (\<lambda>_. 4) empty_frame sample_graph = Some st \<and>
     spotmap st (Val 1) = Some s \<and> spotmap st (Val 3) = Some t \<and> \<not> overlap s 4 t 4"
proof -
  have e: "cedge sample_graph (Val 1) (Val 3)" by (simp add: cedge_def sample_graph_def)
  from allocation_sound [OF sample_input, of empty_frame] obtain st where
    st: "allocate registers (\<lambda>_. 4) empty_frame sample_graph = Some st"
      "dom (spotmap st) = set (all_nodes sample_graph)"
    and no: "\<And>x y s t. cedge sample_graph x y \<Longrightarrow> spotmap st x = Some s \<Longrightarrow> spotmap st y = Some t \<Longrightarrow>
       \<not> overlap s (node_bytes (\<lambda>_. 4) x) t (node_bytes (\<lambda>_. 4) y)" by blast
  have "Val 1 \<in> dom (spotmap st)" "Val 3 \<in> dom (spotmap st)" using st(2) by (simp_all add: sample_graph_def)
  then obtain s t where "spotmap st (Val 1) = Some s" "spotmap st (Val 3) = Some t" by blast
  with st(1) no [OF e] show ?thesis by (auto simp: node_bytes_def)
qed

theorem low_pressure_no_spill_witness:
  "\<exists>st. allocate registers (\<lambda>_. 4) empty_frame sample_graph = Some st \<and> spilled_nodes st = []"
proof -
  have "card {r. cedge sample_graph n r} < length registers" if "n \<in> set (real_nodes sample_graph)" for n
  proof -
    have "{r. cedge sample_graph n r} \<subseteq> {Val 1, Val 3}"
      by (auto simp: cedge_def sample_graph_def split: if_splits)
    then have "card {r. cedge sample_graph n r} \<le> card {Val 1, Val 3}" by (intro card_mono) auto
    also have "\<dots> \<le> 2" by (simp add: card_insert_if)
    finally show ?thesis by simp
  qed
  from low_pressure_no_spill [OF sample_input this, of empty_frame] show ?thesis by blast
qed

lemma triangle_spill:
  "map_option (\<lambda>st. spilled_nodes st) (allocate [RAX, RCX] (\<lambda>_. 4) empty_frame triangle) = Some [Val 1]"
  by code_simp

theorem spills_are_heavy_and_alone_witness:
  "\<exists>st. allocate [RAX, RCX] (\<lambda>_. 4) empty_frame triangle = Some st \<and> spilled_nodes st = [Val 1] \<and>
     (\<exists>off. spotmap st (Val 1) = Some (slot_at empty_frame off)) \<and>
     (\<exists>q \<in> {RAX, RCX}. spotmap st (Val 2) = Some q)"
proof -
  obtain st where st: "allocate [RAX, RCX] (\<lambda>_. 4) empty_frame triangle = Some st" "spilled_nodes st = [Val 1]"
    using triangle_spill by auto
  have i: "alloc_input [RAX, RCX] (\<lambda>_. 4) triangle"
    by (rule triangle_input) (auto simp: RAX_def RCX_def registers_def caller_saved_registers_def)
  have "Val 2 \<in> set (all_nodes triangle)" by (simp add: triangle_def)
  with spills_are_heavy_and_alone [OF i st(1)] st show ?thesis by auto
qed

end
