(* ===== verification/Liveness.thy ===== *)
theory Liveness
  imports SpotMap
begin

text \<open>
  What \<open>_make_asm\<close> of \<open>shivyc/asm_gen.py\<close> does before the allocation: the free values of a command
  list, the locals that must live in memory, the backward liveness iteration, and the conflict
  graph.  An IL command is seen through the interface of \<open>ILCommand\<close> (\<open>shivyc/il_cmds/base.py\<close>),
  an IL value is a number.  A \<open>None\<close> among the values a command lists is left out: every use of
  those lists here tests membership in the free values first.
\<close>

section \<open>The command interface\<close>

record cmd =
  c_inputs :: "nat list"
  c_outputs :: "nat list"
  c_clobber :: "spot list"
  c_rel_conf :: "(nat \<times> nat list) list"
  c_abs_conf :: "(nat \<times> spot list) list"
  c_rel_pref :: "(nat \<times> nat list) list"
  c_abs_pref :: "(nat \<times> spot list) list"
  c_references :: "nat list list"
  c_label :: "string option"
  c_targets :: "string list"

text \<open>The defaults of the base class.\<close>

definition il_command :: "nat list \<Rightarrow> nat list \<Rightarrow> cmd" where
  "il_command ins outs = \<lparr>c_inputs = ins, c_outputs = outs, c_clobber = [], c_rel_conf = [],
     c_abs_conf = [], c_rel_pref = [], c_abs_pref = [], c_references = [], c_label = None, c_targets = []\<rparr>"

section \<open>Free values and values kept in memory\<close>

type_synonym spot_map = "node \<rightharpoonup> spot"

definition add_free :: "spot_map \<Rightarrow> nat \<Rightarrow> nat list \<Rightarrow> nat list" where
  "add_free gmap v free = (if v \<notin> set free \<and> gmap (Val v) = None then free @ [v] else free)"

definition get_free_values :: "cmd list \<Rightarrow> spot_map \<Rightarrow> nat list" where
  "get_free_values cmds gmap =
     fold (\<lambda>c free. fold (add_free gmap) (c_inputs c @ c_outputs c) free) cmds []"

text \<open>The size and the floating flag of an IL value's type.\<close>

record val_types =
  v_size :: "nat \<Rightarrow> int"
  v_floating :: "nat \<Rightarrow> bool"

definition move_to_mem :: "val_types \<Rightarrow> cmd list \<Rightarrow> nat list \<Rightarrow> nat list" where
  "move_to_mem ty cmds free =
     concat (map (\<lambda>c. concat (c_references c)) cmds) @
     filter (\<lambda>v. v_size ty v \<notin> {1, 2, 4, 8}) free @ filter (v_floating ty) free"

record mem_state =
  ms_free :: "nat list"
  ms_map :: spot_map
  ms_frame :: frame
  ms_keys :: "nat list"

definition place_in_mem :: "val_types \<Rightarrow> nat \<Rightarrow> mem_state \<Rightarrow> mem_state" where
  "place_in_mem ty v s =
     (if v \<in> set (ms_free s)
      then (let off = frame_offset (ms_frame s) + v_size ty v in
        \<lparr>ms_free = remove1 v (ms_free s),
         ms_map = (ms_map s)(Val v \<mapsto> MemSpot (BaseSpot RBP) (- off) 0 None),
         ms_frame = (ms_frame s)\<lparr>frame_offset := off\<rparr>,
         ms_keys = ms_keys s @ [v]\<rparr>)
      else s)"

section \<open>Liveness\<close>

text \<open>The result of a loop that may raise or may go on for ever.\<close>

datatype 'a run = Done 'a | KeyError | OutOfFuel

type_synonym live_sets = "(nat list \<times> nat list) list"

text \<open>\<open>{c.label_name(): i}\<close>: the last command with a label counts.\<close>

fun label_index :: "cmd list \<Rightarrow> nat \<Rightarrow> string \<rightharpoonup> nat" where
  "label_index [] i = Map.empty"
| "label_index (c # cs) i =
     (case c_label c of
        Some l \<Rightarrow> if l = [] then label_index cs (Suc i) else [l \<mapsto> i] ++ label_index cs (Suc i)
      | None \<Rightarrow> label_index cs (Suc i))"

definition add_target :: "(string \<rightharpoonup> nat) \<Rightarrow> live_sets \<Rightarrow> string \<Rightarrow> nat list \<Rightarrow> nat list option" where
  "add_target labels prev l cur =
     (case labels l of None \<Rightarrow> None | Some i2 \<Rightarrow> Some (dset_add_all (fst (prev ! i2)) cur))"

definition add_input :: "nat list \<Rightarrow> nat \<Rightarrow> nat list \<Rightarrow> nat list" where
  "add_input free v cur = (if v \<in> set free \<and> v \<notin> set cur then cur @ [v] else cur)"

definition drop_output :: "nat list \<Rightarrow> nat \<Rightarrow> nat list \<times> nat list \<Rightarrow> nat list \<times> nat list" where
  "drop_output free v s =
     (if v \<in> set free
      then (if v \<in> set (fst s) then (remove1 v (fst s), snd s) else (fst s, snd s @ [v]))
      else s)"

text \<open>One command of the backward walk: \<open>cur\<close> is live after it in program order.  The result is
  its pair of live-in and live-out values.\<close>

definition live_cmd ::
  "(string \<rightharpoonup> nat) \<Rightarrow> live_sets \<Rightarrow> nat list \<Rightarrow> cmd \<Rightarrow> nat list \<Rightarrow> (nat list \<times> nat list) option" where
  "live_cmd labels prev free c cur =
     map_option (\<lambda>out_live. fold (drop_output free) (c_outputs c)
         (fold (add_input free) (c_inputs c) out_live, out_live))
       (ofold (add_target labels prev) (c_targets c) cur)"

fun live_pass :: "(string \<rightharpoonup> nat) \<Rightarrow> live_sets \<Rightarrow> nat list \<Rightarrow> cmd list \<Rightarrow> live_sets option" where
  "live_pass labels prev free [] = Some []"
| "live_pass labels prev free (c # cs) =
     (case live_pass labels prev free cs of None \<Rightarrow> None
      | Some lv \<Rightarrow>
        map_option (\<lambda>p. p # lv)
          (live_cmd labels prev free c (case lv of [] \<Rightarrow> [] | p # _ \<Rightarrow> fst p)))"

text \<open>\<open>while live_vars != prev_live_vars\<close>, with fuel; before the first round there is no previous value.\<close>

fun live_loop :: "nat \<Rightarrow> (string \<rightharpoonup> nat) \<Rightarrow> nat list \<Rightarrow> cmd list \<Rightarrow> live_sets option \<Rightarrow> live_sets \<Rightarrow> live_sets run" where
  "live_loop 0 labels free cmds prev lv = OutOfFuel"
| "live_loop (Suc f) labels free cmds prev lv =
     (if prev = Some lv then Done lv
      else case live_pass labels lv free cmds of
          None \<Rightarrow> KeyError
        | Some lv' \<Rightarrow> live_loop f labels free cmds (Some lv) lv')"

definition get_live_vars :: "nat \<Rightarrow> cmd list \<Rightarrow> nat list \<Rightarrow> live_sets run" where
  "get_live_vars fuel cmds free =
     live_loop fuel (label_index cmds 0) free cmds None (replicate (length cmds) ([], []))"

section \<open>The conflict graph\<close>

text \<open>Every pair of a list, in the order of the two index loops.\<close>

fun conflict_pairs :: "nat list \<Rightarrow> graph \<Rightarrow> graph option" where
  "conflict_pairs [] g = Some g"
| "conflict_pairs (x # xs) g =
     (case ofold (\<lambda>y. add_conflict (Val x) (Val y)) xs g of None \<Rightarrow> None | Some g' \<Rightarrow> conflict_pairs xs g')"

definition need_dummy :: "spot \<Rightarrow> graph \<Rightarrow> graph option" where
  "need_dummy s g = (if Phys s \<notin> set (all_nodes g) then add_dummy_node (Phys s) g else Some g)"

definition rel_conf_step :: "nat list \<Rightarrow> nat \<times> nat list \<Rightarrow> graph \<Rightarrow> graph option" where
  "rel_conf_step free e = ofold (\<lambda>nb g.
     if fst e \<in> set free \<and> nb \<in> set free then add_conflict (Val (fst e)) (Val nb) g else Some g) (snd e)"

definition abs_conf_step :: "nat list \<Rightarrow> nat \<times> spot list \<Rightarrow> graph \<Rightarrow> graph option" where
  "abs_conf_step free e = ofold (\<lambda>s g.
     if fst e \<in> set free
     then (case need_dummy s g of None \<Rightarrow> None | Some g' \<Rightarrow> add_conflict (Val (fst e)) (Phys s) g')
     else Some g) (snd e)"

definition clobber_step :: "nat list \<times> nat list \<Rightarrow> spot \<Rightarrow> graph \<Rightarrow> graph option" where
  "clobber_step live s g =
     (case need_dummy s g of None \<Rightarrow> None
      | Some g' \<Rightarrow> ofold (\<lambda>v h. if v \<in> set (snd live) then add_conflict (Val v) (Phys s) h else Some h) (fst live) g')"

definition rel_pref_step :: "nat \<times> nat list \<Rightarrow> graph \<Rightarrow> graph option" where
  "rel_pref_step e = ofold (\<lambda>v2 g.
     if is_node (Val (fst e)) g \<and> is_node (Val v2) g then add_pref (Val (fst e)) (Val v2) g else Some g) (snd e)"

definition abs_pref_step :: "nat list \<Rightarrow> nat \<times> spot list \<Rightarrow> graph \<Rightarrow> graph option" where
  "abs_pref_step free e = ofold (\<lambda>s g.
     if fst e \<in> set free
     then (case need_dummy s g of None \<Rightarrow> None | Some g' \<Rightarrow> add_pref (Val (fst e)) (Phys s) g')
     else Some g) (snd e)"

text \<open>The seven loops of one command, in order.\<close>

definition graph_cmd :: "nat list \<Rightarrow> cmd \<times> (nat list \<times> nat list) \<Rightarrow> graph \<Rightarrow> graph option" where
  "graph_cmd free cl g =
     (let c = fst cl; live = snd cl in
      Option.bind (conflict_pairs (fst live) g) (\<lambda>g.
      Option.bind (conflict_pairs (snd live) g) (\<lambda>g.
      Option.bind (ofold (rel_conf_step free) (c_rel_conf c) g) (\<lambda>g.
      Option.bind (ofold (abs_conf_step free) (c_abs_conf c) g) (\<lambda>g.
      Option.bind (ofold (clobber_step live) (c_clobber c) g) (\<lambda>g.
      Option.bind (ofold rel_pref_step (c_rel_pref c) g)
        (ofold (abs_pref_step free) (c_abs_pref c))))))))"

definition generate_graph :: "cmd list \<Rightarrow> nat list \<Rightarrow> live_sets \<Rightarrow> graph option" where
  "generate_graph cmds free live_vars =
     ofold (graph_cmd free) (zip cmds live_vars) (new_graph (map Val free))"

section \<open>The front half of \<open>_make_asm\<close>\<close>

record fn_spots =
  fs_map :: spot_map
  fs_mem :: mem_state
  fs_live :: live_sets
  fs_alloc :: spot_state

definition make_asm_spots ::
  "nat \<Rightarrow> spot list \<Rightarrow> val_types \<Rightarrow> frame \<Rightarrow> spot_map \<Rightarrow> cmd list \<Rightarrow> fn_spots run" where
  "make_asm_spots fuel alloc_regs ty fr gmap cmds =
     (let free0 = get_free_values cmds gmap;
          ms = fold (place_in_mem ty) (move_to_mem ty cmds free0)
                 \<lparr>ms_free = free0, ms_map = gmap, ms_frame = fr, ms_keys = []\<rparr>
      in case get_live_vars fuel cmds (ms_free ms) of
           KeyError \<Rightarrow> KeyError | OutOfFuel \<Rightarrow> OutOfFuel
         | Done lv \<Rightarrow>
           (case Option.bind (generate_graph cmds (ms_free ms) lv) (allocate alloc_regs (v_size ty) (ms_frame ms)) of
              None \<Rightarrow> KeyError
            | Some st \<Rightarrow> Done \<lparr>fs_map = ms_map ms ++ spotmap st, fs_mem = ms, fs_live = lv, fs_alloc = st\<rparr>))"

end
