(* ===== verification/LivenessSound.thy ===== *)
theory LivenessSound
  imports Liveness
begin

text \<open>
  The liveness iteration: what it returns satisfies the dataflow equations, so every value a path
  of the control flow still reads is live; the iteration ends on code that only jumps forward,
  and may go on for ever otherwise.
\<close>

section \<open>One command\<close>

lemma ofold_add_target:
  "ofold (add_target labels prev) ls cur = Some cur' \<Longrightarrow>
     set cur' = set cur \<union> {v. \<exists>l \<in> set ls. \<exists>j. labels l = Some j \<and> v \<in> set (fst (prev ! j))} \<and>
     (distinct cur \<longrightarrow> distinct cur') \<and> (\<forall>l \<in> set ls. labels l \<noteq> None)"
proof (induction ls arbitrary: cur)
  case (Cons l ls)
  obtain t where t: "add_target labels prev l cur = Some t" "ofold (add_target labels prev) ls t = Some cur'"
    using Cons.prems by (auto split: option.splits)
  then obtain j where j: "labels l = Some j"
    "ofold (add_target labels prev) ls (dset_add_all (fst (prev ! j)) cur) = Some cur'"
    by (auto simp: add_target_def split: option.splits)
  show ?case using Cons.IH [OF j(2)] j(1) by auto
qed simp

lemma fold_add_input:
  "set (fold (add_input free) ins cur) = set cur \<union> (set ins \<inter> set free) \<and>
     (distinct cur \<longrightarrow> distinct (fold (add_input free) ins cur))"
proof (induction ins arbitrary: cur)
  case (Cons v ins)
  have "set (add_input free v cur) = set cur \<union> ({v} \<inter> set free)" "distinct cur \<longrightarrow> distinct (add_input free v cur)"
    by (auto simp: add_input_def)
  then show ?case using Cons.IH [of "add_input free v cur"] by auto
qed simp

lemma fold_drop_output:
  "distinct (fst s) \<Longrightarrow>
     set (fst (fold (drop_output free) outs s)) = set (fst s) - (set outs \<inter> set free) \<and>
     distinct (fst (fold (drop_output free) outs s))"
proof (induction outs arbitrary: s)
  case (Cons v outs)
  have "distinct (fst (drop_output free v s))"
    "set (fst (drop_output free v s)) = set (fst s) - ({v} \<inter> set free)"
    using Cons.prems by (auto simp: drop_output_def set_remove1_eq)
  then show ?case using Cons.IH [of "drop_output free v s"] by auto
qed simp

lemma fold_drop_output_out:
  "distinct (fst s) \<Longrightarrow> distinct outs \<Longrightarrow>
     set (snd (fold (drop_output free) outs s)) = set (snd s) \<union> (set outs \<inter> set free - set (fst s)) \<and>
     (distinct (snd s) \<longrightarrow> set (snd s) \<inter> set outs \<subseteq> set (fst s) \<longrightarrow> distinct (snd (fold (drop_output free) outs s)))"
proof (induction outs arbitrary: s)
  case (Cons v outs)
  let ?t = "drop_output free v s"
  have d: "distinct (fst ?t)" using Cons.prems by (auto simp: drop_output_def)
  have f: "set (fst ?t) = set (fst s) - ({v} \<inter> set free)"
    using Cons.prems by (auto simp: drop_output_def set_remove1_eq)
  have s: "set (snd ?t) = set (snd s) \<union> ({v} \<inter> set free - set (fst s))"
    by (auto simp: drop_output_def)
  have e: "distinct (snd s) \<longrightarrow> set (snd s) \<inter> set (v # outs) \<subseteq> set (fst s) \<longrightarrow> distinct (snd ?t)"
    by (auto simp: drop_output_def)
  have "v \<notin> set outs" "distinct outs" using Cons.prems by simp_all
  then show ?case using Cons.IH [OF d] f s e by auto
qed simp

text \<open>The dataflow equations of one command.\<close>

lemma live_cmd_eqs:
  assumes "live_cmd labels prev free c cur = Some (li, lo)" and "distinct cur"
  shows "set li = (set cur \<union> {v. \<exists>l \<in> set (c_targets c). \<exists>j. labels l = Some j \<and> v \<in> set (fst (prev ! j))}
            \<union> (set (c_inputs c) \<inter> set free)) - (set (c_outputs c) \<inter> set free)"
    and "distinct li"
    and "set cur \<union> {v. \<exists>l \<in> set (c_targets c). \<exists>j. labels l = Some j \<and> v \<in> set (fst (prev ! j))} \<subseteq> set lo"
    and "distinct (c_outputs c) \<Longrightarrow> set lo = set cur \<union>
       {v. \<exists>l \<in> set (c_targets c). \<exists>j. labels l = Some j \<and> v \<in> set (fst (prev ! j))} \<union>
       (set (c_outputs c) \<inter> set free - set (c_inputs c))"
    and "distinct (c_outputs c) \<Longrightarrow> distinct lo"
    and "\<forall>l \<in> set (c_targets c). labels l \<noteq> None"
proof -
  let ?T = "{v. \<exists>l \<in> set (c_targets c). \<exists>j. labels l = Some j \<and> v \<in> set (fst (prev ! j))}"
  obtain out where o: "ofold (add_target labels prev) (c_targets c) cur = Some out"
    "fold (drop_output free) (c_outputs c) (fold (add_input free) (c_inputs c) out, out) = (li, lo)"
    using assms(1) by (auto simp: live_cmd_def)
  note T = ofold_add_target [OF o(1)]
  let ?s = "(fold (add_input free) (c_inputs c) out, out)"
  have dout: "distinct out" using T assms(2) by blast
  have s: "set (fst ?s) = set out \<union> (set (c_inputs c) \<inter> set free)" "distinct (fst ?s)"
    using fold_add_input [of free "c_inputs c" out] dout by auto
  note F = fold_drop_output [of ?s free "c_outputs c", OF s(2)]
  show "set li = (set cur \<union> ?T \<union> (set (c_inputs c) \<inter> set free)) - (set (c_outputs c) \<inter> set free)"
    using F o(2) s T by simp
  show "distinct li" using F o(2) by simp
  have mono: "set (snd t) \<subseteq> set (snd (fold (drop_output free) vs t))" for vs t
    by (induction vs arbitrary: t) (auto simp: drop_output_def subset_iff)
  show "set cur \<union> ?T \<subseteq> set lo" using mono [of ?s "c_outputs c"] o(2) T by simp
  show "\<forall>l \<in> set (c_targets c). labels l \<noteq> None" using T by blast
  assume d: "distinct (c_outputs c)"
  note G = fold_drop_output_out [of ?s "c_outputs c" free, OF s(2) d]
  have "set lo = set out \<union> (set (c_outputs c) \<inter> set free - set (fst ?s))" using G o(2) by simp
  then show "set lo = set cur \<union> ?T \<union> (set (c_outputs c) \<inter> set free - set (c_inputs c))"
    using s(1) T by auto
  show "distinct lo" using G o(2) dout s(1) by auto
qed

section \<open>The whole list\<close>

definition next_in :: "live_sets \<Rightarrow> nat \<Rightarrow> nat list" where
  "next_in lv i = (if Suc i < length lv then fst (lv ! Suc i) else [])"

lemma live_pass_nth:
  "live_pass labels prev free cmds = Some lv \<Longrightarrow> length lv = length cmds \<and>
     (\<forall>i < length cmds. live_cmd labels prev free (cmds ! i) (next_in lv i) = Some (lv ! i))"
proof (induction cmds arbitrary: lv)
  case (Cons c cs)
  obtain lv' p where l: "live_pass labels prev free cs = Some lv'" "lv = p # lv'"
    "live_cmd labels prev free c (case lv' of [] \<Rightarrow> [] | q # _ \<Rightarrow> fst q) = Some p"
    using Cons.prems by (auto split: option.splits)
  note IH = Cons.IH [OF l(1)]
  have z: "next_in lv 0 = (case lv' of [] \<Rightarrow> [] | q # _ \<Rightarrow> fst q)"
    using l(2) by (cases lv') (auto simp: next_in_def)
  have s: "next_in lv (Suc i) = next_in lv' i" for i using l(2) by (simp add: next_in_def)
  show ?case using IH l z s by (auto simp: less_Suc_eq_0_disj)
qed simp

lemma label_index_nth:
  "label_index cs k l = Some j \<Longrightarrow> k \<le> j \<and> j < k + length cs \<and> c_label (cs ! (j - k)) = Some l"
proof (induction cs arbitrary: k)
  case (Cons c cs)
  then show ?case
    by (auto simp: map_add_def nth_Cons' split: option.splits if_splits dest!: Cons.IH)
qed simp

text \<open>Live lists hold free values, each once.\<close>

definition live_ok :: "nat list \<Rightarrow> cmd list \<Rightarrow> live_sets \<Rightarrow> bool" where
  "live_ok free cmds lv = (length lv = length cmds \<and>
     (\<forall>p \<in> set lv. set (fst p) \<subseteq> set free \<and> distinct (fst p) \<and> set (snd p) \<subseteq> set free \<and> distinct (snd p)))"

lemma live_ok_nth:
  "live_ok free cmds lv \<Longrightarrow> i < length cmds \<Longrightarrow> set (fst (lv ! i)) \<subseteq> set free \<and> distinct (fst (lv ! i)) \<and>
     set (snd (lv ! i)) \<subseteq> set free \<and> distinct (snd (lv ! i))"
  unfolding live_ok_def by simp

lemma live_pass_ok:
  assumes p: "live_pass (label_index cmds 0) prev free cmds = Some lv" and ok: "live_ok free cmds prev"
    and d: "\<forall>c \<in> set cmds. distinct (c_outputs c)"
  shows "live_ok free cmds lv"
proof -
  note L = live_pass_nth [OF p]
  have "set (fst (lv ! i)) \<subseteq> set free \<and> distinct (fst (lv ! i)) \<and>
     set (snd (lv ! i)) \<subseteq> set free \<and> distinct (snd (lv ! i))" if "i < length cmds" for i
    using that
  proof (induction "length cmds - i" arbitrary: i)
    case (Suc k)
    let ?c = "cmds ! i" and ?n = "next_in lv i"
    have n: "set ?n \<subseteq> set free" "distinct ?n"
      using Suc.hyps(1) [of "Suc i"] Suc.hyps(2) L
      by (cases "Suc i < length cmds"; simp add: next_in_def)+
    have e: "live_cmd (label_index cmds 0) prev free ?c ?n = Some (fst (lv ! i), snd (lv ! i))"
      using L Suc.prems by simp
    have t: "set (fst (prev ! j)) \<subseteq> set free" if "label_index cmds 0 l = Some j" for l j
      using label_index_nth [OF that] live_ok_nth [OF ok] by simp
    have "distinct (c_outputs ?c)" using d Suc.prems by simp
    with live_cmd_eqs [OF e n(2)] n(1) t show ?case by blast
  qed simp
  then show ?thesis using L unfolding live_ok_def by (metis in_set_conv_nth)
qed

definition fixed_point :: "nat list \<Rightarrow> cmd list \<Rightarrow> live_sets \<Rightarrow> bool" where
  "fixed_point free cmds lv = (live_ok free cmds lv \<and> live_pass (label_index cmds 0) lv free cmds = Some lv)"

lemma live_loop_fixed:
  "live_loop f (label_index cmds 0) free cmds prev lv = Done r \<Longrightarrow> live_ok free cmds lv \<Longrightarrow>
     (\<And>p. prev = Some p \<Longrightarrow> live_pass (label_index cmds 0) p free cmds = Some lv) \<Longrightarrow>
     \<forall>c \<in> set cmds. distinct (c_outputs c) \<Longrightarrow> fixed_point free cmds r"
proof (induction f arbitrary: prev lv)
  case (Suc f)
  show ?case
  proof (cases "prev = Some lv")
    case True
    then show ?thesis using Suc.prems by (simp add: fixed_point_def)
  next
    case False
    then obtain lv' where l: "live_pass (label_index cmds 0) lv free cmds = Some lv'"
      "live_loop f (label_index cmds 0) free cmds (Some lv) lv' = Done r"
      using Suc.prems(1) by (auto split: option.splits)
    show ?thesis
      by (rule Suc.IH [OF l(2) live_pass_ok [OF l(1) Suc.prems(2,4)] _ Suc.prems(4)]) (use l(1) in simp)
  qed
qed simp

lemma get_live_vars_fixed:
  assumes "get_live_vars fuel cmds free = Done lv" and "\<forall>c \<in> set cmds. distinct (c_outputs c)"
  shows "fixed_point free cmds lv"
  using live_loop_fixed [OF assms(1) [unfolded get_live_vars_def] _ _ assms(2)]
  by (simp add: live_ok_def)

section \<open>Every value still needed is live\<close>

text \<open>\<open>needed cmds v i\<close>: some path of the control flow from command \<open>i\<close> reads \<open>v\<close> before it is
  written.\<close>

inductive needed :: "cmd list \<Rightarrow> nat \<Rightarrow> nat \<Rightarrow> bool" for cmds v where
  use: "i < length cmds \<Longrightarrow> v \<in> set (c_inputs (cmds ! i)) \<Longrightarrow> needed cmds v i"
| step: "i < length cmds \<Longrightarrow> v \<notin> set (c_outputs (cmds ! i)) \<Longrightarrow> needed cmds v (Suc i) \<Longrightarrow> needed cmds v i"
| jump: "i < length cmds \<Longrightarrow> v \<notin> set (c_outputs (cmds ! i)) \<Longrightarrow> l \<in> set (c_targets (cmds ! i)) \<Longrightarrow>
    label_index cmds 0 l = Some j \<Longrightarrow> needed cmds v j \<Longrightarrow> needed cmds v i"

inductive_cases neededE: "needed cmds v i"

text \<open>No command updates a value in place (the passes of the compiler keep to that, see
  \<open>strength_reduce_ivs\<close>), and none lists an output twice.\<close>

definition plain_cmds :: "cmd list \<Rightarrow> bool" where
  "plain_cmds cmds = (\<forall>c \<in> set cmds. set (c_inputs c) \<inter> set (c_outputs c) = {} \<and> distinct (c_outputs c))"

lemma fixed_point_cmd:
  assumes "fixed_point free cmds lv" and "i < length cmds"
  shows "live_cmd (label_index cmds 0) lv free (cmds ! i) (next_in lv i) = Some (fst (lv ! i), snd (lv ! i))"
    and "distinct (next_in lv i)"
  using assms live_pass_nth [of "label_index cmds 0" lv free cmds lv]
  by (auto simp: fixed_point_def next_in_def live_ok_def)

lemma needed_live:
  assumes "needed cmds v i" and fp: "fixed_point free cmds lv" and pl: "plain_cmds cmds" and v: "v \<in> set free"
  shows "v \<in> set (fst (lv ! i))"
  using assms(1)
proof (induction rule: needed.induct)
  case (use i)
  note E = live_cmd_eqs(1) [OF fixed_point_cmd(1) [OF fp use(1)] fixed_point_cmd(2) [OF fp use(1)]]
  have "v \<notin> set (c_outputs (cmds ! i))" using pl use by (auto simp: plain_cmds_def)
  then show ?case using E use v by auto
next
  case (step i)
  note E = live_cmd_eqs(1) [OF fixed_point_cmd(1) [OF fp step(1)] fixed_point_cmd(2) [OF fp step(1)]]
  have "Suc i < length cmds" using step(3) by (auto elim: neededE)
  then have "v \<in> set (next_in lv i)" using step.IH fp by (simp add: next_in_def fixed_point_def live_ok_def)
  then show ?case using E step(2) by auto
next
  case (jump i l j)
  note E = live_cmd_eqs(1) [OF fixed_point_cmd(1) [OF fp jump(1)] fixed_point_cmd(2) [OF fp jump(1)]]
  show ?case using E jump by blast
qed

text \<open>Live on exit: needed by a successor.\<close>

definition needed_after :: "cmd list \<Rightarrow> nat \<Rightarrow> nat \<Rightarrow> bool" where
  "needed_after cmds v i = (needed cmds v (Suc i) \<or>
     (\<exists>l \<in> set (c_targets (cmds ! i)). \<exists>j. label_index cmds 0 l = Some j \<and> needed cmds v j))"

lemma needed_after_live:
  assumes n: "needed_after cmds v i" and fp: "fixed_point free cmds lv" and pl: "plain_cmds cmds"
    and v: "v \<in> set free" and i: "i < length cmds"
  shows "v \<in> set (snd (lv ! i))"
proof -
  note E = live_cmd_eqs(3) [OF fixed_point_cmd(1) [OF fp i] fixed_point_cmd(2) [OF fp i]]
  show ?thesis
  proof (cases "needed cmds v (Suc i)")
    case True
    then have "Suc i < length cmds" by (auto elim: neededE)
    then have "v \<in> set (next_in lv i)"
      using needed_live [OF True fp pl v] fp by (simp add: next_in_def fixed_point_def live_ok_def)
    then show ?thesis using E by blast
  next
    case False
    then obtain l j where "l \<in> set (c_targets (cmds ! i))" "label_index cmds 0 l = Some j" "needed cmds v j"
      using n unfolding needed_after_def by blast
    then show ?thesis using needed_live [OF _ fp pl v] E by blast
  qed
qed

lemma written_live:
  assumes fp: "fixed_point free cmds lv" and pl: "plain_cmds cmds" and i: "i < length cmds"
    and v: "v \<in> set free" "v \<in> set (c_outputs (cmds ! i))"
  shows "v \<in> set (snd (lv ! i))"
proof -
  have d: "distinct (c_outputs (cmds ! i))" and n: "v \<notin> set (c_inputs (cmds ! i))"
    using pl i v(2) by (auto simp: plain_cmds_def)
  show ?thesis using live_cmd_eqs(4) [OF fixed_point_cmd(1) [OF fp i] fixed_point_cmd(2) [OF fp i] d] v n by blast
qed

text \<open>C4: Liveness is sound: whatever the iteration of \<open>_get_live_vars\<close> returns, a free value that some
  path of the control flow from a command still reads before writing it is among the values live
  on input to that command, and every value the command writes or a successor still needs is among
  those live on output.\<close>

theorem live_vars_sound:
  assumes "get_live_vars fuel cmds free = Done lv" and "plain_cmds cmds"
    and "i < length cmds" and "v \<in> set free"
  shows "(needed cmds v i \<longrightarrow> v \<in> set (fst (lv ! i))) \<and>
    (needed_after cmds v i \<or> v \<in> set (c_outputs (cmds ! i)) \<longrightarrow> v \<in> set (snd (lv ! i)))"
proof -
  have "\<forall>c \<in> set cmds. distinct (c_outputs c)" using assms(2) by (simp add: plain_cmds_def)
  with assms(1) have fp: "fixed_point free cmds lv" by (rule get_live_vars_fixed)
  show ?thesis
    using needed_live [OF _ fp assms(2,4)] needed_after_live [OF _ fp assms(2,4,3)]
      written_live [OF fp assms(2,3,4)] by blast
qed

definition sample_cmds :: "cmd list" where
  "sample_cmds = [il_command [] [1], il_command [1] [2], il_command [1, 2] [3], il_command [3] []]"

theorem live_vars_sound_witness:
  "\<exists>lv. get_live_vars 5 sample_cmds [1, 2, 3] = Done lv \<and> 1 \<in> set (fst (lv ! 1)) \<and> 2 \<in> set (snd (lv ! 1))"
proof -
  have "get_live_vars 5 sample_cmds [1, 2, 3] =
      Done [([], [1]), ([1], [1, 2]), ([1, 2], [3]), ([3], [])]" by code_simp
  then obtain lv where lv: "get_live_vars 5 sample_cmds [1, 2, 3] = Done lv" by blast
  have pl: "plain_cmds sample_cmds" by (simp add: plain_cmds_def sample_cmds_def il_command_def)
  have i: "1 < length sample_cmds" by (simp add: sample_cmds_def)
  have n: "needed sample_cmds 1 1" by (rule needed.use) (simp_all add: sample_cmds_def il_command_def)
  have o: "2 \<in> set (c_outputs (sample_cmds ! 1))" by (simp add: sample_cmds_def il_command_def)
  show ?thesis
    using lv live_vars_sound [OF lv pl i, of 1] live_vars_sound [OF lv pl i, of 2] n o by auto
qed

section \<open>Ending, and not ending\<close>

text \<open>The rounds agree on a growing tail of the list when every jump goes forward.\<close>

definition forward_jumps :: "cmd list \<Rightarrow> bool" where
  "forward_jumps cmds = (\<forall>i < length cmds. \<forall>l \<in> set (c_targets (cmds ! i)).
     \<exists>j. label_index cmds 0 l = Some j \<and> i < j)"

definition agree_tail :: "nat \<Rightarrow> live_sets \<Rightarrow> live_sets \<Rightarrow> bool" where
  "agree_tail m p q = (length p = length q \<and> (\<forall>j < length p. length p \<le> j + m \<longrightarrow> p ! j = q ! j))"

lemma ofold_add_target_cong:
  assumes "\<And>l. l \<in> set ls \<Longrightarrow> \<exists>j. labels l = Some j \<and> p ! j = q ! j"
  shows "ofold (add_target labels p) ls cur = ofold (add_target labels q) ls cur"
  using assms
proof (induction ls arbitrary: cur)
  case (Cons l ls)
  have l: "\<exists>j. labels l = Some j \<and> p ! j = q ! j" by (rule Cons.prems) simp
  then obtain j where "labels l = Some j" "p ! j = q ! j" by blast
  then show ?case using Cons by (simp add: add_target_def)
qed simp

lemma live_pass_agree:
  assumes f: "forward_jumps cmds" and a: "agree_tail m p q" and n: "length p = length cmds"
    and pq: "live_pass (label_index cmds 0) p free cmds = Some p'"
      "live_pass (label_index cmds 0) q free cmds = Some q'"
  shows "agree_tail (Suc m) p' q'"
proof -
  note P = live_pass_nth [OF pq(1)] and Q = live_pass_nth [OF pq(2)]
  have "p' ! i = q' ! i" if "i < length cmds" "length cmds \<le> i + Suc m" for i
    using that
  proof (induction "length cmds - i" arbitrary: i)
    case (Suc k)
    have nx: "next_in p' i = next_in q' i"
      using Suc.hyps(1) [of "Suc i"] Suc.hyps(2) Suc.prems P Q
      by (cases "Suc i < length cmds") (simp_all add: next_in_def)
    have "\<exists>j. label_index cmds 0 l = Some j \<and> p ! j = q ! j" if l: "l \<in> set (c_targets (cmds ! i))" for l
    proof -
      obtain j where j: "label_index cmds 0 l = Some j" "i < j"
        using f l Suc.prems(1) unfolding forward_jumps_def by blast
      then have "j < length cmds" using label_index_nth by fastforce
      then show ?thesis using j a n Suc.prems(2) by (simp add: agree_tail_def)
    qed
    then have "ofold (add_target (label_index cmds 0) p) (c_targets (cmds ! i)) (next_in q' i) =
        ofold (add_target (label_index cmds 0) q) (c_targets (cmds ! i)) (next_in q' i)"
      by (rule ofold_add_target_cong)
    then have "live_cmd (label_index cmds 0) p free (cmds ! i) (next_in p' i) =
        live_cmd (label_index cmds 0) q free (cmds ! i) (next_in q' i)"
      unfolding live_cmd_def nx by simp
    then show ?case using P Q Suc.prems(1) by simp
  qed simp
  then show ?thesis using P Q by (simp add: agree_tail_def)
qed

lemma ofold_add_target_total:
  "(\<And>l. l \<in> set ls \<Longrightarrow> labels l \<noteq> None) \<Longrightarrow> \<exists>cur'. ofold (add_target labels prev) ls cur = Some cur'"
proof (induction ls arbitrary: cur)
  case (Cons l ls)
  then obtain j where "labels l = Some j" by fastforce
  then show ?case using Cons by (simp add: add_target_def)
qed simp

lemma live_pass_total:
  assumes "\<And>c l. c \<in> set cs \<Longrightarrow> l \<in> set (c_targets c) \<Longrightarrow> labels l \<noteq> None"
  shows "\<exists>lv. live_pass labels prev free cs = Some lv"
  using assms
proof (induction cs)
  case (Cons c cs)
  then obtain lv where lv: "live_pass labels prev free cs = Some lv" by auto
  obtain o' where "ofold (add_target labels prev) (c_targets c) (case lv of [] \<Rightarrow> [] | p # _ \<Rightarrow> fst p) = Some o'"
    using ofold_add_target_total [of "c_targets c" labels prev] Cons.prems by fastforce
  then show ?case using lv by (simp add: live_cmd_def)
qed simp

lemma forward_labels:
  "forward_jumps cmds \<Longrightarrow> c \<in> set cmds \<Longrightarrow> l \<in> set (c_targets c) \<Longrightarrow> label_index cmds 0 l \<noteq> None"
  unfolding forward_jumps_def by (metis in_set_conv_nth option.distinct(1))

lemma live_loop_forward:
  assumes f: "forward_jumps cmds"
  shows "agree_tail m p lv \<Longrightarrow> length p = length cmds \<Longrightarrow>
    live_pass (label_index cmds 0) p free cmds = Some lv \<Longrightarrow> length cmds \<le> m + k \<Longrightarrow>
    \<exists>r. live_loop (Suc k) (label_index cmds 0) free cmds (Some p) lv = Done r"
proof (induction k arbitrary: m p lv)
  case 0
  then have "p = lv" by (auto simp: agree_tail_def intro: nth_equalityI)
  then show ?case by simp
next
  case (Suc k)
  show ?case
  proof (cases "p = lv")
    case False
    obtain lv' where lv': "live_pass (label_index cmds 0) lv free cmds = Some lv'"
      using live_pass_total [of cmds] forward_labels [OF f] by blast
    have "agree_tail (Suc m) lv lv'" by (rule live_pass_agree [OF f Suc.prems(1,2,3) lv'])
    moreover have "length lv = length cmds" using live_pass_nth [OF Suc.prems(3)] by simp
    ultimately show ?thesis using Suc.IH [of "Suc m" lv lv'] Suc.prems(4) lv' False by simp
  qed simp
qed

lemma forward_returns:
  assumes "forward_jumps cmds"
  shows "\<exists>lv. get_live_vars (length cmds + 2) cmds free = Done lv"
proof -
  let ?z = "replicate (length cmds) ([], []) :: live_sets"
  obtain lv where lv: "live_pass (label_index cmds 0) ?z free cmds = Some lv"
    using live_pass_total [of cmds] forward_labels [OF assms] by blast
  have "agree_tail 0 ?z lv" using live_pass_nth [OF lv] by (simp add: agree_tail_def)
  from live_loop_forward [OF assms this _ lv, of "length cmds"] obtain r where
    "live_loop (Suc (length cmds)) (label_index cmds 0) free cmds (Some ?z) lv = Done r" by auto
  then show ?thesis using lv by (simp add: get_live_vars_def)
qed

text \<open>C27: The liveness iteration ends on code whose jumps all go forward, after at most one round
  more than there are commands.\<close>

theorem forward_liveness_returns:
  assumes "forward_jumps cmds"
  shows "\<exists>lv. get_live_vars (length cmds + 2) cmds free = Done lv"
  using assms by (rule forward_returns)

theorem forward_liveness_returns_witness:
  "\<exists>lv. get_live_vars 6 sample_cmds [1, 2, 3] = Done lv"
proof -
  have "forward_jumps sample_cmds"
    by (simp add: forward_jumps_def sample_cmds_def il_command_def nth_Cons')
  moreover have "length sample_cmds + 2 = 6" by (simp add: sample_cmds_def)
  ultimately show ?thesis using forward_liveness_returns [of sample_cmds "[1, 2, 3]"] by metis
qed

text \<open>
  The function \<open>int g; int f() { int x; int y; goto C; A: g = x; g = y; goto B; C: x = 1; y = 1;
  B: g = y; g = x; goto A; }\<close> as the compiler lowers it: \<open>x\<close> is 1, \<open>y\<close> is 2, \<open>g\<close> is 3 and the
  constant is 4.
\<close>

definition jump_cmd :: "string \<Rightarrow> cmd" where
  "jump_cmd l = (il_command [] [])\<lparr>c_targets := [l]\<rparr>"

definition label_cmd :: "string \<Rightarrow> cmd" where
  "label_cmd l = (il_command [] [])\<lparr>c_label := Some l\<rparr>"

definition set_cmd :: "nat \<Rightarrow> nat \<Rightarrow> cmd" where
  "set_cmd out arg = (il_command [arg] [out])\<lparr>c_rel_pref := [(out, [arg])]\<rparr>"

definition swap_loop :: "cmd list" where
  "swap_loop = [jump_cmd ''C'', label_cmd ''A'', set_cmd 3 1, set_cmd 3 2, jump_cmd ''B'',
     label_cmd ''C'', set_cmd 1 4, set_cmd 2 4,
     label_cmd ''B'', set_cmd 3 2, set_cmd 3 1, jump_cmd ''A'']"

definition swap_a :: live_sets where
  "swap_a = [([1, 2], [1, 2]), ([1, 2], [1, 2]), ([1, 2], [1, 2]), ([1, 2], [1, 2]),
     ([1, 2], [1, 2]), ([], []), ([], [1]), ([1], [2, 1]), ([2, 1], [2, 1]),
     ([2, 1], [2, 1]), ([2, 1], [2, 1]), ([2, 1], [2, 1])]"

definition swap_b :: live_sets where
  "swap_b = [([2, 1], [2, 1]), ([2, 1], [2, 1]), ([2, 1], [2, 1]), ([2, 1], [2, 1]),
     ([2, 1], [2, 1]), ([], []), ([], [1]), ([1], [1, 2]), ([1, 2], [1, 2]),
     ([1, 2], [1, 2]), ([1, 2], [1, 2]), ([1, 2], [1, 2])]"

lemma swap_rounds:
  "live_pass (label_index swap_loop 0) swap_a [1, 2] swap_loop = Some swap_b"
  "live_pass (label_index swap_loop 0) swap_b [1, 2] swap_loop = Some swap_a"
  by code_simp+

lemma swap_for_ever:
  "live_loop n (label_index swap_loop 0) [1, 2] swap_loop (Some swap_b) swap_a = OutOfFuel \<and>
   live_loop n (label_index swap_loop 0) [1, 2] swap_loop (Some swap_a) swap_b = OutOfFuel"
proof (induction n)
  case (Suc n)
  have "swap_a \<noteq> swap_b" by (simp add: swap_a_def swap_b_def)
  then show ?case using Suc swap_rounds by simp
qed simp

definition swap_0 :: live_sets where
  "swap_0 = [([2, 1], [2, 1]), ([2, 1], [2, 1]), ([2, 1], [2]), ([2], []), ([], []),
     ([], []), ([], [1]), ([1], [1, 2]), ([1, 2], [1, 2]), ([1, 2], [1]), ([1], []), ([], [])]"

lemma swap_start:
  "live_pass (label_index swap_loop 0) (replicate (length swap_loop) ([], [])) [1, 2] swap_loop = Some swap_0"
  "live_pass (label_index swap_loop 0) swap_0 [1, 2] swap_loop = Some swap_a"
  by code_simp+

lemma swap_out_of_fuel: "get_live_vars fuel swap_loop [1, 2] = OutOfFuel"
proof -
  have ne: "replicate (length swap_loop) ([], []) \<noteq> swap_0" "swap_0 \<noteq> swap_a" "swap_a \<noteq> swap_b"
    by (simp_all add: swap_0_def swap_a_def swap_b_def swap_loop_def)
  consider "fuel = 0" | "fuel = 1" | "fuel = 2" | k where "fuel = Suc (Suc (Suc k))"
    by (metis One_nat_def Suc_1 not0_implies_Suc)
  then show ?thesis
    by cases (use ne swap_start swap_rounds swap_for_ever in
      \<open>simp_all add: get_live_vars_def numeral_2_eq_2\<close>)
qed

text \<open>C34: The liveness iteration does not always end: it compares the lists of live values with their
  order, and on this function, whose two loops read \<open>x\<close> and \<open>y\<close> in opposite orders, every round
  swaps the order again, so register allocation returns for no amount of fuel.\<close>

theorem liveness_oscillates:
  "make_asm_spots fuel registers \<lparr>v_size = (\<lambda>_. 4), v_floating = (\<lambda>_. False)\<rparr> empty_frame
     [Val 3 \<mapsto> MemSpot (BaseSym ''g'') 0 0 None, Val 4 \<mapsto> LiteralSpot (LInt 1)] swap_loop = OutOfFuel"
proof -
  let ?gmap = "[Val 3 \<mapsto> MemSpot (BaseSym ''g'') 0 0 None, Val 4 \<mapsto> LiteralSpot (LInt 1)]"
  have free: "get_free_values swap_loop ?gmap = [1, 2]"
    by (simp add: get_free_values_def swap_loop_def jump_cmd_def label_cmd_def set_cmd_def il_command_def add_free_def)
  have mem: "move_to_mem \<lparr>v_size = (\<lambda>_. 4), v_floating = (\<lambda>_. False)\<rparr> swap_loop [1, 2] = []"
    by (simp add: move_to_mem_def swap_loop_def jump_cmd_def label_cmd_def set_cmd_def il_command_def)
  have "get_live_vars fuel swap_loop [1, 2] = OutOfFuel"
    by (rule swap_out_of_fuel)
  then show ?thesis unfolding make_asm_spots_def free Let_def mem by simp
qed

end
