(* ===== verification/FunctionSpots.thy ===== *)
theory FunctionSpots
  imports LivenessSound
begin

text \<open>
  From a command list to its spots: the conflict graph of \<open>_generate_graph\<close> contains every pair of
  values alive together, and so the assignment of \<open>_make_asm\<close> never lets one such value destroy
  another.
\<close>

section \<open>Growing the conflict graph\<close>

definition graph_ok :: "nat list \<Rightarrow> spot list \<Rightarrow> graph \<Rightarrow> bool" where
  "graph_ok free regs g = (wf_graph g \<and> real_nodes g = map Val free \<and>
     (\<forall>n \<in> set (all_nodes g). n \<in> Val ` set free \<or> n \<in> Phys ` set regs))"

definition ext :: "graph \<Rightarrow> graph \<Rightarrow> bool" where
  "ext g g' = (set (all_nodes g) \<subseteq> set (all_nodes g') \<and> (\<forall>x y. cedge g x y \<longrightarrow> cedge g' x y))"

lemma ext_refl: "ext g g" by (simp add: ext_def)

lemma ext_trans: "ext g h \<Longrightarrow> ext h k \<Longrightarrow> ext g k" by (auto simp: ext_def)

lemma ext_edge: "cedge g x y \<Longrightarrow> ext g g' \<Longrightarrow> cedge g' x y" by (simp add: ext_def)

lemma graph_ok_val: "graph_ok free regs g \<Longrightarrow> v \<in> set free \<Longrightarrow> Val v \<in> set (all_nodes g)"
  using wf_graphD(3) [of g] by (auto simp: graph_ok_def)

lemma graph_ok_new: "distinct free \<Longrightarrow> graph_ok free regs (new_graph (map Val free))"
  by (auto simp: graph_ok_def distinct_map inj_on_def intro!: new_graph_wf) (auto simp: new_graph_def)

lemma graph_ok_input:
  assumes "graph_ok free regs g" and "distinct regs" "set regs \<subseteq> set registers"
    and "\<And>v. v \<in> set free \<Longrightarrow> 0 < sz v"
  shows "alloc_input regs sz g"
  using assms by (auto simp: graph_ok_def alloc_input_def typed_graph_def is_phys_def)

lemma add_conflict_ok:
  assumes "graph_ok free regs g" "a \<in> set (all_nodes g)" "b \<in> set (all_nodes g)" "a \<noteq> b"
  shows "\<exists>g'. add_conflict a b g = Some g' \<and> graph_ok free regs g' \<and> ext g g' \<and> cedge g' a b \<and> cedge g' b a"
  using add_conflict_spec [of g a b] assms by (fastforce simp: graph_ok_def ext_def same_nodes_def)

lemma add_pref_ok:
  assumes "graph_ok free regs g" "a \<in> set (all_nodes g)" "b \<in> set (all_nodes g)" "a \<noteq> b"
  shows "\<exists>g'. add_pref a b g = Some g' \<and> graph_ok free regs g' \<and> ext g g'"
  using add_pref_spec [of g a b] assms by (fastforce simp: graph_ok_def ext_def same_nodes_def cedge_def)

lemma need_dummy_ok:
  assumes "graph_ok free regs g" "s \<in> set regs"
  shows "\<exists>g'. need_dummy s g = Some g' \<and> graph_ok free regs g' \<and> ext g g' \<and> Phys s \<in> set (all_nodes g')"
proof (cases "Phys s \<in> set (all_nodes g)")
  case True
  then show ?thesis using assms by (simp add: need_dummy_def ext_refl)
next
  case False
  have "wf_graph g" using assms(1) by (simp add: graph_ok_def)
  from add_dummy_node_spec [OF this False] obtain g' where
    "add_dummy_node (Phys s) g = Some g'" "wf_graph g'" "real_nodes g' = real_nodes g"
    "all_nodes g' = all_nodes g @ [Phys s]" "\<forall>x y. cedge g x y \<longrightarrow> cedge g' x y" by blast
  then show ?thesis using assms False by (auto simp: need_dummy_def graph_ok_def ext_def)
qed

lemma conflict_pairs_ok:
  "graph_ok free regs g \<Longrightarrow> distinct xs \<Longrightarrow> set xs \<subseteq> set free \<Longrightarrow>
     \<exists>g'. conflict_pairs xs g = Some g' \<and> graph_ok free regs g' \<and> ext g g' \<and>
       (\<forall>x \<in> set xs. \<forall>y \<in> set xs. x \<noteq> y \<longrightarrow> cedge g' (Val x) (Val y))"
proof (induction xs arbitrary: g)
  case (Cons x xs)
  have "\<exists>g'. ofold (\<lambda>y. add_conflict (Val x) (Val y)) xs g = Some g' \<and> graph_ok free regs g' \<and> ext g g' \<and>
      (\<forall>y \<in> set xs. cedge g' (Val x) (Val y) \<and> cedge g' (Val y) (Val x))"
  proof (rule ofold_collect)
    fix y h assume "y \<in> set xs" "graph_ok free regs h"
    then show "\<exists>h'. add_conflict (Val x) (Val y) h = Some h' \<and> graph_ok free regs h' \<and> ext h h' \<and>
      cedge h' (Val x) (Val y) \<and> cedge h' (Val y) (Val x)"
      using Cons.prems by (intro add_conflict_ok) (auto intro: graph_ok_val)
  qed (use Cons.prems(1) in \<open>auto intro: ext_refl ext_trans ext_edge\<close>)
  then obtain h where h: "ofold (\<lambda>y. add_conflict (Val x) (Val y)) xs g = Some h" "graph_ok free regs h" "ext g h"
    "\<forall>y \<in> set xs. cedge h (Val x) (Val y) \<and> cedge h (Val y) (Val x)" by blast
  obtain k where "conflict_pairs xs h = Some k" "graph_ok free regs k" "ext h k"
    "\<forall>x \<in> set xs. \<forall>y \<in> set xs. x \<noteq> y \<longrightarrow> cedge k (Val x) (Val y)"
    using Cons.IH [OF h(2)] Cons.prems by auto
  then show ?case using h ext_trans [OF h(3)] ext_edge [of h _ _ k] by auto
qed (simp add: ext_refl)

text \<open>What a command asks of the registers it names.\<close>

definition cmd_ok :: "spot list \<Rightarrow> cmd \<Rightarrow> bool" where
  "cmd_ok regs c = (set (c_clobber c) \<subseteq> set regs \<and>
     (\<forall>e \<in> set (c_rel_conf c). fst e \<notin> set (snd e)) \<and> (\<forall>e \<in> set (c_abs_conf c). set (snd e) \<subseteq> set regs) \<and>
     (\<forall>e \<in> set (c_rel_pref c). fst e \<notin> set (snd e)) \<and> (\<forall>e \<in> set (c_abs_pref c). set (snd e) \<subseteq> set regs))"

lemmas collect_ext = ofold_collect [where R = ext and P = "graph_ok free regs" for free regs, OF _ _ ext_refl ext_trans]

lemma rel_conf_ok:
  assumes "graph_ok free regs g" "fst e \<notin> set (snd e)"
  shows "\<exists>g'. rel_conf_step free e g = Some g' \<and> graph_ok free regs g' \<and> ext g g' \<and>
    (\<forall>nb \<in> set (snd e). fst e \<in> set free \<and> nb \<in> set free \<longrightarrow> cedge g' (Val (fst e)) (Val nb))"
  unfolding rel_conf_step_def
proof (rule collect_ext [OF assms(1)])
  fix nb h assume nb: "nb \<in> set (snd e)" and h: "graph_ok free regs h"
  have "fst e \<noteq> nb" using nb assms(2) by blast
  then show "\<exists>h'. (if fst e \<in> set free \<and> nb \<in> set free then add_conflict (Val (fst e)) (Val nb) h else Some h) = Some h' \<and>
      graph_ok free regs h' \<and> ext h h' \<and> (fst e \<in> set free \<and> nb \<in> set free \<longrightarrow> cedge h' (Val (fst e)) (Val nb))"
    using add_conflict_ok [OF h graph_ok_val [OF h] graph_ok_val [OF h], of "fst e" nb] h ext_refl by auto
qed (auto intro: ext_edge)

lemma abs_conf_ok:
  assumes "graph_ok free regs g" "set (snd e) \<subseteq> set regs"
  shows "\<exists>g'. abs_conf_step free e g = Some g' \<and> graph_ok free regs g' \<and> ext g g' \<and>
    (\<forall>s \<in> set (snd e). fst e \<in> set free \<longrightarrow> cedge g' (Val (fst e)) (Phys s))"
  unfolding abs_conf_step_def
proof (rule collect_ext [OF assms(1)])
  fix s h assume s: "s \<in> set (snd e)" and h: "graph_ok free regs h"
  obtain h1 where h1: "need_dummy s h = Some h1" "graph_ok free regs h1" "ext h h1" "Phys s \<in> set (all_nodes h1)"
    using need_dummy_ok [OF h] s assms(2) by blast
  show "\<exists>h'. (if fst e \<in> set free then case need_dummy s h of None \<Rightarrow> None
        | Some g' \<Rightarrow> add_conflict (Val (fst e)) (Phys s) g' else Some h) = Some h' \<and>
      graph_ok free regs h' \<and> ext h h' \<and> (fst e \<in> set free \<longrightarrow> cedge h' (Val (fst e)) (Phys s))"
    using add_conflict_ok [OF h1(2) graph_ok_val [OF h1(2)] h1(4), of "fst e"] h h1 ext_refl ext_trans [OF h1(3)] by auto
qed (auto intro: ext_edge)

lemma clobber_ok:
  assumes "graph_ok free regs g" "s \<in> set regs" "set (fst live) \<subseteq> set free"
  shows "\<exists>g'. clobber_step live s g = Some g' \<and> graph_ok free regs g' \<and> ext g g' \<and>
    (\<forall>v \<in> set (fst live). v \<in> set (snd live) \<longrightarrow> cedge g' (Val v) (Phys s))"
proof -
  obtain h1 where h1: "need_dummy s g = Some h1" "graph_ok free regs h1" "ext g h1" "Phys s \<in> set (all_nodes h1)"
    using need_dummy_ok [OF assms(1,2)] by blast
  have "\<exists>g'. ofold (\<lambda>v h. if v \<in> set (snd live) then add_conflict (Val v) (Phys s) h else Some h) (fst live) h1 = Some g' \<and>
      (graph_ok free regs g' \<and> Phys s \<in> set (all_nodes g')) \<and> ext h1 g' \<and>
      (\<forall>v \<in> set (fst live). v \<in> set (snd live) \<longrightarrow> cedge g' (Val v) (Phys s))"
  proof (rule ofold_collect [where R = ext, OF _ _ ext_refl ext_trans])
    fix v h assume "v \<in> set (fst live)" "graph_ok free regs h \<and> Phys s \<in> set (all_nodes h)"
    then show "\<exists>h'. (if v \<in> set (snd live) then add_conflict (Val v) (Phys s) h else Some h) = Some h' \<and>
        (graph_ok free regs h' \<and> Phys s \<in> set (all_nodes h')) \<and> ext h h' \<and>
        (v \<in> set (snd live) \<longrightarrow> cedge h' (Val v) (Phys s))"
      using add_conflict_ok [of free regs h "Val v" "Phys s"] graph_ok_val [of free regs h v] assms(3) ext_refl
      by (auto simp: ext_def)
  qed (use h1 in \<open>auto intro: ext_edge\<close>)
  then show ?thesis using h1 ext_trans [OF h1(3)] by (auto simp: clobber_step_def)
qed

lemma rel_pref_ok:
  assumes "graph_ok free regs g" "fst e \<notin> set (snd e)"
  shows "\<exists>g'. rel_pref_step e g = Some g' \<and> graph_ok free regs g' \<and> ext g g' \<and> (\<forall>v \<in> set (snd e). True)"
  unfolding rel_pref_step_def
proof (rule collect_ext [OF assms(1)])
  fix v h assume v: "v \<in> set (snd e)" and h: "graph_ok free regs h"
  have n: "n \<in> set (all_nodes h)" if "is_node n h" for n
    using that h wf_graphD(4) [of h] by (auto simp: graph_ok_def is_node_def)
  show "\<exists>h'. (if is_node (Val (fst e)) h \<and> is_node (Val v) h then add_pref (Val (fst e)) (Val v) h else Some h) = Some h' \<and>
      graph_ok free regs h' \<and> ext h h' \<and> True"
    using add_pref_ok [OF h n n, of "Val (fst e)" "Val v"] v assms(2) h ext_refl by auto
qed auto

lemma abs_pref_ok:
  assumes "graph_ok free regs g" "set (snd e) \<subseteq> set regs"
  shows "\<exists>g'. abs_pref_step free e g = Some g' \<and> graph_ok free regs g' \<and> ext g g' \<and> (\<forall>s \<in> set (snd e). True)"
  unfolding abs_pref_step_def
proof (rule collect_ext [OF assms(1)])
  fix s h assume s: "s \<in> set (snd e)" and h: "graph_ok free regs h"
  obtain h1 where h1: "need_dummy s h = Some h1" "graph_ok free regs h1" "ext h h1" "Phys s \<in> set (all_nodes h1)"
    using need_dummy_ok [OF h] s assms(2) by blast
  show "\<exists>h'. (if fst e \<in> set free then case need_dummy s h of None \<Rightarrow> None
        | Some g' \<Rightarrow> add_pref (Val (fst e)) (Phys s) g' else Some h) = Some h' \<and>
      graph_ok free regs h' \<and> ext h h' \<and> True"
    using add_pref_ok [OF h1(2) graph_ok_val [OF h1(2)] h1(4), of "fst e"] h h1 ext_refl ext_trans [OF h1(3)] by auto
qed auto

section \<open>The graph of a whole function\<close>

text \<open>The conflicts one command contributes.\<close>

definition cmd_edges :: "nat list \<Rightarrow> cmd \<Rightarrow> nat list \<times> nat list \<Rightarrow> graph \<Rightarrow> bool" where
  "cmd_edges free c live g =
     ((\<forall>x \<in> set (fst live). \<forall>y \<in> set (fst live). x \<noteq> y \<longrightarrow> cedge g (Val x) (Val y)) \<and>
      (\<forall>x \<in> set (snd live). \<forall>y \<in> set (snd live). x \<noteq> y \<longrightarrow> cedge g (Val x) (Val y)) \<and>
      (\<forall>e \<in> set (c_rel_conf c). \<forall>nb \<in> set (snd e). fst e \<in> set free \<and> nb \<in> set free \<longrightarrow> cedge g (Val (fst e)) (Val nb)) \<and>
      (\<forall>e \<in> set (c_abs_conf c). \<forall>s \<in> set (snd e). fst e \<in> set free \<longrightarrow> cedge g (Val (fst e)) (Phys s)) \<and>
      (\<forall>s \<in> set (c_clobber c). \<forall>v \<in> set (fst live). v \<in> set (snd live) \<longrightarrow> cedge g (Val v) (Phys s)))"

lemma cmd_edges_ext: "cmd_edges free c live g \<Longrightarrow> ext g g' \<Longrightarrow> cmd_edges free c live g'"
  unfolding cmd_edges_def ext_def by blast

lemma graph_cmd_ok:
  assumes g: "graph_ok free regs g" and c: "cmd_ok regs c"
    and l: "set (fst live) \<subseteq> set free" "distinct (fst live)" "set (snd live) \<subseteq> set free" "distinct (snd live)"
  shows "\<exists>g'. graph_cmd free (c, live) g = Some g' \<and> graph_ok free regs g' \<and> ext g g' \<and> cmd_edges free c live g'"
proof -
  obtain g1 where g1: "conflict_pairs (fst live) g = Some g1" "graph_ok free regs g1" "ext g g1"
    "\<forall>x \<in> set (fst live). \<forall>y \<in> set (fst live). x \<noteq> y \<longrightarrow> cedge g1 (Val x) (Val y)"
    using conflict_pairs_ok [OF g l(2,1)] by blast
  obtain g2 where g2: "conflict_pairs (snd live) g1 = Some g2" "graph_ok free regs g2" "ext g1 g2"
    "\<forall>x \<in> set (snd live). \<forall>y \<in> set (snd live). x \<noteq> y \<longrightarrow> cedge g2 (Val x) (Val y)"
    using conflict_pairs_ok [OF g1(2) l(4,3)] by blast
  have "\<exists>g'. ofold (rel_conf_step free) (c_rel_conf c) g2 = Some g' \<and> graph_ok free regs g' \<and> ext g2 g' \<and>
      (\<forall>e \<in> set (c_rel_conf c). \<forall>nb \<in> set (snd e). fst e \<in> set free \<and> nb \<in> set free \<longrightarrow> cedge g' (Val (fst e)) (Val nb))"
    by (rule collect_ext [OF g2(2)]) (use c rel_conf_ok in \<open>auto simp: cmd_ok_def intro: ext_edge\<close>)
  then obtain g3 where g3: "ofold (rel_conf_step free) (c_rel_conf c) g2 = Some g3" "graph_ok free regs g3" "ext g2 g3"
    "\<forall>e \<in> set (c_rel_conf c). \<forall>nb \<in> set (snd e). fst e \<in> set free \<and> nb \<in> set free \<longrightarrow> cedge g3 (Val (fst e)) (Val nb)"
    by blast
  have "\<exists>g'. ofold (abs_conf_step free) (c_abs_conf c) g3 = Some g' \<and> graph_ok free regs g' \<and> ext g3 g' \<and>
      (\<forall>e \<in> set (c_abs_conf c). \<forall>s \<in> set (snd e). fst e \<in> set free \<longrightarrow> cedge g' (Val (fst e)) (Phys s))"
    by (rule collect_ext [OF g3(2)]) (use c abs_conf_ok in \<open>auto simp: cmd_ok_def intro: ext_edge\<close>)
  then obtain g4 where g4: "ofold (abs_conf_step free) (c_abs_conf c) g3 = Some g4" "graph_ok free regs g4" "ext g3 g4"
    "\<forall>e \<in> set (c_abs_conf c). \<forall>s \<in> set (snd e). fst e \<in> set free \<longrightarrow> cedge g4 (Val (fst e)) (Phys s)" by blast
  have "\<exists>g'. ofold (clobber_step live) (c_clobber c) g4 = Some g' \<and> graph_ok free regs g' \<and> ext g4 g' \<and>
      (\<forall>s \<in> set (c_clobber c). \<forall>v \<in> set (fst live). v \<in> set (snd live) \<longrightarrow> cedge g' (Val v) (Phys s))"
    by (rule collect_ext [OF g4(2)]) (use c clobber_ok [OF _ _ l(1)] in \<open>auto simp: cmd_ok_def intro: ext_edge\<close>)
  then obtain g5 where g5: "ofold (clobber_step live) (c_clobber c) g4 = Some g5" "graph_ok free regs g5" "ext g4 g5"
    "\<forall>s \<in> set (c_clobber c). \<forall>v \<in> set (fst live). v \<in> set (snd live) \<longrightarrow> cedge g5 (Val v) (Phys s)" by blast
  have "\<exists>g'. ofold rel_pref_step (c_rel_pref c) g5 = Some g' \<and> graph_ok free regs g' \<and> ext g5 g' \<and>
      (\<forall>e \<in> set (c_rel_pref c). True)"
    by (rule collect_ext [OF g5(2)]) (use c rel_pref_ok in \<open>auto simp: cmd_ok_def\<close>)
  then obtain g6 where g6: "ofold rel_pref_step (c_rel_pref c) g5 = Some g6" "graph_ok free regs g6" "ext g5 g6" by blast
  have "\<exists>g'. ofold (abs_pref_step free) (c_abs_pref c) g6 = Some g' \<and> graph_ok free regs g' \<and> ext g6 g' \<and>
      (\<forall>e \<in> set (c_abs_pref c). True)"
    by (rule collect_ext [OF g6(2)]) (use c abs_pref_ok in \<open>auto simp: cmd_ok_def\<close>)
  then obtain g7 where g7: "ofold (abs_pref_step free) (c_abs_pref c) g6 = Some g7" "graph_ok free regs g7" "ext g6 g7"
    by blast
  have e5: "ext g5 g7" using ext_trans [OF g6(3) g7(3)] .
  have e4: "ext g4 g7" using ext_trans [OF g5(3) e5] .
  have e3: "ext g3 g7" using ext_trans [OF g4(3) e4] .
  have e2: "ext g2 g7" using ext_trans [OF g3(3) e3] .
  have e1: "ext g1 g7" using ext_trans [OF g2(3) e2] .
  have "graph_cmd free (c, live) g = Some g7"
    using g1 g2 g3 g4 g5 g6 g7 by (simp add: graph_cmd_def)
  moreover have "cmd_edges free c live g7"
    unfolding cmd_edges_def
    using ext_edge [OF _ e1] ext_edge [OF _ e2] ext_edge [OF _ e3] ext_edge [OF _ e4] ext_edge [OF _ e5]
      g1(4) g2(4) g3(4) g4(4) g5(4) by blast
  ultimately show ?thesis using g7(2) ext_trans [OF g1(3) e1] by blast
qed

lemma generate_graph_ok:
  assumes "distinct free" and lv: "live_ok free cmds lv" and c: "\<forall>c \<in> set cmds. cmd_ok regs c"
  shows "\<exists>g. generate_graph cmds free lv = Some g \<and> graph_ok free regs g \<and>
    (\<forall>i < length cmds. cmd_edges free (cmds ! i) (lv ! i) g)"
proof -
  have "\<exists>g. ofold (graph_cmd free) (zip cmds lv) (new_graph (map Val free)) = Some g \<and> graph_ok free regs g \<and>
      ext (new_graph (map Val free)) g \<and> (\<forall>p \<in> set (zip cmds lv). cmd_edges free (fst p) (snd p) g)"
  proof (rule collect_ext [OF graph_ok_new [OF assms(1)]])
    fix p t assume p: "p \<in> set (zip cmds lv)" and t: "graph_ok free regs t"
    have "fst p \<in> set cmds" "snd p \<in> set lv" using p by (auto simp: set_zip)
    then show "\<exists>t'. graph_cmd free p t = Some t' \<and> graph_ok free regs t' \<and> ext t t' \<and> cmd_edges free (fst p) (snd p) t'"
      using graph_cmd_ok [OF t, of "fst p" "snd p"] c lv by (auto simp: live_ok_def)
  qed (auto intro: cmd_edges_ext)
  moreover have "(cmds ! i, lv ! i) \<in> set (zip cmds lv)" if "i < length cmds" for i
    using that lv by (auto simp: live_ok_def set_zip)
  ultimately show ?thesis unfolding generate_graph_def by fastforce
qed

section \<open>Values kept in memory\<close>

lemma add_free_ok: "distinct free \<Longrightarrow> distinct (add_free gmap v free)"
  by (simp add: add_free_def)

lemma get_free_values_distinct: "distinct (get_free_values cmds gmap)"
proof -
  have f: "distinct xs \<Longrightarrow> distinct (fold (add_free gmap) vs xs)" for vs xs
    by (induction vs arbitrary: xs) (auto intro: add_free_ok)
  have h: "distinct xs \<Longrightarrow> distinct (fold (\<lambda>c free. fold (add_free gmap) (c_inputs c @ c_outputs c) free) cmds xs)" for xs
    by (induction cmds arbitrary: xs) (simp_all add: f)
  show ?thesis unfolding get_free_values_def by (rule h) simp
qed

definition mem_ok :: "val_types \<Rightarrow> nat list \<Rightarrow> frame \<Rightarrow> mem_state \<Rightarrow> bool" where
  "mem_ok ty free0 fr0 s =
     (distinct (ms_free s) \<and> set (ms_free s) \<union> set (ms_keys s) = set free0 \<and> set (ms_free s) \<inter> set (ms_keys s) = {} \<and>
      frame_offset fr0 \<le> frame_offset (ms_frame s) \<and>
      (\<exists>off. (\<forall>v \<in> set (ms_keys s). ms_map s (Val v) = Some (MemSpot (BaseSpot RBP) (off v) 0 None) \<and>
                - frame_offset (ms_frame s) \<le> off v \<and> off v + v_size ty v \<le> - frame_offset fr0) \<and>
             (\<forall>v \<in> set (ms_keys s). \<forall>w \<in> set (ms_keys s). v \<noteq> w \<longrightarrow>
                off v + v_size ty v \<le> off w \<or> off w + v_size ty w \<le> off v)))"

lemma place_in_mem_ok:
  assumes m: "mem_ok ty free0 fr0 s" and sz: "0 \<le> v_size ty v"
  shows "mem_ok ty free0 fr0 (place_in_mem ty v s)"
proof (cases "v \<in> set (ms_free s)")
  case False
  then show ?thesis using m by (simp add: place_in_mem_def)
next
  case v: True
  obtain off where M: "distinct (ms_free s)" "set (ms_free s) \<union> set (ms_keys s) = set free0"
    "set (ms_free s) \<inter> set (ms_keys s) = {}" "frame_offset fr0 \<le> frame_offset (ms_frame s)"
    and off: "\<And>v. v \<in> set (ms_keys s) \<Longrightarrow> ms_map s (Val v) = Some (MemSpot (BaseSpot RBP) (off v) 0 None) \<and>
                - frame_offset (ms_frame s) \<le> off v \<and> off v + v_size ty v \<le> - frame_offset fr0"
      "\<And>v w. v \<in> set (ms_keys s) \<Longrightarrow> w \<in> set (ms_keys s) \<Longrightarrow> v \<noteq> w \<Longrightarrow>
                off v + v_size ty v \<le> off w \<or> off w + v_size ty w \<le> off v"
    using m unfolding mem_ok_def by blast
  let ?s = "place_in_mem ty v s" and ?o = "frame_offset (ms_frame s) + v_size ty v"
  let ?off = "off(v := - ?o)"
  have S: "ms_free ?s = remove1 v (ms_free s)" "ms_keys ?s = ms_keys s @ [v]"
    "ms_map ?s = (ms_map s)(Val v \<mapsto> MemSpot (BaseSpot RBP) (- ?o) 0 None)"
    "frame_offset (ms_frame ?s) = ?o"
    using v by (simp_all add: place_in_mem_def Let_def)
  have nk: "v \<notin> set (ms_keys s)" using v M(3) by blast
  have a: "ms_map ?s (Val w) = Some (MemSpot (BaseSpot RBP) (?off w) 0 None) \<and>
      - ?o \<le> ?off w \<and> ?off w + v_size ty w \<le> - frame_offset fr0"
    if "w \<in> set (ms_keys s @ [v])" for w
  proof (cases "w = v")
    case True
    then show ?thesis using M(4) by (simp add: S)
  next
    case False
    then show ?thesis using off(1) [of w] that sz by (auto simp: S)
  qed
  have b: "?off w + v_size ty w \<le> ?off u \<or> ?off u + v_size ty u \<le> ?off w"
    if wu: "w \<in> set (ms_keys s @ [v])" "u \<in> set (ms_keys s @ [v])" "w \<noteq> u" for w u
  proof -
    consider "w = v" "u \<in> set (ms_keys s)" "u \<noteq> v" | "u = v" "w \<in> set (ms_keys s)" "w \<noteq> v"
      | "w \<in> set (ms_keys s)" "u \<in> set (ms_keys s)" "w \<noteq> v" "u \<noteq> v" using wu by auto
    then show ?thesis
    proof cases
      case 1 then show ?thesis using off(1) [of u] by auto
    next
      case 2 then show ?thesis using off(1) [of w] by auto
    next
      case 3 then show ?thesis using off(2) [of w u] wu(3) by auto
    qed
  qed
  have "distinct (ms_free ?s)" "set (ms_free ?s) \<union> set (ms_keys ?s) = set free0"
    "set (ms_free ?s) \<inter> set (ms_keys ?s) = {}" "frame_offset fr0 \<le> frame_offset (ms_frame ?s)"
    using M v sz unfolding S by auto
  moreover have "\<exists>off. (\<forall>w \<in> set (ms_keys ?s). ms_map ?s (Val w) = Some (MemSpot (BaseSpot RBP) (off w) 0 None) \<and>
                - frame_offset (ms_frame ?s) \<le> off w \<and> off w + v_size ty w \<le> - frame_offset fr0) \<and>
             (\<forall>w \<in> set (ms_keys ?s). \<forall>u \<in> set (ms_keys ?s). w \<noteq> u \<longrightarrow>
                off w + v_size ty w \<le> off u \<or> off u + v_size ty u \<le> off w)"
    unfolding S(2,4) by (rule exI [of _ ?off]) (use a b in blast)
  ultimately show ?thesis unfolding mem_ok_def by blast
qed

lemma place_fold_ok:
  assumes "\<And>v. 0 \<le> v_size ty v"
  shows "mem_ok ty free0 fr0 s \<Longrightarrow> mem_ok ty free0 fr0 (fold (place_in_mem ty) vs s)"
  by (induction vs arbitrary: s) (simp_all add: place_in_mem_ok assms)

lemma place_fold_free:
  "distinct (ms_free s) \<Longrightarrow> ms_free (fold (place_in_mem ty) vs s) = filter (\<lambda>v. v \<notin> set vs) (ms_free s)"
proof (induction vs arbitrary: s)
  case (Cons v vs)
  have r: "removeAll v xs = filter (\<lambda>w. w \<noteq> v) xs" for xs by (induction xs) auto
  have "ms_free (place_in_mem ty v s) = removeAll v (ms_free s)"
    using Cons.prems by (simp add: place_in_mem_def Let_def distinct_remove1_removeAll)
  then have "ms_free (place_in_mem ty v s) = filter (\<lambda>w. w \<noteq> v) (ms_free s)" unfolding r .
  then show ?case using Cons by (simp add: conj_commute)
qed (simp add: filter_True)

section \<open>No value destroys another\<close>

lemma alloc_spot:
  assumes "stack_ok g nreg m rs" and c: "coloured g nreg m regs sz fr rs st" and x: "x \<in> set (all_nodes g)"
  shows "\<exists>s. spotmap st x = Some s \<and> (s \<in> set regs \<or> (\<exists>off. s = slot_at fr off \<and> in_frame fr (sp_frame st) off (node_bytes sz x)))"
proof -
  obtain r where r: "r \<in> set rs" "spotmap st x = spotmap st r" "r \<in> set (spilled_nodes st) \<longrightarrow> r = x"
    "r \<notin> set (spilled_nodes st) \<longrightarrow> (\<exists>q \<in> set regs. spotmap st r = Some q)"
    using coloured_classes(2) [OF assms] by metis
  show ?thesis
  proof (cases "r \<in> set (spilled_nodes st)")
    case True
    then show ?thesis using spilled_slots [OF colouredD(7) [OF c] True True] r(3) by auto
  next
    case False
    then show ?thesis using r by auto
  qed
qed

text \<open>What the front half of \<open>_make_asm\<close> has built when it is done.\<close>

definition fn_input :: "spot list \<Rightarrow> val_types \<Rightarrow> cmd list \<Rightarrow> bool" where
  "fn_input regs ty cmds = (distinct regs \<and> set regs \<subseteq> set registers \<and> (\<forall>c \<in> set cmds. cmd_ok regs c) \<and>
     plain_cmds cmds \<and> (\<forall>v. 0 \<le> v_size ty v))"

lemma mem_start: "mem_ok ty free fr \<lparr>ms_free = free, ms_map = gmap, ms_frame = fr, ms_keys = []\<rparr>" if "distinct free"
  using that by (auto simp: mem_ok_def)

lemma mem_free_sizes:
  assumes "v \<in> set (filter (\<lambda>v. v \<notin> set (move_to_mem ty cmds free)) free)"
  shows "v_size ty v \<in> {1, 2, 4, 8} \<and> \<not> v_floating ty v"
  using assms by (auto simp: move_to_mem_def)

lemma front_half:
  assumes inp: "fn_input regs ty cmds" and lv: "get_live_vars fuel cmds free' = Done lv"
    and ms: "ms = fold (place_in_mem ty) (move_to_mem ty cmds free)
                 \<lparr>ms_free = free, ms_map = gmap, ms_frame = fr, ms_keys = []\<rparr>"
    and free: "distinct free" "free' = ms_free ms"
  shows "\<exists>g st m rs. generate_graph cmds free' lv = Some g \<and> graph_ok free' regs g \<and>
    (\<forall>i < length cmds. cmd_edges free' (cmds ! i) (lv ! i) g) \<and> alloc_input regs (v_size ty) g \<and>
    allocate regs (v_size ty) (ms_frame ms) g = Some st \<and> stack_ok g (length regs) m rs \<and>
    coloured g (length regs) m regs (v_size ty) (ms_frame ms) rs st"
proof -
  have I: "distinct regs" "set regs \<subseteq> set registers" "\<forall>c \<in> set cmds. cmd_ok regs c" "plain_cmds cmds"
    using inp by (simp_all add: fn_input_def)
  have e: "free' = filter (\<lambda>v. v \<notin> set (move_to_mem ty cmds free)) free"
    unfolding free(2) ms by (subst place_fold_free) (simp_all add: free)
  then have d: "distinct free'" using free(1) by simp
  have "\<forall>c \<in> set cmds. distinct (c_outputs c)" using I(4) by (simp add: plain_cmds_def)
  with lv have "fixed_point free' cmds lv" by (rule get_live_vars_fixed)
  then have "live_ok free' cmds lv" by (simp add: fixed_point_def)
  from generate_graph_ok [OF d this I(3)] obtain g where
    g: "generate_graph cmds free' lv = Some g" "graph_ok free' regs g"
      "\<forall>i < length cmds. cmd_edges free' (cmds ! i) (lv ! i) g" by blast
  have "0 < v_size ty v" if "v \<in> set free'" for v using mem_free_sizes [of v ty cmds free] that e by auto
  then have ai: "alloc_input regs (v_size ty) g" by (rule graph_ok_input [OF g(2) I(1,2)])
  from allocate_result [OF ai, of "ms_frame ms"] g ai show ?thesis by blast
qed

lemma overlap_sym: "overlap s n t k = overlap t k s n"
  by (cases s; cases t) auto

text \<open>The state \<open>make_asm_spots\<close> went through.\<close>

definition placed :: "val_types \<Rightarrow> frame \<Rightarrow> spot_map \<Rightarrow> cmd list \<Rightarrow> mem_state" where
  "placed ty fr gmap cmds = fold (place_in_mem ty) (move_to_mem ty cmds (get_free_values cmds gmap))
     \<lparr>ms_free = get_free_values cmds gmap, ms_map = gmap, ms_frame = fr, ms_keys = []\<rparr>"

lemma done_parts:
  assumes inp: "fn_input regs ty cmds" and dn: "make_asm_spots fuel regs ty fr gmap cmds = Done r"
  shows "\<exists>lv g m rs. get_live_vars fuel cmds (ms_free (placed ty fr gmap cmds)) = Done lv \<and>
    graph_ok (ms_free (placed ty fr gmap cmds)) regs g \<and>
    (\<forall>i < length cmds. cmd_edges (ms_free (placed ty fr gmap cmds)) (cmds ! i) (lv ! i) g) \<and>
    alloc_input regs (v_size ty) g \<and> stack_ok g (length regs) m rs \<and>
    coloured g (length regs) m regs (v_size ty) (ms_frame (placed ty fr gmap cmds)) rs (fs_alloc r) \<and>
    fs_map r = ms_map (placed ty fr gmap cmds) ++ spotmap (fs_alloc r)"
proof -
  let ?ms = "placed ty fr gmap cmds"
  obtain lv where lv: "get_live_vars fuel cmds (ms_free ?ms) = Done lv"
    using dn unfolding make_asm_spots_def Let_def placed_def [symmetric] by (auto split: run.splits)
  from front_half [OF inp lv placed_def get_free_values_distinct refl] obtain g st m rs where
    g: "generate_graph cmds (ms_free ?ms) lv = Some g" "graph_ok (ms_free ?ms) regs g"
      "\<forall>i < length cmds. cmd_edges (ms_free ?ms) (cmds ! i) (lv ! i) g" "alloc_input regs (v_size ty) g"
      "allocate regs (v_size ty) (ms_frame ?ms) g = Some st" "stack_ok g (length regs) m rs"
      "coloured g (length regs) m regs (v_size ty) (ms_frame ?ms) rs st" by blast
  have "r = \<lparr>fs_map = ms_map ?ms ++ spotmap st, fs_mem = ?ms, fs_live = lv, fs_alloc = st\<rparr>"
    using dn lv g(1,5) unfolding make_asm_spots_def Let_def placed_def [symmetric] by simp
  then show ?thesis using lv g by auto
qed

lemma placed_ok: "fn_input regs ty cmds \<Longrightarrow> mem_ok ty (get_free_values cmds gmap) fr (placed ty fr gmap cmds)"
  unfolding placed_def by (rule place_fold_ok) (auto simp: fn_input_def intro: mem_start get_free_values_distinct)

text \<open>Where a local lives.\<close>

lemma local_spot:
  assumes inp: "fn_input regs ty cmds" and v: "v \<in> set (get_free_values cmds gmap)"
    and g: "graph_ok (ms_free (placed ty fr gmap cmds)) regs g" and st: "stack_ok g (length regs) m rs"
    and c: "coloured g (length regs) m regs (v_size ty) (ms_frame (placed ty fr gmap cmds)) rs st"
  shows "(v \<in> set (ms_free (placed ty fr gmap cmds)) \<and> (\<exists>s. spotmap st (Val v) = Some s \<and>
      (s \<in> set regs \<or> (\<exists>off. s = slot_at (ms_frame (placed ty fr gmap cmds)) off \<and>
         in_frame (ms_frame (placed ty fr gmap cmds)) (sp_frame st) off (v_size ty v))))) \<or>
    (v \<in> set (ms_keys (placed ty fr gmap cmds)) \<and> v \<notin> set (ms_free (placed ty fr gmap cmds)) \<and>
      spotmap st (Val v) = None)"
proof -
  let ?ms = "placed ty fr gmap cmds"
  have M: "set (ms_free ?ms) \<union> set (ms_keys ?ms) = set (get_free_values cmds gmap)"
    using placed_ok [OF inp, of gmap fr] by (simp add: mem_ok_def)
  show ?thesis
  proof (cases "v \<in> set (ms_free ?ms)")
    case True
    then show ?thesis using alloc_spot [OF st c graph_ok_val [OF g True]] by (simp add: node_bytes_def)
  next
    case False
    have "Val v \<notin> set (all_nodes g)" using g False by (auto simp: graph_ok_def)
    then have "spotmap st (Val v) = None" using coloured_classes(1) [OF st c] by blast
    then show ?thesis using False M v by blast
  qed
qed

lemma mem_local:
  assumes "mem_ok ty free0 fr0 ms" and "v \<in> set (ms_keys ms)"
  shows "\<exists>off. ms_map ms (Val v) = Some (MemSpot (BaseSpot RBP) off 0 None) \<and> - frame_offset (ms_frame ms) \<le> off"
    and "w \<in> set (ms_keys ms) \<Longrightarrow> v \<noteq> w \<Longrightarrow> \<exists>o1 o2. ms_map ms (Val v) = Some (MemSpot (BaseSpot RBP) o1 0 None) \<and>
      ms_map ms (Val w) = Some (MemSpot (BaseSpot RBP) o2 0 None) \<and>
      (o1 + v_size ty v \<le> o2 \<or> o2 + v_size ty w \<le> o1)"
  using assms unfolding mem_ok_def by blast+

lemma locals_apart:
  assumes inp: "fn_input regs ty cmds" and xy: "x \<in> set (get_free_values cmds gmap)"
      "y \<in> set (get_free_values cmds gmap)" "x \<noteq> y"
    and g: "graph_ok (ms_free (placed ty fr gmap cmds)) regs g" and st: "stack_ok g (length regs) m rs"
    and ai: "alloc_input regs (v_size ty) g"
    and c: "coloured g (length regs) m regs (v_size ty) (ms_frame (placed ty fr gmap cmds)) rs (fs_alloc r)"
    and m: "fs_map r = ms_map (placed ty fr gmap cmds) ++ spotmap (fs_alloc r)"
    and e: "x \<in> set (ms_free (placed ty fr gmap cmds)) \<Longrightarrow> y \<in> set (ms_free (placed ty fr gmap cmds)) \<Longrightarrow>
      cedge g (Val x) (Val y)"
  shows "\<exists>s t. fs_map r (Val x) = Some s \<and> fs_map r (Val y) = Some t \<and> \<not> overlap s (v_size ty x) t (v_size ty y)"
proof -
  let ?ms = "placed ty fr gmap cmds" and ?st = "fs_alloc r"
  note M = placed_ok [OF inp, of gmap fr]
  note L = local_spot [OF inp _ g st c]
  have rr: "set regs \<subseteq> set registers" using inp by (simp add: fn_input_def)
  have mixed: "\<exists>s t. fs_map r (Val a) = Some s \<and> fs_map r (Val b) = Some t \<and> \<not> overlap s (v_size ty a) t (v_size ty b)"
    if a: "a \<in> set (get_free_values cmds gmap)" "a \<in> set (ms_free ?ms)"
      and b: "b \<in> set (ms_keys ?ms)" "spotmap ?st (Val b) = None" for a b
  proof -
    have "a \<notin> set (ms_keys ?ms)" using M a(2) by (auto simp: mem_ok_def)
    then obtain s where s: "spotmap ?st (Val a) = Some s"
      "s \<in> set regs \<or> (\<exists>off. s = slot_at (ms_frame ?ms) off \<and> in_frame (ms_frame ?ms) (sp_frame ?st) off (v_size ty a))"
      using L [OF a(1)] by blast
    obtain off where off: "ms_map ?ms (Val b) = Some (MemSpot (BaseSpot RBP) off 0 None)" "- frame_offset (ms_frame ?ms) \<le> off"
      using mem_local(1) [OF M b(1)] by blast
    have "\<not> overlap s (v_size ty a) (MemSpot (BaseSpot RBP) off 0 None) (v_size ty b)"
      using s(2)
    proof
      assume "s \<in> set regs"
      then obtain q where "s = RegSpot q" using rr registers_are_reg by blast
      then show ?thesis by simp
    qed (use off(2) in \<open>auto simp: slot_at_def in_frame_def split: if_splits\<close>)
    then show ?thesis using m s(1) off(1) b(2) by (auto simp: map_add_def)
  qed
  have side: "z \<in> set (ms_free ?ms) \<or> (z \<in> set (ms_keys ?ms) \<and> spotmap ?st (Val z) = None)"
    if "z \<in> set (get_free_values cmds gmap)" for z
    using L [OF that] by (elim disjE) (elim conjE, simp)+
  consider "x \<in> set (ms_free ?ms)" "y \<in> set (ms_free ?ms)"
    | "x \<in> set (ms_free ?ms)" "y \<in> set (ms_keys ?ms)" "spotmap ?st (Val y) = None"
    | "x \<in> set (ms_keys ?ms)" "spotmap ?st (Val x) = None" "y \<in> set (ms_free ?ms)"
    | "x \<in> set (ms_keys ?ms)" "y \<in> set (ms_keys ?ms)" "spotmap ?st (Val x) = None" "spotmap ?st (Val y) = None"
    using side [OF xy(1)] side [OF xy(2)] by auto
  then show ?thesis
  proof cases
    case 1
    obtain s t where "spotmap ?st (Val x) = Some s" "spotmap ?st (Val y) = Some t"
      using alloc_spot [OF st c graph_ok_val [OF g 1(1)]] alloc_spot [OF st c graph_ok_val [OF g 1(2)]] by blast
    then show ?thesis using no_overlap [OF ai st c e [OF 1]] m by (auto simp: node_bytes_def map_add_def)
  next
    case 2 then show ?thesis using mixed [OF xy(1)] by blast
  next
    case 3 then show ?thesis using mixed [OF xy(2) 3(3,1,2)] overlap_sym by blast
  next
    case 4
    then show ?thesis using mem_local(2) [OF M 4(1,2) xy(3)] m by (auto simp: map_add_def)
  qed
qed

text \<open>What a run that is done says of one command.\<close>

lemma live_edges:
  assumes inp: "fn_input regs ty cmds" and lv: "get_live_vars fuel cmds free = Done lv" and i: "i < length cmds"
    and e: "cmd_edges free (cmds ! i) (lv ! i) g" and x: "x \<in> set free"
  shows "y \<in> set free \<Longrightarrow> x \<noteq> y \<Longrightarrow> (needed cmds x i \<and> needed cmds y i) \<or>
      ((needed_after cmds x i \<or> x \<in> set (c_outputs (cmds ! i))) \<and>
       (needed_after cmds y i \<or> y \<in> set (c_outputs (cmds ! i)))) \<Longrightarrow> cedge g (Val x) (Val y)"
    and "needed cmds x i \<Longrightarrow> needed_after cmds x i \<Longrightarrow> q \<in> set (c_clobber (cmds ! i)) \<Longrightarrow> cedge g (Val x) (Phys q)"
proof -
  have pl: "plain_cmds cmds" using inp by (simp add: fn_input_def)
  then have "\<forall>c \<in> set cmds. distinct (c_outputs c)" by (simp add: plain_cmds_def)
  with lv have fp: "fixed_point free cmds lv" by (rule get_live_vars_fixed)
  have li: "v \<in> set (fst (lv ! i))" if "v \<in> set free" "needed cmds v i" for v
    using needed_live [OF that(2) fp pl that(1)] .
  have lo: "v \<in> set (snd (lv ! i))" if "v \<in> set free" "needed_after cmds v i \<or> v \<in> set (c_outputs (cmds ! i))" for v
    using that needed_after_live [OF _ fp pl that(1) i] written_live [OF fp pl i that(1)] by blast
  show "cedge g (Val x) (Val y)" if "y \<in> set free" "x \<noteq> y" "(needed cmds x i \<and> needed cmds y i) \<or>
      ((needed_after cmds x i \<or> x \<in> set (c_outputs (cmds ! i))) \<and>
       (needed_after cmds y i \<or> y \<in> set (c_outputs (cmds ! i))))"
    using e x that li lo unfolding cmd_edges_def by blast
  show "cedge g (Val x) (Phys q)" if "needed cmds x i" "needed_after cmds x i" "q \<in> set (c_clobber (cmds ! i))"
    using e x that li lo unfolding cmd_edges_def by blast
qed

text \<open>C3: Spot assignment is correct for a whole function: two distinct local values that are both
  still needed when a command starts, or both needed or written when it ends, never share storage
  (the same register, or overlapping bytes of the frame), whether they live in registers, in spill
  slots or, being address-taken, floating or of an odd size, in memory.\<close>

theorem needed_values_kept_apart:
  assumes "fn_input regs ty cmds" and "make_asm_spots fuel regs ty fr gmap cmds = Done r"
    and "i < length cmds" and "x \<in> set (get_free_values cmds gmap)" and "y \<in> set (get_free_values cmds gmap)"
    and "x \<noteq> y"
    and "(needed cmds x i \<and> needed cmds y i) \<or>
      ((needed_after cmds x i \<or> x \<in> set (c_outputs (cmds ! i))) \<and>
       (needed_after cmds y i \<or> y \<in> set (c_outputs (cmds ! i))))"
  shows "\<exists>s t. fs_map r (Val x) = Some s \<and> fs_map r (Val y) = Some t \<and> \<not> overlap s (v_size ty x) t (v_size ty y)"
proof -
  let ?free = "ms_free (placed ty fr gmap cmds)"
  obtain lv g m rs where d: "get_live_vars fuel cmds ?free = Done lv" "graph_ok ?free regs g"
    "\<forall>i < length cmds. cmd_edges ?free (cmds ! i) (lv ! i) g" "alloc_input regs (v_size ty) g"
    "stack_ok g (length regs) m rs"
    "coloured g (length regs) m regs (v_size ty) (ms_frame (placed ty fr gmap cmds)) rs (fs_alloc r)"
    "fs_map r = ms_map (placed ty fr gmap cmds) ++ spotmap (fs_alloc r)"
    using done_parts [OF assms(1,2)] by blast
  have "cmd_edges ?free (cmds ! i) (lv ! i) g" using d(3) assms(3) by blast
  from live_edges(1) [OF assms(1) d(1) assms(3) this _ _ assms(6,7)]
  show ?thesis by (intro locals_apart [OF assms(1,4,5,6) d(2,5,4,6,7)])
qed

text \<open>C28: A local value that is needed both before and after a command never sits in a machine
  register that command clobbers.\<close>

theorem needed_value_not_clobbered:
  assumes "fn_input regs ty cmds" and "make_asm_spots fuel regs ty fr gmap cmds = Done r"
    and "i < length cmds" and "v \<in> set (get_free_values cmds gmap)"
    and "needed cmds v i" and "needed_after cmds v i" and "q \<in> set (c_clobber (cmds ! i))"
  shows "\<exists>s. fs_map r (Val v) = Some s \<and> s \<noteq> q"
proof -
  let ?ms = "placed ty fr gmap cmds"
  let ?free = "ms_free ?ms"
  obtain lv g m rs where d: "get_live_vars fuel cmds ?free = Done lv" "graph_ok ?free regs g"
    "\<forall>i < length cmds. cmd_edges ?free (cmds ! i) (lv ! i) g" "alloc_input regs (v_size ty) g"
    "stack_ok g (length regs) m rs"
    "coloured g (length regs) m regs (v_size ty) (ms_frame ?ms) rs (fs_alloc r)"
    "fs_map r = ms_map ?ms ++ spotmap (fs_alloc r)"
    using done_parts [OF assms(1,2)] by blast
  have e: "cmd_edges ?free (cmds ! i) (lv ! i) g" using d(3) assms(3) by blast
  have wf: "wf_graph g" using d(4) by (simp add: alloc_input_def)
  have "cmd_ok regs (cmds ! i)" "set regs \<subseteq> set registers" using assms(1,3) by (auto simp: fn_input_def)
  then obtain n where n: "q = RegSpot n" using assms(7) registers_are_reg by (fastforce simp: cmd_ok_def)
  consider (free) s where "v \<in> set ?free" "spotmap (fs_alloc r) (Val v) = Some s"
    | (mem) "v \<in> set (ms_keys ?ms)" "spotmap (fs_alloc r) (Val v) = None"
    using local_spot [OF assms(1,4) d(2,5,6)] by (elim disjE conjE exE) simp_all
  then show ?thesis
  proof cases
    case (free s)
    note f = free(1) and s = free(2)
    have c: "cedge g (Val v) (Phys q)" by (rule live_edges(2) [OF assms(1) d(1) assms(3) e f assms(5-7)])
    then have "Phys q \<in> set (all_nodes g)" using cedge_nodes [OF wf] by blast
    moreover have "\<forall>p \<in> set (all_nodes g). is_phys p \<longrightarrow> p \<in> set rs"
      using d(5) unfolding stack_ok_def by (elim conjE)
    ultimately have "spotmap (fs_alloc r) (Phys q) = Some q"
      using colouredD(3) [OF d(6)] by (auto simp: is_phys_def)
    then have "s \<noteq> q" using no_overlap [OF d(4,5,6) c s] n by auto
    then show ?thesis using s d(7) by (auto simp: map_add_def)
  next
    case mem
    then show ?thesis using mem_local(1) [OF placed_ok [OF assms(1), of gmap fr] mem(1)] d(7) n
      by (auto simp: map_add_def)
  qed
qed

lemma forward_done:
  assumes "fn_input regs ty cmds" and "forward_jumps cmds"
  shows "\<exists>r. make_asm_spots (length cmds + 2) regs ty fr gmap cmds = Done r \<and>
    (\<forall>v \<in> set (get_free_values cmds gmap). fs_map r (Val v) \<noteq> None)"
proof -
  let ?ms = "placed ty fr gmap cmds"
  obtain lv where lv: "get_live_vars (length cmds + 2) cmds (ms_free ?ms) = Done lv"
    using forward_returns [OF assms(2)] by blast
  from front_half [OF assms(1) lv placed_def get_free_values_distinct refl] obtain g st where
    g: "generate_graph cmds (ms_free ?ms) lv = Some g" "allocate regs (v_size ty) (ms_frame ?ms) g = Some st" by blast
  let ?r = "\<lparr>fs_map = ms_map ?ms ++ spotmap st, fs_mem = ?ms, fs_live = lv, fs_alloc = st\<rparr>"
  have r: "make_asm_spots (length cmds + 2) regs ty fr gmap cmds = Done ?r"
    using lv g unfolding make_asm_spots_def Let_def placed_def [symmetric] by simp
  obtain g m rs where d: "graph_ok (ms_free ?ms) regs g" "stack_ok g (length regs) m rs"
    "coloured g (length regs) m regs (v_size ty) (ms_frame ?ms) rs st"
    using done_parts [OF assms(1) r] by auto
  have "fs_map ?r (Val v) \<noteq> None" if v: "v \<in> set (get_free_values cmds gmap)" for v
    using local_spot [OF assms(1) v d] mem_local(1) [OF placed_ok [OF assms(1), of gmap fr], of v]
    by (auto simp: map_add_def)
  with r show ?thesis by blast
qed

text \<open>C26: On code whose jumps all go forward the front half of \<open>_make_asm\<close> never raises and always
  returns, and every local value has a spot.\<close>

theorem forward_function_allocated:
  assumes "fn_input regs ty cmds" and "forward_jumps cmds"
  shows "\<exists>r. make_asm_spots (length cmds + 2) regs ty fr gmap cmds = Done r \<and>
    (\<forall>v \<in> set (get_free_values cmds gmap). fs_map r (Val v) \<noteq> None)"
  using assms by (rule forward_done)

text \<open>A small function: two values, the first alive across a command that clobbers RAX.\<close>

definition int_types :: val_types where
  "int_types = \<lparr>v_size = (\<lambda>_. 4), v_floating = (\<lambda>_. False)\<rparr>"

definition demo_cmds :: "cmd list" where
  "demo_cmds = [il_command [] [1], (il_command [1] [2])\<lparr>c_clobber := [RAX]\<rparr>, il_command [1, 2] [3], il_command [3] []]"

lemma demo_input: "fn_input registers int_types demo_cmds"
  by (simp add: fn_input_def demo_cmds_def il_command_def cmd_ok_def plain_cmds_def int_types_def)
     (simp add: registers_def caller_saved_registers_def)

lemma demo_forward: "forward_jumps demo_cmds"
  by (simp add: forward_jumps_def demo_cmds_def il_command_def nth_Cons')

lemma demo_facts:
  "length demo_cmds = 4" "get_free_values demo_cmds Map.empty = [1, 2, 3]" "needed demo_cmds 1 1"
  "needed_after demo_cmds 1 1" "2 \<in> set (c_outputs (demo_cmds ! 1))" "RAX \<in> set (c_clobber (demo_cmds ! 1))"
proof -
  show "length demo_cmds = 4" "get_free_values demo_cmds Map.empty = [1, 2, 3]"
    "2 \<in> set (c_outputs (demo_cmds ! 1))" "RAX \<in> set (c_clobber (demo_cmds ! 1))"
    by (simp_all add: demo_cmds_def il_command_def get_free_values_def add_free_def)
  show "needed demo_cmds 1 1" by (rule needed.use) (simp_all add: demo_cmds_def il_command_def)
  have "needed demo_cmds 1 (Suc 1)" by (rule needed.use) (simp_all add: demo_cmds_def il_command_def)
  then show "needed_after demo_cmds 1 1" by (simp add: needed_after_def)
qed

theorem needed_values_kept_apart_witness:
  "\<exists>r s t. make_asm_spots 6 registers int_types empty_frame Map.empty demo_cmds = Done r \<and>
     fs_map r (Val 1) = Some s \<and> fs_map r (Val 2) = Some t \<and> \<not> overlap s 4 t 4"
proof -
  obtain r where r: "make_asm_spots 6 registers int_types empty_frame Map.empty demo_cmds = Done r"
    using forward_done [OF demo_input demo_forward, of empty_frame Map.empty] demo_facts(1) by auto
  show ?thesis
    using needed_values_kept_apart [OF demo_input r, of 1 1 2] demo_facts r by (auto simp: int_types_def)
qed

theorem needed_value_not_clobbered_witness:
  "\<exists>r s. make_asm_spots 6 registers int_types empty_frame Map.empty demo_cmds = Done r \<and>
     fs_map r (Val 1) = Some s \<and> s \<noteq> RAX"
proof -
  obtain r where r: "make_asm_spots 6 registers int_types empty_frame Map.empty demo_cmds = Done r"
    using forward_done [OF demo_input demo_forward, of empty_frame Map.empty] demo_facts(1) by auto
  show ?thesis
    using needed_value_not_clobbered [OF demo_input r, of 1 1 RAX] demo_facts r by auto
qed

theorem forward_function_allocated_witness:
  "\<exists>r. make_asm_spots 6 registers int_types empty_frame Map.empty demo_cmds = Done r \<and> fs_map r (Val 3) \<noteq> None"
  using forward_function_allocated [OF demo_input demo_forward, of empty_frame Map.empty] demo_facts(1,2) by auto

end
