(* ===== verification/LinearScan.thy ===== *)
theory LinearScan
  imports Prelude "HOL-Library.While_Combinator"
begin

text \<open>
  The target-neutral allocator of \<open>shivyc/asm_gen.py\<close> that the arm64 and riscv64 back ends share: the
  liveness fixpoint \<open>_il_liveness\<close> over use and definition lists, the intervals \<open>_il_intervals\<close>, the
  linear scan \<open>_il_linear_scan\<close>, and the test \<open>_il_coalesce_safe\<close> for dropping a copy.  A dict used as
  a set is a duplicate-free list; a loop whose end is a theorem is a \<open>while_option\<close>.
\<close>

section \<open>Commands and control flow\<close>

datatype il_kind = KLabel string | KJump string | KJumpZero string | KJumpNotZero string
  | KReturn | KCall | KOther

record il_cmd =
  il_kind :: il_kind
  il_ins :: "nat list"
  il_outs :: "nat list"

fun label_at :: "il_cmd list \<Rightarrow> nat \<Rightarrow> string \<rightharpoonup> nat" where
  "label_at [] i = Map.empty"
| "label_at (c # cs) i =
     (case il_kind c of KLabel l \<Rightarrow> [l \<mapsto> i] ++ label_at cs (Suc i) | _ \<Rightarrow> label_at cs (Suc i))"

definition succ_of :: "il_cmd list \<Rightarrow> nat \<Rightarrow> nat list" where
  "succ_of cmds i =
     (let n = length cmds;
          next = (if i + 1 < n then [i + 1] else []);
          target = (\<lambda>l. case label_at cmds 0 l of Some t \<Rightarrow> [t] | None \<Rightarrow> []) in
      case il_kind (cmds ! i) of
        KReturn \<Rightarrow> []
      | KJump l \<Rightarrow> target l
      | KJumpZero l \<Rightarrow> next @ target l
      | KJumpNotZero l \<Rightarrow> next @ target l
      | _ \<Rightarrow> next)"

section \<open>The liveness fixpoint\<close>

record live_state =
  live_in :: "nat list list"
  live_out :: "nat list list"
  changed :: bool

definition live_out_of :: "nat list list \<Rightarrow> nat list \<Rightarrow> nat list" where
  "live_out_of lin succ = fold (\<lambda>s lo. dset_add_all (lin ! s) lo) succ []"

definition live_in_of :: "nat list \<Rightarrow> nat list \<Rightarrow> nat list \<Rightarrow> nat list" where
  "live_in_of lo defs uses = dset_add_all uses (filter (\<lambda>v. v \<notin> set defs) lo)"

definition differs :: "nat list \<Rightarrow> nat list \<Rightarrow> bool" where
  "differs new old = (length new \<noteq> length old \<or> \<not> set new \<subseteq> set old)"

text \<open>The body of the inner loop, at command \<open>i\<close>.\<close>

definition live_step :: "nat list list \<Rightarrow> nat list list \<Rightarrow> nat list list \<Rightarrow> nat \<Rightarrow> live_state \<Rightarrow> live_state" where
  "live_step succs uses defs i st =
     (let lo = live_out_of (live_in st) (succs ! i);
          li = live_in_of lo (defs ! i) (uses ! i) in
      \<lparr>live_in = (live_in st)[i := li], live_out = (live_out st)[i := lo],
       changed = (changed st \<or> differs li (live_in st ! i) \<or> differs lo (live_out st ! i))\<rparr>)"

definition live_round :: "nat \<Rightarrow> nat list list \<Rightarrow> nat list list \<Rightarrow> nat list list \<Rightarrow> live_state \<Rightarrow> live_state" where
  "live_round n succs uses defs st =
     fold (live_step succs uses defs) (rev [0..<n]) (st\<lparr>changed := False\<rparr>)"

definition live_start :: "nat \<Rightarrow> live_state" where
  "live_start n = \<lparr>live_in = replicate n [], live_out = replicate n [], changed = True\<rparr>"

definition il_liveness :: "il_cmd list \<Rightarrow> nat list list \<Rightarrow> nat list list \<Rightarrow> live_state option" where
  "il_liveness cmds uses defs =
     (let n = length cmds; succs = map (succ_of cmds) [0..<n] in
      while_option changed (live_round n succs uses defs) (live_start n))"

section \<open>Intervals\<close>

record intervals =
  iv_start :: "nat \<rightharpoonup> nat"
  iv_end :: "nat \<rightharpoonup> nat"
  crosses :: "nat list"

definition widen :: "nat \<Rightarrow> nat \<Rightarrow> intervals \<Rightarrow> intervals" where
  "widen idx v iv =
     (let iv1 = (case iv_start iv v of
                   None \<Rightarrow> iv\<lparr>iv_start := (iv_start iv)(v \<mapsto> idx)\<rparr>
                 | Some s \<Rightarrow> if idx < s then iv\<lparr>iv_start := (iv_start iv)(v \<mapsto> idx)\<rparr> else iv) in
      case iv_end iv1 v of
        None \<Rightarrow> iv1\<lparr>iv_end := (iv_end iv1)(v \<mapsto> idx)\<rparr>
      | Some e \<Rightarrow> if e < idx then iv1\<lparr>iv_end := (iv_end iv1)(v \<mapsto> idx)\<rparr> else iv1)"

definition interval_step ::
  "il_cmd list \<Rightarrow> live_state \<Rightarrow> nat list list \<Rightarrow> nat list list \<Rightarrow> nat \<Rightarrow> intervals \<Rightarrow> intervals" where
  "interval_step cmds lv uses defs idx iv =
     (let here = live_in lv ! idx @ live_out lv ! idx @ defs ! idx @ uses ! idx;
          iv1 = fold (widen idx) here iv in
      if il_kind (cmds ! idx) = KCall
      then iv1\<lparr>crosses := dset_add_all (filter (\<lambda>v. v \<in> set (live_in lv ! idx)) (live_out lv ! idx)) (crosses iv1)\<rparr>
      else iv1)"

definition il_intervals :: "il_cmd list \<Rightarrow> live_state \<Rightarrow> nat list list \<Rightarrow> nat list list \<Rightarrow> intervals" where
  "il_intervals cmds lv uses defs =
     fold (interval_step cmds lv uses defs) [0..<length cmds]
       \<lparr>iv_start = Map.empty, iv_end = Map.empty, crosses = []\<rparr>"

section \<open>Linear scan\<close>

text \<open>\<open>_il_pick\<close> returns -1 when no register is free; here \<^const>\<open>None\<close>.\<close>

definition il_pick :: "nat list \<Rightarrow> (nat \<rightharpoonup> nat) \<Rightarrow> nat \<Rightarrow> nat option" where
  "il_pick pool busy s = List.find (\<lambda>r. case busy r of None \<Rightarrow> True | Some e \<Rightarrow> e < s) pool"

text \<open>One register file: its pools, who is busy until when, and the callee-saved registers used.\<close>

record reg_file =
  rf_caller :: "nat list"
  rf_callee :: "nat list"
  rf_busy :: "nat \<rightharpoonup> nat"
  rf_used_callee :: "nat list"
  rf_reg_of :: "nat \<rightharpoonup> nat"

definition mark_used :: "nat \<Rightarrow> reg_file \<Rightarrow> reg_file" where
  "mark_used r rf = rf\<lparr>rf_used_callee := dset_add r (rf_used_callee rf)\<rparr>"

text \<open>The choice for one value: callee-saved only when it is live across a call.\<close>

definition choose_reg :: "bool \<Rightarrow> nat \<Rightarrow> reg_file \<Rightarrow> nat option \<times> reg_file" where
  "choose_reg cross s rf =
     (let callee = (case il_pick (rf_callee rf) (rf_busy rf) s of
            None \<Rightarrow> (None, rf) | Some r \<Rightarrow> (Some r, mark_used r rf)) in
      if cross then callee
      else (case il_pick (rf_caller rf) (rf_busy rf) s of
              None \<Rightarrow> callee | Some r \<Rightarrow> (Some r, rf)))"

definition occupy :: "nat \<Rightarrow> nat \<Rightarrow> nat \<Rightarrow> reg_file \<Rightarrow> reg_file" where
  "occupy v r e rf = rf\<lparr>rf_reg_of := (rf_reg_of rf)(v \<mapsto> r), rf_busy := (rf_busy rf)(r \<mapsto> e)\<rparr>"

record scan_state =
  sc_int :: reg_file
  sc_fp :: reg_file
  sc_spill :: "nat list"

definition scan_step :: "(nat \<Rightarrow> bool) \<Rightarrow> intervals \<Rightarrow> nat \<Rightarrow> scan_state \<Rightarrow> scan_state" where
  "scan_step floating iv v st =
     (let s = (case iv_start iv v of None \<Rightarrow> 0 | Some s \<Rightarrow> s);
          e = (case iv_end iv v of None \<Rightarrow> s | Some e \<Rightarrow> e);
          cross = (v \<in> set (crosses iv)) in
      if floating v
      then (case choose_reg cross s (sc_fp st) of
              (Some r, rf) \<Rightarrow> st\<lparr>sc_fp := occupy v r e rf\<rparr>
            | (None, rf) \<Rightarrow> st\<lparr>sc_fp := rf, sc_spill := dset_add v (sc_spill st)\<rparr>)
      else (case choose_reg cross s (sc_int st) of
              (Some r, rf) \<Rightarrow> st\<lparr>sc_int := occupy v r e rf\<rparr>
            | (None, rf) \<Rightarrow> st\<lparr>sc_int := rf, sc_spill := dset_add v (sc_spill st)\<rparr>))"

definition il_linear_scan :: "(nat \<Rightarrow> bool) \<Rightarrow> intervals \<Rightarrow> nat list \<Rightarrow> scan_state \<Rightarrow> scan_state" where
  "il_linear_scan floating iv order st = fold (scan_step floating iv) order st"

section \<open>Copy coalescing\<close>

definition is_control :: "il_kind \<Rightarrow> bool" where
  "is_control k = (case k of KLabel _ \<Rightarrow> True | KJump _ \<Rightarrow> True | KJumpZero _ \<Rightarrow> True
     | KJumpNotZero _ \<Rightarrow> True | KReturn \<Rightarrow> True | KCall \<Rightarrow> False | KOther \<Rightarrow> False)"

definition il_coalesce_safe :: "il_cmd list \<Rightarrow> int \<Rightarrow> nat \<Rightarrow> nat \<Rightarrow> bool" where
  "il_coalesce_safe cmds dk k out =
     (\<not> (dk < 0 \<or> dk > int k) \<and>
      list_all (\<lambda>j. \<not> is_control (il_kind (cmds ! j)) \<and> out \<notin> set (il_ins (cmds ! j)) \<and> out \<notin> set (il_outs (cmds ! j)))
        [nat dk..<k])"

text \<open>Following the chain of coalesced copies; \<open>seen\<close> stops a cycle.\<close>

function il_canon_loop :: "(nat \<times> nat) list \<Rightarrow> nat list \<Rightarrow> nat \<Rightarrow> nat" where
  "il_canon_loop coalesce seen v =
     (case map_of coalesce v of
        Some w \<Rightarrow> if v \<notin> set seen then il_canon_loop coalesce (v # seen) w else v
      | None \<Rightarrow> v)"
  by pat_completeness auto

termination
proof (relation "measure (\<lambda>(co, seen, _). card (fst ` set co - set seen))", goal_cases)
  case (2 co seen v w)
  have "v \<in> fst ` set co - set seen" using 2 by (force dest: map_of_SomeD)
  then have "card (fst ` set co - set seen - {v}) < card (fst ` set co - set seen)"
    by (intro card_Diff1_less) auto
  moreover have "fst ` set co - set seen - {v} = fst ` set co - set (v # seen)" by auto
  ultimately show ?case by simp
qed simp

declare il_canon_loop.simps [simp del]

definition il_canon :: "(nat \<times> nat) list \<Rightarrow> nat \<Rightarrow> nat" where
  "il_canon coalesce v = il_canon_loop coalesce [] v"

end
