(* ===== verification/LinearScanSound.thy ===== *)
theory LinearScanSound
  imports LinearScan
begin

text \<open>
  The shared allocator is correct: the liveness fixpoint is reached and solves the dataflow
  equations, intervals cover every index a value is live at, and the linear scan never gives one
  register to two values whose intervals overlap.
\<close>

section \<open>The liveness fixpoint\<close>

definition tout :: "nat list list \<Rightarrow> nat list list \<Rightarrow> nat \<Rightarrow> nat set" where
  "tout succs lin i = (\<Union>s \<in> set (succs ! i). set (lin ! s))"

definition tin :: "nat list list \<Rightarrow> nat list list \<Rightarrow> nat list list \<Rightarrow> nat list list \<Rightarrow> nat \<Rightarrow> nat set" where
  "tin succs uses defs lin i = (tout succs lin i - set (defs ! i)) \<union> set (uses ! i)"

lemma set_live_out_of: "set (live_out_of lin succ) = (\<Union>s \<in> set succ. set (lin ! s))"
proof -
  have "set (fold (\<lambda>s lo. dset_add_all (lin ! s) lo) succ xs) = set xs \<union> (\<Union>s \<in> set succ. set (lin ! s))" for xs
    by (induction succ arbitrary: xs) auto
  then show ?thesis by (simp add: live_out_of_def)
qed

lemma distinct_live_out_of: "distinct (live_out_of lin succ)"
proof -
  have "distinct xs \<Longrightarrow> distinct (fold (\<lambda>s lo. dset_add_all (lin ! s) lo) succ xs)" for xs
    by (induction succ arbitrary: xs) auto
  then show ?thesis by (simp add: live_out_of_def)
qed

lemma set_live_in_of: "set (live_in_of lo defs uses) = (set lo - set defs) \<union> set uses"
  by (auto simp: live_in_of_def)

lemma distinct_live_in_of: "distinct lo \<Longrightarrow> distinct (live_in_of lo defs uses)"
  by (simp add: live_in_of_def)

lemma differs_grow:
  "distinct new \<Longrightarrow> distinct old \<Longrightarrow> set old \<subseteq> set new \<Longrightarrow> differs new old = (set old \<subset> set new)"
  unfolding differs_def by (metis card_seteq distinct_card finite_set order.order_iff_strict order_refl psubset_card_mono less_irrefl)

definition univ :: "nat list list \<Rightarrow> nat set" where
  "univ uses = (\<Union>u \<in> set uses. set u)"

text \<open>The sets only grow: each is contained in what its equation computes.\<close>

definition pre_fix :: "nat \<Rightarrow> nat list list \<Rightarrow> nat list list \<Rightarrow> nat list list \<Rightarrow> live_state \<Rightarrow> bool" where
  "pre_fix n succs uses defs st =
     (length (live_in st) = n \<and> length (live_out st) = n \<and>
      (\<forall>i < n. distinct (live_in st ! i) \<and> distinct (live_out st ! i) \<and>
         set (live_in st ! i) \<subseteq> univ uses \<and> set (live_out st ! i) \<subseteq> univ uses \<and>
         set (live_in st ! i) \<subseteq> tin succs uses defs (live_in st) i \<and>
         set (live_out st ! i) \<subseteq> tout succs (live_in st) i))"

definition solved_at :: "nat list list \<Rightarrow> nat list list \<Rightarrow> nat list list \<Rightarrow> live_state \<Rightarrow> nat \<Rightarrow> bool" where
  "solved_at succs uses defs st i =
     (set (live_in st ! i) = tin succs uses defs (live_in st) i \<and>
      set (live_out st ! i) = tout succs (live_in st) i)"

definition room :: "nat \<Rightarrow> nat list list \<Rightarrow> live_state \<Rightarrow> nat" where
  "room n uses st = (\<Sum>i < n. (card (univ uses) - card (set (live_in st ! i))) +
                              (card (univ uses) - card (set (live_out st ! i))))"

definition flow_ok :: "nat \<Rightarrow> nat list list \<Rightarrow> nat list list \<Rightarrow> nat list list \<Rightarrow> bool" where
  "flow_ok n succs uses defs = (length succs = n \<and> length uses = n \<and> length defs = n \<and>
     (\<forall>i < n. \<forall>s \<in> set (succs ! i). s < n))"

lemma finite_univ [simp]: "finite (univ uses)" by (simp add: univ_def)

text \<open>Same sets everywhere.\<close>

definition same_sets :: "nat \<Rightarrow> live_state \<Rightarrow> live_state \<Rightarrow> bool" where
  "same_sets n a b = (\<forall>i < n. set (live_in a ! i) = set (live_in b ! i) \<and> set (live_out a ! i) = set (live_out b ! i))"

lemma tout_mono:
  "(\<And>s. s \<in> set (succs ! i) \<Longrightarrow> set (a ! s) \<subseteq> set (b ! s)) \<Longrightarrow> tout succs a i \<subseteq> tout succs b i"
  unfolding tout_def by blast

lemma tin_mono:
  "(\<And>s. s \<in> set (succs ! i) \<Longrightarrow> set (a ! s) \<subseteq> set (b ! s)) \<Longrightarrow> tin succs uses defs a i \<subseteq> tin succs uses defs b i"
  unfolding tin_def tout_def by blast

lemma live_step_spec:
  assumes f: "flow_ok n succs uses defs" and p: "pre_fix n succs uses defs st" and i: "i < n"
  shows "pre_fix n succs uses defs (live_step succs uses defs i st)"
    and "room n uses (live_step succs uses defs i st) \<le> room n uses st"
    and "\<not> changed st \<Longrightarrow> changed (live_step succs uses defs i st) \<Longrightarrow>
      room n uses (live_step succs uses defs i st) < room n uses st"
    and "\<not> changed (live_step succs uses defs i st) \<Longrightarrow> \<not> changed st \<and>
      same_sets n (live_step succs uses defs i st) st \<and> solved_at succs uses defs (live_step succs uses defs i st) i"
proof -
  let ?lo = "live_out_of (live_in st) (succs ! i)"
  let ?li = "live_in_of ?lo (defs ! i) (uses ! i)"
  let ?st = "live_step succs uses defs i st"
  have F: "length succs = n" "length uses = n" "length defs = n"
    "\<And>j s. j < n \<Longrightarrow> s \<in> set (succs ! j) \<Longrightarrow> s < n" using f by (auto simp: flow_ok_def)
  have P: "length (live_in st) = n" "length (live_out st) = n"
    "\<And>j. j < n \<Longrightarrow> distinct (live_in st ! j) \<and> distinct (live_out st ! j) \<and>
         set (live_in st ! j) \<subseteq> univ uses \<and> set (live_out st ! j) \<subseteq> univ uses \<and>
         set (live_in st ! j) \<subseteq> tin succs uses defs (live_in st) j \<and>
         set (live_out st ! j) \<subseteq> tout succs (live_in st) j" using p unfolding pre_fix_def by blast+
  have st: "live_in ?st = (live_in st)[i := ?li]" "live_out ?st = (live_out st)[i := ?lo]"
    "changed ?st = (changed st \<or> differs ?li (live_in st ! i) \<or> differs ?lo (live_out st ! i))"
    by (simp_all add: live_step_def Let_def)
  have lo: "set ?lo = tout succs (live_in st) i" "distinct ?lo"
    by (simp_all add: set_live_out_of tout_def distinct_live_out_of)
  have li: "set ?li = tin succs uses defs (live_in st) i" "distinct ?li"
    using lo by (simp_all add: set_live_in_of tin_def distinct_live_in_of)
  have grow: "set (live_in st ! i) \<subseteq> set ?li" "set (live_out st ! i) \<subseteq> set ?lo" using P(3) [OF i] lo li by blast+
  have mono: "set (live_in st ! s) \<subseteq> set (live_in ?st ! s)" if "s < n" for s
    using that grow(1) P(1) by (cases "s = i") (auto simp: st)
  have U: "tout succs (live_in st) i \<subseteq> univ uses" unfolding tout_def using F(4) [OF i] P(3) by blast
  have U2: "tin succs uses defs (live_in st) i \<subseteq> univ uses"
  proof -
    have "uses ! i \<in> set uses" using i F(2) by simp
    then have "set (uses ! i) \<subseteq> univ uses" unfolding univ_def by blast
    then show ?thesis using U unfolding tin_def by blast
  qed
  have d: "differs ?li (live_in st ! i) = (set (live_in st ! i) \<subset> set ?li)"
    "differs ?lo (live_out st ! i) = (set (live_out st ! i) \<subset> set ?lo)"
    by (rule differs_grow; use P(3) [OF i] li(2) lo(2) grow in simp)+
  have m1: "tin succs uses defs (live_in st) j \<subseteq> tin succs uses defs (live_in ?st) j"
    "tout succs (live_in st) j \<subseteq> tout succs (live_in ?st) j" if "j < n" for j
    using that F(4) mono by (auto intro!: tin_mono tout_mono)
  show "pre_fix n succs uses defs ?st"
    unfolding pre_fix_def
  proof (intro conjI allI impI)
    fix j assume j: "j < n"
    show "distinct (live_in ?st ! j)" "distinct (live_out ?st ! j)"
      using P(3) [OF j] P(1,2) li(2) lo(2) j by (cases "j = i"; simp add: st)+
    show "set (live_in ?st ! j) \<subseteq> univ uses" "set (live_out ?st ! j) \<subseteq> univ uses"
      using P(3) [OF j] P(1,2) li(1) lo(1) U U2 j by (cases "j = i"; simp add: st)+
    show "set (live_in ?st ! j) \<subseteq> tin succs uses defs (live_in ?st) j"
    proof (cases "j = i")
      case True
      then show ?thesis using m1(1) [OF j] li(1) P(1) i by (simp add: st(1))
    next
      case False
      then show ?thesis using m1(1) [OF j] P(3) [OF j] by (simp add: st(1)) blast
    qed
    show "set (live_out ?st ! j) \<subseteq> tout succs (live_in ?st) j"
    proof (cases "j = i")
      case True
      then show ?thesis using m1(2) [OF j] lo(1) P(2) i by (simp add: st(2))
    next
      case False
      then show ?thesis using m1(2) [OF j] P(3) [OF j] by (simp add: st(2)) blast
    qed
  qed (simp_all add: st P)
  let ?t = "\<lambda>s j. (card (univ uses) - card (set (live_in s ! j))) + (card (univ uses) - card (set (live_out s ! j)))"
  have le: "?t ?st j \<le> ?t st j" if "j < n" for j
  proof (cases "j = i")
    case True
    have "card (set (live_in st ! i)) \<le> card (set ?li)" "card (set (live_out st ! i)) \<le> card (set ?lo)"
      using grow by (simp_all add: card_mono)
    then show ?thesis using True i P by (simp add: st)
  qed (simp add: st)
  then show "room n uses ?st \<le> room n uses st" unfolding room_def by (intro sum_mono) simp
  show "room n uses ?st < room n uses st" if nc: "\<not> changed st" "changed ?st"
  proof -
    have s: "set (live_in st ! i) \<subset> set ?li \<or> set (live_out st ! i) \<subset> set ?lo" using nc st(3) d by blast
    have b: "card (set ?li) \<le> card (univ uses)" "card (set ?lo) \<le> card (univ uses)"
      using U U2 li lo by (simp_all add: card_mono)
    have "card (set (live_in st ! i)) \<le> card (set ?li)" "card (set (live_out st ! i)) \<le> card (set ?lo)"
      using grow by (simp_all add: card_mono)
    moreover have "card (set (live_in st ! i)) < card (set ?li) \<or> card (set (live_out st ! i)) < card (set ?lo)"
      using s by (auto intro: psubset_card_mono)
    ultimately have "?t ?st i < ?t st i" using i P b by (auto simp: st)
    then show ?thesis unfolding room_def using le i by (intro sum_strict_mono_ex1) auto
  qed
  assume nc: "\<not> changed ?st"
  then have e: "set ?li = set (live_in st ! i)" "set ?lo = set (live_out st ! i)" "\<not> changed st"
    using st(3) d grow by blast+
  have same: "set (live_in ?st ! j) = set (live_in st ! j)" "set (live_out ?st ! j) = set (live_out st ! j)" if "j < n" for j
    using e P that by (cases "j = i"; simp add: st)+
  have "tin succs uses defs (live_in ?st) i = tin succs uses defs (live_in st) i"
    "tout succs (live_in ?st) i = tout succs (live_in st) i"
    using same(1) F(4) [OF i] by (auto simp: tin_def tout_def)
  then show "\<not> changed st \<and> same_sets n ?st st \<and> solved_at succs uses defs ?st i"
    using e same i li(1) lo(1) by (simp add: same_sets_def solved_at_def)
qed

lemma solved_same:
  assumes "flow_ok n succs uses defs" "i < n" "solved_at succs uses defs a i" "same_sets n b a"
  shows "solved_at succs uses defs b i"
proof -
  have "s < n" if "s \<in> set (succs ! i)" for s using assms(1,2) that by (auto simp: flow_ok_def)
  then have "tout succs (live_in b) i = tout succs (live_in a) i"
    using assms(4) by (auto simp: tout_def same_sets_def)
  then show ?thesis using assms(2-4) by (simp add: solved_at_def same_sets_def tin_def)
qed

lemma same_sets_trans: "same_sets n a b \<Longrightarrow> same_sets n b c \<Longrightarrow> same_sets n a c"
  by (simp add: same_sets_def)

lemma fold_steps:
  assumes f: "flow_ok n succs uses defs"
  shows "set xs \<subseteq> {..<n} \<Longrightarrow> pre_fix n succs uses defs st \<Longrightarrow>
    pre_fix n succs uses defs (fold (live_step succs uses defs) xs st) \<and>
    room n uses (fold (live_step succs uses defs) xs st) \<le> room n uses st \<and>
    (\<not> changed st \<longrightarrow> changed (fold (live_step succs uses defs) xs st) \<longrightarrow>
       room n uses (fold (live_step succs uses defs) xs st) < room n uses st) \<and>
    (\<not> changed (fold (live_step succs uses defs) xs st) \<longrightarrow> \<not> changed st \<and>
       same_sets n (fold (live_step succs uses defs) xs st) st \<and>
       (\<forall>i \<in> set xs. solved_at succs uses defs (fold (live_step succs uses defs) xs st) i))"
proof (induction xs arbitrary: st)
  case Nil
  then show ?case by (simp add: same_sets_def)
next
  case (Cons i xs)
  let ?s1 = "live_step succs uses defs i st"
  let ?t = "fold (live_step succs uses defs) xs ?s1"
  have i: "i < n" using Cons.prems(1) by simp
  note S = live_step_spec [OF f Cons.prems(2) i]
  have "set xs \<subseteq> {..<n}" using Cons.prems(1) by simp
  note IH = Cons.IH [OF this S(1)]
  have "solved_at succs uses defs ?t i \<and> same_sets n ?t st \<and> \<not> changed st" if "\<not> changed ?t"
    using IH S(4) that solved_same [OF f i] same_sets_trans by blast
  moreover have "room n uses ?t < room n uses st" if "\<not> changed st" "changed ?t"
  proof (cases "changed ?s1")
    case True
    then show ?thesis using S(3) [OF that(1) True] IH by linarith
  next
    case False
    then show ?thesis using IH that(2) S(2) by linarith
  qed
  moreover have "room n uses ?t \<le> room n uses st" using IH S(2) by linarith
  ultimately show ?case using IH by simp
qed

definition solved :: "nat \<Rightarrow> nat list list \<Rightarrow> nat list list \<Rightarrow> nat list list \<Rightarrow> live_state \<Rightarrow> bool" where
  "solved n succs uses defs st = (\<forall>i < n. solved_at succs uses defs st i)"

lemma live_round_spec:
  assumes f: "flow_ok n succs uses defs" and p: "pre_fix n succs uses defs st"
  shows "pre_fix n succs uses defs (live_round n succs uses defs st) \<and>
    (changed (live_round n succs uses defs st) \<longrightarrow> room n uses (live_round n succs uses defs st) < room n uses st) \<and>
    room n uses (live_round n succs uses defs st) \<le> room n uses st \<and>
    (\<not> changed (live_round n succs uses defs st) \<longrightarrow> solved n succs uses defs (live_round n succs uses defs st))"
proof -
  let ?z = "st\<lparr>changed := False\<rparr>"
  have z: "pre_fix n succs uses defs ?z" "room n uses ?z = room n uses st" using p by (simp_all add: pre_fix_def room_def)
  have "set (rev [0..<n]) \<subseteq> {..<n}" by auto
  from fold_steps [OF f this z(1)] z(2) show ?thesis unfolding live_round_def solved_def by auto
qed

lemma pre_fix_start: "flow_ok n succs uses defs \<Longrightarrow> pre_fix n succs uses defs (live_start n)"
  by (auto simp: pre_fix_def live_start_def)

lemma label_at_less: "label_at cs k l = Some j \<Longrightarrow> k \<le> j \<and> j < k + length cs"
proof (induction cs arbitrary: k)
  case (Cons c cs)
  then show ?case by (fastforce simp: map_add_def split: option.splits if_splits il_kind.splits dest!: Cons.IH)
qed simp

lemma succ_of_less: "s \<in> set (succ_of cmds i) \<Longrightarrow> s < length cmds"
proof -
  have t: "s < length cmds" if "s \<in> set (case label_at cmds 0 l of Some t \<Rightarrow> [t] | None \<Rightarrow> [])" for l
    using that label_at_less [of cmds 0 l] by (cases "label_at cmds 0 l") auto
  assume "s \<in> set (succ_of cmds i)"
  then show ?thesis using t
    by (cases "il_kind (cmds ! i)") (auto simp: succ_of_def Let_def split: if_splits)
qed

lemma flow_ok_cmds:
  "length uses = length cmds \<Longrightarrow> length defs = length cmds \<Longrightarrow>
     flow_ok (length cmds) (map (succ_of cmds) [0..<length cmds]) uses defs"
  by (auto simp: flow_ok_def dest: succ_of_less)

lemma il_liveness_spec:
  assumes "length uses = length cmds" "length defs = length cmds"
  shows "\<exists>st. il_liveness cmds uses defs = Some st \<and>
    pre_fix (length cmds) (map (succ_of cmds) [0..<length cmds]) uses defs st \<and>
    solved (length cmds) (map (succ_of cmds) [0..<length cmds]) uses defs st"
proof -
  let ?n = "length cmds" and ?succs = "map (succ_of cmds) [0..<length cmds]"
  note f = flow_ok_cmds [OF assms]
  define P where "P st = (pre_fix ?n ?succs uses defs st \<and> (\<not> changed st \<longrightarrow> solved ?n ?succs uses defs st))" for st
  have start: "P (live_start ?n)" using pre_fix_start [OF f] by (simp add: P_def live_start_def)
  have step: "P (live_round ?n ?succs uses defs st) \<and>
      2 * room ?n uses (live_round ?n ?succs uses defs st) + (if changed (live_round ?n ?succs uses defs st) then 1 else 0)
      < 2 * room ?n uses st + (if changed st then 1 else 0)" if "P st" "changed st" for st
    using live_round_spec [OF f, of st] that by (auto simp: P_def)
  have "\<exists>st. while_option changed (live_round ?n ?succs uses defs) (live_start ?n) = Some st"
    by (rule measure_while_option_Some [of P changed _ "\<lambda>st. 2 * room ?n uses st + (if changed st then 1 else 0)"])
      (use step start in auto)
  then obtain st where w: "while_option changed (live_round ?n ?succs uses defs) (live_start ?n) = Some st" by blast
  have "P st" using while_option_rule [where P = P, OF _ w start] step by blast
  moreover have "\<not> changed st" using while_option_stop [OF w] by simp
  ultimately show ?thesis using w by (auto simp: il_liveness_def Let_def P_def)
qed

section \<open>Live values\<close>

text \<open>Some path from \<open>i\<close> uses \<open>v\<close> before it is defined; a use of the same command comes first.\<close>

inductive live_path :: "il_cmd list \<Rightarrow> nat list list \<Rightarrow> nat list list \<Rightarrow> nat \<Rightarrow> nat \<Rightarrow> bool" for cmds uses defs v where
  use: "i < length cmds \<Longrightarrow> v \<in> set (uses ! i) \<Longrightarrow> live_path cmds uses defs v i"
| go: "i < length cmds \<Longrightarrow> v \<notin> set (defs ! i) \<Longrightarrow> s \<in> set (succ_of cmds i) \<Longrightarrow> live_path cmds uses defs v s \<Longrightarrow>
    live_path cmds uses defs v i"

lemma live_path_in:
  assumes "live_path cmds uses defs v i"
    and s: "solved (length cmds) (map (succ_of cmds) [0..<length cmds]) uses defs st"
  shows "v \<in> set (live_in st ! i)"
  using assms(1)
proof (induction rule: live_path.induct)
  case (use i)
  then show ?case using s by (simp add: solved_def solved_at_def tin_def)
next
  case (go i s)
  then show ?case using assms(2) unfolding solved_def solved_at_def tin_def tout_def by auto
qed

text \<open>And nothing else is live: the solution is the least one.\<close>

lemma live_in_path:
  assumes f: "length uses = length cmds" "length defs = length cmds"
    and w: "while_option changed (live_round (length cmds) (map (succ_of cmds) [0..<length cmds]) uses defs)
      (live_start (length cmds)) = Some st" and v: "i < length cmds" "v \<in> set (live_in st ! i)"
  shows "live_path cmds uses defs v i"
proof -
  let ?n = "length cmds" and ?succs = "map (succ_of cmds) [0..<length cmds]"
  note F = flow_ok_cmds [OF f]
  define Q where "Q st = (length (live_in st) = ?n \<and> length (live_out st) = ?n \<and>
    (\<forall>i < ?n. \<forall>v \<in> set (live_in st ! i). live_path cmds uses defs v i))" for st :: live_state
  have step: "Q (live_step ?succs uses defs i st)" if q: "Q st" and i: "i < ?n" for i st
  proof -
    have "live_path cmds uses defs v i" if v: "v \<in> tin ?succs uses defs (live_in st) i" for v
    proof (cases "v \<in> set (uses ! i)")
      case True
      then show ?thesis by (rule live_path.use [OF i])
    next
      case False
      then obtain s where s: "v \<notin> set (defs ! i)" "s \<in> set (succ_of cmds i)" "v \<in> set (live_in st ! s)"
        using v i by (auto simp: tin_def tout_def)
      then have "live_path cmds uses defs v s" using q succ_of_less by (auto simp: Q_def)
      then show ?thesis by (rule live_path.go [OF i s(1,2)])
    qed
    then have "live_path cmds uses defs v j"
      if "j < ?n" "v \<in> set ((live_in st)[i := live_in_of (live_out_of (live_in st) (?succs ! i)) (defs ! i) (uses ! i)] ! j)" for j v
      using that q by (cases "j = i") (auto simp: Q_def set_live_in_of set_live_out_of tin_def tout_def)
    then show ?thesis using q by (simp add: Q_def live_step_def Let_def)
  qed
  have folds: "set xs \<subseteq> {..<?n} \<Longrightarrow> Q st \<Longrightarrow> Q (fold (live_step ?succs uses defs) xs st)" for xs st
    by (induction xs arbitrary: st) (simp_all add: step)
  have "Q (live_round ?n ?succs uses defs st)" if "Q st" for st
  proof -
    have "Q (st\<lparr>changed := False\<rparr>)" using that by (simp add: Q_def)
    then show ?thesis unfolding live_round_def by (intro folds) auto
  qed
  moreover have "Q (live_start ?n)" by (simp add: Q_def live_start_def)
  ultimately have "Q st" using while_option_rule [where P = Q, OF _ w] by blast
  then show ?thesis using v by (simp add: Q_def)
qed

section \<open>Intervals cover what is live\<close>

definition covers :: "intervals \<Rightarrow> nat \<Rightarrow> nat \<Rightarrow> bool" where
  "covers iv v idx = (\<exists>s e. iv_start iv v = Some s \<and> iv_end iv v = Some e \<and> s \<le> idx \<and> idx \<le> e)"

definition iv_ok :: "intervals \<Rightarrow> bool" where
  "iv_ok iv = (\<forall>v. (iv_start iv v = None) = (iv_end iv v = None) \<and>
     (\<forall>s e. iv_start iv v = Some s \<longrightarrow> iv_end iv v = Some e \<longrightarrow> s \<le> e))"

lemma widen_cases:
  "iv_start iv v = None \<Longrightarrow> iv_end iv v = None \<Longrightarrow>
     widen idx v iv = iv\<lparr>iv_start := (iv_start iv)(v \<mapsto> idx), iv_end := (iv_end iv)(v \<mapsto> idx)\<rparr>"
  "iv_start iv v = Some s \<Longrightarrow> iv_end iv v = Some e \<Longrightarrow>
     widen idx v iv = iv\<lparr>iv_start := (iv_start iv)(v \<mapsto> min idx s), iv_end := (iv_end iv)(v \<mapsto> max idx e)\<rparr>"
  by (auto simp: widen_def Let_def min_def max_def fun_upd_idem intro!: intervals.equality)

lemma iv_ok_cases:
  assumes "iv_ok iv"
  obtains "iv_start iv v = None" "iv_end iv v = None"
  | s e where "iv_start iv v = Some s" "iv_end iv v = Some e" "s \<le> e"
  using assms unfolding iv_ok_def by (metis option.exhaust)

lemma iv_ok_upd:
  "iv_ok iv \<Longrightarrow> s \<le> e \<Longrightarrow> iv_ok (iv\<lparr>iv_start := (iv_start iv)(v \<mapsto> s), iv_end := (iv_end iv)(v \<mapsto> e)\<rparr>)"
  unfolding iv_ok_def by auto

lemma widen_spec:
  assumes "iv_ok iv"
  shows "iv_ok (widen idx v iv)" and "covers (widen idx v iv) v idx"
    and "\<forall>w j. covers iv w j \<longrightarrow> covers (widen idx v iv) w j" and "crosses (widen idx v iv) = crosses iv"
proof -
  have "iv_ok (widen idx v iv) \<and> covers (widen idx v iv) v idx \<and>
    (\<forall>w j. covers iv w j \<longrightarrow> covers (widen idx v iv) w j) \<and> crosses (widen idx v iv) = crosses iv"
    by (rule iv_ok_cases [OF assms, of v])
      (use iv_ok_upd [OF assms] in \<open>auto simp: widen_cases covers_def\<close>)
  then show "iv_ok (widen idx v iv)" and "covers (widen idx v iv) v idx"
    and "\<forall>w j. covers iv w j \<longrightarrow> covers (widen idx v iv) w j" and "crosses (widen idx v iv) = crosses iv" by blast+
qed

lemma widen_fold:
  "iv_ok iv \<Longrightarrow> iv_ok (fold (widen idx) vs iv) \<and> (\<forall>v \<in> set vs. covers (fold (widen idx) vs iv) v idx) \<and>
     (\<forall>w j. covers iv w j \<longrightarrow> covers (fold (widen idx) vs iv) w j) \<and> crosses (fold (widen idx) vs iv) = crosses iv"
proof (induction vs arbitrary: iv)
  case (Cons v vs)
  note W = widen_spec [OF Cons.prems, of idx v]
  show ?case using Cons.IH [OF W(1)] W(2,3,4) by simp
qed simp

definition here_at :: "live_state \<Rightarrow> nat list list \<Rightarrow> nat list list \<Rightarrow> nat \<Rightarrow> nat set" where
  "here_at lv uses defs i = set (live_in lv ! i) \<union> set (live_out lv ! i) \<union> set (defs ! i) \<union> set (uses ! i)"

lemma covers_crosses [simp]: "covers (iv\<lparr>crosses := c\<rparr>) w j = covers iv w j" "iv_ok (iv\<lparr>crosses := c\<rparr>) = iv_ok iv"
  by (simp_all add: covers_def iv_ok_def)

lemma interval_step_spec:
  assumes "iv_ok iv"
  shows "iv_ok (interval_step cmds lv uses defs idx iv) \<and>
    (\<forall>v \<in> here_at lv uses defs idx. covers (interval_step cmds lv uses defs idx iv) v idx) \<and>
    (\<forall>w j. covers iv w j \<longrightarrow> covers (interval_step cmds lv uses defs idx iv) w j) \<and>
    set (crosses (interval_step cmds lv uses defs idx iv)) = set (crosses iv) \<union>
      (if il_kind (cmds ! idx) = KCall then set (live_in lv ! idx) \<inter> set (live_out lv ! idx) else {})"
  using widen_fold [OF assms, of idx "live_in lv ! idx @ live_out lv ! idx @ defs ! idx @ uses ! idx"]
  by (auto simp: interval_step_def Let_def here_at_def)

lemma il_intervals_spec:
  shows "iv_ok (il_intervals cmds lv uses defs)"
    and "i < length cmds \<Longrightarrow> v \<in> here_at lv uses defs i \<Longrightarrow> covers (il_intervals cmds lv uses defs) v i"
    and "i < length cmds \<Longrightarrow> il_kind (cmds ! i) = KCall \<Longrightarrow> v \<in> set (live_in lv ! i) \<Longrightarrow> v \<in> set (live_out lv ! i) \<Longrightarrow>
      v \<in> set (crosses (il_intervals cmds lv uses defs))"
proof -
  let ?f = "interval_step cmds lv uses defs"
  let ?z = "\<lparr>iv_start = Map.empty, iv_end = Map.empty, crosses = []\<rparr> :: intervals"
  have run: "iv_ok iv \<Longrightarrow> iv_ok (fold ?f xs iv) \<and> (\<forall>w j. covers iv w j \<longrightarrow> covers (fold ?f xs iv) w j) \<and>
      set (crosses iv) \<subseteq> set (crosses (fold ?f xs iv)) \<and>
      (\<forall>i \<in> set xs. (\<forall>v \<in> here_at lv uses defs i. covers (fold ?f xs iv) v i) \<and>
         (il_kind (cmds ! i) = KCall \<longrightarrow> set (live_in lv ! i) \<inter> set (live_out lv ! i) \<subseteq> set (crosses (fold ?f xs iv))))"
    for xs iv
  proof (induction xs arbitrary: iv)
    case (Cons x xs)
    note S = interval_step_spec [OF Cons.prems, of cmds lv uses defs x]
    have "iv_ok (?f x iv)" using S by blast
    from Cons.IH [OF this] S show ?case by (auto split: if_splits)
  qed simp
  have z: "iv_ok ?z" by (simp add: iv_ok_def)
  note R = run [OF z, of "[0..<length cmds]"]
  show "iv_ok (il_intervals cmds lv uses defs)" using R by (simp add: il_intervals_def)
  show "i < length cmds \<Longrightarrow> v \<in> here_at lv uses defs i \<Longrightarrow> covers (il_intervals cmds lv uses defs) v i"
    using R by (simp add: il_intervals_def)
  show "i < length cmds \<Longrightarrow> il_kind (cmds ! i) = KCall \<Longrightarrow> v \<in> set (live_in lv ! i) \<Longrightarrow> v \<in> set (live_out lv ! i) \<Longrightarrow>
      v \<in> set (crosses (il_intervals cmds lv uses defs))"
    using R by (auto simp: il_intervals_def)
qed

section \<open>Linear scan\<close>

lemma il_pick_Some:
  "il_pick pool busy s = Some r \<Longrightarrow> r \<in> set pool \<and> (\<forall>e. busy r = Some e \<longrightarrow> e < s)"
  by (auto simp: il_pick_def find_Some_iff split: option.splits)

definition iv_s :: "intervals \<Rightarrow> nat \<Rightarrow> nat" where
  "iv_s iv v = (case iv_start iv v of None \<Rightarrow> 0 | Some s \<Rightarrow> s)"

definition iv_e :: "intervals \<Rightarrow> nat \<Rightarrow> nat" where
  "iv_e iv v = (case iv_end iv v of None \<Rightarrow> iv_s iv v | Some e \<Rightarrow> e)"

definition apart :: "intervals \<Rightarrow> nat \<Rightarrow> nat \<Rightarrow> bool" where
  "apart iv v w = (iv_e iv v < iv_s iv w \<or> iv_e iv w < iv_s iv v)"

lemma iv_s_le_e: "iv_ok iv \<Longrightarrow> iv_s iv v \<le> iv_e iv v"
  by (auto simp: iv_s_def iv_e_def iv_ok_def split: option.split)

text \<open>What holds of one register file after the values \<open>dn\<close>.\<close>

definition reg_ok :: "intervals \<Rightarrow> nat set \<Rightarrow> reg_file \<Rightarrow> nat \<Rightarrow> nat \<Rightarrow> bool" where
  "reg_ok iv dn rf v r = (v \<in> dn \<and> (\<exists>e. rf_busy rf r = Some e \<and> iv_e iv v \<le> e) \<and>
     r \<in> set (rf_caller rf) \<union> set (rf_callee rf) \<and> (v \<in> set (crosses iv) \<longrightarrow> r \<in> set (rf_callee rf)) \<and>
     (r \<in> set (rf_callee rf) \<longrightarrow> r \<in> set (rf_used_callee rf) \<or> r \<in> set (rf_caller rf)))"

definition file_ok :: "intervals \<Rightarrow> nat set \<Rightarrow> reg_file \<Rightarrow> bool" where
  "file_ok iv dn rf =
     ((\<forall>v r. rf_reg_of rf v = Some r \<longrightarrow> reg_ok iv dn rf v r) \<and>
      (\<forall>v w r. rf_reg_of rf v = Some r \<longrightarrow> rf_reg_of rf w = Some r \<longrightarrow> v \<noteq> w \<longrightarrow> apart iv v w))"

lemma choose_reg_spec:
  assumes "choose_reg cross s rf = (res, rf')"
  shows "rf_caller rf' = rf_caller rf" "rf_callee rf' = rf_callee rf" "rf_busy rf' = rf_busy rf"
    "rf_reg_of rf' = rf_reg_of rf" "set (rf_used_callee rf) \<subseteq> set (rf_used_callee rf')"
    "\<And>r. res = Some r \<Longrightarrow> (\<forall>e. rf_busy rf r = Some e \<longrightarrow> e < s) \<and>
       r \<in> set (rf_caller rf) \<union> set (rf_callee rf) \<and> (cross \<longrightarrow> r \<in> set (rf_callee rf)) \<and>
       (r \<in> set (rf_callee rf) \<longrightarrow> r \<in> set (rf_used_callee rf') \<or> r \<in> set (rf_caller rf))"
  using assms
  by (auto simp: choose_reg_def Let_def mark_used_def split: if_splits option.splits dest: il_pick_Some)

lemma reg_ok_choose:
  "reg_ok iv dn rf v q \<Longrightarrow> choose_reg cross s rf = (res, rf') \<Longrightarrow> reg_ok iv dn rf' v q"
  using choose_reg_spec(1-5) [of cross s rf res rf'] unfolding reg_ok_def by auto

lemma file_ok_choose:
  assumes "file_ok iv dn rf" "choose_reg cross s rf = (res, rf')"
  shows "file_ok iv dn rf'"
  using assms(1) reg_ok_choose [OF _ assms(2)] choose_reg_spec(4) [OF assms(2)] unfolding file_ok_def by metis

lemma reg_ok_occupy:
  "reg_ok iv dn rf w q \<Longrightarrow> (\<And>b. q = r \<Longrightarrow> rf_busy rf r = Some b \<Longrightarrow> b \<le> e) \<Longrightarrow>
     reg_ok iv (insert v dn) (occupy v r e rf) w q"
  unfolding reg_ok_def occupy_def by (cases "q = r") fastforce+

lemma file_ok_occupy:
  assumes f: "file_ok iv dn rf" and c: "choose_reg (v \<in> set (crosses iv)) (iv_s iv v) rf = (Some r, rf')"
    and v: "v \<notin> dn" and iv: "iv_ok iv"
  shows "file_ok iv (insert v dn) (occupy v r (iv_e iv v) rf')"
proof -
  note C = choose_reg_spec [OF c]
  note R = C(6) [OF refl]
  let ?rf = "occupy v r (iv_e iv v) rf'"
  have f': "file_ok iv dn rf'" by (rule file_ok_choose [OF f c])
  have le: "iv_s iv v \<le> iv_e iv v" by (rule iv_s_le_e [OF iv])
  have busy: "b < iv_s iv v" if "rf_busy rf' r = Some b" for b using that R C(3) by simp
  have old: "iv_e iv w < iv_s iv v" if w: "rf_reg_of rf' w = Some r" for w
    using f' w busy unfolding file_ok_def reg_ok_def by fastforce
  have new: "reg_ok iv (insert v dn) ?rf v r"
    using R C(1,2) by (simp add: reg_ok_def occupy_def)
  have all: "reg_ok iv (insert v dn) ?rf w q" if w: "rf_reg_of ?rf w = Some q" for w q
  proof (cases "w = v")
    case True
    then show ?thesis using w new by (simp add: occupy_def)
  next
    case False
    then have "reg_ok iv dn rf' w q" using w f' unfolding file_ok_def by (simp add: occupy_def)
    then show ?thesis using busy le by (intro reg_ok_occupy) fastforce+
  qed
  have "apart iv w u" if a: "rf_reg_of ?rf w = Some q" "rf_reg_of ?rf u = Some q" "w \<noteq> u" for w u q
  proof -
    have st: "apart iv w u" if "rf_reg_of rf' w = Some q" "rf_reg_of rf' u = Some q"
      using f' that a(3) unfolding file_ok_def by blast
    show ?thesis
      using a old [of w] old [of u] st by (cases "w = v"; cases "u = v") (auto simp: occupy_def apart_def)
  qed
  then show ?thesis using all unfolding file_ok_def by blast
qed

lemma file_ok_mono: "file_ok iv dn rf \<Longrightarrow> dn \<subseteq> dn' \<Longrightarrow> file_ok iv dn' rf"
  unfolding file_ok_def reg_ok_def by blast

definition scan_ok :: "(nat \<Rightarrow> bool) \<Rightarrow> intervals \<Rightarrow> nat set \<Rightarrow> scan_state \<Rightarrow> bool" where
  "scan_ok floating iv dn st = (file_ok iv dn (sc_int st) \<and> file_ok iv dn (sc_fp st) \<and>
     (\<forall>v \<in> dn. v \<in> set (sc_spill st) \<or> rf_reg_of (if floating v then sc_fp st else sc_int st) v \<noteq> None))"

lemma scan_step_eq:
  "scan_step floating iv v st =
     (let res = choose_reg (v \<in> set (crosses iv)) (iv_s iv v) (if floating v then sc_fp st else sc_int st);
          rf = (case fst res of Some r \<Rightarrow> occupy v r (iv_e iv v) (snd res) | None \<Rightarrow> snd res);
          st1 = (if floating v then st\<lparr>sc_fp := rf\<rparr> else st\<lparr>sc_int := rf\<rparr>) in
      case fst res of Some _ \<Rightarrow> st1 | None \<Rightarrow> st1\<lparr>sc_spill := dset_add v (sc_spill st)\<rparr>)"
  unfolding scan_step_def Let_def iv_s_def [symmetric] iv_e_def [symmetric]
  by (cases "choose_reg (v \<in> set (crosses iv)) (iv_s iv v) (if floating v then sc_fp st else sc_int st)";
      cases "fst (choose_reg (v \<in> set (crosses iv)) (iv_s iv v) (if floating v then sc_fp st else sc_int st))";
      cases "floating v") simp_all

lemma occupy_reg_of: "rf_reg_of (occupy v r e rf) = (rf_reg_of rf)(v \<mapsto> r)" by (simp add: occupy_def)

lemma scan_step_ok:
  assumes s: "scan_ok floating iv dn st" and v: "v \<notin> dn" and iv: "iv_ok iv"
  shows "scan_ok floating iv (insert v dn) (scan_step floating iv v st)"
proof -
  let ?rf = "if floating v then sc_fp st else sc_int st"
  obtain res rf where c: "choose_reg (v \<in> set (crosses iv)) (iv_s iv v) ?rf = (res, rf)" by (meson surj_pair)
  have f: "file_ok iv dn ?rf" "file_ok iv dn (sc_int st)" "file_ok iv dn (sc_fp st)"
    using s by (auto simp: scan_ok_def)
  note M = file_ok_mono [OF f(2), of "insert v dn"] file_ok_mono [OF f(3), of "insert v dn"]
  have mem: "\<forall>v \<in> dn. v \<in> set (sc_spill st) \<or> rf_reg_of (if floating v then sc_fp st else sc_int st) v \<noteq> None"
    using s unfolding scan_ok_def by blast
  have old: "w \<in> set (sc_spill st) \<or> (\<exists>y. rf_reg_of (sc_fp st) w = Some y)" if "w \<in> dn" "floating w" for w
    using bspec [OF mem that(1)] that(2) by simp
  have old2: "w \<in> set (sc_spill st) \<or> (\<exists>y. rf_reg_of (sc_int st) w = Some y)" if "w \<in> dn" "\<not> floating w" for w
    using bspec [OF mem that(1)] that(2) by simp
  have ro: "rf_reg_of rf = rf_reg_of ?rf" by (rule choose_reg_spec(4) [OF c])
  show ?thesis
  proof (cases res)
    case None
    have "file_ok iv (insert v dn) rf" by (rule file_ok_mono [OF file_ok_choose [OF f(1) c]]) blast
    then show ?thesis using M old old2 None ro
      by (simp add: scan_step_eq c Let_def scan_ok_def subset_insertI split: if_splits)
  next
    case (Some r)
    have "file_ok iv (insert v dn) (occupy v r (iv_e iv v) rf)"
      using file_ok_occupy [OF f(1) _ v iv] c Some by blast
    then show ?thesis using M old old2 Some ro
      by (simp add: scan_step_eq c Let_def scan_ok_def subset_insertI occupy_reg_of split: if_splits)
  qed
qed

lemma scan_ok_fold:
  "scan_ok floating iv dn st \<Longrightarrow> distinct order \<Longrightarrow> set order \<inter> dn = {} \<Longrightarrow> iv_ok iv \<Longrightarrow>
     scan_ok floating iv (set order \<union> dn) (il_linear_scan floating iv order st)"
  unfolding il_linear_scan_def
proof (induction order arbitrary: dn st)
  case (Cons v order)
  have "scan_ok floating iv (insert v dn) (scan_step floating iv v st)"
    using Cons.prems by (intro scan_step_ok) auto
  then have "scan_ok floating iv (set order \<union> insert v dn) (fold (scan_step floating iv) order (scan_step floating iv v st))"
    using Cons.prems by (intro Cons.IH) auto
  then show ?case by simp
qed simp

definition fresh_scan :: "scan_state \<Rightarrow> bool" where
  "fresh_scan st = (rf_reg_of (sc_int st) = Map.empty \<and> rf_reg_of (sc_fp st) = Map.empty)"

lemma scan_ok_fresh: "fresh_scan st \<Longrightarrow> scan_ok floating iv {} st"
  by (simp add: fresh_scan_def scan_ok_def file_ok_def)

lemma scan_step_pools:
  "rf_caller (sc_int (scan_step floating iv v st)) = rf_caller (sc_int st) \<and>
   rf_callee (sc_int (scan_step floating iv v st)) = rf_callee (sc_int st) \<and>
   rf_caller (sc_fp (scan_step floating iv v st)) = rf_caller (sc_fp st) \<and>
   rf_callee (sc_fp (scan_step floating iv v st)) = rf_callee (sc_fp st)"
proof -
  let ?rf = "if floating v then sc_fp st else sc_int st"
  obtain res rf where c: "choose_reg (v \<in> set (crosses iv)) (iv_s iv v) ?rf = (res, rf)" by (meson surj_pair)
  show ?thesis using choose_reg_spec(1,2) [OF c]
    by (cases res) (simp_all add: scan_step_eq c Let_def occupy_def)
qed

lemma linear_scan_pools:
  "rf_caller (sc_int (il_linear_scan floating iv order st)) = rf_caller (sc_int st) \<and>
   rf_callee (sc_int (il_linear_scan floating iv order st)) = rf_callee (sc_int st) \<and>
   rf_caller (sc_fp (il_linear_scan floating iv order st)) = rf_caller (sc_fp st) \<and>
   rf_callee (sc_fp (il_linear_scan floating iv order st)) = rf_callee (sc_fp st)"
  unfolding il_linear_scan_def by (induction order arbitrary: st) (simp_all add: scan_step_pools)

text \<open>The register a value got, of the file its type belongs to.\<close>

definition reg_for :: "(nat \<Rightarrow> bool) \<Rightarrow> scan_state \<Rightarrow> nat \<Rightarrow> nat option" where
  "reg_for floating st v = rf_reg_of (if floating v then sc_fp st else sc_int st) v"

text \<open>A value occupies its home at an index: it is read or written there, or live before or after.\<close>

definition present :: "il_cmd list \<Rightarrow> nat list list \<Rightarrow> nat list list \<Rightarrow> nat \<Rightarrow> nat \<Rightarrow> bool" where
  "present cmds uses defs i v = (v \<in> set (uses ! i) \<or> v \<in> set (defs ! i) \<or> live_path cmds uses defs v i \<or>
     (\<exists>s \<in> set (succ_of cmds i). live_path cmds uses defs v s))"

lemma solved_out:
  "solved (length cmds) (map (succ_of cmds) [0..<length cmds]) uses defs st \<Longrightarrow> i < length cmds \<Longrightarrow>
     set (live_out st ! i) = (\<Union>s \<in> set (succ_of cmds i). set (live_in st ! s))"
  by (simp add: solved_def solved_at_def tout_def)

lemma liveness_exact:
  assumes "length uses = length cmds" "length defs = length cmds"
  shows "\<exists>lv. il_liveness cmds uses defs = Some lv \<and>
    (\<forall>i < length cmds. \<forall>v. (v \<in> set (live_in lv ! i)) = live_path cmds uses defs v i \<and>
       (v \<in> set (live_out lv ! i)) = (\<exists>s \<in> set (succ_of cmds i). live_path cmds uses defs v s))"
proof -
  obtain lv where lv: "il_liveness cmds uses defs = Some lv"
    "solved (length cmds) (map (succ_of cmds) [0..<length cmds]) uses defs lv"
    using il_liveness_spec [OF assms] by blast
  have li: "(v \<in> set (live_in lv ! i)) = live_path cmds uses defs v i" if "i < length cmds" for i v
    using live_path_in [OF _ lv(2)] live_in_path [OF assms _ that] lv(1) by (auto simp: il_liveness_def Let_def)
  have "(v \<in> set (live_out lv ! i)) = (\<exists>s \<in> set (succ_of cmds i). live_path cmds uses defs v s)"
    if i: "i < length cmds" for i v
    using solved_out [OF lv(2) i] li succ_of_less [of _ cmds i] by auto
  then show ?thesis using lv(1) li by blast
qed

lemma present_covered:
  assumes "length uses = length cmds" "length defs = length cmds" "il_liveness cmds uses defs = Some lv"
    "i < length cmds" "present cmds uses defs i v"
  shows "covers (il_intervals cmds lv uses defs) v i"
proof -
  have "v \<in> here_at lv uses defs i"
    using liveness_exact [OF assms(1,2)] assms(3,4,5) by (auto simp: present_def here_at_def)
  then show ?thesis by (rule il_intervals_spec(2) [OF assms(4)])
qed

lemma covers_iff: "covers iv v i \<Longrightarrow> iv_s iv v \<le> i \<and> i \<le> iv_e iv v"
  by (auto simp: covers_def iv_s_def iv_e_def)

lemma reg_for_file:
  assumes "fresh_scan st0" "distinct order"
    and "reg_for floating (il_linear_scan floating (il_intervals cmds lv uses defs) order st0) v = Some r"
  shows "reg_ok (il_intervals cmds lv uses defs) (set order)
    (if floating v then sc_fp (il_linear_scan floating (il_intervals cmds lv uses defs) order st0)
     else sc_int (il_linear_scan floating (il_intervals cmds lv uses defs) order st0)) v r"
  using scan_ok_fold [OF scan_ok_fresh [OF assms(1)] assms(2) _ il_intervals_spec(1), of floating cmds lv uses defs] assms(3)
  by (auto simp: scan_ok_def file_ok_def reg_for_def split: if_splits)

lemma same_reg_apart:
  assumes "fresh_scan st0" "distinct order" "v \<noteq> w" "floating v = floating w"
    and "reg_for floating (il_linear_scan floating (il_intervals cmds lv uses defs) order st0) v = Some r"
    and "reg_for floating (il_linear_scan floating (il_intervals cmds lv uses defs) order st0) w = Some r"
  shows "apart (il_intervals cmds lv uses defs) v w"
  using scan_ok_fold [OF scan_ok_fresh [OF assms(1)] assms(2) _ il_intervals_spec(1), of floating cmds lv uses defs] assms(3-)
  by (auto simp: scan_ok_def file_ok_def reg_for_def split: if_splits)

section \<open>Coalescing a copy\<close>

text \<open>
  What running a command does to an environment: it reads its inputs and writes its results to its
  outputs in order.  \<open>sem j\<close> is the operation of the command at index \<open>j\<close>; \<open>ren\<close> names the home of each value.
\<close>

fun write_outs :: "nat list \<Rightarrow> int list \<Rightarrow> (nat \<Rightarrow> int) \<Rightarrow> nat \<Rightarrow> int" where
  "write_outs (v # vs) (x # xs) env = write_outs vs xs (env(v := x))"
| "write_outs _ _ env = env"

definition run_cmd :: "(nat \<Rightarrow> int list \<Rightarrow> int list) \<Rightarrow> (nat \<Rightarrow> nat) \<Rightarrow> il_cmd list \<Rightarrow> nat \<Rightarrow> (nat \<Rightarrow> int) \<Rightarrow> nat \<Rightarrow> int" where
  "run_cmd sem ren cmds j env =
     write_outs (map ren (il_outs (cmds ! j))) (sem j (map (\<lambda>v. env (ren v)) (il_ins (cmds ! j)))) env"

definition run_block :: "(nat \<Rightarrow> int list \<Rightarrow> int list) \<Rightarrow> (nat \<Rightarrow> nat) \<Rightarrow> il_cmd list \<Rightarrow> nat list \<Rightarrow> (nat \<Rightarrow> int) \<Rightarrow> nat \<Rightarrow> int" where
  "run_block sem ren cmds js env = fold (run_cmd sem ren cmds) js env"

lemma il_canon_single: "t \<noteq> out \<Longrightarrow> il_canon [(t, out)] v = (if v = t then out else v)"
  by (simp add: il_canon_def il_canon_loop.simps)

text \<open>Environments that agree up to the renaming of \<open>t\<close> to \<open>out\<close>, on the values in \<open>dom\<close>.\<close>

definition agree :: "nat set \<Rightarrow> (nat \<Rightarrow> nat) \<Rightarrow> (nat \<Rightarrow> int) \<Rightarrow> (nat \<Rightarrow> int) \<Rightarrow> bool" where
  "agree vs ren e1 e2 = (\<forall>v \<in> vs. e2 (ren v) = e1 v)"

lemma agree_writes:
  assumes "inj_on ren D" "set vs \<subseteq> D"
  shows "W \<subseteq> D \<Longrightarrow> agree W ren e1 e2 \<Longrightarrow>
    agree (W \<union> set (take (length xs) vs)) ren (write_outs vs xs e1) (write_outs (map ren vs) xs e2)"
  using assms(2)
proof (induction vs xs e1 arbitrary: W e2 rule: write_outs.induct)
  case (1 v vs x xs env)
  have "agree (insert v W) ren (env(v := x)) (e2(ren v := x))"
    using 1(2-4) assms(1) unfolding agree_def inj_on_def by auto
  then have "agree (insert v W \<union> set (take (length xs) vs)) ren
      (write_outs vs xs (env(v := x))) (write_outs (map ren vs) xs (e2(ren v := x)))"
    using 1(2-4) by (intro 1(1)) (auto simp del: fun_upd_apply)
  then show ?case by (simp del: fun_upd_apply)
qed (simp_all add: agree_def)

lemma agree_step:
  assumes "inj_on ren D" "set (il_outs (cmds ! j)) \<subseteq> D" "W \<subseteq> D" "agree W ren e1 e2" "set (il_ins (cmds ! j)) \<subseteq> W"
  shows "agree (W \<union> set (take (length (sem j (map e1 (il_ins (cmds ! j))))) (il_outs (cmds ! j)))) ren
    (run_cmd sem (\<lambda>v. v) cmds j e1) (run_cmd sem ren cmds j e2)"
proof -
  have e: "map (\<lambda>v. e2 (ren v)) (il_ins (cmds ! j)) = map e1 (il_ins (cmds ! j))"
    using assms(4,5) by (auto simp: agree_def subset_iff)
  show ?thesis unfolding run_cmd_def list.map_ident e by (rule agree_writes [OF assms(1,2,3,4)])
qed

lemma agree_mono: "agree W ren e1 e2 \<Longrightarrow> V \<subseteq> W \<Longrightarrow> agree V ren e1 e2"
  by (auto simp: agree_def)

lemma agree_block:
  assumes "inj_on ren D" "agree D ren e1 e2"
    and "\<And>j. j \<in> set js \<Longrightarrow> set (il_outs (cmds ! j)) \<union> set (il_ins (cmds ! j)) \<subseteq> D"
  shows "agree D ren (run_block sem (\<lambda>v. v) cmds js e1) (run_block sem ren cmds js e2)"
  using assms(2,3) unfolding run_block_def
proof (induction js arbitrary: e1 e2)
  case (Cons j js)
  have "set (il_outs (cmds ! j)) \<subseteq> D" "set (il_ins (cmds ! j)) \<subseteq> D" using Cons.prems(2) [of j] by auto
  from agree_step [where sem = sem, OF assms(1) this(1) order_refl Cons.prems(1) this(2)]
  have "agree D ren (run_cmd sem (\<lambda>v. v) cmds j e1) (run_cmd sem ren cmds j e2)" by (rule agree_mono) blast
  from Cons.IH [OF this] Cons.prems(2) show ?case by simp
qed simp

text \<open>What \<open>defcount\<close>, \<open>usecount\<close> and \<open>defidx\<close> establish about the temporary \<open>t\<close>.\<close>

definition single_use :: "il_cmd list \<Rightarrow> nat \<Rightarrow> nat \<Rightarrow> nat \<Rightarrow> bool" where
  "single_use cmds d k t = (t \<in> set (il_outs (cmds ! d)) \<and>
     (\<forall>j < length cmds. (j \<noteq> d \<longrightarrow> t \<notin> set (il_outs (cmds ! j))) \<and> (j \<noteq> k \<longrightarrow> t \<notin> set (il_ins (cmds ! j)))))"

lemma coalesce_block:
  assumes s: "il_coalesce_safe cmds (int d) k out" and k: "k < length cmds" "d < k"
    and copy: "il_ins (cmds ! k) = [t]" "il_outs (cmds ! k) = [out]" "\<And>x. sem k [x] = [x]"
    and t: "t \<noteq> out" "single_use cmds d k t"
    and sem: "\<And>xs. length (sem d xs) = length (il_outs (cmds ! d))" and v: "v \<noteq> t"
  shows "run_block sem (\<lambda>v. v) cmds [d..<Suc k] env v = run_block sem (il_canon [(t, out)]) cmds [d..<k] env v"
proof -
  let ?r = "il_canon [(t, out)]" and ?D = "- {out}" and ?rest = "[Suc d..<k]"
  have r: "?r = (\<lambda>v. if v = t then out else v)" using il_canon_single [OF t(1)] by blast
  have inj: "inj_on ?r ?D" by (auto simp: r inj_on_def)
  have io: "set (il_outs (cmds ! j)) \<union> set (il_ins (cmds ! j)) \<subseteq> ?D" if "d \<le> j" "j < k" for j
    using s that by (auto simp: il_coalesce_safe_def list_all_iff)
  have start: "agree (- {out, t}) ?r env env" by (auto simp: agree_def r)
  have din: "set (il_ins (cmds ! d)) \<subseteq> - {out, t}" using io [of d] t(2) k by (auto simp: single_use_def)
  have dout: "set (il_outs (cmds ! d)) \<subseteq> ?D" using io [of d] k by blast
  have sub: "- {out, t} \<subseteq> ?D" by blast
  let ?e1 = "run_cmd sem (\<lambda>v. v) cmds d env" and ?e2 = "run_cmd sem ?r cmds d env"
  have "agree ?D ?r ?e1 ?e2"
    using agree_step [where sem = sem, OF inj dout sub start din]
    by (rule agree_mono) (use t(2) in \<open>auto simp: sem single_use_def\<close>)
  moreover have "set (il_outs (cmds ! j)) \<union> set (il_ins (cmds ! j)) \<subseteq> ?D" if "j \<in> set ?rest" for j
    using that by (intro io) auto
  ultimately have a: "agree ?D ?r (run_block sem (\<lambda>v. v) cmds ?rest ?e1) (run_block sem ?r cmds ?rest ?e2)"
    by (intro agree_block [OF inj])
  have split: "[d..<Suc k] = d # ?rest @ [k]" "[d..<k] = d # ?rest"
    using k by (simp_all add: upt_conv_Cons)
  have "run_block sem (\<lambda>v. v) cmds [d..<Suc k] env = (run_block sem (\<lambda>v. v) cmds ?rest ?e1)(out := run_block sem (\<lambda>v. v) cmds ?rest ?e1 t)"
    using copy by (simp only: split run_block_def fold.simps fold_append comp_def) (simp add: run_cmd_def)
  moreover have "run_block sem ?r cmds [d..<k] env = run_block sem ?r cmds ?rest ?e2"
    by (simp only: split run_block_def fold.simps comp_def)
  ultimately show ?thesis using bspec [OF a [unfolded agree_def], of t] bspec [OF a [unfolded agree_def], of v] t(1) v
    by (simp del: upt_Suc add: r split: if_splits)
qed

section \<open>Properties\<close>

text \<open>C22: The liveness fixpoint of \<open>_il_liveness\<close> is reached on every function, whatever its jumps, and is
  exact: a value is in \<open>live_in\<close> of a command just when some path from there uses it before defining
  it, and in \<open>live_out\<close> just when such a path starts at a successor.\<close>

theorem il_liveness_exact:
  assumes "length uses = length cmds" "length defs = length cmds"
  shows "\<exists>lv. il_liveness cmds uses defs = Some lv \<and>
    (\<forall>i < length cmds. \<forall>v. (v \<in> set (live_in lv ! i)) = live_path cmds uses defs v i \<and>
       (v \<in> set (live_out lv ! i)) = (\<exists>s \<in> set (succ_of cmds i). live_path cmds uses defs v s))"
  by (rule liveness_exact [OF assms])

definition loop_cmds :: "il_cmd list" where
  "loop_cmds =
     [\<lparr>il_kind = KOther, il_ins = [], il_outs = [1]\<rparr>,
      \<lparr>il_kind = KLabel ''L'', il_ins = [], il_outs = []\<rparr>,
      \<lparr>il_kind = KCall, il_ins = [], il_outs = [2]\<rparr>,
      \<lparr>il_kind = KOther, il_ins = [1, 2], il_outs = [3]\<rparr>,
      \<lparr>il_kind = KJumpNotZero ''L'', il_ins = [3], il_outs = []\<rparr>,
      \<lparr>il_kind = KReturn, il_ins = [3], il_outs = []\<rparr>]"

definition loop_live :: "live_state" where
  "loop_live = \<lparr>live_in = [[], [1], [1], [1, 2], [3, 1], [3]], live_out = [[1], [1], [1, 2], [3, 1], [3, 1], []],
     changed = False\<rparr>"

definition loop_start :: "scan_state" where
  "loop_start = \<lparr>sc_int = \<lparr>rf_caller = [0, 2], rf_callee = [5], rf_busy = Map.empty, rf_used_callee = [], rf_reg_of = Map.empty\<rparr>,
     sc_fp = \<lparr>rf_caller = [], rf_callee = [], rf_busy = Map.empty, rf_used_callee = [], rf_reg_of = Map.empty\<rparr>, sc_spill = []\<rparr>"

text \<open>The witness: 1 lives across the call of the loop, 2 and 3 do not.\<close>

definition loop_scan :: "scan_state" where
  "loop_scan = il_linear_scan (\<lambda>_. False)
     (il_intervals loop_cmds loop_live (map il_ins loop_cmds) (map il_outs loop_cmds)) [1, 2, 3] loop_start"

lemma loop_live: "il_liveness loop_cmds (map il_ins loop_cmds) (map il_outs loop_cmds) = Some loop_live"
  by code_simp

lemma loop_lens [simp]: "length loop_cmds = 6" by code_simp

theorem il_liveness_exact_witness:
  "live_path loop_cmds (map il_ins loop_cmds) (map il_outs loop_cmds) 1 3 \<and>
   \<not> live_path loop_cmds (map il_ins loop_cmds) (map il_outs loop_cmds) 2 2"
proof -
  have "1 \<in> set (live_in loop_live ! 3)" "2 \<notin> set (live_in loop_live ! 2)" by code_simp+
  then show ?thesis
    using il_liveness_exact [of "map il_ins loop_cmds" loop_cmds "map il_outs loop_cmds"] loop_live by auto
qed

lemma fresh_loop_start: "fresh_scan loop_start" by (simp add: fresh_scan_def loop_start_def)

lemma loop_regs: "rf_reg_of (sc_int loop_scan) 1 = Some 5" "rf_reg_of (sc_int loop_scan) 2 = Some 0"
  "rf_reg_of (sc_int loop_scan) 3 = Some 2" by code_simp+

text \<open>C11: Linear scan never shares a register wrongly: two different values of one register file that got the
  same register are never both read, written or live at one command, loops included.\<close>

theorem linear_scan_interference_free:
  assumes "length uses = length cmds" "length defs = length cmds" "il_liveness cmds uses defs = Some lv"
    "fresh_scan st0" "distinct order" "v \<noteq> w" "floating v = floating w"
    "reg_for floating (il_linear_scan floating (il_intervals cmds lv uses defs) order st0) v = Some r"
    "reg_for floating (il_linear_scan floating (il_intervals cmds lv uses defs) order st0) w = Some r"
    "i < length cmds" "present cmds uses defs i v"
  shows "\<not> present cmds uses defs i w"
proof
  assume w: "present cmds uses defs i w"
  note C = present_covered [OF assms(1-3,10)]
  show False
    using covers_iff [OF C [OF assms(11)]] covers_iff [OF C [OF w]] same_reg_apart [OF assms(4-9)]
    by (auto simp: apart_def)
qed

definition line_cmds :: "il_cmd list" where
  "line_cmds =
     [\<lparr>il_kind = KOther, il_ins = [], il_outs = [1]\<rparr>,
      \<lparr>il_kind = KOther, il_ins = [1], il_outs = [2]\<rparr>,
      \<lparr>il_kind = KOther, il_ins = [2], il_outs = [3]\<rparr>,
      \<lparr>il_kind = KReturn, il_ins = [3], il_outs = []\<rparr>]"

definition line_live :: "live_state" where
  "line_live = \<lparr>live_in = [[], [1], [2], [3]], live_out = [[1], [2], [3], []], changed = False\<rparr>"

definition line_scan :: "scan_state" where
  "line_scan = il_linear_scan (\<lambda>_. False)
     (il_intervals line_cmds line_live (map il_ins line_cmds) (map il_outs line_cmds)) [1, 2, 3] loop_start"

lemma line_live: "il_liveness line_cmds (map il_ins line_cmds) (map il_outs line_cmds) = Some line_live"
  by code_simp

lemma line_regs: "reg_for (\<lambda>_. False) line_scan 1 = Some 0" "reg_for (\<lambda>_. False) line_scan 3 = Some 0"
  by code_simp+

theorem linear_scan_interference_free_witness:
  "\<not> present line_cmds (map il_ins line_cmds) (map il_outs line_cmds) 3 1"
proof (rule linear_scan_interference_free [OF _ _ line_live fresh_loop_start])
  show "distinct [1::nat, 2, 3]" "(3::nat) \<noteq> 1" by simp_all
  show "reg_for (\<lambda>_. False) (il_linear_scan (\<lambda>_. False)
      (il_intervals line_cmds line_live (map il_ins line_cmds) (map il_outs line_cmds)) [1, 2, 3] loop_start) 3 = Some 0"
    "reg_for (\<lambda>_. False) (il_linear_scan (\<lambda>_. False)
      (il_intervals line_cmds line_live (map il_ins line_cmds) (map il_outs line_cmds)) [1, 2, 3] loop_start) 1 = Some 0"
    using line_regs by (simp_all add: line_scan_def)
  show "present line_cmds (map il_ins line_cmds) (map il_outs line_cmds) 3 3"
    unfolding present_def by code_simp
qed (simp_all add: line_cmds_def)

text \<open>C21: Values that live across a call survive it: a value read later on both sides of a call gets a
  callee-saved register, and every callee-saved register in use is recorded for the prologue to save;
  every value of the order gets a register of its file's pools or is spilled.\<close>

theorem linear_scan_across_calls:
  assumes "length uses = length cmds" "length defs = length cmds" "il_liveness cmds uses defs = Some lv"
    "fresh_scan st0" "distinct order"
    "st = il_linear_scan floating (il_intervals cmds lv uses defs) order st0"
    "rf0 = (if floating v then sc_fp st0 else sc_int st0)" "set (rf_caller rf0) \<inter> set (rf_callee rf0) = {}"
  shows "(v \<in> set order \<longrightarrow> v \<in> set (sc_spill st) \<or> reg_for floating st v \<noteq> None) \<and>
    (\<forall>r. reg_for floating st v = Some r \<longrightarrow> v \<in> set order \<and> r \<in> set (rf_caller rf0) \<union> set (rf_callee rf0) \<and>
       (r \<in> set (rf_callee rf0) \<longrightarrow> r \<in> set (rf_used_callee (if floating v then sc_fp st else sc_int st))) \<and>
       (\<forall>i < length cmds. il_kind (cmds ! i) = KCall \<longrightarrow> live_path cmds uses defs v i \<longrightarrow>
          (\<exists>s \<in> set (succ_of cmds i). live_path cmds uses defs v s) \<longrightarrow> r \<in> set (rf_callee rf0)))"
proof -
  let ?iv = "il_intervals cmds lv uses defs"
  let ?rf = "if floating v then sc_fp st else sc_int st"
  have pools: "rf_caller ?rf = rf_caller rf0" "rf_callee ?rf = rf_callee rf0"
    using linear_scan_pools [of floating ?iv order st0] assms(6,7) by auto
  have "scan_ok floating ?iv (set order) st"
    using scan_ok_fold [OF scan_ok_fresh [OF assms(4)] assms(5) _ il_intervals_spec(1)] assms(6) by simp
  then have "v \<in> set order \<longrightarrow> v \<in> set (sc_spill st) \<or> reg_for floating st v \<noteq> None"
    unfolding scan_ok_def reg_for_def by blast
  moreover have "reg_ok ?iv (set order) ?rf v r" if "reg_for floating st v = Some r" for r
    unfolding assms(6) by (rule reg_for_file [OF assms(4,5) that [unfolded assms(6)]])
  moreover have "v \<in> set (crosses ?iv)" if "i < length cmds" "il_kind (cmds ! i) = KCall" "live_path cmds uses defs v i"
      "\<exists>s \<in> set (succ_of cmds i). live_path cmds uses defs v s" for i
    using liveness_exact [OF assms(1,2)] assms(3) that by (intro il_intervals_spec(3)) auto
  ultimately show ?thesis using assms(8) pools unfolding reg_ok_def by (metis UnE IntI empty_iff)
qed

theorem linear_scan_across_calls_witness:
  "reg_for (\<lambda>_. False) loop_scan 1 = Some 5 \<and> 5 \<in> set (rf_callee (sc_int loop_start)) \<and>
   5 \<in> set (rf_used_callee (sc_int loop_scan))"
proof -
  have r: "reg_for (\<lambda>_. False) loop_scan 1 = Some 5" using loop_regs(1) by (simp add: reg_for_def)
  have k: "il_kind (loop_cmds ! 2) = KCall" by code_simp
  have "1 \<in> set (live_in loop_live ! 2)" "1 \<in> set (live_out loop_live ! 2)" by code_simp+
  then have l: "live_path loop_cmds (map il_ins loop_cmds) (map il_outs loop_cmds) 1 2"
    "\<exists>s \<in> set (succ_of loop_cmds 2). live_path loop_cmds (map il_ins loop_cmds) (map il_outs loop_cmds) 1 s"
    using liveness_exact [of "map il_ins loop_cmds" loop_cmds "map il_outs loop_cmds"] loop_live by auto
  have "set (rf_caller (sc_int loop_start)) \<inter> set (rf_callee (sc_int loop_start)) = {}"
    by (simp add: loop_start_def)
  note A = linear_scan_across_calls [OF _ _ loop_live fresh_loop_start _ loop_scan_def, of "sc_int loop_start" 1,
      THEN conjunct2, rule_format, simplified, OF this r [simplified]]
  have "5 \<in> set (rf_callee (sc_int loop_start))"
    by (rule A [THEN conjunct2, THEN conjunct2, rule_format, of 2]) (use k l in auto)
  then show ?thesis using A r by simp
qed


definition copy_cmds :: "il_cmd list" where
  "copy_cmds =
     [\<lparr>il_kind = KOther, il_ins = [1, 2], il_outs = [3]\<rparr>,
      \<lparr>il_kind = KOther, il_ins = [1], il_outs = [2]\<rparr>,
      \<lparr>il_kind = KOther, il_ins = [3], il_outs = [4]\<rparr>]"


end
