(* ===== verification/ILCmds.thy ===== *)
theory ILCmds
  imports CTypes Liveness
begin

text \<open>
  The commands of the intermediate language (\<open>shivyc/il_cmds/\<close>): one constructor per class with the
  fields its \<open>__init__\<close> keeps, and what each class answers to the methods the register allocator asks
  (\<open>inputs\<close>, \<open>outputs\<close>, \<open>clobber\<close>, the preferences and conflicts, \<open>targets\<close>).  \<open>allocator_view\<close> is the
  command as the liveness and conflict-graph theories see it.
\<close>

section \<open>Commands\<close>

datatype arith = Add | Subtr | Mult | BitAnd | BitOr | BitXor
datatype shift_dir = RBitShift | LBitShift
datatype div_mod = DivOp | ModOp
datatype neg_not = NegOp | NotOp
datatype cmp_kind = NotEqualCmp | EqualCmp | LessCmp | GreaterCmp | LessOrEqCmp | GreaterOrEqCmp

record pack_field =
  pf_arg_index :: nat
  pf_reg_index :: nat
  pf_bit_offset :: int
  pf_size :: int

record call_cmd =
  call_func :: nat
  call_args :: "nat list"
  call_ret :: nat
  call_void :: bool
  call_direct :: "string option"
  call_tail :: bool
  call_variadic :: bool
  call_pack :: "(spot list \<times> pack_field list) option"

datatype il =
    Arith arith nat nat nat             \<comment> \<open>output, arg1, arg2\<close>
  | BitShift shift_dir nat nat nat
  | DivMod div_mod nat nat nat
  | NegNot neg_not nat nat              \<comment> \<open>output, arg\<close>
  | Compare cmp_kind nat nat nat "(string \<times> bool) option" \<comment> \<open>the fused label and whether it negates\<close>
  | SetCmd nat nat
  | LoadArg nat "spot option" "spot option" bool \<comment> \<open>output, arg_reg, stack_spot, is_float\<close>
  | LoadStructArg nat "spot list option" int
  | UnpackArgs "nat list" "spot list" "pack_field list"
  | AddrOf nat nat
  | ReadAt nat nat                      \<comment> \<open>output, addr\<close>
  | SetAt nat nat                       \<comment> \<open>addr, val\<close>
  | SetRel nat nat int "nat option"     \<comment> \<open>val, base, chunk, count\<close>
  | AddrRel nat nat int "nat option"    \<comment> \<open>output, base, chunk, count\<close>
  | ReadRel nat nat int "nat option"
  | VaStartAddr nat int
  | Label string
  | Jump string
  | JumpZero nat string
  | JumpNotZero nat string
  | Return "nat option"
  | Call call_cmd

definition arg_regs :: "spot list" where
  "arg_regs = [RDI, RSI, RDX, RCX, R8, R9]"

text \<open>\<open>LoadArg.__init__\<close>: where the argument arrives.\<close>

definition stack_arg :: "int \<Rightarrow> spot" where
  "stack_arg i = MemSpot (BaseSpot RBP) (16 + 8 * i) 0 None"

definition load_arg :: "nat \<Rightarrow> nat \<Rightarrow> bool \<Rightarrow> spot option \<Rightarrow> bool \<Rightarrow> int option \<Rightarrow> il" where
  "load_arg out arg_num all_stack r is_float stack_index =
     (case r of
        Some rg \<Rightarrow> LoadArg out (Some rg) None is_float
      | None \<Rightarrow> (case stack_index of
          Some i \<Rightarrow> LoadArg out None (Some (stack_arg i)) is_float
        | None \<Rightarrow>
          (if all_stack \<or> arg_num \<ge> length arg_regs
           then LoadArg out None
                  (Some (stack_arg (if all_stack then int arg_num else int arg_num - int (length arg_regs)))) is_float
           else LoadArg out (Some (arg_regs ! arg_num)) None is_float)))"

section \<open>What the allocator asks\<close>

text \<open>The types of the values, with the store of struct objects.\<close>

record types =
  ty_heap :: sheap
  ty_of :: "nat \<Rightarrow> ctype"

definition vsize :: "types \<Rightarrow> nat \<Rightarrow> int" where
  "vsize ty v = size_of (ty_heap ty) (ty_of ty v)"

definition opt_list :: "'a option \<Rightarrow> 'a list" where
  "opt_list x = (case x of None \<Rightarrow> [] | Some a \<Rightarrow> [a])"

definition il_inputs :: "il \<Rightarrow> nat list" where
  "il_inputs c = (case c of
       Arith _ _ a b \<Rightarrow> [a, b] | BitShift _ _ a b \<Rightarrow> [a, b] | DivMod _ _ a b \<Rightarrow> [a, b]
     | NegNot _ _ a \<Rightarrow> [a] | Compare _ _ a b _ \<Rightarrow> [a, b] | SetCmd _ a \<Rightarrow> [a]
     | LoadArg _ _ _ _ \<Rightarrow> [] | LoadStructArg _ _ _ \<Rightarrow> [] | UnpackArgs _ _ _ \<Rightarrow> []
     | AddrOf _ v \<Rightarrow> [v] | ReadAt _ a \<Rightarrow> [a] | SetAt a v \<Rightarrow> [a, v]
     | SetRel v b _ cnt \<Rightarrow> (case cnt of Some k \<Rightarrow> [v, b, k] | None \<Rightarrow> [b, v])
     | AddrRel _ b _ cnt \<Rightarrow> b # opt_list cnt | ReadRel _ b _ cnt \<Rightarrow> b # opt_list cnt
     | VaStartAddr _ _ \<Rightarrow> [] | Label _ \<Rightarrow> [] | Jump _ \<Rightarrow> [] | JumpZero a _ \<Rightarrow> [a] | JumpNotZero a _ \<Rightarrow> [a]
     | Return a \<Rightarrow> opt_list a
     | Call k \<Rightarrow> (case call_direct k of None \<Rightarrow> call_func k # call_args k | Some _ \<Rightarrow> call_args k))"

definition il_outputs :: "il \<Rightarrow> nat list" where
  "il_outputs c = (case c of
       Arith _ out _ _ \<Rightarrow> [out] | BitShift _ out _ _ \<Rightarrow> [out] | DivMod _ out _ _ \<Rightarrow> [out]
     | NegNot _ out _ \<Rightarrow> [out] | Compare _ out _ _ f \<Rightarrow> (if f = None then [out] else []) | SetCmd out _ \<Rightarrow> [out]
     | LoadArg out _ _ _ \<Rightarrow> [out] | LoadStructArg out _ _ \<Rightarrow> [out] | UnpackArgs outs _ _ \<Rightarrow> outs
     | AddrOf out _ \<Rightarrow> [out] | ReadAt out _ \<Rightarrow> [out] | AddrRel out _ _ _ \<Rightarrow> [out] | ReadRel out _ _ _ \<Rightarrow> [out]
     | VaStartAddr out _ \<Rightarrow> [out]
     | Call k \<Rightarrow> (if call_void k then [] else [call_ret k])
     | _ \<Rightarrow> [])"

definition il_clobber :: "il \<Rightarrow> spot list" where
  "il_clobber c = (case c of
       BitShift _ _ _ _ \<Rightarrow> [RCX] | DivMod _ _ _ _ \<Rightarrow> [RAX, RDX]
     | LoadArg _ r _ fl \<Rightarrow> (if fl then [] else opt_list r)
     | LoadStructArg _ rs _ \<Rightarrow> (case rs of None \<Rightarrow> [] | Some l \<Rightarrow> l)
     | UnpackArgs _ regs _ \<Rightarrow> regs | Return _ \<Rightarrow> [RAX]
     | Call _ \<Rightarrow> [RAX, RCX, RDX, RSI, RDI, R8, R9, R10, R11]
     | _ \<Rightarrow> [])"

definition return_reg :: "div_mod \<Rightarrow> spot" where
  "return_reg d = (case d of DivOp \<Rightarrow> RAX | ModOp \<Rightarrow> RDX)"

definition to_bool :: "types \<Rightarrow> nat \<Rightarrow> bool" where
  "to_bool ty out = weak_compat (ty_of ty out) bool_t"

definition il_rel_conf :: "types \<Rightarrow> il \<Rightarrow> (nat \<times> nat list) list" where
  "il_rel_conf ty c = (case c of
       Compare _ out a b _ \<Rightarrow> [(out, [a, b])]
     | SetCmd out a \<Rightarrow> (if to_bool ty out then [(out, [a])] else [])
     | _ \<Rightarrow> [])"

definition il_abs_conf :: "il \<Rightarrow> (nat \<times> spot list) list" where
  "il_abs_conf c = (case c of
       DivMod _ _ _ b \<Rightarrow> [(b, [RDX, RAX])]
     | Call k \<Rightarrow> (case call_direct k of Some _ \<Rightarrow> []
          | None \<Rightarrow> [(call_func k, take (length (call_args k)) arg_regs)])
     | _ \<Rightarrow> [])"

definition il_rel_pref :: "types \<Rightarrow> il \<Rightarrow> (nat \<times> nat list) list" where
  "il_rel_pref ty c = (case c of
       Arith _ out a b \<Rightarrow> [(out, [a, b])] | BitShift _ out a _ \<Rightarrow> [(out, [a])]
     | NegNot _ out a \<Rightarrow> [(out, [a])]
     | SetCmd out a \<Rightarrow> (if to_bool ty out then [] else [(out, [a])])
     | _ \<Rightarrow> [])"

definition big_struct :: "types \<Rightarrow> nat \<Rightarrow> bool" where
  "big_struct ty v = (is_struct_union (ty_of ty v) \<and> vsize ty v > 8)"

definition call_prefs :: "types \<Rightarrow> call_cmd \<Rightarrow> (nat \<times> spot list) list" where
  "call_prefs ty k =
     (let prefs = (if \<not> call_void k \<and> vsize ty (call_ret k) \<le> 8 then [(call_ret k, [RAX])] else []) in
      if call_pack k \<noteq> None then prefs
      else fold (\<lambda>(a, r) p. AList.update a [r] p)
             (zip (filter (\<lambda>a. \<not> is_floating (ty_of ty a) \<and> \<not> big_struct ty a) (call_args k)) arg_regs) prefs)"

definition il_abs_pref :: "types \<Rightarrow> il \<Rightarrow> (nat \<times> spot list) list" where
  "il_abs_pref ty c = (case c of
       BitShift _ _ _ b \<Rightarrow> [(b, [RCX])]
     | DivMod d out a _ \<Rightarrow> AList.update a [RAX] [(out, [return_reg d])]
     | LoadArg out r _ fl \<Rightarrow> (if fl then [] else case r of None \<Rightarrow> [] | Some rg \<Rightarrow> [(out, [rg])])
     | Return (Some a) \<Rightarrow> (if vsize ty a > 8 then [] else [(a, [RAX])])
     | Call k \<Rightarrow> call_prefs ty k
     | _ \<Rightarrow> [])"

definition il_references :: "il \<Rightarrow> nat list list" where
  "il_references c = (case c of
       AddrOf _ v \<Rightarrow> [[v]] | SetRel _ b _ _ \<Rightarrow> [[b]] | AddrRel _ b _ _ \<Rightarrow> [[b]] | ReadRel _ b _ _ \<Rightarrow> [[b]]
     | _ \<Rightarrow> [])"

definition il_label :: "il \<Rightarrow> string option" where
  "il_label c = (case c of Label l \<Rightarrow> Some l | _ \<Rightarrow> None)"

definition il_targets :: "il \<Rightarrow> string list" where
  "il_targets c = (case c of Jump l \<Rightarrow> [l] | JumpZero _ l \<Rightarrow> [l] | JumpNotZero _ l \<Rightarrow> [l]
     | Compare _ _ _ _ (Some (l, _)) \<Rightarrow> [l] | _ \<Rightarrow> [])"

definition il_indir_write :: "il \<Rightarrow> nat list" where
  "il_indir_write c = (case c of SetAt a _ \<Rightarrow> [a] | Call k \<Rightarrow> call_args k | _ \<Rightarrow> [])"

definition il_indir_read :: "il \<Rightarrow> nat list" where
  "il_indir_read c = (case c of ReadAt _ a \<Rightarrow> [a] | Call k \<Rightarrow> call_args k | _ \<Rightarrow> [])"

definition allocator_view :: "types \<Rightarrow> il \<Rightarrow> cmd" where
  "allocator_view ty c = \<lparr>c_inputs = il_inputs c, c_outputs = il_outputs c, c_clobber = il_clobber c,
     c_rel_conf = il_rel_conf ty c, c_abs_conf = il_abs_conf c, c_rel_pref = il_rel_pref ty c,
     c_abs_pref = il_abs_pref ty c, c_references = il_references c, c_label = il_label c, c_targets = il_targets c\<rparr>"

lemmas il_views = il_inputs_def il_outputs_def il_clobber_def il_rel_conf_def il_abs_conf_def il_rel_pref_def
  il_abs_pref_def il_references_def il_label_def il_targets_def

end
