(* ===== verification/AsmCmds.thy ===== *)
theory AsmCmds
  imports Spots
begin

text \<open>
  \<open>shivyc/asm_cmds.py\<close> and the class \<open>ASMCode\<close> of \<open>shivyc/asm_gen.py\<close>: the assembly lines a
  command of the intermediate language is turned into, their spelling, and the sections of the
  assembly file.  A line keeps its operands as spots; \<open>asm_line\<close> is the text \<open>__str__\<close> gives, and is
  \<^const>\<open>None\<close> where spelling an operand raises.  The raw lines whose operands matter here have
  constructors of their own.
\<close>

section \<open>Literals\<close>

text \<open>\<open>int(spot.detail)\<close>: the detail of a literal is an integer or its decimal spelling; \<^const>\<open>None\<close> is
  ValueError.\<close>

definition digit_val :: "char \<Rightarrow> nat option" where
  "digit_val c = (if 48 \<le> (of_char c :: nat) \<and> (of_char c :: nat) \<le> 57 then Some (of_char c - 48) else None)"

fun parse_digits :: "nat \<Rightarrow> string \<Rightarrow> nat option" where
  "parse_digits acc [] = Some acc"
| "parse_digits acc (c # cs) = (case digit_val c of None \<Rightarrow> None | Some d \<Rightarrow> parse_digits (10 * acc + d) cs)"

definition parse_nat :: "string \<Rightarrow> nat option" where
  "parse_nat s = (if s = [] then None else parse_digits 0 s)"

definition parse_int :: "string \<Rightarrow> int option" where
  "parse_int s = (case s of [] \<Rightarrow> None
     | c # cs \<Rightarrow> if c = CHR ''-'' then map_option (\<lambda>n. - int n) (parse_nat cs) else map_option int (parse_nat s))"

definition lit_int :: "literal \<Rightarrow> int option" where
  "lit_int l = (case l of LInt i \<Rightarrow> Some i | LStr s \<Rightarrow> parse_int s)"

section \<open>Assembly commands\<close>

datatype raw = RShl spot int | RShr spot int | ROr spot spot | RMovzx spot spot int
  | RStoreSp int int int    \<comment> \<open>\<open>mov D/QWORD PTR [rsp+off], value\<close> with a size of 4 or 8\<close>
  | ROrSp int spot          \<comment> \<open>\<open>or QWORD PTR [rsp+off], reg\<close>\<close>
  | RText string

datatype asm =
    ACmd string "spot option" "spot option" int  \<comment> \<open>_ASMCommand: name, dest, source, size\<close>
  | AMulti string spot spot int int              \<comment> \<open>_ASMCommandMultiSize: dest, source, source_size, dest_size\<close>
  | AJump string string                          \<comment> \<open>_JumpCommand: name, target\<close>
  | AComment string
  | ARaw raw
  | ALabel string
  | ALea spot spot

definition tab :: string where "tab = [CHR 0x09]"

definition operands :: "string \<Rightarrow> string option \<Rightarrow> string option \<Rightarrow> string" where
  "operands nm d s =
     tab @ nm @ (case d of None \<Rightarrow> [] | Some x \<Rightarrow> if x = [] then [] else '' '' @ x)
       @ (case s of None \<Rightarrow> [] | Some x \<Rightarrow> if x = [] then [] else '', '' @ x)"

text \<open>\<open>dest.asm_str(size) if dest else None\<close>: no operand is no error.\<close>

definition opt_str :: "spot option \<Rightarrow> int \<Rightarrow> string option option" where
  "opt_str sp sz = (case sp of None \<Rightarrow> Some None | Some s \<Rightarrow> map_option Some (asm_str s sz))"

definition raw_text :: "raw \<Rightarrow> string option" where
  "raw_text r = (case r of
       RShl s k \<Rightarrow> map_option (\<lambda>x. ''shl '' @ x @ '', '' @ int_str k) (asm_str s 8)
     | RShr s k \<Rightarrow> map_option (\<lambda>x. ''shr '' @ x @ '', '' @ int_str k) (asm_str s 8)
     | ROr a b \<Rightarrow> do { x \<leftarrow> asm_str a 8; y \<leftarrow> asm_str b 8; Some (''or '' @ x @ '', '' @ y) }
     | RMovzx a b sz \<Rightarrow> do { x \<leftarrow> asm_str a 8; y \<leftarrow> asm_str b sz; Some (''movzx '' @ x @ '', '' @ y) }
     | RStoreSp sz off v \<Rightarrow> Some (''mov '' @ (if sz = 4 then ''DWORD'' else ''QWORD'') @ '' PTR [rsp+'' @ int_str off @ ''], '' @ int_str v)
     | ROrSp off a \<Rightarrow> map_option (\<lambda>x. ''or QWORD PTR [rsp+'' @ int_str off @ ''], '' @ x) (asm_str a 8)
     | RText t \<Rightarrow> Some t)"

definition asm_line :: "asm \<Rightarrow> string option" where
  "asm_line c = (case c of
       ACmd nm d s sz \<Rightarrow> do { x \<leftarrow> opt_str d sz; y \<leftarrow> opt_str s sz; Some (operands nm x y) }
     | AMulti nm d s ssz dsz \<Rightarrow> do { x \<leftarrow> asm_str d ssz; y \<leftarrow> asm_str s dsz; Some (operands nm (Some x) (Some y)) }
     | AJump nm t \<Rightarrow> Some (tab @ nm @ '' '' @ t)
     | AComment m \<Rightarrow> Some (tab @ ''// '' @ m)
     | ARaw r \<Rightarrow> map_option (\<lambda>t. tab @ t) (raw_text r)
     | ALabel l \<Rightarrow> Some (mangle_symbol l @ '':'')
     | ALea d s \<Rightarrow> do { x \<leftarrow> asm_str d 8; y \<leftarrow> asm_str s 0; Some (tab @ ''lea '' @ x @ '', '' @ y) })"

text \<open>The classes that the commands of the intermediate language instantiate.\<close>

definition Mov :: "spot \<Rightarrow> spot \<Rightarrow> int \<Rightarrow> asm" where "Mov d s sz = ACmd ''mov'' (Some d) (Some s) sz"
definition Cmp :: "spot \<Rightarrow> spot \<Rightarrow> int \<Rightarrow> asm" where "Cmp d s sz = ACmd ''cmp'' (Some d) (Some s) sz"
definition AsmNeg :: "spot \<Rightarrow> int \<Rightarrow> asm" where "AsmNeg d sz = ACmd ''neg'' (Some d) None sz"
definition AsmNot :: "spot \<Rightarrow> int \<Rightarrow> asm" where "AsmNot d sz = ACmd ''not'' (Some d) None sz"
definition Cdq :: asm where "Cdq = ACmd ''cdq'' None None 0"
definition Cqo :: asm where "Cqo = ACmd ''cqo'' None None 0"
definition Push :: "spot \<Rightarrow> int \<Rightarrow> asm" where "Push d sz = ACmd ''push'' (Some d) None sz"
definition Pop :: "spot \<Rightarrow> int \<Rightarrow> asm" where "Pop d sz = ACmd ''pop'' (Some d) None sz"
definition Ret :: asm where "Ret = ACmd ''ret'' None None 0"
definition AsmCall :: "spot \<Rightarrow> int \<Rightarrow> asm" where "AsmCall d sz = ACmd ''call'' (Some d) None sz"
definition Inst :: "string \<Rightarrow> spot \<Rightarrow> spot \<Rightarrow> int \<Rightarrow> asm" where "Inst nm d s sz = ACmd nm (Some d) (Some s) sz"

lemmas asm_defs = Mov_def Cmp_def AsmNeg_def AsmNot_def Cdq_def Cqo_def Push_def Pop_def Ret_def AsmCall_def Inst_def

section \<open>The assembly file\<close>

record asm_code =
  ac_lines :: "asm list"
  ac_comm :: "string list"
  ac_globals :: "string list"
  ac_data :: "string list"
  ac_strings :: "string list"
  label_num :: nat

definition add_line :: "asm \<Rightarrow> asm_code \<Rightarrow> asm_code" where
  "add_line c ac = ac\<lparr>ac_lines := ac_lines ac @ [c]\<rparr>"

definition get_label :: "asm_code \<Rightarrow> string \<times> asm_code" where
  "get_label ac = (''__shivyc_label'' @ nat_str (Suc (label_num ac)), ac\<lparr>label_num := Suc (label_num ac)\<rparr>)"

definition add_global :: "string \<Rightarrow> asm_code \<Rightarrow> asm_code" where
  "add_global nm ac = ac\<lparr>ac_globals := ac_globals ac @ [tab @ ''.global '' @ mangle_symbol nm]\<rparr>"

definition add_weak :: "string \<Rightarrow> asm_code \<Rightarrow> asm_code" where
  "add_weak nm ac = ac\<lparr>ac_globals := ac_globals ac @ [tab @ ''.weak '' @ mangle_symbol nm]\<rparr>"

definition add_alias :: "string \<Rightarrow> string \<Rightarrow> asm_code \<Rightarrow> asm_code" where
  "add_alias nm target ac =
     ac\<lparr>ac_globals := ac_globals ac @ [tab @ ''.set '' @ mangle_symbol nm @ '', '' @ mangle_symbol target]\<rparr>"

definition size_str :: "int \<Rightarrow> string option" where
  "size_str sz = (if sz = 1 then Some ''byte'' else if sz = 2 then Some ''word''
     else if sz = 4 then Some ''int'' else if sz = 8 then Some ''quad'' else None)"

text \<open>A constant of static data: an integer (a float is its bits) or a symbol with an addend.\<close>

datatype const = CInt int | CSym string int

text \<open>A data directive: \<open>.zero n\<close>, or a value of a given size.\<close>

datatype directive = DZero int | DVal int const

definition directive_text :: "directive \<Rightarrow> string option" where
  "directive_text d = (case d of
       DZero n \<Rightarrow> Some (tab @ ''.zero '' @ int_str n)
     | DVal sz (CInt i) \<Rightarrow> map_option (\<lambda>t. tab @ ''.'' @ t @ '' '' @ int_str i) (size_str sz)
     | DVal sz (CSym s k) \<Rightarrow>
         Some (tab @ ''.'' @ (case size_str sz of Some t \<Rightarrow> t | None \<Rightarrow> ''quad'') @ '' '' @
           mangle_symbol s @ (if k = 0 then [] else ''+'' @ int_str k)))"

definition add_directives :: "string \<Rightarrow> directive list \<Rightarrow> asm_code \<Rightarrow> asm_code option" where
  "add_directives nm ds ac =
     map_option (\<lambda>ts. ac\<lparr>ac_data := ac_data ac @ [mangle_symbol nm @ '':''] @ ts\<rparr>)
       (those (map directive_text ds))"

definition add_data :: "string \<Rightarrow> int \<Rightarrow> int option \<Rightarrow> asm_code \<Rightarrow> asm_code option" where
  "add_data nm sz init ac =
     add_directives nm (case init of None \<Rightarrow> [DZero sz] | Some i \<Rightarrow> if i = 0 then [DZero sz] else [DVal sz (CInt i)]) ac"

text \<open>The loop of \<open>add_data_block\<close>: \<open>pos\<close> is the first byte not written yet.\<close>

fun block_directives :: "(int \<times> int \<times> const) list \<Rightarrow> int \<Rightarrow> int \<Rightarrow> directive list" where
  "block_directives [] pos tot = (if pos < tot then [DZero (tot - pos)] else [])"
| "block_directives ((off, sz, v) # es) pos tot =
     (if off > pos then [DZero (off - pos)] else []) @ [DVal sz v] @ block_directives es (off + sz) tot"

definition add_data_block :: "string \<Rightarrow> (int \<times> int \<times> const) list \<Rightarrow> int \<Rightarrow> asm_code \<Rightarrow> asm_code option" where
  "add_data_block nm entries tot ac = add_directives nm (block_directives (sort_key fst entries) 0 tot) ac"

definition add_comm :: "string \<Rightarrow> int \<Rightarrow> bool \<Rightarrow> asm_code \<Rightarrow> asm_code" where
  "add_comm nm sz loc ac =
     ac\<lparr>ac_comm := ac_comm ac @ (if loc then [tab @ ''.local '' @ mangle_symbol nm] else [])
       @ [tab @ ''.comm '' @ mangle_symbol nm @ '' '' @ int_str sz]\<rparr>"

fun join :: "string \<Rightarrow> string list \<Rightarrow> string" where
  "join sep [] = []"
| "join sep [x] = x"
| "join sep (x # y # zs) = x @ sep @ join sep (y # zs)"

definition add_string_literal :: "string \<Rightarrow> int list \<Rightarrow> int \<Rightarrow> asm_code \<Rightarrow> asm_code option" where
  "add_string_literal nm chars elem_size ac =
     map_option (\<lambda>t. ac\<lparr>ac_strings := ac_strings ac @
         [mangle_symbol nm @ '':'', tab @ ''.'' @ t @ '' '' @ join '','' (map int_str chars)]\<rparr>)
       (size_str elem_size)"

definition full_code :: "string list \<Rightarrow> string list \<Rightarrow> asm_code \<Rightarrow> string option" where
  "full_code prologue epilogue ac =
     (let header = prologue @ ac_comm ac @
            (if ac_strings ac \<noteq> [] \<or> ac_data ac \<noteq> []
             then [tab @ ''.section .data''] @ ac_data ac @ ac_strings ac @ [''''] else []) @
            [tab @ ''.section .text''] @ ac_globals ac;
          footer = [tab @ ''.section'' @ tab @ ''.note.GNU-stack,\"\",@progbits''] @ epilogue @ [''''] in
      map_option (\<lambda>code. join [CHR 0x0A] (header @ code @ footer)) (those (map asm_line (ac_lines ac))))"

section \<open>Static data lies where the entries say\<close>

text \<open>The values of a directive list with the byte each starts at, and the bytes it takes.\<close>

fun placed_at :: "directive list \<Rightarrow> int \<Rightarrow> (int \<times> int \<times> const) list" where
  "placed_at [] pos = []"
| "placed_at (DZero n # ds) pos = placed_at ds (pos + n)"
| "placed_at (DVal sz v # ds) pos = (pos, sz, v) # placed_at ds (pos + sz)"

fun data_bytes :: "directive list \<Rightarrow> int" where
  "data_bytes [] = 0"
| "data_bytes (DZero n # ds) = n + data_bytes ds"
| "data_bytes (DVal sz v # ds) = sz + data_bytes ds"

fun packed_from :: "(int \<times> int \<times> const) list \<Rightarrow> int \<Rightarrow> int \<Rightarrow> bool" where
  "packed_from [] pos tot = (pos \<le> tot)"
| "packed_from ((off, sz, v) # es) pos tot = (pos \<le> off \<and> 0 < sz \<and> packed_from es (off + sz) tot)"

lemma block_placed:
  "packed_from es pos tot \<Longrightarrow> placed_at (block_directives es pos tot) pos = es \<and>
     data_bytes (block_directives es pos tot) = tot - pos"
  by (induction es pos tot rule: packed_from.induct) auto

text \<open>Entries that overlap nowhere and end within the object.\<close>

definition disjoint_entries :: "(int \<times> int \<times> const) list \<Rightarrow> int \<Rightarrow> bool" where
  "disjoint_entries es tot = (distinct (map fst es) \<and> 0 \<le> tot \<and>
     (\<forall>(o1, s1, v1) \<in> set es. 0 \<le> o1 \<and> 0 < s1 \<and> o1 + s1 \<le> tot \<and>
        (\<forall>(o2, s2, v2) \<in> set es. o1 < o2 \<longrightarrow> o1 + s1 \<le> o2)))"

lemma packed_sorted:
  "sorted (map fst es) \<Longrightarrow> distinct (map fst es) \<Longrightarrow> pos \<le> tot \<Longrightarrow>
   (\<forall>(o1, s1, v1) \<in> set es. pos \<le> o1 \<and> 0 < s1 \<and> o1 + s1 \<le> tot \<and>
        (\<forall>(o2, s2, v2) \<in> set es. o1 < o2 \<longrightarrow> o1 + s1 \<le> o2)) \<Longrightarrow> packed_from es pos tot"
proof (induction es arbitrary: pos)
  case (Cons e es)
  obtain o1 s1 v1 where e: "e = (o1, s1, v1)" by (metis prod_cases3)
  have "packed_from es (o1 + s1) tot"
  proof (rule Cons.IH)
    show "\<forall>(a, s, v) \<in> set es. o1 + s1 \<le> a \<and> 0 < s \<and> a + s \<le> tot \<and>
        (\<forall>(o2, s2, v2) \<in> set es. a < o2 \<longrightarrow> a + s \<le> o2)"
    proof (clarify, intro conjI)
      fix a s v assume m: "(a, s, v) \<in> set es"
      have "o1 < a" using Cons.prems(1,2) m e by (force simp: less_le)
      then show "o1 + s1 \<le> a" using Cons.prems(4) m e by fastforce
      show "0 < s" "a + s \<le> tot" "\<forall>(o2, s2, v2) \<in> set es. a < o2 \<longrightarrow> a + s \<le> o2"
        using Cons.prems(4) m by fastforce+
    qed
  qed (use Cons.prems e in auto)
  then show ?case using Cons.prems e by simp
qed simp



end
