(* ===== verification/Codegen.thy ===== *)
theory Codegen
  imports ILCmds AsmCmds
begin

text \<open>
  The state \<open>_generate_asm\<close> of \<open>shivyc/asm_gen.py\<close> threads through the emission of one command, and
  its closure \<open>get_reg\<close>: a register that may be overwritten, or one that is parked in a scratch slot
  for the duration of the command.  An emission that raises is \<^const>\<open>None\<close>.
\<close>

section \<open>State\<close>

record gst =
  gs_code :: asm_code
  gs_pool :: "spot list"                \<comment> \<open>\<open>scratch_pool\<close>\<close>
  gs_spilled :: "(spot \<times> spot) list"    \<comment> \<open>\<open>spilled_this_cmd\<close>\<close>
  gs_frame :: frame

text \<open>What is fixed while one command is emitted.\<close>

record genv =
  ge_regs :: "spot list"      \<comment> \<open>the pool\<close>
  ge_bad :: "spot list"       \<comment> \<open>spots of values live across the command, its outputs left out\<close>
  ge_inputs :: "spot list"
  ge_frameless :: bool

definition emit :: "asm \<Rightarrow> gst \<Rightarrow> gst" where
  "emit c st = st\<lparr>gs_code := add_line c (gs_code st)\<rparr>"

definition new_label :: "gst \<Rightarrow> string \<times> gst" where
  "new_label st = (let (l, ac) = get_label (gs_code st) in (l, st\<lparr>gs_code := ac\<rparr>))"

abbreviation lines_of :: "gst \<Rightarrow> asm list" where
  "lines_of st \<equiv> ac_lines (gs_code st)"

section \<open>Scratch registers\<close>

text \<open>\<open>_apply_thread_budget\<close>: the registers a function may use, \<open>prev\<close> those of the function before it.\<close>

definition known_registers :: "string list \<Rightarrow> spot list" where
  "known_registers names = map RegSpot (filter (\<lambda>n. RegSpot n \<in> set registers) names)"

definition apply_thread_budget :: "string list option \<Rightarrow> spot list \<Rightarrow> spot list" where
  "apply_thread_budget budget prev =
     (case budget of
        None \<Rightarrow> registers
      | Some names \<Rightarrow> if names = [] then registers
          else if length (known_registers names) < 2 then prev else known_registers names)"

definition register_pool :: "spot list \<Rightarrow> bool \<Rightarrow> spot list" where
  "register_pool all_registers caller_saved_only =
     (if caller_saved_only then filter (\<lambda>r. r \<notin> set callee_saved_registers) all_registers else all_registers)"

definition bad_spots :: "(nat \<Rightarrow> spot) \<Rightarrow> nat list \<times> nat list \<Rightarrow> nat list \<Rightarrow> spot list" where
  "bad_spots home live outs =
     filter (\<lambda>s. s \<notin> home ` set outs) (map home (filter (\<lambda>v. v \<in> set (snd live)) (fst live)))"

definition command_env :: "spot list \<Rightarrow> bool \<Rightarrow> (nat \<Rightarrow> spot) \<Rightarrow> nat list \<times> nat list \<Rightarrow> il \<Rightarrow> genv" where
  "command_env all_registers frameless home live c =
     \<lparr>ge_regs = register_pool all_registers frameless,
      ge_bad = bad_spots home live (il_outputs c),
      ge_inputs = map home (il_inputs c),
      ge_frameless = frameless\<rparr>"

definition alloc_scratch :: "genv \<Rightarrow> spot list \<Rightarrow> frame \<Rightarrow> spot \<times> frame" where
  "alloc_scratch env pool fr =
     (if near_active fr then alloc_stack_slot 8 fr
      else if ge_frameless env
      then (MemSpot (BaseSpot RSP) (- 8 * (int (length pool) + 1)) 0 None, fr)
      else alloc_stack_slot 8 fr)"

text \<open>\<open>scratch_pool[j]\<close>, allocated when the pool is one short.\<close>

definition need_slot :: "genv \<Rightarrow> nat \<Rightarrow> gst \<Rightarrow> gst" where
  "need_slot env j st =
     (if j = length (gs_pool st)
      then (let (slot, fr) = alloc_scratch env (gs_pool st) (gs_frame st) in
            st\<lparr>gs_pool := gs_pool st @ [slot], gs_frame := fr\<rparr>)
      else st)"

definition park :: "genv \<Rightarrow> spot \<Rightarrow> gst \<Rightarrow> gst" where
  "park env s st =
     (let j = length (gs_spilled st); st1 = need_slot env j st; slot = gs_pool st1 ! j;
          st2 = emit (Mov slot s 8) st1 in
      st2\<lparr>gs_spilled := gs_spilled st2 @ [(s, slot)]\<rparr>)"

definition get_reg :: "genv \<Rightarrow> spot list \<Rightarrow> spot list \<Rightarrow> gst \<Rightarrow> (spot \<times> gst) option" where
  "get_reg env wish avoid st =
     (case List.find (\<lambda>s. is_reg s \<and> s \<notin> set (ge_bad env) \<and> s \<notin> set avoid) (wish @ ge_regs env) of
        Some s \<Rightarrow> Some (s, st)
      | None \<Rightarrow>
        (case List.find (\<lambda>s. is_reg s \<and> s \<notin> set avoid \<and> s \<notin> set (ge_inputs env) \<and>
                s \<notin> fst ` set (gs_spilled st)) (ge_regs env) of
           Some s \<Rightarrow> Some (s, park env s st)
         | None \<Rightarrow> None))"

text \<open>The callback a command's \<open>make_asm\<close> is given.\<close>

type_synonym get_reg_fn = "spot list \<Rightarrow> spot list \<Rightarrow> gst \<Rightarrow> (spot \<times> gst) option"

section \<open>One command\<close>

definition unpark :: "gst \<Rightarrow> gst" where
  "unpark st = fold (\<lambda>(r, slot) st. emit (Mov r slot 8) st) (rev (gs_spilled st)) st"

definition generate_command :: "(get_reg_fn \<Rightarrow> gst \<Rightarrow> gst option) \<Rightarrow> genv \<Rightarrow> string \<Rightarrow> gst \<Rightarrow> gst option" where
  "generate_command make_asm env nm st =
     map_option unpark (make_asm (get_reg env) ((emit (AComment nm) st)\<lparr>gs_spilled := []\<rparr>))"

section \<open>Immediates\<close>

definition is_imm :: "spot \<Rightarrow> bool" where
  "is_imm s = is_literal_spot s"

definition is_imm8 :: "spot \<Rightarrow> bool" where
  "is_imm8 s = (case s of LiteralSpot l \<Rightarrow> (case lit_int l of None \<Rightarrow> False | Some i \<Rightarrow> i < unsig_char_max) | _ \<Rightarrow> False)"

definition is_imm64 :: "spot \<Rightarrow> bool" where
  "is_imm64 s = (case s of LiteralSpot l \<Rightarrow>
       (case lit_int l of None \<Rightarrow> False | Some i \<Rightarrow> i > int_max \<or> i < int_min) | _ \<Rightarrow> False)"

end
