(* ===== verification/MathAsm.thy ===== *)
theory MathAsm
  imports Codegen
begin

text \<open>
  \<open>make_asm\<close> of the arithmetic commands, \<open>shivyc/il_cmds/math.py\<close>: addition and its kin, shifts, division,
  negation.  \<open>home\<close> is the spot map, \<open>gr\<close> the callback \<open>get_reg\<close>; \<^const>\<open>None\<close> is an exception.
\<close>

section \<open>Floating-point operands\<close>

definition fmov :: "int \<Rightarrow> string" where
  "fmov sz = (if sz = 4 then ''movss'' else ''movsd'')"

definition arith_finst :: "arith \<Rightarrow> int \<Rightarrow> string option" where
  "arith_finst op sz = (case op of
       Add \<Rightarrow> Some (if sz = 4 then ''addss'' else ''addsd'')
     | Subtr \<Rightarrow> Some (if sz = 4 then ''subss'' else ''subsd'')
     | Mult \<Rightarrow> Some (if sz = 4 then ''mulss'' else ''mulsd'')
     | _ \<Rightarrow> None)"

definition float_asm :: "string option \<Rightarrow> spot \<Rightarrow> spot \<Rightarrow> spot \<Rightarrow> int \<Rightarrow> gst \<Rightarrow> gst option" where
  "float_asm inst out s1 s2 sz st =
     map_option (\<lambda>i. emit (Inst (fmov sz) out XMM0 sz) (emit (Inst i XMM0 s2 sz) (emit (Inst (fmov sz) XMM0 s1 sz) st))) inst"

section \<open>Addition, subtraction, multiplication and the bitwise operations\<close>

definition arith_name :: "arith \<Rightarrow> string" where
  "arith_name op = (case op of Add \<Rightarrow> ''add'' | Subtr \<Rightarrow> ''sub'' | Mult \<Rightarrow> ''imul'' | BitAnd \<Rightarrow> ''and''
     | BitOr \<Rightarrow> ''or'' | BitXor \<Rightarrow> ''xor'')"

definition commutes :: "arith \<Rightarrow> bool" where
  "commutes op = (op \<noteq> Subtr)"

text \<open>Apply the instruction to \<open>temp\<close> with an operand that may need a register of its own.\<close>

definition apply_operand :: "string \<Rightarrow> spot \<Rightarrow> spot \<Rightarrow> int \<Rightarrow> get_reg_fn \<Rightarrow> gst \<Rightarrow> gst option" where
  "apply_operand nm temp x sz gr st =
     (if \<not> is_imm64 x then Some (emit (Inst nm temp x sz) st)
      else do {
        (temp2, st) \<leftarrow> gr [] [temp] st;
        Some (emit (Inst nm temp temp2 sz) (emit (Mov temp2 x sz) st)) })"

definition negate_unless :: "bool \<Rightarrow> spot \<Rightarrow> int \<Rightarrow> gst \<Rightarrow> gst" where
  "negate_unless c temp sz st = (if c then st else emit (AsmNeg temp sz) st)"

definition arith_asm :: "types \<Rightarrow> (nat \<Rightarrow> spot) \<Rightarrow> arith \<Rightarrow> nat \<Rightarrow> nat \<Rightarrow> nat \<Rightarrow> get_reg_fn \<Rightarrow> gst \<Rightarrow> gst option" where
  "arith_asm ty home op out a b gr st =
     (if is_floating (ty_of ty out) then float_asm (arith_finst op (vsize ty out)) (home out) (home a) (home b) (vsize ty out) st
      else let sz = vsize ty a; nm = arith_name op in do {
        (temp, st) \<leftarrow> gr [home out, home a, home b] [] st;
        st \<leftarrow> (if temp = home a then apply_operand nm temp (home b) sz gr st
              else if temp = home b then
                map_option (negate_unless (commutes op) temp sz) (apply_operand nm temp (home a) sz gr st)
              else if \<not> is_imm64 (home b) then
                Some (emit (Inst nm temp (home b) sz) (emit (Mov temp (home a) sz) st))
              else if \<not> is_imm64 (home a) then
                Some (negate_unless (commutes op) temp sz
                  (emit (Inst nm temp (home a) sz) (emit (Mov temp (home b) sz) st)))
              else None);
        Some (if temp \<noteq> home out then emit (Mov (home out) temp sz) st else st) })"

section \<open>Shifts\<close>

text \<open>\<open>getattr(self.arg1.ctype, "signed", True)\<close>.\<close>

definition signed_default :: "ctype \<Rightarrow> bool" where
  "signed_default t = (case t of IntegerT _ _ sg _ _ \<Rightarrow> sg | _ \<Rightarrow> True)"

definition shift_inst :: "ctype \<Rightarrow> shift_dir \<Rightarrow> string" where
  "shift_inst t d = (case d of LBitShift \<Rightarrow> ''sal'' | RBitShift \<Rightarrow> if signed_default t then ''sar'' else ''shr'')"

definition shift_asm :: "types \<Rightarrow> (nat \<Rightarrow> spot) \<Rightarrow> shift_dir \<Rightarrow> nat \<Rightarrow> nat \<Rightarrow> nat \<Rightarrow> get_reg_fn \<Rightarrow> gst \<Rightarrow> gst option" where
  "shift_asm ty home d out a b gr st =
     (let sz1 = vsize ty a; sz2 = vsize ty b; nm = shift_inst (ty_of ty a) d; out_spot = home out in do {
        (s1, s2, st) \<leftarrow>
          (if \<not> is_imm8 (home b) \<and> home b \<noteq> RCX then do {
             (s1, st) \<leftarrow> (if home a = RCX then do {
                  (t, st) \<leftarrow> gr [out_spot, home a] [home b, RCX] st;
                  Some (t, emit (Mov t (home a) sz1) st) }
                else Some (home a, st));
             Some (s1, RCX, emit (Mov RCX (home b) sz2) st) }
           else Some (home a, home b, st));
        if out_spot = s1 then Some (emit (AMulti nm s1 s2 sz1 1) st)
        else do {
          (t, st) \<leftarrow> gr [out_spot, s1] [s2] st;
          let st = (if s1 \<noteq> t then emit (Mov t s1 sz1) st else st);
              st = emit (AMulti nm t s2 sz1 1) st in
          Some (if t \<noteq> out_spot then emit (Mov out_spot t sz1) st else st) } })"

section \<open>Division\<close>

definition div_finst :: "div_mod \<Rightarrow> int \<Rightarrow> string option" where
  "div_finst d sz = (case d of DivOp \<Rightarrow> Some (if sz = 4 then ''divss'' else ''divsd'') | ModOp \<Rightarrow> None)"

text \<open>\<open>ctype.signed\<close> of a type that has no such attribute raises.\<close>

definition signed_of :: "ctype \<Rightarrow> bool option" where
  "signed_of t = (case t of IntegerT _ _ sg _ _ \<Rightarrow> Some sg | _ \<Rightarrow> None)"

definition widen_sign :: "int \<Rightarrow> gst \<Rightarrow> gst" where
  "widen_sign sz st = (if sz = 4 then emit Cdq st else if sz = 8 then emit Cqo st else st)"

definition divmod_asm :: "types \<Rightarrow> (nat \<Rightarrow> spot) \<Rightarrow> div_mod \<Rightarrow> nat \<Rightarrow> nat \<Rightarrow> nat \<Rightarrow> get_reg_fn \<Rightarrow> gst \<Rightarrow> gst option" where
  "divmod_asm ty home d out a b gr st =
     (if is_floating (ty_of ty out) then float_asm (div_finst d (vsize ty out)) (home out) (home a) (home b) (vsize ty out) st
      else let sz = vsize ty a; s1 = home a; s2 = home b;
               moved = (s1 \<noteq> RAX \<and> s2 \<noteq> RAX);
               st = (if moved then emit (Mov RAX s1 sz) st else st) in do {
        (final2, st) \<leftarrow>
          (if is_imm s2 \<or> s2 = RAX \<or> s2 = RDX then do {
             (r, st) \<leftarrow> gr [] [RAX, RDX] st;
             Some (r, emit (Mov r s2 sz) st) }
           else Some (s2, st));
        let st = (if \<not> moved \<and> s1 \<noteq> return_reg d then emit (Mov RAX s1 sz) st else st);
        sg \<leftarrow> signed_of (ty_of ty a);
        let st = (if sg then emit (ACmd ''idiv'' (Some final2) None sz) (widen_sign sz st)
                  else emit (ACmd ''div'' (Some final2) None sz) (emit (Inst ''xor'' RDX RDX sz) st));
        Some (if home out \<noteq> return_reg d then emit (Mov (home out) (return_reg d) sz) st else st) })"

section \<open>Negation\<close>

definition neg_name :: "neg_not \<Rightarrow> string" where
  "neg_name op = (case op of NegOp \<Rightarrow> ''neg'' | NotOp \<Rightarrow> ''not'')"

definition negnot_asm :: "types \<Rightarrow> (nat \<Rightarrow> spot) \<Rightarrow> neg_not \<Rightarrow> nat \<Rightarrow> nat \<Rightarrow> get_reg_fn \<Rightarrow> gst \<Rightarrow> gst option" where
  "negnot_asm ty home op out a gr st =
     (let sz = vsize ty a; o_spot = home out; a_spot = home a in
      if is_floating (ty_of ty out) then
        Some (emit (Inst (fmov sz) o_spot XMM0 sz)
          (emit (Inst (if sz = 4 then ''subss'' else ''subsd'') XMM0 a_spot sz) (emit (Inst ''xorps'' XMM0 XMM0 sz) st)))
      else do {
        st \<leftarrow> (if o_spot \<noteq> a_spot then
                (if \<not> is_reg o_spot \<and> \<not> is_reg a_spot then do {
                   (r, st) \<leftarrow> gr [] [o_spot, a_spot] st;
                   Some (emit (Mov o_spot r sz) (emit (Mov r a_spot sz) st)) }
                 else Some (emit (Mov o_spot a_spot sz) st))
              else Some st);
        Some (emit (ACmd (neg_name op) (Some o_spot) None sz) st) })"

end
