(* ===== verification/CompareAsm.thy ===== *)
theory CompareAsm
  imports MathAsm
begin

text \<open>
  \<open>make_asm\<close> of the comparison commands, \<open>shivyc/il_cmds/compare.py\<close>: a comparison leaves 0 or 1 in its
  output, or jumps to a label when the peephole pass has fused it with a conditional jump.
\<close>

section \<open>The conditional jumps of the subclasses\<close>

record jump_table =
  signed_cmp_cmd :: string
  unsigned_cmp_cmd :: string
  signed_neg_cmd :: string
  unsigned_neg_cmd :: string
  signed_swap_cmd :: string
  unsigned_swap_cmd :: string
  signed_negswap_cmd :: string
  unsigned_negswap_cmd :: string

definition jump_table_of :: "cmp_kind \<Rightarrow> jump_table" where
  "jump_table_of k = (case k of
     NotEqualCmp \<Rightarrow> \<lparr>signed_cmp_cmd = ''jne'', unsigned_cmp_cmd = ''jne'', signed_neg_cmd = ''je'', unsigned_neg_cmd = ''je'',
       signed_swap_cmd = ''jne'', unsigned_swap_cmd = ''jne'', signed_negswap_cmd = ''je'', unsigned_negswap_cmd = ''je''\<rparr>
   | EqualCmp \<Rightarrow> \<lparr>signed_cmp_cmd = ''je'', unsigned_cmp_cmd = ''je'', signed_neg_cmd = ''jne'', unsigned_neg_cmd = ''jne'',
       signed_swap_cmd = ''je'', unsigned_swap_cmd = ''je'', signed_negswap_cmd = ''jne'', unsigned_negswap_cmd = ''jne''\<rparr>
   | LessCmp \<Rightarrow> \<lparr>signed_cmp_cmd = ''jl'', unsigned_cmp_cmd = ''jb'', signed_neg_cmd = ''jge'', unsigned_neg_cmd = ''jae'',
       signed_swap_cmd = ''jg'', unsigned_swap_cmd = ''ja'', signed_negswap_cmd = ''jle'', unsigned_negswap_cmd = ''jbe''\<rparr>
   | GreaterCmp \<Rightarrow> \<lparr>signed_cmp_cmd = ''jg'', unsigned_cmp_cmd = ''ja'', signed_neg_cmd = ''jle'', unsigned_neg_cmd = ''jbe'',
       signed_swap_cmd = ''jl'', unsigned_swap_cmd = ''jb'', signed_negswap_cmd = ''jge'', unsigned_negswap_cmd = ''jae''\<rparr>
   | LessOrEqCmp \<Rightarrow> \<lparr>signed_cmp_cmd = ''jle'', unsigned_cmp_cmd = ''jbe'', signed_neg_cmd = ''jg'', unsigned_neg_cmd = ''ja'',
       signed_swap_cmd = ''jge'', unsigned_swap_cmd = ''jae'', signed_negswap_cmd = ''jl'', unsigned_negswap_cmd = ''jb''\<rparr>
   | GreaterOrEqCmp \<Rightarrow> \<lparr>signed_cmp_cmd = ''jge'', unsigned_cmp_cmd = ''jae'', signed_neg_cmd = ''jl'', unsigned_neg_cmd = ''jb'',
       signed_swap_cmd = ''jle'', unsigned_swap_cmd = ''jbe'', signed_negswap_cmd = ''jg'', unsigned_negswap_cmd = ''ja''\<rparr>)"

definition unsigned_cmp :: "ctype \<Rightarrow> bool" where
  "unsigned_cmp t = (is_pointer t \<or> (is_integral t \<and> \<not> signed_default t))"

definition select_jump :: "cmp_kind \<Rightarrow> ctype \<Rightarrow> bool \<Rightarrow> bool \<Rightarrow> string" where
  "select_jump k t swapped negate =
     (let u = unsigned_cmp t; T = jump_table_of k in
      if swapped \<and> negate then (if u then unsigned_negswap_cmd T else signed_negswap_cmd T)
      else if swapped then (if u then unsigned_swap_cmd T else signed_swap_cmd T)
      else if negate then (if u then unsigned_neg_cmd T else signed_neg_cmd T)
      else (if u then unsigned_cmp_cmd T else signed_cmp_cmd T))"

section \<open>Bringing the operands into a form \<open>cmp\<close> takes\<close>

definition fix_both_literal_or_mem ::
  "spot \<Rightarrow> spot \<Rightarrow> spot list \<Rightarrow> int \<Rightarrow> get_reg_fn \<Rightarrow> gst \<Rightarrow> (spot \<times> spot \<times> spot list \<times> gst) option" where
  "fix_both_literal_or_mem s1 s2 regs sz1 gr st =
     (if is_literal_spot s1 \<and> is_literal_spot s2 \<or> is_mem s1 \<and> is_mem s2 then do {
        (r, st) \<leftarrow> gr [] regs st;
        Some (r, s2, regs @ [r], emit (Mov r s1 sz1) st) }
      else Some (s1, s2, regs, st))"

definition fix_either_literal64 ::
  "spot \<Rightarrow> spot \<Rightarrow> spot list \<Rightarrow> int \<Rightarrow> int \<Rightarrow> get_reg_fn \<Rightarrow> gst \<Rightarrow> (spot \<times> spot \<times> gst) option" where
  "fix_either_literal64 s1 s2 regs sz1 sz2 gr st =
     (if is_imm64 s1 then do {
        (r, st) \<leftarrow> gr [] (regs @ [s2]) st;
        Some (r, s2, emit (Mov r s1 sz1) st) }
      else if is_imm64 s2 then do {
        (r, st) \<leftarrow> gr [] (regs @ [s1]) st;
        Some (s1, r, emit (Mov r s2 sz2) st) }
      else Some (s1, s2, st))"

definition fix_literal_wrong_order :: "spot \<Rightarrow> spot \<Rightarrow> spot \<times> spot \<times> bool" where
  "fix_literal_wrong_order s1 s2 = (if is_imm s1 then (s2, s1, True) else (s1, s2, False))"

text \<open>The three fixes in the order both branches of \<open>make_asm\<close> apply them.\<close>

definition fix_operands ::
  "spot \<Rightarrow> spot \<Rightarrow> spot list \<Rightarrow> int \<Rightarrow> int \<Rightarrow> get_reg_fn \<Rightarrow> gst \<Rightarrow> (spot \<times> spot \<times> bool \<times> gst) option" where
  "fix_operands s1 s2 regs sz1 sz2 gr st = do {
     (s1, s2, regs, st) \<leftarrow> fix_both_literal_or_mem s1 s2 regs sz1 gr st;
     (s1, s2, st) \<leftarrow> fix_either_literal64 s1 s2 regs sz1 sz2 gr st;
     let (s1, s2, swapped) = fix_literal_wrong_order s1 s2 in
     Some (s1, s2, swapped, st) }"

section \<open>Floating-point comparisons\<close>

definition f_swap :: "cmp_kind \<Rightarrow> bool" where
  "f_swap k = (k = LessCmp \<or> k = LessOrEqCmp)"

definition f_jump :: "cmp_kind \<Rightarrow> string option" where
  "f_jump k = (case k of LessCmp \<Rightarrow> Some ''ja'' | GreaterCmp \<Rightarrow> Some ''ja''
     | LessOrEqCmp \<Rightarrow> Some ''jae'' | GreaterOrEqCmp \<Rightarrow> Some ''jae'' | _ \<Rightarrow> None)"

abbreviation lit1 :: spot where "lit1 \<equiv> LiteralSpot (LInt 1)"
abbreviation lit0 :: spot where "lit0 \<equiv> LiteralSpot (LInt 0)"

definition compare_float_asm :: "types \<Rightarrow> (nat \<Rightarrow> spot) \<Rightarrow> cmp_kind \<Rightarrow> nat \<Rightarrow> nat \<Rightarrow> nat \<Rightarrow> get_reg_fn \<Rightarrow> gst \<Rightarrow> gst option" where
  "compare_float_asm ty home k out a b gr st =
     (let sz = vsize ty a; osz = vsize ty out; ucomi = (if sz = 4 then ''ucomiss'' else ''ucomisd'') in do {
        (result, st) \<leftarrow> gr [home out] [] st;
        let (end_label, st) = new_label st in do {
        st \<leftarrow> (if k = EqualCmp \<or> k = NotEqualCmp then
                (let (keep, other_v) = (if k = EqualCmp then (lit0, lit1) else (lit1, lit0)) in
                 Some (emit (Mov result other_v osz) (emit (AJump ''jne'' end_label) (emit (AJump ''jp'' end_label)
                   (emit (Mov result keep osz) (emit (Inst ucomi XMM0 (home b) sz) (emit (Inst (fmov sz) XMM0 (home a) sz) st)))))))
              else
                (let (p, q) = (if f_swap k then (home b, home a) else (home a, home b)) in
                 map_option (\<lambda>j. emit (Mov result lit0 osz) (emit (AJump j end_label) (emit (Mov result lit1 osz)
                   (emit (Inst ucomi XMM0 q sz) (emit (Inst (fmov sz) XMM0 p sz) st))))) (f_jump k)));
        let st = emit (ALabel end_label) st in
        Some (if result \<noteq> home out then emit (Mov (home out) result osz) st else st) } })"

section \<open>The command\<close>

definition compare_asm ::
  "types \<Rightarrow> (nat \<Rightarrow> spot) \<Rightarrow> cmp_kind \<Rightarrow> nat \<Rightarrow> nat \<Rightarrow> nat \<Rightarrow> (string \<times> bool) option \<Rightarrow> get_reg_fn \<Rightarrow> gst \<Rightarrow> gst option" where
  "compare_asm ty home k out a b fuse gr st =
     (if is_floating (ty_of ty a) \<or> is_floating (ty_of ty b) then compare_float_asm ty home k out a b gr st
      else case fuse of
        Some (label, negate) \<Rightarrow> do {
          (s1, s2, swapped, st) \<leftarrow> fix_operands (home a) (home b) [] (vsize ty a) (vsize ty b) gr st;
          Some (emit (AJump (select_jump k (ty_of ty a) swapped negate) label) (emit (Cmp s1 s2 (vsize ty a)) st)) }
      | None \<Rightarrow> do {
          (result, st) \<leftarrow> gr [home out] [home a, home b] st;
          let (osz, st) = (vsize ty out, emit (Mov result lit1 (vsize ty out)) st) in do {
          (s1, s2, swapped, st) \<leftarrow> fix_operands (home a) (home b) [result] (vsize ty a) (vsize ty b) gr st;
          let (label, st) = new_label st;
              st = emit (ALabel label) (emit (Mov result lit0 osz)
                (emit (AJump (select_jump k (ty_of ty a) swapped False) label) (emit (Cmp s1 s2 (vsize ty a)) st))) in
          Some (if result \<noteq> home out then emit (Mov (home out) result osz) st else st) } })"

end
