(* ===== verification/ValueAsm.thy ===== *)
theory ValueAsm
  imports MathAsm
begin

text \<open>
  \<open>make_asm\<close> of the value commands, \<open>shivyc/il_cmds/value.py\<close>: arguments, assignments and conversions,
  addresses, reads and writes through pointers and inside objects.  SIMD bit packing is off.
\<close>

section \<open>Moving data of any size\<close>

definition reg_size :: "int \<Rightarrow> int" where
  "reg_size k = (if k \<ge> 8 then 8 else if k \<ge> 4 then 4 else if k \<ge> 2 then 2 else 1)"

text \<open>\<open>spot.value\<close> compared with an integer: a literal kept as a string raises TypeError.\<close>

definition py_value :: "literal \<Rightarrow> int option" where
  "py_value l = (case l of LInt i \<Rightarrow> Some i | LStr _ \<Rightarrow> None)"

definition imm32 :: "int \<Rightarrow> bool" where
  "imm32 v = (- (2 ^ 31) \<le> v \<and> v < 2 ^ 31)"

definition move_chunk :: "spot \<Rightarrow> spot \<Rightarrow> int \<Rightarrow> spot \<Rightarrow> gst \<Rightarrow> gst option" where
  "move_chunk cur_target cur_start rs reg st = do {
     (src, st) \<leftarrow> (case cur_start of
        LiteralSpot l \<Rightarrow>
          if rs = 8 \<and> \<not> is_reg cur_target then do {
            v \<leftarrow> py_value l;
            Some (if imm32 v then (cur_start, st) else (reg, emit (Mov reg cur_start rs) st)) }
          else Some (cur_start, st)
      | _ \<Rightarrow> Some (reg, if reg \<noteq> cur_start then emit (Mov reg cur_start rs) st else st));
     Some (if src \<noteq> cur_target then emit (Mov cur_target src rs) st else st) }"

function move_data_from :: "spot \<Rightarrow> spot \<Rightarrow> int \<Rightarrow> spot \<Rightarrow> int \<Rightarrow> gst \<Rightarrow> gst option" where
  "move_data_from target start sz reg sh st =
     (if sh \<ge> sz then Some st
      else do {
        cur_start \<leftarrow> shift start sh None;
        cur_target \<leftarrow> shift target sh None;
        st \<leftarrow> move_chunk cur_target cur_start (reg_size (sz - sh)) reg st;
        move_data_from target start sz reg (sh + reg_size (sz - sh)) st })"
  by pat_completeness auto
termination
  by (relation "measure (\<lambda>(_, _, sz, _, sh, _). nat (sz - sh))") (auto simp: reg_size_def)

declare move_data_from.simps [simp del]

definition move_data :: "spot \<Rightarrow> spot \<Rightarrow> int \<Rightarrow> spot \<Rightarrow> gst \<Rightarrow> gst option" where
  "move_data target start sz reg st = move_data_from target start sz reg 0 st"

section \<open>Arguments\<close>

definition load_arg_asm :: "types \<Rightarrow> (nat \<Rightarrow> spot) \<Rightarrow> nat \<Rightarrow> spot option \<Rightarrow> spot option \<Rightarrow> bool \<Rightarrow> get_reg_fn \<Rightarrow> gst \<Rightarrow> gst option" where
  "load_arg_asm ty home out arg_reg stack_spot is_float gr st =
     (let dest = home out; sz = vsize ty out; src = (if arg_reg \<noteq> None then arg_reg else stack_spot) in
      if src = Some dest then Some st
      else if is_float then
        Some (if arg_reg \<noteq> None then emit (ACmd (fmov sz) (Some dest) arg_reg sz) st
              else emit (ACmd (fmov sz) (Some dest) (Some XMM0) sz) (emit (ACmd (fmov sz) (Some XMM0) src sz) st))
      else if arg_reg = None \<and> is_mem dest then do {
        (r, st) \<leftarrow> gr [] [] st;
        Some (emit (Mov dest r sz) (emit (ACmd ''mov'' (Some r) src sz) st)) }
      else Some (emit (ACmd ''mov'' (Some dest) src sz) st))"

text \<open>\<open>next(cs for cs in (8, 4, 2, 1) if remaining >= cs)\<close>; nothing left raises StopIteration.\<close>

definition chunk_size :: "int \<Rightarrow> int option" where
  "chunk_size remaining = List.find (\<lambda>cs. remaining \<ge> cs) [8, 4, 2, 1]"

fun store_regs :: "spot \<Rightarrow> int \<Rightarrow> spot list \<Rightarrow> int \<Rightarrow> gst \<Rightarrow> gst option" where
  "store_regs dest sz [] i st = Some st"
| "store_regs dest sz (r # rs) i st = do {
     chunk \<leftarrow> chunk_size (sz - 8 * i);
     d \<leftarrow> shift dest (8 * i) None;
     store_regs dest sz rs (i + 1) (emit (Mov d r chunk) st) }"

definition load_struct_arg_asm :: "types \<Rightarrow> (nat \<Rightarrow> spot) \<Rightarrow> nat \<Rightarrow> spot list option \<Rightarrow> int \<Rightarrow> get_reg_fn \<Rightarrow> gst \<Rightarrow> gst option" where
  "load_struct_arg_asm ty home out rs stack_index gr st =
     (case rs of
        Some rl \<Rightarrow> store_regs (home out) (vsize ty out) rl 0 st
      | None \<Rightarrow> do {
          (r, st) \<leftarrow> gr [] [] st;
          move_data (home out) (stack_arg stack_index) (vsize ty out) r st })"

section \<open>Packed arguments\<close>

definition gprs :: "spot list" where
  "gprs = [RAX, RDI, RSI, RDX, RCX, R8, R9, R10, R11]"

definition nth_opt :: "'a list \<Rightarrow> nat \<Rightarrow> 'a option" where
  "nth_opt xs i = (if i < length xs then Some (xs ! i) else None)"

definition shr_by :: "spot \<Rightarrow> int \<Rightarrow> gst \<Rightarrow> gst" where
  "shr_by r k st = (if k \<noteq> 0 then emit (ARaw (RShr r k)) st else st)"

text \<open>Extract one field from the register or slot \<open>src\<close>, with the work register where its home is memory.\<close>

definition unpack_field :: "spot \<Rightarrow> spot \<Rightarrow> spot option \<Rightarrow> pack_field \<Rightarrow> gst \<Rightarrow> gst option" where
  "unpack_field dest src work f st =
     (if is_reg dest then Some (shr_by dest (pf_bit_offset f) (emit (Mov dest src 8) st))
      else (case work of
          Some w \<Rightarrow> Some (emit (Mov dest w (pf_size f)) (shr_by w (pf_bit_offset f) (emit (Mov w src 8) st)))
        | None \<Rightarrow> if pf_bit_offset f \<noteq> 0 then None
            else Some (emit (ACmd ''mov'' (Some dest) None (pf_size f)) (emit (ACmd ''mov'' None (Some src) 8) st))))"

definition stage :: "spot list \<Rightarrow> spot list \<Rightarrow> (spot \<times> spot) list" where
  "stage rs free = fold (\<lambda>(r, c) d. AList.update r c d) (zip rs free) []"

definition unpack_args_asm :: "(nat \<Rightarrow> spot) \<Rightarrow> nat list \<Rightarrow> spot list \<Rightarrow> pack_field list \<Rightarrow> gst \<Rightarrow> gst option" where
  "unpack_args_asm home outs rs plan st =
     (let n = length rs; homes = filter is_reg (map home outs);
          mem_dest = (\<exists>v \<in> set outs. \<not> is_reg (home v));
          free = filter (\<lambda>r. r \<notin> set homes) gprs in
      if length free \<ge> n + (if mem_dest then 1 else 0) then
        (let staged = stage rs free; work = (if mem_dest then Some (free ! n) else None);
             st = fold (\<lambda>(src, c) st. if c \<noteq> src then emit (Mov c src 8) st else st) staged st in
         ofold (\<lambda>f st. do {
             r \<leftarrow> nth_opt rs (pf_reg_index f); src \<leftarrow> map_of staged r; v \<leftarrow> nth_opt outs (pf_arg_index f);
             unpack_field (home v) src work f st }) plan st)
      else
        (let st = fold (\<lambda>r st. emit (Push r 8) st) rs st; scratch = List.find (\<lambda>r. r \<notin> set homes) gprs in
         map_option (\<lambda>st. emit (Inst ''add'' RSP (LiteralSpot (LStr (int_str (8 * int n)))) 8) st)
           (ofold (\<lambda>f st. do {
               v \<leftarrow> nth_opt outs (pf_arg_index f);
               unpack_field (home v) (MemSpot (BaseSpot RSP) (8 * (int n - 1 - int (pf_reg_index f))) 0 None) scratch f st }) plan st)))"

section \<open>Assignment and conversion\<close>

definition cvt_name :: "int \<Rightarrow> string" where
  "cvt_name arg_sz = (if arg_sz = 8 then ''cvtsd2ss'' else ''cvtss2sd'')"

definition set_float_asm :: "types \<Rightarrow> (nat \<Rightarrow> spot) \<Rightarrow> nat \<Rightarrow> nat \<Rightarrow> get_reg_fn \<Rightarrow> gst \<Rightarrow> gst option" where
  "set_float_asm ty home out a gr st =
     (let o_spot = home out; a_spot = home a; osz = vsize ty out; asz = vsize ty a;
          fout = is_floating (ty_of ty out); farg = is_floating (ty_of ty a) in
      if fout \<and> farg then
        (if asz = osz then
           Some (if o_spot = a_spot then st else emit (Inst (fmov osz) o_spot XMM0 osz) (emit (Inst (fmov asz) XMM0 a_spot asz) st))
         else Some (emit (Inst (fmov osz) o_spot XMM0 osz) (emit (Inst (cvt_name asz) XMM0 XMM0 osz)
                (emit (Inst (fmov asz) XMM0 a_spot asz) st))))
      else if fout then
        (let isize = (if asz = 4 \<or> asz = 8 then asz else 8) in do {
           (src, st) \<leftarrow> (if is_literal_spot a_spot \<or> \<not> (asz = 4 \<or> asz = 8) then do {
                (r, st) \<leftarrow> gr [] [] st;
                st \<leftarrow> move_data r a_spot isize r st;
                Some (r, st) }
              else Some (a_spot, st));
           Some (emit (Inst (fmov osz) o_spot XMM0 osz)
             (emit (Inst (if osz = 4 then ''cvtsi2ss'' else ''cvtsi2sd'') XMM0 src isize) st)) })
      else
        (let st = emit (Inst (fmov asz) XMM0 a_spot asz) st; osize = (if osz = 4 \<or> osz = 8 then osz else 4) in do {
           (dst, st) \<leftarrow> (if is_reg o_spot then Some (o_spot, st) else gr [] [] st);
           let st = emit (Inst (if asz = 4 then ''cvttss2si'' else ''cvttsd2si'') dst XMM0 (max osize 4)) st in
           Some (if dst \<noteq> o_spot then emit (Mov o_spot dst osz) st else st) }))"

text \<open>\<open>k\<close> is the module's label counter \<open>_set_bool_label_count\<close>.\<close>

definition set_bool_asm :: "types \<Rightarrow> (nat \<Rightarrow> spot) \<Rightarrow> nat \<Rightarrow> nat \<Rightarrow> nat \<Rightarrow> get_reg_fn \<Rightarrow> gst \<Rightarrow> (nat \<times> gst) option" where
  "set_bool_asm ty home out a k gr st = do {
     (a_spot, st) \<leftarrow> (if is_literal_spot (home a) \<or> home a = home out then do {
          (r, st) \<leftarrow> gr [] [home out] st;
          Some (r, emit (Mov r (home a) (vsize ty a)) st) }
        else Some (home a, st));
     let label = ''__shivyc_setbool_'' @ nat_str (Suc k); zero = LiteralSpot (LStr ''0''); one = LiteralSpot (LStr ''1'') in
     Some (Suc k, emit (ALabel label) (emit (Mov (home out) one (vsize ty out)) (emit (AJump ''je'' label)
       (emit (Cmp a_spot zero (vsize ty a)) (emit (Mov (home out) zero (vsize ty out)) st))))) }"

definition wide_literal :: "literal \<Rightarrow> bool" where
  "wide_literal l = (case l of LInt i \<Rightarrow> \<not> imm32 i | LStr _ \<Rightarrow> False)"

definition set_asm :: "types \<Rightarrow> (nat \<Rightarrow> spot) \<Rightarrow> nat \<Rightarrow> nat \<Rightarrow> nat \<Rightarrow> get_reg_fn \<Rightarrow> gst \<Rightarrow> (nat \<times> gst) option" where
  "set_asm ty home out a k gr st =
     (let o_spot = home out; a_spot = home a; osz = vsize ty out; asz = vsize ty a in
      if to_bool ty out then set_bool_asm ty home out a k gr st
      else map_option (\<lambda>st. (k, st))
       (if is_floating (ty_of ty out) \<or> is_floating (ty_of ty a) then set_float_asm ty home out a gr st
        else case a_spot of
          LiteralSpot l \<Rightarrow>
            if is_mem o_spot \<and> osz = 8 \<and> wide_literal l then do {
              (r, st) \<leftarrow> gr [] [] st;
              Some (emit (Mov o_spot r osz) (emit (Mov r a_spot osz) st)) }
            else Some (emit (Mov o_spot a_spot osz) st)
        | _ \<Rightarrow>
            if osz \<le> asz then
              (if o_spot = a_spot then Some st
               else do {
                 (r, st) \<leftarrow> (if is_reg o_spot then Some (o_spot, st) else if is_reg a_spot then Some (a_spot, st) else gr [] [] st);
                 move_data o_spot a_spot osz r st })
            else do {
              (r, st) \<leftarrow> gr [o_spot, a_spot] [] st;
              sg \<leftarrow> signed_of (ty_of ty a);
              let st = (if sg then emit (AMulti ''movsx'' r a_spot osz asz) st
                        else if asz = 4 then emit (Mov r a_spot 4) st
                        else emit (AMulti ''movzx'' r a_spot osz asz) st) in
              Some (if r \<noteq> o_spot then emit (Mov o_spot r osz) st else st) }))"

section \<open>Addresses and pointers\<close>

definition addr_of_asm :: "types \<Rightarrow> (nat \<Rightarrow> spot) \<Rightarrow> nat \<Rightarrow> nat \<Rightarrow> get_reg_fn \<Rightarrow> gst \<Rightarrow> gst option" where
  "addr_of_asm ty home out v gr st = do {
     (r, st) \<leftarrow> gr [home out] [] st;
     let st = emit (ALea r (home v)) st in
     Some (if r \<noteq> home out then emit (Mov (home out) r (vsize ty out)) st else st) }"

definition pointee :: "spot \<Rightarrow> spot" where
  "pointee r = MemSpot (BaseSpot r) 0 0 None"

definition pointer_reg :: "spot \<Rightarrow> int \<Rightarrow> spot \<Rightarrow> get_reg_fn \<Rightarrow> gst \<Rightarrow> (spot \<times> gst) option" where
  "pointer_reg addr_spot sz avoid gr st =
     (if is_reg addr_spot then Some (addr_spot, st)
      else do {
        (r, st) \<leftarrow> gr [] [avoid] st;
        Some (r, emit (Mov r addr_spot sz) st) })"

definition read_at_asm :: "types \<Rightarrow> (nat \<Rightarrow> spot) \<Rightarrow> nat \<Rightarrow> nat \<Rightarrow> get_reg_fn \<Rightarrow> gst \<Rightarrow> gst option" where
  "read_at_asm ty home out a gr st = do {
     (addr_r, st) \<leftarrow> pointer_reg (home a) (vsize ty a) (home out) gr st;
     (temp, st) \<leftarrow> (if is_reg (home out) then Some (home out, st) else gr [] [addr_r] st);
     move_data (home out) (pointee addr_r) (vsize ty out) temp st }"

definition set_at_asm :: "types \<Rightarrow> (nat \<Rightarrow> spot) \<Rightarrow> nat \<Rightarrow> nat \<Rightarrow> get_reg_fn \<Rightarrow> gst \<Rightarrow> gst option" where
  "set_at_asm ty home a v gr st = do {
     (addr_r, st) \<leftarrow> pointer_reg (home a) (vsize ty a) (home v) gr st;
     (temp, st) \<leftarrow> (if is_reg (home v) then Some (home v, st) else gr [] [addr_r] st);
     move_data (pointee addr_r) (home v) (vsize ty v) temp st }"

section \<open>Places inside an object\<close>

text \<open>\<open>used\<close> is the command's list \<open>_used_regs\<close>.\<close>

definition get_rel_spot ::
  "types \<Rightarrow> (nat \<Rightarrow> spot) \<Rightarrow> nat \<Rightarrow> nat \<Rightarrow> int \<Rightarrow> nat option \<Rightarrow> spot list \<Rightarrow> get_reg_fn \<Rightarrow> gst \<Rightarrow> (spot \<times> spot list \<times> gst) option" where
  "get_rel_spot ty home v base chunk cnt used gr st =
     (case cnt of
        None \<Rightarrow> map_option (\<lambda>s. (s, used, st)) (shift (home base) chunk None)
      | Some c \<Rightarrow>
          if is_literal_spot (home c) \<or> is_reg (home c)
          then map_option (\<lambda>s. (s, used, st)) (shift (home base) chunk (Some (home c)))
          else do {
            (r, st) \<leftarrow> gr [] (home v # used) st;
            let st = emit (Mov r (home c) (vsize ty c)) st in
            map_option (\<lambda>s. (s, used @ [r], st)) (shift (home base) chunk (Some r)) })"

definition get_reg_spot ::
  "(nat \<Rightarrow> spot) \<Rightarrow> nat \<Rightarrow> nat option \<Rightarrow> spot list \<Rightarrow> get_reg_fn \<Rightarrow> gst \<Rightarrow> (spot \<times> spot list \<times> gst) option" where
  "get_reg_spot home v cnt used gr st =
     (let fetch = (do { (r, st) \<leftarrow> gr [] (map home (opt_list cnt) @ used) st; Some (r, used @ [r], st) }) in
      case home v of
        LiteralSpot l \<Rightarrow> do { i \<leftarrow> py_value l; if imm32 i then Some (home v, used, st) else fetch }
      | RegSpot _ \<Rightarrow> Some (home v, used, st)
      | _ \<Rightarrow> fetch)"

definition set_rel_asm :: "types \<Rightarrow> (nat \<Rightarrow> spot) \<Rightarrow> nat \<Rightarrow> nat \<Rightarrow> int \<Rightarrow> nat option \<Rightarrow> get_reg_fn \<Rightarrow> gst \<Rightarrow> gst option" where
  "set_rel_asm ty home v base chunk cnt gr st =
     (if \<not> is_mem (home base) then None
      else do {
        (rel, used, st) \<leftarrow> get_rel_spot ty home v base chunk cnt [] gr st;
        let sz = vsize ty v in
        if is_floating (ty_of ty v) then
          Some (emit (Inst (fmov sz) rel XMM0 sz) (emit (Inst (fmov sz) XMM0 (home v) sz) st))
        else do {
          (r, used, st) \<leftarrow> get_reg_spot home v cnt used gr st;
          move_data rel (home v) sz r st } })"

definition addr_rel_asm :: "types \<Rightarrow> (nat \<Rightarrow> spot) \<Rightarrow> nat \<Rightarrow> nat \<Rightarrow> int \<Rightarrow> nat option \<Rightarrow> get_reg_fn \<Rightarrow> gst \<Rightarrow> gst option" where
  "addr_rel_asm ty home out base chunk cnt gr st =
     (if \<not> is_mem (home base) then None
      else do {
        (rel, used, st) \<leftarrow> get_rel_spot ty home out base chunk cnt [] gr st;
        (r, used, st) \<leftarrow> get_reg_spot home out cnt used gr st;
        let st = emit (ALea r rel) st in
        Some (if r \<noteq> home out then emit (Mov (home out) r 8) st else st) })"

definition read_rel_asm :: "types \<Rightarrow> (nat \<Rightarrow> spot) \<Rightarrow> nat \<Rightarrow> nat \<Rightarrow> int \<Rightarrow> nat option \<Rightarrow> get_reg_fn \<Rightarrow> gst \<Rightarrow> gst option" where
  "read_rel_asm ty home out base chunk cnt gr st =
     (if \<not> is_mem (home base) then None
      else do {
        (rel, used, st) \<leftarrow> get_rel_spot ty home out base chunk cnt [] gr st;
        let sz = vsize ty out in
        if is_floating (ty_of ty out) then
          Some (emit (Inst (fmov sz) (home out) XMM0 sz) (emit (Inst (fmov sz) XMM0 rel sz) st))
        else do {
          (r, used, st) \<leftarrow> get_reg_spot home out cnt used gr st;
          move_data (home out) rel sz r st } })"

definition va_start_addr_asm :: "(nat \<Rightarrow> spot) \<Rightarrow> nat \<Rightarrow> int \<Rightarrow> get_reg_fn \<Rightarrow> gst \<Rightarrow> gst option" where
  "va_start_addr_asm home out named_count gr st =
     (let src = stack_arg named_count in
      if is_reg (home out) then Some (emit (ALea (home out) src) st)
      else do {
        (r, st) \<leftarrow> gr [] [] st;
        Some (emit (Mov (home out) r 8) (emit (ALea r src) st)) })"

end
