(* ===== verification/ControlAsm.thy ===== *)
theory ControlAsm
  imports ValueAsm
begin

text \<open>
  \<open>make_asm\<close> of the control commands, \<open>shivyc/il_cmds/control.py\<close>: labels, jumps, returns and calls with the
  classification of their arguments, the parallel moves into the argument registers, the stack arguments and
  the bit-packed convention.
\<close>

section \<open>Parallel moves\<close>

type_synonym move = "spot \<times> spot \<times> int"   \<comment> \<open>destination register, source, size\<close>

definition move_key :: "move \<Rightarrow> (string \<times> string \<times> int) option" where
  "move_key m = (case m of (d, s, sz) \<Rightarrow> do { x \<leftarrow> asm_str d 8; y \<leftarrow> asm_str s sz; Some (x, y, sz) })"

fun unique_moves :: "(string \<times> string \<times> int) set \<Rightarrow> move list \<Rightarrow> move list option" where
  "unique_moves seen [] = Some []"
| "unique_moves seen (m # ms) =
     (case move_key m of
        None \<Rightarrow> None
      | Some k \<Rightarrow> if k \<in> seen then unique_moves seen ms else map_option ((#) m) (unique_moves (insert k seen) ms))"

text \<open>The first move whose destination no other pending move reads.\<close>

fun find_ready :: "move list \<Rightarrow> move list \<Rightarrow> move option" where
  "find_ready pre [] = None"
| "find_ready pre (m # post) =
     (if fst m \<in> fst ` snd ` set (pre @ post) then find_ready (pre @ [m]) post else Some m)"

definition break_temp :: "move list \<Rightarrow> spot option" where
  "break_temp pending =
     (let used = map (\<lambda>(d, s, sz). asm_str d 8) pending @ map (\<lambda>(d, s, sz). asm_str s 8) (filter (\<lambda>(d, s, sz). is_reg s) pending) in
      List.find (\<lambda>c. asm_str c 8 \<notin> set used) [R11, R10, RAX])"

definition redirect :: "spot \<Rightarrow> spot \<Rightarrow> move list \<Rightarrow> move list" where
  "redirect src0 temp pending = map (\<lambda>(d, s, sz). (d, if s = src0 then temp else s, sz)) pending"

text \<open>\<open>fuel\<close> is what is left of the guard.\<close>

fun schedule_moves :: "nat \<Rightarrow> move list \<Rightarrow> gst \<Rightarrow> gst option" where
  "schedule_moves fuel [] st = Some st"
| "schedule_moves 0 (m # ms) st = None"
| "schedule_moves (Suc fuel) (m # ms) st =
     (case find_ready [] (m # ms) of
        Some (d, s, sz) \<Rightarrow> schedule_moves fuel (remove1 (d, s, sz) (m # ms)) (emit (Mov d s sz) st)
      | None \<Rightarrow>
          (case break_temp (m # ms) of
             None \<Rightarrow> None
           | Some temp \<Rightarrow> schedule_moves fuel (redirect (fst (snd m)) temp (m # ms)) (emit (Mov temp (fst (snd m)) 8) st)))"

definition emit_parallel_int_moves :: "move list \<Rightarrow> gst \<Rightarrow> gst option" where
  "emit_parallel_int_moves moves st = do {
     pending \<leftarrow> unique_moves {} (filter (\<lambda>(d, s, sz). d \<noteq> s) moves);
     schedule_moves 10000 pending st }"

section \<open>Labels and jumps\<close>

definition label_asm :: "string \<Rightarrow> gst \<Rightarrow> gst option" where
  "label_asm l st = Some (emit (ALabel l) st)"

definition jump_asm :: "string \<Rightarrow> gst \<Rightarrow> gst option" where
  "jump_asm l st = Some (emit (AJump ''jmp'' l) st)"

definition general_jump_asm :: "types \<Rightarrow> (nat \<Rightarrow> spot) \<Rightarrow> string \<Rightarrow> nat \<Rightarrow> string \<Rightarrow> get_reg_fn \<Rightarrow> gst \<Rightarrow> gst option" where
  "general_jump_asm ty home command cond l gr st = do {
     (c, st) \<leftarrow> (if is_literal_spot (home cond) then do {
          (r, st) \<leftarrow> gr [] [] st;
          Some (r, emit (Mov r (home cond) (vsize ty cond)) st) }
        else Some (home cond, st));
     Some (emit (AJump command l) (emit (Cmp c (LiteralSpot (LStr ''0'')) (vsize ty cond)) st)) }"

section \<open>Returning\<close>

text \<open>What \<open>_make_asm\<close> and the metamorphic pass leave on \<open>asm_code\<close> for the function being emitted.\<close>

record fn_mode =
  fm_frameless :: bool
  fm_meta_funcs :: "string list"
  fm_meta_slot :: "string option"

definition tear_down :: "fn_mode \<Rightarrow> gst \<Rightarrow> gst" where
  "tear_down fm st = (if fm_frameless fm then st else emit (Pop RBP 8) (emit (Mov RSP RBP 8) st))"

definition eightbyte_size :: "int \<Rightarrow> int option" where
  "eightbyte_size sz = (if sz > 16 then None
     else let hi = sz - 8 in if hi = 1 \<or> hi = 2 \<or> hi = 4 \<or> hi = 8 then Some hi else None)"

definition return_asm :: "types \<Rightarrow> (nat \<Rightarrow> spot) \<Rightarrow> fn_mode \<Rightarrow> nat option \<Rightarrow> gst \<Rightarrow> gst option" where
  "return_asm ty home fm arg st = do {
     st \<leftarrow> (case arg of
        None \<Rightarrow> Some st
      | Some a \<Rightarrow>
          if is_floating (ty_of ty a) then
            Some (if home a \<noteq> XMM0 then emit (Inst (fmov (vsize ty a)) XMM0 (home a) (vsize ty a)) st else st)
          else if big_struct ty a then
            (if \<not> is_mem (home a) then None
             else do {
               hi \<leftarrow> eightbyte_size (vsize ty a);
               s2 \<leftarrow> shift (home a) 8 None;
               Some (emit (Mov RDX s2 hi) (emit (Mov RAX (home a) 8) st)) })
          else Some (if home a \<noteq> RAX then emit (Mov RAX (home a) (vsize ty a)) st else st));
     let st = tear_down fm st in
     Some (case fm_meta_slot fm of
        Some slot \<Rightarrow> emit (ARaw (RText (''jmp QWORD PTR [rip + '' @ slot @ '']''))) st
      | None \<Rightarrow> emit Ret st) }"

section \<open>Calls: where the arguments go\<close>

definition xmm_arg_regs :: "spot list" where
  "xmm_arg_regs = map XmmRegSpot [''xmm0'', ''xmm1'', ''xmm2'', ''xmm3'', ''xmm4'', ''xmm5'', ''xmm6'', ''xmm7'']"

record call_plan =
  cp_int :: "(spot \<times> nat) list"
  cp_flt :: "(spot \<times> nat) list"
  cp_struct :: "(spot list \<times> nat) list"
  cp_stack :: "nat list"
  cp_ii :: nat
  cp_fi :: nat

definition empty_plan :: call_plan where
  "empty_plan = \<lparr>cp_int = [], cp_flt = [], cp_struct = [], cp_stack = [], cp_ii = 0, cp_fi = 0\<rparr>"

definition eightbytes :: "types \<Rightarrow> nat \<Rightarrow> nat" where
  "eightbytes ty v = nat ((vsize ty v + 7) div 8)"

definition place_scalar :: "types \<Rightarrow> nat \<Rightarrow> call_plan \<Rightarrow> call_plan option" where
  "place_scalar ty v p =
     (if is_floating (ty_of ty v) \<and> cp_fi p < length xmm_arg_regs
      then Some (p\<lparr>cp_flt := cp_flt p @ [(xmm_arg_regs ! cp_fi p, v)], cp_fi := cp_fi p + 1\<rparr>)
      else if \<not> is_floating (ty_of ty v) \<and> cp_ii p < length arg_regs
      then Some (p\<lparr>cp_int := cp_int p @ [(arg_regs ! cp_ii p, v)], cp_ii := cp_ii p + 1\<rparr>)
      else None)"

definition place_variadic :: "types \<Rightarrow> nat \<Rightarrow> call_plan \<Rightarrow> call_plan" where
  "place_variadic ty v p =
     (if big_struct ty v then p\<lparr>cp_ii := cp_ii p + eightbytes ty v\<rparr>
      else case place_scalar ty v p of Some p' \<Rightarrow> p' | None \<Rightarrow> p)"

definition place_arg :: "types \<Rightarrow> nat \<Rightarrow> call_plan \<Rightarrow> call_plan" where
  "place_arg ty v p =
     (if big_struct ty v then
        (let n = eightbytes ty v in
         if vsize ty v \<le> 16 \<and> cp_ii p + n \<le> length arg_regs
         then p\<lparr>cp_struct := cp_struct p @ [(map (\<lambda>k. arg_regs ! (cp_ii p + k)) [0..<n], v)], cp_ii := cp_ii p + n\<rparr>
         else p\<lparr>cp_stack := cp_stack p @ [v]\<rparr>)
      else case place_scalar ty v p of Some p' \<Rightarrow> p' | None \<Rightarrow> p\<lparr>cp_stack := cp_stack p @ [v]\<rparr>)"

definition classify_args :: "types \<Rightarrow> call_cmd \<Rightarrow> call_plan" where
  "classify_args ty k =
     (if call_pack k \<noteq> None then empty_plan
      else if call_variadic k then fold (place_variadic ty) (call_args k) (empty_plan\<lparr>cp_stack := call_args k\<rparr>)
      else fold (place_arg ty) (call_args k) empty_plan)"

definition int_regs_used :: "call_cmd \<Rightarrow> call_plan \<Rightarrow> spot list" where
  "int_regs_used k p = (case call_pack k of Some (rs, _) \<Rightarrow> rs | None \<Rightarrow> map fst (cp_int p) @ concat (map fst (cp_struct p)))"

definition stack_slots :: "types \<Rightarrow> (nat \<Rightarrow> spot) \<Rightarrow> nat list \<Rightarrow> spot list option" where
  "stack_slots ty home vs = map_option concat (those (map (\<lambda>v.
     if big_struct ty v then those (map (\<lambda>k. shift (home v) (8 * int k) None) [0..<eightbytes ty v]) else Some [home v]) vs))"

section \<open>Calls: emitting the arguments\<close>

fun load_struct_regs :: "spot \<Rightarrow> int \<Rightarrow> spot list \<Rightarrow> int \<Rightarrow> gst \<Rightarrow> gst option" where
  "load_struct_regs base sz [] k st = Some st"
| "load_struct_regs base sz (r # rs) k st = do {
     chunk \<leftarrow> chunk_size (sz - 8 * k);
     s \<leftarrow> shift base (8 * k) None;
     load_struct_regs base sz rs (k + 1) (emit (Mov r s chunk) st) }"

definition emit_reg_moves :: "types \<Rightarrow> (nat \<Rightarrow> spot) \<Rightarrow> call_plan \<Rightarrow> gst \<Rightarrow> gst option" where
  "emit_reg_moves ty home p st = do {
     st \<leftarrow> emit_parallel_int_moves (map (\<lambda>(r, v). (r, home v, vsize ty v)) (filter (\<lambda>(r, v). home v \<noteq> r) (cp_int p))) st;
     st \<leftarrow> ofold (\<lambda>(rs, v) st. load_struct_regs (home v) (vsize ty v) rs 0 st) (cp_struct p) st;
     Some (fold (\<lambda>(x, v) st. if home v \<noteq> x then emit (Inst (fmov (vsize ty v)) x (home v) (vsize ty v)) st else st) (cp_flt p) st) }"

text \<open>A literal too wide for \<open>push\<close> is pushed by halves.\<close>

definition signed32 :: "int \<Rightarrow> int" where
  "signed32 w = (if w \<ge> 2 ^ 31 then w - 2 ^ 32 else w)"

definition push_arg :: "spot \<Rightarrow> gst \<Rightarrow> gst option" where
  "push_arg slot st =
     (case slot of
        LiteralSpot l \<Rightarrow> do {
          i \<leftarrow> lit_int l;
          Some (if imm32 i then emit (Push slot 8) st
            else (let v = i mod 2 ^ 64 in
              emit (ARaw (RStoreSp 4 4 (signed32 (v div 2 ^ 32))))
                (emit (Push (LiteralSpot (LStr (int_str (signed32 (v mod 2 ^ 32))))) 8) st))) }
      | _ \<Rightarrow> Some (emit (Push slot 8) st))"

section \<open>Calls: bit-packed arguments\<close>

definition value_into :: "spot \<Rightarrow> spot \<Rightarrow> int \<Rightarrow> gst \<Rightarrow> gst option" where
  "value_into tmp src sz st =
     (case src of
        LiteralSpot l \<Rightarrow> map_option (\<lambda>i. emit (Mov tmp (LiteralSpot (LStr (int_str (i mod 2 ^ nat (sz * 8))))) 8) st) (lit_int l)
      | _ \<Rightarrow> Some (if sz = 4 \<or> sz = 8 then emit (Mov tmp src sz) st else emit (ARaw (RMovzx tmp src sz)) st))"

definition shl_by :: "spot \<Rightarrow> int \<Rightarrow> gst \<Rightarrow> gst" where
  "shl_by r k st = (if k \<noteq> 0 then emit (ARaw (RShl r k)) st else st)"

definition pack_one :: "spot \<Rightarrow> spot \<Rightarrow> (pack_field \<Rightarrow> spot) \<Rightarrow> pack_field \<Rightarrow> gst \<Rightarrow> gst option" where
  "pack_one work acc src f st = do {
     st \<leftarrow> value_into work (src f) (pf_size f) st;
     Some (emit (ARaw (ROr acc work)) (shl_by work (pf_bit_offset f) st)) }"

definition pack_fast :: "spot list \<Rightarrow> pack_field list \<Rightarrow> (pack_field \<Rightarrow> spot) \<Rightarrow> spot list \<Rightarrow> gst \<Rightarrow> gst option" where
  "pack_fast rs pfs src free st =
     (let n = length rs; work = hd free; accs = take n (tl free) in do {
        st \<leftarrow> ofold (\<lambda>ri st. ofold (pack_one work (accs ! ri) src) (filter (\<lambda>f. pf_reg_index f = ri) pfs)
               (emit (Mov (accs ! ri) (LiteralSpot (LStr ''0'')) 8) st)) [0..<n] st;
        Some (fold (\<lambda>(r, a) st. emit (Mov r a 8) st) (zip rs accs) st) })"

definition sp_slot :: "int \<Rightarrow> spot" where
  "sp_slot off = MemSpot (BaseSpot RSP) off 0 None"

definition pack_slow :: "spot list \<Rightarrow> pack_field list \<Rightarrow> (pack_field \<Rightarrow> spot) \<Rightarrow> gst \<Rightarrow> gst option" where
  "pack_slow rs pfs src st =
     (let n = int (length rs); need_save = (\<exists>f \<in> set pfs. src f = RAX); tot = n + (if need_save then 1 else 0);
          st = emit (Inst ''sub'' RSP (LiteralSpot (LStr (int_str (8 * tot)))) 8) st;
          st = (if need_save then emit (Mov (sp_slot (8 * n)) RAX 8) st else st);
          st = fold (\<lambda>ri st. emit (ARaw (RStoreSp 8 (8 * int ri) 0)) st) [0..<length rs] st in do {
        st \<leftarrow> ofold (\<lambda>f st. do {
              st \<leftarrow> value_into RAX (if src f = RAX then sp_slot (8 * n) else src f) (pf_size f) st;
              Some (emit (ARaw (ROrSp (8 * int (pf_reg_index f)) RAX)) (shl_by RAX (pf_bit_offset f) st)) }) pfs st;
        let st = fold (\<lambda>(ri, r) st. emit (Mov r (sp_slot (8 * int ri)) 8) st) (enumerate 0 rs) st in
        Some (emit (Inst ''add'' RSP (LiteralSpot (LStr (int_str (8 * tot)))) 8) st) })"

definition emit_pack :: "(nat \<Rightarrow> spot) \<Rightarrow> nat list \<Rightarrow> spot list \<Rightarrow> pack_field list \<Rightarrow> gst \<Rightarrow> gst option" where
  "emit_pack home args rs pfs st =
     (if \<exists>f \<in> set pfs. pf_arg_index f \<ge> length args then None
      else let src = (\<lambda>f. home (args ! pf_arg_index f));
               free = filter (\<lambda>g. g \<notin> src ` set pfs \<and> g \<notin> set rs) gprs in
        if length free \<ge> length rs + 1 then pack_fast rs pfs src free st else pack_slow rs pfs src st)"

section \<open>Calls\<close>

text \<open>\<open>self.func.ctype.arg.ret\<close>\<close>

definition fun_ret :: "types \<Rightarrow> nat \<Rightarrow> ctype option" where
  "fun_ret ty f = (case ty_of ty f of PointerT (FunctionT _ r _ _ _) _ _ \<Rightarrow> Some r | _ \<Rightarrow> None)"

definition emit_ret :: "(nat \<Rightarrow> spot) \<Rightarrow> call_cmd \<Rightarrow> ctype \<Rightarrow> int \<Rightarrow> gst \<Rightarrow> gst option" where
  "emit_ret home k ret ret_size st =
     (if call_void k then Some st
      else if is_struct_union ret \<and> ret_size > 8 then
        (let dst = home (call_ret k) in
         if \<not> is_mem dst then None
         else do {
           hi \<leftarrow> eightbyte_size ret_size;
           d2 \<leftarrow> shift dst 8 None;
           Some (emit (Mov d2 RDX hi) (emit (Mov dst RAX 8) st)) })
      else if is_floating ret then
        Some (if home (call_ret k) \<noteq> XMM0 then emit (Inst (fmov ret_size) (home (call_ret k)) XMM0 ret_size) st else st)
      else Some (if home (call_ret k) \<noteq> RAX then emit (Mov (home (call_ret k)) RAX ret_size) st else st))"

text \<open>The target of an indirect call, moved where the argument registers cannot overwrite it.\<close>

definition safe_target :: "types \<Rightarrow> (nat \<Rightarrow> spot) \<Rightarrow> call_cmd \<Rightarrow> spot list \<Rightarrow> get_reg_fn \<Rightarrow> gst \<Rightarrow> (spot \<times> gst) option" where
  "safe_target ty home k used gr st =
     (let avoid = used @ (if call_variadic k then [RAX] else []); f = home (call_func k) in
      if f \<in> set avoid then do {
        (r, st) \<leftarrow> gr [] avoid st;
        Some (r, emit (Mov r f (vsize ty (call_func k))) st) }
      else Some (f, st))"

definition call_asm :: "types \<Rightarrow> (nat \<Rightarrow> spot) \<Rightarrow> fn_mode \<Rightarrow> call_cmd \<Rightarrow> get_reg_fn \<Rightarrow> gst \<Rightarrow> gst option" where
  "call_asm ty home fm k gr st = do {
     ret \<leftarrow> fun_ret ty (call_func k);
     let ret_size = size_of (ty_heap ty) ret; p = classify_args ty k in do {
     slots \<leftarrow> stack_slots ty home (cp_stack p);
     let pad = (if length slots mod 2 = 1 then 8 else 0); cleanup = pad + 8 * int (length slots);
         st = (if pad \<noteq> 0 then emit (Inst ''sub'' RSP (LiteralSpot (LStr (int_str pad))) 8) st else st) in do {
     st \<leftarrow> ofold push_arg (rev slots) st;
     let reg_moves = (case call_pack k of Some (rs, pfs) \<Rightarrow> emit_pack home (call_args k) rs pfs
                      | None \<Rightarrow> emit_reg_moves ty home p) in do {
     (target, st) \<leftarrow> (case call_direct k of
         Some nm \<Rightarrow> do { st \<leftarrow> reg_moves st; Some (None, st) }
       | None \<Rightarrow> do {
           (f, st) \<leftarrow> safe_target ty home k (int_regs_used k p) gr st;
           st \<leftarrow> reg_moves st;
           Some (Some f, st) });
     let st = (if call_variadic k then emit (Mov RAX (LiteralSpot (LStr (nat_str (cp_fi p)))) 4) st else st) in
     if call_direct k \<noteq> None \<and> slots = [] \<and> the (call_direct k) \<in> set (fm_meta_funcs fm) then
       (let nm = the (call_direct k); (l, st) = new_label st;
            st = emit (ARaw (RText (''lea r11, [rip + '' @ l @ '']''))) st;
            st = emit (ARaw (RText (''mov QWORD PTR [rip + '' @ nm @ ''__metaret], r11''))) st;
            st = emit (ARaw (RText (''jmp '' @ nm))) st;
            st = emit (ARaw (RText (l @ '':''))) st in
        emit_ret home k ret ret_size st)
     else if call_tail k \<and> slots = [] then
       map_option (\<lambda>nm. emit (AJump ''jmp'' nm) (tear_down fm st)) (call_direct k)
     else
       (let st = (case target of None \<Rightarrow> emit (ARaw (RText (''call '' @ the (call_direct k)))) st | Some f \<Rightarrow> emit (AsmCall f 8) st);
            st = (if cleanup \<noteq> 0 then emit (Inst ''add'' RSP (LiteralSpot (LStr (int_str cleanup))) 8) st else st) in
        emit_ret home k ret ret_size st) } } } }"

end
