(* ===== verification/FunctionAsm.thy ===== *)
theory FunctionAsm
  imports CompareAsm ControlAsm
begin

text \<open>
  \<open>_generate_asm\<close> of \<open>shivyc/asm_gen.py\<close>: the body of a function command by command into a buffer, then
  its frame, the callee-saved registers the body uses, the prologue and the restores before every epilogue.
  SIMD bit packing is off; the spot map is total, so a missing key does not arise.
\<close>

section \<open>One command\<close>

definition il_name :: "il \<Rightarrow> string" where
  "il_name c = (case c of
     Arith op _ _ _ \<Rightarrow> (case op of Add \<Rightarrow> ''ADD'' | Subtr \<Rightarrow> ''SUBTR'' | Mult \<Rightarrow> ''MULT'' | BitAnd \<Rightarrow> ''BITAND'' | BitOr \<Rightarrow> ''BITOR'' | BitXor \<Rightarrow> ''BITXOR'')
   | BitShift d _ _ _ \<Rightarrow> (case d of RBitShift \<Rightarrow> ''RBITSHIFT'' | LBitShift \<Rightarrow> ''LBITSHIFT'')
   | DivMod d _ _ _ \<Rightarrow> (case d of DivOp \<Rightarrow> ''DIV'' | ModOp \<Rightarrow> ''MOD'') | NegNot d _ _ \<Rightarrow> (case d of NegOp \<Rightarrow> ''NEG'' | NotOp \<Rightarrow> ''NOT'')
   | Compare k _ _ _ _ \<Rightarrow> (case k of NotEqualCmp \<Rightarrow> ''NOTEQUALCMP'' | EqualCmp \<Rightarrow> ''EQUALCMP'' | LessCmp \<Rightarrow> ''LESSCMP''
        | GreaterCmp \<Rightarrow> ''GREATERCMP'' | LessOrEqCmp \<Rightarrow> ''LESSOREQCMP'' | GreaterOrEqCmp \<Rightarrow> ''GREATEROREQCMP'')
   | SetCmd _ _ \<Rightarrow> ''SET'' | LoadArg _ _ _ _ \<Rightarrow> ''LOADARG'' | LoadStructArg _ _ _ \<Rightarrow> ''LOADSTRUCTARG'' | UnpackArgs _ _ _ \<Rightarrow> ''UNPACKARGS''
   | AddrOf _ _ \<Rightarrow> ''ADDROF'' | ReadAt _ _ \<Rightarrow> ''READAT'' | SetAt _ _ \<Rightarrow> ''SETAT'' | SetRel _ _ _ _ \<Rightarrow> ''SETREL'' | AddrRel _ _ _ _ \<Rightarrow> ''ADDRREL''
   | ReadRel _ _ _ _ \<Rightarrow> ''READREL'' | VaStartAddr _ _ \<Rightarrow> ''VASTARTADDR'' | Label _ \<Rightarrow> ''LABEL'' | Jump _ \<Rightarrow> ''JUMP'' | JumpZero _ _ \<Rightarrow> ''JUMPZERO''
   | JumpNotZero _ _ \<Rightarrow> ''JUMPNOTZERO'' | Return _ \<Rightarrow> ''RETURN'' | Call _ \<Rightarrow> ''CALL'')"

text \<open>\<open>command.make_asm\<close>; \<open>k\<close> is the label counter of \<open>Set._set_bool\<close>.\<close>

definition il_make_asm :: "types \<Rightarrow> (nat \<Rightarrow> spot) \<Rightarrow> fn_mode \<Rightarrow> il \<Rightarrow> nat \<Rightarrow> get_reg_fn \<Rightarrow> gst \<Rightarrow> (nat \<times> gst) option" where
  "il_make_asm ty home fm c k gr st =
     (case c of SetCmd out a \<Rightarrow> set_asm ty home out a k gr st
      | _ \<Rightarrow> map_option (\<lambda>st. (k, st)) (case c of
          Arith op out a b \<Rightarrow> arith_asm ty home op out a b gr st
        | BitShift d out a b \<Rightarrow> shift_asm ty home d out a b gr st
        | DivMod d out a b \<Rightarrow> divmod_asm ty home d out a b gr st
        | NegNot op out a \<Rightarrow> negnot_asm ty home op out a gr st
        | Compare kd out a b f \<Rightarrow> compare_asm ty home kd out a b f gr st
        | LoadArg out r s fl \<Rightarrow> load_arg_asm ty home out r s fl gr st
        | LoadStructArg out rs i \<Rightarrow> load_struct_arg_asm ty home out rs i gr st
        | UnpackArgs outs rs plan \<Rightarrow> unpack_args_asm home outs rs plan st
        | AddrOf out v \<Rightarrow> addr_of_asm ty home out v gr st
        | ReadAt out a \<Rightarrow> read_at_asm ty home out a gr st
        | SetAt a v \<Rightarrow> set_at_asm ty home a v gr st
        | SetRel v b ch cnt \<Rightarrow> set_rel_asm ty home v b ch cnt gr st
        | AddrRel out b ch cnt \<Rightarrow> addr_rel_asm ty home out b ch cnt gr st
        | ReadRel out b ch cnt \<Rightarrow> read_rel_asm ty home out b ch cnt gr st
        | VaStartAddr out n \<Rightarrow> va_start_addr_asm home out n gr st
        | Label l \<Rightarrow> label_asm l st
        | Jump l \<Rightarrow> jump_asm l st
        | JumpZero a l \<Rightarrow> general_jump_asm ty home ''je'' a l gr st
        | JumpNotZero a l \<Rightarrow> general_jump_asm ty home ''jne'' a l gr st
        | Return a \<Rightarrow> return_asm ty home fm a st
        | Call cc \<Rightarrow> call_asm ty home fm cc gr st
        | SetCmd out a \<Rightarrow> None))"

text \<open>One round of the loop over the commands, with the live values before and after it.\<close>

definition generate_il ::
  "types \<Rightarrow> (nat \<Rightarrow> spot) \<Rightarrow> fn_mode \<Rightarrow> spot list \<Rightarrow> il \<times> nat list \<times> nat list \<Rightarrow> nat \<times> gst \<Rightarrow> (nat \<times> gst) option" where
  "generate_il ty home fm regs cl kst =
     (let env = command_env regs (fm_frameless fm) home (snd cl) (fst cl) in
      map_option (map_prod id unpark)
        (il_make_asm ty home fm (fst cl) (fst kst) (get_reg env) ((emit (AComment (il_name (fst cl))) (snd kst))\<lparr>gs_spilled := []\<rparr>)))"

definition generate_body ::
  "types \<Rightarrow> (nat \<Rightarrow> spot) \<Rightarrow> fn_mode \<Rightarrow> spot list \<Rightarrow> (il \<times> nat list \<times> nat list) list \<Rightarrow> nat \<times> gst \<Rightarrow> (nat \<times> gst) option" where
  "generate_body ty home fm regs lcs kst = ofold (generate_il ty home fm regs) lcs kst"

section \<open>Framelessness\<close>

definition round16 :: "int \<Rightarrow> int" where
  "round16 x = (if x mod 16 \<noteq> 0 then x + (16 - x mod 16) else x)"

definition deepest :: "int \<Rightarrow> spot list \<Rightarrow> int" where
  "deepest m sps = fold (\<lambda>s m. if rbp_offset s > m then rbp_offset s else m) sps m"

definition stack_spot_of :: "il \<Rightarrow> spot option" where
  "stack_spot_of c = (case c of LoadArg _ _ s _ \<Rightarrow> s | _ \<Rightarrow> None)"

text \<open>\<open>no_regular_call\<close>: the entry of \<open>stackless_info\<close> for the function, if it has one.\<close>

definition frameless_fn :: "bool option \<Rightarrow> spot list \<Rightarrow> il list \<Rightarrow> bool" where
  "frameless_fn no_regular_call func_spots cmds =
     ((case no_regular_call of None \<Rightarrow> False
       | Some nrc \<Rightarrow> round16 (deepest 0 func_spots) = 0 \<and> nrc \<and> (\<forall>s \<in> set func_spots. s \<notin> set callee_saved_registers))
      \<and> (\<forall>c \<in> set cmds. stack_spot_of c = None))"

section \<open>Callee-saved registers\<close>

text \<open>\<open>c.dest\<close> and \<open>c.source\<close> where they are strings; \<open>Lea\<close> keeps spots and raw lines have neither.\<close>

definition asm_fields :: "asm \<Rightarrow> string list" where
  "asm_fields c = (case c of
       ACmd _ d s sz \<Rightarrow> opt_list (Option.bind (opt_str d sz) id) @ opt_list (Option.bind (opt_str s sz) id)
     | AMulti _ d s ssz dsz \<Rightarrow> opt_list (asm_str d ssz) @ opt_list (asm_str s dsz)
     | _ \<Rightarrow> [])"

definition name_to_reg :: "string \<Rightarrow> spot option" where
  "name_to_reg x = List.find (\<lambda>r. case r of RegSpot q \<Rightarrow> (case name_variants q of Some vs \<Rightarrow> x \<noteq> [] \<and> x \<in> set vs | None \<Rightarrow> False) | _ \<Rightarrow> False)
     callee_saved_registers"

definition used_callee_saved :: "asm list \<Rightarrow> spot list" where
  "used_callee_saved cmds = fold (\<lambda>x used. case name_to_reg x of None \<Rightarrow> used | Some r \<Rightarrow> if r \<in> set used then used else used @ [r])
     (concat (map asm_fields cmds)) []"

fun save_slots :: "spot list \<Rightarrow> frame \<Rightarrow> (spot \<times> spot) list \<times> frame" where
  "save_slots [] fr = ([], fr)"
| "save_slots (r # rs) fr = (let (slot, fr) = alloc_stack_slot 8 fr; (ss, fr) = save_slots rs fr in ((r, slot) # ss, fr))"

definition is_epilogue :: "asm \<Rightarrow> bool" where
  "is_epilogue c = (case c of ACmd nm (Some d) (Some s) sz \<Rightarrow> nm = ''mov'' \<and> asm_str d sz = Some ''rsp'' \<and> asm_str s sz = Some ''rbp'' | _ \<Rightarrow> False)"

definition restores :: "(spot \<times> spot) list \<Rightarrow> asm list" where
  "restores saved = map (\<lambda>(r, slot). Mov r slot 8) (rev saved)"

definition patch_epilogues :: "(spot \<times> spot) list \<Rightarrow> asm list \<Rightarrow> asm list" where
  "patch_epilogues saved body = (if saved = [] then body else concat (map (\<lambda>c. if is_epilogue c then restores saved @ [c] else [c]) body))"

section \<open>The function\<close>

definition frame_size :: "spot list \<Rightarrow> spot list \<Rightarrow> (spot \<times> spot) list \<Rightarrow> int" where
  "frame_size func_spots pool saved =
     round16 (fold (\<lambda>(r, slot) m. max m (rbp_offset slot)) saved (round16 (fold (\<lambda>slot m. max m (rbp_offset slot)) pool (deepest 0 func_spots))))"

definition prologue :: "bool \<Rightarrow> int \<Rightarrow> (spot \<times> spot) list \<Rightarrow> asm list" where
  "prologue frameless sz saved =
     (if frameless then [] else [Push RBP 8, Mov RBP RSP 8, Inst ''sub'' RSP (LiteralSpot (LStr (int_str sz))) 8])
       @ map (\<lambda>(r, slot). Mov slot r 8) saved"

definition generate_asm ::
  "types \<Rightarrow> (nat \<Rightarrow> spot) \<Rightarrow> spot list \<Rightarrow> bool option \<Rightarrow> string list \<Rightarrow> string option \<Rightarrow> spot list \<Rightarrow>
   (il \<times> nat list \<times> nat list) list \<Rightarrow> nat \<Rightarrow> asm_code \<Rightarrow> frame \<Rightarrow> (nat \<times> asm_code \<times> frame) option" where
  "generate_asm ty home regs no_regular_call meta_funcs meta_slot func_spots lcs k ac fr =
     (let frameless = frameless_fn no_regular_call func_spots (map fst lcs);
          fm = \<lparr>fm_frameless = frameless, fm_meta_funcs = meta_funcs, fm_meta_slot = meta_slot\<rparr> in do {
        (k, st) \<leftarrow> generate_body ty home fm regs lcs
           (k, \<lparr>gs_code = ac\<lparr>ac_lines := []\<rparr>, gs_pool = [], gs_spilled = [], gs_frame = fr\<rparr>);
        let body = lines_of st; (saved, fr) = save_slots (used_callee_saved body) (gs_frame st) in
        Some (k, (gs_code st)\<lparr>ac_lines := ac_lines ac @ prologue frameless (frame_size func_spots (gs_pool st) saved) saved
                    @ patch_epilogues saved body\<rparr>, fr) })"

end
