(* ===== verification/Placement.thy ===== *)
theory Placement
  imports FunctionSpots FunctionAsm
begin

text \<open>
  What the front half of \<open>_make_asm\<close> hands to \<open>_generate_asm\<close>, as one contract: where the local values live,
  which of them lie apart, and which are in the live lists that \<open>get_reg\<close> consults.
\<close>

definition placement :: "(nat \<Rightarrow> int) \<Rightarrow> int \<Rightarrow> int \<Rightarrow> nat list \<Rightarrow> cmd list \<Rightarrow> live_sets \<Rightarrow> (nat \<Rightarrow> spot) \<Rightarrow> bool" where
  "placement sz high deep locs cmds lv home =
     ((\<forall>v \<in> set locs. home v \<in> set registers \<or>
         (\<exists>off. home v = MemSpot (BaseSpot RBP) off 0 None \<and> - deep \<le> off \<and> off + sz v \<le> - high)) \<and>
      (\<forall>x \<in> set locs. \<forall>y \<in> set locs. x \<noteq> y \<longrightarrow> is_mem (home x) \<longrightarrow> is_mem (home y) \<longrightarrow> \<not> overlap (home x) (sz x) (home y) (sz y)) \<and>
      (\<forall>i < length cmds. \<forall>x \<in> set locs. \<forall>y \<in> set locs. x \<noteq> y \<longrightarrow>
         (needed cmds x i \<and> needed cmds y i) \<or>
         ((needed_after cmds x i \<or> x \<in> set (c_outputs (cmds ! i))) \<and> (needed_after cmds y i \<or> y \<in> set (c_outputs (cmds ! i)))) \<longrightarrow>
         \<not> overlap (home x) (sz x) (home y) (sz y)) \<and>
      (\<forall>i < length cmds. \<forall>v \<in> set (fst (lv ! i)). v \<in> set (snd (lv ! i)) \<longrightarrow> home v \<notin> set (c_clobber (cmds ! i))) \<and>
      (\<forall>i < length cmds. \<forall>v \<in> set locs. needed cmds v i \<longrightarrow> needed_after cmds v i \<longrightarrow> home v \<notin> set (c_clobber (cmds ! i))) \<and>
      (\<forall>i < length cmds. \<forall>v \<in> set locs. \<forall>e \<in> set (c_abs_conf (cmds ! i)). fst e = v \<longrightarrow> home v \<notin> set (snd e)) \<and>
      (\<forall>i < length cmds. \<forall>v \<in> set locs. is_reg (home v) \<longrightarrow> needed cmds v i \<longrightarrow> needed_after cmds v i \<longrightarrow>
         v \<in> set (fst (lv ! i)) \<and> v \<in> set (snd (lv ! i))))"

lemma placementD:
  assumes "placement sz high deep locs cmds lv home"
  shows "v \<in> set locs \<Longrightarrow> home v \<in> set registers \<or> (\<exists>off. home v = MemSpot (BaseSpot RBP) off 0 None \<and> - deep \<le> off \<and> off + sz v \<le> - high)"
    "x \<in> set locs \<Longrightarrow> y \<in> set locs \<Longrightarrow> x \<noteq> y \<Longrightarrow> is_mem (home x) \<Longrightarrow> is_mem (home y) \<Longrightarrow> \<not> overlap (home x) (sz x) (home y) (sz y)"
    "i < length cmds \<Longrightarrow> x \<in> set locs \<Longrightarrow> y \<in> set locs \<Longrightarrow> x \<noteq> y \<Longrightarrow>
       needed_after cmds x i \<or> x \<in> set (c_outputs (cmds ! i)) \<Longrightarrow> needed_after cmds y i \<or> y \<in> set (c_outputs (cmds ! i)) \<Longrightarrow>
       \<not> overlap (home x) (sz x) (home y) (sz y)"
    "i < length cmds \<Longrightarrow> v \<in> set (fst (lv ! i)) \<Longrightarrow> v \<in> set (snd (lv ! i)) \<Longrightarrow> home v \<notin> set (c_clobber (cmds ! i))"
    "i < length cmds \<Longrightarrow> v \<in> set locs \<Longrightarrow> needed cmds v i \<Longrightarrow> needed_after cmds v i \<Longrightarrow> home v \<notin> set (c_clobber (cmds ! i))"
    "i < length cmds \<Longrightarrow> v \<in> set locs \<Longrightarrow> (v, qs) \<in> set (c_abs_conf (cmds ! i)) \<Longrightarrow> home v \<notin> set qs"
    "i < length cmds \<Longrightarrow> v \<in> set locs \<Longrightarrow> is_reg (home v) \<Longrightarrow> needed cmds v i \<Longrightarrow> needed_after cmds v i \<Longrightarrow>
       v \<in> set (fst (lv ! i)) \<and> v \<in> set (snd (lv ! i))"
proof -
  note P = assms [unfolded placement_def]
  note P1 = P [THEN conjunct1] and P2 = P [THEN conjunct2]
  note Q2 = P2 [THEN conjunct1] and R2 = P2 [THEN conjunct2]
  note Q3 = R2 [THEN conjunct1] and R3 = R2 [THEN conjunct2]
  note Q4 = R3 [THEN conjunct1] and R4 = R3 [THEN conjunct2]
  note Q5 = R4 [THEN conjunct1] and R5 = R4 [THEN conjunct2]
  note Q6 = R5 [THEN conjunct1] and Q7 = R5 [THEN conjunct2]
  show "v \<in> set locs \<Longrightarrow> home v \<in> set registers \<or> (\<exists>off. home v = MemSpot (BaseSpot RBP) off 0 None \<and> - deep \<le> off \<and> off + sz v \<le> - high)"
    using P1 by (rule bspec)
  show "x \<in> set locs \<Longrightarrow> y \<in> set locs \<Longrightarrow> x \<noteq> y \<Longrightarrow> is_mem (home x) \<Longrightarrow> is_mem (home y) \<Longrightarrow> \<not> overlap (home x) (sz x) (home y) (sz y)"
    by (rule Q2 [rule_format])
  show "i < length cmds \<Longrightarrow> x \<in> set locs \<Longrightarrow> y \<in> set locs \<Longrightarrow> x \<noteq> y \<Longrightarrow>
       needed_after cmds x i \<or> x \<in> set (c_outputs (cmds ! i)) \<Longrightarrow> needed_after cmds y i \<or> y \<in> set (c_outputs (cmds ! i)) \<Longrightarrow>
       \<not> overlap (home x) (sz x) (home y) (sz y)"
    by (rule Q3 [rule_format]) (assumption+, rule disjI2, rule conjI)
  show "i < length cmds \<Longrightarrow> v \<in> set (fst (lv ! i)) \<Longrightarrow> v \<in> set (snd (lv ! i)) \<Longrightarrow> home v \<notin> set (c_clobber (cmds ! i))"
    by (rule Q4 [rule_format])
  show "i < length cmds \<Longrightarrow> v \<in> set locs \<Longrightarrow> needed cmds v i \<Longrightarrow> needed_after cmds v i \<Longrightarrow> home v \<notin> set (c_clobber (cmds ! i))"
    by (rule Q5 [rule_format])
  show "i < length cmds \<Longrightarrow> v \<in> set locs \<Longrightarrow> (v, qs) \<in> set (c_abs_conf (cmds ! i)) \<Longrightarrow> home v \<notin> set qs"
    using Q6 [rule_format, of i v "(v, qs)"] by simp
  show "i < length cmds \<Longrightarrow> v \<in> set locs \<Longrightarrow> is_reg (home v) \<Longrightarrow> needed cmds v i \<Longrightarrow> needed_after cmds v i \<Longrightarrow>
       v \<in> set (fst (lv ! i)) \<and> v \<in> set (snd (lv ! i))"
    using Q7 by blast
qed

text \<open>A value that conflicts with a register is not in it.\<close>

lemma phys_apart:
  assumes ai: "alloc_input regs sz g" and st: "stack_ok g nreg m rs" and c: "coloured g nreg m regs sz fr rs st"
    and e: "cedge g x (Phys (RegSpot n))" and s: "spotmap st x = Some s"
  shows "s \<noteq> RegSpot n"
proof -
  have wf: "wf_graph g" using ai by (simp add: alloc_input_def)
  have "Phys (RegSpot n) \<in> set (all_nodes g)" using cedge_nodes [OF wf] e by blast
  moreover have "\<forall>p \<in> set (all_nodes g). is_phys p \<longrightarrow> p \<in> set rs" using st unfolding stack_ok_def by (elim conjE)
  ultimately have "spotmap st (Phys (RegSpot n)) = Some (RegSpot n)" using colouredD(3) [OF c] by (auto simp: is_phys_def)
  then show ?thesis using no_overlap [OF ai st c e s] by auto
qed

lemma spilled_memory:
  assumes st: "stack_ok g nreg m rs" and c: "coloured g nreg m regs sz fr rs st" and rr: "set regs \<subseteq> set registers"
    and x: "x \<in> set (all_nodes g)" "spotmap st x = Some s" "is_mem s"
  shows "x \<in> set (spilled_nodes st)"
proof -
  obtain r where r: "spotmap st x = spotmap st r" "r \<in> set (spilled_nodes st) \<longrightarrow> r = x"
    "r \<notin> set (spilled_nodes st) \<longrightarrow> (\<exists>q \<in> set regs. spotmap st r = Some q)"
    using coloured_classes(2) [OF st c x(1)] by metis
  show ?thesis
  proof (rule ccontr)
    assume "x \<notin> set (spilled_nodes st)"
    then obtain q where "q \<in> set registers" "s = q" using r x(2) rr by auto
    then show False using x(3) registers_are_reg [of q] by (auto simp: is_mem_def)
  qed
qed

lemma placed_near: "near_active (ms_frame (fold (place_in_mem ty) vs s)) = near_active (ms_frame s)"
  by (induction vs arbitrary: s) (simp_all add: place_in_mem_def Let_def)

text \<open>Two values in memory never overlap: what is placed in memory lies apart, and each spilled value has a slot of its own.\<close>

lemma memory_apart:
  assumes inp: "fn_input regs ty cmds" and xy: "x \<in> set (get_free_values cmds gmap)" "y \<in> set (get_free_values cmds gmap)" "x \<noteq> y"
    and g: "graph_ok (ms_free (placed ty fr gmap cmds)) regs g" and st: "stack_ok g (length regs) m rs"
    and ai: "alloc_input regs (v_size ty) g"
    and c: "coloured g (length regs) m regs (v_size ty) (ms_frame (placed ty fr gmap cmds)) rs (fs_alloc r)"
    and m: "fs_map r = ms_map (placed ty fr gmap cmds) ++ spotmap (fs_alloc r)" and na: "\<not> near_active (ms_frame (placed ty fr gmap cmds))"
    and mem: "fs_map r (Val x) = Some s" "is_mem s" "fs_map r (Val y) = Some t" "is_mem t"
  shows "\<not> overlap s (v_size ty x) t (v_size ty y)"
proof (cases "x \<in> set (ms_free (placed ty fr gmap cmds)) \<and> y \<in> set (ms_free (placed ty fr gmap cmds))")
  case True
  have n: "Val x \<in> set (all_nodes g)" "Val y \<in> set (all_nodes g)" using True graph_ok_val [OF g] by blast+
  obtain s' t' where st': "spotmap (fs_alloc r) (Val x) = Some s'" "spotmap (fs_alloc r) (Val y) = Some t'"
    using alloc_spot [OF st c n(1)] alloc_spot [OF st c n(2)] by blast
  then have e: "s' = s" "t' = t" using m mem by (auto simp: map_add_def)
  have rr: "set regs \<subseteq> set registers" using inp by (simp add: fn_input_def)
  note sp = spilled_memory [OF st c rr n(1) st'(1)] spilled_memory [OF st c rr n(2) st'(2)]
  show ?thesis
    using spilled_slots [OF colouredD(7) [OF c] sp(1) sp(2)] mem(2,4) st' e xy(3) by (auto simp: slot_at_def node_bytes_def)
next
  case False
  then show ?thesis
    using locals_apart [OF inp xy g st ai c m] mem(1,3) by auto
qed

lemma make_asm_spots_placement:
  assumes inp: "fn_input regs ty cmds" and dn: "make_asm_spots fuel regs ty fr gmap cmds = Done r" and fr: "\<not> near_active fr"
  shows "placement (v_size ty) (frame_offset fr) (frame_offset (sp_frame (fs_alloc r))) (get_free_values cmds gmap) cmds (fs_live r) (\<lambda>v. the (fs_map r (Val v)))"
    "\<not> near_active (sp_frame (fs_alloc r))"
proof -
  let ?ms = "placed ty fr gmap cmds" and ?locs = "get_free_values cmds gmap" and ?st = "fs_alloc r" and ?home = "\<lambda>v. the (fs_map r (Val v))"
  let ?free = "ms_free ?ms"
  obtain lv g m rs where d: "get_live_vars fuel cmds ?free = Done lv" "graph_ok ?free regs g"
    "\<forall>i < length cmds. cmd_edges ?free (cmds ! i) (lv ! i) g" "alloc_input regs (v_size ty) g"
    "stack_ok g (length regs) m rs"
    "coloured g (length regs) m regs (v_size ty) (ms_frame ?ms) rs ?st"
    "fs_map r = ms_map ?ms ++ spotmap ?st"
    using done_parts [OF inp dn] by blast
  have na: "\<not> near_active (ms_frame ?ms)" using fr unfolding placed_def placed_near by simp
  have sk: "slots_ok (v_size ty) (ms_frame ?ms) ?st" using colouredD(7) [OF d(6)] .
  then show "\<not> near_active (sp_frame ?st)" using na by (simp add: slots_ok_def frame_grown_def)
  have deep: "frame_offset (ms_frame ?ms) \<le> frame_offset (sp_frame ?st)" using sk na by (simp add: slots_ok_def in_frame_def)
  have lv: "fs_live r = lv"
    using dn d(1) unfolding make_asm_spots_def Let_def placed_def [symmetric] by (auto split: run.splits option.splits)
  have pl: "plain_cmds cmds" and rr: "set regs \<subseteq> set registers" using inp by (auto simp: fn_input_def)
  then have "\<forall>c \<in> set cmds. distinct (c_outputs c)" by (simp add: plain_cmds_def)
  with d(1) have fp: "fixed_point ?free cmds lv" by (rule get_live_vars_fixed)
  note M = placed_ok [OF inp, of gmap fr]
  have top: "frame_offset fr \<le> frame_offset (ms_frame ?ms)" using M by (simp add: mem_ok_def)
  have some: "\<exists>s. fs_map r (Val v) = Some s \<and> (s \<in> set registers \<or> (\<exists>off. s = MemSpot (BaseSpot RBP) off 0 None \<and> - frame_offset (sp_frame ?st) \<le> off \<and> off + v_size ty v \<le> - frame_offset fr)) \<and>
      (is_reg s \<longrightarrow> v \<in> set ?free \<and> spotmap ?st (Val v) = Some s)" if v: "v \<in> set ?locs" for v
  proof -
    from local_spot [OF inp v d(2,5,6)] show ?thesis
    proof (rule disjE, goal_cases)
      case 1
      then obtain s where free: "v \<in> set ?free" "spotmap ?st (Val v) = Some s"
        "s \<in> set regs \<or> (\<exists>off. s = slot_at (ms_frame ?ms) off \<and> in_frame (ms_frame ?ms) (sp_frame ?st) off (v_size ty v))"
        by (elim conjE exE)
      have "fs_map r (Val v) = Some s" using free(2) d(7) by (simp add: map_add_def)
      moreover have "s \<in> set registers \<or> (\<exists>off. s = MemSpot (BaseSpot RBP) off 0 None \<and> - frame_offset (sp_frame ?st) \<le> off \<and> off + v_size ty v \<le> - frame_offset fr)"
        using free(3) rr na top by (auto simp: slot_at_def in_frame_def)
      ultimately show ?thesis using free(1,2) by blast
    next
      case 2
      then have mem: "v \<in> set (ms_keys ?ms)" "spotmap ?st (Val v) = None" by simp_all
      obtain off where off: "ms_map ?ms (Val v) = Some (MemSpot (BaseSpot RBP) off 0 None)" "- frame_offset (ms_frame ?ms) \<le> off"
          "off + v_size ty v \<le> - frame_offset fr"
        using M mem(1) unfolding mem_ok_def by blast
      have f: "fs_map r (Val v) = Some (MemSpot (BaseSpot RBP) off 0 None)" using off(1) mem(2) d(7) by (simp add: map_add_def)
      have "- frame_offset (sp_frame ?st) \<le> off" using off(2) deep by linarith
      then show ?thesis using f off(3) by (intro exI [of _ "MemSpot (BaseSpot RBP) off 0 None"]) (simp add: is_reg_def)
    qed
  qed
  have phys: "?home v \<noteq> q" if v: "v \<in> set ?locs" "v \<in> set ?free" and e: "cedge g (Val v) (Phys q)" and q: "q \<in> set regs" for v q
  proof -
    obtain n where n: "q = RegSpot n" using q rr registers_are_reg by blast
    obtain s where s: "fs_map r (Val v) = Some s" using some [OF v(1)] by blast
    show ?thesis
    proof (cases "is_reg s")
      case True
      then have "spotmap ?st (Val v) = Some s" using some [OF v(1)] s by auto
      then show ?thesis using phys_apart [OF d(4,5,6) e [unfolded n]] s n by simp
    qed (use s n in \<open>auto simp: is_reg_def\<close>)
  qed
  have cok: "cmd_ok regs (cmds ! i)" if "i < length cmds" for i using inp that by (simp add: fn_input_def)
  have E: "cmd_edges ?free (cmds ! i) (lv ! i) g" if "i < length cmds" for i using d(3) that by blast
  have locs: "v \<in> set ?locs" if "v \<in> set ?free" for v using M that by (auto simp: mem_ok_def)
  have lfree: "v \<in> set ?free" if "i < length cmds" "v \<in> set (fst (lv ! i))" for v i
    using live_ok_nth [of ?free cmds lv i] fp that by (auto simp: fixed_point_def)
  have clob: "?home v \<notin> set (c_clobber (cmds ! i))"
    if "i < length cmds" "v \<in> set (fst (lv ! i))" "v \<in> set (snd (lv ! i))" for i v
  proof
    assume q: "?home v \<in> set (c_clobber (cmds ! i))"
    then have e: "cedge g (Val v) (Phys (?home v))" using E [OF that(1)] that(2,3) unfolding cmd_edges_def by blast
    have "?home v \<in> set regs" using q cok [OF that(1)] by (auto simp: cmd_ok_def)
    then show False using phys [OF locs [OF lfree [OF that(1,2)]] lfree [OF that(1,2)] e] by blast
  qed
  have inl: "v \<in> set (fst (lv ! i)) \<and> v \<in> set (snd (lv ! i))"
    if "i < length cmds" "v \<in> set ?locs" "is_reg (?home v)" "needed cmds v i" "needed_after cmds v i" for i v
  proof -
    have "v \<in> set ?free" using some [OF that(2)] that(3) by auto
    then show ?thesis using needed_live [OF that(4) fp pl] needed_after_live [OF that(5) fp pl _ that(1)] by blast
  qed
  show "placement (v_size ty) (frame_offset fr) (frame_offset (sp_frame ?st)) ?locs cmds (fs_live r) ?home"
    unfolding placement_def lv
  proof (intro conjI ballI allI impI)
    fix v assume v: "v \<in> set ?locs"
    show "?home v \<in> set registers \<or> (\<exists>off. ?home v = MemSpot (BaseSpot RBP) off 0 None \<and> - frame_offset (sp_frame ?st) \<le> off \<and> off + v_size ty v \<le> - frame_offset fr)"
      using some [OF v] by auto
  next
    fix x y assume xy: "x \<in> set ?locs" "y \<in> set ?locs" "x \<noteq> y" "is_mem (?home x)" "is_mem (?home y)"
    obtain s where s: "fs_map r (Val x) = Some s" using some [OF xy(1)] by blast
    obtain t where t: "fs_map r (Val y) = Some t" using some [OF xy(2)] by blast
    have "is_mem s" "is_mem t" using xy(4,5) s t by simp_all
    from memory_apart [OF inp xy(1-3) d(2,5,4,6,7) na s this(1) t this(2)]
    show "\<not> overlap (?home x) (v_size ty x) (?home y) (v_size ty y)" unfolding s t by simp
  next
    fix i x y assume i: "i < length cmds" "x \<in> set ?locs" "y \<in> set ?locs" "x \<noteq> y" "needed cmds x i \<and> needed cmds y i \<or>
         (needed_after cmds x i \<or> x \<in> set (c_outputs (cmds ! i))) \<and> (needed_after cmds y i \<or> y \<in> set (c_outputs (cmds ! i)))"
    note e = live_edges(1) [OF inp d(1) i(1) E [OF i(1)] _ _ i(4,5)]
    note locals_apart [OF inp i(2-4) d(2,5,4,6,7) e]
    then obtain s t where "fs_map r (Val x) = Some s" "fs_map r (Val y) = Some t" "\<not> overlap s (v_size ty x) t (v_size ty y)" by blast
    then show "\<not> overlap (?home x) (v_size ty x) (?home y) (v_size ty y)" by simp
  next
    fix i v assume "i < length cmds" "v \<in> set (fst (lv ! i))" "v \<in> set (snd (lv ! i))"
    then show "?home v \<notin> set (c_clobber (cmds ! i))" by (rule clob)
  next
    fix i v assume a: "i < length cmds" "v \<in> set ?locs" "needed cmds v i" "needed_after cmds v i"
    show "?home v \<notin> set (c_clobber (cmds ! i))"
    proof (cases "is_reg (?home v)")
      case True
      then show ?thesis using clob a(1) inl [OF a(1,2) True a(3,4)] by blast
    next
      case False
      have "\<forall>q \<in> set (c_clobber (cmds ! i)). is_reg q" using cok [OF a(1)] rr registers_are_reg by (fastforce simp: cmd_ok_def is_reg_def)
      then show ?thesis using False by blast
    qed
  next
    fix i v e assume a: "i < length cmds" "v \<in> set ?locs" "e \<in> set (c_abs_conf (cmds ! i))" "fst e = v"
    show "?home v \<notin> set (snd e)"
    proof
      assume q: "?home v \<in> set (snd e)"
      have qr: "?home v \<in> set regs" using cok [OF a(1)] a(3) q by (auto simp: cmd_ok_def)
      then obtain n where "?home v = RegSpot n" using rr registers_are_reg by blast
      then have f: "v \<in> set ?free" using some [OF a(2)] by (auto simp: is_reg_def)
      have "cedge g (Val v) (Phys (?home v))" using E [OF a(1)] a(3,4) q f unfolding cmd_edges_def by blast
      then show False using phys [OF a(2) f _ qr] by blast
    qed
  next
    fix i v assume a: "i < length cmds" "v \<in> set ?locs" "is_reg (?home v)" "needed cmds v i" "needed_after cmds v i"
    show "v \<in> set (fst (lv ! i))" "v \<in> set (snd (lv ! i))" using inl [OF a] by blast+
  qed
qed

end
