(* ===== verification/Machine.thy ===== *)
theory Machine
  imports AsmCmds "HOL-Library.Word" "HOL-Library.Signed_Division"
begin

unbundle bit_operations_syntax

text \<open>
  The machine the emitted lines run on: the part of x86-64 that the integer commands use, as the
  specification the code generator is held to.  An instruction whose operands the assembler refuses
  (two memory operands, a literal destination, an immediate that does not fit) and a division that
  traps have no outcome.  Memory is a map from addresses to bytes, little-endian; an address is not
  reduced modulo \<open>2 ^ 64\<close>.
\<close>

section \<open>State and operands\<close>

record mach =
  mreg :: "string \<Rightarrow> 64 word"
  mmem :: "int \<Rightarrow> 8 word"
  mcmp :: "(64 word \<times> 64 word \<times> nat) option"

type_synonym syms = "string \<Rightarrow> int"

fun mread :: "nat \<Rightarrow> int \<Rightarrow> (int \<Rightarrow> 8 word) \<Rightarrow> 64 word" where
  "mread 0 a m = 0"
| "mread (Suc n) a m = ucast (m a) OR push_bit 8 (mread n (a + 1) m)"

fun mwrite :: "nat \<Rightarrow> int \<Rightarrow> 64 word \<Rightarrow> (int \<Rightarrow> 8 word) \<Rightarrow> int \<Rightarrow> 8 word" where
  "mwrite 0 a v m = m"
| "mwrite (Suc n) a v m = (mwrite n (a + 1) (drop_bit 8 v) m)(a := ucast v)"

definition addr :: "syms \<Rightarrow> mach \<Rightarrow> spot \<Rightarrow> int" where
  "addr S s sp = spot_addr S (\<lambda>r. uint (mreg s r)) sp"

definition rd :: "syms \<Rightarrow> mach \<Rightarrow> nat \<Rightarrow> spot \<Rightarrow> 64 word option" where
  "rd S s n sp = (case sp of
       RegSpot r \<Rightarrow> Some (take_bit (8 * n) (mreg s r))
     | MemSpot _ _ _ _ \<Rightarrow> Some (mread n (addr S s sp) (mmem s))
     | LiteralSpot l \<Rightarrow> map_option (\<lambda>i. take_bit (8 * n) (word_of_int i)) (lit_int l)
     | XmmRegSpot _ \<Rightarrow> None)"

text \<open>A 4-byte write to a register clears its upper half; a narrower one keeps the rest.\<close>

definition reg_put :: "nat \<Rightarrow> 64 word \<Rightarrow> 64 word \<Rightarrow> 64 word" where
  "reg_put n old v = (if n = 8 then v else if n = 4 then take_bit 32 v
     else take_bit (8 * n) v OR push_bit (8 * n) (drop_bit (8 * n) old))"

definition set_reg :: "string \<Rightarrow> 64 word \<Rightarrow> mach \<Rightarrow> mach" where
  "set_reg r v s = s\<lparr>mreg := (mreg s)(r := v)\<rparr>"

definition wr :: "syms \<Rightarrow> nat \<Rightarrow> spot \<Rightarrow> 64 word \<Rightarrow> mach \<Rightarrow> mach option" where
  "wr S n sp v s = (case sp of
       RegSpot r \<Rightarrow> Some (set_reg r (reg_put n (mreg s r) v) s)
     | MemSpot _ _ _ _ \<Rightarrow> Some (s\<lparr>mmem := mwrite n (addr S s sp) v (mmem s)\<rparr>)
     | _ \<Rightarrow> None)"

definition sval :: "nat \<Rightarrow> 64 word \<Rightarrow> int" where
  "sval n w = signed_take_bit (8 * n - 1) (uint w)"

section \<open>Instructions\<close>

text \<open>Immediates: 32 bits, sign-extended for 8-byte operations; only a move to a register takes 64 bits.\<close>

definition fits :: "nat \<Rightarrow> int \<Rightarrow> bool" where
  "fits n i = (- (2 ^ (8 * n - 1)) \<le> i \<and> i < 2 ^ (8 * n))"

definition imm_ok :: "nat \<Rightarrow> spot \<Rightarrow> bool" where
  "imm_ok n sp = (case sp of
       LiteralSpot l \<Rightarrow> (case lit_int l of None \<Rightarrow> False
          | Some i \<Rightarrow> if n = 8 then - (2 ^ 31) \<le> i \<and> i < 2 ^ 31 else fits n i)
     | _ \<Rightarrow> True)"

definition imm64_ok :: "nat \<Rightarrow> spot \<Rightarrow> bool" where
  "imm64_ok n sp = (case sp of LiteralSpot l \<Rightarrow> (case lit_int l of None \<Rightarrow> False | Some i \<Rightarrow> fits n i) | _ \<Rightarrow> True)"

definition writable_op :: "spot \<Rightarrow> bool" where
  "writable_op sp = (is_reg sp \<or> is_mem sp)"

definition operands_ok :: "spot \<Rightarrow> spot \<Rightarrow> bool" where
  "operands_ok d x = (writable_op d \<and> (writable_op x \<or> is_literal_spot x) \<and> \<not> (is_mem d \<and> is_mem x))"

definition size_ok :: "nat \<Rightarrow> bool" where
  "size_ok n = (n = 1 \<or> n = 2 \<or> n = 4 \<or> n = 8)"

definition arith_op :: "string \<Rightarrow> (64 word \<Rightarrow> 64 word \<Rightarrow> 64 word) option" where
  "arith_op nm = (if nm = ''add'' then Some (+) else if nm = ''sub'' then Some (-)
     else if nm = ''imul'' then Some (*) else if nm = ''and'' then Some (AND)
     else if nm = ''or'' then Some (OR) else if nm = ''xor'' then Some (XOR) else None)"

datatype outcome = Next mach | Goto string mach | Stop asm mach

definition next_opt :: "mach option \<Rightarrow> outcome option" where
  "next_opt r = map_option Next r"

definition no_flags :: "mach \<Rightarrow> mach" where
  "no_flags s = s\<lparr>mcmp := None\<rparr>"

definition step2 :: "syms \<Rightarrow> string \<Rightarrow> spot \<Rightarrow> spot \<Rightarrow> nat \<Rightarrow> mach \<Rightarrow> mach option" where
  "step2 S nm d x n s =
     (if \<not> size_ok n \<or> \<not> operands_ok d x then None
      else case rd S s n x of None \<Rightarrow> None | Some b \<Rightarrow>
       (if nm = ''mov''
        then (if (if is_reg d then imm64_ok n x else imm_ok n x) then wr S n d b s else None)
        else if \<not> imm_ok n x then None
        else case rd S s n d of None \<Rightarrow> None | Some a \<Rightarrow>
         (if nm = ''cmp'' then Some (s\<lparr>mcmp := Some (a, b, n)\<rparr>)
          else if nm = ''imul'' \<and> (n = 1 \<or> \<not> is_reg d) then None
          else case arith_op nm of None \<Rightarrow> None | Some f \<Rightarrow> wr S n d (take_bit (8 * n) (f a b)) (no_flags s))))"

definition divide :: "bool \<Rightarrow> nat \<Rightarrow> 64 word \<Rightarrow> mach \<Rightarrow> mach option" where
  "divide sgnd n v s =
     (let hi = take_bit (8 * n) (mreg s ''rdx''); lo = take_bit (8 * n) (mreg s ''rax'');
          num = (if sgnd then sval n hi else uint hi) * 2 ^ (8 * n) + uint lo;
          den = (if sgnd then sval n v else uint v);
          q = (if sgnd then num sdiv den else num div den);
          r = (if sgnd then num smod den else num mod den) in
      if den = 0 \<or> (if sgnd then q < - (2 ^ (8 * n - 1)) \<or> q \<ge> 2 ^ (8 * n - 1) else q \<ge> 2 ^ (8 * n)) then None
      else Some (set_reg ''rdx'' (reg_put n (mreg s ''rdx'') (word_of_int r))
                  (set_reg ''rax'' (reg_put n (mreg s ''rax'') (word_of_int q)) (no_flags s))))"

definition step1 :: "syms \<Rightarrow> string \<Rightarrow> spot \<Rightarrow> nat \<Rightarrow> mach \<Rightarrow> mach option" where
  "step1 S nm d n s =
     (if nm = ''push'' \<and> n = 8 then
        (if \<not> (writable_op d \<or> is_literal_spot d) \<or> \<not> imm_ok 8 d then None
         else case rd S s 8 d of None \<Rightarrow> None | Some v \<Rightarrow>
           (let s1 = set_reg ''rsp'' (mreg s ''rsp'' - 8) s in
            Some (s1\<lparr>mmem := mwrite 8 (uint (mreg s1 ''rsp'')) v (mmem s1)\<rparr>)))
      else if nm = ''pop'' \<and> n = 8 then
        (case d of RegSpot r \<Rightarrow>
            Some (set_reg r (mread 8 (uint (mreg s ''rsp'')) (mmem s)) (set_reg ''rsp'' (mreg s ''rsp'' + 8) s))
          | _ \<Rightarrow> None)
      else if \<not> size_ok n \<or> \<not> writable_op d then None
      else case rd S s n d of None \<Rightarrow> None | Some a \<Rightarrow>
       (if nm = ''neg'' then wr S n d (take_bit (8 * n) (- a)) (no_flags s)
        else if nm = ''not'' then wr S n d (take_bit (8 * n) (NOT a)) s
        else if nm = ''idiv'' \<and> (n = 4 \<or> n = 8) then divide True n a s
        else if nm = ''div'' \<and> (n = 4 \<or> n = 8) then divide False n a s
        else None))"

definition step0 :: "string \<Rightarrow> mach \<Rightarrow> mach option" where
  "step0 nm s =
     (if nm = ''cdq'' then Some (set_reg ''rdx'' (if bit (mreg s ''rax'') 31 then take_bit 32 (- 1) else 0) s)
      else if nm = ''cqo'' then Some (set_reg ''rdx'' (if bit (mreg s ''rax'') 63 then - 1 else 0) s)
      else None)"

text \<open>Shifts take their count modulo 32, or 64 for 8-byte operands.\<close>

definition shift_op :: "string \<Rightarrow> nat \<Rightarrow> 64 word \<Rightarrow> nat \<Rightarrow> 64 word option" where
  "shift_op nm n a k =
     (if nm = ''sal'' then Some (push_bit k a)
      else if nm = ''shr'' then Some (drop_bit k a)
      else if nm = ''sar'' then Some (word_of_int (drop_bit k (sval n a)))
      else None)"

definition shift_count :: "nat \<Rightarrow> 64 word \<Rightarrow> nat" where
  "shift_count n c = nat (uint c) mod (if n = 8 then 64 else 32)"

definition imm8_ok :: "spot \<Rightarrow> bool" where
  "imm8_ok sp = (case sp of LiteralSpot l \<Rightarrow> (case lit_int l of None \<Rightarrow> False | Some i \<Rightarrow> - 128 \<le> i \<and> i < 256)
     | _ \<Rightarrow> sp = RCX)"

definition step_multi :: "syms \<Rightarrow> string \<Rightarrow> spot \<Rightarrow> spot \<Rightarrow> nat \<Rightarrow> nat \<Rightarrow> mach \<Rightarrow> mach option" where
  "step_multi S nm d x n k s =
     (if nm = ''movsx'' \<or> nm = ''movzx'' then
        (if size_ok n \<and> size_ok k \<and> k < n \<and> (nm = ''movzx'' \<longrightarrow> k < 4) \<and> is_reg d \<and> writable_op x
         then (case rd S s k x of None \<Rightarrow> None
               | Some v \<Rightarrow> wr S n d (if nm = ''movsx'' then word_of_int (sval k v) else v) s)
         else None)
      else if k = 1 \<and> size_ok n \<and> writable_op d \<and> imm8_ok x then
        (case (rd S s 1 x, rd S s n d) of
           (Some c, Some a) \<Rightarrow> (case shift_op nm n a (shift_count n c) of None \<Rightarrow> None
              | Some v \<Rightarrow> wr S n d (take_bit (8 * n) v) (no_flags s))
         | _ \<Rightarrow> None)
      else None)"

definition cond_holds :: "string \<Rightarrow> 64 word \<times> 64 word \<times> nat \<Rightarrow> bool option" where
  "cond_holds nm abn = (let a = fst abn; b = fst (snd abn); n = snd (snd abn) in
     if nm = ''je'' then Some (a = b) else if nm = ''jne'' then Some (a \<noteq> b)
     else if nm = ''jl'' then Some (sval n a < sval n b) else if nm = ''jle'' then Some (sval n a \<le> sval n b)
     else if nm = ''jg'' then Some (sval n a > sval n b) else if nm = ''jge'' then Some (sval n a \<ge> sval n b)
     else if nm = ''jb'' then Some (uint a < uint b) else if nm = ''jbe'' then Some (uint a \<le> uint b)
     else if nm = ''ja'' then Some (uint a > uint b) else if nm = ''jae'' then Some (uint a \<ge> uint b)
     else None)"

definition step_raw :: "syms \<Rightarrow> raw \<Rightarrow> mach \<Rightarrow> mach option" where
  "step_raw S r s = (case r of
       RShl (RegSpot q) k \<Rightarrow> if 0 \<le> k \<and> k < 64 then Some (set_reg q (push_bit (nat k) (mreg s q)) (no_flags s)) else None
     | RShr (RegSpot q) k \<Rightarrow> if 0 \<le> k \<and> k < 64 then Some (set_reg q (drop_bit (nat k) (mreg s q)) (no_flags s)) else None
     | ROr a b \<Rightarrow> step2 S ''or'' a b 8 s
     | RStoreSp sz off v \<Rightarrow> step2 S ''mov'' (MemSpot (BaseSpot RSP) off 0 None) (LiteralSpot (LInt v)) (nat sz) s
     | ROrSp off a \<Rightarrow> do { x \<leftarrow> rd S s 8 (MemSpot (BaseSpot RSP) off 0 None); y \<leftarrow> (if is_reg a then rd S s 8 a else None);
         wr S 8 (MemSpot (BaseSpot RSP) off 0 None) (x OR y) (no_flags s) }
     | RMovzx a b sz \<Rightarrow> step_multi S ''movzx'' a b 8 (nat sz) s
     | _ \<Rightarrow> None)"

definition step :: "syms \<Rightarrow> asm \<Rightarrow> mach \<Rightarrow> outcome option" where
  "step S c s = (case c of
       ACmd nm (Some d) (Some x) sz \<Rightarrow> next_opt (step2 S nm d x (nat sz) s)
     | ACmd nm (Some d) None sz \<Rightarrow> if nm = ''call'' then Some (Stop c s) else next_opt (step1 S nm d (nat sz) s)
     | ACmd nm None _ sz \<Rightarrow> if nm = ''ret'' then Some (Stop c s) else next_opt (step0 nm s)
     | AMulti nm d x ssz dsz \<Rightarrow> next_opt (step_multi S nm d x (nat ssz) (nat dsz) s)
     | AJump nm l \<Rightarrow> if nm = ''jmp'' then Some (Goto l s)
         else (case mcmp s of None \<Rightarrow> None | Some abn \<Rightarrow>
           (case cond_holds nm abn of None \<Rightarrow> None | Some True \<Rightarrow> Some (Goto l s) | Some False \<Rightarrow> Some (Next s)))
     | ALea (RegSpot r) (MemSpot b off ch cnt) \<Rightarrow> Some (Next (set_reg r (word_of_int (addr S s (MemSpot b off ch cnt))) s))
     | ALea _ _ \<Rightarrow> None
     | ARaw (RText t) \<Rightarrow> Some (Stop c s)
     | ARaw r \<Rightarrow> next_opt (step_raw S r s)
     | AComment _ \<Rightarrow> Some (Next s)
     | ALabel _ \<Rightarrow> Some (Next s))"

section \<open>Running a list of lines\<close>

text \<open>A jump goes forward to its label, or out of the list.\<close>

definition after_label :: "string \<Rightarrow> asm list \<Rightarrow> asm list" where
  "after_label l cs = tl (dropWhile (\<lambda>c. c \<noteq> ALabel l) cs)"

lemma length_after_label: "length (after_label l cs) \<le> length cs"
  unfolding after_label_def by (metis diff_le_self length_dropWhile_le length_tl order_trans)

function exec :: "syms \<Rightarrow> asm list \<Rightarrow> mach \<Rightarrow> outcome option" where
  "exec S [] s = Some (Next s)"
| "exec S (c # cs) s = (case step S c s of
      None \<Rightarrow> None
    | Some (Next s') \<Rightarrow> exec S cs s'
    | Some (Goto l s') \<Rightarrow> if ALabel l \<in> set cs then exec S (after_label l cs) s' else Some (Goto l s')
    | Some (Stop c s') \<Rightarrow> Some (Stop c s'))"
  by pat_completeness auto
termination
  by (relation "measure (\<lambda>(S, cs, s). length cs)") (auto simp: le_imp_less_Suc length_after_label)

lemma after_label_append: "ALabel l \<in> set xs \<Longrightarrow> after_label l (xs @ ys) = after_label l xs @ ys"
proof (induction xs)
  case (Cons x xs)
  then show ?case by (cases "x = ALabel l") (auto simp: after_label_def)
qed simp

lemma exec_append: "exec S xs s = Some (Next s') \<Longrightarrow> exec S (xs @ ys) s = exec S ys s'"
proof (induction S xs s rule: exec.induct)
  case (2 S c cs s)
  then show ?case by (auto split: option.splits outcome.splits if_splits simp: after_label_append)
qed simp

lemma exec_snoc: "exec S xs s = Some (Next s') \<Longrightarrow> step S c s' = Some (Next t) \<Longrightarrow> exec S (xs @ [c]) s = Some (Next t)"
  by (simp add: exec_append)

end
