(* ===== verification/MachineFacts.thy ===== *)
theory MachineFacts
  imports Machine
begin

unbundle bit_operations_syntax

text \<open>
  Laws of the machine the proofs about emitted code share: reading back what was written, at the same
  or at another place, and which operands keep their value when a register or a block of memory changes.
\<close>

section \<open>Memory\<close>

lemma mwrite_outside: "x < a \<or> a + int n \<le> x \<Longrightarrow> mwrite n a v m x = m x"
  by (induction n a v m rule: mwrite.induct) auto

lemma mread_cong: "(\<And>x. a \<le> x \<Longrightarrow> x < a + int n \<Longrightarrow> m x = m' x) \<Longrightarrow> mread n a m = mread n a m'"
  by (induction n arbitrary: a) auto

lemma bit_mread: "bit (mread n a m) i \<longleftrightarrow> i < 8 * n \<and> i < 64 \<and> bit (m (a + int (i div 8))) (i mod 8)"
proof (induction n arbitrary: a i)
  case (Suc n)
  show ?case
  proof (cases "i < 8")
    case True
    then show ?thesis by (simp add: bit_or_iff bit_push_bit_iff bit_ucast_iff)
  next
    case False
    then have "i div 8 = Suc ((i - 8) div 8)" "i mod 8 = (i - 8) mod 8" by (simp_all add: le_div_geq le_mod_geq)
    then show ?thesis using False Suc.IH [of "a + 1" "i - 8"] bit_imp_le_length [of "m a" i]
      by (auto simp: bit_or_iff bit_push_bit_iff bit_ucast_iff algebra_simps)
  qed
qed simp

lemma take_bit_mread [simp]: "take_bit (8 * n) (mread n a m) = mread n a m"
  by (rule bit_eqI) (auto simp: bit_take_bit_iff bit_mread)

lemma mwrite_byte:
  "j < n \<Longrightarrow> mwrite n a v m (a + int j) = ucast (drop_bit (8 * j) v)"
proof (induction n a v m arbitrary: j rule: mwrite.induct)
  case (2 n a v m)
  then show ?case
  proof (cases j)
    case (Suc j')
    then have "mwrite n (a + 1) (drop_bit 8 v) m (a + 1 + int j') = ucast (drop_bit (8 * j') (drop_bit 8 v))"
      using 2 by simp
    then show ?thesis using Suc by (simp add: drop_bit_drop_bit algebra_simps)
  qed simp
qed simp

lemma mread_mwrite:
  assumes "k \<le> n"
  shows "mread k a (mwrite n a v m) = take_bit (8 * k) v"
proof (rule bit_eqI)
  fix i assume "possible_bit TYPE(64 word) i"
  then have i: "i < 64" by simp
  have "bit (mwrite n a v m (a + int (i div 8))) (i mod 8) = bit v i" if "i < 8 * k"
  proof -
    have "i div 8 < n" using that assms by linarith
    then show ?thesis using i by (simp add: mwrite_byte bit_ucast_iff bit_drop_bit_eq)
  qed
  then show "bit (mread k a (mwrite n a v m)) i = bit (take_bit (8 * k) v) i"
    using i by (auto simp: bit_mread bit_take_bit_iff)
qed

lemma mread_apart: "b + int k \<le> a \<or> a + int n \<le> b \<Longrightarrow> mread k b (mwrite n a v m) = mread k b m"
  by (rule mread_cong) (auto intro!: mwrite_outside)

section \<open>Registers\<close>

lemma take_bit_64 [simp]: "take_bit 64 (w :: 64 word) = w"
  by (simp add: take_bit_word_eq_self)

lemma take_reg_put: "size_ok n \<Longrightarrow> take_bit (8 * n) (reg_put n old v) = take_bit (8 * n) v"
proof (cases "n = 8 \<or> n = 4")
  case False
  assume "size_ok n"
  show ?thesis
    by (rule bit_eqI) (use False in \<open>auto simp: reg_put_def bit_take_bit_iff bit_or_iff bit_push_bit_iff bit_drop_bit_eq\<close>)
qed (auto simp: reg_put_def)

lemma set_reg_sel [simp]:
  "mreg (set_reg r v s) = (mreg s)(r := v)" "mmem (set_reg r v s) = mmem s" "mcmp (set_reg r v s) = mcmp s"
  by (simp_all add: set_reg_def)

lemma no_flags_sel [simp]:
  "mreg (no_flags s) = mreg s" "mmem (no_flags s) = mmem s" "mcmp (no_flags s) = None"
  by (simp_all add: no_flags_def)

section \<open>Homes\<close>

text \<open>Where the allocation puts a value: a register other than the two frame registers, a global or a frame slot.
  A literal is its own home.\<close>

fun fixed_mem :: "spot \<Rightarrow> bool" where
  "fixed_mem (MemSpot (BaseSym _) _ _ None) = True"
| "fixed_mem (MemSpot (BaseSpot (RegSpot r)) _ _ None) = (r = ''rbp'' \<or> r = ''rsp'')"
| "fixed_mem _ = False"

definition is_home :: "spot \<Rightarrow> bool" where
  "is_home sp = (fixed_mem sp \<or> (case sp of RegSpot r \<Rightarrow> r \<noteq> ''rbp'' \<and> r \<noteq> ''rsp''
     | LiteralSpot l \<Rightarrow> lit_int l \<noteq> None | _ \<Rightarrow> False))"

definition same_frame :: "mach \<Rightarrow> mach \<Rightarrow> bool" where
  "same_frame s t = (mreg s ''rbp'' = mreg t ''rbp'' \<and> mreg s ''rsp'' = mreg t ''rsp'')"

lemma same_frame_refl [simp]: "same_frame s s" by (simp add: same_frame_def)

lemma same_frame_trans: "same_frame s t \<Longrightarrow> same_frame t u \<Longrightarrow> same_frame s u" by (simp add: same_frame_def)

text \<open>The bytes of a memory operand.\<close>

definition bytes :: "syms \<Rightarrow> mach \<Rightarrow> nat \<Rightarrow> spot \<Rightarrow> int set" where
  "bytes S s n sp = (if is_mem sp then {addr S s sp ..< addr S s sp + int n} else {})"

lemma fixed_mem_is_mem: "fixed_mem sp \<Longrightarrow> is_mem sp"
  by (induction sp rule: fixed_mem.induct) (simp_all add: is_mem_def)

lemma addr_same: "fixed_mem sp \<Longrightarrow> same_frame s t \<Longrightarrow> addr S s sp = addr S t sp"
  by (induction sp rule: fixed_mem.induct) (auto simp: addr_def same_frame_def)

lemma bytes_same: "is_home sp \<Longrightarrow> same_frame s t \<Longrightarrow> bytes S s n sp = bytes S t n sp"
  using addr_same [of sp s t S] by (cases sp) (auto simp: bytes_def is_home_def is_mem_def)

lemma home_mem: "is_home sp \<Longrightarrow> is_mem sp \<Longrightarrow> fixed_mem sp"
  by (auto simp: is_home_def is_mem_def split: spot.splits)

text \<open>An operand keeps its value when its register, or its bytes, stay.\<close>

lemma rd_same:
  assumes "is_home sp" "same_frame s t" "\<And>q. sp = RegSpot q \<Longrightarrow> mreg t q = mreg s q"
    "\<And>a. a \<in> bytes S s n sp \<Longrightarrow> mmem t a = mmem s a"
  shows "rd S t n sp = rd S s n sp"
proof (cases sp)
  case (MemSpot b off ch cnt)
  then have m: "is_mem sp" by (simp add: is_mem_def)
  have a: "addr S t sp = addr S s sp" using addr_same [OF home_mem [OF assms(1) m] assms(2)] by simp
  have "mread n (addr S s sp) (mmem t) = mread n (addr S s sp) (mmem s)"
    by (rule mread_cong) (use assms(4) m in \<open>simp add: bytes_def\<close>)
  then show ?thesis using MemSpot a by (simp add: rd_def)
qed (use assms(3) in \<open>auto simp: rd_def\<close>)

lemma rd_take: "rd S s n sp = Some v \<Longrightarrow> take_bit (8 * n) v = v"
  by (cases sp) (auto simp: rd_def)

lemma rd_home: "is_home sp \<Longrightarrow> \<exists>v. rd S s n sp = Some v"
  by (cases sp) (auto simp: rd_def is_home_def)

lemma rd_mem: "is_mem sp \<Longrightarrow> rd S s n sp = Some (mread n (addr S s sp) (mmem s))"
  and wr_mem: "is_mem sp \<Longrightarrow> wr S n sp v s = Some (s\<lparr>mmem := mwrite n (addr S s sp) v (mmem s)\<rparr>)"
  by (cases sp; simp add: is_mem_def rd_def wr_def)+

text \<open>Writing a home and reading it back.\<close>

lemma wr_home:
  assumes "is_home d" "writable_op d" "size_ok n"
  shows "\<exists>t. wr S n d v s = Some t \<and> rd S t n d = Some (take_bit (8 * n) v) \<and> same_frame s t \<and>
    (\<forall>q. d \<noteq> RegSpot q \<longrightarrow> mreg t q = mreg s q) \<and> (\<forall>a. a \<notin> bytes S s n d \<longrightarrow> mmem t a = mmem s a) \<and> mcmp t = mcmp s"
proof (cases d)
  case (RegSpot r)
  then show ?thesis using assms
    by (auto simp: wr_def rd_def take_reg_put bytes_def same_frame_def is_home_def is_mem_def)
next
  case (MemSpot b off ch cnt)
  let ?t = "s\<lparr>mmem := mwrite n (addr S s d) v (mmem s)\<rparr>"
  have m: "is_mem d" using MemSpot by (simp add: is_mem_def)
  have sf: "same_frame s ?t" by (simp add: same_frame_def)
  have "addr S ?t d = addr S s d" by (rule addr_same [OF home_mem [OF assms(1) m] sf, symmetric])
  then have r: "rd S ?t n d = Some (take_bit (8 * n) v)" by (simp add: rd_mem [OF m] mread_mwrite)
  have f: "mmem ?t a = mmem s a" if "a \<notin> bytes S s n d" for a
    using that m by (auto simp: bytes_def intro!: mwrite_outside)
  show ?thesis
    by (rule exI [of _ ?t]) (use r f sf in \<open>simp add: wr_mem [OF m]\<close>)
qed (use assms in \<open>auto simp: writable_op_def is_reg_def is_mem_def\<close>)

section \<open>Decimal literals\<close>

lemma of_digit_char: "d < 10 \<Longrightarrow> (of_char (digit_char d) :: nat) = 48 + d"
  unfolding digit_char_def of_char_of by simp

lemma digit_val_char: "d < 10 \<Longrightarrow> digit_val (digit_char d) = Some d"
  by (simp add: digit_val_def of_digit_char)

lemma parse_digits_append: "parse_digits acc (xs @ ys) = Option.bind (parse_digits acc xs) (\<lambda>a. parse_digits a ys)"
  by (induction xs arbitrary: acc) (auto split: option.split)

lemma parse_digits_nat_str: "\<exists>k. parse_digits acc (nat_str n) = Some (acc * 10 ^ k + n) \<and> 0 < k"
proof (induction n arbitrary: acc rule: nat_str.induct)
  case (1 n)
  show ?case
  proof (cases "n < 10")
    case True
    then show ?thesis by (intro exI [of _ 1]) (simp add: nat_str.simps [of n] digit_val_char mult.commute)
  next
    case False
    then obtain k where k: "parse_digits acc (nat_str (n div 10)) = Some (acc * 10 ^ k + n div 10)" using 1 by blast
    have "n = 10 * (n div 10) + n mod 10" by simp
    then have "10 * (acc * 10 ^ k + n div 10) + n mod 10 = acc * 10 ^ Suc k + n" by (simp add: algebra_simps)
    then show ?thesis using False k
      by (intro exI [of _ "Suc k"]) (simp add: nat_str.simps [of n] parse_digits_append digit_val_char)
  qed
qed

lemma nat_str_digits: "nat_str n \<noteq> [] \<and> (\<forall>c \<in> set (nat_str n). \<exists>d < 10. c = digit_char d)"
proof (induction n rule: nat_str.induct)
  case (1 n)
  have d: "\<exists>d < 10. digit_char (n mod 10) = digit_char d" by (intro exI [of _ "n mod 10"]) simp
  show ?case
  proof (cases "n < 10")
    case True
    then show ?thesis by (auto simp: nat_str.simps [of n])
  next
    case False
    then show ?thesis using 1 d by (simp add: nat_str.simps [of n] ball_Un)
  qed
qed

lemma parse_nat_str: "parse_nat (nat_str n) = Some n"
  using parse_digits_nat_str [of 0 n] nat_str_digits [of n] by (auto simp: parse_nat_def)

lemma digit_not_minus: "d < 10 \<Longrightarrow> digit_char d \<noteq> CHR ''-''"
proof
  assume "d < 10" "digit_char d = CHR ''-''"
  then have "of_char (digit_char d) = (of_char CHR ''-'' :: nat)" by simp
  then show False using \<open>d < 10\<close> by (simp add: of_digit_char)
qed

lemma parse_int_str: "parse_int (int_str i) = Some i"
proof (cases "i < 0")
  case True
  then show ?thesis by (simp add: int_str_def parse_int_def parse_nat_str)
next
  case False
  obtain c cs where c: "nat_str (nat i) = c # cs" using nat_str_digits by (metis list.exhaust)
  then have "c \<noteq> CHR ''-''" using nat_str_digits [of "nat i"] digit_not_minus by fastforce
  then show ?thesis using False c parse_nat_str [of "nat i"] by (simp add: int_str_def parse_int_def)
qed

end
