(* ===== verification/Scratch.thy ===== *)
theory Scratch
  imports Codegen MachineFacts
begin

text \<open>
  Scratch registers never destroy a live value.  \<open>track\<close> follows the lines emitted so far for one
  command on the machine: a register that holds a value live across the command still holds it, or the
  value sits in the scratch slot the register was parked in.  The commands rely on \<open>get_reg\<close> only
  through the locale \<open>scratch_source\<close>, which the closure of \<open>_generate_asm\<close> interprets.
\<close>

lemma emit_sel [simp]:
  "lines_of (emit c st) = lines_of st @ [c]" "gs_spilled (emit c st) = gs_spilled st"
  "gs_pool (emit c st) = gs_pool st" "gs_frame (emit c st) = gs_frame st" "label_num (gs_code (emit c st)) = label_num (gs_code st)"
  by (simp_all add: emit_def add_line_def)

lemma new_label_sel [simp]:
  "lines_of (snd (new_label st)) = lines_of st" "gs_spilled (snd (new_label st)) = gs_spilled st"
  "gs_pool (snd (new_label st)) = gs_pool st" "gs_frame (snd (new_label st)) = gs_frame st"
  by (simp_all add: new_label_def get_label_def Let_def)

section \<open>Scratch slots\<close>

text \<open>The slot with index \<open>j\<close> of the pool, allocated already or by the next requests.\<close>

definition slot_seq :: "genv \<Rightarrow> gst \<Rightarrow> nat \<Rightarrow> spot" where
  "slot_seq env st j =
     (let k = length (gs_pool st); fr = gs_frame st in
      if j < k then gs_pool st ! j
      else if near_active fr then MemSpot (BaseSym (near_label fr)) (near_off fr + 8 * int (j - k)) 0 None
      else if ge_frameless env then MemSpot (BaseSpot RSP) (- 8 * (int j + 1)) 0 None
      else MemSpot (BaseSpot RBP) (- (frame_offset fr + 8 * int (j - k) + 8)) 0 None)"

definition slot_area :: "syms \<Rightarrow> mach \<Rightarrow> (nat \<Rightarrow> spot) \<Rightarrow> nat \<Rightarrow> int set" where
  "slot_area S s slot n = (\<Union>j \<in> {..<n}. bytes S s 8 (slot j))"

definition slots_fit :: "syms \<Rightarrow> mach \<Rightarrow> (nat \<Rightarrow> spot) \<Rightarrow> nat \<Rightarrow> bool" where
  "slots_fit S s slot n = ((\<forall>j < n. fixed_mem (slot j)) \<and>
     (\<forall>i < n. \<forall>j < n. i \<noteq> j \<longrightarrow> bytes S s 8 (slot i) \<inter> bytes S s 8 (slot j) = {}))"

text \<open>The parked registers sit in the first slots, in order.\<close>

definition tidy :: "(gst \<Rightarrow> nat \<Rightarrow> spot) \<Rightarrow> spot set \<Rightarrow> gst \<Rightarrow> bool" where
  "tidy slot_of regs st = (length (gs_spilled st) \<le> length (gs_pool st) \<and>
     map snd (gs_spilled st) = map (slot_of st) [0..<length (gs_spilled st)] \<and>
     distinct (map fst (gs_spilled st)) \<and> fst ` set (gs_spilled st) \<subseteq> regs)"

definition parked :: "gst \<Rightarrow> spot set" where
  "parked st = fst ` set (gs_spilled st)"

section \<open>Following the emitted lines\<close>

text \<open>
  \<open>s0\<close> is the machine before the command and \<open>s\<close> after the lines emitted so far, which follow \<open>base\<close>;
  \<open>outb\<close> are the bytes of the command's output.
\<close>

definition holds_live :: "syms \<Rightarrow> mach \<Rightarrow> spot set \<Rightarrow> gst \<Rightarrow> mach \<Rightarrow> bool" where
  "holds_live S s0 live st s = (\<forall>q. RegSpot q \<in> live \<longrightarrow>
     (case map_of (gs_spilled st) (RegSpot q) of
        None \<Rightarrow> mreg s q = mreg s0 q | Some sl \<Rightarrow> rd S s 8 sl = Some (mreg s0 q)))"

definition track :: "syms \<Rightarrow> mach \<Rightarrow> spot set \<Rightarrow> (nat \<Rightarrow> spot) \<Rightarrow> nat \<Rightarrow> int set \<Rightarrow> asm list \<Rightarrow> gst \<Rightarrow> mach \<Rightarrow> bool" where
  "track S s0 live slot nmax outb base st s =
     ((\<exists>new. lines_of st = base @ new \<and> exec S new s0 = Some (Next s)) \<and> same_frame s0 s \<and>
      holds_live S s0 live st s \<and>
      (\<forall>a. a \<notin> slot_area S s0 slot nmax \<longrightarrow> a \<notin> outb \<longrightarrow> mmem s a = mmem s0 a))"

text \<open>A place a command may write: its output, or a register that holds nothing live or was parked.\<close>

definition may_write :: "syms \<Rightarrow> mach \<Rightarrow> spot set \<Rightarrow> int set \<Rightarrow> nat \<Rightarrow> gst \<Rightarrow> spot \<Rightarrow> bool" where
  "may_write S s0 live outb n st d = (is_home d \<and> writable_op d \<and> size_ok n \<and> bytes S s0 n d \<subseteq> outb \<and>
     (is_reg d \<longrightarrow> d \<notin> live \<or> d \<in> parked st))"

lemma map_of_parked: "map_of (gs_spilled st) r = None \<longleftrightarrow> r \<notin> parked st"
  by (simp add: parked_def map_of_eq_None_iff)

text \<open>Lines that run to their end, keep the registers with live values and write memory of the output only.\<close>

lemma track_block:
  assumes t: "track S s0 live slot nmax outb base st s" and run: "exec S cs s = Some (Next t)"
    and lines: "lines_of st' = lines_of st @ cs" and sp: "gs_spilled st' = gs_spilled st"
    and fr: "same_frame s t" and regs: "\<And>q. RegSpot q \<in> live \<Longrightarrow> RegSpot q \<notin> parked st \<Longrightarrow> mreg t q = mreg s q"
    and mem: "\<And>a. a \<notin> outb \<Longrightarrow> mmem t a = mmem s a"
    and slots: "\<And>sl. sl \<in> snd ` set (gs_spilled st) \<Longrightarrow> fixed_mem sl \<and> bytes S s0 8 sl \<inter> outb = {}"
  shows "track S s0 live slot nmax outb base st' t"
proof -
  obtain new where new: "lines_of st = base @ new" "exec S new s0 = Some (Next s)" using t by (auto simp: track_def)
  have sf: "same_frame s0 s" using t by (simp add: track_def)
  have "lines_of st' = base @ (new @ cs) \<and> exec S (new @ cs) s0 = Some (Next t)"
    using new lines exec_append [OF new(2)] run by simp
  moreover have "same_frame s0 t" using sf fr by (rule same_frame_trans)
  moreover have "holds_live S s0 live st' t"
  proof (unfold holds_live_def sp, intro allI impI)
    fix q assume q: "RegSpot q \<in> live"
    have h: "case map_of (gs_spilled st) (RegSpot q) of None \<Rightarrow> mreg s q = mreg s0 q
        | Some sl \<Rightarrow> rd S s 8 sl = Some (mreg s0 q)" using t q by (auto simp: track_def holds_live_def)
    show "case map_of (gs_spilled st) (RegSpot q) of None \<Rightarrow> mreg t q = mreg s0 q
        | Some sl \<Rightarrow> rd S t 8 sl = Some (mreg s0 q)"
    proof (cases "map_of (gs_spilled st) (RegSpot q)")
      case None
      then have "RegSpot q \<notin> parked st" using map_of_parked by blast
      then show ?thesis using None h regs [OF q] by simp
    next
      case (Some sl)
      then have "sl \<in> snd ` set (gs_spilled st)" by (force dest: map_of_SomeD)
      note sl = slots [OF this]
      have "rd S t 8 sl = rd S s 8 sl"
      proof (rule rd_same [OF _ fr])
        show "is_home sl" using sl by (simp add: is_home_def)
        then have "bytes S s 8 sl = bytes S s0 8 sl" using bytes_same [OF _ sf] by blast
        then show "mmem t a = mmem s a" if "a \<in> bytes S s 8 sl" for a using that sl by (intro mem) blast
        show "mreg t r = mreg s r" if "sl = RegSpot r" for r using sl that by simp
      qed
      then show ?thesis using Some h by simp
    qed
  qed
  moreover have "mmem t a = mmem s0 a" if "a \<notin> slot_area S s0 slot nmax" "a \<notin> outb" for a
    using that t mem by (simp add: track_def)
  ultimately show ?thesis unfolding track_def by blast
qed

lemma track_cong:
  assumes "track S s0 live slot nmax outb base st s" and step: "step S c s = Some (Next t)"
    and "lines_of st' = lines_of st @ [c]" and "gs_spilled st' = gs_spilled st"
    and "same_frame s t" and "\<And>q. RegSpot q \<in> live \<Longrightarrow> RegSpot q \<notin> parked st \<Longrightarrow> mreg t q = mreg s q"
    and "\<And>a. a \<notin> outb \<Longrightarrow> mmem t a = mmem s a"
    and "\<And>sl. sl \<in> snd ` set (gs_spilled st) \<Longrightarrow> fixed_mem sl \<and> bytes S s0 8 sl \<inter> outb = {}"
  shows "track S s0 live slot nmax outb base st' t"
  using track_block [OF assms(1) _ assms(3-)] step by simp

lemma mov_wr:
  "size_ok n \<Longrightarrow> operands_ok d x \<Longrightarrow> (if is_reg d then imm64_ok n x else imm_ok n x) \<Longrightarrow> rd S s n x = Some v \<Longrightarrow>
     step S (Mov d x (int n)) s = next_opt (wr S n d v s)"
  by (simp add: step_def Mov_def step2_def)

text \<open>Restoring registers from the slots they were kept in.\<close>

lemma restores_run:
  assumes "\<And>p. p \<in> set ps \<Longrightarrow> fixed_mem (snd p) \<and> (\<exists>q. fst p = RegSpot q \<and> q \<noteq> ''rbp'' \<and> q \<noteq> ''rsp'')" "distinct (map fst ps)"
    and "\<And>r sl. (r, sl) \<in> set ps \<Longrightarrow> rd S t 8 sl = Some (val r)"
  shows "\<exists>w. exec S (map (\<lambda>(r, sl). Mov r sl 8) ps) t = Some (Next w) \<and> mmem w = mmem t \<and> same_frame t w \<and>
    (\<forall>q. mreg w q = (if RegSpot q \<in> fst ` set ps then val (RegSpot q) else mreg t q))"
  using assms
proof (induction ps arbitrary: t)
  case (Cons p ps)
  obtain r sl where p: "p = (r, sl)" by fastforce
  obtain q where q: "r = RegSpot q" "fixed_mem sl" "q \<noteq> ''rbp''" "q \<noteq> ''rsp''" using Cons.prems(1) [of p] p by auto
  have v: "rd S t 8 sl = Some (val r)" using Cons.prems(3) p by simp
  have m: "is_mem sl" by (rule fixed_mem_is_mem [OF q(2)])
  let ?u = "set_reg q (val r) t"
  have step: "step S (Mov r sl (int 8)) t = Some (Next ?u)"
    using mov_wr [of 8 r sl S t "val r"] m q v
    by (auto simp: size_ok_def operands_ok_def writable_op_def is_reg_def is_mem_def imm64_ok_def wr_def reg_put_def next_opt_def split: spot.splits)
  have sf: "same_frame t ?u" using q by (simp add: same_frame_def)
  have "\<exists>w. exec S (map (\<lambda>(r, sl). Mov r sl 8) ps) ?u = Some (Next w) \<and> mmem w = mmem ?u \<and> same_frame ?u w \<and>
    (\<forall>q'. mreg w q' = (if RegSpot q' \<in> fst ` set ps then val (RegSpot q') else mreg ?u q'))"
  proof (rule Cons.IH)
    fix r' sl' assume i: "(r', sl') \<in> set ps"
    then have f: "fixed_mem sl'" using Cons.prems(1) [of "(r', sl')"] by simp
    then have "rd S ?u 8 sl' = rd S t 8 sl'" by (intro rd_same [OF _ sf]) (auto simp: is_home_def)
    then show "rd S ?u 8 sl' = Some (val r')" using Cons.prems(3) i by simp
  qed (use Cons.prems in auto)
  then obtain w where w: "exec S (map (\<lambda>(r, sl). Mov r sl 8) ps) ?u = Some (Next w)" "mmem w = mmem t" "same_frame ?u w"
    "\<forall>q'. mreg w q' = (if RegSpot q' \<in> fst ` set ps then val (RegSpot q') else mreg ?u q')" by auto
  have "RegSpot q' \<in> fst ` set ps \<Longrightarrow> q' \<noteq> q" for q' using Cons.prems(2) p q by (auto simp: image_iff)
  then show ?case using w step p q same_frame_trans [OF sf w(3)] by (intro exI [of _ w]) auto
qed simp

section \<open>The interface of the callback\<close>

locale scratch_source =
  fixes gr :: get_reg_fn and regs live inputs :: "spot set" and slot_of :: "gst \<Rightarrow> nat \<Rightarrow> spot" and nmax :: nat
  assumes request: "gr wish avoid st = Some (r, st') \<Longrightarrow> tidy slot_of (regs \<inter> live) st \<Longrightarrow>
      is_reg r \<and> r \<notin> set avoid \<and> r \<in> set wish \<union> regs \<and>
      (st' = st \<and> r \<notin> live \<or>
       r \<in> regs \<inter> live \<and> r \<notin> inputs \<and> r \<notin> parked st \<and> tidy slot_of (regs \<inter> live) st' \<and> slot_of st' = slot_of st \<and>
       lines_of st' = lines_of st @ [Mov (slot_of st (length (gs_spilled st))) r 8] \<and>
       gs_spilled st' = gs_spilled st @ [(r, slot_of st (length (gs_spilled st)))])"
    and slot_emit: "slot_of (emit c st) = slot_of st"
    and slot_label: "slot_of (snd (new_label st)) = slot_of st"
    and few: "finite regs" "card regs \<le> nmax"
    and reg_only: "r \<in> regs \<Longrightarrow> is_reg r"
    and general: "RegSpot ''rbp'' \<notin> regs" "RegSpot ''rsp'' \<notin> regs"

context scratch_source
begin

lemma spilled_few: "tidy slot_of (regs \<inter> live) st \<Longrightarrow> length (gs_spilled st) \<le> nmax"
proof -
  assume t: "tidy slot_of (regs \<inter> live) st"
  have "length (gs_spilled st) = card (fst ` set (gs_spilled st))"
    using t by (metis distinct_card length_map list.set_map tidy_def)
  also have "\<dots> \<le> card regs" using t few(1) by (intro card_mono) (auto simp: tidy_def)
  finally show ?thesis using few(2) by simp
qed

lemma parked_slots:
  assumes "tidy slot_of (regs \<inter> live) st" "sl \<in> snd ` set (gs_spilled st)"
  shows "\<exists>j < length (gs_spilled st). sl = slot_of st j"
proof -
  have "sl \<in> set (map snd (gs_spilled st))" using assms(2) by simp
  then show ?thesis using assms(1) unfolding tidy_def by auto
qed

lemma slot_facts:
  assumes "tidy slot_of (regs \<inter> live) st" "slots_fit S s0 (slot_of st) nmax" "slot_area S s0 (slot_of st) nmax \<inter> outb = {}"
    "sl \<in> snd ` set (gs_spilled st)"
  shows "fixed_mem sl \<and> bytes S s0 8 sl \<inter> outb = {}"
proof -
  obtain j where j: "j < length (gs_spilled st)" "sl = slot_of st j" using parked_slots [OF assms(1,4)] by blast
  then have "j < nmax" using spilled_few [OF assms(1)] by simp
  then show ?thesis using assms(2,3) j unfolding slots_fit_def slot_area_def by blast
qed

text \<open>What a request leaves: nothing but one more parked register.\<close>

lemma track_get:
  assumes t: "track S s0 live (slot_of st) nmax outb base st s" and tidy: "tidy slot_of (regs \<inter> live) st"
    and fit: "slots_fit S s0 (slot_of st) nmax" "slot_area S s0 (slot_of st) nmax \<inter> outb = {}"
    and g: "gr wish avoid st = Some (r, st')" and wish: "RegSpot ''rbp'' \<notin> set wish" "RegSpot ''rsp'' \<notin> set wish"
  shows "\<exists>q s'. r = RegSpot q \<and> is_home r \<and> r \<notin> set avoid \<and> (r \<notin> live \<or> r \<in> parked st') \<and>
    (r \<in> live \<longrightarrow> r \<notin> inputs \<and> r \<notin> parked st) \<and> parked st \<subseteq> parked st' \<and>
    tidy slot_of (regs \<inter> live) st' \<and> slot_of st' = slot_of st \<and> r \<in> set wish \<union> regs \<and>
    track S s0 live (slot_of st) nmax outb base st' s' \<and> mreg s' = mreg s \<and> mcmp s' = mcmp s \<and>
    (\<forall>a. a \<notin> slot_area S s0 (slot_of st) nmax \<longrightarrow> mmem s' a = mmem s a)"
proof -
  note R = request [OF g tidy]
  obtain q where q: "r = RegSpot q" using R by (auto simp: is_reg_def split: spot.splits)
  have home: "is_home r" using R general wish q by (auto simp: is_home_def)
  show ?thesis
  proof (cases "st' = st \<and> r \<notin> live")
    case True
    then show ?thesis using R t tidy home q by blast
  next
    case False
    let ?j = "length (gs_spilled st)" and ?c = "Mov (slot_of st (length (gs_spilled st))) r (int 8)"
    let ?sl = "slot_of st (length (gs_spilled st))"
    have P: "r \<in> regs \<inter> live" "r \<notin> inputs" "r \<notin> parked st" "tidy slot_of (regs \<inter> live) st'" "slot_of st' = slot_of st"
      "lines_of st' = lines_of st @ [?c]" "gs_spilled st' = gs_spilled st @ [(r, ?sl)]"
      using R False by auto
    have j: "?j < nmax" using spilled_few [OF P(4)] P(7) by simp
    have sl: "fixed_mem ?sl" using fit(1) j by (simp add: slots_fit_def)
    have m: "is_mem ?sl" by (rule fixed_mem_is_mem [OF sl])
    have nr: "\<not> is_reg ?sl" using m by (simp add: is_mem_def is_reg_def split: spot.splits)
    have slh: "is_home ?sl" using sl by (simp add: is_home_def)
    have sf: "same_frame s0 s" using t by (simp add: track_def)
    have b: "bytes S s 8 ?sl = bytes S s0 8 ?sl" using bytes_same [OF slh sf] by simp
    have in_area: "bytes S s0 8 ?sl \<subseteq> slot_area S s0 (slot_of st) nmax" using j by (auto simp: slot_area_def)
    have v: "rd S s 8 r = Some (mreg s q)" by (simp add: rd_def q)
    have ok: "operands_ok ?sl r" "writable_op ?sl" using m q by (auto simp: operands_ok_def writable_op_def is_reg_def is_mem_def)
    have ns: "?sl \<noteq> RegSpot p" for p using nr by (auto simp: is_reg_def)
    obtain u where u: "wr S 8 ?sl (mreg s q) s = Some u" "rd S u 8 ?sl = Some (mreg s q)" "same_frame s u"
      "\<And>p. mreg u p = mreg s p" "\<And>a. a \<notin> bytes S s0 8 ?sl \<Longrightarrow> mmem u a = mmem s a" "mcmp u = mcmp s"
      using wr_home [OF slh ok(2), of 8 S "mreg s q" s] ns b by (auto simp: size_ok_def)
    have step: "step S ?c s = Some (Next u)"
      using mov_wr [of 8 ?sl r S s "mreg s q"] nr v u(1) ok q by (simp add: size_ok_def imm_ok_def next_opt_def)
    have live': "holds_live S s0 live st' u"
    proof (unfold holds_live_def, intro allI impI)
      fix p assume p: "RegSpot p \<in> live"
      have h: "case map_of (gs_spilled st) (RegSpot p) of None \<Rightarrow> mreg s p = mreg s0 p
          | Some sl \<Rightarrow> rd S s 8 sl = Some (mreg s0 p)" using t p by (auto simp: track_def holds_live_def)
      show "case map_of (gs_spilled st') (RegSpot p) of None \<Rightarrow> mreg u p = mreg s0 p
          | Some sl \<Rightarrow> rd S u 8 sl = Some (mreg s0 p)"
      proof (cases "map_of (gs_spilled st) (RegSpot p)")
        case None
        then show ?thesis using h u(2,4) P(7) q by (cases "p = q") (auto simp: map_add_def)
      next
        case (Some sl')
        then have in': "sl' \<in> snd ` set (gs_spilled st)" by (force dest: map_of_SomeD)
        then obtain i where i: "i < ?j" "sl' = slot_of st i" using parked_slots [OF tidy] by blast
        then have sl': "fixed_mem sl'" "bytes S s0 8 sl' \<inter> bytes S s0 8 ?sl = {}"
          using fit(1) j by (auto simp: slots_fit_def)
        have "r \<noteq> RegSpot p" using map_of_parked [of st "RegSpot p"] Some P(3) by auto
        then have mo: "map_of (gs_spilled st') (RegSpot p) = Some sl'" using Some P(7) by (simp add: map_add_def)
        have "rd S u 8 sl' = rd S s 8 sl'"
        proof (rule rd_same [OF _ u(3)])
          show "is_home sl'" using sl' by (simp add: is_home_def)
          then have "bytes S s 8 sl' = bytes S s0 8 sl'" using bytes_same [OF _ sf] by blast
          then show "mmem u a = mmem s a" if "a \<in> bytes S s 8 sl'" for a using that sl'(2) by (intro u(5)) blast
        qed (simp add: u(4))
        then show ?thesis using Some h mo by simp
      qed
    qed
    have "track S s0 live (slot_of st) nmax outb base st' u"
    proof -
      obtain new where new: "lines_of st = base @ new" "exec S new s0 = Some (Next s)" using t by (auto simp: track_def)
      have "lines_of st' = base @ (new @ [?c]) \<and> exec S (new @ [?c]) s0 = Some (Next u)"
        using new P(6) exec_snoc [OF new(2) step] by simp
      moreover have "mmem u a = mmem s0 a" if "a \<notin> slot_area S s0 (slot_of st) nmax" "a \<notin> outb" for a
      proof -
        have "a \<notin> bytes S s0 8 ?sl" using that in_area by blast
        from u(5) [OF this] show ?thesis using that t by (simp add: track_def)
      qed
      ultimately show ?thesis using live' same_frame_trans [OF sf u(3)] unfolding track_def by blast
    qed
    moreover have "mmem u a = mmem s a" if "a \<notin> slot_area S s0 (slot_of st) nmax" for a using that in_area by (intro u(5)) blast
    moreover have "mreg u = mreg s" using u(4) by blast
    moreover have "r \<in> parked st'" "parked st \<subseteq> parked st'" by (auto simp: parked_def P(7))
    ultimately show ?thesis using R P u(6) home q by blast
  qed
qed

text \<open>A line that writes a place the command may write.\<close>

lemma track_put:
  assumes t: "track S s0 live (slot_of st) nmax outb base st s" and tidy: "tidy slot_of (regs \<inter> live) st"
    and fit: "slots_fit S s0 (slot_of st) nmax" "slot_area S s0 (slot_of st) nmax \<inter> outb = {}"
    and d: "may_write S s0 live outb n st d"
    and step: "step S c s = next_opt (wr S n d v s1)" "s1 = s \<or> s1 = no_flags s"
  shows "\<exists>u. track S s0 live (slot_of st) nmax outb base (emit c st) u \<and> tidy slot_of (regs \<inter> live) (emit c st) \<and>
    rd S u n d = Some (take_bit (8 * n) v) \<and> same_frame s u \<and> (\<forall>q. d \<noteq> RegSpot q \<longrightarrow> mreg u q = mreg s q) \<and>
    (\<forall>a. a \<notin> bytes S s0 n d \<longrightarrow> mmem u a = mmem s a) \<and> slot_of (emit c st) = slot_of st \<and>
    parked (emit c st) = parked st"
proof -
  have D: "is_home d" "writable_op d" "size_ok n" "bytes S s0 n d \<subseteq> outb" using d by (auto simp: may_write_def)
  have sf: "same_frame s0 s" using t by (simp add: track_def)
  have s1: "same_frame s s1" "mreg s1 = mreg s" "mmem s1 = mmem s" using step(2) by (auto simp: same_frame_def)
  obtain u where u: "wr S n d v s1 = Some u" "rd S u n d = Some (take_bit (8 * n) v)" "same_frame s1 u"
    "\<forall>q. d \<noteq> RegSpot q \<longrightarrow> mreg u q = mreg s q" "\<forall>a. a \<notin> bytes S s1 n d \<longrightarrow> mmem u a = mmem s a"
    using wr_home [OF D(1-3), of S v s1] s1 by auto
  have b: "bytes S s1 n d = bytes S s0 n d"
    using bytes_same [OF D(1) same_frame_trans [OF sf s1(1)]] by simp
  have su: "same_frame s u" by (rule same_frame_trans [OF s1(1) u(3)])
  have "track S s0 live (slot_of st) nmax outb base (emit c st) u"
  proof (rule track_cong [OF t _ _ _ su])
    show "step S c s = Some (Next u)" using step u(1) by (simp add: next_opt_def)
    show "mreg u q = mreg s q" if "RegSpot q \<in> live" "RegSpot q \<notin> parked st" for q
      using u(4) that d by (auto simp: may_write_def is_reg_def)
    show "mmem u a = mmem s a" if "a \<notin> outb" for a using u(5) b D(4) that by blast
  qed (simp_all add: slot_facts [OF tidy fit])
  moreover have "tidy slot_of (regs \<inter> live) (emit c st)" using tidy by (simp add: tidy_def slot_emit)
  moreover have "parked (emit c st) = parked st" by (simp add: parked_def)
  ultimately show ?thesis using u b su slot_emit by blast
qed

text \<open>A line that writes no register and no memory.\<close>

lemma track_skip:
  assumes t: "track S s0 live (slot_of st) nmax outb base st s" and tidy: "tidy slot_of (regs \<inter> live) st"
    and fit: "slots_fit S s0 (slot_of st) nmax" "slot_area S s0 (slot_of st) nmax \<inter> outb = {}"
    and step: "step S c s = Some (Next (s\<lparr>mcmp := f\<rparr>))"
  shows "track S s0 live (slot_of st) nmax outb base (emit c st) (s\<lparr>mcmp := f\<rparr>) \<and> tidy slot_of (regs \<inter> live) (emit c st) \<and>
    slot_of (emit c st) = slot_of st \<and> parked (emit c st) = parked st"
proof -
  have "track S s0 live (slot_of st) nmax outb base (emit c st) (s\<lparr>mcmp := f\<rparr>)"
    by (rule track_cong [OF t step]) (simp_all add: same_frame_def slot_facts [OF tidy fit])
  then show ?thesis using tidy by (simp add: tidy_def slot_emit parked_def)
qed

text \<open>The restores at the end of the command.\<close>

lemma unpark_run:
  assumes sp: "set ps \<subseteq> set (gs_spilled st)" "distinct (map fst ps)" and tidy: "tidy slot_of (regs \<inter> live) st"
    and fit: "slots_fit S s0 (slot_of st) nmax" and sf: "same_frame s0 s"
    and v: "\<And>q sl. (RegSpot q, sl) \<in> set ps \<Longrightarrow> rd S s 8 sl = Some (mreg s0 q)"
  shows "\<exists>u. exec S (map (\<lambda>(r, sl). Mov r sl 8) ps) s = Some (Next u) \<and> mmem u = mmem s \<and> same_frame s u \<and>
    (\<forall>q. mreg u q = (if RegSpot q \<in> fst ` set ps then mreg s0 q else mreg s q))"
proof -
  have "set ps \<subseteq> set (gs_spilled st)" by (rule sp(1))
  then have "fixed_mem (snd p) \<and> (\<exists>q. fst p = RegSpot q \<and> q \<noteq> ''rbp'' \<and> q \<noteq> ''rsp'')" if "p \<in> set ps" for p
  proof -
    have p: "p \<in> set (gs_spilled st)" using that sp(1) by blast
    then have "fst p \<in> regs" using tidy by (force simp: tidy_def)
    then have "\<exists>q. fst p = RegSpot q \<and> q \<noteq> ''rbp'' \<and> q \<noteq> ''rsp''"
      using reg_only [of "fst p"] general by (cases "fst p") (auto simp: is_reg_def)
    moreover have "fixed_mem (snd p)" using slot_facts [OF tidy fit, of "{}" "snd p"] p by simp
    ultimately show ?thesis by blast
  qed
  note P = this
  define val where "val r = (case r of RegSpot q \<Rightarrow> mreg s0 q | _ \<Rightarrow> 0)" for r
  have val: "val (RegSpot q) = mreg s0 q" for q by (simp add: val_def)
  have rr: "rd S s 8 sl = Some (val r)" if "(r, sl) \<in> set ps" for r sl
    using that P [OF that] v by (auto simp: val_def)
  from restores_run [where val = val, OF P sp(2) rr] show ?thesis unfolding val .
qed

lemma unpark_lines: "lines_of (fold (\<lambda>(r, sl) st. emit (Mov r sl 8) st) ps st) = lines_of st @ map (\<lambda>(r, sl). Mov r sl 8) ps"
  by (induction ps arbitrary: st) auto

text \<open>When the command is done every register that held a live value holds it again.\<close>

lemma track_finish:
  assumes t: "track S s0 live (slot_of st) nmax outb base st s" and tidy: "tidy slot_of (regs \<inter> live) st"
    and fit: "slots_fit S s0 (slot_of st) nmax"
  shows "\<exists>new u. lines_of (unpark st) = base @ new \<and> exec S new s0 = Some (Next u) \<and>
    (\<forall>q. RegSpot q \<in> live \<longrightarrow> mreg u q = mreg s0 q) \<and> (\<forall>q. RegSpot q \<notin> parked st \<longrightarrow> mreg u q = mreg s q) \<and>
    mmem u = mmem s \<and> same_frame s0 u"
proof -
  obtain new where new: "lines_of st = base @ new" "exec S new s0 = Some (Next s)" and sf: "same_frame s0 s"
    using t by (auto simp: track_def)
  have d: "distinct (map fst (gs_spilled st))" "fst ` set (gs_spilled st) \<subseteq> regs \<inter> live" using tidy by (auto simp: tidy_def)
  have v: "rd S s 8 sl = Some (mreg s0 q)" if i: "(RegSpot q, sl) \<in> set (rev (gs_spilled st))" for q sl
  proof -
    have m: "map_of (gs_spilled st) (RegSpot q) = Some sl" using i d(1) by (simp add: map_of_is_SomeI)
    have "RegSpot q \<in> live" using i d(2) by force
    then show ?thesis using t m by (auto simp: track_def holds_live_def)
  qed
  have "distinct (map fst (rev (gs_spilled st)))" using d(1) by (simp add: rev_map [symmetric])
  from unpark_run [of "rev (gs_spilled st)", OF _ this tidy fit sf v]
  obtain u where u: "exec S (map (\<lambda>(r, sl). Mov r sl 8) (rev (gs_spilled st))) s = Some (Next u)" "mmem u = mmem s"
    "same_frame s u" "\<And>q. mreg u q = (if RegSpot q \<in> parked st then mreg s0 q else mreg s q)"
    unfolding parked_def by auto
  have "mreg u q = mreg s0 q" if "RegSpot q \<in> live" for q
    using t that u(4) map_of_parked [of st "RegSpot q"] unfolding track_def holds_live_def
    by (cases "RegSpot q \<in> parked st") (auto split: option.splits)
  then show ?thesis using new u exec_append [OF new(2)] same_frame_trans [OF sf u(3)]
    by (intro exI [of _ "new @ map (\<lambda>(r, sl). Mov r sl 8) (rev (gs_spilled st))"] exI [of _ u])
      (simp add: unpark_def unpark_lines)
qed

end

text \<open>The closure of \<open>_generate_asm\<close> provides it.\<close>

lemma find_pool: "List.find P xs = Some x \<Longrightarrow> x \<in> set xs \<and> P x"
  by (auto simp: find_Some_iff)

lemma need_slot_sel [simp]:
  "gs_code (need_slot env j st) = gs_code st" "gs_spilled (need_slot env j st) = gs_spilled st"
  by (simp_all add: need_slot_def split: prod.split)

lemma slot_seq_need:
  assumes "j \<le> length (gs_pool st)"
  shows "slot_seq env (need_slot env j st) = slot_seq env st \<and> j < length (gs_pool (need_slot env j st)) \<and>
    length (gs_pool st) \<le> length (gs_pool (need_slot env j st)) \<and>
    gs_pool (need_slot env j st) ! j = slot_seq env st j"
proof (cases "j = length (gs_pool st)")
  case True
  have "slot_seq env (need_slot env j st) i = slot_seq env st i" for i
    using True
    by (cases "i < j"; cases "i = j")
      (auto simp: need_slot_def slot_seq_def alloc_scratch_def alloc_stack_slot_def Let_def nth_append not_less)
  moreover have "gs_pool (need_slot env j st) ! j = slot_seq env st j"
    using True by (auto simp: need_slot_def slot_seq_def alloc_scratch_def alloc_stack_slot_def Let_def)
  ultimately show ?thesis using True by (auto simp: need_slot_def split: prod.split)
qed (use assms in \<open>auto simp: need_slot_def slot_seq_def\<close>)

lemma slot_seq_cong: "gs_pool a = gs_pool b \<Longrightarrow> gs_frame a = gs_frame b \<Longrightarrow> slot_seq env a = slot_seq env b"
  by (intro ext) (simp add: slot_seq_def Let_def)

lemma park_spec:
  assumes t: "tidy (slot_seq env) R st" and r: "r \<in> R" "r \<notin> parked st"
  shows "tidy (slot_seq env) R (park env r st) \<and> slot_seq env (park env r st) = slot_seq env st \<and>
    lines_of (park env r st) = lines_of st @ [Mov (slot_seq env st (length (gs_spilled st))) r 8] \<and>
    gs_spilled (park env r st) = gs_spilled st @ [(r, slot_seq env st (length (gs_spilled st)))]"
proof -
  let ?j = "length (gs_spilled st)" and ?s1 = "need_slot env (length (gs_spilled st)) st"
  have j: "?j \<le> length (gs_pool st)" using t by (simp add: tidy_def)
  note N = slot_seq_need [OF j, of env]
  have p: "park env r st = (emit (Mov (slot_seq env st ?j) r 8) ?s1)\<lparr>gs_spilled := gs_spilled st @ [(r, slot_seq env st ?j)]\<rparr>"
    using N by (simp add: park_def Let_def)
  have sq: "slot_seq env (park env r st) = slot_seq env st"
    using N slot_seq_cong [of "park env r st" ?s1 env] by (simp add: p)
  moreover have "lines_of (park env r st) = lines_of st @ [Mov (slot_seq env st ?j) r 8]" by (simp add: p emit_def add_line_def)
  moreover have sp: "gs_spilled (park env r st) = gs_spilled st @ [(r, slot_seq env st ?j)]" by (simp add: p)
  moreover have "tidy (slot_seq env) R (park env r st)"
    using t r N unfolding tidy_def sq sp by (auto simp: p parked_def emit_def)
  ultimately show ?thesis by blast
qed


lemma known_registers_subset: "set (known_registers names) \<subseteq> set registers"
  by (auto simp: known_registers_def)

lemma pool_subset: "set (ge_regs (command_env (known_registers names) fl home live c)) \<subseteq> set registers"
  using known_registers_subset [of names] by (auto simp: command_env_def register_pool_def)

lemma registers_general: "RegSpot ''rbp'' \<notin> set registers" "RegSpot ''rsp'' \<notin> set registers"
  by code_simp+

lemma pool_general:
  "RegSpot ''rbp'' \<notin> set (ge_regs (command_env (known_registers names) fl home live c))"
  "RegSpot ''rsp'' \<notin> set (ge_regs (command_env (known_registers names) fl home live c))"
  using pool_subset registers_general by blast+

lemma pool_is_reg: "r \<in> set (ge_regs (command_env (known_registers names) fl home live c)) \<Longrightarrow> is_reg r"
  using pool_subset registers_are_reg by (fastforce simp: is_reg_def)

interpretation asm_gen: scratch_source
  "get_reg (command_env (known_registers names) fl home live c)"
  "set (ge_regs (command_env (known_registers names) fl home live c))"
  "set (ge_bad (command_env (known_registers names) fl home live c))"
  "set (ge_inputs (command_env (known_registers names) fl home live c))"
  "slot_seq (command_env (known_registers names) fl home live c)" 14
  for names fl home live c
proof (unfold_locales, goal_cases)
  case (1 wish avoid st r st')
  let ?env = "command_env (known_registers names) fl home live c"
  let ?P = "\<lambda>s. is_reg s \<and> s \<notin> set (ge_bad ?env) \<and> s \<notin> set avoid"
  show ?case
  proof (cases "List.find ?P (wish @ ge_regs ?env)")
    case None
    then have f: "List.find (\<lambda>s. is_reg s \<and> s \<notin> set avoid \<and> s \<notin> set (ge_inputs ?env) \<and> s \<notin> fst ` set (gs_spilled st))
        (ge_regs ?env) = Some r" and st': "st' = park ?env r st"
      using 1(1) by (auto simp: get_reg_def split: option.splits)
    note F = find_pool [OF f]
    have np: "r \<notin> parked st" using F by (simp add: parked_def)
    have "\<not> ?P r" using None F by (auto simp: find_None_iff)
    then have "r \<in> set (ge_bad ?env)" using F by blast
    then show ?thesis using F np park_spec [OF 1(2), of r] st' by auto
  next
    case (Some s)
    then show ?thesis using 1(1) find_pool [OF Some] by (auto simp: get_reg_def)
  qed
next
  case (5)
  have "card (set (ge_regs (command_env (known_registers names) fl home live c))) \<le> card (set registers)"
    by (rule card_mono [OF _ pool_subset]) simp
  also have "\<dots> \<le> length registers" by (rule card_length)
  finally show ?case by simp
qed (use pool_general pool_is_reg in \<open>auto intro: slot_seq_cong\<close>)

end
