(* ===== verification/Emission.thy ===== *)
theory Emission
  imports Scratch
begin

text \<open>
  Rules for following the emission of one command line by line: \<open>ready\<close> bundles what \<open>track\<close> needs,
  \<open>ready_get\<close> is the rule of a scratch request, \<open>ready_mov\<close>, \<open>ready_arith\<close> and the others those of the lines
  a command emits, and \<open>ready_finish\<close> the end of the command.
\<close>

unbundle bit_operations_syntax

section \<open>What a command is held to\<close>

text \<open>An operand whose bytes no scratch slot touches.\<close>

definition clear :: "syms \<Rightarrow> mach \<Rightarrow> (nat \<Rightarrow> spot) \<Rightarrow> nat \<Rightarrow> nat \<Rightarrow> spot \<Rightarrow> bool" where
  "clear S s0 slot nmax n x = (is_home x \<and> slot_area S s0 slot nmax \<inter> bytes S s0 n x = {})"

text \<open>The operands of a command: an input is its output or does not overlap it.\<close>

definition operand_of :: "syms \<Rightarrow> mach \<Rightarrow> (nat \<Rightarrow> spot) \<Rightarrow> nat \<Rightarrow> nat \<Rightarrow> spot \<Rightarrow> nat \<Rightarrow> spot \<Rightarrow> bool" where
  "operand_of S s0 slot nmax no out n x = (clear S s0 slot nmax n x \<and> imm64_ok n x \<and>
     (x = out \<or> bytes S s0 n x \<inter> bytes S s0 no out = {}))"

definition output_of :: "syms \<Rightarrow> mach \<Rightarrow> spot set \<Rightarrow> (nat \<Rightarrow> spot) \<Rightarrow> nat \<Rightarrow> nat \<Rightarrow> spot \<Rightarrow> bool" where
  "output_of S s0 live slot nmax n out = (clear S s0 slot nmax n out \<and> writable_op out \<and> size_ok n \<and> out \<notin> live \<and>
     slots_fit S s0 slot nmax)"

text \<open>
  The outcome of a command: its lines run to their end from \<open>s0\<close>, what they compute holds, every
  register with a live value has kept it, and no byte but the output's and the scratch slots' has changed.
\<close>

definition runs_to :: "syms \<Rightarrow> mach \<Rightarrow> spot set \<Rightarrow> int set \<Rightarrow> asm list \<Rightarrow> gst \<Rightarrow> (mach \<Rightarrow> bool) \<Rightarrow> bool" where
  "runs_to S s0 live written base st P =
     (\<exists>new u. lines_of st = base @ new \<and> exec S new s0 = Some (Next u) \<and> P u \<and>
        (\<forall>q. RegSpot q \<in> live \<longrightarrow> mreg u q = mreg s0 q) \<and> (\<forall>a. a \<notin> written \<longrightarrow> mmem u a = mmem s0 a) \<and>
        same_frame s0 u)"

lemma imm_ok_64: "imm64_ok n x \<Longrightarrow> \<not> is_imm64 x \<Longrightarrow> imm_ok n x"
  by (auto simp: imm64_ok_def imm_ok_def is_imm64_def int_max_def int_min_def split: spot.splits option.splits)

lemma operands_reg: "is_reg d \<Longrightarrow> is_home x \<Longrightarrow> operands_ok d x"
  by (auto simp: operands_ok_def writable_op_def is_reg_def is_mem_def is_literal_spot_def is_home_def split: spot.splits)

lemma operands_from_reg: "writable_op d \<Longrightarrow> is_reg x \<Longrightarrow> operands_ok d x"
  by (auto simp: operands_ok_def writable_op_def is_reg_def is_mem_def split: spot.splits)

lemma imm_ok_reg [simp]: "is_reg x \<Longrightarrow> imm_ok n x" "is_reg x \<Longrightarrow> imm64_ok n x"
  by (auto simp: imm_ok_def imm64_ok_def is_reg_def split: spot.splits)

lemma is_reg_bytes [simp]: "is_reg d \<Longrightarrow> bytes S s n d = {}"
  by (auto simp: bytes_def is_reg_def is_mem_def split: spot.splits)

lemma is_reg_writable [simp]: "is_reg d \<Longrightarrow> writable_op d"
  by (simp add: writable_op_def)

section \<open>Rules\<close>

context scratch_source
begin

definition ready :: "syms \<Rightarrow> mach \<Rightarrow> (nat \<Rightarrow> spot) \<Rightarrow> int set \<Rightarrow> asm list \<Rightarrow> gst \<Rightarrow> mach \<Rightarrow> bool" where
  "ready S s0 slot outb base st s =
     (track S s0 live slot nmax outb base st s \<and> tidy slot_of (regs \<inter> live) st \<and> slot_of st = slot \<and>
      slots_fit S s0 slot nmax \<and> slot_area S s0 slot nmax \<inter> outb = {})"

definition owned :: "gst \<Rightarrow> spot \<Rightarrow> bool" where
  "owned st r = (is_reg r \<and> is_home r \<and> (r \<notin> live \<or> r \<in> parked st))"

lemma owned_may_write: "owned st r \<Longrightarrow> size_ok n \<Longrightarrow> may_write S s0 live outb n st r"
  by (auto simp: owned_def may_write_def)

lemma ready_frame: "ready S s0 slot outb base st s \<Longrightarrow> same_frame s0 s"
  by (simp add: ready_def track_def)

lemma ready_start:
  assumes "slots_fit S s slot nmax" "slot_area S s slot nmax \<inter> outb = {}" "gs_spilled st = []" "slot_of st = slot"
  shows "ready S s slot outb (lines_of st) st s"
  using assms by (simp add: ready_def track_def holds_live_def tidy_def)

lemma ready_get:
  assumes r: "ready S s0 slot outb base st s" and g: "gr wish avoid st = Some (r, st')"
    and w: "\<forall>x \<in> set wish. is_home x"
  shows "\<exists>s'. ready S s0 slot outb base st' s' \<and> owned st' r \<and> r \<notin> set avoid \<and> (r \<in> live \<longrightarrow> r \<notin> inputs \<and> \<not> owned st r) \<and>
    (\<forall>x. owned st x \<longrightarrow> owned st' x) \<and> mreg s' = mreg s \<and> mcmp s' = mcmp s \<and>
    (\<forall>n x. clear S s0 slot nmax n x \<longrightarrow> rd S s' n x = rd S s n x)"
proof -
  have R: "track S s0 live (slot_of st) nmax outb base st s" "tidy slot_of (regs \<inter> live) st" "slot_of st = slot"
    "slots_fit S s0 (slot_of st) nmax" "slot_area S s0 (slot_of st) nmax \<inter> outb = {}" using r by (auto simp: ready_def)
  have "RegSpot ''rbp'' \<notin> set wish" "RegSpot ''rsp'' \<notin> set wish" using w by (auto simp: is_home_def)
  from track_get [OF R(1,2,4,5) g this] obtain q s' where
    q: "r = RegSpot q" "is_home r" "r \<notin> set avoid" "r \<notin> live \<or> r \<in> parked st'" "r \<in> live \<longrightarrow> r \<notin> inputs \<and> r \<notin> parked st"
      "parked st \<subseteq> parked st'" "tidy slot_of (regs \<inter> live) st'" "slot_of st' = slot_of st"
      "track S s0 live (slot_of st) nmax outb base st' s'"
    and m: "mreg s' = mreg s" "mcmp s' = mcmp s" "\<And>a. a \<notin> slot_area S s0 (slot_of st) nmax \<Longrightarrow> mmem s' a = mmem s a" by blast
  have "rd S s' n x = rd S s n x" if c: "clear S s0 slot nmax n x" for n x
  proof (rule rd_same)
    have "bytes S s n x = bytes S s0 n x" using bytes_same [OF _ ready_frame [OF r]] c by (auto simp: clear_def)
    then show "mmem s' a = mmem s a" if "a \<in> bytes S s n x" for a using that c R(3) by (intro m(3)) (auto simp: clear_def)
  qed (use c m in \<open>auto simp: clear_def same_frame_def\<close>)
  then show ?thesis using q m R by (intro exI [of _ s']) (auto simp: ready_def owned_def is_reg_def)
qed

text \<open>One line that writes \<open>d\<close>.\<close>

lemma ready_put:
  assumes r: "ready S s0 slot outb base st s" and d: "may_write S s0 live outb n st d"
    and step: "step S c s = next_opt (wr S n d v s1)" "s1 = s \<or> s1 = no_flags s"
  shows "\<exists>u. ready S s0 slot outb base (emit c st) u \<and> rd S u n d = Some (take_bit (8 * n) v) \<and>
    (\<forall>m x. is_home x \<and> x \<noteq> d \<and> bytes S s0 m x \<inter> bytes S s0 n d = {} \<longrightarrow> rd S u m x = rd S s m x) \<and>
    (\<forall>x. owned (emit c st) x = owned st x) \<and> (\<forall>q. d \<noteq> RegSpot q \<longrightarrow> mreg u q = mreg s q)"
proof -
  have R: "track S s0 live (slot_of st) nmax outb base st s" "tidy slot_of (regs \<inter> live) st" "slot_of st = slot"
    "slots_fit S s0 (slot_of st) nmax" "slot_area S s0 (slot_of st) nmax \<inter> outb = {}" using r by (auto simp: ready_def)
  from track_put [OF R(1,2,4,5) d step] obtain u where
    u: "track S s0 live (slot_of st) nmax outb base (emit c st) u" "tidy slot_of (regs \<inter> live) (emit c st)"
      "rd S u n d = Some (take_bit (8 * n) v)" "same_frame s u" "\<And>q. d \<noteq> RegSpot q \<Longrightarrow> mreg u q = mreg s q"
      "\<And>a. a \<notin> bytes S s0 n d \<Longrightarrow> mmem u a = mmem s a" "slot_of (emit c st) = slot_of st" "parked (emit c st) = parked st" by blast
  have "rd S u m x = rd S s m x" if "is_home x \<and> x \<noteq> d \<and> bytes S s0 m x \<inter> bytes S s0 n d = {}" for m x
  proof (rule rd_same [OF _ u(4)])
    have "bytes S s m x = bytes S s0 m x" using bytes_same [OF _ ready_frame [OF r]] that by blast
    then show "mmem u a = mmem s a" if "a \<in> bytes S s m x" for a
      using that \<open>is_home x \<and> x \<noteq> d \<and> bytes S s0 m x \<inter> bytes S s0 n d = {}\<close> by (intro u(6)) blast
    show "mreg u q = mreg s q" if "x = RegSpot q" for q
      using that \<open>is_home x \<and> x \<noteq> d \<and> bytes S s0 m x \<inter> bytes S s0 n d = {}\<close> by (intro u(5)) blast
  qed (use that in simp)
  then show ?thesis using u R by (intro exI [of _ u]) (auto simp: ready_def owned_def)
qed

text \<open>Moves and two-operand arithmetic.\<close>

lemma ready_mov:
  assumes r: "ready S s0 slot outb base st s" and d: "may_write S s0 live outb n st d"
    and o: "operands_ok d x" "if is_reg d then imm64_ok n x else imm_ok n x" and v: "rd S s n x = Some v"
  shows "\<exists>u. ready S s0 slot outb base (emit (Mov d x (int n)) st) u \<and> rd S u n d = Some v \<and>
    (\<forall>m x. is_home x \<and> x \<noteq> d \<and> bytes S s0 m x \<inter> bytes S s0 n d = {} \<longrightarrow> rd S u m x = rd S s m x) \<and>
    (\<forall>y. owned (emit (Mov d x (int n)) st) y = owned st y) \<and> (\<forall>q. d \<noteq> RegSpot q \<longrightarrow> mreg u q = mreg s q)"
  using ready_put [OF r d mov_wr [OF _ o v]] d rd_take [OF v] by (simp add: may_write_def)

lemma ready_arith:
  assumes r: "ready S s0 slot outb base st s" and d: "may_write S s0 live outb n st d" "is_reg d"
    and x: "is_home x" "imm_ok n x" and v: "rd S s n d = Some a" "rd S s n x = Some b"
    and f: "arith_op nm = Some f" "nm = ''imul'' \<longrightarrow> n \<noteq> 1"
  shows "\<exists>u. ready S s0 slot outb base (emit (Inst nm d x (int n)) st) u \<and> rd S u n d = Some (take_bit (8 * n) (f a b)) \<and>
    (\<forall>m y. is_home y \<and> y \<noteq> d \<longrightarrow> rd S u m y = rd S s m y) \<and>
    (\<forall>y. owned (emit (Inst nm d x (int n)) st) y = owned st y) \<and> (\<forall>q. d \<noteq> RegSpot q \<longrightarrow> mreg u q = mreg s q)"
proof -
  have nm: "nm \<noteq> ''mov'' \<and> nm \<noteq> ''cmp''" using f(1) by (auto simp: arith_op_def split: if_splits)
  have "step S (Inst nm d x (int n)) s = next_opt (wr S n d (take_bit (8 * n) (f a b)) (no_flags s))"
    using d x v f nm operands_reg [OF d(2) x(1)] by (auto simp: step_def Inst_def step2_def may_write_def)
  from ready_put [OF r d(1) this] show ?thesis using d(2) by simp
qed

lemma ready_neg:
  assumes r: "ready S s0 slot outb base st s" and d: "may_write S s0 live outb n st d"
    and v: "rd S s n d = Some a"
    and nm: "nm = ''neg'' \<and> f = uminus \<or> nm = ''not'' \<and> f = ring_bit_operations_class.not"
  shows "\<exists>u. ready S s0 slot outb base (emit (ACmd nm (Some d) None (int n)) st) u \<and>
    rd S u n d = Some (take_bit (8 * n) (f a)) \<and>
    (\<forall>m x. is_home x \<and> x \<noteq> d \<and> bytes S s0 m x \<inter> bytes S s0 n d = {} \<longrightarrow> rd S u m x = rd S s m x) \<and>
    (\<forall>y. owned (emit (ACmd nm (Some d) None (int n)) st) y = owned st y)"
proof -
  have D: "size_ok n" "writable_op d" using d by (auto simp: may_write_def)
  have eq: "step S (ACmd nm (Some d) None (int n)) s =
      next_opt (wr S n d (take_bit (8 * n) (f a)) (if nm = ''neg'' then no_flags s else s))"
    using nm by (elim disjE conjE) (simp_all add: step_def step1_def D v)
  have s1: "(if nm = ''neg'' then no_flags s else s) = s \<or> (if nm = ''neg'' then no_flags s else s) = no_flags s" by simp
  from ready_put [OF r d eq s1, unfolded take_bit_take_bit min.idem] show ?thesis by blast
qed

text \<open>The end: the scratch registers get their values back, the output stays.\<close>

lemma ready_finish:
  assumes r: "ready S s0 slot (bytes S s0 n out) base st s" and o: "output_of S s0 live slot nmax n out"
    and v: "rd S s n out = Some v"
  shows "runs_to S s0 live (slot_area S s0 slot nmax \<union> bytes S s0 n out) base (unpark st) (\<lambda>u. rd S u n out = Some v)"
proof -
  have R: "track S s0 live (slot_of st) nmax (bytes S s0 n out) base st s" "tidy slot_of (regs \<inter> live) st" "slot_of st = slot"
    "slots_fit S s0 (slot_of st) nmax" using r by (auto simp: ready_def)
  obtain new u where u: "lines_of (unpark st) = base @ new" "exec S new s0 = Some (Next u)"
    "\<forall>q. RegSpot q \<in> live \<longrightarrow> mreg u q = mreg s0 q" "\<forall>q. RegSpot q \<notin> parked st \<longrightarrow> mreg u q = mreg s q"
    "mmem u = mmem s" "same_frame s0 u" using track_finish [OF R(1,2,4)] by blast
  have p: "parked st \<subseteq> live" using R(2) by (auto simp: tidy_def parked_def)
  have sf: "same_frame s u" using ready_frame [OF r] u(6) by (auto simp: same_frame_def)
  have "rd S u n out = rd S s n out"
    by (rule rd_same [OF _ sf]) (use o u(4,5) p in \<open>auto simp: output_of_def clear_def\<close>)
  moreover have "mmem u a = mmem s0 a" if "a \<notin> slot_area S s0 slot nmax \<union> bytes S s0 n out" for a
    using R(1,3) that u(5) by (auto simp: track_def)
  ultimately show ?thesis using u v unfolding runs_to_def by (intro exI [of _ new] exI [of _ u]) simp
qed

text \<open>A line that writes registers the command owns, and no memory.\<close>

lemma ready_regs:
  assumes r: "ready S s0 slot outb base st s" and step: "step S c s = Some (Next u)"
    and q: "\<And>q. q \<in> Q \<Longrightarrow> owned st (RegSpot q)" "\<And>q. q \<notin> Q \<Longrightarrow> mreg u q = mreg s q" and m: "mmem u = mmem s"
  shows "ready S s0 slot outb base (emit c st) u \<and> (\<forall>n x. is_home x \<and> x \<notin> RegSpot ` Q \<longrightarrow> rd S u n x = rd S s n x) \<and>
    (\<forall>x. owned (emit c st) x = owned st x)"
proof -
  have R: "track S s0 live (slot_of st) nmax outb base st s" "tidy slot_of (regs \<inter> live) st" "slot_of st = slot"
    "slots_fit S s0 (slot_of st) nmax" "slot_area S s0 (slot_of st) nmax \<inter> outb = {}" using r by (auto simp: ready_def)
  have "''rbp'' \<notin> Q" "''rsp'' \<notin> Q" using q(1) by (auto simp: owned_def is_home_def)
  then have sf: "same_frame s u" using q(2) by (simp add: same_frame_def)
  have "track S s0 live (slot_of st) nmax outb base (emit c st) u"
  proof (rule track_cong [OF R(1) step _ _ sf])
    show "mreg u p = mreg s p" if "RegSpot p \<in> live" "RegSpot p \<notin> parked st" for p
      using q(1) [of p] q(2) [of p] that by (auto simp: owned_def)
  qed (simp_all add: m slot_facts [OF R(2,4,5)])
  moreover have "rd S u n x = rd S s n x" if "is_home x" "x \<notin> RegSpot ` Q" for n x
    by (rule rd_same [OF that(1) sf]) (use q(2) m that(2) in auto)
  ultimately show ?thesis using R by (auto simp: ready_def tidy_def slot_emit owned_def parked_def)
qed

text \<open>Shifts by an immediate or by the count register.\<close>

lemma ready_shift:
  assumes r: "ready S s0 slot outb base st s" and d: "may_write S s0 live outb n st d"
    and v: "rd S s n d = Some a" "rd S s 1 x = Some c" and x: "imm8_ok x"
    and f: "shift_op nm n a (shift_count n c) = Some w"
  shows "\<exists>u. ready S s0 slot outb base (emit (AMulti nm d x (int n) 1) st) u \<and> rd S u n d = Some (take_bit (8 * n) w)"
proof -
  have nm: "nm \<noteq> ''movsx'' \<and> nm \<noteq> ''movzx''" using f by (auto simp: shift_op_def split: if_splits)
  have D: "size_ok n" "writable_op d" using d by (auto simp: may_write_def)
  have "step S (AMulti nm d x (int n) 1) s = next_opt (wr S n d (take_bit (8 * n) w) (no_flags s))"
    using nm D v x f by (simp add: step_def step_multi_def)
  from ready_put [OF r d this disjI2 [OF refl], unfolded take_bit_take_bit min.idem] show ?thesis by blast
qed

end

lemma rd_narrow: "rd S s n x = Some v \<Longrightarrow> k \<le> n \<Longrightarrow> rd S s k x = Some (take_bit (8 * k) v)"
proof (cases x)
  case (MemSpot b off ch cnt)
  assume "rd S s n x = Some v" "k \<le> n"
  moreover have "k \<le> n \<Longrightarrow> take_bit (8 * k) (mread n i m) = mread k i m" for i m
    by (rule bit_eqI) (auto simp: bit_take_bit_iff bit_mread)
  ultimately show ?thesis using MemSpot by (auto simp: rd_def)
qed (auto simp: rd_def min_def)

end
