(* ===== verification/MathSound.thy ===== *)
theory MathSound
  imports MathAsm Emission
begin

unbundle bit_operations_syntax

text \<open>
  The arithmetic commands compute what they should: whatever homes the values have, the lines emitted for
  a command leave the operation's result in the home of its output and no other live value changed.
\<close>

section \<open>Reference operations\<close>

definition arith_val :: "arith \<Rightarrow> 64 word \<Rightarrow> 64 word \<Rightarrow> 64 word" where
  "arith_val op a b = (case op of Add \<Rightarrow> a + b | Subtr \<Rightarrow> a - b | Mult \<Rightarrow> a * b
     | BitAnd \<Rightarrow> a AND b | BitOr \<Rightarrow> a OR b | BitXor \<Rightarrow> a XOR b)"

definition neg_val :: "neg_not \<Rightarrow> 64 word \<Rightarrow> 64 word" where
  "neg_val op = (case op of NegOp \<Rightarrow> uminus | NotOp \<Rightarrow> ring_bit_operations_class.not)"

lemma arith_op_val: "arith_op (arith_name op) = Some (arith_val op)"
  by (cases op) (auto simp: arith_op_def arith_name_def arith_val_def fun_eq_iff)

lemma arith_val_commutes: "commutes op \<Longrightarrow> arith_val op a b = arith_val op b a"
  by (cases op) (auto simp: commutes_def arith_val_def ac_simps)

lemma take_bit_neg: "take_bit k (- take_bit k (w :: 64 word)) = take_bit k (- w)"
proof -
  have w: "w = of_int (uint w)" by simp
  have "take_bit k (- take_bit k (of_int i :: 64 word)) = take_bit k (- of_int i)" for i
    by (simp only: take_bit_of_int of_int_minus [symmetric] take_bit_minus)
  then show ?thesis using w by metis
qed

lemma sub_swapped: "take_bit k (- take_bit k (b - a :: 64 word)) = take_bit k (a - b)"
  by (simp add: take_bit_neg)

context scratch_source
begin

lemma clear_reg: "owned st r \<Longrightarrow> clear S s0 slot nmax n r"
  by (simp add: owned_def clear_def)

lemma output_may_write:
  "output_of S s0 live slot nmax n out \<Longrightarrow> may_write S s0 live (bytes S s0 n out) n st out"
  by (auto simp: output_of_def clear_def may_write_def)

text \<open>The value goes from the scratch register to the output, if they differ, and the command is done.\<close>

lemma final_mov:
  assumes r: "ready S s0 slot (bytes S s0 n out) base st s" and o: "output_of S s0 live slot nmax n out"
    and t: "is_reg temp" and v: "rd S s n temp = Some v"
    and st': "st' = (if temp \<noteq> out then emit (Mov out temp (int n)) st else st)"
  shows "runs_to S s0 live (slot_area S s0 slot nmax \<union> bytes S s0 n out) base (unpark st') (\<lambda>u. rd S u n out = Some v)"
proof (cases "temp = out")
  case True
  then show ?thesis using ready_finish [OF r o] v st' by simp
next
  case False
  have w: "writable_op out" using o by (simp add: output_of_def)
  have i: "if is_reg out then imm64_ok n temp else imm_ok n temp" using t by simp
  obtain u where "ready S s0 slot (bytes S s0 n out) base st' u" "rd S u n out = Some v"
    using ready_mov [OF r output_may_write [OF o] operands_from_reg [OF w t] i v] st' False by auto
  then show ?thesis by (rule ready_finish [OF _ o])
qed

lemma apply_operand_ok:
  assumes r: "ready S s0 slot outb base st s" and t: "owned st temp" and n: "size_ok n" "nm = ''imul'' \<longrightarrow> n \<noteq> 1"
    and v: "rd S s n temp = Some a" "rd S s n x = Some b"
    and x: "clear S s0 slot nmax n x" "imm64_ok n x" and f: "arith_op nm = Some f"
    and g: "apply_operand nm temp x (int n) gr st = Some st'"
  shows "\<exists>u. ready S s0 slot outb base st' u \<and> owned st' temp \<and> rd S u n temp = Some (take_bit (8 * n) (f a b))"
proof (cases "is_imm64 x")
  case False
  have "ready S s0 slot outb base (emit (Inst nm temp x (int n)) st) u \<Longrightarrow> owned (emit (Inst nm temp x (int n)) st) temp" for u
    using t by (simp add: owned_def parked_def)
  then show ?thesis
    using ready_arith [OF r owned_may_write [OF t n(1)] _ _ imm_ok_64 [OF x(2) False] v f n(2)] False g t x(1)
    by (auto simp: apply_operand_def owned_def clear_def)
next
  case True
  then obtain t2 st1 where g2: "gr [] [temp] st = Some (t2, st1)"
    and st': "st' = emit (Inst nm temp t2 (int n)) (emit (Mov t2 x (int n)) st1)"
    using g by (auto simp: apply_operand_def split: Option.bind_splits)
  obtain s1 where s1: "ready S s0 slot outb base st1 s1" "owned st1 t2" "t2 \<noteq> temp" "owned st1 temp"
    "rd S s1 n temp = Some a" "rd S s1 n x = Some b"
    using ready_get [OF r g2] t v clear_reg [OF t] x(1) by auto
  have t2: "is_reg t2" "is_home t2" and tr: "is_reg temp" "is_home temp" using s1(2,4) by (auto simp: owned_def)
  obtain s2 where s2: "ready S s0 slot outb base (emit (Mov t2 x (int n)) st1) s2" "rd S s2 n t2 = Some b"
    "rd S s2 n temp = Some a" "owned (emit (Mov t2 x (int n)) st1) temp"
    using ready_mov [OF s1(1) owned_may_write [OF s1(2) n(1)] operands_reg [OF t2(1)] _ s1(6)] x t2 tr s1(3,4,5)
    by (auto simp: clear_def)
  show ?thesis
    using ready_arith [OF s2(1) owned_may_write [OF s2(4) n(1)] tr(1) t2(2) _ s2(3,2) f n(2)] s2(4) t2(1) st' by auto
qed

lemma negate_ok:
  assumes r: "ready S s0 slot outb base st s" and t: "owned st temp" and n: "size_ok n"
    and v: "rd S s n temp = Some (take_bit (8 * n) (arith_val op b a))"
  shows "\<exists>u. ready S s0 slot outb base (negate_unless (commutes op) temp (int n) st) u \<and>
    rd S u n temp = Some (take_bit (8 * n) (arith_val op a b))"
proof (cases "commutes op")
  case True
  then show ?thesis using r v arith_val_commutes by (auto simp: negate_unless_def)
next
  case False
  then have "op = Subtr" by (simp add: commutes_def)
  then show ?thesis
    using ready_neg [OF r owned_may_write [OF t n] v, of "''neg''" uminus] False
    by (auto simp: negate_unless_def AsmNeg_def sub_swapped arith_val_def)
qed

lemma mov_then_arith:
  assumes r: "ready S s0 slot outb base st s" and t: "owned st temp" and n: "size_ok n" "nm = ''imul'' \<longrightarrow> n \<noteq> 1"
    and v: "rd S s n x = Some a" "rd S s n y = Some b"
    and x: "is_home x" "imm64_ok n x" and y: "is_home y" "imm64_ok n y" "\<not> is_imm64 y" "y \<noteq> temp" and f: "arith_op nm = Some f"
  shows "\<exists>u. ready S s0 slot outb base (emit (Inst nm temp y (int n)) (emit (Mov temp x (int n)) st)) u \<and>
    owned (emit (Inst nm temp y (int n)) (emit (Mov temp x (int n)) st)) temp \<and> rd S u n temp = Some (take_bit (8 * n) (f a b))"
proof -
  have tr: "is_reg temp" "is_home temp" using t by (auto simp: owned_def)
  obtain s2 where s2: "ready S s0 slot outb base (emit (Mov temp x (int n)) st) s2" "rd S s2 n temp = Some a"
    "rd S s2 n y = Some b" "owned (emit (Mov temp x (int n)) st) temp"
    using ready_mov [OF r owned_may_write [OF t n(1)] operands_reg [OF tr(1) x(1)] _ v(1)] x y tr t v(2) by auto
  show ?thesis
    using ready_arith [OF s2(1) owned_may_write [OF s2(4) n(1)] tr(1) y(1) imm_ok_64 [OF y(2,3)] s2(2,3) f n(2)] s2(4) by auto
qed

lemma arith_ok:
  assumes g: "arith_asm ty home op out a b gr st = Some st'" and fl: "\<not> is_floating (ty_of ty out)"
    and n: "vsize ty a = int n" "op = Mult \<longrightarrow> n \<noteq> 1"
    and o: "output_of S s0 live slot nmax n (home out)"
    and ops: "operand_of S s0 slot nmax n (home out) n (home a)" "operand_of S s0 slot nmax n (home out) n (home b)"
    and v: "rd S s0 n (home a) = Some va" "rd S s0 n (home b) = Some vb"
    and st: "gs_spilled st = []" "slot_of st = slot"
  shows "runs_to S s0 live (slot_area S s0 slot nmax \<union> bytes S s0 n (home out)) (lines_of st) (unpark st')
    (\<lambda>u. rd S u n (home out) = Some (take_bit (8 * n) (arith_val op va vb)))"
proof -
  let ?nm = "arith_name op" and ?outb = "bytes S s0 n (home out)" and ?base = "lines_of st"
  have sz: "size_ok n" and mul: "?nm = ''imul'' \<longrightarrow> n \<noteq> 1"
    using o n(2) by (auto simp: output_of_def arith_name_def split: arith.splits)
  have A: "clear S s0 slot nmax n (home a)" "is_home (home a)" "imm64_ok n (home a)"
    and B: "clear S s0 slot nmax n (home b)" "is_home (home b)" "imm64_ok n (home b)"
    using ops by (auto simp: operand_of_def clear_def)
  have oh: "is_home (home out)" using o by (auto simp: output_of_def clear_def)
  have "ready S s0 slot ?outb ?base st s0"
    using o st by (intro ready_start) (auto simp: output_of_def clear_def)
  moreover obtain temp st1 where g1: "gr [home out, home a, home b] [] st = Some (temp, st1)"
    using g fl by (auto simp: arith_asm_def Let_def split: Option.bind_splits)
  moreover have "\<forall>x \<in> set [home out, home a, home b]. is_home x" using oh A B by simp
  ultimately obtain s1 where s1: "ready S s0 slot ?outb ?base st1 s1" "owned st1 temp"
    "rd S s1 n (home a) = Some va" "rd S s1 n (home b) = Some vb"
    using ready_get [OF _ g1] A(1) B(1) v by metis
  have tr: "is_reg temp" "is_home temp" using s1(2) by (auto simp: owned_def)
  note F = arith_op_val [of op]
  have "\<exists>st2 u. ready S s0 slot ?outb ?base st2 u \<and> rd S u n temp = Some (take_bit (8 * n) (arith_val op va vb)) \<and>
      st' = (if temp \<noteq> home out then emit (Mov (home out) temp (int n)) st2 else st2)"
  proof -
    consider (one) "temp = home a" | (two) "temp \<noteq> home a" "temp = home b"
      | (three) "temp \<noteq> home a" "temp \<noteq> home b" "\<not> is_imm64 (home b)"
      | (four) "temp \<noteq> home a" "temp \<noteq> home b" "is_imm64 (home b)" by blast
    then show ?thesis
    proof cases
      case one
      then obtain st2 where st2: "apply_operand ?nm temp (home b) (int n) gr st1 = Some st2"
        "st' = (if temp \<noteq> home out then emit (Mov (home out) temp (int n)) st2 else st2)"
        using g fl g1 n(1) by (auto simp: arith_asm_def Let_def split: Option.bind_splits)
      then show ?thesis using apply_operand_ok [OF s1(1,2) sz mul _ s1(4) B(1,3) F st2(1), of va] one s1(3) by auto
    next
      case two
      then obtain st2 where st2: "apply_operand ?nm temp (home a) (int n) gr st1 = Some st2"
        "st' = (if temp \<noteq> home out then emit (Mov (home out) temp (int n)) (negate_unless (commutes op) temp (int n) st2)
           else negate_unless (commutes op) temp (int n) st2)"
        using g fl g1 n(1) by (auto simp: arith_asm_def Let_def split: Option.bind_splits)
      obtain u where u: "ready S s0 slot ?outb ?base st2 u" "owned st2 temp" "rd S u n temp = Some (take_bit (8 * n) (arith_val op vb va))"
        using apply_operand_ok [OF s1(1,2) sz mul _ s1(3) A(1,3) F st2(1), of vb] two s1(4) by auto
      show ?thesis using negate_ok [OF u(1,2) sz u(3)] st2(2) by blast
    next
      case three
      let ?st2 = "emit (Inst ?nm temp (home b) (int n)) (emit (Mov temp (home a) (int n)) st1)"
      have "st' = (if temp \<noteq> home out then emit (Mov (home out) temp (int n)) ?st2 else ?st2)"
        using g fl g1 n(1) three by (auto simp: arith_asm_def Let_def)
      then show ?thesis
        using mov_then_arith [OF s1(1,2) sz mul s1(3,4) A(2,3) B(2,3) three(3) _ F] three(2) by metis
    next
      case four
      then have na: "\<not> is_imm64 (home a)" using g fl g1 by (auto simp: arith_asm_def Let_def split: Option.bind_splits if_splits)
      let ?st2 = "emit (Inst ?nm temp (home a) (int n)) (emit (Mov temp (home b) (int n)) st1)"
      have st': "st' = (if temp \<noteq> home out then emit (Mov (home out) temp (int n)) (negate_unless (commutes op) temp (int n) ?st2)
           else negate_unless (commutes op) temp (int n) ?st2)"
        using g fl g1 n(1) four na by (auto simp: arith_asm_def Let_def)
      obtain u where u: "ready S s0 slot ?outb ?base ?st2 u" "owned ?st2 temp" "rd S u n temp = Some (take_bit (8 * n) (arith_val op vb va))"
        using mov_then_arith [OF s1(1,2) sz mul s1(4,3) B(2,3) A(2,3) na _ F] four(1) by metis
      show ?thesis using negate_ok [OF u(1,2) sz u(3)] st' by blast
    qed
  qed
  then show ?thesis using final_mov [OF _ o tr(1)] by blast
qed

section \<open>Negation\<close>

lemma negnot_ok:
  assumes g: "negnot_asm ty home op out a gr st = Some st'" and fl: "\<not> is_floating (ty_of ty out)"
    and n: "vsize ty a = int n" and o: "output_of S s0 live slot nmax n (home out)"
    and ops: "operand_of S s0 slot nmax n (home out) n (home a)" and v: "rd S s0 n (home a) = Some va"
    and st: "gs_spilled st = []" "slot_of st = slot"
  shows "runs_to S s0 live (slot_area S s0 slot nmax \<union> bytes S s0 n (home out)) (lines_of st) (unpark st')
    (\<lambda>u. rd S u n (home out) = Some (take_bit (8 * n) (neg_val op va)))"
proof -
  let ?outb = "bytes S s0 n (home out)" and ?base = "lines_of st"
  have sz: "size_ok n" and wo: "writable_op (home out)" and oh: "is_home (home out)"
    using o by (auto simp: output_of_def clear_def)
  have A: "clear S s0 slot nmax n (home a)" "is_home (home a)" "imm64_ok n (home a)"
    using ops by (auto simp: operand_of_def clear_def)
  have st0: "ready S s0 slot ?outb ?base st s0" using o st by (intro ready_start) (auto simp: output_of_def clear_def)
  have "\<exists>st2 u. ready S s0 slot ?outb ?base st2 u \<and> rd S u n (home out) = Some va \<and>
      st' = emit (ACmd (neg_name op) (Some (home out)) None (int n)) st2"
  proof -
    consider (same) "home out = home a" | (mem) "home out \<noteq> home a" "\<not> is_reg (home out)" "\<not> is_reg (home a)"
      | (reg) "home out \<noteq> home a" "is_reg (home out) \<or> is_reg (home a)" by blast
    then show ?thesis
    proof cases
      case same
      then show ?thesis using g fl n st0 v by (auto simp: negnot_asm_def Let_def)
    next
      case mem
      then obtain r st1 where g1: "gr [] [home out, home a] st = Some (r, st1)"
        and st': "st' = emit (ACmd (neg_name op) (Some (home out)) None (int n)) (emit (Mov (home out) r (int n)) (emit (Mov r (home a) (int n)) st1))"
        using g fl n by (auto simp: negnot_asm_def Let_def split: Option.bind_splits)
      obtain s1 where s1: "ready S s0 slot ?outb ?base st1 s1" "owned st1 r" "rd S s1 n (home a) = Some va"
        using ready_get [OF st0 g1] A(1) v by auto
      have tr: "is_reg r" "is_home r" using s1(2) by (auto simp: owned_def)
      obtain s2 where s2: "ready S s0 slot ?outb ?base (emit (Mov r (home a) (int n)) st1) s2" "rd S s2 n r = Some va"
        using ready_mov [OF s1(1) owned_may_write [OF s1(2) sz] operands_reg [OF tr(1) A(2)] _ s1(3)] tr A(3) by auto
      have i: "if is_reg (home out) then imm64_ok n r else imm_ok n r" using tr by simp
      show ?thesis
        using ready_mov [OF s2(1) output_may_write [OF o] operands_from_reg [OF wo tr(1)] i s2(2)] st' by blast
    next
      case reg
      then have st': "st' = emit (ACmd (neg_name op) (Some (home out)) None (int n)) (emit (Mov (home out) (home a) (int n)) st)"
        using g fl n by (auto simp: negnot_asm_def Let_def)
      have ok: "operands_ok (home out) (home a)" "if is_reg (home out) then imm64_ok n (home a) else imm_ok n (home a)"
        using reg(2) A operands_reg operands_from_reg wo by auto
      show ?thesis using ready_mov [OF st0 output_may_write [OF o] ok v] st' by blast
    qed
  qed
  then obtain st2 u where u: "ready S s0 slot ?outb ?base st2 u" "rd S u n (home out) = Some va"
    "st' = emit (ACmd (neg_name op) (Some (home out)) None (int n)) st2" by blast
  have nm: "neg_name op = ''neg'' \<and> neg_val op = uminus \<or> neg_name op = ''not'' \<and> neg_val op = ring_bit_operations_class.not"
    unfolding neg_name_def neg_val_def by (cases op) (simp_all only: neg_not.case simp_thms)
  obtain w where "ready S s0 slot ?outb ?base st' w" "rd S w n (home out) = Some (take_bit (8 * n) (neg_val op va))"
    using ready_neg [OF u(1) output_may_write [OF o] u(2) nm] unfolding u(3) by blast
  then show ?thesis by (rule ready_finish [OF _ o])
qed

section \<open>Shifts\<close>

lemma owned_reg: "is_reg r \<Longrightarrow> is_home r \<Longrightarrow> r \<notin> live \<Longrightarrow> owned st r"
  by (simp add: owned_def)

text \<open>The count is an immediate byte or sits in \<open>RCX\<close>; the value to shift in \<open>s1\<close>.\<close>

lemma shift_tail:
  assumes r: "ready S s0 slot (bytes S s0 n out) base st s" and o: "output_of S s0 live slot nmax n out"
    and s1: "clear S s0 slot nmax n s1" "imm64_ok n s1" "rd S s n s1 = Some va"
    and s2: "imm8_ok s2" "clear S s0 slot nmax 1 s2" "\<not> is_mem s2" "rd S s 1 s2 = Some c"
    and f: "shift_op nm n va (shift_count n c) = Some w"
    and g: "(if out = s1 then Some (emit (AMulti nm s1 s2 (int n) 1) st)
        else do {
          (t, st) \<leftarrow> gr [out, s1] [s2] st;
          let st = (if s1 \<noteq> t then emit (Mov t s1 (int n)) st else st);
              st = emit (AMulti nm t s2 (int n) 1) st in
          Some (if t \<noteq> out then emit (Mov out t (int n)) st else st) }) = Some st'"
  shows "runs_to S s0 live (slot_area S s0 slot nmax \<union> bytes S s0 n out) base (unpark st')
    (\<lambda>u. rd S u n out = Some (take_bit (8 * n) w))"
proof (cases "out = s1")
  case True
  have "rd S s n out = Some va" using True s1(3) by simp
  then show ?thesis
    using ready_shift [OF r output_may_write [OF o] _ s2(4,1) f] True g ready_finish [OF _ o] by auto
next
  case False
  have sz: "size_ok n" and oh: "is_home out" using o by (auto simp: output_of_def clear_def)
  have h1: "is_home s1" using s1(1) by (simp add: clear_def)
  obtain t st1 where g1: "gr [out, s1] [s2] st = Some (t, st1)" using g False by (auto split: Option.bind_splits)
  have "\<forall>x \<in> set [out, s1]. is_home x" using oh h1 by simp
  then obtain u1 where u1: "ready S s0 slot (bytes S s0 n out) base st1 u1" "owned st1 t" "t \<noteq> s2"
    "rd S u1 n s1 = Some va" "rd S u1 1 s2 = Some c"
    using ready_get [OF r g1] s1(1,3) s2(2,4) by auto
  have tr: "is_reg t" "is_home t" using u1(2) by (auto simp: owned_def)
  let ?st2 = "if s1 \<noteq> t then emit (Mov t s1 (int n)) st1 else st1"
  have "\<exists>u. ready S s0 slot (bytes S s0 n out) base ?st2 u \<and> owned ?st2 t \<and> rd S u n t = Some va \<and> rd S u 1 s2 = Some c"
  proof (cases "s1 = t")
    case False
    have "is_home s2" using s2(2) by (simp add: clear_def)
    then show ?thesis
      using ready_mov [OF u1(1) owned_may_write [OF u1(2) sz] operands_reg [OF tr(1) h1] _ u1(4)] False s1(2) tr(1) u1(2,3,5) by auto
  qed (use u1 in auto)
  then obtain u2 where u2: "ready S s0 slot (bytes S s0 n out) base ?st2 u2" "owned ?st2 t" "rd S u2 n t = Some va" "rd S u2 1 s2 = Some c"
    by blast
  obtain u3 where u3: "ready S s0 slot (bytes S s0 n out) base (emit (AMulti nm t s2 (int n) 1) ?st2) u3" "rd S u3 n t = Some (take_bit (8 * n) w)"
    using ready_shift [OF u2(1) owned_may_write [OF u2(2) sz] u2(3,4) s2(1) f] by blast
  have "st' = (if t \<noteq> out then emit (Mov out t (int n)) (emit (AMulti nm t s2 (int n) 1) ?st2) else emit (AMulti nm t s2 (int n) 1) ?st2)"
    using g False g1 by (auto simp: Let_def)
  then show ?thesis by (rule final_mov [OF u3(1) o tr(1) u3(2)])
qed

lemma rcx_facts: "is_reg RCX" "is_home RCX" "imm8_ok RCX" "\<not> is_mem RCX"
  by (simp_all add: RCX_def is_reg_def is_home_def imm8_ok_def is_mem_def)

lemma imm8_not_mem: "is_imm8 x \<Longrightarrow> \<not> is_mem x"
  by (auto simp: is_imm8_def is_mem_def split: spot.splits)

lemma shift_ok:
  assumes g: "shift_asm ty home d out a b gr st = Some st'"
    and n: "vsize ty a = int n" "vsize ty b = int k" "size_ok k" and o: "output_of S s0 live slot nmax n (home out)"
    and ops: "operand_of S s0 slot nmax n (home out) n (home a)" "operand_of S s0 slot nmax n (home out) k (home b)"
    and lit: "is_imm8 (home b) \<Longrightarrow> imm8_ok (home b)" and rcx: "RCX \<notin> live"
    and v: "rd S s0 n (home a) = Some va" "rd S s0 k (home b) = Some vb"
    and f: "shift_op (shift_inst (ty_of ty a) d) n va (shift_count n (take_bit 8 vb)) = Some w"
    and st: "gs_spilled st = []" "slot_of st = slot"
  shows "runs_to S s0 live (slot_area S s0 slot nmax \<union> bytes S s0 n (home out)) (lines_of st) (unpark st')
    (\<lambda>u. rd S u n (home out) = Some (take_bit (8 * n) w))"
proof -
  let ?outb = "bytes S s0 n (home out)" and ?base = "lines_of st" and ?nm = "shift_inst (ty_of ty a) d"
  have sz: "size_ok n" and oh: "is_home (home out)" using o by (auto simp: output_of_def clear_def)
  have A: "clear S s0 slot nmax n (home a)" "is_home (home a)" "imm64_ok n (home a)"
    and B: "clear S s0 slot nmax k (home b)" "is_home (home b)" "imm64_ok k (home b)"
    using ops by (auto simp: operand_of_def clear_def)
  have k: "1 \<le> k" using n(3) by (auto simp: size_ok_def)
  have st0: "ready S s0 slot ?outb ?base st s0" using o st by (intro ready_start) (auto simp: output_of_def clear_def)
  have c0: "rd S s 1 x = Some (take_bit 8 vb)" if "rd S s k x = Some vb" for s x using rd_narrow [OF that k] by simp
  have rown: "owned st1 RCX" for st1 by (rule owned_reg [OF rcx_facts(1,2) rcx])
  have rclear: "clear S s0 slot nmax m RCX" for m by (rule clear_reg [OF rown])
  show ?thesis
  proof (cases "\<not> is_imm8 (home b) \<and> home b \<noteq> RCX")
    case False
    then have b8: "imm8_ok (home b)" "\<not> is_mem (home b)"
      using lit rcx_facts(3,4) imm8_not_mem by metis+
    have "clear S s0 slot nmax 1 (home b)" using B(2) b8(2) by (simp add: clear_def bytes_def)
    from shift_tail [OF st0 o A(1,3) v(1) b8(1) this b8(2) c0 [OF v(2)] f, of st'] show ?thesis
      using g False n by (simp add: shift_asm_def Let_def)
  next
    case True
    have "\<exists>s1 st1 u. ready S s0 slot ?outb ?base st1 u \<and> rd S u n s1 = Some va \<and> rd S u k (home b) = Some vb \<and>
        clear S s0 slot nmax n s1 \<and> imm64_ok n s1 \<and> s1 \<noteq> RCX \<and>
        (if home a = RCX then do { (t, st) \<leftarrow> gr [home out, home a] [home b, RCX] st; Some (t, emit (Mov t (home a) (int n)) st) }
         else Some (home a, st)) = Some (s1, st1)"
    proof (cases "home a = RCX")
      case ar: True
      then obtain t st1 where g1: "gr [home out, home a] [home b, RCX] st = Some (t, st1)"
        using g True by (auto simp: shift_asm_def Let_def split: Option.bind_splits)
      have "\<forall>x \<in> set [home out, home a]. is_home x" using oh A by simp
      then obtain u1 where u1: "ready S s0 slot ?outb ?base st1 u1" "owned st1 t" "t \<noteq> home b" "t \<noteq> RCX"
        "rd S u1 n (home a) = Some va" "rd S u1 k (home b) = Some vb"
        using ready_get [OF st0 g1] A(1) B(1) v by auto
      have tr: "is_reg t" "is_home t" using u1(2) by (auto simp: owned_def)
      obtain u2 where "ready S s0 slot ?outb ?base (emit (Mov t (home a) (int n)) st1) u2" "rd S u2 n t = Some va"
        "rd S u2 k (home b) = Some vb"
        using ready_mov [OF u1(1) owned_may_write [OF u1(2) sz] operands_reg [OF tr(1) A(2)] _ u1(5)] tr A(3) B(2) u1(3,6) by auto
      then show ?thesis using g1 ar u1(4) clear_reg [OF u1(2)] tr by (auto intro!: exI [of _ t])
    next
      case False
      then show ?thesis using st0 v A by auto
    qed
    then obtain s1 st1 u1 where u1: "ready S s0 slot ?outb ?base st1 u1" "rd S u1 n s1 = Some va" "rd S u1 k (home b) = Some vb"
      "clear S s0 slot nmax n s1" "imm64_ok n s1" "s1 \<noteq> RCX"
      and e: "(if home a = RCX then do { (t, st) \<leftarrow> gr [home out, home a] [home b, RCX] st; Some (t, emit (Mov t (home a) (int n)) st) }
         else Some (home a, st)) = Some (s1, st1)" by blast
    obtain u2 where u2: "ready S s0 slot ?outb ?base (emit (Mov RCX (home b) (int k)) st1) u2" "rd S u2 k RCX = Some vb"
      "rd S u2 n s1 = Some va"
      using ready_mov [OF u1(1) owned_may_write [OF rown n(3)] operands_reg [OF rcx_facts(1) B(2)] _ u1(3)] rcx_facts(1) B(3) u1(2,4,6)
      by (auto simp: clear_def)
    from shift_tail [OF u2(1) o u1(4,5) u2(3) rcx_facts(3) rclear rcx_facts(4) c0 [OF u2(2)] f, of st'] show ?thesis
      using g True n e by (simp add: shift_asm_def Let_def)
  qed
qed

end

section \<open>Division\<close>

definition div_result :: "bool \<Rightarrow> div_mod \<Rightarrow> nat \<Rightarrow> 64 word \<Rightarrow> 64 word \<Rightarrow> int" where
  "div_result sg d n a b = (case d of
       DivOp \<Rightarrow> if sg then sval n a sdiv sval n b else uint a div uint b
     | ModOp \<Rightarrow> if sg then sval n a smod sval n b else uint a mod uint b)"

text \<open>No trap: the divisor is not zero and the quotient is representable.\<close>

definition div_defined :: "bool \<Rightarrow> nat \<Rightarrow> 64 word \<Rightarrow> 64 word \<Rightarrow> bool" where
  "div_defined sg n a b = (if sg then sval n b \<noteq> 0 \<and> - (2 ^ (8 * n - 1)) \<le> sval n a sdiv sval n b \<and>
       sval n a sdiv sval n b < 2 ^ (8 * n - 1) else uint b \<noteq> 0)"

lemma uint_take: "take_bit m (w :: 64 word) = w \<Longrightarrow> uint w < 2 ^ m"
  by (metis take_bit_int_less_exp unsigned_take_bit_eq)

lemma sval_cases:
  assumes "take_bit (8 * n) v = v" "0 < n"
  shows "sval n v = uint v - 2 ^ (8 * n) * of_bool (bit v (8 * n - 1))"
proof -
  have s: "Suc (8 * n - 1) = 8 * n" using assms(2) by simp
  have t: "take_bit (8 * n) (uint v) = uint v" by (metis assms(1) unsigned_take_bit_eq)
  show ?thesis unfolding sval_def signed_take_bit_eq_take_bit_minus s t using bit_imp_le_length [of v] by (auto simp: bit_uint_iff)
qed

lemma sval_ones: "n = 4 \<or> n = 8 \<Longrightarrow> sval n (take_bit (8 * n) (- 1 :: 64 word)) = - 1"
proof -
  have "sval 4 (take_bit 32 (- 1)) = - 1" "sval 8 (take_bit 64 (- 1)) = - 1" by code_simp+
  then show "n = 4 \<or> n = 8 \<Longrightarrow> sval n (take_bit (8 * n) (- 1 :: 64 word)) = - 1" by auto
qed

lemma sign_extended:
  assumes "n = 4 \<or> n = 8" "take_bit (8 * n) v = v"
    and h: "hi = (if bit v (8 * n - 1) then take_bit (8 * n) (- 1) else 0)"
  shows "sval n hi * 2 ^ (8 * n) + uint v = sval n v"
proof -
  have "sval n hi = (if bit v (8 * n - 1) then - 1 else 0)" using sval_ones [OF assms(1)] h by (simp add: sval_def)
  then show ?thesis using sval_cases [OF assms(2)] assms(1) by auto
qed

context scratch_source
begin

lemma div_line:
  assumes r: "ready S s0 slot outb base st s" and own: "owned st RAX" "owned st RDX" and n: "n = 4 \<or> n = 8"
    and v: "rd S s n RAX = Some va" "rd S s n x = Some vb" "rd S s n RDX = Some hi" and x: "writable_op x"
    and hi: "(if sg then sval n hi else uint hi) * 2 ^ (8 * n) + uint va = (if sg then sval n va else uint va)"
    and df: "div_defined sg n va vb"
  shows "\<exists>u. ready S s0 slot outb base (emit (ACmd (if sg then ''idiv'' else ''div'') (Some x) None (int n)) st) u \<and>
    rd S u n (return_reg d) = Some (take_bit (8 * n) (word_of_int (div_result sg d n va vb)))"
proof -
  have regs: "take_bit (8 * n) (mreg s ''rax'') = va" "take_bit (8 * n) (mreg s ''rdx'') = hi"
    using v by (auto simp: rd_def RAX_def RDX_def)
  let ?q = "div_result sg DivOp n va vb" and ?r = "div_result sg ModOp n va vb"
  let ?u = "set_reg ''rdx'' (reg_put n (mreg s ''rdx'') (word_of_int ?r))
      (set_reg ''rax'' (reg_put n (mreg s ''rax'') (word_of_int ?q)) (no_flags s))"
  have va: "uint va < 2 ^ (8 * n)" by (rule uint_take [OF rd_take [OF v(1)]])
  have "uint va div uint vb \<le> uint va"
  proof (cases "uint vb = 0")
    case False
    then have "uint va div uint vb \<le> uint va div 1" using uint_ge_0 [of va] uint_ge_0 [of vb] by (intro zdiv_mono2) linarith+
    then show ?thesis by simp
  qed simp
  then have small: "uint va div uint vb < 2 ^ (8 * n)" using va by simp
  have dv: "divide sg n vb s = Some ?u"
    unfolding divide_def Let_def regs hi using df small
    by (cases sg) (simp_all add: div_defined_def div_result_def not_le not_less)
  have sz: "size_ok n" using n by (auto simp: size_ok_def)
  have step: "step S (ACmd (if sg then ''idiv'' else ''div'') (Some x) None (int n)) s = Some (Next ?u)"
    using n v(2) x sz dv by (cases sg) (auto simp: step_def step1_def next_opt_def)
  have "ready S s0 slot outb base (emit (ACmd (if sg then ''idiv'' else ''div'') (Some x) None (int n)) st) ?u"
    by (rule ready_regs [OF r step, where Q = "{''rax'', ''rdx''}", THEN conjunct1])
      (use own in \<open>auto simp: RAX_def RDX_def\<close>)
  moreover have "rd S ?u n (return_reg d) = Some (take_bit (8 * n) (word_of_int (div_result sg d n va vb)))"
    using sz by (cases d) (simp_all add: rd_def return_reg_def RAX_def RDX_def take_reg_put)
  ultimately show ?thesis by blast
qed

lemma div_lines:
  assumes r: "ready S s0 slot outb base st s" and own: "owned st RAX" "owned st RDX" and n: "n = 4 \<or> n = 8"
    and v: "rd S s n RAX = Some va" "rd S s n x = Some vb" and x: "is_home x" "writable_op x" "x \<noteq> RDX"
    and df: "div_defined sg n va vb"
  shows "\<exists>u. ready S s0 slot outb base
      (if sg then emit (ACmd ''idiv'' (Some x) None (int n)) (widen_sign (int n) st)
       else emit (ACmd ''div'' (Some x) None (int n)) (emit (Inst ''xor'' RDX RDX (int n)) st)) u \<and>
    rd S u n (return_reg d) = Some (take_bit (8 * n) (word_of_int (div_result sg d n va vb)))"
proof -
  have sz: "size_ok n" using n by (auto simp: size_ok_def)
  have ne: "RAX \<noteq> RDX" by (simp add: RAX_def RDX_def)
  show ?thesis
  proof (cases sg)
    case True
    let ?nm = "if n = 4 then ''cdq'' else ''cqo''"
    let ?v = "if bit (mreg s ''rax'') (8 * n - 1) then take_bit (8 * n) (- 1) else 0"
    let ?u = "set_reg ''rdx'' ?v s"
    have w: "widen_sign (int n) st = emit (ACmd ?nm None None 0) st" using n by (auto simp: widen_sign_def Cdq_def Cqo_def)
    have step: "step S (ACmd ?nm None None 0) s = Some (Next ?u)"
      using n by (auto simp: step_def step0_def next_opt_def simp del: take_bit_minus_one_eq_mask)
    have "ready S s0 slot outb base (emit (ACmd ?nm None None 0) st) ?u \<and>
        (\<forall>n x. is_home x \<and> x \<notin> RegSpot ` {''rdx''} \<longrightarrow> rd S ?u n x = rd S s n x) \<and>
        (\<forall>x. owned (emit (ACmd ?nm None None 0) st) x = owned st x)"
      by (rule ready_regs [OF r step]) (use own in \<open>auto simp: RDX_def\<close>)
    then have u: "ready S s0 slot outb base (widen_sign (int n) st) ?u" "\<And>y. is_home y \<Longrightarrow> y \<noteq> RDX \<Longrightarrow> rd S ?u n y = rd S s n y"
      "\<And>y. owned (widen_sign (int n) st) y = owned st y" by (auto simp: w RDX_def)
    have "bit (mreg s ''rax'') (8 * n - 1) = bit va (8 * n - 1)"
      using v(1) n by (auto simp: rd_def RAX_def bit_take_bit_iff)
    then have hi: "rd S ?u n RDX = Some (if bit va (8 * n - 1) then take_bit (8 * n) (- 1) else 0)"
      by (simp add: rd_def RDX_def)
    have vv: "rd S ?u n RAX = Some va" "rd S ?u n x = Some vb" using u(2) ne v x own by (auto simp: owned_def)
    show ?thesis
      using div_line [OF u(1) _ _ n vv hi x(2), of True d] u(3) own sign_extended [OF n rd_take [OF v(1)] refl] df True by simp
  next
    case False
    obtain hi where hi: "rd S s n RDX = Some hi" by (simp add: rd_def RDX_def)
    have reg: "is_reg RDX" "is_home RDX" using own by (auto simp: owned_def)
    obtain u where u: "ready S s0 slot outb base (emit (Inst ''xor'' RDX RDX (int n)) st) u"
      "rd S u n RDX = Some 0" "\<And>m y. is_home y \<Longrightarrow> y \<noteq> RDX \<Longrightarrow> rd S u m y = rd S s m y"
      "\<And>y. owned (emit (Inst ''xor'' RDX RDX (int n)) st) y = owned st y"
      using ready_arith [OF r owned_may_write [OF own(2) sz] reg _ hi hi, of "''xor''"] reg by (auto simp: arith_op_def)
    have vv: "rd S u n RAX = Some va" "rd S u n x = Some vb" using u(3) ne v x own by (auto simp: owned_def)
    show ?thesis using div_line [OF u(1) _ _ n vv u(2) x(2), of False d] u(4) own df False by simp
  qed
qed

lemma divmod_ok:
  assumes g: "divmod_asm ty home d out a b gr st = Some st'" and fl: "\<not> is_floating (ty_of ty out)"
    and n: "vsize ty a = int n" "n = 4 \<or> n = 8" and sg: "signed_of (ty_of ty a) = Some sg"
    and o: "output_of S s0 live slot nmax n (home out)"
    and ops: "operand_of S s0 slot nmax n (home out) n (home a)" "operand_of S s0 slot nmax n (home out) n (home b)"
    and confl: "home b \<noteq> RAX" "home b \<noteq> RDX" and clob: "RAX \<notin> live" "RDX \<notin> live"
    and v: "rd S s0 n (home a) = Some va" "rd S s0 n (home b) = Some vb" and df: "div_defined sg n va vb"
    and st: "gs_spilled st = []" "slot_of st = slot"
  shows "runs_to S s0 live (slot_area S s0 slot nmax \<union> bytes S s0 n (home out)) (lines_of st) (unpark st')
    (\<lambda>u. rd S u n (home out) = Some (take_bit (8 * n) (word_of_int (div_result sg d n va vb))))"
proof -
  let ?outb = "bytes S s0 n (home out)" and ?base = "lines_of st"
  have sz: "size_ok n" and oh: "is_home (home out)" using o by (auto simp: output_of_def clear_def)
  have A: "clear S s0 slot nmax n (home a)" "is_home (home a)" "imm64_ok n (home a)"
    and B: "clear S s0 slot nmax n (home b)" "is_home (home b)" "imm64_ok n (home b)"
    using ops by (auto simp: operand_of_def clear_def)
  have st0: "ready S s0 slot ?outb ?base st s0" using o st by (intro ready_start) (auto simp: output_of_def clear_def)
  have R: "is_reg RAX" "is_home RAX" "is_reg RDX" "is_home RDX" "RAX \<noteq> RDX"
    by (simp_all add: RAX_def RDX_def is_reg_def is_home_def)
  have own: "owned st1 RAX" "owned st1 RDX" for st1 using R clob by (auto intro: owned_reg)
  let ?moved = "home a \<noteq> RAX \<and> home b \<noteq> RAX"
  let ?st1 = "if ?moved then emit (Mov RAX (home a) (int n)) st else st"
  have "\<exists>u. ready S s0 slot ?outb ?base ?st1 u \<and> rd S u n RAX = Some va \<and> rd S u n (home b) = Some vb"
    using ready_mov [OF st0 owned_may_write [OF own(1) sz] operands_reg [OF R(1) A(2)] _ v(1)] R(1) A(3) B(2) confl(1) v st0
    by (cases ?moved) auto
  then obtain u1 where u1: "ready S s0 slot ?outb ?base ?st1 u1" "rd S u1 n RAX = Some va" "rd S u1 n (home b) = Some vb" by blast
  have "\<exists>x st2 u. (if is_imm (home b) \<or> home b = RAX \<or> home b = RDX
          then do { (r, st) \<leftarrow> gr [] [RAX, RDX] ?st1; Some (r, emit (Mov r (home b) (int n)) st) } else Some (home b, ?st1)) = Some (x, st2) \<and>
      ready S s0 slot ?outb ?base st2 u \<and> rd S u n RAX = Some va \<and> rd S u n x = Some vb \<and> is_home x \<and> writable_op x \<and> x \<noteq> RDX \<and> x \<noteq> RAX"
  proof (cases "is_imm (home b)")
    case False
    then have "writable_op (home b)" using B(2) fixed_mem_is_mem [of "home b"]
      by (auto simp: is_home_def is_imm_def is_literal_spot_def writable_op_def is_reg_def split: spot.splits)
    then show ?thesis using False u1 confl B(2) by auto
  next
    case True
    then obtain r st2 where g2: "gr [] [RAX, RDX] ?st1 = Some (r, st2)"
      using g fl n confl by (auto simp: divmod_asm_def Let_def split: Option.bind_splits if_splits)
    obtain u2 where u2: "ready S s0 slot ?outb ?base st2 u2" "owned st2 r" "r \<noteq> RAX" "r \<noteq> RDX"
      "rd S u2 n RAX = Some va" "rd S u2 n (home b) = Some vb"
      using ready_get [OF u1(1) g2] B(1) u1(2,3) clear_reg [OF own(1)] by auto
    have tr: "is_reg r" "is_home r" using u2(2) by (auto simp: owned_def)
    obtain u3 where "ready S s0 slot ?outb ?base (emit (Mov r (home b) (int n)) st2) u3" "rd S u3 n r = Some vb" "rd S u3 n RAX = Some va"
      using ready_mov [OF u2(1) owned_may_write [OF u2(2) sz] operands_reg [OF tr(1) B(2)] _ u2(6)] tr B(3) u2(3,5) R(2) by auto
    then show ?thesis using True g2 u2(3,4) tr by auto
  qed
  then obtain x st2 u2 where e: "(if is_imm (home b) \<or> home b = RAX \<or> home b = RDX
          then do { (r, st) \<leftarrow> gr [] [RAX, RDX] ?st1; Some (r, emit (Mov r (home b) (int n)) st) } else Some (home b, ?st1)) = Some (x, st2)"
    and u2: "ready S s0 slot ?outb ?base st2 u2" "rd S u2 n RAX = Some va" "rd S u2 n x = Some vb" "is_home x" "writable_op x" "x \<noteq> RDX" "x \<noteq> RAX"
    by blast
  let ?st3 = "if \<not> ?moved \<and> home a \<noteq> return_reg d then emit (Mov RAX (home a) (int n)) st2 else st2"
  have "\<exists>u. ready S s0 slot ?outb ?base ?st3 u \<and> rd S u n RAX = Some va \<and> rd S u n x = Some vb"
  proof (cases "\<not> ?moved \<and> home a \<noteq> return_reg d")
    case True
    then have h: "home a = RAX" using confl by simp
    then show ?thesis
      using ready_mov [OF u2(1) owned_may_write [OF own(1) sz] operands_reg [OF R(1) R(2)] _ u2(2)] True R(1) u2(3,4,7) by auto
  next
    case False
    then have "?st3 = st2" by (rule if_not_P)
    then show ?thesis using u2 by auto
  qed
  then obtain u3 where u3: "ready S s0 slot ?outb ?base ?st3 u3" "rd S u3 n RAX = Some va" "rd S u3 n x = Some vb" by blast
  let ?st4 = "if sg then emit (ACmd ''idiv'' (Some x) None (int n)) (widen_sign (int n) ?st3)
       else emit (ACmd ''div'' (Some x) None (int n)) (emit (Inst ''xor'' RDX RDX (int n)) ?st3)"
  obtain u4 where u4: "ready S s0 slot ?outb ?base ?st4 u4"
    "rd S u4 n (return_reg d) = Some (take_bit (8 * n) (word_of_int (div_result sg d n va vb)))"
    using div_lines [OF u3(1) own n(2) u3(2,3) u2(4,5,6) df] by blast
  have c: "(return_reg d \<noteq> home out) = (home out \<noteq> return_reg d)" by (simp only: eq_commute [of "return_reg d"])
  have "(if home out \<noteq> return_reg d then emit (Mov (home out) (return_reg d) (int n)) ?st4 else ?st4) = st'"
    using g unfolding divmod_asm_def Let_def n(1) if_not_P [OF fl] e sg by (simp only: Option.bind.simps prod.case option.inject)
  then have "st' = (if return_reg d \<noteq> home out then emit (Mov (home out) (return_reg d) (int n)) ?st4 else ?st4)"
    unfolding c by (rule sym)
  moreover have "is_reg (return_reg d)" using R by (cases d) (simp_all add: return_reg_def)
  ultimately show ?thesis using final_mov [OF u4(1) o _ u4(2)] by blast
qed

end

end
