(* ===== verification/MathCommands.thy ===== *)
theory MathCommands
  imports MathSound
begin

unbundle bit_operations_syntax

text \<open>
  The arithmetic commands as \<open>_generate_asm\<close> emits them: its own \<open>get_reg\<close>, its scratch slots and the
  restores at the end.  \<open>well_placed\<close> is what the spot map provides (\<open>SpotMap.allocation_sound\<close>,
  \<open>FunctionSpots.needed_values_kept_apart\<close>): the homes do not overlap each other or the scratch slots.
\<close>

section \<open>A command in its surroundings\<close>

definition well_placed :: "syms \<Rightarrow> mach \<Rightarrow> genv \<Rightarrow> gst \<Rightarrow> nat \<Rightarrow> spot \<Rightarrow> (nat \<times> spot) list \<Rightarrow> bool" where
  "well_placed S s0 env st n out ins =
     (clear S s0 (slot_seq env st) 14 n out \<and> writable_op out \<and> size_ok n \<and> slots_fit S s0 (slot_seq env st) 14 \<and>
      (\<forall>(k, x) \<in> set ins. operand_of S s0 (slot_seq env st) 14 n out k x))"

definition leaves :: "syms \<Rightarrow> mach \<Rightarrow> genv \<Rightarrow> gst \<Rightarrow> gst \<Rightarrow> nat \<Rightarrow> spot \<Rightarrow> 64 word \<Rightarrow> bool" where
  "leaves S s0 env st st' n out v =
     runs_to S s0 (set (ge_bad env)) (slot_area S s0 (slot_seq env st) 14 \<union> bytes S s0 n out) (lines_of st) st'
       (\<lambda>u. rd S u n out = Some v)"

definition begun :: "string \<Rightarrow> gst \<Rightarrow> gst" where
  "begun nm st = (emit (AComment nm) st)\<lparr>gs_spilled := []\<rparr>"

lemma begun_sel [simp]:
  "gs_spilled (begun nm st) = []" "slot_seq env (begun nm st) = slot_seq env st"
  "lines_of (begun nm st) = lines_of st @ [AComment nm]"
  by (auto simp: begun_def intro!: slot_seq_cong)

lemma generated: "generate_command mk env nm st = Some st' \<Longrightarrow> \<exists>st1. mk (get_reg env) (begun nm st) = Some st1 \<and> st' = unpark st1"
  by (auto simp: generate_command_def begun_def)

text \<open>The comment before the command runs as nothing.\<close>

lemma runs_comment:
  assumes "runs_to S s0 live written (base @ [AComment nm]) st P"
  shows "runs_to S s0 live written base st P"
proof -
  obtain new u where "lines_of st = base @ AComment nm # new" "exec S new s0 = Some (Next u)" "P u"
    "\<forall>q. RegSpot q \<in> live \<longrightarrow> mreg u q = mreg s0 q" "\<forall>a. a \<notin> written \<longrightarrow> mmem u a = mmem s0 a" "same_frame s0 u"
    using assms by (auto simp: runs_to_def)
  then show ?thesis unfolding runs_to_def
    by (intro exI [of _ "AComment nm # new"] exI [of _ u]) (simp add: step_def)
qed

lemma output_not_bad: "v \<in> set (il_outputs c) \<Longrightarrow> home v \<notin> set (ge_bad (command_env regs fl home live c))"
  by (auto simp: command_env_def bad_spots_def)

lemma placed_output:
  "well_placed S s0 (command_env regs fl home live c) st n (home v) ins \<Longrightarrow> v \<in> set (il_outputs c) \<Longrightarrow>
     output_of S s0 (set (ge_bad (command_env regs fl home live c))) (slot_seq (command_env regs fl home live c) st) 14 n (home v)"
  using output_not_bad by (auto simp: well_placed_def output_of_def)

lemma placed_operand: "well_placed S s0 env st n out ins \<Longrightarrow> (k, x) \<in> set ins \<Longrightarrow> operand_of S s0 (slot_seq env st) 14 n out k x"
  by (auto simp: well_placed_def)

text \<open>Scratch slots that a function with a frame pointer has not allocated yet lie apart.\<close>

lemma fresh_slots_fit:
  assumes "\<not> near_active (gs_frame st)" "\<not> ge_frameless env" "gs_pool st = []"
  shows "slots_fit S s (slot_seq env st) n"
  using assms by (auto simp: slots_fit_def slot_seq_def bytes_def is_mem_def addr_def RBP_def Let_def)

section \<open>Properties\<close>

lemma arith_leaves:
  assumes "env = command_env (known_registers names) fl home live (Arith op out a b)"
    and "generate_command (arith_asm ty home op out a b) env nm st = Some st'"
    and "\<not> is_floating (ty_of ty out)" "vsize ty a = int n" "op = Mult \<longrightarrow> n \<noteq> 1"
    and "well_placed S s0 env st n (home out) [(n, home a), (n, home b)]"
    and "rd S s0 n (home a) = Some va" "rd S s0 n (home b) = Some vb"
  shows "leaves S s0 env st st' n (home out) (take_bit (8 * n) (arith_val op va vb))"
proof -
  obtain st1 where st1: "arith_asm ty home op out a b (get_reg env) (begun nm st) = Some st1" "st' = unpark st1"
    using generated [OF assms(2)] by blast
  show ?thesis unfolding leaves_def st1(2) assms(1)
    by (rule runs_comment, rule asm_gen.arith_ok [where st = "begun nm st", unfolded begun_sel])
      (use assms st1 placed_output placed_operand in \<open>auto simp: il_outputs_def\<close>)
qed

text \<open>C6: A command of additive, multiplicative or bitwise arithmetic on integers, whatever homes its operands
  and its result have: the lines emitted for it run to their end, leave the result of the operation, modulo
  two to the width, in the home of the output, and no other register or byte with a live value changes.\<close>

theorem arith_command_computes:
  assumes "env = command_env (known_registers names) fl home live (Arith op out a b)"
    and "generate_command (arith_asm ty home op out a b) env nm st = Some st'"
    and "\<not> is_floating (ty_of ty out)" "vsize ty a = int n" "op = Mult \<longrightarrow> n \<noteq> 1"
    and "well_placed S s0 env st n (home out) [(n, home a), (n, home b)]"
    and "rd S s0 n (home a) = Some va" "rd S s0 n (home b) = Some vb"
  shows "leaves S s0 env st st' n (home out) (take_bit (8 * n) (arith_val op va vb))"
  using assms by (rule arith_leaves)

lemma negnot_leaves:
  assumes "env = command_env (known_registers names) fl home live (NegNot op out a)"
    and "generate_command (negnot_asm ty home op out a) env nm st = Some st'"
    and "\<not> is_floating (ty_of ty out)" "vsize ty a = int n"
    and "well_placed S s0 env st n (home out) [(n, home a)]" "rd S s0 n (home a) = Some va"
  shows "leaves S s0 env st st' n (home out) (take_bit (8 * n) (neg_val op va))"
proof -
  obtain st1 where st1: "negnot_asm ty home op out a (get_reg env) (begun nm st) = Some st1" "st' = unpark st1"
    using generated [OF assms(2)] by blast
  show ?thesis unfolding leaves_def st1(2) assms(1)
    by (rule runs_comment, rule asm_gen.negnot_ok [where st = "begun nm st", unfolded begun_sel])
      (use assms st1 placed_output placed_operand in \<open>auto simp: il_outputs_def\<close>)
qed

text \<open>C35: Negation and complement of integers leave the negated or complemented value in the home of the output.\<close>

theorem negnot_command_computes:
  assumes "env = command_env (known_registers names) fl home live (NegNot op out a)"
    and "generate_command (negnot_asm ty home op out a) env nm st = Some st'"
    and "\<not> is_floating (ty_of ty out)" "vsize ty a = int n"
    and "well_placed S s0 env st n (home out) [(n, home a)]" "rd S s0 n (home a) = Some va"
  shows "leaves S s0 env st st' n (home out) (take_bit (8 * n) (neg_val op va))"
  using assms by (rule negnot_leaves)

text \<open>A shift of C: the count is less than the width.\<close>

definition shift_val :: "bool \<Rightarrow> shift_dir \<Rightarrow> nat \<Rightarrow> 64 word \<Rightarrow> nat \<Rightarrow> 64 word" where
  "shift_val sgnd d n a k = (case d of
       LBitShift \<Rightarrow> a * 2 ^ k
     | RBitShift \<Rightarrow> word_of_int ((if sgnd then sval n a else uint a) div 2 ^ k))"

lemma small_count:
  assumes "uint (c :: 64 word) < (if n = 8 then 64 else 32)"
  shows "shift_count n (take_bit 8 c) = nat (uint c)"
proof -
  have "uint c < 2 ^ 8" using assms by (simp split: if_splits)
  then have "uint (take_bit 8 c) = uint c" unfolding unsigned_take_bit_eq using uint_ge_0 [of c] by (intro take_bit_int_eq_self) auto
  moreover have "nat (uint c) < (if n = 8 then 64 else 32)" 
    using assms uint_ge_0 [of c] unfolding nat_less_iff [OF uint_ge_0] by (simp split: if_splits)
  ultimately show ?thesis by (simp only: shift_count_def mod_less)
qed

lemma shift_inst_val:
  "shift_op (shift_inst t d) n a k = Some (shift_val (signed_default t) d n a k)"
proof (cases d)
  case RBitShift
  have "uint (drop_bit k a) = uint a div 2 ^ k"
    by (unfold unsigned_drop_bit_eq, unfold drop_bit_eq_div) (metis uint_word_of_int_eq word_of_int_uint)
  then have "drop_bit k a = word_of_int (uint a div 2 ^ k)" by (metis word_of_int_uint)
  then show ?thesis using RBitShift by (simp add: shift_op_def shift_inst_def shift_val_def drop_bit_eq_div)
qed (simp add: shift_op_def shift_inst_def shift_val_def push_bit_eq_mult)

lemma shift_leaves:
  assumes "env = command_env (known_registers names) fl home live (BitShift d out a b)"
    and "generate_command (shift_asm ty home d out a b) env nm st = Some st'"
    and "vsize ty a = int n" "vsize ty b = int k" "size_ok k" "RCX \<notin> set (ge_bad env)" "is_imm8 (home b) \<longrightarrow> imm8_ok (home b)"
    and "well_placed S s0 env st n (home out) [(n, home a), (k, home b)]"
    and "rd S s0 n (home a) = Some va" "rd S s0 k (home b) = Some vb" "uint vb < (if n = 8 then 64 else 32)"
  shows "leaves S s0 env st st' n (home out) (take_bit (8 * n) (shift_val (signed_default (ty_of ty a)) d n va (nat (uint vb))))"
proof -
  obtain st1 where st1: "shift_asm ty home d out a b (get_reg env) (begun nm st) = Some st1" "st' = unpark st1"
    using generated [OF assms(2)] by blast
  show ?thesis unfolding leaves_def st1(2) assms(1)
  proof (rule runs_comment, rule asm_gen.shift_ok [where st = "begun nm st", unfolded begun_sel, OF st1(1) [unfolded assms(1)] assms(3,4,5)])
    show "shift_op (shift_inst (ty_of ty a) d) n va (shift_count n (take_bit 8 vb)) =
        Some (shift_val (signed_default (ty_of ty a)) d n va (nat (uint vb)))"
      unfolding small_count [OF assms(11)] by (rule shift_inst_val)
  qed (use assms placed_output placed_operand in \<open>auto simp: il_outputs_def\<close>)
qed

text \<open>C14: A shift whose count is less than the width leaves the shifted value, arithmetic for a signed left
  operand, in the home of the output, provided no live value sits in \<open>RCX\<close>, which the command clobbers.\<close>

theorem shift_command_computes:
  assumes "env = command_env (known_registers names) fl home live (BitShift d out a b)"
    and "generate_command (shift_asm ty home d out a b) env nm st = Some st'"
    and "vsize ty a = int n" "vsize ty b = int k" "size_ok k" "RCX \<notin> set (ge_bad env)" "is_imm8 (home b) \<longrightarrow> imm8_ok (home b)"
    and "well_placed S s0 env st n (home out) [(n, home a), (k, home b)]"
    and "rd S s0 n (home a) = Some va" "rd S s0 k (home b) = Some vb" "uint vb < (if n = 8 then 64 else 32)"
  shows "leaves S s0 env st st' n (home out) (take_bit (8 * n) (shift_val (signed_default (ty_of ty a)) d n va (nat (uint vb))))"
  using assms by (rule shift_leaves)

lemma divmod_leaves:
  assumes "env = command_env (known_registers names) fl home live (DivMod d out a b)"
    and "generate_command (divmod_asm ty home d out a b) env nm st = Some st'"
    and "\<not> is_floating (ty_of ty out)" "vsize ty a = int n" "n = 4 \<or> n = 8" "signed_of (ty_of ty a) = Some sg"
    and "RAX \<notin> set (ge_bad env)" "RDX \<notin> set (ge_bad env)" "home b \<noteq> RAX" "home b \<noteq> RDX"
    and "well_placed S s0 env st n (home out) [(n, home a), (n, home b)]"
    and "rd S s0 n (home a) = Some va" "rd S s0 n (home b) = Some vb" "div_defined sg n va vb"
  shows "leaves S s0 env st st' n (home out) (take_bit (8 * n) (word_of_int (div_result sg d n va vb)))"
proof -
  obtain st1 where st1: "divmod_asm ty home d out a b (get_reg env) (begun nm st) = Some st1" "st' = unpark st1"
    using generated [OF assms(2)] by blast
  show ?thesis unfolding leaves_def st1(2) assms(1)
    by (rule runs_comment, rule asm_gen.divmod_ok [where st = "begun nm st", unfolded begun_sel])
      (use assms st1 placed_output placed_operand in \<open>auto simp: il_outputs_def\<close>)
qed

text \<open>C13: Division and remainder of 4- and 8-byte integers leave the quotient truncated towards zero, or its
  remainder, in the home of the output when the quotient is defined; \<open>RAX\<close> and \<open>RDX\<close>, which the command
  clobbers, hold no live value and not the divisor.\<close>

theorem divmod_command_computes:
  assumes "env = command_env (known_registers names) fl home live (DivMod d out a b)"
    and "generate_command (divmod_asm ty home d out a b) env nm st = Some st'"
    and "\<not> is_floating (ty_of ty out)" "vsize ty a = int n" "n = 4 \<or> n = 8" "signed_of (ty_of ty a) = Some sg"
    and "RAX \<notin> set (ge_bad env)" "RDX \<notin> set (ge_bad env)" "home b \<noteq> RAX" "home b \<noteq> RDX"
    and "well_placed S s0 env st n (home out) [(n, home a), (n, home b)]"
    and "rd S s0 n (home a) = Some va" "rd S s0 n (home b) = Some vb" "div_defined sg n va vb"
  shows "leaves S s0 env st st' n (home out) (take_bit (8 * n) (word_of_int (div_result sg d n va vb)))"
  using assms by (rule divmod_leaves)

section \<open>Instances\<close>

text \<open>A function with two registers, all of them live, and its operands in memory and in a register.\<close>

definition sample_state :: gst where
  "sample_state = \<lparr>gs_code = \<lparr>ac_lines = [], ac_comm = [], ac_globals = [], ac_data = [], ac_strings = [], label_num = 0\<rparr>,
     gs_pool = [], gs_spilled = [], gs_frame = \<lparr>frame_offset = 16, near_active = False, near_label = [], near_off = 0, near_size = 0\<rparr>\<rparr>"

definition sample_types :: types where
  "sample_types = \<lparr>ty_heap = \<lambda>_. undefined, ty_of = \<lambda>_. integer_t\<rparr>"

definition local_at :: "int \<Rightarrow> spot" where
  "local_at i = MemSpot (BaseSpot RBP) (- i) 0 None"

definition sample_home :: "nat \<Rightarrow> spot" where
  "sample_home v = (if v = 0 then local_at 4 else if v = 1 then local_at 8 else if v = 2 then local_at 16 else if v = 3 then RAX else RCX)"

definition sample_mach :: mach where
  "sample_mach = \<lparr>mreg = \<lambda>r. if r = ''rbp'' then 4096 else if r = ''rax'' then 77 else 5, mmem = \<lambda>a. if a = 4088 then 9 else if a = 4080 then 3 else 0, mcmp = None\<rparr>"

definition sample_env :: "nat list \<Rightarrow> il \<Rightarrow> genv" where
  "sample_env live c = command_env (known_registers [''rax'', ''rcx'']) False sample_home (live, live) c"

lemma sample_slots:
  "ge_frameless (sample_env live c) = False" "slots_fit S s (slot_seq (sample_env live c) sample_state) n"
  "slot_seq (sample_env live c) sample_state j = local_at (24 + 8 * int j)"
  by (auto intro!: fresh_slots_fit simp: sample_state_def sample_env_def command_env_def slot_seq_def local_at_def)

lemma sample_clear:
  "0 < i \<Longrightarrow> int n \<le> i \<Longrightarrow> i \<le> 16 \<Longrightarrow> clear S sample_mach (slot_seq (sample_env live c) sample_state) m n (local_at i)"
  by (auto simp: clear_def slot_area_def sample_slots bytes_def is_mem_def is_home_def local_at_def addr_def RBP_def sample_mach_def)

lemma sample_placed:
  "well_placed S sample_mach (sample_env live c) sample_state 4 (sample_home 0) [(4, sample_home 1), (4, sample_home 2)]"
  "well_placed S sample_mach (sample_env live c) sample_state 4 (sample_home 0) [(4, sample_home 1)]"
  using sample_clear sample_slots(2)
  by (auto simp: well_placed_def operand_of_def sample_home_def size_ok_def writable_op_def imm64_ok_def)
    (auto simp: local_at_def is_mem_def bytes_def addr_def RBP_def sample_mach_def)

lemma sample_values:
  "rd S sample_mach 4 (sample_home 1) = Some 9" "rd S sample_mach 4 (sample_home 2) = Some 3"
  "rd S sample_mach 1 (sample_home 2) = Some 3"
proof -
  have m: "mread 4 4088 (mmem sample_mach) = 9" "mread 4 4080 (mmem sample_mach) = 3" "mread 1 4080 (mmem sample_mach) = 3"
    by code_simp+
  have a: "addr S sample_mach (local_at i) = 4096 - i" for i
    by (simp add: addr_def local_at_def RBP_def sample_mach_def)
  show "rd S sample_mach 4 (sample_home 1) = Some 9" "rd S sample_mach 4 (sample_home 2) = Some 3" "rd S sample_mach 1 (sample_home 2) = Some 3"
    using m by (simp_all add: sample_home_def rd_mem [of "local_at _", unfolded is_mem_def local_at_def spot.case, OF TrueI, folded local_at_def] a)
qed

lemma sample_ty: "vsize sample_types v = int 4" "\<not> is_floating (ty_of sample_types v)" "signed_of (ty_of sample_types v) = Some True"
    "signed_default (ty_of sample_types v) = True"
  by (simp_all add: vsize_def sample_types_def integer_t_def is_floating_def signed_of_def signed_default_def size_of_def)

lemma sample_free: "RCX \<notin> set (ge_bad (sample_env [3] c))" "RAX \<notin> set (ge_bad (sample_env [] c))" "RDX \<notin> set (ge_bad (sample_env [] c))"
    "sample_home 2 \<noteq> RAX" "sample_home 2 \<noteq> RDX" "\<not> is_imm8 (sample_home 2)" "size_ok 4"
  by (auto simp: sample_env_def command_env_def bad_spots_def sample_home_def local_at_def RCX_def RAX_def RDX_def is_imm8_def size_ok_def)

lemma sample_words:
  "take_bit 32 (neg_val NegOp 9) = 4294967287" "take_bit 32 (shift_val True RBitShift 4 9 3) = 1" "div_defined True 4 9 3"
  "take_bit 32 (word_of_int (div_result True DivOp 4 9 3)) = (3 :: 64 word)"
  by code_simp+

theorem arith_command_computes_witness:
  "\<exists>st'. generate_command (arith_asm sample_types sample_home Subtr 0 1 2) (sample_env [3, 4] (Arith Subtr 0 1 2)) ''sub'' sample_state = Some st' \<and>
     leaves (\<lambda>_. 0) sample_mach (sample_env [3, 4] (Arith Subtr 0 1 2)) sample_state st' 4 (sample_home 0) 6"
proof -
  have "generate_command (arith_asm sample_types sample_home Subtr 0 1 2) (sample_env [3, 4] (Arith Subtr 0 1 2)) ''sub'' sample_state \<noteq> None"
    by code_simp
  then obtain st' where g: "generate_command (arith_asm sample_types sample_home Subtr 0 1 2) (sample_env [3, 4] (Arith Subtr 0 1 2)) ''sub'' sample_state = Some st'"
    by blast
  show ?thesis
    using arith_command_computes [OF sample_env_def g sample_ty(2,1) _ sample_placed(1) sample_values(1,2)] g by (simp add: arith_val_def)
qed

theorem negnot_command_computes_witness:
  "\<exists>st'. generate_command (negnot_asm sample_types sample_home NegOp 0 1) (sample_env [3, 4] (NegNot NegOp 0 1)) ''neg'' sample_state = Some st' \<and>
     leaves (\<lambda>_. 0) sample_mach (sample_env [3, 4] (NegNot NegOp 0 1)) sample_state st' 4 (sample_home 0) (4294967287)"
proof -
  have "generate_command (negnot_asm sample_types sample_home NegOp 0 1) (sample_env [3, 4] (NegNot NegOp 0 1)) ''neg'' sample_state \<noteq> None"
    by code_simp
  then obtain st' where g: "generate_command (negnot_asm sample_types sample_home NegOp 0 1) (sample_env [3, 4] (NegNot NegOp 0 1)) ''neg'' sample_state = Some st'"
    by blast
  show ?thesis
    using negnot_command_computes [OF sample_env_def g sample_ty(2,1) sample_placed(2) sample_values(1)] g by (simp add: sample_words)
qed

theorem shift_command_computes_witness:
  "\<exists>st'. generate_command (shift_asm sample_types sample_home RBitShift 0 1 2) (sample_env [3] (BitShift RBitShift 0 1 2)) ''sar'' sample_state = Some st' \<and>
     leaves (\<lambda>_. 0) sample_mach (sample_env [3] (BitShift RBitShift 0 1 2)) sample_state st' 4 (sample_home 0) (1)"
proof -
  have "generate_command (shift_asm sample_types sample_home RBitShift 0 1 2) (sample_env [3] (BitShift RBitShift 0 1 2)) ''sar'' sample_state \<noteq> None"
    by code_simp
  then obtain st' where g: "generate_command (shift_asm sample_types sample_home RBitShift 0 1 2) (sample_env [3] (BitShift RBitShift 0 1 2)) ''sar'' sample_state = Some st'"
    by blast
  show ?thesis
    using shift_command_computes [OF sample_env_def g sample_ty(1,1) sample_free(7,1) _ sample_placed(1) sample_values(1,2)] g by (simp add: sample_words sample_free sample_ty)
qed

theorem divmod_command_computes_witness:
  "\<exists>st'. generate_command (divmod_asm sample_types sample_home DivOp 0 1 2) (sample_env [] (DivMod DivOp 0 1 2)) ''idiv'' sample_state = Some st' \<and>
     leaves (\<lambda>_. 0) sample_mach (sample_env [] (DivMod DivOp 0 1 2)) sample_state st' 4 (sample_home 0) (3)"
proof -
  have "generate_command (divmod_asm sample_types sample_home DivOp 0 1 2) (sample_env [] (DivMod DivOp 0 1 2)) ''idiv'' sample_state \<noteq> None"
    by code_simp
  then obtain st' where g: "generate_command (divmod_asm sample_types sample_home DivOp 0 1 2) (sample_env [] (DivMod DivOp 0 1 2)) ''idiv'' sample_state = Some st'"
    by blast
  show ?thesis
    using divmod_command_computes [OF sample_env_def g sample_ty(2,1) _ sample_ty(3) sample_free(2,3,4,5) sample_placed(1) sample_values(1,2)] g by (simp add: sample_words)
qed

end
