(* ===== verification/CompareSound.thy ===== *)
theory CompareSound
  imports CompareAsm MathCommands
begin

text \<open>
  The comparison commands compare: the conditional jump chosen for the operands as \<open>make_asm\<close> ends up
  comparing them decides the comparison of C, and the lines emitted for a comparison leave 0 or 1 in its
  output, or branch to the label it was fused with.
\<close>

section \<open>The jump tables\<close>

definition cmp_val :: "cmp_kind \<Rightarrow> bool \<Rightarrow> nat \<Rightarrow> 64 word \<Rightarrow> 64 word \<Rightarrow> bool" where
  "cmp_val k unsgn n a b = (let x = (if unsgn then uint a else sval n a); y = (if unsgn then uint b else sval n b) in
     case k of NotEqualCmp \<Rightarrow> a \<noteq> b | EqualCmp \<Rightarrow> a = b | LessCmp \<Rightarrow> x < y | GreaterCmp \<Rightarrow> x > y
       | LessOrEqCmp \<Rightarrow> x \<le> y | GreaterOrEqCmp \<Rightarrow> x \<ge> y)"

lemma select_jump_holds:
  "cond_holds (select_jump k t swapped negate) (if swapped then (b, a, n) else (a, b, n)) = Some (cmp_val k (unsigned_cmp t) n a b \<noteq> negate)"
  by (cases k; cases "unsigned_cmp t"; cases swapped; cases negate)
    (auto simp: cond_holds_def select_jump_def jump_table_of_def cmp_val_def Let_def)

lemma select_jump_cond: "select_jump k t swapped negate \<noteq> ''jmp''"
  by (cases k; cases "unsigned_cmp t"; cases swapped; cases negate)
    (auto simp: select_jump_def jump_table_of_def Let_def)

section \<open>Rules for the lines of a comparison\<close>

lemma clear_writable: "clear S s0 slot nmax n x \<Longrightarrow> \<not> is_literal_spot x \<Longrightarrow> writable_op x"
  by (cases x) (auto simp: clear_def is_home_def is_literal_spot_def writable_op_def is_reg_def is_mem_def)

lemma imm_ok_op: "\<not> is_literal_spot x \<Longrightarrow> imm_ok n x \<and> imm64_ok n x \<and> \<not> is_imm64 x"
  by (cases x) (auto simp: is_literal_spot_def imm_ok_def imm64_ok_def is_imm64_def)

context scratch_source
begin

lemma ready_fetch:
  assumes r: "ready S s0 slot outb base st s" and g: "gr [] avoid st = Some (r, st1)" and n: "size_ok n"
    and x: "clear S s0 slot nmax n x" "imm64_ok n x" "rd S s n x = Some v"
  shows "\<exists>u. ready S s0 slot outb base (emit (Mov r x (int n)) st1) u \<and> owned (emit (Mov r x (int n)) st1) r \<and> r \<notin> set avoid \<and>
    rd S u n r = Some v \<and> (\<forall>y. owned st y \<longrightarrow> owned (emit (Mov r x (int n)) st1) y) \<and>
    (\<forall>m y. clear S s0 slot nmax m y \<and> y \<noteq> r \<longrightarrow> rd S u m y = rd S s m y)"
proof -
  obtain s1 where s1: "ready S s0 slot outb base st1 s1" "owned st1 r" "r \<notin> set avoid" "\<And>x. owned st x \<Longrightarrow> owned st1 x"
    "\<And>m y. clear S s0 slot nmax m y \<Longrightarrow> rd S s1 m y = rd S s m y"
    using ready_get [OF r g] by auto
  have tr: "is_reg r" "is_home r" using s1(2) by (auto simp: owned_def)
  have v: "rd S s1 n x = Some v" using s1(5) x by simp
  have xh: "is_home x" using x by (simp add: clear_def)
  from ready_mov [OF s1(1) owned_may_write [OF s1(2) n] operands_reg [OF tr(1) xh] _ v]
  obtain u where "ready S s0 slot outb base (emit (Mov r x (int n)) st1) u" "rd S u n r = Some v"
    "\<forall>m y. is_home y \<and> y \<noteq> r \<longrightarrow> rd S u m y = rd S s1 m y" "\<forall>y. owned (emit (Mov r x (int n)) st1) y = owned st1 y"
    using tr x by auto
  then show ?thesis using s1 by (intro exI [of _ u]) (auto simp: clear_def)
qed

lemma ready_cmp:
  assumes r: "ready S s0 slot outb base st s" and n: "size_ok n" and o: "operands_ok d x" "imm_ok n x"
    and v: "rd S s n d = Some a" "rd S s n x = Some b"
  shows "ready S s0 slot outb base (emit (Cmp d x (int n)) st) (s\<lparr>mcmp := Some (a, b, n)\<rparr>) \<and>
    (\<forall>y. owned (emit (Cmp d x (int n)) st) y = owned st y)"
proof -
  have st: "step S (Cmp d x (int n)) s = Some (Next (s\<lparr>mcmp := Some (a, b, n)\<rparr>))"
    using n o v by (simp add: step_def Cmp_def step2_def next_opt_def)
  then show ?thesis using track_skip [OF _ _ _ _ st] r by (auto simp: ready_def owned_def)
qed

lemma rd_mcmp [simp]: "rd S (s\<lparr>mcmp := f\<rparr>) n x = rd S s n x"
  by (simp add: rd_def addr_def split: spot.split)

text \<open>Jump over the line that clears the result.\<close>

definition clear_unless :: "string \<Rightarrow> string \<Rightarrow> spot \<Rightarrow> int \<Rightarrow> gst \<Rightarrow> gst" where
  "clear_unless j l r n st = emit (ALabel l) (emit (Mov r lit0 n) (emit (AJump j l) st))"

lemma ready_choose:
  assumes r: "ready S s0 slot outb base st s" and own: "owned st r" and n: "size_ok n"
    and c: "mcmp s = Some abn" "cond_holds j abn = Some c" "j \<noteq> ''jmp''" and v: "rd S s n r = Some x"
  shows "\<exists>u. ready S s0 slot outb base (clear_unless j l r (int n) st) u \<and> rd S u n r = Some (if c then x else 0) \<and>
    (\<forall>y. owned (clear_unless j l r (int n) st) y = owned st y)"
proof -
  obtain q where q: "r = RegSpot q" "q \<noteq> ''rbp''" "q \<noteq> ''rsp''"
    using own by (auto simp: owned_def is_reg_def is_home_def split: spot.splits)
  have l0: "rd S s n lit0 = Some 0" by (simp add: rd_def lit_int_def)
  have i: "imm64_ok n lit0" by (simp add: imm64_ok_def lit_int_def fits_def)
  let ?u = "if c then s else set_reg q (reg_put n (mreg s q) 0) s"
  have mv: "step S (Mov r lit0 (int n)) s = Some (Next (set_reg q (reg_put n (mreg s q) 0) s))"
    using mov_wr [OF n operands_reg _ l0, of r] i q
    by (simp add: is_reg_def is_home_def lit_int_def wr_def next_opt_def)
  have run: "exec S [AJump j l, Mov r lit0 (int n), ALabel l] s = Some (Next ?u)"
    using c mv by (simp add: step_def after_label_def)
  have sf: "same_frame s ?u" using q by (simp add: same_frame_def)
  have R: "track S s0 live slot nmax outb base st s" "tidy slot_of (regs \<inter> live) st" "slot_of st = slot"
    "slots_fit S s0 (slot_of st) nmax" "slot_area S s0 (slot_of st) nmax \<inter> outb = {}" using r by (auto simp: ready_def)
  have "track S s0 live slot nmax outb base (clear_unless j l r (int n) st) ?u"
    by (rule track_block [OF R(1) run _ _ sf])
      (use own q slot_facts [OF R(2,4,5)] in \<open>auto simp: clear_unless_def owned_def\<close>)
  then have "ready S s0 slot outb base (clear_unless j l r (int n) st) ?u"
    using R by (auto simp: ready_def tidy_def clear_unless_def slot_emit)
  moreover have "rd S ?u n r = Some (if c then x else 0)"
    using v n q rd_take [OF v] by (auto simp: rd_def take_reg_put)
  ultimately show ?thesis by (intro exI [of _ ?u]) (auto simp: owned_def clear_unless_def parked_def)
qed

section \<open>The operands of the comparison\<close>

lemma fix_either_ok:
  assumes r: "ready S s0 slot outb base st s" and n: "size_ok n"
    and x: "clear S s0 slot nmax n x" "imm64_ok n x" "rd S s n x = Some va"
    and y: "clear S s0 slot nmax n y" "imm64_ok n y" "rd S s n y = Some vb"
    and ne: "\<not> (is_literal_spot x \<and> is_literal_spot y)" "\<not> (is_mem x \<and> is_mem y)"
    and own: "\<And>r. r \<in> set av \<Longrightarrow> owned st r"
    and g: "fix_either_literal64 x y av (int n) (int n) gr st = Some (s1, s2, st')"
  shows "\<exists>u. ready S s0 slot outb base st' u \<and> rd S u n s1 = Some va \<and> rd S u n s2 = Some vb \<and>
    (if is_imm s1 then operands_ok s2 s1 \<and> imm_ok n s1 else operands_ok s1 s2 \<and> imm_ok n s2) \<and>
    (\<forall>r \<in> set av. owned st' r \<and> (\<forall>m. rd S u m r = rd S s m r))"
proof -
  have lit: "is_imm64 z \<Longrightarrow> is_literal_spot z" for z by (auto simp: is_imm64_def is_literal_spot_def split: spot.splits)
  have reg: "is_reg z \<Longrightarrow> \<not> is_literal_spot z" for z by (auto simp: is_reg_def is_literal_spot_def split: spot.splits)
  consider (one) "is_imm64 x" | (two) "\<not> is_imm64 x" "is_imm64 y" | (none) "\<not> is_imm64 x" "\<not> is_imm64 y" by blast
  then show ?thesis
  proof cases
    case one
    then obtain r1 st1 where g1: "gr [] (av @ [y]) st = Some (r1, st1)" "s1 = r1" "s2 = y" "st' = emit (Mov r1 x (int n)) st1"
      using g by (auto simp: fix_either_literal64_def split: Option.bind_splits)
    have yl: "\<not> is_literal_spot y" using one lit ne by blast
    from ready_fetch [OF r g1(1) n x] obtain u where u: "ready S s0 slot outb base st' u" "owned st' r1" "r1 \<notin> set (av @ [y])"
      "rd S u n r1 = Some va" "\<And>z. owned st z \<Longrightarrow> owned st' z" "\<And>m z. clear S s0 slot nmax m z \<Longrightarrow> z \<noteq> r1 \<Longrightarrow> rd S u m z = rd S s m z"
      unfolding g1(4) by blast
    have "is_reg r1" using u(2) by (simp add: owned_def)
    then have "operands_ok r1 y" "\<not> is_imm r1" using clear_writable [OF y(1) yl] reg by (auto simp: operands_ok_def is_imm_def is_reg_def is_mem_def split: spot.splits)
    moreover have "\<forall>r \<in> set av. owned st' r \<and> (\<forall>m. rd S u m r = rd S s m r)"
      using u(3,5,6) own clear_reg by (metis Un_iff set_append)
    ultimately show ?thesis using u y imm_ok_op [OF yl] g1(2,3) by (intro exI [of _ u]) auto
  next
    case two
    then obtain r1 st1 where g1: "gr [] (av @ [x]) st = Some (r1, st1)" "s1 = x" "s2 = r1" "st' = emit (Mov r1 y (int n)) st1"
      using g by (auto simp: fix_either_literal64_def split: Option.bind_splits)
    have xl: "\<not> is_literal_spot x" using two lit ne by blast
    from ready_fetch [OF r g1(1) n y] obtain u where u: "ready S s0 slot outb base st' u" "owned st' r1" "r1 \<notin> set (av @ [x])"
      "rd S u n r1 = Some vb" "\<And>z. owned st z \<Longrightarrow> owned st' z" "\<And>m z. clear S s0 slot nmax m z \<Longrightarrow> z \<noteq> r1 \<Longrightarrow> rd S u m z = rd S s m z"
      unfolding g1(4) by blast
    have "is_reg r1" using u(2) by (simp add: owned_def)
    then have "operands_ok x r1" "imm_ok n r1" using clear_writable [OF x(1) xl] operands_from_reg by auto
    moreover have "\<forall>r \<in> set av. owned st' r \<and> (\<forall>m. rd S u m r = rd S s m r)"
      using u(3,5,6) own clear_reg by (metis Un_iff set_append)
    ultimately show ?thesis using u x xl g1(2,3) by (intro exI [of _ u]) (auto simp: is_imm_def)
  next
    case none
    then have g1: "s1 = x" "s2 = y" "st' = st" using g by (auto simp: fix_either_literal64_def)
    have "is_literal_spot x \<Longrightarrow> writable_op y" "\<not> is_literal_spot x \<Longrightarrow> writable_op x" "writable_op y \<or> is_literal_spot y"
      using clear_writable x y ne by blast+
    then have "if is_imm x then operands_ok y x \<and> imm_ok n x else operands_ok x y \<and> imm_ok n y"
      using ne imm_ok_64 [OF x(2)] imm_ok_64 [OF y(2)] none by (auto simp: operands_ok_def is_imm_def)
    then show ?thesis using r x y own g1 by (intro exI [of _ s]) auto
  qed
qed

lemma fix_operands_ok:
  assumes r: "ready S s0 slot outb base st s" and n: "size_ok n"
    and x: "clear S s0 slot nmax n x" "imm64_ok n x" "rd S s n x = Some va"
    and y: "clear S s0 slot nmax n y" "imm64_ok n y" "rd S s n y = Some vb"
    and own: "\<And>r. r \<in> set av \<Longrightarrow> owned st r"
    and g: "fix_operands x y av (int n) (int n) gr st = Some (s1, s2, sw, st')"
  shows "\<exists>u. ready S s0 slot outb base st' u \<and> rd S u n s1 = Some (if sw then vb else va) \<and>
    rd S u n s2 = Some (if sw then va else vb) \<and> operands_ok s1 s2 \<and> imm_ok n s2 \<and>
    (\<forall>r \<in> set av. owned st' r \<and> (\<forall>m. rd S u m r = rd S s m r))"
proof -
  obtain x1 y1 av1 st1 z1 z2 where g1: "fix_both_literal_or_mem x y av (int n) gr st = Some (x1, y1, av1, st1)"
    and g2: "fix_either_literal64 x1 y1 av1 (int n) (int n) gr st1 = Some (z1, z2, st')"
    and g3: "fix_literal_wrong_order z1 z2 = (s1, s2, sw)"
    using g by (auto simp: fix_operands_def split: Option.bind_splits prod.splits)
  have "\<exists>u. ready S s0 slot outb base st1 u \<and> clear S s0 slot nmax n x1 \<and> imm64_ok n x1 \<and> rd S u n x1 = Some va \<and> y1 = y \<and>
      rd S u n y = Some vb \<and> \<not> (is_literal_spot x1 \<and> is_literal_spot y) \<and> \<not> (is_mem x1 \<and> is_mem y) \<and> set av \<subseteq> set av1 \<and>
      (\<forall>r \<in> set av1. owned st1 r) \<and> (\<forall>r \<in> set av. \<forall>m. rd S u m r = rd S s m r)"
  proof (cases "is_literal_spot x \<and> is_literal_spot y \<or> is_mem x \<and> is_mem y")
    case True
    then obtain r1 st2 where h: "gr [] av st = Some (r1, st2)" "x1 = r1" "y1 = y" "av1 = av @ [r1]" "st1 = emit (Mov r1 x (int n)) st2"
      using g1 unfolding fix_both_literal_or_mem_def by (auto split: Option.bind_splits)
    from ready_fetch [OF r h(1) n x] obtain u where u: "ready S s0 slot outb base st1 u" "owned st1 r1" "r1 \<notin> set av"
      "rd S u n r1 = Some va" "\<And>z. owned st z \<Longrightarrow> owned st1 z" "\<And>m z. clear S s0 slot nmax m z \<Longrightarrow> z \<noteq> r1 \<Longrightarrow> rd S u m z = rd S s m z"
      unfolding h(5) by blast
    have tr: "is_reg r1" using u(2) by (simp add: owned_def)
    then have ne: "y \<noteq> r1" "\<not> is_literal_spot r1" "\<not> is_mem r1" using True by (auto simp: is_reg_def is_literal_spot_def is_mem_def split: spot.splits)
    have "\<forall>r \<in> set av. \<forall>m. rd S u m r = rd S s m r" using u(3,6) own clear_reg by metis
    then show ?thesis using u(1,2,4,5,6) y(1,3) ne h(2-4) own clear_reg tr by (intro exI [of _ u]) auto
  next
    case False
    then have "x1 = x" "y1 = y" "av1 = av" "st1 = st" using g1 by (auto simp: fix_both_literal_or_mem_def)
    then show ?thesis using r x y own False by (intro exI [of _ s]) auto
  qed
  then obtain u1 where u1: "ready S s0 slot outb base st1 u1" "clear S s0 slot nmax n x1" "imm64_ok n x1" "rd S u1 n x1 = Some va" "y1 = y"
    "rd S u1 n y = Some vb" "\<not> (is_literal_spot x1 \<and> is_literal_spot y)" "\<not> (is_mem x1 \<and> is_mem y)" "set av \<subseteq> set av1"
    "\<And>r. r \<in> set av1 \<Longrightarrow> owned st1 r" "\<forall>r \<in> set av. \<forall>m. rd S u1 m r = rd S s m r" by blast
  from fix_either_ok [OF u1(1) n u1(2-4) y(1,2) u1(6-8) u1(10) g2 [unfolded u1(5)]]
  obtain u where u: "ready S s0 slot outb base st' u" "rd S u n z1 = Some va" "rd S u n z2 = Some vb"
    "if is_imm z1 then operands_ok z2 z1 \<and> imm_ok n z1 else operands_ok z1 z2 \<and> imm_ok n z2"
    "\<forall>r \<in> set av1. owned st' r \<and> (\<forall>m. rd S u m r = rd S u1 m r)" by blast
  have "\<forall>r \<in> set av. owned st' r \<and> (\<forall>m. rd S u m r = rd S s m r)" using u(5) u1(9,11) by (metis subsetD)
  then show ?thesis using u(1-4) g3 by (intro exI [of _ u]) (auto simp: fix_literal_wrong_order_def split: if_splits)
qed

section \<open>The two commands\<close>

lemma compare_ok:
  assumes g: "compare_asm ty home kd out a b None gr st = Some st'"
    and fl: "\<not> is_floating (ty_of ty a)" "\<not> is_floating (ty_of ty b)"
    and n: "vsize ty a = int n" "vsize ty b = int n" "size_ok n" "vsize ty out = int k"
    and o: "output_of S s0 live slot nmax k (home out)"
    and x: "clear S s0 slot nmax n (home a)" "imm64_ok n (home a)" "rd S s0 n (home a) = Some va"
    and y: "clear S s0 slot nmax n (home b)" "imm64_ok n (home b)" "rd S s0 n (home b) = Some vb"
    and st: "gs_spilled st = []" "slot_of st = slot"
  shows "runs_to S s0 live (slot_area S s0 slot nmax \<union> bytes S s0 k (home out)) (lines_of st) (unpark st')
    (\<lambda>u. rd S u k (home out) = Some (of_bool (cmp_val kd (unsigned_cmp (ty_of ty a)) n va vb)))"
proof -
  let ?outb = "bytes S s0 k (home out)" and ?base = "lines_of st"
  have kk: "size_ok k" and oh: "is_home (home out)" using o by (auto simp: output_of_def clear_def)
  have st0: "ready S s0 slot ?outb ?base st s0" using o st by (intro ready_start) (auto simp: output_of_def clear_def)
  obtain r st1 s1 s2 sw st2 where g1: "gr [home out] [home a, home b] st = Some (r, st1)"
    and g2: "fix_operands (home a) (home b) [r] (int n) (int n) gr (emit (Mov r lit1 (int k)) st1) = Some (s1, s2, sw, st2)"
    and g3: "st' = (let (l, st3) = new_label st2;
        st4 = clear_unless (select_jump kd (ty_of ty a) sw False) l r (int k) (emit (Cmp s1 s2 (int n)) st3) in
        if r \<noteq> home out then emit (Mov (home out) r (int k)) st4 else st4)"
    using g fl n by (auto simp: compare_asm_def clear_unless_def Let_def split: Option.bind_splits prod.splits)
  obtain t1 where t1: "ready S s0 slot ?outb ?base st1 t1" "owned st1 r" "r \<notin> set [home a, home b]"
    "\<And>m z. clear S s0 slot nmax m z \<Longrightarrow> rd S t1 m z = rd S s0 m z" using ready_get [OF st0 g1] oh by auto
  have tr: "is_reg r" "is_home r" using t1(2) by (auto simp: owned_def)
  have one: "rd S t1 k lit1 = Some 1" "imm64_ok k lit1" "is_home lit1"
    using kk by (auto simp: rd_def lit_int_def imm64_ok_def fits_def is_home_def size_ok_def)
  from ready_mov [OF t1(1) owned_may_write [OF t1(2) kk] operands_reg [OF tr(1) one(3)] _ one(1)]
  obtain t2 where t2: "ready S s0 slot ?outb ?base (emit (Mov r lit1 (int k)) st1) t2" "rd S t2 k r = Some 1"
    "\<And>m z. is_home z \<Longrightarrow> z \<noteq> r \<Longrightarrow> rd S t2 m z = rd S t1 m z" "owned (emit (Mov r lit1 (int k)) st1) r"
    using tr one t1(2) by auto
  have v: "rd S t2 n (home a) = Some va" "rd S t2 n (home b) = Some vb"
    using t2(3) t1(3,4) x y by (auto simp: clear_def)
  from fix_operands_ok [OF t2(1) n(3) x(1,2) v(1) y(1,2) v(2) _ g2] t2(4)
  obtain t3 where t3: "ready S s0 slot ?outb ?base st2 t3" "rd S t3 n s1 = Some (if sw then vb else va)"
    "rd S t3 n s2 = Some (if sw then va else vb)" "operands_ok s1 s2" "imm_ok n s2" "owned st2 r" "rd S t3 k r = Some 1"
    using t2(2) by auto
  define l st3 where "l = fst (new_label st2)" and "st3 = snd (new_label st2)"
  have st3: "ready S s0 slot ?outb ?base st3 t3" "owned st3 r"
    using t3(1,6) slot_label by (auto simp: st3_def ready_def track_def holds_live_def tidy_def owned_def parked_def)
  let ?sel = "select_jump kd (ty_of ty a) sw False"
  let ?st4 = "emit (Cmp s1 s2 (int n)) st3" and ?abn = "if sw then (vb, va, n) else (va, vb, n)"
  have t4: "ready S s0 slot ?outb ?base ?st4 (t3\<lparr>mcmp := Some ?abn\<rparr>)" "owned ?st4 r"
    using ready_cmp [OF st3(1) n(3) t3(4,5,2,3)] st3(2) by auto
  from ready_choose [OF t4(1,2) kk _ select_jump_holds [of kd "ty_of ty a" sw False vb va n] select_jump_cond, of 1 l] t3(7)
  obtain t5 where t5: "ready S s0 slot ?outb ?base (clear_unless ?sel l r (int k) ?st4) t5"
    "rd S t5 k r = Some (of_bool (cmp_val kd (unsigned_cmp (ty_of ty a)) n va vb))" by (auto simp: of_bool_def)
  show ?thesis
    by (rule final_mov [OF t5(1) o tr(1) t5(2)]) (simp add: g3 l_def st3_def Let_def split_beta)
qed

text \<open>Fused with a conditional jump: what a branch does before the registers it parked are restored.\<close>

lemma fused_ok:
  assumes g: "compare_asm ty home kd out a b (Some (label, negate)) gr st = Some st'"
    and fl: "\<not> is_floating (ty_of ty a)" "\<not> is_floating (ty_of ty b)"
    and n: "vsize ty a = int n" "vsize ty b = int n" "size_ok n" and fit: "slots_fit S s0 slot nmax"
    and x: "clear S s0 slot nmax n (home a)" "imm64_ok n (home a)" "rd S s0 n (home a) = Some va"
    and y: "clear S s0 slot nmax n (home b)" "imm64_ok n (home b)" "rd S s0 n (home b) = Some vb"
    and st: "gs_spilled st = []" "slot_of st = slot"
  shows "\<exists>st1 u. ready S s0 slot {} (lines_of st) st1 u \<and> gs_spilled st' = gs_spilled st1 \<and>
    (\<exists>j. lines_of st' = lines_of st1 @ [AJump j label] \<and>
      step S (AJump j label) u = Some (if cmp_val kd (unsigned_cmp (ty_of ty a)) n va vb \<noteq> negate then Goto label u else Next u))"
proof -
  have st0: "ready S s0 slot {} (lines_of st) st s0" using fit st by (intro ready_start) auto
  obtain s1 s2 sw st2 where g2: "fix_operands (home a) (home b) [] (int n) (int n) gr st = Some (s1, s2, sw, st2)"
    and g3: "st' = emit (AJump (select_jump kd (ty_of ty a) sw negate) label) (emit (Cmp s1 s2 (int n)) st2)"
    using g fl n by (auto simp: compare_asm_def Let_def split: Option.bind_splits prod.splits)
  from fix_operands_ok [OF st0 n(3) x y _ g2]
  obtain t3 where t3: "ready S s0 slot {} (lines_of st) st2 t3" "rd S t3 n s1 = Some (if sw then vb else va)"
    "rd S t3 n s2 = Some (if sw then va else vb)" "operands_ok s1 s2" "imm_ok n s2" by auto
  let ?abn = "if sw then (vb, va, n) else (va, vb, n)"
  have "ready S s0 slot {} (lines_of st) (emit (Cmp s1 s2 (int n)) st2) (t3\<lparr>mcmp := Some ?abn\<rparr>)"
    using ready_cmp [OF t3(1) n(3) t3(4,5,2,3)] by auto
  moreover have "step S (AJump (select_jump kd (ty_of ty a) sw negate) label) (t3\<lparr>mcmp := Some ?abn\<rparr>) =
      Some (if cmp_val kd (unsigned_cmp (ty_of ty a)) n va vb \<noteq> negate then Goto label (t3\<lparr>mcmp := Some ?abn\<rparr>)
        else Next (t3\<lparr>mcmp := Some ?abn\<rparr>))"
    using select_jump_holds [of kd "ty_of ty a" sw negate vb va n] select_jump_cond by (simp add: step_def)
  ultimately show ?thesis unfolding g3
    by (intro exI [of _ "emit (Cmp s1 s2 (int n)) st2"] exI [of _ "t3\<lparr>mcmp := Some ?abn\<rparr>"] conjI
        exI [of _ "select_jump kd (ty_of ty a) sw negate"]) (simp_all only: emit_sel)
qed

end

section \<open>Properties\<close>

lemma compare_leaves:
  assumes "env = command_env (known_registers names) fl home live (Compare kd out a b None)"
    and "generate_command (compare_asm ty home kd out a b None) env nm st = Some st'"
    and "\<not> is_floating (ty_of ty a)" "\<not> is_floating (ty_of ty b)"
    and "vsize ty a = int n" "vsize ty b = int n" "size_ok n" "vsize ty out = int k"
    and "well_placed S s0 env st k (home out) [(n, home a), (n, home b)]"
    and "rd S s0 n (home a) = Some va" "rd S s0 n (home b) = Some vb"
  shows "leaves S s0 env st st' k (home out) (of_bool (cmp_val kd (unsigned_cmp (ty_of ty a)) n va vb))"
proof -
  obtain st1 where st1: "compare_asm ty home kd out a b None (get_reg env) (begun nm st) = Some st1" "st' = unpark st1"
    using generated [OF assms(2)] by blast
  have ops: "operand_of S s0 (slot_seq env st) 14 k (home out) n (home a)" "operand_of S s0 (slot_seq env st) 14 k (home out) n (home b)"
    using placed_operand [OF assms(9)] by auto
  have out: "output_of S s0 (set (ge_bad env)) (slot_seq env st) 14 k (home out)"
    using placed_output assms(1,9) by (auto simp: il_outputs_def)
  show ?thesis unfolding leaves_def st1(2) assms(1)
    by (rule runs_comment, rule asm_gen.compare_ok [where st = "begun nm st", unfolded begun_sel])
      (use assms st1 out ops in \<open>auto simp: operand_of_def\<close>)
qed

text \<open>C8: An integer comparison leaves 1 in its output when the comparison of C holds, of the signed or the
  unsigned values as the type of the first operand says, and 0 otherwise; no other live value changes.\<close>

theorem compare_command_decides:
  assumes "env = command_env (known_registers names) fl home live (Compare kd out a b None)"
    and "generate_command (compare_asm ty home kd out a b None) env nm st = Some st'"
    and "\<not> is_floating (ty_of ty a)" "\<not> is_floating (ty_of ty b)"
    and "vsize ty a = int n" "vsize ty b = int n" "size_ok n" "vsize ty out = int k"
    and "well_placed S s0 env st k (home out) [(n, home a), (n, home b)]"
    and "rd S s0 n (home a) = Some va" "rd S s0 n (home b) = Some vb"
  shows "leaves S s0 env st st' k (home out) (of_bool (cmp_val kd (unsigned_cmp (ty_of ty a)) n va vb))"
  using assms by (rule compare_leaves)

text \<open>A branch out of the lines, or to their end.\<close>

definition branches :: "syms \<Rightarrow> mach \<Rightarrow> genv \<Rightarrow> gst \<Rightarrow> gst \<Rightarrow> string \<Rightarrow> bool \<Rightarrow> bool" where
  "branches S s0 env st st' label taken = (\<exists>new u. lines_of st' = lines_of st @ new \<and>
     exec S new s0 = Some (if taken then Goto label u else Next u) \<and>
     (\<forall>q. RegSpot q \<in> set (ge_bad env) \<longrightarrow> mreg u q = mreg s0 q) \<and>
     (\<forall>a. a \<notin> slot_area S s0 (slot_seq env st) 14 \<longrightarrow> mmem u a = mmem s0 a))"

context scratch_source
begin

lemma ready_branch:
  assumes r: "ready S s0 slot {} (base @ [AComment nm]) st1 u" and l: "lines_of st' = lines_of st1 @ [AJump j label]"
    and sp: "gs_spilled st' = gs_spilled st1" "gs_spilled st' = []"
    and j: "step S (AJump j label) u = Some (if c then Goto label u else Next u)"
  shows "\<exists>new. lines_of (unpark st') = base @ new \<and> exec S new s0 = Some (if c then Goto label u else Next u) \<and>
    (\<forall>q. RegSpot q \<in> live \<longrightarrow> mreg u q = mreg s0 q) \<and> (\<forall>a. a \<notin> slot_area S s0 slot nmax \<longrightarrow> mmem u a = mmem s0 a)"
proof -
  obtain new where new: "lines_of st1 = base @ AComment nm # new" "exec S new s0 = Some (Next u)"
    "holds_live S s0 live st1 u" "\<forall>a. a \<notin> slot_area S s0 slot nmax \<longrightarrow> mmem u a = mmem s0 a"
    using r by (auto simp: ready_def track_def)
  have "exec S (new @ [AJump j label]) s0 = Some (if c then Goto label u else Next u)"
    using j by (cases c) (simp_all add: exec_append [OF new(2)])
  moreover have "lines_of (unpark st') = base @ (AComment nm # new @ [AJump j label])" using l new(1) sp by (simp add: unpark_def)
  ultimately show ?thesis using new(3,4) sp
    by (intro exI [of _ "AComment nm # new @ [AJump j label]"]) (auto simp: step_def holds_live_def)
qed

end

text \<open>C15: A comparison fused with a conditional jump goes to the label exactly when the comparison holds, or
  exactly when it fails for the negated form, and leaves every register with a live value as it was
  either way, provided the command had to park no register.\<close>

theorem fused_compare_branches:
  assumes "env = command_env (known_registers names) fl home live (Compare kd out a b (Some (label, negate)))"
    and "compare_asm ty home kd out a b (Some (label, negate)) (get_reg env) (begun nm st) = Some st1" "gs_spilled st1 = []"
    and "\<not> is_floating (ty_of ty a)" "\<not> is_floating (ty_of ty b)" "vsize ty a = int n" "vsize ty b = int n" "size_ok n"
    and "slots_fit S s0 (slot_seq env st) 14"
    and "operand_of S s0 (slot_seq env st) 14 n lit0 n (home a)" "operand_of S s0 (slot_seq env st) 14 n lit0 n (home b)"
    and "rd S s0 n (home a) = Some va" "rd S s0 n (home b) = Some vb"
  shows "branches S s0 env st (unpark st1) label (cmp_val kd (unsigned_cmp (ty_of ty a)) n va vb \<noteq> negate)"
proof -
  have "\<exists>st2 u. scratch_source.ready (set (ge_regs env)) (set (ge_bad env)) (slot_seq env) 14 S s0 (slot_seq env st) {} (lines_of st @ [AComment nm]) st2 u \<and>
      gs_spilled st1 = gs_spilled st2 \<and> (\<exists>j. lines_of st1 = lines_of st2 @ [AJump j label] \<and>
      step S (AJump j label) u = Some (if cmp_val kd (unsigned_cmp (ty_of ty a)) n va vb \<noteq> negate then Goto label u else Next u))"
    unfolding assms(1) by (rule asm_gen.fused_ok [where st = "begun nm st", unfolded begun_sel])
      (use assms in \<open>auto simp: operand_of_def\<close>)
  then show ?thesis unfolding branches_def
    using asm_gen.ready_branch [of names fl home live "Compare kd out a b (Some (label, negate))" S s0 "slot_seq env st" "lines_of st" nm] assms(1,3)
    by metis
qed

section \<open>Instances\<close>

theorem compare_command_decides_witness:
  "\<exists>st'. generate_command (compare_asm sample_types sample_home LessCmp 0 1 2 None) (sample_env [3, 4] (Compare LessCmp 0 1 2 None)) ''lt'' sample_state = Some st' \<and>
     leaves (\<lambda>_. 0) sample_mach (sample_env [3, 4] (Compare LessCmp 0 1 2 None)) sample_state st' 4 (sample_home 0) 0"
proof -
  have "generate_command (compare_asm sample_types sample_home LessCmp 0 1 2 None) (sample_env [3, 4] (Compare LessCmp 0 1 2 None)) ''lt'' sample_state \<noteq> None"
    by code_simp
  then obtain st' where g: "generate_command (compare_asm sample_types sample_home LessCmp 0 1 2 None) (sample_env [3, 4] (Compare LessCmp 0 1 2 None)) ''lt'' sample_state = Some st'"
    by blast
  have "cmp_val LessCmp False 4 9 3 = False" "unsigned_cmp integer_t = False" by code_simp+
  then show ?thesis
    using compare_command_decides [OF sample_env_def g sample_ty(2,2,1,1) sample_free(7) sample_ty(1) sample_placed(1) sample_values(1,2)] g
    by (simp add: sample_types_def)
qed

theorem fused_compare_branches_witness:
  "\<exists>st1. compare_asm sample_types sample_home LessCmp 0 1 2 (Some (''L'', True)) (get_reg (sample_env [3] (Compare LessCmp 0 1 2 (Some (''L'', True))))) (begun ''lt'' sample_state) = Some st1 \<and>
     branches (\<lambda>_. 0) sample_mach (sample_env [3] (Compare LessCmp 0 1 2 (Some (''L'', True)))) sample_state (unpark st1) ''L'' True"
proof -
  let ?run = "compare_asm sample_types sample_home LessCmp 0 1 2 (Some (''L'', True)) (get_reg (sample_env [3] (Compare LessCmp 0 1 2 (Some (''L'', True))))) (begun ''lt'' sample_state)"
  have "case ?run of Some st1 \<Rightarrow> gs_spilled st1 = [] | None \<Rightarrow> False" by code_simp
  then obtain st1 where g: "?run = Some st1" "gs_spilled st1 = []" by (auto split: option.splits)
  have "cmp_val LessCmp False 4 9 3 = False" "unsigned_cmp integer_t = False" by code_simp+
  moreover have "operand_of S sample_mach (slot_seq (sample_env live c) sample_state) 14 n lit0 4 (sample_home 1)"
    "operand_of S sample_mach (slot_seq (sample_env live c) sample_state) 14 n lit0 4 (sample_home 2)" for S live c n
    using sample_clear [of 8 4] sample_clear [of 16 4] by (auto simp: operand_of_def sample_home_def local_at_def imm64_ok_def bytes_def is_mem_def)
  ultimately show ?thesis
    using fused_compare_branches [OF sample_env_def g sample_ty(2,2,1,1) sample_free(7) sample_slots(2) _ _ sample_values(1,2)] g
    by (simp add: sample_types_def)
qed

text \<open>C36: The restores come after the jump, so a fused comparison that had to park a register loses it on the
  branch: with two registers, both live, a comparison of two values in memory reaches the label with
  the value of an operand in \<open>RAX\<close> in place of the live value.\<close>

theorem fused_branch_loses_parked_register:
  "RAX \<in> set (ge_bad (sample_env [3, 4] (Compare LessCmp 0 1 2 (Some (''L'', True))))) \<and>
   (\<exists>st' u. generate_command (compare_asm sample_types sample_home LessCmp 0 1 2 (Some (''L'', True)))
       (sample_env [3, 4] (Compare LessCmp 0 1 2 (Some (''L'', True)))) ''lt'' sample_state = Some st' \<and>
     exec (\<lambda>_. 0) (lines_of st') sample_mach = Some (Goto ''L'' u) \<and> mreg sample_mach ''rax'' = 77 \<and> mreg u ''rax'' = 9)"
proof -
  have "RAX \<in> set (ge_bad (sample_env [3, 4] (Compare LessCmp 0 1 2 (Some (''L'', True)))))" "mreg sample_mach ''rax'' = 77" by code_simp+
  moreover have "case generate_command (compare_asm sample_types sample_home LessCmp 0 1 2 (Some (''L'', True)))
       (sample_env [3, 4] (Compare LessCmp 0 1 2 (Some (''L'', True)))) ''lt'' sample_state of None \<Rightarrow> False
    | Some st' \<Rightarrow> (case exec (\<lambda>_. 0) (lines_of st') sample_mach of Some (Goto l u) \<Rightarrow> l = ''L'' \<and> mreg u ''rax'' = 9 | _ \<Rightarrow> False)"
    by code_simp
  ultimately show ?thesis by (auto split: option.splits outcome.splits)
qed

end
