(* ===== verification/ValueSound.thy ===== *)
theory ValueSound
  imports FunctionAsm CompareSound
begin

unbundle bit_operations_syntax

text \<open>
  Assignments between integer types convert: truncation, sign and zero extension, immediates of any width
  and the conversion to \<open>_Bool\<close>, whatever homes the two values have.
\<close>

section \<open>Conversions\<close>

definition conv_val :: "bool \<Rightarrow> nat \<Rightarrow> nat \<Rightarrow> 64 word \<Rightarrow> 64 word" where
  "conv_val sg na no v = (if no \<le> na \<or> \<not> sg then take_bit (8 * no) v else take_bit (8 * no) (word_of_int (sval na v)))"

text \<open>A literal lies in the range of its type.\<close>

definition lit_in :: "bool \<Rightarrow> nat \<Rightarrow> spot \<Rightarrow> bool" where
  "lit_in sg na x = (case x of LiteralSpot l \<Rightarrow> (case lit_int l of None \<Rightarrow> False
      | Some i \<Rightarrow> if sg then - (2 ^ (8 * na - 1)) \<le> i \<and> i < 2 ^ (8 * na - 1) else 0 \<le> i \<and> i < 2 ^ (8 * na))
    | _ \<Rightarrow> True)"

lemma sval_take:
  assumes "- (2 ^ (8 * n - 1)) \<le> i" "i < 2 ^ (8 * n - 1)" "size_ok n"
  shows "sval n (take_bit (8 * n) (word_of_int i)) = i"
proof -
  have n: "0 < n" "8 * n \<le> 64" using assms(3) by (auto simp: size_ok_def)
  have "uint (take_bit (8 * n) (word_of_int i :: 64 word)) = take_bit (8 * n) i"
    using n by (simp add: unsigned_take_bit_eq unsigned_of_int take_bit_take_bit min_def)
  moreover have "signed_take_bit (8 * n - 1) (take_bit (8 * n) i) = signed_take_bit (8 * n - 1) i"
    using n by (simp add: signed_take_bit_eq_iff_take_bit_eq)
  moreover have "signed_take_bit (8 * n - 1) i = i" using assms(1,2) by (simp add: signed_take_bit_int_eq_self)
  ultimately show ?thesis by (simp add: sval_def)
qed

lemma conv_literal:
  assumes "lit_int l = Some i" "lit_in sg na (LiteralSpot l)" "size_ok na" "size_ok no"
  shows "conv_val sg na no (take_bit (8 * na) (word_of_int i)) = take_bit (8 * no) (word_of_int i)"
proof -
  have r: "if sg then - (2 ^ (8 * na - 1)) \<le> i \<and> i < 2 ^ (8 * na - 1) else 0 \<le> i \<and> i < 2 ^ (8 * na)"
    using assms(1,2) by (simp add: lit_in_def)
  consider "no \<le> na" | "na < no" "sg" | "na < no" "\<not> sg" by linarith
  then show ?thesis
  proof cases
    case 1
    then show ?thesis by (simp add: conv_val_def take_bit_take_bit min_def)
  next
    case 2
    then show ?thesis using r sval_take [OF _ _ assms(3)] by (simp add: conv_val_def)
  next
    case 3
    then have "take_bit (8 * na) i = i" using r by (simp add: take_bit_int_eq_self)
    then have "take_bit (8 * na) (word_of_int i :: 64 word) = word_of_int i" by (simp add: take_bit_of_int)
    then show ?thesis using 3 by (simp add: conv_val_def)
  qed
qed

section \<open>The lines of an assignment\<close>

lemma move_data_one:
  assumes "size_ok n" "is_home d" "is_home x"
  shows "move_data d x (int n) r st = move_chunk d x (int n) r st"
proof -
  have s: "shift d 0 None = Some d" "shift x 0 None = Some x" by (cases d; simp add: shift_def) (cases x; simp add: shift_def)
  have n: "reg_size (int n) = int n" "0 < int n" using assms(1) by (auto simp: size_ok_def reg_size_def)
  have e: "move_data_from d x (int n) r (int n) = Some" by (intro ext) (simp add: move_data_from.simps)
  show ?thesis unfolding move_data_def using s n e by (simp add: move_data_from.simps [of d x "int n" r 0])
qed

context scratch_source
begin

text \<open>The last step of every assignment: from a register to the output.\<close>

lemma widen_tail:
  assumes r: "ready S s0 slot (bytes S s0 no out) base st s" and o: "output_of S s0 live slot nmax no out"
    and t: "owned st r" and x: "is_home x" "\<not> is_literal_spot x" "rd S s na x = Some v"
    and sz: "size_ok na" "na < no" "sg \<or> na < 4 \<or> na = 4 \<and> no = 8"
    and st2: "st2 = (if sg then emit (AMulti ''movsx'' r x (int no) (int na)) st
        else if na = 4 then emit (Mov r x 4) st else emit (AMulti ''movzx'' r x (int no) (int na)) st)"
  shows "\<exists>u. ready S s0 slot (bytes S s0 no out) base st2 u \<and> rd S u no r = Some (conv_val sg na no v)"
proof -
  have so: "size_ok no" using o by (simp add: output_of_def)
  have tr: "is_reg r" "is_home r" using t by (auto simp: owned_def)
  then obtain q where q: "r = RegSpot q" by (auto simp: is_reg_def split: spot.splits)
  have w: "writable_op x" using x by (cases x) (auto simp: is_home_def is_literal_spot_def writable_op_def is_reg_def is_mem_def)
  have vt: "take_bit (8 * na) v = v" using rd_take [OF x(3)] .
  have le: "take_bit (8 * no) v = v" using vt sz(2) by (metis take_bit_take_bit min_absorb2 mult_le_mono2 less_imp_le)
  note P = ready_put [OF r owned_may_write [OF t so]]
  show ?thesis
  proof (cases sg)
    case True
    have "step S (AMulti ''movsx'' r x (int no) (int na)) s = next_opt (wr S no r (word_of_int (sval na v)) s)"
      using so sz tr w x(3) by (simp add: step_def step_multi_def)
    from P [OF this] show ?thesis using True sz(2) st2 by (auto simp: conv_val_def)
  next
    case False
    have c: "conv_val sg na no v = v" using False le by (simp add: conv_val_def)
    show ?thesis
    proof (cases "na = 4")
      case True
      then have no: "no = 8" using False sz by auto
      have "step S (Mov r x (int 4)) s = next_opt (wr S 4 r v s)"
        by (rule mov_wr) (use tr w x True imm_ok_op [OF x(2)] in \<open>auto simp: size_ok_def operands_reg\<close>)
      also have "wr S 4 r v s = wr S no r v s" using q no vt True by (simp add: wr_def reg_put_def)
      finally have "step S (Mov r x 4) s = next_opt (wr S no r v s)" by simp
      from P [OF this] show ?thesis using True False st2 c le by auto
    next
      case n4: False
      have "step S (AMulti ''movzx'' r x (int no) (int na)) s = next_opt (wr S no r v s)"
        using so sz tr w x(3) n4 False by (simp add: step_def step_multi_def)
      from P [OF this] show ?thesis using n4 False st2 c le by auto
    qed
  qed
qed

lemma set_value_ok:
  assumes g: "set_asm ty home out a k gr st = Some (k', st')" and nb: "\<not> to_bool ty out"
    and fl: "\<not> is_floating (ty_of ty out)" "\<not> is_floating (ty_of ty a)"
    and n: "vsize ty out = int no" "vsize ty a = int na" "size_ok na" and o: "output_of S s0 live slot nmax no (home out)"
    and op: "clear S s0 slot nmax na (home a)" "home a = home out \<or> bytes S s0 na (home a) \<inter> bytes S s0 no (home out) = {}"
    and lit: "is_literal_spot (home a) \<Longrightarrow> imm64_ok no (home a) \<and> lit_in sg na (home a)"
      "is_literal_spot (home a) \<Longrightarrow> is_mem (home out) \<Longrightarrow> imm_ok no (home a) \<or> (\<exists>i. home a = LiteralSpot (LInt i))"
    and sg: "na < no \<Longrightarrow> \<not> is_literal_spot (home a) \<Longrightarrow> signed_of (ty_of ty a) = Some sg \<and> (sg \<or> na < 4 \<or> na = 4 \<and> no = 8)"
    and v: "rd S s0 na (home a) = Some va" and st: "gs_spilled st = []" "slot_of st = slot"
  shows "runs_to S s0 live (slot_area S s0 slot nmax \<union> bytes S s0 no (home out)) (lines_of st) (unpark st')
    (\<lambda>u. rd S u no (home out) = Some (conv_val sg na no va))"
proof -
  let ?o = "home out" and ?a = "home a" and ?outb = "bytes S s0 no (home out)" and ?base = "lines_of st"
  have so: "size_ok no" and wo: "writable_op ?o" and oh: "is_home ?o" using o by (auto simp: output_of_def clear_def)
  have ah: "is_home ?a" using op(1) by (simp add: clear_def)
  have st0: "ready S s0 slot ?outb ?base st s0" using o st by (intro ready_start) (auto simp: output_of_def clear_def)
  have fin: "runs_to S s0 live (slot_area S s0 slot nmax \<union> ?outb) ?base (unpark st') (\<lambda>u. rd S u no ?o = Some (conv_val sg na no va))"
    if "ready S s0 slot ?outb ?base st' u" "rd S u no ?o = Some (conv_val sg na no va)" for u using ready_finish [OF that(1) o that(2)] .
  note W = output_may_write [OF o]
  show ?thesis
  proof (cases "is_literal_spot ?a")
    case True
    then obtain l where l: "?a = LiteralSpot l" by (cases ?a) (auto simp: is_literal_spot_def)
    obtain i where i: "lit_int l = Some i" using ah l by (auto simp: is_home_def)
    have va: "va = take_bit (8 * na) (word_of_int i)" using v l i by (simp add: rd_def)
    have c: "rd S s no ?a = Some (conv_val sg na no va)" for s
      using conv_literal [OF i _ n(3) so, of sg] lit(1) True l i va by (simp add: rd_def)
    have im: "imm64_ok no ?a" using lit(1) True by blast
    show ?thesis
    proof (cases "is_mem ?o \<and> vsize ty out = 8 \<and> wide_literal l")
      case wide: True
      then obtain r st1 where g1: "gr [] [] st = Some (r, st1)" "st' = emit (Mov ?o r (int no)) (emit (Mov r ?a (int no)) st1)"
        using g nb fl l n(1) by (auto simp: set_asm_def Let_def split: Option.bind_splits if_splits)
      obtain s1 where s1: "ready S s0 slot ?outb ?base st1 s1" "owned st1 r" using ready_get [OF st0 g1(1)] by auto
      have tr: "is_reg r" "is_home r" using s1(2) by (auto simp: owned_def)
      obtain s2 where s2: "ready S s0 slot ?outb ?base (emit (Mov r ?a (int no)) st1) s2" "rd S s2 no r = Some (conv_val sg na no va)"
        using ready_mov [OF s1(1) owned_may_write [OF s1(2) so] operands_reg [OF tr(1) ah] _ c] tr im by auto
      have i: "if is_reg ?o then imm64_ok no r else imm_ok no r" using tr by simp
      from ready_mov [OF s2(1) W operands_from_reg [OF wo tr(1)] i s2(2)] show ?thesis using fin g1(2) by blast
    next
      case False
      then have st': "st' = emit (Mov ?o ?a (int no)) st"
        using g nb fl l n(1) by (auto simp: set_asm_def Let_def split: if_splits)
      have ok: "operands_ok ?o ?a" using wo l by (auto simp: operands_ok_def is_literal_spot_def is_mem_def)
      have "is_mem ?o \<Longrightarrow> imm_ok no ?a"
      proof -
        assume m: "is_mem ?o"
        from lit(2) [OF True m] show ?thesis
        proof
          assume "\<exists>i. ?a = LiteralSpot (LInt i)"
          then obtain j where j: "l = LInt j" using l by auto
          show ?thesis
          proof (cases "no = 8")
            case True
            then have "\<not> wide_literal l" using False m n(1) by simp
            then show ?thesis using True l j by (simp add: imm_ok_def wide_literal_def imm32_def lit_int_def)
          qed (use im l i in \<open>simp add: imm_ok_def imm64_ok_def\<close>)
        qed
      qed
      then have i: "if is_reg ?o then imm64_ok no ?a else imm_ok no ?a" using im wo by (auto simp: writable_op_def)
      from ready_mov [OF st0 W ok i c] show ?thesis using fin st' by blast
    qed
  next
    case nl: False
    note I = imm_ok_op [OF nl]
    have wa: "writable_op ?a" by (rule clear_writable [OF op(1) nl])
    have g': "(if int no \<le> int na then
              (if ?o = ?a then Some st
               else do {
                 (r, st) \<leftarrow> (if is_reg ?o then Some (?o, st) else if is_reg ?a then Some (?a, st) else gr [] [] st);
                 move_data ?o ?a (int no) r st })
            else do {
              (r, st) \<leftarrow> gr [?o, ?a] [] st;
              sg \<leftarrow> signed_of (ty_of ty a);
              let st = (if sg then emit (AMulti ''movsx'' r ?a (int no) (int na)) st
                        else if int na = 4 then emit (Mov r ?a 4) st
                        else emit (AMulti ''movzx'' r ?a (int no) (int na)) st) in
              Some (if r \<noteq> ?o then emit (Mov ?o r (int no)) st else st) }) = Some st'"
      using g nb fl nl n(1,2) by (auto simp: set_asm_def Let_def is_literal_spot_def split: spot.splits if_splits)
    show ?thesis
    proof (cases "no \<le> na")
      case le: True
      have c: "rd S s0 no ?a = Some (conv_val sg na no va)" using rd_narrow [OF v le] le by (simp add: conv_val_def)
      consider (same) "?o = ?a" | (oreg) "?o \<noteq> ?a" "is_reg ?o" | (areg) "?o \<noteq> ?a" "\<not> is_reg ?o" "is_reg ?a"
        | (mem) "?o \<noteq> ?a" "\<not> is_reg ?o" "\<not> is_reg ?a" by blast
      then show ?thesis
      proof cases
        case same
        then show ?thesis using g' le fin [of s0] st0 c by simp
      next
        case oreg
        then have "st' = emit (Mov ?o ?a (int no)) st"
          using g' le nl by (auto simp: move_data_one [OF so oh ah] move_chunk_def is_literal_spot_def split: spot.splits)
        then show ?thesis using ready_mov [OF st0 W operands_reg [OF oreg(2) ah] _ c] oreg I fin by auto
      next
        case areg
        then have "st' = emit (Mov ?o ?a (int no)) st"
          using g' le nl by (auto simp: move_data_one [OF so oh ah] move_chunk_def is_literal_spot_def split: spot.splits)
        then show ?thesis using ready_mov [OF st0 W operands_from_reg [OF wo areg(3)] _ c] areg I fin by auto
      next
        case mem
        then obtain r st1 where g1: "gr [] [] st = Some (r, st1)" "move_data ?o ?a (int no) r st1 = Some st'"
          using g' le by (auto split: Option.bind_splits)
        obtain s1 where s1: "ready S s0 slot ?outb ?base st1 s1" "owned st1 r" "rd S s1 na ?a = Some va"
          using ready_get [OF st0 g1(1)] op(1) v by auto
        have c1: "rd S s1 no ?a = Some (conv_val sg na no va)" using rd_narrow [OF s1(3) le] le by (simp add: conv_val_def)
        have tr: "is_reg r" "is_home r" using s1(2) by (auto simp: owned_def)
        have "r \<noteq> ?a" "r \<noteq> ?o" using tr mem by auto
        then have st': "st' = emit (Mov ?o r (int no)) (emit (Mov r ?a (int no)) st1)"
          using g1(2) nl by (auto simp: move_data_one [OF so oh ah] move_chunk_def is_literal_spot_def split: spot.splits)
        obtain s2 where s2: "ready S s0 slot ?outb ?base (emit (Mov r ?a (int no)) st1) s2" "rd S s2 no r = Some (conv_val sg na no va)"
          using ready_mov [OF s1(1) owned_may_write [OF s1(2) so] operands_reg [OF tr(1) ah] _ c1] tr I by auto
        have i: "if is_reg ?o then imm64_ok no r else imm_ok no r" using tr by simp
        from ready_mov [OF s2(1) W operands_from_reg [OF wo tr(1)] i s2(2)] show ?thesis using fin st' by blast
      qed
    next
      case gt: False
      then have lt: "na < no" by simp
      note sg' = sg [OF lt nl]
      obtain r st1 where g1: "gr [?o, ?a] [] st = Some (r, st1)" using g' gt by (auto split: Option.bind_splits)
      define st2 where "st2 = (if sg then emit (AMulti ''movsx'' r ?a (int no) (int na)) st1
        else if na = 4 then emit (Mov r ?a 4) st1 else emit (AMulti ''movzx'' r ?a (int no) (int na)) st1)"
      have st': "st' = (if r \<noteq> ?o then emit (Mov ?o r (int no)) st2 else st2)"
        using g' gt g1 sg' by (auto simp: st2_def Let_def)
      have "\<forall>x \<in> set [?o, ?a]. is_home x" using oh ah by simp
      then obtain s1 where s1: "ready S s0 slot ?outb ?base st1 s1" "owned st1 r" "rd S s1 na ?a = Some va"
        using ready_get [OF st0 g1] op(1) v by metis
      have tr: "is_reg r" using s1(2) by (simp add: owned_def)
      obtain u where u: "ready S s0 slot ?outb ?base st2 u" "rd S u no r = Some (conv_val sg na no va)"
        using widen_tail [OF s1(1) o s1(2) ah nl s1(3) n(3) lt _ st2_def] sg' by blast
      show ?thesis by (rule final_mov [OF u(1) o tr u(2) st'])
    qed
  qed
qed

text \<open>Compare with zero, and put one over the zero in the output unless they were equal.\<close>

lemma set_bool_ok:
  assumes g: "set_bool_asm ty home out a k gr st = Some (k', st')"
    and n: "vsize ty out = int no" "vsize ty a = int na" "size_ok na" and o: "output_of S s0 live slot nmax no (home out)"
    and op: "operand_of S s0 slot nmax no (home out) na (home a)"
    and v: "rd S s0 na (home a) = Some va" and st: "gs_spilled st = []" "slot_of st = slot"
  shows "runs_to S s0 live (slot_area S s0 slot nmax \<union> bytes S s0 no (home out)) (lines_of st) (unpark st')
    (\<lambda>u. rd S u no (home out) = Some (if va = 0 then 0 else 1))"
proof -
  let ?o = "home out" and ?a = "home a" and ?outb = "bytes S s0 no (home out)" and ?base = "lines_of st"
  let ?zero = "LiteralSpot (LStr ''0'')" and ?one = "LiteralSpot (LStr ''1'')"
  have so: "size_ok no" and wo: "writable_op ?o" and oh: "is_home ?o" using o by (auto simp: output_of_def clear_def)
  have A: "clear S s0 slot nmax na ?a" "is_home ?a" "imm64_ok na ?a" "?a = ?o \<or> bytes S s0 na ?a \<inter> ?outb = {}"
    using op by (auto simp: operand_of_def clear_def)
  have st0: "ready S s0 slot ?outb ?base st s0" using o st by (intro ready_start) (auto simp: output_of_def clear_def)
  note W = output_may_write [OF o]
  have li: "lit_int (LStr ''0'') = Some 0" "lit_int (LStr ''1'') = Some 1" by code_simp+
  have z: "rd S s m ?zero = Some 0" "is_home ?zero" "imm_ok no ?zero" "imm64_ok no ?zero" "imm_ok na ?zero" for s m
    using so n(3) by (auto simp: rd_def li is_home_def imm_ok_def imm64_ok_def fits_def)
  have one: "rd S s no ?one = Some 1" "imm_ok no ?one" "imm64_ok no ?one" for s
    using so by (auto simp: rd_def li imm_ok_def imm64_ok_def fits_def size_ok_def take_bit_eq_mod)
  have lit_ok: "operands_ok d ?zero \<and> operands_ok d ?one" if "writable_op d" for d
    using that by (auto simp: operands_ok_def is_literal_spot_def is_mem_def)
  define label where "label = ''__shivyc_setbool_'' @ nat_str (Suc k)"
  obtain x st1 where x: "(if is_literal_spot ?a \<or> ?a = ?o then do {
          (r, st) \<leftarrow> gr [] [?o] st;
          Some (r, emit (Mov r ?a (vsize ty a)) st) }
        else Some (?a, st)) = Some (x, st1)"
    and st': "st' = emit (ALabel label) (emit (Mov ?o ?one (int no)) (emit (AJump ''je'' label)
       (emit (Cmp x ?zero (int na)) (emit (Mov ?o ?zero (int no)) st1))))"
    using g n by (auto simp: set_bool_asm_def label_def Let_def split: Option.bind_splits prod.splits)
  have "\<exists>s1. ready S s0 slot ?outb ?base st1 s1 \<and> rd S s1 na x = Some va \<and> writable_op x \<and> is_home x \<and> x \<noteq> ?o \<and>
      bytes S s0 na x \<inter> ?outb = {}"
  proof (cases "is_literal_spot ?a \<or> ?a = ?o")
    case True
    then obtain st2 where g1: "gr [] [?o] st = Some (x, st2)" "st1 = emit (Mov x ?a (int na)) st2"
      using x n(2) by (auto split: Option.bind_splits)
    from ready_fetch [OF st0 g1(1) n(3) A(1,3) v] show ?thesis unfolding g1(2) by (auto simp: owned_def)
  next
    case False
    then show ?thesis using x st0 v A clear_writable [OF A(1)] by auto
  qed
  then obtain s1 where s1: "ready S s0 slot ?outb ?base st1 s1" "rd S s1 na x = Some va" "writable_op x" "is_home x" "x \<noteq> ?o"
    "bytes S s0 na x \<inter> ?outb = {}" by blast
  have i0: "if is_reg ?o then imm64_ok no ?zero else imm_ok no ?zero" using z by simp
  obtain s2 where s2: "ready S s0 slot ?outb ?base (emit (Mov ?o ?zero (int no)) st1) s2" "rd S s2 no ?o = Some 0" "rd S s2 na x = Some va"
    using ready_mov [OF s1(1) W _ i0 z(1)] lit_ok [OF wo] s1(2,4,5,6) by metis
  let ?st3 = "emit (Cmp x ?zero (int na)) (emit (Mov ?o ?zero (int no)) st1)"
  let ?s3 = "s2\<lparr>mcmp := Some (va, 0, na)\<rparr>"
  have s3: "ready S s0 slot ?outb ?base ?st3 ?s3"
    using ready_cmp [OF s2(1) n(3) _ z(5) s2(3) z(1)] lit_ok [OF s1(3)] by blast
  have r0: "rd S ?s3 no ?o = Some 0" using s2(2) by simp
  have iv: "if is_reg ?o then imm64_ok no ?one else imm_ok no ?one" using one by simp
  obtain t where t: "wr S no ?o 1 ?s3 = Some t" "rd S t no ?o = Some (take_bit (8 * no) 1)" "same_frame ?s3 t"
    "\<And>q. ?o \<noteq> RegSpot q \<Longrightarrow> mreg t q = mreg ?s3 q" "\<And>p. p \<notin> bytes S ?s3 no ?o \<Longrightarrow> mmem t p = mmem ?s3 p"
    using wr_home [OF oh wo so, of S 1 ?s3] by blast
  have one': "take_bit (8 * no) (1 :: 64 word) = 1" using so by (auto simp: size_ok_def take_bit_eq_mod)
  have mv: "step S (Mov ?o ?one (int no)) ?s3 = Some (Next t)"
    using mov_wr [OF so _ iv one(1)] lit_ok [OF wo] t(1) by (simp add: next_opt_def)
  let ?u = "if va = 0 then ?s3 else t"
  have run: "exec S [AJump ''je'' label, Mov ?o ?one (int no), ALabel label] ?s3 = Some (Next ?u)"
    using mv by (simp add: step_def [of _ "AJump _ _"] step_def [of _ "ALabel _"] cond_holds_def after_label_def)
  have R: "track S s0 live slot nmax ?outb ?base ?st3 ?s3" "tidy slot_of (regs \<inter> live) ?st3" "slot_of ?st3 = slot"
    "slots_fit S s0 (slot_of ?st3) nmax" "slot_area S s0 (slot_of ?st3) nmax \<inter> ?outb = {}" using s3 by (auto simp: ready_def)
  have b: "bytes S ?s3 no ?o = ?outb" using bytes_same [OF oh ready_frame [OF s3]] by simp
  have "track S s0 live slot nmax ?outb ?base st' ?u"
  proof (rule track_block [OF R(1) run])
    show "lines_of st' = lines_of ?st3 @ [AJump ''je'' label, Mov ?o ?one (int no), ALabel label]" by (simp add: st')
    show "gs_spilled st' = gs_spilled ?st3" by (simp add: st')
    show "same_frame ?s3 ?u" using t(3) by simp
    show "mreg ?u q = mreg ?s3 q" if "RegSpot q \<in> live" for q
    proof -
      have "?o \<noteq> RegSpot q" using that o by (auto simp: output_of_def)
      then show ?thesis using t(4) [of q] by simp
    qed
    show "mmem ?u p = mmem ?s3 p" if "p \<notin> ?outb" for p using that t(5) [of p] b by simp
    show "fixed_mem sl \<and> bytes S s0 8 sl \<inter> ?outb = {}" if "sl \<in> snd ` set (gs_spilled ?st3)" for sl
      by (rule slot_facts [OF R(2,4,5) that])
  qed
  then have "ready S s0 slot ?outb ?base st' ?u"
    using R by (auto simp: ready_def tidy_def st' slot_emit)
  moreover have "rd S ?u no ?o = Some (if va = 0 then 0 else 1)" using r0 t(2) one' by simp
  ultimately show ?thesis by (rule ready_finish [OF _ o])
qed

end

section \<open>The command\<close>

text \<open>One round of \<open>_generate_asm\<close> for a command that uses no label counter of its own.\<close>

lemma il_command:
  "generate_il ty home fm regs (c, live) (k, st) = Some (k', st') \<Longrightarrow>
     \<exists>st1. il_make_asm ty home fm c k (get_reg (command_env regs (fm_frameless fm) home live c)) (begun (il_name c) st) = Some (k', st1) \<and>
       st' = unpark st1"
  by (auto simp: generate_il_def Let_def begun_def)

text \<open>What an assignment between scalar integer types stores; \<open>sg\<close> is the signedness of the source.\<close>

definition set_val :: "types \<Rightarrow> nat \<Rightarrow> bool \<Rightarrow> nat \<Rightarrow> nat \<Rightarrow> 64 word \<Rightarrow> 64 word" where
  "set_val ty out sg na no v = (if to_bool ty out then (if v = 0 then 0 else 1) else conv_val sg na no v)"

text \<open>Literals keep their type's range, and a wide literal kept as a string is not stored to memory.\<close>

definition literal_fits :: "bool \<Rightarrow> nat \<Rightarrow> nat \<Rightarrow> spot \<Rightarrow> spot \<Rightarrow> bool" where
  "literal_fits sg na no x out = (is_literal_spot x \<longrightarrow> imm64_ok no x \<and> lit_in sg na x \<and>
     (is_mem out \<longrightarrow> imm_ok no x \<or> (\<exists>i. x = LiteralSpot (LInt i))))"

lemma set_leaves:
  assumes "env = command_env (known_registers names) (fm_frameless fm) home live (SetCmd out a)"
    and "generate_il ty home fm (known_registers names) (SetCmd out a, live) (k, st) = Some (k', st')"
    and "\<not> is_floating (ty_of ty out)" "\<not> is_floating (ty_of ty a)"
    and "vsize ty out = int no" "vsize ty a = int na" "size_ok na" "well_placed S s0 env st no (home out) [(na, home a)]"
    and "literal_fits sg na no (home a) (home out)"
    and "na < no \<longrightarrow> \<not> is_literal_spot (home a) \<longrightarrow> signed_of (ty_of ty a) = Some sg \<and> (sg \<or> na < 4 \<or> na = 4 \<and> no = 8)"
    and "rd S s0 na (home a) = Some va"
  shows "leaves S s0 env st st' no (home out) (set_val ty out sg na no va)"
proof -
  obtain st1 where st1: "set_asm ty home out a k (get_reg env) (begun (il_name (SetCmd out a)) st) = Some (k', st1)" "st' = unpark st1"
    using il_command [OF assms(2)] assms(1) by (auto simp: il_make_asm_def)
  have o: "output_of S s0 (set (ge_bad env)) (slot_seq env st) 14 no (home out)"
    using placed_output [OF assms(8) [unfolded assms(1)]] assms(1) by (simp add: il_outputs_def)
  have p: "operand_of S s0 (slot_seq env st) 14 no (home out) na (home a)" using placed_operand [OF assms(8)] by simp
  show ?thesis
  proof (cases "to_bool ty out")
    case True
    then have g: "set_bool_asm ty home out a k (get_reg env) (begun (il_name (SetCmd out a)) st) = Some (k', st1)"
      using st1(1) by (simp add: set_asm_def Let_def)
    have "leaves S s0 env st (unpark st1) no (home out) (if va = 0 then 0 else 1)" unfolding leaves_def assms(1)
      by (rule runs_comment, rule asm_gen.set_bool_ok [where st = "begun (il_name (SetCmd out a)) st", unfolded begun_sel,
          OF g [unfolded assms(1)] assms(5,6,7) o [unfolded assms(1)] p [unfolded assms(1)] assms(11)])
        simp_all
    then show ?thesis using True st1(2) by (simp only: set_val_def if_True)
  next
    case False
    have c: "clear S s0 (slot_seq env st) 14 na (home a)" "home a = home out \<or> bytes S s0 na (home a) \<inter> bytes S s0 no (home out) = {}"
      using p by (auto simp: operand_of_def)
    note F = assms(9) [unfolded literal_fits_def, rule_format]
    have "leaves S s0 env st (unpark st1) no (home out) (conv_val sg na no va)" unfolding leaves_def assms(1)
      by (rule runs_comment, rule asm_gen.set_value_ok [where st = "begun (il_name (SetCmd out a)) st", unfolded begun_sel,
          OF st1(1) [unfolded assms(1)] False assms(3-7) o [unfolded assms(1)] c [unfolded assms(1)], of sg va])
        (use F assms(10,11) in simp_all)
    then show ?thesis using False st1(2) by (simp only: set_val_def if_False)
  qed
qed

text \<open>C7: An assignment converts between integer types: to \<open>_Bool\<close> it stores whether the value is nonzero, to a type
  no wider it keeps the low bytes, and to a wider type it extends by the sign or by zeros as the type of the
  source says, for any combination of registers, memory and immediates; no other live value changes.\<close>

theorem set_command_converts:
  assumes "env = command_env (known_registers names) (fm_frameless fm) home live (SetCmd out a)"
    and "generate_il ty home fm (known_registers names) (SetCmd out a, live) (k, st) = Some (k', st')"
    and "\<not> is_floating (ty_of ty out)" "\<not> is_floating (ty_of ty a)"
    and "vsize ty out = int no" "vsize ty a = int na" "size_ok na" "well_placed S s0 env st no (home out) [(na, home a)]"
    and "literal_fits sg na no (home a) (home out)"
    and "na < no \<longrightarrow> \<not> is_literal_spot (home a) \<longrightarrow> signed_of (ty_of ty a) = Some sg \<and> (sg \<or> na < 4 \<or> na = 4 \<and> no = 8)"
    and "rd S s0 na (home a) = Some va"
  shows "leaves S s0 env st st' no (home out) (set_val ty out sg na no va)"
  using assms by (rule set_leaves)

section \<open>Instance\<close>

text \<open>A negative byte in memory, widened to eight bytes in memory while both registers of the function are live.\<close>

definition conv_types :: types where
  "conv_types = \<lparr>ty_heap = \<lambda>_. undefined, ty_of = \<lambda>v. if v = 0 then longint else char_t\<rparr>"

definition conv_home :: "nat \<Rightarrow> spot" where
  "conv_home v = (if v = 0 then local_at 16 else if v = 1 then local_at 8 else if v = 3 then RAX else RCX)"

definition conv_mach :: mach where
  "conv_mach = \<lparr>mreg = \<lambda>r. if r = ''rbp'' then 4096 else 5, mmem = \<lambda>a. if a = 4088 then 253 else 0, mcmp = None\<rparr>"

definition conv_mode :: fn_mode where
  "conv_mode = \<lparr>fm_frameless = False, fm_meta_funcs = [], fm_meta_slot = None\<rparr>"

lemma conv_slots:
  "slot_seq (command_env (known_registers ns) False conv_home live c) sample_state j = local_at (24 + 8 * int j)"
  "slots_fit S s (slot_seq (command_env (known_registers ns) False conv_home live c) sample_state) n"
  by (auto intro!: fresh_slots_fit simp: sample_state_def command_env_def slot_seq_def local_at_def)

lemma conv_placed:
  "well_placed S conv_mach (command_env (known_registers ns) False conv_home live c) sample_state 8 (conv_home 0) [(1, conv_home 1)]"
proof -
  have "clear S conv_mach (slot_seq (command_env (known_registers ns) False conv_home live c) sample_state) 14 n (local_at i)"
    if "0 < i" "int n \<le> i" "i \<le> 16" for n i
    using that by (auto simp: clear_def slot_area_def conv_slots bytes_def is_mem_def is_home_def local_at_def addr_def RBP_def conv_mach_def)
  then show ?thesis using conv_slots(2)
    by (auto simp: well_placed_def operand_of_def conv_home_def size_ok_def writable_op_def imm64_ok_def)
      (auto simp: local_at_def is_mem_def bytes_def addr_def RBP_def conv_mach_def)
qed

theorem set_command_converts_witness:
  "\<exists>k' st'. generate_il conv_types conv_home conv_mode (known_registers [''rax'', ''rcx'']) (SetCmd 0 1, [3, 4], [3, 4]) (0, sample_state) = Some (k', st') \<and>
     leaves (\<lambda>_. 0) conv_mach (command_env (known_registers [''rax'', ''rcx'']) False conv_home ([3, 4], [3, 4]) (SetCmd 0 1))
       sample_state st' 8 (conv_home 0) (- 3)"
proof -
  have "generate_il conv_types conv_home conv_mode (known_registers [''rax'', ''rcx'']) (SetCmd 0 1, [3, 4], [3, 4]) (0, sample_state) \<noteq> None"
    by code_simp
  then obtain k' st' where g: "generate_il conv_types conv_home conv_mode (known_registers [''rax'', ''rcx'']) (SetCmd 0 1, [3, 4], [3, 4]) (0, sample_state) = Some (k', st')"
    by fastforce
  have m: "fm_frameless conv_mode = False" by (simp add: conv_mode_def)
  have ty: "vsize conv_types 0 = int 8" "vsize conv_types 1 = int 1" "\<not> is_floating (ty_of conv_types 0)" "\<not> is_floating (ty_of conv_types 1)"
    "signed_of (ty_of conv_types 1) = Some True" by code_simp+
  have l: "literal_fits True 1 8 (conv_home 1) (conv_home 0)" by (simp add: literal_fits_def conv_home_def local_at_def is_literal_spot_def)
  have "mread 1 4088 (mmem conv_mach) = 253" by code_simp
  then have v: "rd (\<lambda>_. 0) conv_mach 1 (conv_home 1) = Some 253"
    by (simp add: conv_home_def rd_def local_at_def addr_def RBP_def conv_mach_def)
  have r: "set_val conv_types 0 True 1 8 253 = - 3" by code_simp
  show ?thesis
    using set_command_converts [OF refl g ty(3,4,1,2) _ conv_placed [folded m] l _ v] g ty(5) m r by (auto simp: size_ok_def)
qed

end
