(* ===== verification/CmdRefines.thy ===== *)
theory CmdRefines
  imports Placement ValueSound
begin

unbundle bit_operations_syntax

text \<open>
  The integer commands as assignments to an environment of values, and that the lines emitted for each of
  them perform its assignment; the scratch slots of a function stay where they are.
\<close>

section \<open>Scratch slots stay where they are\<close>

definition slots_kept :: "genv \<Rightarrow> gst \<Rightarrow> gst \<Rightarrow> bool" where
  "slots_kept env st st' = (length (gs_spilled st) \<le> length (gs_pool st) \<longrightarrow>
     slot_seq env st' = slot_seq env st \<and> length (gs_spilled st') \<le> length (gs_pool st'))"

lemma slots_kept_refl [simp]: "slots_kept env st st"
  by (simp add: slots_kept_def)

lemma slots_kept_trans: "slots_kept env st st1 \<Longrightarrow> slots_kept env st1 st2 \<Longrightarrow> slots_kept env st st2"
  by (simp add: slots_kept_def)

lemma slots_kept_emit [simp]:
  "slots_kept env st (emit c st1) = slots_kept env st st1" "slots_kept env (emit c st) st1 = slots_kept env st st1"
  using slot_seq_cong [of "emit c st1" st1 env] slot_seq_cong [of "emit c st" st env] by (simp_all add: slots_kept_def)

lemma slots_kept_label [simp]:
  "slots_kept env st (snd (new_label st1)) = slots_kept env st st1" "slots_kept env (snd (new_label st)) st1 = slots_kept env st st1"
  using slot_seq_cong [of "snd (new_label st1)" st1 env] slot_seq_cong [of "snd (new_label st)" st env] by (simp_all add: slots_kept_def)

lemma slots_kept_negate [simp]: "slots_kept env st (negate_unless c t n st1) = slots_kept env st st1"
  by (simp add: negate_unless_def)

lemma slots_kept_widen [simp]: "slots_kept env st (widen_sign n st1) = slots_kept env st st1"
  by (simp add: widen_sign_def)

lemma get_kept: "get_reg env w a st = Some (r, st') \<Longrightarrow> slots_kept env st st'"
proof (cases "st' = st")
  assume g: "get_reg env w a st = Some (r, st')" and "st' \<noteq> st"
  then have st': "st' = park env r st" by (auto simp: get_reg_def split: option.splits)
  let ?s = "need_slot env (length (gs_spilled st)) st"
  have n: "slot_seq env ?s = slot_seq env st" "length (gs_spilled st) < length (gs_pool ?s)"
    if "length (gs_spilled st) \<le> length (gs_pool st)" using slot_seq_need [OF that, of env] by simp_all
  have p: "gs_pool st' = gs_pool ?s" "gs_frame st' = gs_frame ?s" "length (gs_spilled st') = Suc (length (gs_spilled st))"
    unfolding st' by (simp_all add: park_def Let_def)
  show ?thesis unfolding slots_kept_def p(1,3) slot_seq_cong [OF p(1,2), of env] using n by (simp add: Suc_le_eq)
qed simp

lemma unpark_kept [simp]: "slots_kept env st (unpark st1) = slots_kept env st st1"
proof -
  have "gs_pool (fold (\<lambda>(r, slot) st. emit (Mov r slot 8) st) xs st) = gs_pool st \<and> gs_frame (fold (\<lambda>(r, slot) st. emit (Mov r slot 8) st) xs st) = gs_frame st
      \<and> gs_spilled (fold (\<lambda>(r, slot) st. emit (Mov r slot 8) st) xs st) = gs_spilled st" for xs st
    by (induction xs arbitrary: st) auto
  then show ?thesis using slot_seq_cong [of "unpark st1" st1 env] by (simp add: slots_kept_def unpark_def)
qed

lemma apply_operand_kept: "apply_operand nm t x n (get_reg env) st = Some st' \<Longrightarrow> slots_kept env st st'"
  by (auto simp: apply_operand_def dest: get_kept split: Option.bind_splits if_splits)

lemma arith_kept:
  "arith_asm ty home op out a b (get_reg env) st = Some st' \<Longrightarrow> \<not> is_floating (ty_of ty out) \<Longrightarrow> slots_kept env st st'"
  by (auto simp: arith_asm_def Let_def dest!: get_kept apply_operand_kept split: Option.bind_splits if_splits)
    (erule (1) slots_kept_trans)+

lemma negnot_kept:
  "negnot_asm ty home op out a (get_reg env) st = Some st' \<Longrightarrow> \<not> is_floating (ty_of ty out) \<Longrightarrow> slots_kept env st st'"
  by (auto simp: negnot_asm_def Let_def dest!: get_kept split: Option.bind_splits if_splits)

lemma shift_kept: "shift_asm ty home d out a b (get_reg env) st = Some st' \<Longrightarrow> slots_kept env st st'"
  by (auto simp: shift_asm_def Let_def dest!: get_kept split: Option.bind_splits if_splits)
    (erule (1) slots_kept_trans)+

lemma divmod_kept:
  "divmod_asm ty home d out a b (get_reg env) st = Some st' \<Longrightarrow> \<not> is_floating (ty_of ty out) \<Longrightarrow> slots_kept env st st'"
  by (auto simp: divmod_asm_def Let_def dest!: get_kept split: Option.bind_splits if_splits)

lemma fix_both_kept: "fix_both_literal_or_mem s1 s2 rs n (get_reg env) st = Some (x, y, rs', st') \<Longrightarrow> slots_kept env st st'"
  by (auto simp: fix_both_literal_or_mem_def dest!: get_kept split: Option.bind_splits if_splits)

lemma fix_either_kept: "fix_either_literal64 s1 s2 rs n m (get_reg env) st = Some (x, y, st') \<Longrightarrow> slots_kept env st st'"
  by (auto simp: fix_either_literal64_def dest!: get_kept split: Option.bind_splits if_splits)

lemma fix_operands_kept: "fix_operands s1 s2 rs n m (get_reg env) st = Some (x, y, sw, st') \<Longrightarrow> slots_kept env st st'"
  by (auto simp: fix_operands_def dest!: fix_both_kept fix_either_kept split: Option.bind_splits prod.splits)
    (erule (1) slots_kept_trans)+

lemma compare_kept:
  "compare_asm ty home k out a b None (get_reg env) st = Some st' \<Longrightarrow> \<not> is_floating (ty_of ty a) \<Longrightarrow> \<not> is_floating (ty_of ty b) \<Longrightarrow>
     slots_kept env st st'"
  by (auto simp: compare_asm_def Let_def split_beta dest!: get_kept fix_operands_kept split: Option.bind_splits)
    (erule (1) slots_kept_trans)+

lemma move_chunk_kept: "move_chunk d x n r st = Some st' \<Longrightarrow> slots_kept env st st'"
  by (auto simp: move_chunk_def split: Option.bind_splits if_splits spot.splits)

lemma move_data_from_kept: "move_data_from d x n r sh st = Some st' \<Longrightarrow> slots_kept env st st'"
proof (induction d x n r sh st rule: move_data_from.induct)
  case (1 target start sz reg sh st)
  show ?case
  proof (cases "sh \<ge> sz")
    case True
    then show ?thesis using 1(2) by (simp add: move_data_from.simps)
  next
    case False
    then obtain cs ct st1 where m: "shift start sh None = Some cs" "shift target sh None = Some ct" "move_chunk ct cs (reg_size (sz - sh)) reg st = Some st1"
      "move_data_from target start sz reg (sh + reg_size (sz - sh)) st1 = Some st'"
      using 1(2) by (subst (asm) move_data_from.simps) (auto split: Option.bind_splits)
    show ?thesis by (rule slots_kept_trans [OF move_chunk_kept [OF m(3)] 1(1) [OF False m(1-4)]])
  qed
qed

lemma set_kept:
  assumes "set_asm ty home out a k (get_reg env) st = Some (k', st')" "\<not> is_floating (ty_of ty out)" "\<not> is_floating (ty_of ty a)"
  shows "slots_kept env st st'"
proof (cases "to_bool ty out")
  case True
  then show ?thesis using assms
    by (auto simp: set_asm_def set_bool_asm_def Let_def dest!: get_kept split: Option.bind_splits if_splits)
next
  case False
  have md: "move_data d x n r st1 = Some st2 \<Longrightarrow> slots_kept env st1 st2" for d x n r st1 st2
    unfolding move_data_def by (rule move_data_from_kept)
  show ?thesis using False assms
    by (auto simp: set_asm_def Let_def dest!: get_kept md split: Option.bind_splits if_splits spot.splits)
    (erule (1) slots_kept_trans)+
qed

section \<open>The commands as assignments\<close>

text \<open>The signedness a conversion reads, and the integer commands with the operand sizes of the type rules of C.\<close>

definition signed_src :: "types \<Rightarrow> nat \<Rightarrow> bool" where
  "signed_src ty a = (signed_of (ty_of ty a) = Some True)"

definition isize :: "types \<Rightarrow> nat \<Rightarrow> nat" where
  "isize ty v = nat (vsize ty v)"

definition int_sized :: "types \<Rightarrow> nat \<Rightarrow> bool" where
  "int_sized ty v = (vsize ty v \<in> {1, 2, 4, 8} \<and> \<not> is_floating (ty_of ty v))"

definition int_cmd :: "types \<Rightarrow> (nat \<Rightarrow> spot) \<Rightarrow> il \<Rightarrow> bool" where
  "int_cmd ty home c =
     ((\<forall>v \<in> set (il_inputs c @ il_outputs c). int_sized ty v) \<and> (\<forall>a \<in> set (il_inputs c). imm64_ok (isize ty a) (home a)) \<and>
      (case c of
         Arith op out a b \<Rightarrow> vsize ty a = vsize ty out \<and> vsize ty b = vsize ty out \<and> (op = Mult \<longrightarrow> vsize ty out \<noteq> 1)
       | NegNot op out a \<Rightarrow> vsize ty a = vsize ty out
       | BitShift d out a b \<Rightarrow> vsize ty a = vsize ty out \<and> (is_imm8 (home b) \<longrightarrow> imm8_ok (home b))
       | DivMod d out a b \<Rightarrow> vsize ty a = vsize ty out \<and> vsize ty b = vsize ty out \<and> vsize ty out \<in> {4, 8} \<and> signed_of (ty_of ty a) \<noteq> None
       | Compare k out a b f \<Rightarrow> f = None \<and> vsize ty b = vsize ty a
       | SetCmd out a \<Rightarrow> literal_fits (signed_src ty a) (isize ty a) (isize ty out) (home a) (home out) \<and>
           (vsize ty a < vsize ty out \<longrightarrow> \<not> is_literal_spot (home a) \<longrightarrow> signed_of (ty_of ty a) \<noteq> None)
       | _ \<Rightarrow> False))"

text \<open>What a command assigns in an environment, with the argument registers \<open>A\<close>; undefined behaviour of C has no value.\<close>

definition il_value :: "types \<Rightarrow> (spot \<Rightarrow> 64 word) \<Rightarrow> il \<Rightarrow> (nat \<Rightarrow> 64 word) \<Rightarrow> (nat \<times> 64 word) option" where
  "il_value ty A c E = (case c of
     Arith op out a b \<Rightarrow> Some (out, take_bit (8 * isize ty out) (arith_val op (E a) (E b)))
   | NegNot op out a \<Rightarrow> Some (out, take_bit (8 * isize ty out) (neg_val op (E a)))
   | BitShift d out a b \<Rightarrow>
       if uint (E b) < (if isize ty out = 8 then 64 else 32)
       then Some (out, take_bit (8 * isize ty out) (shift_val (signed_default (ty_of ty a)) d (isize ty out) (E a) (nat (uint (E b))))) else None
   | DivMod d out a b \<Rightarrow> (case signed_of (ty_of ty a) of None \<Rightarrow> None | Some sg \<Rightarrow>
       if div_defined sg (isize ty out) (E a) (E b)
       then Some (out, take_bit (8 * isize ty out) (word_of_int (div_result sg d (isize ty out) (E a) (E b)))) else None)
   | Compare k out a b f \<Rightarrow> Some (out, of_bool (cmp_val k (unsigned_cmp (ty_of ty a)) (isize ty a) (E a) (E b)))
   | SetCmd out a \<Rightarrow> Some (out, set_val ty out (signed_src ty a) (isize ty a) (isize ty out) (E a))
   | LoadArg out r stk fl \<Rightarrow> (case r of Some q \<Rightarrow> Some (out, take_bit (8 * isize ty out) (A q)) | None \<Rightarrow> None)
   | _ \<Rightarrow> None)"

fun il_run :: "types \<Rightarrow> (spot \<Rightarrow> 64 word) \<Rightarrow> il list \<Rightarrow> (nat \<Rightarrow> 64 word) \<Rightarrow> (nat \<Rightarrow> 64 word) option" where
  "il_run ty A [] E = Some E"
| "il_run ty A (c # cs) E = (case il_value ty A c E of None \<Rightarrow> None | Some (v, x) \<Rightarrow> il_run ty A cs (E(v := x)))"

lemma int_sized_nat: "int_sized ty v \<Longrightarrow> vsize ty v = int (isize ty v) \<and> size_ok (isize ty v) \<and> \<not> is_floating (ty_of ty v)"
  by (auto simp: int_sized_def isize_def size_ok_def)

lemma int_cmd_output: "int_cmd ty home c \<Longrightarrow> il_value ty A c E = Some (out, x) \<Longrightarrow> il_outputs c = [out] \<and> il_targets c = []"
  by (cases c) (auto simp: int_cmd_def il_value_def il_outputs_def il_targets_def split: if_splits option.splits)

lemma generate_il_command:
  assumes "generate_il ty home fm regs (c, live) (k, st) = Some (k', st')"
    and "\<And>gr k st. il_make_asm ty home fm c k gr st = map_option (\<lambda>st. (k, st)) (mk gr st)"
  shows "generate_command mk (command_env regs (fm_frameless fm) home live c) (il_name c) st = Some st'"
  using assms by (auto simp: generate_il_def generate_command_def Let_def)

text \<open>What a command needs of its surroundings, in one place.\<close>

definition cmd_fits :: "syms \<Rightarrow> mach \<Rightarrow> types \<Rightarrow> (nat \<Rightarrow> spot) \<Rightarrow> genv \<Rightarrow> gst \<Rightarrow> il \<Rightarrow> bool" where
  "cmd_fits S s ty home env st c =
     ((\<forall>out \<in> set (il_outputs c). well_placed S s env st (isize ty out) (home out) (map (\<lambda>a. (isize ty a, home a)) (il_inputs c))) \<and>
      set (il_clobber c) \<inter> set (ge_bad env) = {} \<and> (\<forall>(v, qs) \<in> set (il_abs_conf c). home v \<notin> set qs))"

lemma well_placed_ins: "well_placed S s env st n out ins \<Longrightarrow> set ins' \<subseteq> set ins \<Longrightarrow> well_placed S s env st n out ins'"
  by (auto simp: well_placed_def)

lemma cmd_leaves:
  assumes c: "int_cmd ty home c" and val: "il_value ty A c E = Some (out, x)"
    and g: "generate_il ty home fm (known_registers names) (c, live) (k, st) = Some (k', st')"
    and env: "env = command_env (known_registers names) (fm_frameless fm) home live c"
    and fit: "cmd_fits S s ty home env st c"
    and rd: "\<And>a. a \<in> set (il_inputs c) \<Longrightarrow> rd S s (isize ty a) (home a) = Some (E a)"
  shows "leaves S s env st st' (isize ty out) (home out) x"
proof -
  have o: "il_outputs c = [out]" using int_cmd_output [OF c val] by blast
  have wp: "well_placed S s env st (isize ty out) (home out) (map (\<lambda>a. (isize ty a, home a)) (il_inputs c))"
    and cl: "set (il_clobber c) \<inter> set (ge_bad env) = {}" and cf: "\<And>v qs. (v, qs) \<in> set (il_abs_conf c) \<Longrightarrow> home v \<notin> set qs"
    using fit o by (auto simp: cmd_fits_def)
  have sz: "int_sized ty v" if "v = out \<or> v \<in> set (il_inputs c)" for v using c o that by (auto simp: int_cmd_def)
  note N = int_sized_nat [OF sz]
  note G = generate_il_command [OF g, folded env]
  show ?thesis
  proof (cases c)
    case (Arith op out' a b)
    then have e: "out' = out" using o by (simp add: il_outputs_def)
    have q: "vsize ty a = vsize ty out" "vsize ty b = vsize ty out" "op = Mult \<longrightarrow> vsize ty out \<noteq> 1" using c Arith e by (simp_all add: int_cmd_def)
    have n: "isize ty a = isize ty out" "isize ty b = isize ty out" "op = Mult \<longrightarrow> isize ty out \<noteq> 1" "vsize ty a = int (isize ty out)"
    proof -
      show i: "isize ty a = isize ty out" "isize ty b = isize ty out" using q by (simp_all add: isize_def)
      have "vsize ty out = int (isize ty out)" using N [of out] by blast
      then show "op = Mult \<longrightarrow> isize ty out \<noteq> 1" "vsize ty a = int (isize ty out)" using q by auto
    qed
    have v: "x = take_bit (8 * isize ty out) (arith_val op (E a) (E b))" using val Arith e by (auto simp: il_value_def)
    have w: "well_placed S s env st (isize ty out) (home out) [(isize ty out, home a), (isize ty out, home b)]"
      using wp Arith n(1,2) by (simp add: il_inputs_def)
    have gc: "generate_command (arith_asm ty home op out a b) env (il_name (Arith op out a b)) st = Some st'"
      using G [of "arith_asm ty home op out a b"] Arith e by (simp add: il_make_asm_def)
    have fl: "\<not> is_floating (ty_of ty out)" using N [of out] by simp
    show ?thesis unfolding v
      by (rule arith_leaves [OF env [unfolded Arith e] gc fl n(4,3) w])
        (use rd [of a] rd [of b] Arith n(1,2) in \<open>simp_all add: il_inputs_def\<close>)
  next
    case (NegNot op out' a)
    then have e: "out' = out" using o by (simp add: il_outputs_def)
    have q: "vsize ty a = vsize ty out" using c NegNot e by (simp add: int_cmd_def)
    then have n1: "isize ty a = isize ty out" by (simp add: isize_def)
    have n: "isize ty a = isize ty out" "vsize ty a = int (isize ty out)" using n1 N [of a] NegNot by (simp_all add: il_inputs_def)
    have v: "x = take_bit (8 * isize ty out) (neg_val op (E a))" using val NegNot e by (auto simp: il_value_def)
    have w: "well_placed S s env st (isize ty out) (home out) [(isize ty out, home a)]" using wp NegNot n(1) by (simp add: il_inputs_def)
    have gc: "generate_command (negnot_asm ty home op out a) env (il_name (NegNot op out a)) st = Some st'"
      using G [of "negnot_asm ty home op out a"] NegNot e by (simp add: il_make_asm_def)
    have fl: "\<not> is_floating (ty_of ty out)" using N [of out] by simp
    show ?thesis unfolding v
      by (rule negnot_leaves [OF env [unfolded NegNot e] gc fl n(2) w])
        (use rd [of a] NegNot n(1) in \<open>simp add: il_inputs_def\<close>)
  next
    case (BitShift d out' a b)
    then have e: "out' = out" using o by (simp add: il_outputs_def)
    have n1: "isize ty a = isize ty out" using c BitShift e by (simp add: int_cmd_def isize_def)
    have n: "isize ty a = isize ty out" "vsize ty a = int (isize ty out)" "vsize ty b = int (isize ty b)" "size_ok (isize ty b)"
      using n1 N [of a] N [of b] BitShift by (simp_all add: il_inputs_def)
    have n5: "is_imm8 (home b) \<longrightarrow> imm8_ok (home b)" using c BitShift by (simp add: int_cmd_def)
    have v: "x = take_bit (8 * isize ty out) (shift_val (signed_default (ty_of ty a)) d (isize ty out) (E a) (nat (uint (E b))))"
        "uint (E b) < (if isize ty out = 8 then 64 else 32)"
      using val BitShift e by (auto simp: il_value_def split: if_splits)
    have rcx: "RCX \<notin> set (ge_bad env)" using cl BitShift by (simp add: il_clobber_def)
    have w: "well_placed S s env st (isize ty out) (home out) [(isize ty out, home a), (isize ty b, home b)]"
      using wp BitShift n(1) by (simp add: il_inputs_def)
    have gc: "generate_command (shift_asm ty home d out a b) env (il_name (BitShift d out a b)) st = Some st'"
      using G [of "shift_asm ty home d out a b"] BitShift e by (simp add: il_make_asm_def)
    show ?thesis unfolding v(1)
      by (rule shift_leaves [OF env [unfolded BitShift e] gc n(2,3,4) rcx n5 w _ _ v(2)])
        (use rd [of a] rd [of b] BitShift n(1) in \<open>simp_all add: il_inputs_def\<close>)
  next
    case (DivMod d out' a b)
    then have e: "out' = out" using o by (simp add: il_outputs_def)
    obtain sg where sg: "signed_of (ty_of ty a) = Some sg" "div_defined sg (isize ty out) (E a) (E b)"
        "x = take_bit (8 * isize ty out) (word_of_int (div_result sg d (isize ty out) (E a) (E b)))"
      using val DivMod e by (auto simp: il_value_def split: option.splits if_splits)
    have n1: "isize ty a = isize ty out" "isize ty b = isize ty out" using c DivMod e by (simp_all add: int_cmd_def isize_def)
    have q: "vsize ty out \<in> {4, 8}" using c DivMod e by (simp add: int_cmd_def)
    have n: "isize ty a = isize ty out" "isize ty b = isize ty out" "vsize ty a = int (isize ty out)" "isize ty out = 4 \<or> isize ty out = 8"
      using n1 N [of a] N [of out] q DivMod by (auto simp: il_inputs_def)
    have cl': "RAX \<notin> set (ge_bad env)" "RDX \<notin> set (ge_bad env)" using cl DivMod by (auto simp: il_clobber_def)
    have cf': "home b \<noteq> RAX" "home b \<noteq> RDX" using cf [of b "[RDX, RAX]"] DivMod by (auto simp: il_abs_conf_def)
    have w: "well_placed S s env st (isize ty out) (home out) [(isize ty out, home a), (isize ty out, home b)]"
      using wp DivMod n(1,2) by (simp add: il_inputs_def)
    have gc: "generate_command (divmod_asm ty home d out a b) env (il_name (DivMod d out a b)) st = Some st'"
      using G [of "divmod_asm ty home d out a b"] DivMod e by (simp add: il_make_asm_def)
    have fl: "\<not> is_floating (ty_of ty out)" using N [of out] by simp
    show ?thesis unfolding sg(3)
      by (rule divmod_leaves [OF env [unfolded DivMod e] gc fl n(3,4) sg(1) cl' cf' w _ _ sg(2)])
        (use rd [of a] rd [of b] DivMod n(1,2) in \<open>simp_all add: il_inputs_def\<close>)
  next
    case (Compare kd out' a b f)
    then have f: "f = None" using c by (simp add: int_cmd_def)
    then have e: "out' = out" using o Compare by (simp add: il_outputs_def)
    have n1: "isize ty b = isize ty a" using c Compare e by (simp add: int_cmd_def isize_def)
    have n: "isize ty b = isize ty a" "vsize ty a = int (isize ty a)" "vsize ty b = int (isize ty a)" "size_ok (isize ty a)"
        "vsize ty out = int (isize ty out)" "\<not> is_floating (ty_of ty a)" "\<not> is_floating (ty_of ty b)"
      using n1 N [of a] N [of b] N [of out] Compare by (simp_all add: il_inputs_def)
    have v: "x = of_bool (cmp_val kd (unsigned_cmp (ty_of ty a)) (isize ty a) (E a) (E b))" using val Compare e by (auto simp: il_value_def)
    have w: "well_placed S s env st (isize ty out) (home out) [(isize ty a, home a), (isize ty a, home b)]"
      using wp Compare n(1) by (simp add: il_inputs_def)
    have gc: "generate_command (compare_asm ty home kd out a b None) env (il_name (Compare kd out a b None)) st = Some st'"
      using G [of "compare_asm ty home kd out a b None"] Compare e f by (simp add: il_make_asm_def)
    show ?thesis unfolding v
      by (rule compare_leaves [OF env [unfolded Compare e f] gc n(6,7,2,3,4,5) w])
        (use rd [of a] rd [of b] Compare n(1) in \<open>simp_all add: il_inputs_def\<close>)
  next
    case (SetCmd out' a)
    then have e: "out' = out" using o by (simp add: il_outputs_def)
    have v: "x = set_val ty out (signed_src ty a) (isize ty a) (isize ty out) (E a)" using val SetCmd e by (auto simp: il_value_def)
    have na: "vsize ty a = int (isize ty a)" "size_ok (isize ty a)" "\<not> is_floating (ty_of ty a)" using N [of a] SetCmd by (auto simp: il_inputs_def)
    have no: "vsize ty out = int (isize ty out)" "size_ok (isize ty out)" "\<not> is_floating (ty_of ty out)" using N [of out] by auto
    have w: "well_placed S s env st (isize ty out) (home out) [(isize ty a, home a)]" using wp SetCmd by (simp add: il_inputs_def)
    have lf: "literal_fits (signed_src ty a) (isize ty a) (isize ty out) (home a) (home out)" using c SetCmd e by (simp add: int_cmd_def)
    have sg: "isize ty a < isize ty out \<longrightarrow> \<not> is_literal_spot (home a) \<longrightarrow> signed_of (ty_of ty a) = Some (signed_src ty a) \<and>
        (signed_src ty a \<or> isize ty a < 4 \<or> isize ty a = 4 \<and> isize ty out = 8)"
    proof (intro impI)
      assume lt: "isize ty a < isize ty out" and l: "\<not> is_literal_spot (home a)"
      have "vsize ty a < vsize ty out" using lt unfolding na(1) no(1) by simp
      then have "signed_of (ty_of ty a) \<noteq> None" using c SetCmd e l by (simp add: int_cmd_def)
      then have "signed_of (ty_of ty a) = Some (signed_src ty a)" by (auto simp: signed_src_def)
      moreover have "isize ty a < 4 \<or> isize ty a = 4 \<and> isize ty out = 8" using lt na(2) no(2) by (auto simp: size_ok_def)
      ultimately show "signed_of (ty_of ty a) = Some (signed_src ty a) \<and>
          (signed_src ty a \<or> isize ty a < 4 \<or> isize ty a = 4 \<and> isize ty out = 8)" by blast
    qed
    show ?thesis unfolding v
      by (rule set_leaves [OF env [unfolded SetCmd e] g [unfolded SetCmd e] no(3) na(3) no(1) na(1,2) w lf sg])
        (use rd [of a] SetCmd in \<open>simp add: il_inputs_def\<close>)
  qed (use c in \<open>simp_all add: int_cmd_def\<close>)
qed

lemma cmd_slots:
  assumes c: "int_cmd ty home c" and g: "generate_il ty home fm regs (c, live) (k, st) = Some (k', st')"
    and env: "env = command_env regs (fm_frameless fm) home live c"
  shows "slot_seq env st' = slot_seq env st"
proof -
  have k: "slots_kept env (begun (il_name c) st) st' \<Longrightarrow> ?thesis" by (simp add: slots_kept_def)
  obtain st1 where st1: "il_make_asm ty home fm c k (get_reg env) (begun (il_name c) st) = Some (k', st1)" "st' = unpark st1"
    using il_command [OF g] env by blast
  have fl: "\<not> is_floating (ty_of ty v)" if "v \<in> set (il_inputs c @ il_outputs c)" for v
    using c that by (auto simp: int_cmd_def int_sized_def)
  have "slots_kept env (begun (il_name c) st) st1"
  proof (cases c)
    case (Arith op out a b)
    then show ?thesis using st1(1) fl [of out] by (auto simp: il_make_asm_def il_outputs_def dest: arith_kept)
  next
    case (NegNot op out a)
    then show ?thesis using st1(1) fl [of out] by (auto simp: il_make_asm_def il_outputs_def dest: negnot_kept)
  next
    case (BitShift d out a b)
    then show ?thesis using st1(1) by (auto simp: il_make_asm_def dest: shift_kept)
  next
    case (DivMod d out a b)
    then show ?thesis using st1(1) fl [of out] by (auto simp: il_make_asm_def il_outputs_def dest: divmod_kept)
  next
    case (Compare kd out a b f)
    then have "f = None" using c by (simp add: int_cmd_def)
    then show ?thesis using Compare st1(1) fl [of a] fl [of b] by (auto simp: il_make_asm_def il_inputs_def dest: compare_kept)
  next
    case (SetCmd out a)
    then show ?thesis using st1(1) fl [of out] fl [of a] by (auto simp: il_make_asm_def il_inputs_def il_outputs_def dest: set_kept)
  qed (use c in \<open>simp_all add: int_cmd_def\<close>)
  then show ?thesis using k st1(2) by simp
qed

end
