(* ===== verification/StraightLine.thy ===== *)
theory StraightLine
  imports CmdRefines
begin

text \<open>
  A function without jumps, end to end: the liveness and the allocation of \<open>_make_asm\<close>, then the lines of
  \<open>_generate_asm\<close>.  The commands, read as assignments to an environment of values, are refined by the
  lines emitted for them: every value the rest of the function still needs sits in its home with the
  value the environment gives it.
\<close>

section \<open>The allocation provides what a command needs\<close>

text \<open>The scratch slots of a function with a frame pointer whose values take \<open>fo\<close> bytes.\<close>

definition rbp_slot :: "int \<Rightarrow> nat \<Rightarrow> spot" where
  "rbp_slot fo j = MemSpot (BaseSpot RBP) (- (fo + 8 * int j + 8)) 0 None"

abbreviation literal_home :: "spot \<Rightarrow> bool" where
  "literal_home x \<equiv> is_literal_spot x \<and> is_home x"

text \<open>A function body: its commands, and where the values they use live.\<close>

definition body_placed :: "types \<Rightarrow> int \<Rightarrow> int \<Rightarrow> nat list \<Rightarrow> il list \<Rightarrow> live_sets \<Rightarrow> (nat \<Rightarrow> spot) \<Rightarrow> bool" where
  "body_placed ty high deep locs ils lv home =
     (placement (vsize ty) high deep locs (map (allocator_view ty) ils) lv home \<and>
      plain_cmds (map (allocator_view ty) ils) \<and>
      (\<forall>c \<in> set ils. set (il_outputs c) \<subseteq> set locs \<and> (\<forall>a \<in> set (il_inputs c). a \<in> set locs \<or> literal_home (home a))))"

lemma rbp_slots_fit: "slots_fit S s (rbp_slot fo) n"
  by (auto simp: slots_fit_def rbp_slot_def bytes_def is_mem_def addr_def RBP_def)

lemma rbp_slot_area: "slot_area S s (rbp_slot fo) n \<subseteq> {a. a < uint (mreg s ''rbp'') - fo}"
  by (auto simp: slot_area_def rbp_slot_def bytes_def is_mem_def addr_def RBP_def)

lemma local_home:
  assumes "body_placed ty high deep locs ils lv home" "v \<in> set locs"
  shows "is_home (home v)" "writable_op (home v)"
    "bytes S s n (home v) \<subseteq> {a. uint (mreg s ''rbp'') - deep \<le> a}" "vsize ty v = int n \<Longrightarrow> bytes S s n (home v) \<subseteq> {a. a < uint (mreg s ''rbp'') - high}"
proof -
  have "home v \<in> set registers \<or> (\<exists>off. home v = MemSpot (BaseSpot RBP) off 0 None \<and> - deep \<le> off \<and> off + vsize ty v \<le> - high)"
    using placementD(1) assms unfolding body_placed_def by blast
  then consider q where "home v \<in> set registers" "home v = RegSpot q" | off where "home v = MemSpot (BaseSpot RBP) off 0 None" "- deep \<le> off" "off + vsize ty v \<le> - high"
    using registers_are_reg by blast
  then show "is_home (home v)" "writable_op (home v)" "bytes S s n (home v) \<subseteq> {a. uint (mreg s ''rbp'') - deep \<le> a}"
    "vsize ty v = int n \<Longrightarrow> bytes S s n (home v) \<subseteq> {a. a < uint (mreg s ''rbp'') - high}"
    using registers_general
    by (cases; force simp: is_home_def writable_op_def is_reg_def is_mem_def bytes_def addr_def RBP_def)+
qed

lemma apart_bytes:
  assumes "body_placed ty high deep locs ils lv home" "x \<in> set locs" "y \<in> set locs" "is_mem (home x)" "is_mem (home y)"
    and "\<not> overlap (home x) (vsize ty x) (home y) (vsize ty y)" "vsize ty x = int n" "vsize ty y = int k"
  shows "bytes S s n (home x) \<inter> bytes S s k (home y) = {}"
proof -
  have "\<exists>off. home v = MemSpot (BaseSpot RBP) off 0 None" if "v \<in> set locs" "is_mem (home v)" for v
    using placementD(1) [of "vsize ty" high deep locs _ lv home v] assms(1) that registers_are_reg unfolding body_placed_def by (fastforce simp: is_mem_def)
  then obtain ox oy where "home x = MemSpot (BaseSpot RBP) ox 0 None" "home y = MemSpot (BaseSpot RBP) oy 0 None" using assms by metis
  then show ?thesis using assms(6-8) by (auto simp: bytes_def is_mem_def addr_def RBP_def)
qed

lemma placed_fits:
  assumes B: "body_placed ty high deep locs ils lv home" and i: "i < length ils" and c: "int_cmd ty home (ils ! i)"
    and slot: "slot_seq env st = rbp_slot fo" "deep \<le> fo"
    and env: "env = command_env regs fl home (lv ! i) (ils ! i)"
  shows "cmd_fits S s ty home env st (ils ! i)"
proof -
  let ?c = "ils ! i" and ?cmds = "map (allocator_view ty) ils"
  note B' = B [unfolded body_placed_def]
  have P: "placement (vsize ty) high deep locs ?cmds lv home" using B' by blast
  have mem: "?c \<in> set ils" using i by simp
  have out: "set (il_outputs ?c) \<subseteq> set locs" and inp: "a \<in> set locs \<or> literal_home (home a)" if "a \<in> set (il_inputs ?c)" for a
    using B' mem that by blast+
  have sz: "int_sized ty v" if "v \<in> set (il_inputs ?c @ il_outputs ?c)" for v using c that by (auto simp: int_cmd_def)
  have N: "vsize ty v = int (isize ty v)" "size_ok (isize ty v)" if "v \<in> set (il_inputs ?c @ il_outputs ?c)" for v
    using int_sized_nat [OF sz [OF that]] by blast+
  have clear: "clear S s (slot_seq env st) 14 n (home v)" if "v \<in> set locs \<or> literal_home (home v)" for n v
  proof (cases "v \<in> set locs")
    case True
    have "slot_area S s (rbp_slot fo) 14 \<inter> bytes S s n (home v) = {}"
      using rbp_slot_area [of S s fo 14] local_home(3) [OF B True, of S s n] slot(2) by force
    then show ?thesis using local_home(1) [OF B True] slot(1) by (simp add: clear_def)
  next
    case False
    then have "literal_home (home v)" using that by blast
    then show ?thesis by (auto simp: clear_def bytes_def is_mem_def is_literal_spot_def split: spot.splits)
  qed
  have "well_placed S s env st (isize ty o') (home o') (map (\<lambda>a. (isize ty a, home a)) (il_inputs ?c))"
    if o: "o' \<in> set (il_outputs ?c)" for o'
  proof -
    have ol: "o' \<in> set locs" using out o inp by (metis B' mem subsetD)
    have "operand_of S s (slot_seq env st) 14 (isize ty o') (home o') (isize ty a) (home a)" if a: "a \<in> set (il_inputs ?c)" for a
    proof -
      have i64: "imm64_ok (isize ty a) (home a)" using c a by (simp add: int_cmd_def)
      have ne: "a \<noteq> o'"
      proof
        assume "a = o'"
        then have "a \<in> set (il_inputs ?c) \<inter> set (il_outputs ?c)" using a o by blast
        moreover have "plain_cmds ?cmds" using B' by blast
        ultimately show False using i by (force simp: plain_cmds_def allocator_view_def)
      qed
      have "bytes S s (isize ty a) (home a) \<inter> bytes S s (isize ty o') (home o') = {}"
      proof (cases "a \<in> set locs \<and> is_mem (home a) \<and> is_mem (home o')")
        case True
        then have no: "\<not> overlap (home a) (vsize ty a) (home o') (vsize ty o')" using placementD(2) [OF P _ ol ne] by blast
        show ?thesis using apart_bytes [OF B _ ol _ _ no N(1) N(1)] True a o by auto
      next
        case False
        then show ?thesis using inp [OF a] by (auto simp: bytes_def is_mem_def is_literal_spot_def split: spot.splits)
      qed
      then show ?thesis using clear inp [OF a] i64 by (simp add: operand_of_def)
    qed
    then show ?thesis
      using clear [of o'] ol local_home(2) [OF B ol] N(2) [of o'] o rbp_slots_fit slot(1) by (auto simp: well_placed_def)
  qed
  moreover have "set (il_clobber ?c) \<inter> set (ge_bad env) = {}"
    using placementD(4) [OF P, of i] i by (auto simp: env command_env_def bad_spots_def allocator_view_def)
  moreover have "home v \<notin> set qs" if q: "(v, qs) \<in> set (il_abs_conf ?c)" for v qs
  proof (cases "v \<in> set locs")
    case True
    then show ?thesis using placementD(6) [OF P, of i v qs] i q by (simp add: allocator_view_def)
  next
    case False
    obtain d out a where d: "?c = DivMod d out a v" "qs = [RDX, RAX]"
      using q c by (cases ?c) (auto simp: il_abs_conf_def int_cmd_def)
    then have "literal_home (home v)" using inp [of v] False by (simp add: il_inputs_def)
    then show ?thesis using d by (auto simp: is_literal_spot_def RAX_def RDX_def)
  qed
  ultimately show ?thesis by (auto simp: cmd_fits_def)
qed

section \<open>One command refines one assignment\<close>

text \<open>A parameter that arrives in a register.\<close>

definition load_cmd :: "types \<Rightarrow> il \<Rightarrow> bool" where
  "load_cmd ty c = (case c of LoadArg out (Some r) None False \<Rightarrow> int_sized ty out \<and> r \<in> set arg_regs | _ \<Rightarrow> False)"

definition load_out :: "il \<Rightarrow> nat" where
  "load_out c = (case c of LoadArg out _ _ _ \<Rightarrow> out | _ \<Rightarrow> 0)"

definition load_reg :: "il \<Rightarrow> spot" where
  "load_reg c = (case c of LoadArg _ (Some r) _ _ \<Rightarrow> r | _ \<Rightarrow> RAX)"

text \<open>The values the rest of the function needs are in their homes, the parameters not yet loaded in their registers.\<close>

definition refines :: "syms \<Rightarrow> types \<Rightarrow> (spot \<Rightarrow> 64 word) \<Rightarrow> il list \<Rightarrow> (nat \<Rightarrow> spot) \<Rightarrow> nat \<Rightarrow> (nat \<Rightarrow> 64 word) \<Rightarrow> mach \<Rightarrow> bool" where
  "refines S ty A ils home i E s =
     ((\<forall>v. needed (map (allocator_view ty) ils) v i \<longrightarrow> rd S s (isize ty v) (home v) = Some (E v)) \<and>
      (\<forall>j. i \<le> j \<longrightarrow> j < length ils \<longrightarrow> load_cmd ty (ils ! j) \<longrightarrow> rd S s 8 (load_reg (ils ! j)) = Some (A (load_reg (ils ! j)))))"

text \<open>The commands of a straight-line body: parameters first, each read later, then integer commands.\<close>

definition straight_cmds :: "types \<Rightarrow> (nat \<Rightarrow> spot) \<Rightarrow> il list \<Rightarrow> nat \<Rightarrow> bool" where
  "straight_cmds ty home ils n =
     (n \<le> length ils \<and> (\<forall>i < n. load_cmd ty (ils ! i) \<or> int_cmd ty home (ils ! i)) \<and>
      (\<forall>i j. i < j \<longrightarrow> j < length ils \<longrightarrow> load_cmd ty (ils ! j) \<longrightarrow> load_cmd ty (ils ! i) \<and>
         needed (map (allocator_view ty) ils) (load_out (ils ! i)) j \<and> needed_after (map (allocator_view ty) ils) (load_out (ils ! i)) j))"

lemma needed_used: "needed cmds v i \<Longrightarrow> \<exists>c \<in> set cmds. v \<in> set (c_inputs c)"
  by (induction rule: needed.induct) (auto intro: bexI [OF _ nth_mem])

lemma needed_home:
  assumes "body_placed ty high deep locs ils lv home" "needed (map (allocator_view ty) ils) v i"
  shows "v \<in> set locs \<or> literal_home (home v)"
  using needed_used [OF assms(2)] assms(1) by (auto simp: body_placed_def allocator_view_def)

lemma literal_rd: "is_literal_spot x \<Longrightarrow> rd S u n x = rd S s n x"
  by (auto simp: is_literal_spot_def rd_def split: spot.splits)

text \<open>Values other than the output stay in their homes.\<close>

lemma others_stay:
  assumes B: "body_placed ty high deep locs ils lv home" and i: "i < length ils" and o: "il_outputs (ils ! i) = [out]" "int_sized ty out"
    and v: "needed (map (allocator_view ty) ils) v (Suc i)" "v \<noteq> out" and vs: "int_sized ty v"
    and regs: "\<And>q. home v = RegSpot q \<Longrightarrow> v \<in> set (fst (lv ! i)) \<Longrightarrow> v \<in> set (snd (lv ! i)) \<Longrightarrow> RegSpot q \<noteq> home out \<Longrightarrow> mreg u q = mreg s q"
    and mem: "\<And>a. uint (mreg s ''rbp'') - deep \<le> a \<Longrightarrow> a \<notin> bytes S s (isize ty out) (home out) \<Longrightarrow> mmem u a = mmem s a"
    and sf: "same_frame s u"
  shows "needed (map (allocator_view ty) ils) v i \<and> rd S u (isize ty v) (home v) = rd S s (isize ty v) (home v)"
proof -
  let ?cmds = "map (allocator_view ty) ils"
  have P: "placement (vsize ty) high deep locs ?cmds lv home" using B by (simp add: body_placed_def)
  have i': "i < length ?cmds" using i by simp
  have ol: "out \<in> set locs" using B o nth_mem [OF i] unfolding body_placed_def by fastforce
  have co: "c_outputs (?cmds ! i) = [out]" using i o by (simp add: allocator_view_def)
  have "v \<notin> set (c_outputs (?cmds ! i))" using v(2) unfolding co by simp
  then have n: "needed ?cmds v i" by (rule needed.step [OF i' _ v(1)])
  have na: "needed_after ?cmds v i" using v(1) by (simp add: needed_after_def)
  show ?thesis
  proof (cases "v \<in> set locs")
    case False
    then show ?thesis using needed_home [OF B n] literal_rd n by blast
  next
    case True
    have no: "\<not> overlap (home v) (vsize ty v) (home out) (vsize ty out)"
      by (rule placementD(3) [OF P i' True ol v(2)]) (use na co in auto)
    have "rd S u (isize ty v) (home v) = rd S s (isize ty v) (home v)"
    proof (rule rd_same [OF local_home(1) [OF B True] sf])
      fix q assume q: "home v = RegSpot q"
      have "v \<in> set (fst (lv ! i)) \<and> v \<in> set (snd (lv ! i))"
        by (rule placementD(7) [OF P i' True _ n na]) (simp add: q is_reg_def)
      moreover have "RegSpot q \<noteq> home out" using no q by (cases "home out") auto
      ultimately show "mreg u q = mreg s q" using regs q by blast
    next
      fix a assume a: "a \<in> bytes S s (isize ty v) (home v)"
      have m: "is_mem (home v)" using a by (auto simp: bytes_def split: if_splits)
      have "a \<notin> bytes S s (isize ty out) (home out)"
      proof (cases "is_mem (home out)")
        case True
        show ?thesis
          using apart_bytes [OF B \<open>v \<in> set locs\<close> ol m True no] int_sized_nat [OF vs] int_sized_nat [OF o(2)] a by blast
      qed (simp add: bytes_def)
      then show "mmem u a = mmem s a" using mem local_home(3) [OF B True, of S s] a by blast
    qed
    then show ?thesis using n by blast
  qed
qed

text \<open>What both kinds of commands give the simulation.\<close>

definition stepped :: "syms \<Rightarrow> types \<Rightarrow> (spot \<Rightarrow> 64 word) \<Rightarrow> il list \<Rightarrow> (nat \<Rightarrow> spot) \<Rightarrow> int \<Rightarrow> int \<Rightarrow> nat \<Rightarrow> (nat \<Rightarrow> 64 word) \<Rightarrow> mach \<Rightarrow> gst \<Rightarrow> gst \<Rightarrow> bool" where
  "stepped S ty A ils home high fo i E s st st' =
     (\<exists>new u. lines_of st' = lines_of st @ new \<and> exec S new s = Some (Next u) \<and> refines S ty A ils home i E u \<and> same_frame s u \<and>
        (\<forall>a. uint (mreg s ''rbp'') - high \<le> a \<longrightarrow> mmem u a = mmem s a) \<and>
        (\<forall>env. \<not> ge_frameless env \<longrightarrow> slot_seq env st' = rbp_slot fo))"

lemma load_not_int: "load_cmd ty c \<Longrightarrow> \<not> int_cmd ty home c"
  by (cases c) (auto simp: load_cmd_def int_cmd_def)

lemma int_step:
  assumes B: "body_placed ty high deep locs ils lv home" and C: "straight_cmds ty home ils n" "i < n" "int_cmd ty home (ils ! i)"
    and sized: "\<And>c a. c \<in> set ils \<Longrightarrow> a \<in> set (il_inputs c) \<Longrightarrow> int_sized ty a"
    and R: "refines S ty A ils home i E s" and val: "il_value ty A (ils ! i) E = Some (out, x)"
    and g: "generate_il ty home fm (known_registers names) (ils ! i, lv ! i) (k, st) = Some (k', st')" and fm: "\<not> fm_frameless fm"
    and slot: "\<And>env. \<not> ge_frameless env \<Longrightarrow> slot_seq env st = rbp_slot fo" and fo: "deep \<le> fo" "high \<le> fo"
  shows "stepped S ty A ils home high fo (Suc i) (E(out := x)) s st st'"
proof -
  let ?c = "ils ! i" and ?cmds = "map (allocator_view ty) ils"
  have i: "i < length ils" using C by (simp add: straight_cmds_def)
  define env where "env = command_env (known_registers names) (fm_frameless fm) home (lv ! i) ?c"
  have fl: "\<not> ge_frameless env" using fm by (simp add: env_def command_env_def)
  have o: "il_outputs ?c = [out]" using int_cmd_output [OF C(3) val] by blast
  have os: "int_sized ty out" using C(3) o by (simp add: int_cmd_def)
  have ol: "out \<in> set locs" using B o nth_mem [OF i] unfolding body_placed_def by fastforce
  have fit: "cmd_fits S s ty home env st ?c" by (rule placed_fits [OF B i C(3) slot [OF fl] fo(1) env_def])
  have inp: "rd S s (isize ty a) (home a) = Some (E a)" if "a \<in> set (il_inputs ?c)" for a
  proof -
    have "needed ?cmds a i" using that i by (intro needed.use) (auto simp: allocator_view_def)
    then show ?thesis using R by (simp add: refines_def)
  qed
  have "leaves S s env st st' (isize ty out) (home out) x" by (rule cmd_leaves [OF C(3) val g env_def fit inp])
  then obtain new u where u: "lines_of st' = lines_of st @ new" "exec S new s = Some (Next u)" "rd S u (isize ty out) (home out) = Some x"
    "\<And>q. RegSpot q \<in> set (ge_bad env) \<Longrightarrow> mreg u q = mreg s q"
    "\<And>a. a \<notin> slot_area S s (rbp_slot fo) 14 \<union> bytes S s (isize ty out) (home out) \<Longrightarrow> mmem u a = mmem s a" "same_frame s u"
    unfolding leaves_def runs_to_def slot [OF fl] by blast
  have area: "a \<notin> slot_area S s (rbp_slot fo) 14" if "uint (mreg s ''rbp'') - fo \<le> a" for a
    using rbp_slot_area [of S s fo 14] that by auto
  have stay: "needed ?cmds v i \<and> rd S u (isize ty v) (home v) = rd S s (isize ty v) (home v)"
    if v: "needed ?cmds v (Suc i)" "v \<noteq> out" for v
  proof (rule others_stay [OF B i o os v _ _ _ u(6)])
    show "int_sized ty v" using needed_used [OF v(1)] sized by (auto simp: allocator_view_def)
    show "mreg u q = mreg s q" if "home v = RegSpot q" "v \<in> set (fst (lv ! i))" "v \<in> set (snd (lv ! i))" "RegSpot q \<noteq> home out" for q
      by (rule u(4)) (use that o in \<open>force simp: env_def command_env_def bad_spots_def\<close>)
    show "mmem u a = mmem s a" if "uint (mreg s ''rbp'') - deep \<le> a" "a \<notin> bytes S s (isize ty out) (home out)" for a
      using that area [of a] fo by (intro u(5)) auto
  qed
  have "refines S ty A ils home (Suc i) (E(out := x)) u"
    unfolding refines_def
  proof (intro conjI allI impI)
    fix v assume v: "needed ?cmds v (Suc i)"
    show "rd S u (isize ty v) (home v) = Some ((E(out := x)) v)"
    proof (cases "v = out")
      case False
      then show ?thesis using stay [OF v] R by (simp add: refines_def)
    qed (simp add: u(3))
  next
    fix j assume j: "Suc i \<le> j" "j < length ils" "load_cmd ty (ils ! j)"
    then have "i < j" by simp
    then have "load_cmd ty ?c" using C(1) j unfolding straight_cmds_def by blast
    then show "rd S u 8 (load_reg (ils ! j)) = Some (A (load_reg (ils ! j)))" using load_not_int C(3) by blast
  qed
  moreover have "mmem u a = mmem s a" if "uint (mreg s ''rbp'') - high \<le> a" for a
    using that area [of a] fo local_home(4) [OF B ol, of "isize ty out" S s] int_sized_nat [OF os] by (intro u(5)) auto
  moreover have "slot_seq env' st' = rbp_slot fo" if "\<not> ge_frameless env'" for env'
  proof -
    have "slot_seq env' st' = slot_seq env st'" using that fl by (intro ext) (simp add: slot_seq_def Let_def)
    then show ?thesis using cmd_slots [OF C(3) g env_def] slot [OF fl] by simp
  qed
  ultimately show ?thesis using u(1,2,6) unfolding stepped_def by blast
qed

lemma load_cmdD: "load_cmd ty c \<Longrightarrow> \<exists>out q. c = LoadArg out (Some (RegSpot q)) None False \<and> load_reg c = RegSpot q \<and> int_sized ty out"
proof -
  assume l: "load_cmd ty c"
  then obtain out r where c: "c = LoadArg out (Some r) None False" "r \<in> set arg_regs" "int_sized ty out"
    by (auto simp: load_cmd_def split: il.splits option.splits bool.splits)
  have "\<forall>r \<in> set arg_regs. is_reg r" by code_simp
  then have "is_reg r" using c(2) by blast
  then obtain q where "r = RegSpot q" by (cases r) (auto simp: is_reg_def)
  then show ?thesis using c by (simp add: load_reg_def)
qed

lemma load_step:
  assumes B: "body_placed ty high deep locs ils lv home" and C: "straight_cmds ty home ils n" "i < n" "load_cmd ty (ils ! i)"
    and sized: "\<And>c a. c \<in> set ils \<Longrightarrow> a \<in> set (il_inputs c) \<Longrightarrow> int_sized ty a"
    and R: "refines S ty A ils home i E s" and val: "il_value ty A (ils ! i) E = Some (out, x)"
    and g: "generate_il ty home fm regs (ils ! i, lv ! i) (k, st) = Some (k', st')"
    and slot: "\<And>env. \<not> ge_frameless env \<Longrightarrow> slot_seq env st = rbp_slot fo" and fo: "deep \<le> fo" "high \<le> fo"
  shows "stepped S ty A ils home high fo (Suc i) (E(out := x)) s st st'"
proof -
  let ?cmds = "map (allocator_view ty) ils"
  have i: "i < length ils" using C by (simp add: straight_cmds_def)
  have P: "placement (vsize ty) high deep locs ?cmds lv home" using B by (simp add: body_placed_def)
  obtain r where c: "ils ! i = LoadArg out (Some r) None False" and os: "int_sized ty out" and ra: "r \<in> set arg_regs"
    using C(3) val by (auto simp: load_cmd_def il_value_def split: il.splits option.splits bool.splits)
  have x: "x = take_bit (8 * isize ty out) (A r)" using val c by (simp add: il_value_def)
  have o: "il_outputs (ils ! i) = [out]" by (simp add: c il_outputs_def)
  have ol: "out \<in> set locs" using B o nth_mem [OF i] unfolding body_placed_def by fastforce
  note O = int_sized_nat [OF os]
  have "\<forall>r \<in> set arg_regs. is_reg r \<and> is_home r" by code_simp
  then have rr: "is_reg r" "is_home r" using ra by blast+
  have lr: "load_reg (ils ! i) = r" by (simp add: c load_reg_def)
  have "rd S s 8 (load_reg (ils ! i)) = Some (A (load_reg (ils ! i)))" using R i C(3) unfolding refines_def by blast
  then have "rd S s 8 r = Some (A r)" unfolding lr .
  moreover have "isize ty out \<le> 8" using O by (auto simp: size_ok_def)
  ultimately have v: "rd S s (isize ty out) r = Some x" using rd_narrow x by blast
  let ?line = "if r = home out then [] else [Mov (home out) r (int (isize ty out))]"
  have lines: "lines_of st' = lines_of st @ (AComment ''LOADARG'' # ?line)" "gs_pool st' = gs_pool st" "gs_frame st' = gs_frame st"
  proof -
    have z: "vsize ty out = int (isize ty out)" using O by blast
    obtain st1 where st1: "load_arg_asm ty home out (Some r) None False (get_reg (command_env regs (fm_frameless fm) home (lv ! i) (ils ! i))) (begun ''LOADARG'' st) = Some st1"
      "st' = unpark st1"
      using il_command [OF g] unfolding c by (auto simp: il_make_asm_def il_name_def)
    have "st1 = (if r = home out then begun ''LOADARG'' st else emit (Mov (home out) r (int (isize ty out))) (begun ''LOADARG'' st))"
      using st1(1) by (cases "r = home out") (simp_all add: load_arg_asm_def Let_def Mov_def z)
    then show "lines_of st' = lines_of st @ (AComment ''LOADARG'' # ?line)" "gs_pool st' = gs_pool st" "gs_frame st' = gs_frame st"
      unfolding st1(2) by (auto simp: unpark_def begun_def)
  qed
  have "\<exists>u. exec S ?line s = Some (Next u) \<and> rd S u (isize ty out) (home out) = Some x \<and> same_frame s u \<and>
      (\<forall>q. home out \<noteq> RegSpot q \<longrightarrow> mreg u q = mreg s q) \<and> (\<forall>a. a \<notin> bytes S s (isize ty out) (home out) \<longrightarrow> mmem u a = mmem s a)"
  proof (cases "r = home out")
    case False
    note H = local_home(1,2) [OF B ol]
    obtain u where u: "wr S (isize ty out) (home out) x s = Some u" "rd S u (isize ty out) (home out) = Some (take_bit (8 * isize ty out) x)" "same_frame s u"
      "\<forall>q. home out \<noteq> RegSpot q \<longrightarrow> mreg u q = mreg s q" "\<forall>a. a \<notin> bytes S s (isize ty out) (home out) \<longrightarrow> mmem u a = mmem s a"
      using wr_home [OF H] O by blast
    have "if is_reg (home out) then imm64_ok (isize ty out) r else imm_ok (isize ty out) r" using rr by simp
    then have "step S (Mov (home out) r (int (isize ty out))) s = Some (Next u)"
      using mov_wr [OF _ operands_from_reg [OF H(2) rr(1)] _ v] O u(1) by (simp add: next_opt_def)
    then show ?thesis using False u rd_take [OF v] by (intro exI [of _ u]) simp
  qed (use v in auto)
  then obtain u where u: "exec S ?line s = Some (Next u)" "rd S u (isize ty out) (home out) = Some x" "same_frame s u"
    "\<And>q. home out \<noteq> RegSpot q \<Longrightarrow> mreg u q = mreg s q" "\<And>a. a \<notin> bytes S s (isize ty out) (home out) \<Longrightarrow> mmem u a = mmem s a"
    by blast
  have stay: "needed ?cmds v i \<and> rd S u (isize ty v) (home v) = rd S s (isize ty v) (home v)"
    if v: "needed ?cmds v (Suc i)" "v \<noteq> out" for v
  proof (rule others_stay [OF B i o os v _ _ _ u(3)])
    show "int_sized ty v" using needed_used [OF v(1)] sized by (auto simp: allocator_view_def)
    show "mreg u q = mreg s q" if "RegSpot q \<noteq> home out" for q using u(4) [of q] that by metis
    show "mmem u a = mmem s a" if "a \<notin> bytes S s (isize ty out) (home out)" for a by (rule u(5) [OF that])
  qed
  have pend: "home out \<noteq> load_reg (ils ! j)" if j: "Suc i \<le> j" "j < length ils" "load_cmd ty (ils ! j)" for j
  proof -
    have "i < j" using j(1) by simp
    then have "needed ?cmds (load_out (ils ! i)) j \<and> needed_after ?cmds (load_out (ils ! i)) j"
      using C(1) j unfolding straight_cmds_def by blast
    then have "needed ?cmds out j" "needed_after ?cmds out j" by (simp_all add: c load_out_def)
    then have "home out \<notin> set (c_clobber (?cmds ! j))" using placementD(5) [OF P _ ol] j(2) by simp
    then show ?thesis using j
      by (auto simp: allocator_view_def il_clobber_def load_cmd_def load_reg_def opt_list_def split: il.splits option.splits bool.splits)
  qed
  have "refines S ty A ils home (Suc i) (E(out := x)) u"
    unfolding refines_def
  proof (intro conjI allI impI)
    fix v assume v: "needed ?cmds v (Suc i)"
    show "rd S u (isize ty v) (home v) = Some ((E(out := x)) v)"
    proof (cases "v = out")
      case False
      then show ?thesis using stay [OF v] R by (simp add: refines_def)
    qed (simp add: u(2))
  next
    fix j assume j: "Suc i \<le> j" "j < length ils" "load_cmd ty (ils ! j)"
    have "rd S s 8 (load_reg (ils ! j)) = Some (A (load_reg (ils ! j)))" using R j by (simp add: refines_def)
    moreover have "\<exists>q. load_reg (ils ! j) = RegSpot q" using load_cmdD [OF j(3)] by auto
    ultimately show "rd S u 8 (load_reg (ils ! j)) = Some (A (load_reg (ils ! j)))"
      using pend [OF j] u(4) by (auto simp: rd_def)
  qed
  moreover have "mmem u a = mmem s a" if "uint (mreg s ''rbp'') - high \<le> a" for a
    using that local_home(4) [OF B ol, of "isize ty out" S s] O by (intro u(5)) auto
  moreover have "slot_seq env' st' = rbp_slot fo" if "\<not> ge_frameless env'" for env'
    using slot_seq_cong [OF lines(2,3)] slot [OF that] by simp
  moreover have "exec S (AComment ''LOADARG'' # ?line) s = Some (Next u)" using u(1) by (simp add: step_def [of S "AComment _"])
  ultimately show ?thesis using lines(1) u(3) unfolding stepped_def by blast
qed

section \<open>The body of a function\<close>

text \<open>The commands from the \<open>i\<close>-th on.\<close>

lemma body_steps:
  assumes B: "body_placed ty high deep locs ils lv home" and C: "straight_cmds ty home ils n"
    and sized: "\<And>c a. c \<in> set ils \<Longrightarrow> a \<in> set (il_inputs c) \<Longrightarrow> int_sized ty a"
    and fm: "\<not> fm_frameless fm" and fo: "deep \<le> fo" "high \<le> fo" and lv: "length lv = length ils"
  shows "i + m \<le> n \<Longrightarrow> refines S ty A ils home i E s \<Longrightarrow> il_run ty A (take m (drop i ils)) E = Some E' \<Longrightarrow>
    generate_body ty home fm (known_registers names) (take m (drop i (zip ils lv))) (k, st) = Some (k', st') \<Longrightarrow>
    (\<And>env. \<not> ge_frameless env \<Longrightarrow> slot_seq env st = rbp_slot fo) \<Longrightarrow>
    stepped S ty A ils home high fo (i + m) E' s st st'"
proof (induction m arbitrary: i E s k st)
  case 0
  then show ?case by (auto simp: stepped_def generate_body_def)
next
  case (Suc m)
  have i: "i < n" "i < length ils" using Suc.prems(1) C by (auto simp: straight_cmds_def)
  have d: "drop i ils = ils ! i # drop (Suc i) ils" "drop i (zip ils lv) = (ils ! i, lv ! i) # drop (Suc i) (zip ils lv)"
    using Cons_nth_drop_Suc [OF i(2)] Cons_nth_drop_Suc [of i "zip ils lv"] i(2) lv by auto
  obtain out x where v: "il_value ty A (ils ! i) E = Some (out, x)" "il_run ty A (take m (drop (Suc i) ils)) (E(out := x)) = Some E'"
    using Suc.prems(3) by (auto simp: d(1) split: option.splits)
  obtain k1 st1 where g: "generate_il ty home fm (known_registers names) (ils ! i, lv ! i) (k, st) = Some (k1, st1)"
    "generate_body ty home fm (known_registers names) (take m (drop (Suc i) (zip ils lv))) (k1, st1) = Some (k', st')"
    using Suc.prems(4) by (auto simp: d(2) generate_body_def split: option.splits)
  have "stepped S ty A ils home high fo (Suc i) (E(out := x)) s st st1"
  proof (cases "load_cmd ty (ils ! i)")
    case True
    show ?thesis by (rule load_step [OF B C i(1) True sized Suc.prems(2) v(1) g(1) Suc.prems(5) fo])
  next
    case False
    then have "int_cmd ty home (ils ! i)" using C i(1) by (auto simp: straight_cmds_def)
    then show ?thesis by (rule int_step [OF B C i(1) _ sized Suc.prems(2) v(1) g(1) fm Suc.prems(5) fo])
  qed
  then obtain new u where u: "lines_of st1 = lines_of st @ new" "exec S new s = Some (Next u)" "refines S ty A ils home (Suc i) (E(out := x)) u"
    "same_frame s u" "\<forall>a. uint (mreg s ''rbp'') - high \<le> a \<longrightarrow> mmem u a = mmem s a" "\<And>env. \<not> ge_frameless env \<Longrightarrow> slot_seq env st1 = rbp_slot fo"
    unfolding stepped_def by blast
  have "Suc i + m \<le> n" using Suc.prems(1) by simp
  from Suc.IH [OF this u(3) v(2) g(2) u(6)] obtain new' w where w: "lines_of st' = lines_of st1 @ new'" "exec S new' u = Some (Next w)"
    "refines S ty A ils home (Suc i + m) E' w" "same_frame u w" "\<forall>a. uint (mreg u ''rbp'') - high \<le> a \<longrightarrow> mmem w a = mmem u a"
    "\<forall>env. \<not> ge_frameless env \<longrightarrow> slot_seq env st' = rbp_slot fo"
    unfolding stepped_def by blast
  have "lines_of st' = lines_of st @ (new @ new')" using u(1) w(1) by simp
  moreover have "exec S (new @ new') s = Some (Next w)" using exec_append [OF u(2)] w(2) by simp
  moreover have "uint (mreg u ''rbp'') = uint (mreg s ''rbp'')" using u(4) by (simp add: same_frame_def)
  then have "\<forall>a. uint (mreg s ''rbp'') - high \<le> a \<longrightarrow> mmem w a = mmem s a" using u(5) w(5) by simp
  ultimately show ?case using w(3,6) same_frame_trans [OF u(4) w(4)] unfolding stepped_def by (metis add_Suc_shift)
qed

text \<open>The return: the value goes to \<open>RAX\<close>, the frame is torn down.\<close>

lemma return_steps:
  assumes g: "generate_il ty home fm regs (Return (Some r), live) (k, st) = Some (k', st')" and fm: "\<not> fm_frameless fm" "fm_meta_slot fm = None"
    and r: "int_sized ty r" "is_home (home r)" "imm64_ok (isize ty r) (home r)" "rd S s (isize ty r) (home r) = Some v"
  shows "\<exists>new u. lines_of st' = lines_of st @ new \<and> exec S new s = Some (Stop Ret u) \<and> take_bit (8 * isize ty r) (mreg u ''rax'') = v \<and>
    mreg u ''rsp'' = mreg s ''rbp'' + 8 \<and> mreg u ''rbp'' = mread 8 (uint (mreg s ''rbp'')) (mmem s) \<and> mmem u = mmem s"
proof -
  note N = int_sized_nat [OF r(1)]
  have bs: "\<not> big_struct ty r" using r(1) by (auto simp: big_struct_def int_sized_def)
  let ?line = "if home r \<noteq> RAX then [Mov RAX (home r) (int (isize ty r))] else []"
  have lines: "lines_of st' = lines_of st @ (AComment ''RETURN'' # ?line @ [Mov RSP RBP 8, Pop RBP 8, Ret])"
    using g N bs fm
    by (auto simp: generate_il_def il_make_asm_def return_asm_def il_name_def Let_def unpark_def emit_def add_line_def tear_down_def
        split: Option.bind_splits)
  have rax: "is_reg RAX" "RAX = RegSpot ''rax''" by (simp_all add: RAX_def is_reg_def)
  have "\<exists>u. exec S ?line s = Some (Next u) \<and> take_bit (8 * isize ty r) (mreg u ''rax'') = v \<and> mreg u ''rbp'' = mreg s ''rbp'' \<and> mmem u = mmem s"
  proof (cases "home r = RAX")
    case True
    then show ?thesis using r(4) by (intro exI [of _ s]) (simp add: rd_def rax(2))
  next
    case False
    let ?u = "set_reg ''rax'' (reg_put (isize ty r) (mreg s ''rax'') v) s"
    have "step S (Mov RAX (home r) (int (isize ty r))) s = Some (Next ?u)"
      using mov_wr [OF _ operands_reg [OF rax(1) r(2)] _ r(4)] N r(3) rax(1) by (simp add: next_opt_def wr_def rax(2))
    then show ?thesis using False N rd_take [OF r(4)] take_reg_put by (intro exI [of _ ?u]) simp
  qed
  then obtain u where u: "exec S ?line s = Some (Next u)" "take_bit (8 * isize ty r) (mreg u ''rax'') = v" "mreg u ''rbp'' = mreg s ''rbp''" "mmem u = mmem s"
    by blast
  let ?b = "mreg u ''rbp''"
  let ?w = "set_reg ''rbp'' (mread 8 (uint ?b) (mmem u)) (set_reg ''rsp'' (?b + 8) (set_reg ''rsp'' ?b u))"
  have "exec S [Mov RSP RBP 8, Pop RBP 8, Ret] u = Some (Stop Ret ?w)"
    by (simp add: step_def Mov_def step2_def Pop_def step1_def Ret_def next_opt_def RSP_def RBP_def size_ok_def operands_ok_def writable_op_def
        is_reg_def is_mem_def imm64_ok_def rd_def wr_def reg_put_def)
  then have "exec S (AComment ''RETURN'' # ?line @ [Mov RSP RBP 8, Pop RBP 8, Ret]) s = Some (Stop Ret ?w)"
    using exec_append [OF u(1), of "[Mov RSP RBP 8, Pop RBP 8, Ret]"] by (simp add: step_def [of S "AComment _"])
  then show ?thesis using lines u(2-4) by (intro exI [of _ "AComment ''RETURN'' # ?line @ [Mov RSP RBP 8, Pop RBP 8, Ret]"] exI [of _ ?w]) simp
qed

end
