(* ===== verification/FunctionSound.thy ===== *)
theory FunctionSound
  imports FunctionAsm CompareSound
begin

text \<open>
  The frame of a function: it holds every slot the function uses, and the callee-saved registers the body
  names come back with the values the function was entered with.
\<close>

section \<open>The frame holds every slot\<close>

lemma round16_ge: "x \<le> round16 x" and round16_mod: "round16 x mod 16 = 0"
proof -
  show "x \<le> round16 x" 
    using less_imp_le [OF pos_mod_bound [of 16 x]] by (simp add: round16_def)
  have "(x + (16 - x mod 16)) mod 16 = 0" by (metis add_diff_eq diff_add_eq dvd_imp_mod_0 dvd_add dvd_minus_mod dvd_refl)
  then show "round16 x mod 16 = 0" by (simp add: round16_def)
qed

lemma fold_deepest: "fold (\<lambda>s m. max m (f s)) xs m \<ge> m \<and> (\<forall>s \<in> set xs. f s \<le> fold (\<lambda>s m. max m (f s)) xs m)" for m :: int
proof (induction xs arbitrary: m)
  case (Cons x xs)
  show ?case using Cons [of "max m (f x)"] by auto
qed simp

lemma deepest_max: "deepest m sps = fold (\<lambda>s m. max m (rbp_offset s)) sps m"
proof -
  have "(\<lambda>s m. if rbp_offset s > m then rbp_offset s else m) = (\<lambda>s m. max m (rbp_offset s))" by (intro ext) (simp add: max_def)
  then show ?thesis by (simp add: deepest_def)
qed

lemma frame_size_mod: "frame_size sps pool saved mod 16 = 0"
  unfolding frame_size_def by (rule round16_mod)

lemma frame_size_ge:
  "s \<in> set sps \<union> set pool \<union> snd ` set saved \<Longrightarrow> rbp_offset s \<le> frame_size sps pool saved"
    "0 \<le> frame_size sps pool saved"
proof -
  let ?a = "deepest 0 sps"
  let ?b = "fold (\<lambda>slot m. max m (rbp_offset slot)) pool ?a"
  let ?c = "fold (\<lambda>p m. max m (rbp_offset (snd p))) saved (round16 ?b)"
  have f: "frame_size sps pool saved = round16 ?c" unfolding frame_size_def case_prod_unfold by (rule refl)
  have "?a \<le> ?b" "?b \<le> round16 ?b" "round16 ?b \<le> ?c" "?c \<le> round16 ?c" "0 \<le> ?a"
    using round16_ge fold_deepest [where f = rbp_offset] deepest_max fold_deepest [where f = "\<lambda>p. rbp_offset (snd p)" and xs = saved]
    by simp_all
  moreover have "s \<in> set sps \<Longrightarrow> rbp_offset s \<le> ?a"
    using fold_deepest [where f = rbp_offset and xs = sps and m = 0] unfolding deepest_max by blast
  moreover have "s \<in> set pool \<Longrightarrow> rbp_offset s \<le> ?b" using fold_deepest [where f = rbp_offset] by blast
  moreover have "s \<in> snd ` set saved \<Longrightarrow> rbp_offset s \<le> ?c" using fold_deepest [where f = "\<lambda>p. rbp_offset (snd p)"] by fastforce
  moreover have "s \<in> set sps \<union> set pool \<union> snd ` set saved \<Longrightarrow> s \<in> set sps \<or> s \<in> set pool \<or> s \<in> snd ` set saved" by blast
  ultimately show "s \<in> set sps \<union> set pool \<union> snd ` set saved \<Longrightarrow> rbp_offset s \<le> frame_size sps pool saved" "0 \<le> frame_size sps pool saved"
    unfolding f by linarith+
qed

text \<open>The lines of a function around the body, with the slots they save registers in.\<close>

lemma generate_asm_lines:
  assumes "generate_asm ty home regs nrc metas slot sps lcs k ac fr = Some (k', ac', fr')"
  shows "\<exists>st saved body. generate_body ty home \<lparr>fm_frameless = frameless_fn nrc sps (map fst lcs), fm_meta_funcs = metas, fm_meta_slot = slot\<rparr> regs lcs
      (k, \<lparr>gs_code = ac\<lparr>ac_lines := []\<rparr>, gs_pool = [], gs_spilled = [], gs_frame = fr\<rparr>) = Some (k', st) \<and> body = lines_of st \<and>
    save_slots (used_callee_saved body) (gs_frame st) = (saved, fr') \<and>
    ac_lines ac' = ac_lines ac @ prologue (frameless_fn nrc sps (map fst lcs)) (frame_size sps (gs_pool st) saved) saved @ patch_epilogues saved body"
  using assms by (auto simp: generate_asm_def Let_def split: Option.bind_splits prod.splits)

text \<open>C16: The frame a function reserves is a multiple of 16 and holds every frame slot in use: those of its values,
  the scratch slots of its body and the slots its callee-saved registers are kept in.\<close>

theorem frame_holds_every_slot:
  assumes "generate_asm ty home regs nrc metas slot sps lcs k ac fr = Some (k', ac', fr')" "\<not> frameless_fn nrc sps (map fst lcs)"
  shows "\<exists>sz pool saved body. ac_lines ac' = ac_lines ac @ [Push RBP 8, Mov RBP RSP 8, Inst ''sub'' RSP (LiteralSpot (LStr (int_str sz))) 8]
      @ map (\<lambda>(r, slot). Mov slot r 8) saved @ patch_epilogues saved body \<and>
    sz mod 16 = 0 \<and> (\<forall>s \<in> set sps \<union> set pool \<union> snd ` set saved. rbp_offset s \<le> sz) \<and>
    map fst saved = used_callee_saved body \<and>
    (\<exists>st. generate_body ty home \<lparr>fm_frameless = False, fm_meta_funcs = metas, fm_meta_slot = slot\<rparr> regs lcs
      (k, \<lparr>gs_code = ac\<lparr>ac_lines := []\<rparr>, gs_pool = [], gs_spilled = [], gs_frame = fr\<rparr>) = Some (k', st) \<and> pool = gs_pool st \<and> body = lines_of st)"
proof -
  have fst_save: "map fst (fst (save_slots rs f)) = rs" for rs f
    by (induction rs arbitrary: f) (auto simp: Let_def split: prod.splits, metis fst_conv)
  obtain st saved where st: "generate_body ty home \<lparr>fm_frameless = False, fm_meta_funcs = metas, fm_meta_slot = slot\<rparr> regs lcs
      (k, \<lparr>gs_code = ac\<lparr>ac_lines := []\<rparr>, gs_pool = [], gs_spilled = [], gs_frame = fr\<rparr>) = Some (k', st)"
    "save_slots (used_callee_saved (lines_of st)) (gs_frame st) = (saved, fr')"
    "ac_lines ac' = ac_lines ac @ prologue False (frame_size sps (gs_pool st) saved) saved @ patch_epilogues saved (lines_of st)"
    using generate_asm_lines [OF assms(1)] assms(2) by auto
  have "map fst saved = used_callee_saved (lines_of st)" using fst_save [of "used_callee_saved (lines_of st)" "gs_frame st"] st(2) by simp
  then show ?thesis using st frame_size_ge(1) [where sps = sps and pool = "gs_pool st" and saved = saved]
    by (intro exI [of _ "frame_size sps (gs_pool st) saved"] exI [of _ "gs_pool st"] exI [of _ saved] exI [of _ "lines_of st"])
      (auto simp: prologue_def frame_size_mod)
qed

section \<open>Callee-saved registers\<close>

text \<open>A register the body names, in any of its four spellings, as an operand of an ordinary line.\<close>

definition names_reg :: "asm list \<Rightarrow> spot \<Rightarrow> bool" where
  "names_reg body r = (\<exists>c \<in> set body. \<exists>x \<in> set (asm_fields c). name_to_reg x = Some r)"

lemma used_fold:
  "set (fold (\<lambda>x used. case name_to_reg x of None \<Rightarrow> used | Some r \<Rightarrow> if r \<in> set used then used else used @ [r]) xs us) =
     set us \<union> {r. \<exists>x \<in> set xs. name_to_reg x = Some r}"
  "distinct us \<Longrightarrow> distinct (fold (\<lambda>x used. case name_to_reg x of None \<Rightarrow> used | Some r \<Rightarrow> if r \<in> set used then used else used @ [r]) xs us)"
  by (induction xs arbitrary: us) (auto split: option.splits)

lemma used_callee_saved_set: "r \<in> set (used_callee_saved body) \<longleftrightarrow> names_reg body r" "distinct (used_callee_saved body)"
  using used_fold(1) [of "concat (map asm_fields body)" "[]"] used_fold(2) [of "[]" "concat (map asm_fields body)"]
  by (auto simp: used_callee_saved_def names_reg_def)

lemma name_to_reg_callee: "name_to_reg x = Some r \<Longrightarrow> r \<in> set callee_saved_registers"
  by (auto simp: name_to_reg_def find_Some_iff)

lemma callee_regs: "r \<in> set callee_saved_registers \<Longrightarrow> \<exists>q. r = RegSpot q \<and> q \<noteq> ''rbp'' \<and> q \<noteq> ''rsp''"
proof -
  have "\<forall>r \<in> set callee_saved_registers. is_reg r \<and> r \<noteq> RBP \<and> r \<noteq> RSP" by code_simp
  then show "r \<in> set callee_saved_registers \<Longrightarrow> \<exists>q. r = RegSpot q \<and> q \<noteq> ''rbp'' \<and> q \<noteq> ''rsp''"
    by (cases r) (auto simp: is_reg_def RBP_def RSP_def)
qed

text \<open>Slots that lie apart: what \<open>_alloc_stack_slot\<close> hands out one after the other.\<close>

definition slots_apart :: "syms \<Rightarrow> mach \<Rightarrow> (spot \<times> spot) list \<Rightarrow> bool" where
  "slots_apart S s ps = ((\<forall>p \<in> set ps. fixed_mem (snd p) \<and> (\<exists>q. fst p = RegSpot q \<and> q \<noteq> ''rbp'' \<and> q \<noteq> ''rsp'')) \<and> distinct (map fst ps) \<and>
     (\<forall>i < length ps. \<forall>j < length ps. i \<noteq> j \<longrightarrow> bytes S s 8 (snd (ps ! i)) \<inter> bytes S s 8 (snd (ps ! j)) = {}))"

lemma slots_apart_Cons:
  "slots_apart S s (p # ps) \<Longrightarrow> slots_apart S s ps \<and> (\<forall>p' \<in> set ps. bytes S s 8 (snd p) \<inter> bytes S s 8 (snd p') = {} \<and> fst p' \<noteq> fst p)"
proof -
  assume a: "slots_apart S s (p # ps)"
  have "bytes S s 8 (snd (ps ! i)) \<inter> bytes S s 8 (snd (ps ! j)) = {}" if "i < length ps" "j < length ps" "i \<noteq> j" for i j
    using a that unfolding slots_apart_def by (metis Suc_inject Suc_less_eq length_Cons nth_Cons_Suc)
  moreover have q: "bytes S s 8 (snd p) \<inter> bytes S s 8 (snd (ps ! j)) = {}" if "j < length ps" for j
    using a that unfolding slots_apart_def by (metis length_Cons nth_Cons_0 nth_Cons_Suc nat.distinct(1) not_less_eq zero_less_Suc)
  moreover have "bytes S s 8 (snd p) \<inter> bytes S s 8 (snd p') = {}" if "p' \<in> set ps" for p' using that q by (metis in_set_conv_nth)
  moreover have "\<forall>p' \<in> set ps. fst p' \<noteq> fst p" using a by (auto simp: slots_apart_def image_iff)
  moreover have "slots_apart S s ps" using a calculation(1) by (simp add: slots_apart_def)
  ultimately show ?thesis by blast
qed

lemma save_run:
  assumes "slots_apart S s ps"
  shows "\<exists>u. exec S (map (\<lambda>(r, sl). Mov sl r 8) ps) s = Some (Next u) \<and> mreg u = mreg s \<and>
    (\<forall>(r, sl) \<in> set ps. rd S u 8 sl = rd S s 8 r) \<and> (\<forall>a. a \<notin> (\<Union>p \<in> set ps. bytes S s 8 (snd p)) \<longrightarrow> mmem u a = mmem s a)"
  using assms
proof (induction ps arbitrary: s)
  case (Cons p ps)
  obtain r sl where p: "p = (r, sl)" by fastforce
  obtain q where q: "r = RegSpot q" "fixed_mem sl" using Cons.prems p by (auto simp: slots_apart_def)
  have m: "is_mem sl" by (rule fixed_mem_is_mem [OF q(2)])
  have h: "is_home sl" "writable_op sl" using q(2) m by (simp_all add: is_home_def writable_op_def)
  have v: "rd S s 8 r = Some (mreg s q)" using q by (simp add: rd_def)
  have ok: "operands_ok sl r" "if is_reg sl then imm64_ok 8 r else imm_ok 8 r"
    using m q(1) by (auto simp: operands_ok_def writable_op_def is_reg_def is_mem_def imm_ok_def imm64_ok_def split: spot.splits)
  obtain t where t: "wr S 8 sl (mreg s q) s = Some t" "rd S t 8 sl = Some (mreg s q)" "same_frame s t"
    "\<And>p. sl \<noteq> RegSpot p \<Longrightarrow> mreg t p = mreg s p" "\<And>a. a \<notin> bytes S s 8 sl \<Longrightarrow> mmem t a = mmem s a"
    using wr_home [OF h, of 8 S "mreg s q" s] by (auto simp: size_ok_def)
  have step: "step S (Mov sl r (int 8)) s = Some (Next t)"
    using mov_wr [OF _ ok v] t(1) by (simp add: size_ok_def next_opt_def)
  have rt: "mreg t = mreg s" using m by (intro ext t(4)) (auto simp: is_mem_def)
  note C = slots_apart_Cons [OF Cons.prems]
  have b: "bytes S t 8 (snd p') = bytes S s 8 (snd p')" if "p' \<in> set (p # ps)" for p'
  proof -
    have "fixed_mem (snd p')" using that Cons.prems by (auto simp: slots_apart_def)
    then show ?thesis using bytes_same [OF _ t(3)] by (simp add: is_home_def)
  qed
  have "bytes S t 8 (snd (ps ! i)) = bytes S s 8 (snd (ps ! i))" if "i < length ps" for i using b that by simp
  then have "slots_apart S t ps" using C unfolding slots_apart_def by simp
  then obtain u where u: "exec S (map (\<lambda>(r, sl). Mov sl r 8) ps) t = Some (Next u)" "mreg u = mreg t"
    "\<forall>(r, sl) \<in> set ps. rd S u 8 sl = rd S t 8 r" "\<And>a. a \<notin> (\<Union>p \<in> set ps. bytes S t 8 (snd p)) \<Longrightarrow> mmem u a = mmem t a"
    using Cons.IH by blast
  have "rd S u 8 sl = rd S t 8 sl"
  proof (rule rd_same [OF h(1)])
    show "same_frame t u" using u(2) by (simp add: same_frame_def)
    fix a assume "a \<in> bytes S t 8 sl"
    then show "mmem u a = mmem t a" using C b p by (intro u(4)) fastforce
  qed (use u(2) in simp)
  then have "rd S u 8 sl = rd S s 8 r" using t(2) v by simp
  moreover have "rd S t 8 r' = rd S s 8 r'" if "(r', sl') \<in> set ps" for r' sl'
    using that Cons.prems rt by (auto simp: slots_apart_def rd_def)
  ultimately have "\<forall>(r, sl) \<in> set (p # ps). rd S u 8 sl = rd S s 8 r" using u(3) p by fastforce
  moreover have "mmem u a = mmem s a" if "a \<notin> (\<Union>p' \<in> set (p # ps). bytes S s 8 (snd p'))" for a
    using that u(4) [of a] t(5) [of a] b p by fastforce
  ultimately show ?case using step u(1,2) rt p by (intro exI [of _ u]) auto
qed simp

lemma save_slots_zip:
  "\<not> near_active fr \<Longrightarrow> fst (save_slots rs fr) =
     map (\<lambda>i. (rs ! i, MemSpot (BaseSpot RBP) (- (frame_offset fr + 8 * int i + 8)) 0 None)) [0..<length rs]"
proof (induction rs arbitrary: fr)
  case (Cons r rs)
  obtain slot fr' where al: "alloc_stack_slot 8 fr = (slot, fr')" by (cases "alloc_stack_slot 8 fr") auto
  then have f: "slot = MemSpot (BaseSpot RBP) (- (frame_offset fr + 8)) 0 None" "frame_offset fr' = frame_offset fr + 8" "\<not> near_active fr'"
    using Cons.prems by (auto simp: alloc_stack_slot_def)
  have "fst (save_slots (r # rs) fr) = (r, slot) # fst (save_slots rs fr')" by (simp add: al split_beta)
  also have "fst (save_slots rs fr') = map (\<lambda>i. (rs ! i, MemSpot (BaseSpot RBP) (- (frame_offset fr + 8 * int (Suc i) + 8)) 0 None)) [0..<length rs]"
    unfolding Cons.IH [OF f(3)] f(2) by (simp add: algebra_simps)
  also have "(r, slot) # \<dots> = map (\<lambda>i. ((r # rs) ! i, MemSpot (BaseSpot RBP) (- (frame_offset fr + 8 * int i + 8)) 0 None)) (0 # map Suc [0..<length rs])"
    by (simp add: f(1) o_def)
  also have "0 # map Suc [0..<length rs] = [0..<length (r # rs)]" by (simp add: map_Suc_upt upt_conv_Cons del: upt_Suc)
  finally show ?case .
qed simp

lemma save_slots_apart:
  assumes "\<not> near_active fr" "distinct rs" "set rs \<subseteq> set callee_saved_registers"
  shows "slots_apart S s (fst (save_slots rs fr))" "map fst (fst (save_slots rs fr)) = rs"
proof -
  let ?sl = "\<lambda>i. MemSpot (BaseSpot RBP) (- (frame_offset fr + 8 * int i + 8)) 0 None"
  note Z = save_slots_zip [OF assms(1), of rs]
  show F: "map fst (fst (save_slots rs fr)) = rs" by (simp add: Z o_def map_nth)
  have "\<exists>q. rs ! i = RegSpot q \<and> q \<noteq> ''rbp'' \<and> q \<noteq> ''rsp''" if "i < length rs" for i
    using callee_regs [of "rs ! i"] assms(3) that by (meson nth_mem subset_iff)
  then have 1: "\<forall>p \<in> set (fst (save_slots rs fr)). fixed_mem (snd p) \<and> (\<exists>q. fst p = RegSpot q \<and> q \<noteq> ''rbp'' \<and> q \<noteq> ''rsp'')"
    by (simp add: Z RBP_def)
  have sep: "bytes S s 8 (?sl i) \<inter> bytes S s 8 (?sl j) = {}" if "i \<noteq> j" for i j
    using that by (auto simp: bytes_def is_mem_def addr_def RBP_def)
  have "\<forall>i < length rs. \<forall>j < length rs. i \<noteq> j \<longrightarrow>
      bytes S s 8 (snd (fst (save_slots rs fr) ! i)) \<inter> bytes S s 8 (snd (fst (save_slots rs fr) ! j)) = {}"
    using sep by (simp add: Z)
  moreover have "length (fst (save_slots rs fr)) = length rs" by (simp add: Z)
  ultimately show "slots_apart S s (fst (save_slots rs fr))" using 1 assms(2) unfolding slots_apart_def F by simp
qed


section \<open>Instances\<close>

definition rbx_home :: "nat \<Rightarrow> spot" where
  "rbx_home v = (if v = 0 then RegSpot ''rbx'' else if v = 1 then local_at 4 else RAX)"

definition rbx_types :: types where
  "rbx_types = \<lparr>ty_heap = \<lambda>_. undefined, ty_of = \<lambda>v. if v = 0 then PointerT integer_t 8 False else integer_t\<rparr>"

abbreviation quiet :: "il \<Rightarrow> il \<times> nat list \<times> nat list" where
  "quiet c \<equiv> (c, [], [])"

definition lea_fn :: "(il \<times> nat list \<times> nat list) list" where
  "lea_fn = [quiet (AddrOf 0 1), quiet (ReadAt 2 0), quiet (Return (Some 2))]"

definition add_fn :: "(il \<times> nat list \<times> nat list) list" where
  "add_fn = [quiet (Arith Add 0 1 1), quiet (SetCmd 2 0), quiet (Return (Some 2))]"

definition small_frame :: frame where
  "small_frame = \<lparr>frame_offset = 4, near_active = False, near_label = [], near_off = 0, near_size = 0\<rparr>"

definition empty_code :: asm_code where
  "empty_code = \<lparr>ac_lines = [], ac_comm = [], ac_globals = [], ac_data = [], ac_strings = [], label_num = 0\<rparr>"

abbreviation rbx_asm :: "(il \<times> nat list \<times> nat list) list \<Rightarrow> (nat \<times> asm_code \<times> frame) option" where
  "rbx_asm lcs \<equiv> generate_asm rbx_types rbx_home registers None [] None [RegSpot ''rbx'', local_at 4, RAX] lcs 0 empty_code small_frame"

definition entry_mach :: mach where
  "entry_mach = \<lparr>mreg = \<lambda>r. if r = ''rsp'' then 4096 else if r = ''rbx'' then 77 else 0, mmem = \<lambda>_. 0, mcmp = None\<rparr>"

theorem frame_holds_every_slot_witness:
  "\<exists>k' ac' fr' sz pool saved body. rbx_asm add_fn = Some (k', ac', fr') \<and> sz mod 16 = 0 \<and>
     ac_lines ac' = [Push RBP 8, Mov RBP RSP 8, Inst ''sub'' RSP (LiteralSpot (LStr (int_str sz))) 8]
      @ map (\<lambda>(r, slot). Mov slot r 8) saved @ patch_epilogues saved body \<and>
     (\<forall>s \<in> set [RegSpot ''rbx'', local_at 4, RAX] \<union> set pool \<union> snd ` set saved. rbp_offset s \<le> sz)"
proof -
  have n: "rbx_asm add_fn \<noteq> None" "\<not> frameless_fn None [RegSpot ''rbx'', local_at 4, RAX] (map fst add_fn)" "ac_lines empty_code = []" by code_simp+
  obtain k' ac' fr' where g: "rbx_asm add_fn = Some (k', ac', fr')" using n(1) by auto
  note frame_holds_every_slot [OF g n(2), unfolded n(3) append_Nil]
  then obtain sz pool saved body where f: "ac_lines ac' = [Push RBP 8, Mov RBP RSP 8, Inst ''sub'' RSP (LiteralSpot (LStr (int_str sz))) 8]
      @ map (\<lambda>(r, slot). Mov slot r 8) saved @ patch_epilogues saved body" "sz mod 16 = 0"
    "\<forall>s \<in> set [RegSpot ''rbx'', local_at 4, RAX] \<union> set pool \<union> snd ` set saved. rbp_offset s \<le> sz"
    by (elim exE conjE)
  show ?thesis by (intro exI conjI, rule g, rule f(2), rule f(1), rule f(3))
qed


text \<open>C38: A callee-saved register that the body writes only through \<open>lea\<close> and reads only as the base of an address is
  not kept: the fields of \<open>Lea\<close> are spots, not strings, and an operand in memory does not match a register
  name.  The function that reads a local through a pointer in \<open>RBX\<close> returns with \<open>RBX\<close> changed.\<close>

theorem lea_register_not_kept:
  "\<exists>k' ac' fr' c u. rbx_asm lea_fn = Some (k', ac', fr') \<and> exec (\<lambda>_. 0) (ac_lines ac') entry_mach = Some (Stop c u) \<and> c = Ret \<and>
     mreg entry_mach ''rbx'' = 77 \<and> mreg u ''rbx'' = 4084 \<and> mreg u ''rsp'' = mreg entry_mach ''rsp''"
proof -
  have "mreg entry_mach ''rbx'' = 77" by code_simp
  moreover have "case rbx_asm lea_fn of None \<Rightarrow> False
    | Some (k', ac', fr') \<Rightarrow> (case exec (\<lambda>_. 0) (ac_lines ac') entry_mach of
        Some (Stop c u) \<Rightarrow> c = Ret \<and> mreg u ''rbx'' = 4084 \<and> mreg u ''rsp'' = mreg entry_mach ''rsp'' | _ \<Rightarrow> False)"
    by code_simp
  ultimately show ?thesis by (clarsimp split: option.split_asm prod.split_asm outcome.split_asm)
qed

end
