(* ===== verification/StraightFunction.thy ===== *)
theory StraightFunction
  imports StraightLine FunctionSound
begin

unbundle bit_operations_syntax

text \<open>
  The lines of a whole straight-line function, from its entry to its return: prologue, parameters, integer
  commands, result and tear-down, with the homes the allocation chose.
\<close>

section \<open>From the front half to the body\<close>

definition val_view :: "types \<Rightarrow> val_types" where
  "val_view ty = \<lparr>v_size = vsize ty, v_floating = (\<lambda>v. is_floating (ty_of ty v))\<rparr>"

text \<open>The fixed spots of a function that uses no globals: literals, and no output among them.\<close>

definition literals_only :: "types \<Rightarrow> spot_map \<Rightarrow> il list \<Rightarrow> bool" where
  "literals_only ty gmap ils = ((\<forall>v s. gmap (Val v) = Some s \<longrightarrow> literal_home s) \<and>
     (\<forall>c \<in> set ils. \<forall>v \<in> set (il_outputs c). gmap (Val v) = None))"

lemma free_values: "v \<in> set (get_free_values cmds gmap) \<longleftrightarrow> (\<exists>c \<in> set cmds. v \<in> set (c_inputs c @ c_outputs c)) \<and> gmap (Val v) = None"
proof -
  have a: "set (fold (add_free gmap) vs free) = set free \<union> {v \<in> set vs. gmap (Val v) = None}" for vs free
    by (induction vs arbitrary: free) (auto simp: add_free_def)
  have "set (fold (\<lambda>c free. fold (add_free gmap) (c_inputs c @ c_outputs c) free) cmds free) =
      set free \<union> {v. (\<exists>c \<in> set cmds. v \<in> set (c_inputs c @ c_outputs c)) \<and> gmap (Val v) = None}" for free
    by (induction cmds arbitrary: free) (auto simp: a)
  then show ?thesis by (simp add: get_free_values_def)
qed

lemma place_keeps:
  "(\<And>v. v \<notin> free0 \<Longrightarrow> ms_map s (Val v) = gmap (Val v)) \<Longrightarrow> set (ms_free s) \<subseteq> free0 \<Longrightarrow> v \<notin> free0 \<Longrightarrow>
    ms_map (fold (place_in_mem ty) vs s) (Val v) = gmap (Val v)"
proof (induction vs arbitrary: s)
  case (Cons w vs)
  have a: "ms_map (place_in_mem ty w s) (Val u) = gmap (Val u)" if "u \<notin> free0" for u
    using Cons.prems(1,2) that by (auto simp: place_in_mem_def Let_def)
  have b: "set (ms_free (place_in_mem ty w s)) \<subseteq> free0"
    using Cons.prems(2) set_remove1_subset [of w "ms_free s"] by (auto simp: place_in_mem_def Let_def)
  from Cons.IH [OF a b Cons.prems(3)] show ?case by simp
qed simp

text \<open>What the front half leaves for the values that were placed before it.\<close>

lemma front_half_rest:
  assumes inp: "fn_input regs ty cmds" and dn: "make_asm_spots fuel regs ty fr gmap cmds = Done r" and na: "\<not> near_active fr"
  shows "gmap (Val v) = Some s \<Longrightarrow> fs_map r (Val v) = Some s"
    "length (fs_live r) = length cmds" "frame_offset fr \<le> frame_offset (sp_frame (fs_alloc r))"
proof -
  let ?ms = "placed ty fr gmap cmds" and ?st = "fs_alloc r"
  obtain lv g m rs where d: "get_live_vars fuel cmds (ms_free ?ms) = Done lv" "graph_ok (ms_free ?ms) regs g"
    "stack_ok g (length regs) m rs" "coloured g (length regs) m regs (v_size ty) (ms_frame ?ms) rs ?st"
    "fs_map r = ms_map ?ms ++ spotmap ?st"
    using done_parts [OF inp dn] by blast
  note M = placed_ok [OF inp, of gmap fr]
  have "\<not> near_active (ms_frame ?ms)" using na unfolding placed_def placed_near by simp
  then have "frame_offset (ms_frame ?ms) \<le> frame_offset (sp_frame ?st)" using colouredD(7) [OF d(4)] by (simp add: slots_ok_def in_frame_def)
  then show "frame_offset fr \<le> frame_offset (sp_frame ?st)" using M by (simp add: mem_ok_def)
  have "fs_live r = lv"
    using dn d(1) unfolding make_asm_spots_def Let_def placed_def [symmetric] by (auto split: run.splits option.splits)
  moreover have "\<forall>c \<in> set cmds. distinct (c_outputs c)" using inp by (simp add: fn_input_def plain_cmds_def)
  with d(1) have "fixed_point (ms_free ?ms) cmds lv" by (rule get_live_vars_fixed)
  ultimately show "length (fs_live r) = length cmds" by (simp add: fixed_point_def live_ok_def)
  assume v: "gmap (Val v) = Some s"
  have nf: "v \<notin> set (get_free_values cmds gmap)" using v by (simp add: free_values)
  have "ms_map ?ms (Val v) = gmap (Val v)"
    unfolding placed_def by (rule place_keeps [OF _ _ nf]) simp_all
  moreover have "set (ms_free ?ms) \<subseteq> set (get_free_values cmds gmap)" using M by (auto simp: mem_ok_def)
  then have "Val v \<notin> set (all_nodes g)" using d(2) nf by (auto simp: graph_ok_def)
  then have "spotmap ?st (Val v) = None" using coloured_classes(1) [OF d(3,4)] by blast
  ultimately show "fs_map r (Val v) = Some s" using v d(5) by (simp add: map_add_def)
qed

lemma front_half_placed:
  assumes inp: "fn_input regs (val_view ty) (map (allocator_view ty) ils)"
    and dn: "make_asm_spots fuel regs (val_view ty) fr gmap (map (allocator_view ty) ils) = Done r"
    and fr: "\<not> near_active fr" and lit: "literals_only ty gmap ils"
  shows "body_placed ty (frame_offset fr) (frame_offset (sp_frame (fs_alloc r))) (get_free_values (map (allocator_view ty) ils) gmap) ils
      (fs_live r) (\<lambda>v. the (fs_map r (Val v)))"
proof -
  let ?cmds = "map (allocator_view ty) ils" and ?ty = "val_view ty"
  have sz: "v_size ?ty = vsize ty" by (simp add: val_view_def)
  note P = make_asm_spots_placement [OF inp dn fr, unfolded sz]
  note g = front_half_rest(1) [OF inp dn fr]
  have in_ils: "\<exists>c \<in> set ?cmds. v \<in> set (c_inputs c @ c_outputs c)" if "c \<in> set ils" "v \<in> set (il_inputs c @ il_outputs c)" for c v
    using that by (auto simp: allocator_view_def)
  show "body_placed ty (frame_offset fr) (frame_offset (sp_frame (fs_alloc r))) (get_free_values ?cmds gmap) ils
      (fs_live r) (\<lambda>v. the (fs_map r (Val v)))"
    unfolding body_placed_def
  proof (intro conjI ballI)
    show "plain_cmds ?cmds" using inp by (simp add: fn_input_def)
    fix c assume c: "c \<in> set ils"
    show "set (il_outputs c) \<subseteq> set (get_free_values ?cmds gmap)"
      using lit in_ils [OF c] c unfolding literals_only_def subset_iff free_values by auto
    fix a assume a: "a \<in> set (il_inputs c)"
    show "a \<in> set (get_free_values ?cmds gmap) \<or> literal_home (the (fs_map r (Val a)))"
    proof (cases "gmap (Val a)")
      case None
      then show ?thesis using in_ils [OF c, of a] a unfolding free_values by auto
    next
      case (Some s)
      then have "the (fs_map r (Val a)) = s" using g by simp
      then show ?thesis using Some lit unfolding literals_only_def by auto
    qed
  qed (rule P(1))
qed


section \<open>Entering the function\<close>

text \<open>The argument registers as the caller left them.\<close>

definition args_of :: "mach \<Rightarrow> spot \<Rightarrow> 64 word" where
  "args_of s r = (case r of RegSpot q \<Rightarrow> mreg s q | _ \<Rightarrow> 0)"

text \<open>What is needed before anything is computed is a literal, with its value.\<close>

definition entry_env :: "types \<Rightarrow> spot_map \<Rightarrow> il list \<Rightarrow> (nat \<Rightarrow> 64 word) \<Rightarrow> bool" where
  "entry_env ty gmap ils E = (\<forall>v. needed (map (allocator_view ty) ils) v 0 \<longrightarrow>
     (\<exists>l i. gmap (Val v) = Some (LiteralSpot l) \<and> lit_int l = Some i \<and> E v = take_bit (8 * isize ty v) (word_of_int i)))"

lemma prologue_run:
  assumes "0 \<le> sz" "sz < 2 ^ 31" "8 \<le> uint (mreg s ''rsp'')"
  shows "\<exists>u. exec S (prologue False sz []) s = Some (Next u) \<and> mreg u ''rbp'' = mreg s ''rsp'' - 8 \<and>
    (\<forall>q. q \<noteq> ''rbp'' \<longrightarrow> q \<noteq> ''rsp'' \<longrightarrow> mreg u q = mreg s q) \<and> mread 8 (uint (mreg u ''rbp'')) (mmem u) = mreg s ''rbp'' \<and>
    (\<forall>a. uint (mreg s ''rsp'') \<le> a \<longrightarrow> mmem u a = mmem s a)"
proof -
  let ?p = "mreg s ''rsp'' - 8"
  let ?m = "mwrite 8 (uint ?p) (mreg s ''rbp'') (mmem s)"
  let ?t = "(set_reg ''rsp'' ?p s)\<lparr>mmem := ?m\<rparr>"
  let ?v = "set_reg ''rbp'' ?p ?t"
  let ?w = "set_reg ''rsp'' (take_bit 64 (?p - word_of_int sz)) (no_flags ?v)"
  have a: "step S (Push RBP 8) s = Some (Next ?t)"
    by (simp add: step_def Push_def step1_def next_opt_def writable_op_def is_reg_def imm_ok_def rd_def RBP_def Let_def)
  have b: "step S (Mov RBP RSP 8) ?t = Some (Next ?v)"
    by (simp add: step_def Mov_def step2_def next_opt_def RSP_def RBP_def size_ok_def operands_ok_def writable_op_def is_reg_def is_mem_def
        imm64_ok_def rd_def wr_def reg_put_def)
  have imm: "imm_ok 8 (LiteralSpot (LStr (int_str sz)))" using assms(1,2) by (simp add: imm_ok_def lit_int_def parse_int_str)
  have c: "step S (Inst ''sub'' RSP (LiteralSpot (LStr (int_str sz))) 8) ?v = Some (Next ?w)"
    using imm by (simp add: Inst_def step_def step2_def next_opt_def RSP_def size_ok_def operands_ok_def writable_op_def is_literal_spot_def
        is_reg_def is_mem_def rd_def wr_def reg_put_def arith_op_def lit_int_def parse_int_str)
  have "uint ?p = uint (mreg s ''rsp'') - 8" using assms(3) by (simp add: uint_sub_if')
  then have "\<forall>a. uint (mreg s ''rsp'') \<le> a \<longrightarrow> ?m a = mmem s a" by (auto intro!: mwrite_outside)
  then show ?thesis
    by (intro exI [of _ ?w]) (simp add: prologue_def a b c mread_mwrite)
qed

text \<open>The lines a function adds to the file.\<close>

definition emitted :: "asm_code \<Rightarrow> asm_code \<Rightarrow> asm list" where
  "emitted ac ac' = drop (length (ac_lines ac)) (ac_lines ac')"

lemma no_saves:
  assumes "used_callee_saved (pre @ patch_epilogues saved body) = []" "save_slots (used_callee_saved body) fr = (saved, fr')"
  shows "saved = []"
proof -
  have sub: "set body \<subseteq> set (patch_epilogues saved body)" by (auto simp: patch_epilogues_def)
  have "\<not> names_reg body r" for r
  proof
    assume "names_reg body r"
    then have "names_reg (pre @ patch_epilogues saved body) r" using sub unfolding names_reg_def by auto
    then show False using used_callee_saved_set(1) [of r "pre @ patch_epilogues saved body"] assms(1) by simp
  qed
  then have "used_callee_saved body = []" using used_callee_saved_set(1) [of _ body] by (cases "used_callee_saved body") auto
  then show ?thesis using assms(2) by simp
qed

section \<open>The whole function\<close>

definition whole_function :: "types \<Rightarrow> spot_map \<Rightarrow> string list \<Rightarrow> il list \<Rightarrow> fn_spots \<Rightarrow> bool" where
  "whole_function ty gmap names ils res =
     (fn_input (known_registers names) (val_view ty) (map (allocator_view ty) ils) \<and> literals_only ty gmap ils \<and> ils \<noteq> [] \<and>
      straight_cmds ty (\<lambda>v. the (fs_map res (Val v))) ils (length ils - 1) \<and>
      (case last ils of Return (Some r) \<Rightarrow> int_sized ty r \<and> imm64_ok (isize ty r) (the (fs_map res (Val r))) | _ \<Rightarrow> False))"

lemma straight_line_body:
  assumes B: "body_placed ty 0 fo locs ils lv home" "0 \<le> fo" "length lv = length ils" and ils: "ils = cmds @ [Return (Some r)]"
    and C: "straight_cmds ty home ils (length cmds)" and r: "int_sized ty r" "imm64_ok (isize ty r) (home r)"
    and g: "generate_body ty home fm (known_registers names) (zip ils lv)
        (k, \<lparr>gs_code = ac, gs_pool = [], gs_spilled = [], gs_frame = fr\<rparr>) = Some (k', st')"
    and ac: "ac_lines ac = []" and fr: "\<not> near_active fr" "frame_offset fr = fo" and fm: "\<not> fm_frameless fm" "fm_meta_slot fm = None"
    and R: "refines S ty A ils home 0 E s" and run: "il_run ty A cmds E = Some E'"
  shows "\<exists>u. exec S (lines_of st') s = Some (Stop Ret u) \<and> take_bit (8 * isize ty r) (mreg u ''rax'') = E' r \<and>
    mreg u ''rsp'' = mreg s ''rbp'' + 8 \<and> mreg u ''rbp'' = mread 8 (uint (mreg s ''rbp'')) (mmem s) \<and>
    (\<forall>a. uint (mreg s ''rbp'') \<le> a \<longrightarrow> mmem u a = mmem s a)"
proof -
  let ?n = "length cmds" and ?st = "\<lparr>gs_code = ac, gs_pool = [], gs_spilled = [], gs_frame = fr\<rparr>"
  have sized: "int_sized ty a" if c: "c \<in> set ils" "a \<in> set (il_inputs c)" for c a
  proof -
    obtain i where i: "i < length ils" "c = ils ! i" using c(1) unfolding in_set_conv_nth by blast
    show ?thesis
    proof (cases "i < ?n")
      case True
      then have "load_cmd ty c \<or> int_cmd ty home c" using C i(2) by (auto simp: straight_cmds_def)
      then show ?thesis using c(2) by (auto simp: int_cmd_def il_inputs_def dest!: load_cmdD)
    next
      case False
      then have "c = Return (Some r)" using i by (simp add: ils nth_append)
      then show ?thesis using c(2) r(1) by (simp add: il_inputs_def opt_list_def)
    qed
  qed
  have z: "zip ils lv = take ?n (zip ils lv) @ [(Return (Some r), lv ! ?n)]"
    using take_Suc_conv_app_nth [of ?n "zip ils lv"] B(3) by (simp add: ils nth_append)
  obtain k1 st1 where g1: "generate_body ty home fm (known_registers names) (take ?n (drop 0 (zip ils lv))) (k, ?st) = Some (k1, st1)"
    and g2: "generate_il ty home fm (known_registers names) (Return (Some r), lv ! ?n) (k1, st1) = Some (k', st')"
    using g by (subst (asm) z) (auto simp: generate_body_def ofold_append split: option.splits)
  have "slot_seq env ?st = rbp_slot fo" if "\<not> ge_frameless env" for env
    using that fr by (intro ext) (simp add: slot_seq_def rbp_slot_def)
  note body_steps [OF B(1) C sized fm(1) order.refl B(2,3) _ R _ g1 this]
  then have "stepped S ty A ils home 0 fo (0 + ?n) E' s ?st st1" using run by (simp add: ils)
  then obtain new u where u: "lines_of st1 = new" "exec S new s = Some (Next u)" "refines S ty A ils home ?n E' u" "same_frame s u"
    "\<forall>a. uint (mreg s ''rbp'') \<le> a \<longrightarrow> mmem u a = mmem s a"
    using ac by (auto simp: stepped_def)
  have nd: "needed (map (allocator_view ty) ils) r ?n"
    by (rule needed.use) (simp_all add: ils nth_append allocator_view_def il_inputs_def opt_list_def)
  then have rv: "rd S u (isize ty r) (home r) = Some (E' r)" using u(3) by (simp add: refines_def)
  have hr: "is_home (home r)" using needed_home [OF B(1) nd] local_home(1) [OF B(1)] by blast
  obtain new' w where w: "lines_of st' = lines_of st1 @ new'" "exec S new' u = Some (Stop Ret w)" "take_bit (8 * isize ty r) (mreg w ''rax'') = E' r"
    "mreg w ''rsp'' = mreg u ''rbp'' + 8" "mreg w ''rbp'' = mread 8 (uint (mreg u ''rbp'')) (mmem u)" "mmem w = mmem u"
    using return_steps [OF g2 fm r(1) hr r(2) rv] by blast
  have b: "mreg u ''rbp'' = mreg s ''rbp''" using u(4) by (simp add: same_frame_def)
  have "mread 8 (uint (mreg s ''rbp'')) (mmem u) = mread 8 (uint (mreg s ''rbp'')) (mmem s)" using u(5) by (intro mread_cong) simp
  then show ?thesis using w u(1,5) exec_append [OF u(2), of new'] b by (intro exI [of _ w]) simp
qed

lemma straight_line_correct:
  assumes W: "whole_function ty gmap names ils res"
    and dn: "make_asm_spots fuel (known_registers names) (val_view ty) fr gmap (map (allocator_view ty) ils) = Done res"
    and fr: "\<not> near_active fr" "frame_offset fr = 0"
    and g: "generate_asm ty (\<lambda>v. the (fs_map res (Val v))) (known_registers names) nrc metas None sps (zip ils (fs_live res)) k ac
        (sp_frame (fs_alloc res)) = Some (k', ac', fr')"
    and nf: "\<not> frameless_fn nrc sps ils" and nosave: "used_callee_saved (emitted ac ac') = []"
    and small: "\<And>z. Inst ''sub'' RSP (LiteralSpot (LStr (int_str z))) 8 \<in> set (emitted ac ac') \<Longrightarrow> z < 2 ^ 31"
    and E: "entry_env ty gmap ils E" and run: "il_run ty (args_of s) (butlast ils) E = Some E'" and sp: "8 \<le> uint (mreg s ''rsp'')"
    and r: "last ils = Return (Some r)"
  shows "\<exists>u. exec S (emitted ac ac') s = Some (Stop Ret u) \<and> take_bit (8 * isize ty r) (mreg u ''rax'') = E' r \<and>
    mreg u ''rsp'' = mreg s ''rsp'' \<and> mreg u ''rbp'' = mreg s ''rbp'' \<and> (\<forall>a. uint (mreg s ''rsp'') \<le> a \<longrightarrow> mmem u a = mmem s a)"
proof -
  let ?home = "\<lambda>v. the (fs_map res (Val v))" and ?cmds = "butlast ils" and ?fo = "frame_offset (sp_frame (fs_alloc res))"
  note W' = W [unfolded whole_function_def]
  have inp: "fn_input (known_registers names) (val_view ty) (map (allocator_view ty) ils)" and lit: "literals_only ty gmap ils"
    and ne: "ils \<noteq> []" and C: "straight_cmds ty ?home ils (length ?cmds)" and rr: "int_sized ty r" "imm64_ok (isize ty r) (?home r)"
    using W' r by simp_all
  have ils: "ils = ?cmds @ [Return (Some r)]" using ne r append_butlast_last_id by metis
  note B = front_half_placed [OF inp dn fr(1) lit, unfolded fr(2)] and F = front_half_rest [OF inp dn fr(1), unfolded fr(2)]
  have lv: "length (fs_live res) = length ils" using F(2) by simp
  have na: "\<not> near_active (sp_frame (fs_alloc res))" by (rule make_asm_spots_placement(2) [OF inp dn fr(1)])
  have m: "map fst (zip ils (fs_live res)) = ils" using lv by simp
  let ?fm = "\<lparr>fm_frameless = False, fm_meta_funcs = metas, fm_meta_slot = None\<rparr>"
  obtain st saved where st: "generate_body ty ?home ?fm (known_registers names) (zip ils (fs_live res))
      (k, \<lparr>gs_code = ac\<lparr>ac_lines := []\<rparr>, gs_pool = [], gs_spilled = [], gs_frame = sp_frame (fs_alloc res)\<rparr>) = Some (k', st)"
    "save_slots (used_callee_saved (lines_of st)) (gs_frame st) = (saved, fr')"
    "ac_lines ac' = ac_lines ac @ prologue False (frame_size sps (gs_pool st) saved) saved @ patch_epilogues saved (lines_of st)"
    using generate_asm_lines [OF g, unfolded m] nf by auto
  let ?sz = "frame_size sps (gs_pool st) saved"
  have e: "emitted ac ac' = prologue False ?sz saved @ patch_epilogues saved (lines_of st)" by (simp add: emitted_def st(3))
  have sv: "saved = []" by (rule no_saves [OF nosave [unfolded e] st(2)])
  then have e': "emitted ac ac' = prologue False ?sz [] @ lines_of st" by (simp add: e patch_epilogues_def)
  have "?sz < 2 ^ 31" by (rule small) (simp add: e' prologue_def)
  then obtain u where u: "exec S (prologue False ?sz []) s = Some (Next u)" "mreg u ''rbp'' = mreg s ''rsp'' - 8"
    "\<forall>q. q \<noteq> ''rbp'' \<longrightarrow> q \<noteq> ''rsp'' \<longrightarrow> mreg u q = mreg s q" "mread 8 (uint (mreg u ''rbp'')) (mmem u) = mreg s ''rbp''"
    "\<forall>a. uint (mreg s ''rsp'') \<le> a \<longrightarrow> mmem u a = mmem s a"
    using prologue_run [OF frame_size_ge(2) _ sp] by blast
  have "refines S ty (args_of s) ils ?home 0 E u"
    unfolding refines_def
  proof (intro conjI allI impI)
    fix v assume "needed (map (allocator_view ty) ils) v 0"
    then obtain l i where "gmap (Val v) = Some (LiteralSpot l)" "lit_int l = Some i" "E v = take_bit (8 * isize ty v) (word_of_int i)"
      using E by (auto simp: entry_env_def)
    then show "rd S u (isize ty v) (?home v) = Some (E v)" using F(1) by (simp add: rd_def)
  next
    fix j assume j: "j < length ils" "load_cmd ty (ils ! j)"
    have "\<forall>x \<in> set arg_regs. x \<noteq> RBP \<and> x \<noteq> RSP" by code_simp
    moreover have "load_reg (ils ! j) \<in> set arg_regs"
      using j(2) by (auto simp: load_cmd_def load_reg_def split: il.splits option.splits bool.splits)
    moreover obtain q where "load_reg (ils ! j) = RegSpot q" using load_cmdD [OF j(2)] by blast
    ultimately have "q \<noteq> ''rbp''" "q \<noteq> ''rsp''" "load_reg (ils ! j) = RegSpot q" by (force simp: RBP_def RSP_def)+
    then show "rd S u 8 (load_reg (ils ! j)) = Some (args_of s (load_reg (ils ! j)))" using u(3) by (simp add: rd_def args_of_def)
  qed
  from straight_line_body [OF B F(3) lv ils C rr st(1) _ na refl _ _ this run]
  obtain w where w: "exec S (lines_of st) u = Some (Stop Ret w)" "take_bit (8 * isize ty r) (mreg w ''rax'') = E' r"
    "mreg w ''rsp'' = mreg u ''rbp'' + 8" "mreg w ''rbp'' = mread 8 (uint (mreg u ''rbp'')) (mmem u)"
    "\<forall>a. uint (mreg u ''rbp'') \<le> a \<longrightarrow> mmem w a = mmem u a" by auto
  have "uint (mreg u ''rbp'') \<le> uint (mreg s ''rsp'')" unfolding u(2) using sp by (simp add: uint_sub_if')
  then have "\<forall>a. uint (mreg s ''rsp'') \<le> a \<longrightarrow> mmem w a = mmem s a" using w(5) u(5) by simp
  then show ?thesis using w u(2,4) exec_append [OF u(1)] e' by (intro exI [of _ w]) simp
qed

text \<open>C1: A function that computes with integers and returns, from its intermediate code to its lines: where
  \<open>make_asm_spots\<close> found homes and \<open>generate_asm\<close> emitted lines with them, running the lines from the
  function's entry reaches \<open>ret\<close> with the value the commands assign to the returned value in \<open>RAX\<close>, the
  stack pointer and the frame pointer of the caller, and no byte of the caller's stack changed.\<close>

theorem straight_line_function_refines:
  assumes "whole_function ty gmap names ils res"
    and "make_asm_spots fuel (known_registers names) (val_view ty) fr gmap (map (allocator_view ty) ils) = Done res"
    and "\<not> near_active fr" "frame_offset fr = 0"
    and "generate_asm ty (\<lambda>v. the (fs_map res (Val v))) (known_registers names) nrc metas None sps (zip ils (fs_live res)) k ac
        (sp_frame (fs_alloc res)) = Some (k', ac', fr')"
    and "\<not> frameless_fn nrc sps ils" "used_callee_saved (emitted ac ac') = []"
    and "\<And>z. Inst ''sub'' RSP (LiteralSpot (LStr (int_str z))) 8 \<in> set (emitted ac ac') \<Longrightarrow> z < 2 ^ 31"
    and "entry_env ty gmap ils E" "il_run ty (args_of s) (butlast ils) E = Some E'" "8 \<le> uint (mreg s ''rsp'')"
    and "last ils = Return (Some r)"
  shows "\<exists>u. exec S (emitted ac ac') s = Some (Stop Ret u) \<and> take_bit (8 * isize ty r) (mreg u ''rax'') = E' r \<and>
    mreg u ''rsp'' = mreg s ''rsp'' \<and> mreg u ''rbp'' = mreg s ''rbp'' \<and> (\<forall>a. uint (mreg s ''rsp'') \<le> a \<longrightarrow> mmem u a = mmem s a)"
  using assms by (rule straight_line_correct)

section \<open>An instance\<close>

text \<open>\<open>int f(int a, int b) { return a * b + 5; }\<close>\<close>

definition sum_fn :: "il list" where
  "sum_fn = [LoadArg 0 (Some (RegSpot ''rdi'')) None False, LoadArg 1 (Some (RegSpot ''rsi'')) None False,
     Arith Mult 2 0 1, Arith Add 3 2 4, Return (Some 3)]"

definition sum_map :: spot_map where
  "sum_map = [Val 4 \<mapsto> LiteralSpot (LInt 5)]"

definition sum_mach :: mach where
  "sum_mach = \<lparr>mreg = \<lambda>r. if r = ''rsp'' then 4096 else if r = ''rdi'' then 6 else if r = ''rsi'' then 7 else 0, mmem = \<lambda>_. 0, mcmp = None\<rparr>"

abbreviation sum_names :: "string list" where
  "sum_names \<equiv> map (\<lambda>r. case r of RegSpot n \<Rightarrow> n | _ \<Rightarrow> []) registers"

definition sum_spots :: "fn_spots run" where
  "sum_spots = make_asm_spots 8 (known_registers sum_names) (val_view sample_types) empty_frame sum_map (map (allocator_view sample_types) sum_fn)"

definition sum_asm :: "fn_spots \<Rightarrow> (nat \<times> asm_code \<times> frame) option" where
  "sum_asm res = generate_asm sample_types (\<lambda>v. the (fs_map res (Val v))) (known_registers sum_names) None [] None [] (zip sum_fn (fs_live res)) 0
     empty_code (sp_frame (fs_alloc res))"

lemma sum_computed:
  "case sum_spots of Done res \<Rightarrow> map (\<lambda>v. the (fs_map res (Val v))) [0, 1, 2, 3, 4] = [RegSpot ''rdi'', RegSpot ''rsi'', RegSpot ''rdi'', RegSpot ''rdi'', LiteralSpot (LInt 5)] \<and>
      (case sum_asm res of Some (k', ac', fr') \<Rightarrow> emitted empty_code ac' = [Push RBP 8, Mov RBP RSP 8, Inst ''sub'' RSP (LiteralSpot (LStr ''0'')) 8,
         AComment ''LOADARG'', AComment ''LOADARG'', AComment ''MULT'', Inst ''imul'' (RegSpot ''rdi'') (RegSpot ''rsi'') 4,
         AComment ''ADD'', Inst ''add'' (RegSpot ''rdi'') (LiteralSpot (LInt 5)) 4, AComment ''RETURN'', Mov RAX (RegSpot ''rdi'') 4,
         Mov RSP RBP 8, Pop RBP 8, Ret] | None \<Rightarrow> False) | _ \<Rightarrow> False"
  by code_simp

abbreviation sum_cmds :: "cmd list" where
  "sum_cmds \<equiv> map (allocator_view sample_types) sum_fn"

lemma sum_nth:
  "map c_inputs sum_cmds = [[], [], [0, 1], [2, 4], [3]]" "map c_outputs sum_cmds = [[0], [1], [2], [3], []]"
  "map c_targets sum_cmds = [[], [], [], [], []]"
  by code_simp+

lemma sum_io:
  "length sum_cmds = 5" "i < 5 \<Longrightarrow> c_inputs (sum_cmds ! i) = [[], [], [0, 1], [2, 4], [3]] ! i"
  "i < 5 \<Longrightarrow> c_outputs (sum_cmds ! i) = [[0], [1], [2], [3], []] ! i" "i < 5 \<Longrightarrow> c_targets (sum_cmds ! i) = []"
proof -
  show l: "length sum_cmds = 5" by (simp add: sum_fn_def)
  show "i < 5 \<Longrightarrow> c_inputs (sum_cmds ! i) = [[], [], [0, 1], [2, 4], [3]] ! i"
    using sum_nth(1) l by (metis nth_map)
  show "i < 5 \<Longrightarrow> c_outputs (sum_cmds ! i) = [[0], [1], [2], [3], []] ! i"
    using sum_nth(2) l by (metis nth_map)
  assume i: "i < 5"
  then have "c_targets (sum_cmds ! i) \<in> set (map c_targets sum_cmds)" using l by simp
  then show "c_targets (sum_cmds ! i) = []" unfolding sum_nth(3) by simp
qed

lemma sum_needed_step: "needed sum_cmds v i \<Longrightarrow> i < 5 \<and> (v \<in> set ([[], [], [0, 1], [2, 4], [3]] ! i) \<or>
    v \<notin> set ([[0], [1], [2], [3], []] ! i) \<and> needed sum_cmds v (Suc i))"
  by (erule neededE) (use sum_io in \<open>auto simp del: length_map\<close>)

lemma sum_needed_0: "needed sum_cmds v 0 \<Longrightarrow> v = 4"
  using sum_needed_step [of v 0] sum_needed_step [of v 1] sum_needed_step [of v 2] sum_needed_step [of v 3] sum_needed_step [of v 4]
    sum_needed_step [of v 5] by (auto simp: eval_nat_numeral)

lemma sum_param: "needed sum_cmds 0 1" "needed_after sum_cmds 0 1"
proof -
  have "needed sum_cmds 0 2" by (rule needed.use) (use sum_io in \<open>simp_all del: length_map\<close>)
  then show "needed_after sum_cmds 0 1" by (simp add: needed_after_def eval_nat_numeral)
  show "needed sum_cmds 0 1"
    by (rule needed.step) (use sum_io \<open>needed sum_cmds 0 2\<close> in \<open>simp_all del: length_map add: eval_nat_numeral\<close>)
qed

lemma sum_sized: "int_sized sample_types v" "isize sample_types v = 4"
  by (simp_all add: int_sized_def isize_def sample_ty)

lemma sum_straight:
  assumes "map home [0, 1, 2, 3, 4] = [RegSpot ''rdi'', RegSpot ''rsi'', RegSpot ''rdi'', RegSpot ''rdi'', LiteralSpot (LInt 5)]"
  shows "straight_cmds sample_types home sum_fn 4"
proof -
  have l: "length sum_fn = 5" by (simp add: sum_fn_def)
  have ld: "load_cmd sample_types (sum_fn ! j) \<longleftrightarrow> j < 2" if j: "j < 5" for j
  proof -
    have "map (load_cmd sample_types) sum_fn = [True, True, False, False, False]" by (simp add: sum_fn_def load_cmd_def sum_sized) code_simp
    then have "load_cmd sample_types (sum_fn ! j) = [True, True, False, False, False] ! j" using j l by (metis nth_map)
    then show ?thesis using j by (auto simp: nth_Cons' split: if_splits)
  qed
  have it: "int_cmd sample_types home (sum_fn ! j)" if j: "j = 2 \<or> j = 3" for j
    using j assms by (auto simp: sum_fn_def int_cmd_def sum_sized sample_ty il_inputs_def il_outputs_def imm64_ok_def lit_int_def fits_def)
  have lo: "load_out (sum_fn ! 0) = 0" by (simp add: sum_fn_def load_out_def)
  show ?thesis
    unfolding straight_cmds_def l
  proof (intro conjI allI impI)
    fix i :: nat assume i: "i < 4"
    then have "i < 2 \<or> i = 2 \<or> i = 3" by auto
    then show "load_cmd sample_types (sum_fn ! i) \<or> int_cmd sample_types home (sum_fn ! i)" using ld [of i] it [of i] i by auto
  next
    fix i j :: nat assume a: "i < j" "j < 5" "load_cmd sample_types (sum_fn ! j)"
    then have "i = 0" "j = 1" using ld by fastforce+
    then show "load_cmd sample_types (sum_fn ! i)" "needed sum_cmds (load_out (sum_fn ! i)) j" "needed_after sum_cmds (load_out (sum_fn ! i)) j"
      using ld [of 0] lo sum_param by simp_all
  qed simp
qed

lemma sum_input: "fn_input (known_registers sum_names) (val_view sample_types) sum_cmds"
proof -
  have "distinct (known_registers sum_names) \<and> set (known_registers sum_names) \<subseteq> set registers" by code_simp
  moreover have "\<forall>c \<in> set sum_cmds. cmd_ok (known_registers sum_names) c" unfolding cmd_ok_def by code_simp
  moreover have "plain_cmds sum_cmds" by code_simp
  ultimately show ?thesis by (simp add: fn_input_def val_view_def sample_ty)
qed

lemma sum_lits: "literals_only sample_types sum_map sum_fn"
  by (auto simp: literals_only_def sum_map_def sum_fn_def il_outputs_def is_literal_spot_def is_home_def lit_int_def split: if_splits)

theorem straight_line_function_refines_witness:
  "\<exists>res k' ac' fr' u. sum_spots = Done res \<and> sum_asm res = Some (k', ac', fr') \<and>
     exec (\<lambda>_. 0) (emitted empty_code ac') sum_mach = Some (Stop Ret u) \<and> take_bit 32 (mreg u ''rax'') = 47 \<and>
     mreg u ''rsp'' = 4096 \<and> mreg u ''rbp'' = 0"
proof -
  let ?E = "\<lambda>v. if v = 4 then 5 else 0"
  obtain res where res: "sum_spots = Done res"
    and h: "map (\<lambda>v. the (fs_map res (Val v))) [0, 1, 2, 3, 4] = [RegSpot ''rdi'', RegSpot ''rsi'', RegSpot ''rdi'', RegSpot ''rdi'', LiteralSpot (LInt 5)]"
    using sum_computed by (auto split: run.split_asm)
  obtain k' ac' fr' where g: "sum_asm res = Some (k', ac', fr')"
    and e: "emitted empty_code ac' = [Push RBP 8, Mov RBP RSP 8, Inst ''sub'' RSP (LiteralSpot (LStr ''0'')) 8,
         AComment ''LOADARG'', AComment ''LOADARG'', AComment ''MULT'', Inst ''imul'' (RegSpot ''rdi'') (RegSpot ''rsi'') 4,
         AComment ''ADD'', Inst ''add'' (RegSpot ''rdi'') (LiteralSpot (LInt 5)) 4, AComment ''RETURN'', Mov RAX (RegSpot ''rdi'') 4,
         Mov RSP RBP 8, Pop RBP 8, Ret]"
    using sum_computed unfolding res by (cases "sum_asm res") auto
  have W: "whole_function sample_types sum_map sum_names sum_fn res"
  proof -
    have "length sum_fn - 1 = 4" "sum_fn \<noteq> []" "last sum_fn = Return (Some 3)" by (simp_all add: sum_fn_def)
    then show ?thesis using sum_input sum_lits sum_straight [OF h] h unfolding whole_function_def by (simp add: sum_sized imm64_ok_def)
  qed
  have dn: "make_asm_spots 8 (known_registers sum_names) (val_view sample_types) empty_frame sum_map sum_cmds = Done res"
    using res unfolding sum_spots_def .
  have z: "z < 2 ^ 31" if "Inst ''sub'' RSP (LiteralSpot (LStr (int_str z))) 8 \<in> set (emitted empty_code ac')" for z
  proof -
    have "int_str z = ''0''" using that unfolding e by (simp add: Inst_def Push_def Mov_def Pop_def Ret_def)
    moreover have "parse_int ''0'' = Some 0" by code_simp
    ultimately show ?thesis using parse_int_str [of z] by simp
  qed
  have "entry_env sample_types sum_map sum_fn ?E"
    unfolding entry_env_def
  proof (intro allI impI)
    fix v assume "needed sum_cmds v 0"
    then have "v = 4" by (rule sum_needed_0)
    then show "\<exists>l i. sum_map (Val v) = Some (LiteralSpot l) \<and> lit_int l = Some i \<and> ?E v = take_bit (8 * isize sample_types v) (word_of_int i)"
      by (simp add: sum_map_def lit_int_def sum_sized)
  qed
  moreover have "used_callee_saved (emitted empty_code ac') = []" unfolding e by code_simp
  moreover have "\<not> near_active empty_frame" "frame_offset empty_frame = 0" "\<not> frameless_fn None [] sum_fn" by code_simp+
  moreover obtain E' where "il_run sample_types (args_of sum_mach) (butlast sum_fn) ?E = Some E'" "E' 3 = 47"
    by (simp add: sum_fn_def il_value_def sum_sized sum_mach_def args_of_def arith_val_def)
  moreover have "8 \<le> uint (mreg sum_mach ''rsp'')" "last sum_fn = Return (Some 3)" by (simp_all add: sum_mach_def sum_fn_def)
  ultimately have "\<exists>u. exec (\<lambda>_. 0) (emitted empty_code ac') sum_mach = Some (Stop Ret u) \<and>
      take_bit (8 * isize sample_types 3) (mreg u ''rax'') = E' 3 \<and> mreg u ''rsp'' = mreg sum_mach ''rsp'' \<and>
      mreg u ''rbp'' = mreg sum_mach ''rbp'' \<and> (\<forall>a. uint (mreg sum_mach ''rsp'') \<le> a \<longrightarrow> mmem u a = mmem sum_mach a)"
    by (intro straight_line_function_refines [OF W dn _ _ g [unfolded sum_asm_def] _ _ z])
  then show ?thesis using res g \<open>E' 3 = 47\<close> by (auto simp: sum_sized sum_mach_def)
qed

end
