(* ===== verification/ParallelMoves.thy ===== *)
theory ParallelMoves
  imports ControlAsm Emission
begin

text \<open>
  The moves of a call into the argument registers happen as if at once: every register ends with the value
  its source had before the first move, whatever the sources are, and the scheduling always ends, well
  inside its guard.
\<close>

section \<open>What is scheduled\<close>

definition good_move :: "move \<Rightarrow> bool" where
  "good_move m = (case m of (d, x, sz) \<Rightarrow> d \<in> set arg_regs \<and> x \<noteq> d \<and> is_home x \<and> asm_str x sz \<noteq> None \<and>
     (\<exists>n. sz = int n \<and> size_ok n \<and> imm64_ok n x))"

abbreviation sources :: "move list \<Rightarrow> spot set" where
  "sources ms \<equiv> (\<lambda>m. fst (snd m)) ` set ms"

lemma find_ready_Some:
  assumes "find_ready pre ms = Some m" "\<And>m. m \<in> set ms \<Longrightarrow> fst (snd m) \<noteq> fst m"
  shows "m \<in> set ms \<and> fst m \<notin> sources (pre @ ms)"
  using assms
proof (induction pre ms rule: find_ready.induct)
  case (2 pre m' post)
  show ?case
  proof (cases "fst m' \<in> fst ` snd ` set (pre @ post)")
    case True
    then show ?thesis using 2 by (auto simp: image_image)
  next
    case False
    then have "m = m'" using 2(2) by simp
    moreover have "fst (snd m') \<noteq> fst m'" using 2(3) by simp
    ultimately show ?thesis using False by (auto simp: image_image)
  qed
qed simp

lemma find_ready_None: "find_ready pre ms = None \<Longrightarrow> m \<in> set ms \<Longrightarrow> fst m \<in> sources (pre @ ms)"
  by (induction pre ms rule: find_ready.induct) (auto simp: image_image split: if_splits)

declare find_ready.simps [simp del]

text \<open>When no move is ready the pending moves permute their destinations.\<close>

lemma stuck_permutes:
  assumes "find_ready [] ms = None" "distinct (map fst ms)"
  shows "sources ms = fst ` set ms"
proof (rule card_seteq [symmetric])
  show "fst ` set ms \<subseteq> sources ms" using find_ready_None [OF assms(1)] by auto
  have "card (sources ms) \<le> length ms" using card_length [of "map (\<lambda>m. fst (snd m)) ms"] by (simp add: image_image)
  also have "\<dots> = card (fst ` set ms)" using distinct_card [OF assms(2)] by simp
  finally show "card (sources ms) \<le> card (fst ` set ms)" .
qed simp

lemma arg_reg_names: "asm_str R11 8 \<notin> (\<lambda>r. asm_str r 8) ` set arg_regs" "R11 \<notin> set arg_regs"
    "r \<in> set arg_regs \<Longrightarrow> is_reg r \<and> is_home r \<and> asm_str r 8 \<noteq> None"
proof -
  show "asm_str R11 8 \<notin> (\<lambda>r. asm_str r 8) ` set arg_regs" "R11 \<notin> set arg_regs" by code_simp+
  have "\<forall>r \<in> set arg_regs. is_reg r \<and> is_home r \<and> asm_str r 8 \<noteq> None" by code_simp
  then show "r \<in> set arg_regs \<Longrightarrow> is_reg r \<and> is_home r \<and> asm_str r 8 \<noteq> None" by blast
qed

lemma stuck_temp:
  assumes "find_ready [] ms = None" "distinct (map fst ms)" "fst ` set ms \<subseteq> set arg_regs"
  shows "break_temp ms = Some R11"
proof -
  have "sources ms \<subseteq> set arg_regs" using stuck_permutes [OF assms(1,2)] assms(3) by simp
  then have "asm_str R11 8 \<notin> set (map (\<lambda>(d, s, sz). asm_str d 8) ms @ map (\<lambda>(d, s, sz). asm_str s 8) (filter (\<lambda>(d, s, sz). is_reg s) ms))"
    using arg_reg_names(1) assms(3) by (auto simp: image_subset_iff)
  then show ?thesis by (simp add: break_temp_def Let_def)
qed

lemma arg_reg_name: "r \<in> set arg_regs \<Longrightarrow> \<exists>q. r = RegSpot q \<and> q \<noteq> ''rbp'' \<and> q \<noteq> ''rsp''"
  using arg_reg_names(3) [of r] by (cases r) (auto simp: is_reg_def is_home_def)

section \<open>One move on the machine\<close>

lemma mov_to_reg:
  assumes "size_ok n" "is_home x" "imm64_ok n x" "rd S s n x = Some v"
  shows "step S (Mov (RegSpot q) x (int n)) s = Some (Next (set_reg q (reg_put n (mreg s q) v) s))"
  using mov_wr [OF assms(1) operands_reg [OF _ assms(2)] _ assms(4), of "RegSpot q"] assms(3)
  by (simp add: is_reg_def wr_def next_opt_def)

lemma rd_set_reg: "is_home x \<Longrightarrow> x \<noteq> RegSpot q \<Longrightarrow> q \<noteq> ''rbp'' \<Longrightarrow> q \<noteq> ''rsp'' \<Longrightarrow> rd S (set_reg q v s) n x = rd S s n x"
  by (rule rd_same) (auto simp: same_frame_def)

lemma rd_put_reg: "size_ok n \<Longrightarrow> rd S (set_reg q (reg_put n old v) s) n (RegSpot q) = Some (take_bit (8 * n) v)"
  by (simp add: rd_def take_reg_put)

section \<open>The schedule\<close>

text \<open>The outcome: destinations hold what the sources held; only they and \<open>R11\<close> change.\<close>

definition moved :: "syms \<Rightarrow> move list \<Rightarrow> mach \<Rightarrow> mach \<Rightarrow> bool" where
  "moved S ms s u = ((\<forall>(d, x, sz) \<in> set ms. rd S u (nat sz) d = rd S s (nat sz) x) \<and>
     (\<forall>q. RegSpot q \<notin> fst ` set ms \<longrightarrow> RegSpot q \<noteq> R11 \<longrightarrow> mreg u q = mreg s q) \<and> mmem u = mmem s \<and> same_frame s u)"

lemma moved_ready:
  assumes u: "moved S (remove1 (d, x, int n) ms) t u" and m: "(d, x, int n) \<in> set ms" "distinct (map fst ms)" "\<forall>m \<in> set ms. good_move m"
    and d: "d \<notin> sources ms" and v: "rd S s n x = Some v" and n: "size_ok n"
    and t: "d = RegSpot q" "t = set_reg q (reg_put n (mreg s q) v) s"
  shows "moved S ms s u"
proof -
  have dd: "d \<in> set arg_regs" using m by (auto simp: good_move_def)
  then have q: "q \<noteq> ''rbp''" "q \<noteq> ''rsp''" "d \<noteq> R11" using arg_reg_names(3) [of d] arg_reg_names(2) t(1) by (auto simp: is_home_def)
  have rest: "set (remove1 (d, x, int n) ms) = set ms - {(d, x, int n)}" using m(2) by (simp add: distinct_map)
  have other: "d \<notin> fst ` set (remove1 (d, x, int n) ms)" 

  proof
    assume "d \<in> fst ` set (remove1 (d, x, int n) ms)"
    then obtain m' where m': "m' \<in> set ms" "m' \<noteq> (d, x, int n)" "fst m' = fst (d, x, int n)" unfolding rest by auto
    then show False using m(1,2) inj_onD [of fst "set ms" m' "(d, x, int n)"] by (simp add: distinct_map)
  qed
  have src: "rd S t k y = rd S s k y" if "(e, y, z) \<in> set ms" for e y z k
  proof -
    have "good_move (e, y, z)" using m(3) that by (rule bspec)
    then have "is_home y" by (simp add: good_move_def)
    moreover have "y \<noteq> RegSpot q" using d that t(1) by force
    ultimately show ?thesis using rd_set_reg q(1,2) unfolding t(2) by blast
  qed
  have "mreg u q = mreg t q" using u other t(1) q(3) unfolding moved_def by blast
  then have "rd S u n d = Some v" using rd_put_reg [OF n, of S q "mreg s q" v s] rd_take [OF v] t by (simp add: rd_def)
  moreover have "rd S u (nat z) e = rd S s (nat z) y" if "(e, y, z) \<in> set ms" "(e, y, z) \<noteq> (d, x, int n)" for e y z
  proof -
    have "(e, y, z) \<in> set (remove1 (d, x, int n) ms)" unfolding rest using that by simp
    then have "rd S u (nat z) e = rd S t (nat z) y" using u unfolding moved_def by blast
    then show ?thesis using src [OF that(1)] by simp
  qed
  ultimately have "\<forall>(e, y, z) \<in> set ms. rd S u (nat z) e = rd S s (nat z) y" using v by fastforce
  moreover have "mreg u p = mreg s p" if "RegSpot p \<notin> fst ` set ms" "RegSpot p \<noteq> R11" for p
  proof -
    have "RegSpot p \<notin> fst ` set (remove1 (d, x, int n) ms)" unfolding rest using that(1) by blast
    moreover have "p \<noteq> q" using that(1) m(1) t(1) by force
    ultimately show ?thesis using u that(2) t by (simp add: moved_def)
  qed
  ultimately show ?thesis using u q t by (auto simp: moved_def same_frame_def)
qed

lemma redirect_map: "redirect x t ms = map (\<lambda>m. (fst m, if fst (snd m) = x then t else fst (snd m), snd (snd m))) ms"
  by (simp add: redirect_def split_beta)

lemma moved_break:
  assumes u: "moved S (redirect x R11 ms) (set_reg ''r11'' v s) u" and good: "\<forall>m \<in> set ms. good_move m"
    and free: "R11 \<notin> sources ms" and v: "rd S s 8 x = Some v"
  shows "moved S ms s u"
proof -
  have r: "R11 = RegSpot ''r11''" by (simp add: R11_def)
  have src: "rd S (set_reg ''r11'' v s) n (if y = x then R11 else y) = rd S s n y" if "(d, y, sz) \<in> set ms" "size_ok n" for d y sz n
  proof (cases "y = x")
    case True
    then have "rd S s n y = Some (take_bit (8 * n) v)" using rd_narrow [OF v, of n] that(2) by (auto simp: size_ok_def)
    then show ?thesis using True by (simp add: rd_def r)
  next
    case False
    have "y \<noteq> R11" "is_home y" using that(1) free good by (force simp: good_move_def)+
    then show ?thesis using False rd_set_reg [of y "''r11''"] r by simp
  qed
  have "rd S u (nat sz) d = rd S s (nat sz) y" if m: "(d, y, sz) \<in> set ms" for d y sz
  proof -
    have "(d, if y = x then R11 else y, sz) \<in> set (redirect x R11 ms)" using m by (force simp: redirect_def)
    then have "rd S u (nat sz) d = rd S (set_reg ''r11'' v s) (nat sz) (if y = x then R11 else y)" using u unfolding moved_def by blast
    then show ?thesis using src [OF m] good m by (fastforce simp: good_move_def)
  qed
  moreover have "fst ` set (redirect x R11 ms) = fst ` set ms" by (force simp: redirect_def)
  ultimately show ?thesis using u r by (auto simp: moved_def same_frame_def)
qed

lemma good_redirect: "good_move m \<Longrightarrow> m' = (fst m, if fst (snd m) = x then R11 else fst (snd m), snd (snd m)) \<Longrightarrow> good_move m'"
proof -
  have "is_home R11" "R11 \<notin> set arg_regs" "imm64_ok n R11" for n by (auto simp: R11_def is_home_def imm64_ok_def arg_regs_def)
    (simp_all add: RDI_def RSI_def RDX_def RCX_def R8_def R9_def)
  moreover have "asm_str R11 (int n) \<noteq> None" if "size_ok n" for n using that by (auto simp: size_ok_def R11_def reg_asm_str_def reg_size_index_def reg_map_def)
  ultimately show "good_move m \<Longrightarrow> m' = (fst m, if fst (snd m) = x then R11 else fst (snd m), snd (snd m)) \<Longrightarrow> good_move m'"
    by (auto simp: good_move_def)
qed

lemma ready_after_break:
  assumes "m \<in> set ms" "fst m = x" "x \<notin> sources (redirect x R11 ms)"
  shows "find_ready [] (redirect x R11 ms) \<noteq> None"
proof
  let ?m = "(fst m, if fst (snd m) = x then R11 else fst (snd m), snd (snd m))"
  assume "find_ready [] (redirect x R11 ms) = None"
  moreover have "?m \<in> set (redirect x R11 ms)" using assms(1) unfolding redirect_map set_map by (rule imageI)
  ultimately have "fst ?m \<in> sources ([] @ redirect x R11 ms)" by (rule find_ready_None)
  then show False using assms(2,3) by simp
qed

lemma distinct_map_fst_remove1: "distinct (map f ms) \<Longrightarrow> distinct (map f (remove1 m ms))"
  by (induction ms) (simp, clarsimp, metis image_eqI notin_set_remove1)

text \<open>Fuel: two steps for a move that has to wait, one for a move that is ready.\<close>

lemma schedule_ok:
  assumes "distinct (map fst ms)" "\<forall>m \<in> set ms. good_move m" "2 * length ms - (if find_ready [] ms = None then 0 else 1) \<le> fuel"
  shows "\<exists>st' new. schedule_moves fuel ms st = Some st' \<and> lines_of st' = lines_of st @ new \<and> gs_spilled st' = gs_spilled st \<and>
    (\<forall>s. \<exists>u. exec S new s = Some (Next u) \<and> moved S ms s u)"
  using assms
proof (induction fuel ms st rule: schedule_moves.induct)
  case (1 fuel st)
  then show ?case by (simp add: moved_def)
next
  case (2 m ms st)
  then show ?case by (auto split: if_splits)
next
  case (3 fuel m ms st)
  let ?ms = "m # ms"
  have ne: "fst (snd m') \<noteq> fst m'" if "m' \<in> set ?ms" for m' using 3(4) that by (auto simp: good_move_def)
  show ?case
  proof (cases "find_ready [] ?ms")
    case (Some r)
    obtain d x sz where r: "r = (d, x, sz)" by (metis prod_cases3)
    have f: "(d, x, sz) \<in> set ?ms" "d \<notin> sources ?ms" using find_ready_Some [OF Some ne] r by auto
    then have g: "good_move (d, x, sz)" using 3(4) by blast
    then obtain n where n: "sz = int n" "size_ok n" "imm64_ok n x" "is_home x" "d \<in> set arg_regs" by (auto simp: good_move_def)
    obtain q where q: "d = RegSpot q" using arg_reg_name [OF n(5)] by blast
    have "length (remove1 (d, x, sz) ?ms) = length ms" using f(1) length_remove1 [of "(d, x, sz)" ?ms] by (simp only: if_True list.size diff_Suc_1)
    then have "2 * length (remove1 (d, x, sz) ?ms) \<le> fuel" using 3(5) Some by simp
    then have l: "2 * length (remove1 (d, x, sz) ?ms) - (if find_ready [] (remove1 (d, x, sz) ?ms) = None then 0 else 1) \<le> fuel" by simp
    have di: "distinct (map fst (remove1 (d, x, sz) ?ms))" by (rule distinct_map_fst_remove1 [OF 3(3)])
    have go: "\<forall>m \<in> set (remove1 (d, x, sz) ?ms). good_move m" using 3(4) notin_set_remove1 by metis
    from 3(2) [OF Some r [symmetric] refl di go l]
    obtain st' new where ih: "schedule_moves fuel (remove1 (d, x, sz) ?ms) (emit (Mov d x sz) st) = Some st'"
      "lines_of st' = lines_of (emit (Mov d x sz) st) @ new" "gs_spilled st' = gs_spilled (emit (Mov d x sz) st)"
      "\<And>s. \<exists>u. exec S new s = Some (Next u) \<and> moved S (remove1 (d, x, sz) ?ms) s u" by blast
    have "\<exists>u. exec S (Mov d x sz # new) s = Some (Next u) \<and> moved S ?ms s u" for s
    proof -
      obtain v where v: "rd S s n x = Some v" using rd_home [OF n(4)] by blast
      let ?t = "set_reg q (reg_put n (mreg s q) v) s"
      obtain u where u: "exec S new ?t = Some (Next u)" "moved S (remove1 (d, x, sz) ?ms) ?t u" using ih(4) by blast
      have "moved S ?ms s u"
        by (rule moved_ready [OF u(2) [unfolded n(1)] f(1) [unfolded n(1)] 3(3,4) f(2) v n(2) q refl])
      then show ?thesis using u mov_to_reg [OF n(2,4,3) v] q n(1) by auto
    qed
    then show ?thesis using Some r ih by (intro exI [of _ st'] exI [of _ "Mov d x sz # new"]) simp
  next
    case None
    let ?x = "fst (snd m)" and ?ms' = "redirect (fst (snd m)) R11 ?ms"
    have dests: "fst ` set ?ms \<subseteq> set arg_regs" using 3(4) by (auto simp: good_move_def)
    note perm = stuck_permutes [OF None 3(3)]
    have b: "break_temp ?ms = Some R11" by (rule stuck_temp [OF None 3(3) dests])
    have "?x \<in> sources ?ms" by simp
    then have x: "?x \<in> set arg_regs" using perm dests by blast
    have r11: "R11 \<notin> sources ?ms" using perm dests arg_reg_names(2) by blast
    obtain q where q: "?x = RegSpot q" using arg_reg_name [OF x] by blast
    have fst': "map fst ?ms' = map fst ?ms" by (simp add: redirect_map)
    have good': "\<forall>m \<in> set ?ms'. good_move m" 
    proof
      fix m' assume "m' \<in> set ?ms'"
      then obtain m1 where m1: "m' = (fst m1, if fst (snd m1) = ?x then R11 else fst (snd m1), snd (snd m1))" "m1 \<in> set ?ms"
        unfolding redirect_map set_map by (rule imageE)
      show "good_move m'" by (rule good_redirect [OF _ m1(1)]) (use 3(4) m1(2) in blast)
    qed
    have "?x \<noteq> R11" using x arg_reg_names(2) by metis
    then have gone: "?x \<notin> sources ?ms'" unfolding redirect_map by (auto split: if_splits)
    obtain m0 where m0: "m0 \<in> set ?ms" "fst m0 = ?x" using perm by (metis image_iff list.set_intros(1))
    have fr: "find_ready [] ?ms' \<noteq> None" by (rule ready_after_break [OF m0 gone])
    have "2 * length ?ms' - (if find_ready [] ?ms' = None then 0 else 1) \<le> fuel"
      unfolding if_not_P [OF fr] using 3(5) None by (simp add: redirect_map)
    then obtain st' new where ih: "schedule_moves fuel ?ms' (emit (Mov R11 ?x 8) st) = Some st'"
      "lines_of st' = lines_of st @ Mov R11 ?x 8 # new" "gs_spilled st' = gs_spilled st"
      "\<And>s. \<exists>u. exec S new s = Some (Next u) \<and> moved S ?ms' s u"
      using 3(1) [OF None b] fst' good' 3(3) by auto
    have "\<exists>u. exec S (Mov R11 ?x 8 # new) s = Some (Next u) \<and> moved S ?ms s u" for s
    proof -
      have v: "rd S s 8 ?x = Some (mreg s q)" using q by (simp add: rd_def)
      obtain u where u: "exec S new (set_reg ''r11'' (mreg s q) s) = Some (Next u)" "moved S ?ms' (set_reg ''r11'' (mreg s q) s) u" using ih(4) by blast
      have "step S (Mov R11 ?x (int 8)) s = Some (Next (set_reg ''r11'' (mreg s q) s))"
        using mov_to_reg [of 8 ?x S s "mreg s q" "''r11''"] arg_reg_names(3) [OF x] v by (simp add: size_ok_def R11_def reg_put_def)
      then show ?thesis using u moved_break [OF u(2) 3(4) r11 v] by simp
    qed
    then show ?thesis using None b ih by (intro exI [of _ st'] exI [of _ "Mov R11 ?x 8 # new"]) simp
  qed
qed

section \<open>The function\<close>

lemma asm_str_args: "inj_on (\<lambda>r. asm_str r 8) (set arg_regs)"
proof (rule inj_onI)
  fix a b assume "a \<in> set arg_regs" "b \<in> set arg_regs" "asm_str a 8 = asm_str b 8"
  moreover have "\<forall>a \<in> set arg_regs. \<forall>b \<in> set arg_regs. asm_str a 8 = asm_str b 8 \<longrightarrow> a = b" by code_simp
  ultimately show "a = b" by blast
qed

lemma unique_moves_all:
  assumes "distinct (map fst ms)" "\<forall>m \<in> set ms. good_move m" "\<forall>m \<in> set ms. \<forall>k \<in> seen. asm_str (fst m) 8 \<noteq> Some (fst k)"
  shows "unique_moves seen ms = Some ms"
  using assms
proof (induction seen ms rule: unique_moves.induct)
  case (2 seen m ms)
  obtain d x sz where m: "m = (d, x, sz)" by (metis prod_cases3)
  have g: "d \<in> set arg_regs" "asm_str x sz \<noteq> None" using 2(4) m by (auto simp: good_move_def)
  then obtain a b where k: "move_key m = Some (a, b, sz)" "asm_str d 8 = Some a"
    using arg_reg_names(3) [of d] m by (auto simp: move_key_def)
  have "(a, b, sz) \<notin> seen" using 2(5) m k(2) by force
  moreover have "unique_moves (insert (a, b, sz) seen) ms = Some ms"
  proof (rule 2(2) [OF k(1) calculation])
    show "\<forall>m \<in> set ms. \<forall>k \<in> insert (a, b, sz) seen. asm_str (fst m) 8 \<noteq> Some (fst k)"
    proof (intro ballI)
      fix m' k' assume m': "m' \<in> set ms" "k' \<in> insert (a, b, sz) seen"
      have "fst m' \<in> set arg_regs" using 2(4) m'(1) by (auto simp: good_move_def)
      moreover have "fst m' \<noteq> d" using 2(3) m m'(1) by force
      ultimately have "asm_str (fst m') 8 \<noteq> asm_str d 8" using g(1) asm_str_args by (auto simp: inj_on_def)
      then show "asm_str (fst m') 8 \<noteq> Some (fst k')" using m' k(2) 2(5) by auto
    qed
  qed (use 2(3,4) in auto)
  ultimately show ?case using k by simp
qed simp

definition argument_move :: "move \<Rightarrow> bool" where
  "argument_move m = (fst m \<in> set arg_regs \<and> (fst (snd m) = fst m \<or> good_move m))"

text \<open>C9: The moves into the argument registers act at once: for moves to different argument registers from
  registers, frame slots, globals and literals, the lines run to their end and leave in every
  destination what its source held before, in any pattern of overlaps and cycles; no register but
  the destinations and \<open>R11\<close> changes and no memory does, and the scheduling never exhausts its guard.\<close>

theorem parallel_moves_at_once:
  assumes "distinct (map fst moves)" "\<forall>m \<in> set moves. argument_move m"
  shows "\<exists>st' new. emit_parallel_int_moves moves st = Some st' \<and> lines_of st' = lines_of st @ new \<and>
    (\<forall>s. \<exists>u. exec S new s = Some (Next u) \<and> moved S moves s u)"
proof -
  let ?ms = "filter (\<lambda>(d, s, sz). d \<noteq> s) moves"
  have d: "distinct (map fst ?ms)" using assms(1) by (rule distinct_map_filter)
  have g: "\<forall>m \<in> set ?ms. good_move m" using assms(2) by (auto simp: argument_move_def)
  have args: "set (map fst moves) \<subseteq> set arg_regs" using assms(2) by (auto simp: argument_move_def)
  have "length moves = card (set (map fst moves))" using distinct_card [OF assms(1)] by simp
  also have "\<dots> \<le> length arg_regs" using card_mono [OF _ args] card_length [of arg_regs] by simp
  also have "\<dots> = 6" by (simp add: arg_regs_def)
  finally have "length ?ms \<le> 6" using length_filter_le [of "\<lambda>(d, s, sz). d \<noteq> s" moves] by (rule order_trans [rotated])
  then have "2 * length ?ms \<le> 10000" by simp
  then have f: "2 * length ?ms - (if find_ready [] ?ms = None then 0 else 1) \<le> 10000" by simp
  from schedule_ok [OF d g f, of st] obtain st' new where
    st': "schedule_moves 10000 ?ms st = Some st'" "lines_of st' = lines_of st @ new"
    "\<And>s. \<exists>u. exec S new s = Some (Next u) \<and> moved S ?ms s u" by metis
  have "moved S moves s u" if u: "moved S ?ms s u" for s u
  proof -
    have "rd S u (nat sz) a = rd S s (nat sz) x" if m: "(a, x, sz) \<in> set moves" for a x sz
    proof (cases "a = x")
      case True
      have a: "a \<in> set arg_regs" using args m by force
      then obtain q where q: "a = RegSpot q" using arg_reg_name by blast
      have "a \<notin> fst ` set ?ms"
      proof
        assume "a \<in> fst ` set ?ms"
        then obtain y z where "(a, y, z) \<in> set moves" "a \<noteq> y" by auto
        then show False using m True assms(1) inj_onD [of fst "set moves" "(a, y, z)" "(a, x, sz)"] by (simp add: distinct_map)
      qed
      then have "mreg u q = mreg s q" using u a q arg_reg_names(2) by (auto simp: moved_def)
      then show ?thesis unfolding True [symmetric] q by (simp add: rd_def)
    next
      case False
      then have "(a, x, sz) \<in> set ?ms" using m by simp
      then show ?thesis using u unfolding moved_def by blast
    qed
    moreover have "fst ` set ?ms \<subseteq> fst ` set moves" by auto
    ultimately show ?thesis using u unfolding moved_def by blast
  qed
  then show ?thesis using st' unique_moves_all [OF d g, of "{}"] unfolding emit_parallel_int_moves_def by (simp, metis)
qed

text \<open>A cycle of three registers and a literal.\<close>

theorem parallel_moves_at_once_witness:
  "\<forall>S st. \<exists>st' new. emit_parallel_int_moves [(RDI, RSI, 8), (RSI, RDX, 8), (RDX, RDI, 4), (RCX, LiteralSpot (LInt 7), 8)] st = Some st' \<and>
     lines_of st' = lines_of st @ new \<and>
     (\<forall>s. \<exists>u. exec S new s = Some (Next u) \<and>
        moved S [(RDI, RSI, 8), (RSI, RDX, 8), (RDX, RDI, 4), (RCX, LiteralSpot (LInt 7), 8)] s u)"
proof (intro allI, rule parallel_moves_at_once)
  show "distinct (map fst [(RDI, RSI, 8 :: int), (RSI, RDX, 8), (RDX, RDI, 4), (RCX, LiteralSpot (LInt 7), 8)])" by code_simp
  have "\<forall>(d, x, n) \<in> set [(RDI, RSI, 8 :: nat), (RSI, RDX, 8), (RDX, RDI, 4), (RCX, LiteralSpot (LInt 7), 8)].
      d \<in> set arg_regs \<and> x \<noteq> d \<and> is_home x \<and> asm_str x (int n) \<noteq> None \<and> size_ok n \<and> imm64_ok n x" by code_simp
  then show "\<forall>m \<in> set [(RDI, RSI, 8), (RSI, RDX, 8), (RDX, RDI, 4), (RCX, LiteralSpot (LInt 7), 8)]. argument_move m"
    by (auto simp: argument_move_def good_move_def intro: exI [of _ 8] exI [of _ 4])
qed

section \<open>The target of an indirect call\<close>

definition swap_types :: types where
  "swap_types = \<lparr>ty_heap = \<lambda>_. undefined, ty_of = \<lambda>v. if v = 0 then PointerT (FunctionT [longint, longint] longint False False False) 8 False else longint\<rparr>"

definition swap_home :: "nat \<Rightarrow> spot" where
  "swap_home v = (if v = 0 then R11 else if v = 1 then RSI else if v = 2 then RDI else RAX)"

definition swap_call :: call_cmd where
  "swap_call = \<lparr>call_func = 0, call_args = [1, 2], call_ret = 3, call_void = False, call_direct = None, call_tail = False,
     call_variadic = False, call_pack = None\<rparr>"

definition swap_state :: gst where
  "swap_state = \<lparr>gs_code = \<lparr>ac_lines = [], ac_comm = [], ac_globals = [], ac_data = [], ac_strings = [], label_num = 0\<rparr>,
     gs_pool = [], gs_spilled = [], gs_frame = \<lparr>frame_offset = 0, near_active = False, near_label = [], near_off = 0, near_size = 0\<rparr>\<rparr>"

definition swap_mach :: mach where
  "swap_mach = \<lparr>mreg = \<lambda>r. if r = ''r11'' then 100 else if r = ''rsi'' then 1 else if r = ''rdi'' then 2 else 0, mmem = \<lambda>_. 0, mcmp = None\<rparr>"

text \<open>C37: The scratch register of a move cycle can hold the target of the call: with the function pointer in
  \<open>R11\<close>, which nothing forbids (the conflicts of the command name only the argument registers), and two
  arguments that swap registers, the call goes through \<open>R11\<close> after it was overwritten with an argument.\<close>

theorem indirect_call_target_lost:
  "il_abs_conf (Call swap_call) = [(0, [RDI, RSI])] \<and> swap_home 0 = R11 \<and>
   (\<exists>st' u. call_asm swap_types swap_home \<lparr>fm_frameless = False, fm_meta_funcs = [], fm_meta_slot = None\<rparr> swap_call
       (get_reg (command_env registers False swap_home ([], []) (Call swap_call))) swap_state = Some st' \<and>
     exec (\<lambda>_. 0) (lines_of st') swap_mach = Some (Stop (AsmCall R11 8) u) \<and>
     mreg swap_mach ''r11'' = 100 \<and> mreg u ''r11'' = 1 \<and> mreg u ''rdi'' = 1 \<and> mreg u ''rsi'' = 2)"
proof -
  have "il_abs_conf (Call swap_call) = [(0, [RDI, RSI])]" "swap_home 0 = R11" "mreg swap_mach ''r11'' = 100" by code_simp+
  moreover have "case call_asm swap_types swap_home \<lparr>fm_frameless = False, fm_meta_funcs = [], fm_meta_slot = None\<rparr> swap_call
       (get_reg (command_env registers False swap_home ([], []) (Call swap_call))) swap_state of None \<Rightarrow> False
    | Some st' \<Rightarrow> (case exec (\<lambda>_. 0) (lines_of st') swap_mach of
        Some (Stop c u) \<Rightarrow> c = AsmCall R11 8 \<and> mreg u ''r11'' = 1 \<and> mreg u ''rdi'' = 1 \<and> mreg u ''rsi'' = 2 | _ \<Rightarrow> False)"
    by code_simp
  ultimately show ?thesis by (auto split: option.splits outcome.splits)
qed

end
