(* ===== verification/Peephole.thy ===== *)
theory Peephole
  imports CmdRefines
begin

text \<open>
  \<open>shivyc/peephole.py\<close>: the passes over the commands of one function that run before register allocation.
  A value is a number, a label its string; the literals are the table \<open>il_code.literals\<close>.  A pass that
  creates values takes them from a counter and returns the grown tables.
\<close>

section \<open>Tables over the commands\<close>

type_synonym lits = "nat \<rightharpoonup> literal"

definition input_use_counts :: "il list \<Rightarrow> nat \<Rightarrow> nat" where
  "input_use_counts cmds v = count_list (concat (map il_inputs cmds)) v"

text \<open>\<open>_lit\<close>: the texts registered as literals are decimal.\<close>

definition lit_of :: "lits \<Rightarrow> nat \<Rightarrow> int option" where
  "lit_of lits v = Option.bind (lits v) lit_int"

text \<open>\<open>{c.label_name(): i}\<close>: the last command with a label counts.\<close>

fun il_labels :: "nat \<Rightarrow> il list \<Rightarrow> string \<rightharpoonup> nat" where
  "il_labels i [] = Map.empty"
| "il_labels i (c # cs) = (case il_label c of
      None \<Rightarrow> il_labels (Suc i) cs
    | Some l \<Rightarrow> if l = [] then il_labels (Suc i) cs else [l \<mapsto> i] ++ il_labels (Suc i) cs)"

definition target_counts :: "il list \<Rightarrow> string \<Rightarrow> nat" where
  "target_counts cmds l = count_list (concat (map il_targets cmds)) l"

definition named_label :: "il \<Rightarrow> bool" where
  "named_label c = (case il_label c of None \<Rightarrow> False | Some l \<Rightarrow> l \<noteq> [])"

section \<open>Comparisons and the jump after them\<close>

definition fusable :: "types \<Rightarrow> lits \<Rightarrow> (nat \<Rightarrow> nat) \<Rightarrow> il \<Rightarrow> il \<Rightarrow> bool" where
  "fusable ty lits uses c nxt = (case c of
     Compare k out a b None \<Rightarrow>
       (case nxt of JumpZero v l \<Rightarrow> v = out | JumpNotZero v l \<Rightarrow> v = out | _ \<Rightarrow> False) \<and>
       uses out = 1 \<and> lits a = None \<and> \<not> is_floating (ty_of ty a) \<and> \<not> is_floating (ty_of ty b)
   | _ \<Rightarrow> False)"

definition fused :: "il \<Rightarrow> il \<Rightarrow> il" where
  "fused c nxt = (case c of
     Compare k out a b f \<Rightarrow>
       (case nxt of JumpZero v l \<Rightarrow> Compare k out a b (Some (l, True))
        | JumpNotZero v l \<Rightarrow> Compare k out a b (Some (l, False)) | _ \<Rightarrow> c)
   | _ \<Rightarrow> c)"

fun fuse_from :: "types \<Rightarrow> lits \<Rightarrow> (nat \<Rightarrow> nat) \<Rightarrow> il list \<Rightarrow> il list" where
  "fuse_from ty lits uses (c # nxt # cs) =
     (if fusable ty lits uses c nxt then fused c nxt # fuse_from ty lits uses cs
      else c # fuse_from ty lits uses (nxt # cs))"
| "fuse_from ty lits uses cs = cs"

definition fuse_compare_jumps :: "types \<Rightarrow> lits \<Rightarrow> il list \<Rightarrow> il list" where
  "fuse_compare_jumps ty lits cmds = fuse_from ty lits (input_use_counts cmds) cmds"

section \<open>Arithmetic identities\<close>

definition simplify_cmd :: "lits \<Rightarrow> il \<Rightarrow> il" where
  "simplify_cmd lits c = (case c of
     Arith Mult out a b \<Rightarrow>
       (if lit_of lits b = Some 1 then SetCmd out a else if lit_of lits a = Some 1 then SetCmd out b else c)
   | Arith Add out a b \<Rightarrow>
       (if lit_of lits b = Some 0 then SetCmd out a else if lit_of lits a = Some 0 then SetCmd out b else c)
   | Arith Subtr out a b \<Rightarrow> (if lit_of lits b = Some 0 then SetCmd out a else c)
   | _ \<Rightarrow> c)"

definition simplify_arith :: "lits \<Rightarrow> il list \<Rightarrow> il list" where
  "simplify_arith lits cmds = map (simplify_cmd lits) cmds"

section \<open>Loop invariants\<close>

definition hoistable :: "il \<Rightarrow> bool" where
  "hoistable c = (case c of SetCmd _ _ \<Rightarrow> True | AddrOf _ _ \<Rightarrow> True | Arith _ _ _ _ \<Rightarrow> True | NegNot _ _ _ \<Rightarrow> True
     | BitShift _ _ _ _ \<Rightarrow> True | _ \<Rightarrow> False)"

definition has_side_effects :: "il \<Rightarrow> bool" where
  "has_side_effects c = (case c of Call _ \<Rightarrow> True | SetAt _ _ \<Rightarrow> True | SetRel _ _ _ _ \<Rightarrow> True | _ \<Rightarrow> False)"

definition leaves_block :: "il \<Rightarrow> bool" where
  "leaves_block c = (case c of Jump _ \<Rightarrow> True | Return _ \<Rightarrow> True | _ \<Rightarrow> False)"

text \<open>The labels a command jumps back to.\<close>

definition back_labels :: "(string \<rightharpoonup> nat) \<Rightarrow> nat \<Rightarrow> il \<Rightarrow> string list" where
  "back_labels labels b c = filter (\<lambda>t. case labels t of None \<Rightarrow> False | Some i \<Rightarrow> i < b) (il_targets c)"

definition def_count :: "il list \<Rightarrow> nat \<Rightarrow> nat" where
  "def_count body v = count_list (concat (map il_outputs body)) v"

definition slice :: "nat \<Rightarrow> nat \<Rightarrow> il list \<Rightarrow> il list" where
  "slice i j cmds = take (j - i) (drop i cmds)"

text \<open>A loop from its label at \<open>s\<close> to the jump back at \<open>b\<close> whose invariants may move.\<close>

definition nested_back :: "(string \<rightharpoonup> nat) \<Rightarrow> il list \<Rightarrow> nat \<Rightarrow> nat \<Rightarrow> bool" where
  "nested_back labels cmds s b = list_ex (\<lambda>j. list_ex (\<lambda>t. case labels t of None \<Rightarrow> False | Some ti \<Rightarrow> ti < j) (il_targets (cmds ! j))) [s..<b]"

definition clean_loop :: "(string \<rightharpoonup> nat) \<Rightarrow> il list \<Rightarrow> string \<Rightarrow> nat \<Rightarrow> nat \<Rightarrow> bool" where
  "clean_loop labels cmds l s b =
     (s \<noteq> 0 \<and> \<not> leaves_block (cmds ! (s - 1)) \<and>
      \<not> list_ex has_side_effects (slice s (Suc b) cmds) \<and> target_counts cmds l = 1 \<and>
      \<not> nested_back labels cmds s b \<and>
      \<not> list_ex (\<lambda>c. named_label c \<or> il_targets c \<noteq> []) (slice (Suc s) b cmds))"

definition may_hoist :: "il list \<Rightarrow> il \<Rightarrow> bool" where
  "may_hoist body c =
     (hoistable c \<and> (case il_outputs c of [out] \<Rightarrow>
          def_count body out = 1 \<and> out \<notin> set (il_inputs c) \<and> list_all (\<lambda>v. def_count body v = 0) (il_inputs c)
        | _ \<Rightarrow> False))"

definition hoist_idxs :: "il list \<Rightarrow> nat \<Rightarrow> nat \<Rightarrow> nat list" where
  "hoist_idxs cmds s b = filter (\<lambda>j. may_hoist (slice s (Suc b) cmds) (cmds ! j)) [Suc s..<b]"

text \<open>The commands at \<open>idxs\<close> move in front of the \<open>s\<close>-th.\<close>

definition move_before :: "nat \<Rightarrow> nat list \<Rightarrow> il list \<Rightarrow> il list" where
  "move_before s idxs cmds =
     concat (map (\<lambda>i. (if i = s then map ((!) cmds) idxs else []) @ (if i \<in> set idxs then [] else [cmds ! i])) [0..<length cmds])"

definition hoist_at :: "il list \<Rightarrow> nat \<Rightarrow> il list option" where
  "hoist_at cmds b =
     (let labels = il_labels 0 cmds in
      case back_labels labels b (cmds ! b) of
        [] \<Rightarrow> None
      | l # _ \<Rightarrow> (let s = the (labels l); idxs = hoist_idxs cmds s b in
          if clean_loop labels cmds l s b \<and> idxs \<noteq> [] then Some (move_before s idxs cmds) else None))"

text \<open>The first jump back with something to hoist, then again from the start.\<close>

fun first_some :: "('a \<Rightarrow> 'b option) \<Rightarrow> 'a list \<Rightarrow> 'b option" where
  "first_some f [] = None"
| "first_some f (x # xs) = (case f x of None \<Rightarrow> first_some f xs | Some y \<Rightarrow> Some y)"

fun hoist_loop :: "nat \<Rightarrow> il list \<Rightarrow> il list" where
  "hoist_loop 0 cmds = cmds"
| "hoist_loop (Suc g) cmds = (case first_some (hoist_at cmds) [0..<length cmds] of
      None \<Rightarrow> cmds | Some cmds' \<Rightarrow> hoist_loop g cmds')"

definition hoist_loop_invariants :: "il list \<Rightarrow> il list" where
  "hoist_loop_invariants cmds = hoist_loop 20 cmds"

section \<open>Strength reduction\<close>

text \<open>No label between the head and the jump back, and no jump into the loop other than that one.\<close>

definition single_block_loop_range :: "il list \<Rightarrow> nat \<Rightarrow> nat \<Rightarrow> (string \<rightharpoonup> nat) \<Rightarrow> bool" where
  "single_block_loop_range cmds s b labels =
     (\<not> list_ex (\<lambda>j. il_label (cmds ! j) \<noteq> None) [Suc s..<Suc b] \<and>
      \<not> list_ex (\<lambda>j. list_ex (\<lambda>t. case labels t of None \<Rightarrow> False | Some ti \<Rightarrow> s \<le> ti \<and> ti \<le> b) (il_targets (cmds ! j))) [Suc s..<b])"

text \<open>\<open>def_of\<close>: the last command of the body that writes a value, as an index into the function.\<close>

definition def_of :: "il list \<Rightarrow> nat \<Rightarrow> nat \<Rightarrow> nat \<rightharpoonup> nat" where
  "def_of cmds s b = fold (\<lambda>i m. fold (\<lambda>v m. m(v \<mapsto> i)) (il_outputs (cmds ! i)) m) [Suc s..<b] Map.empty"

record loop_info =
  li_cmds :: "il list"
  li_lits :: lits
  li_def :: "nat \<rightharpoonup> nat"
  li_ivs :: "nat \<rightharpoonup> int"

text \<open>\<open>_trace_stride\<close>: the pair it returns and the chain it has extended.  The depth limit of 12 is the first
  argument, counted down from 13; every value defined in the body has its definition there.
  Without a stepped value no scale is different from 0.\<close>

fun trace_stride :: "nat \<Rightarrow> loop_info \<Rightarrow> nat \<Rightarrow> nat list \<Rightarrow> (nat \<times> int) option \<times> nat list" where
  "trace_stride 0 li av chain = (None, chain)"
| "trace_stride (Suc d) li av chain =
     (if li_ivs li av \<noteq> None then (Some (av, 1), chain)
      else case li_def li av of
        None \<Rightarrow> (Some (av, 0), chain)
      | Some idx \<Rightarrow>
        (let chain = chain @ [idx] in
         case li_cmds li ! idx of
           SetCmd out a \<Rightarrow> trace_stride d li a chain
         | Arith op out x y \<Rightarrow>
             (if op = Add \<or> op = Subtr then
                (let (ra, chain) = trace_stride d li x chain; (rb, chain) = trace_stride d li y chain in
                 (case (ra, rb) of
                    (Some (iva, sa), Some (ivb, sb)) \<Rightarrow>
                      (if sa \<noteq> 0 \<and> sb \<noteq> 0 then None
                       else (let sb = (if op = Subtr then - sb else sb) in
                         if sa \<noteq> 0 then Some (iva, sa) else if sb \<noteq> 0 then Some (ivb, sb) else Some (iva, 0)))
                  | _ \<Rightarrow> None, chain))
              else if op = Mult then
                (case (lit_of (li_lits li) x, lit_of (li_lits li) y) of
                   (_, Some lb) \<Rightarrow> (let (r, chain) = trace_stride d li x chain in
                     (case r of Some (iv, sc) \<Rightarrow> if sc = 0 then None else Some (iv, sc * lb) | None \<Rightarrow> None, chain))
                 | (Some la, None) \<Rightarrow> (let (r, chain) = trace_stride d li y chain in
                     (case r of Some (iv, sc) \<Rightarrow> if sc = 0 then None else Some (iv, sc * la) | None \<Rightarrow> None, chain))
                 | (None, None) \<Rightarrow> (None, chain))
              else (None, chain))
         | _ \<Rightarrow> (None, chain)))"

text \<open>Values stepped once per round by \<open>t = iv + c; iv = t\<close>.\<close>

definition iv_step :: "il list \<Rightarrow> lits \<Rightarrow> nat \<Rightarrow> nat \<Rightarrow> il \<Rightarrow> (nat \<rightharpoonup> int) \<Rightarrow> (nat \<rightharpoonup> int)" where
  "iv_step cmds lits s b c ivs = (case c of
     SetCmd iv t \<Rightarrow>
       (if def_count (slice (Suc s) b cmds) iv \<noteq> 1 then ivs
        else case def_of cmds s b t of None \<Rightarrow> ivs
        | Some i \<Rightarrow> (case cmds ! i of
            Arith Add out x y \<Rightarrow>
              (case (if x = iv \<and> lit_of lits y \<noteq> None then lit_of lits y
                     else if y = iv \<and> lit_of lits x \<noteq> None then lit_of lits x else None) of
                 None \<Rightarrow> ivs | Some inc \<Rightarrow> ivs(iv \<mapsto> inc))
          | _ \<Rightarrow> ivs))
   | _ \<Rightarrow> ivs)"

definition basic_ivs :: "il list \<Rightarrow> lits \<Rightarrow> nat \<Rightarrow> nat \<Rightarrow> nat \<rightharpoonup> int" where
  "basic_ivs cmds lits s b = fold (iv_step cmds lits s b) (slice (Suc s) b cmds) Map.empty"

text \<open>The first access of the body whose address is linear in a stepped value: the address, its stride and
  the commands that compute it.\<close>

definition reducible :: "il list \<Rightarrow> lits \<Rightarrow> nat \<Rightarrow> nat \<Rightarrow> (nat \<rightharpoonup> int) \<Rightarrow> il \<Rightarrow> (nat \<times> int \<times> nat list) option" where
  "reducible cmds lits s b ivs c =
     (case (case c of ReadAt out a \<Rightarrow> Some a | SetAt a v \<Rightarrow> Some a | _ \<Rightarrow> None) of
        None \<Rightarrow> None
      | Some av \<Rightarrow>
        (if def_count (slice (Suc s) b cmds) av \<noteq> 1 then None
         else let li = \<lparr>li_cmds = cmds, li_lits = lits, li_def = def_of cmds s b, li_ivs = ivs\<rparr>;
                  (res, chain) = trace_stride 13 li av [] in
           case res of None \<Rightarrow> None
           | Some (iv, scale) \<Rightarrow>
             (if scale = 0 then None
              else let idxs = sort (remdups chain); outs = concat (map (\<lambda>i. il_outputs (cmds ! i)) idxs) in
                case def_of cmds s b iv of None \<Rightarrow> None
                | Some u \<Rightarrow>
                  (if list_all (\<lambda>i. i < u) idxs \<and> list_all (\<lambda>o'. o' = av \<or> input_use_counts cmds o' = 1) outs \<and>
                      input_use_counts cmds av = 1
                   then Some (av, scale * the (ivs iv), idxs) else None))))"

text \<open>What the pass may extend: the literals, the types and the next free value.\<close>

record il_tables =
  it_lits :: lits
  it_types :: types
  it_next :: nat

definition new_value :: "ctype \<Rightarrow> il_tables \<Rightarrow> nat \<times> il_tables" where
  "new_value t T = (it_next T, T\<lparr>it_types := (it_types T)\<lparr>ty_of := (ty_of (it_types T))(it_next T := t)\<rparr>, it_next := Suc (it_next T)\<rparr>)"

definition register_literal_var :: "nat \<Rightarrow> literal \<Rightarrow> il_tables \<Rightarrow> il_tables" where
  "register_literal_var v l T = T\<lparr>it_lits := (it_lits T)(v \<mapsto> l)\<rparr>"

definition reduce_commands :: "il list \<Rightarrow> nat \<Rightarrow> nat \<Rightarrow> nat list \<Rightarrow> il list \<Rightarrow> il list" where
  "reduce_commands cmds s b idxs advance =
     concat (map (\<lambda>i. if i = s then map ((!) cmds) idxs @ [cmds ! i]
                      else if i \<in> set idxs then [] else (if i = b then advance else []) @ [cmds ! i]) [0..<length cmds])"

definition reduce_at :: "il list \<Rightarrow> il_tables \<Rightarrow> nat \<Rightarrow> (il list \<times> il_tables) option" where
  "reduce_at cmds T b =
     (let labels = il_labels 0 cmds; lits = it_lits T in
      case back_labels labels b (cmds ! b) of
        [] \<Rightarrow> None
      | l # _ \<Rightarrow> (let s = the (labels l); ivs = basic_ivs cmds lits s b in
          if target_counts cmds l \<noteq> 1 \<or> \<not> single_block_loop_range cmds s b labels then None
          else case first_some (reducible cmds lits s b ivs) (slice (Suc s) b cmds) of
            None \<Rightarrow> None
          | Some (av, stride, idxs) \<Rightarrow>
            (let (sv, T) = new_value longint T; T = register_literal_var sv (LStr (int_str stride)) T;
                 (adv, T) = new_value (ty_of (it_types T) av) T in
             Some (reduce_commands cmds s b idxs [Arith Add adv av sv, SetCmd av adv], T))))"

fun reduce_loop :: "nat \<Rightarrow> il list \<times> il_tables \<Rightarrow> il list \<times> il_tables" where
  "reduce_loop 0 st = st"
| "reduce_loop (Suc g) (cmds, T) = (case first_some (reduce_at cmds T) [0..<length cmds] of
      None \<Rightarrow> (cmds, T) | Some st \<Rightarrow> reduce_loop g st)"

definition strength_reduce_ivs :: "il list \<Rightarrow> il_tables \<Rightarrow> il list \<times> il_tables" where
  "strength_reduce_ivs cmds T = reduce_loop 20 (cmds, T)"

section \<open>All passes\<close>

definition optimize :: "il list \<Rightarrow> il_tables \<Rightarrow> il list \<times> il_tables" where
  "optimize cmds T =
     (let (cmds, T) = strength_reduce_ivs (hoist_loop_invariants (simplify_arith (it_lits T) cmds)) T in
      (fuse_compare_jumps (it_types T) (it_lits T) cmds, T))"

end
