(* ===== verification/PeepholeSound.thy ===== *)
theory PeepholeSound
  imports Peephole
begin

unbundle bit_operations_syntax

text \<open>
  What the passes of the peephole optimizer keep: a run of the commands of a function, with its jumps, and
  the proof that the arithmetic identities and the fusion of comparisons with jumps change no result.
  The two loop passes are not right for every function the front end emits.
\<close>

section \<open>Running commands\<close>

text \<open>A state is the values the commands have assigned and the rest of the world.  What an access through a pointer
  or a call does to the world is a parameter, given the values of the command's inputs.  Commands on the storage of
  a named object have no meaning here.\<close>

type_synonym env = "nat \<Rightarrow> 64 word"
type_synonym 'w effects = "il \<Rightarrow> 64 word list \<Rightarrow> 'w \<Rightarrow> (64 word list \<times> 'w) option"

definition write_all :: "types \<Rightarrow> nat list \<Rightarrow> 64 word list \<Rightarrow> env \<Rightarrow> env" where
  "write_all ty outs vs E = fold (\<lambda>(v, x) E. E(v := take_bit (8 * isize ty v) x)) (zip outs vs) E"

definition il_next :: "types \<Rightarrow> (spot \<Rightarrow> 64 word) \<Rightarrow> 'w effects \<Rightarrow> il \<Rightarrow> env \<Rightarrow> 'w \<Rightarrow> (env \<times> 'w \<times> string option) option" where
  "il_next ty A X c E w = (case c of
     Label l \<Rightarrow> Some (E, w, None)
   | Jump l \<Rightarrow> Some (E, w, Some l)
   | JumpZero a l \<Rightarrow> Some (E, w, if E a = 0 then Some l else None)
   | JumpNotZero a l \<Rightarrow> Some (E, w, if E a \<noteq> 0 then Some l else None)
   | Compare k out a b (Some (l, neg)) \<Rightarrow>
       Some (E, w, if cmp_val k (unsigned_cmp (ty_of ty a)) (isize ty a) (E a) (E b) \<noteq> neg then Some l else None)
   | ReadAt out a \<Rightarrow> map_option (\<lambda>(vs, w'). (write_all ty (il_outputs c) vs E, w', None)) (X c (map E (il_inputs c)) w)
   | SetAt a v \<Rightarrow> map_option (\<lambda>(vs, w'). (write_all ty (il_outputs c) vs E, w', None)) (X c (map E (il_inputs c)) w)
   | Call k \<Rightarrow> map_option (\<lambda>(vs, w'). (write_all ty (il_outputs c) vs E, w', None)) (X c (map E (il_inputs c)) w)
   | _ \<Rightarrow> map_option (\<lambda>(v, x). (E(v := x), w, None)) (il_value ty A c E))"

definition after_il :: "string \<Rightarrow> il list \<Rightarrow> il list option" where
  "after_il l cs = (case dropWhile (\<lambda>c. il_label c \<noteq> Some l) cs of [] \<Rightarrow> None | c # rest \<Rightarrow> Some rest)"

inductive il_returns :: "types \<Rightarrow> (spot \<Rightarrow> 64 word) \<Rightarrow> 'w effects \<Rightarrow> il list \<Rightarrow> il list \<Rightarrow> env \<Rightarrow> 'w \<Rightarrow> 64 word option \<times> 'w \<Rightarrow> bool"
  for ty A X P where
  ret: "il_returns ty A X P (Return r # cs) E w (map_option E r, w)"
| go: "il_next ty A X c E w = Some (E', w', None) \<Longrightarrow> il_returns ty A X P cs E' w' res \<Longrightarrow> il_returns ty A X P (c # cs) E w res"
| jump: "il_next ty A X c E w = Some (E', w', Some l) \<Longrightarrow> after_il l P = Some rest \<Longrightarrow> il_returns ty A X P rest E' w' res \<Longrightarrow>
    il_returns ty A X P (c # cs) E w res"

inductive_cases il_returnsE: "il_returns ty A X P (c # cs) E w res"
inductive_simps il_returns_step: "il_returns ty A X P (c # cs) E w res"
inductive_simps il_returns_Nil: "il_returns ty A X P [] E w res"

lemma il_next_Return [simp]: "il_next ty A X (Return r) E w = None"
  by (simp add: il_next_def il_value_def)

section \<open>Commands read only their inputs\<close>

definition agree :: "nat set \<Rightarrow> env \<Rightarrow> env \<Rightarrow> bool" where
  "agree D E E' = (\<forall>v. v \<notin> D \<longrightarrow> E v = E' v)"

lemma agree_upd: "agree D E E' \<Longrightarrow> agree D (E(v := x)) (E'(v := x))"
  by (simp add: agree_def)

lemma agree_assign: "agree D E E' \<Longrightarrow> agree D (write_all ty outs vs E) (write_all ty outs vs E')"
proof -
  have "agree D E E' \<Longrightarrow> agree D (fold (\<lambda>(v, x) E. E(v := take_bit (8 * isize ty v) x)) ps E) (fold (\<lambda>(v, x) E. E(v := take_bit (8 * isize ty v) x)) ps E')" for ps
    by (induction ps arbitrary: E E') (auto simp: agree_upd)
  then show "agree D E E' \<Longrightarrow> ?thesis" by (simp add: write_all_def)
qed

lemma il_value_inputs: "(\<And>a. a \<in> set (il_inputs c) \<Longrightarrow> E a = E' a) \<Longrightarrow> il_value ty A c E = il_value ty A c E'"
  by (cases c) (simp_all add: il_value_def il_inputs_def split: option.split)

lemma il_next_agree:
  assumes "agree D E E'" "set (il_inputs c) \<inter> D = {}" "il_next ty A X c E w = Some (E1, w1, j)"
  shows "\<exists>E1'. il_next ty A X c E' w = Some (E1', w1, j) \<and> agree D E1 E1'"
proof -
  have e: "E a = E' a" if "a \<in> set (il_inputs c)" for a using assms(1,2) that by (auto simp: agree_def)
  then have m: "X c (map E (il_inputs c)) w = X c (map E' (il_inputs c)) w" by (metis map_cong)
  note v = il_value_inputs [of c E E' ty A, OF e]
  show ?thesis
  proof (cases c)
    case (Compare k out a b f)
    then have "E a = E' a" "E b = E' b" using e by (simp_all add: il_inputs_def)
    then show ?thesis using assms(1,3) v Compare by (cases f) (auto simp: il_next_def agree_upd)
  next
    case (JumpZero a l)
    then have "E a = E' a" using e by (simp add: il_inputs_def)
    then show ?thesis using assms(1,3) JumpZero by (auto simp: il_next_def)
  next
    case (JumpNotZero a l)
    then have "E a = E' a" using e by (simp add: il_inputs_def)
    then show ?thesis using assms(1,3) JumpNotZero by (auto simp: il_next_def)
  qed (use assms(1,3) v m in \<open>auto simp: il_next_def agree_upd agree_assign\<close>)
qed

section \<open>Fusion\<close>

definition aligned :: "types \<Rightarrow> lits \<Rightarrow> il list \<Rightarrow> il list \<Rightarrow> bool" where
  "aligned ty lits P rest = (\<exists>pre. P = pre @ rest \<and>
     (pre \<noteq> [] \<longrightarrow> rest \<noteq> [] \<longrightarrow> \<not> fusable ty lits (input_use_counts P) (last pre) (hd rest)))"

text \<open>The values a fused comparison no longer computes.\<close>

definition fused_outs :: "types \<Rightarrow> lits \<Rightarrow> il list \<Rightarrow> nat set" where
  "fused_outs ty lits P = {out. \<exists>pre k a b nxt post. P = pre @ Compare k out a b None # nxt # post \<and>
     fusable ty lits (input_use_counts P) (Compare k out a b None) nxt}"

lemma fusableD:
  assumes "fusable ty lits uses c nxt"
  shows "\<exists>k out a b l. c = Compare k out a b None \<and> (nxt = JumpZero out l \<or> nxt = JumpNotZero out l) \<and> uses out = 1"
  using assms by (auto simp: fusable_def split: il.splits option.splits)

lemma single_use:
  assumes "count_list (concat (map f xs)) v = 1" "i < length xs" "j < length xs" "v \<in> set (f (xs ! i))" "v \<in> set (f (xs ! j))"
  shows "i = j"
proof -
  have less: False if ij: "i < j" "j < length xs" "v \<in> set (f (xs ! i))" "v \<in> set (f (xs ! j))" for i j
  proof -
    have "xs = take i xs @ xs ! i # drop (Suc i) xs" using ij by (simp add: id_take_nth_drop)
    then have s: "count_list (concat (map f xs)) v =
        count_list (concat (map f (take i xs))) v + (count_list (f (xs ! i)) v + count_list (concat (map f (drop (Suc i) xs))) v)"
      by (metis (no_types, lifting) concat.simps(2) concat_append count_list_append list.simps(9) map_append)
    have "drop (Suc i) xs ! (j - Suc i) = xs ! j" "j - Suc i < length (drop (Suc i) xs)" using ij by simp_all
    then have "xs ! j \<in> set (drop (Suc i) xs)" by (metis nth_mem)
    then have "v \<in> set (concat (map f (drop (Suc i) xs)))" using ij(4) by auto
    then have "count_list (concat (map f (drop (Suc i) xs))) v \<noteq> 0" "count_list (f (xs ! i)) v \<noteq> 0"
      using ij(3) unfolding count_list_0_iff by auto
    then have "2 \<le> count_list (concat (map f xs)) v" unfolding s by linarith
    then show False using assms(1) by simp
  qed
  show ?thesis using less [of i j] less [of j i] assms by (metis linorder_neqE_nat)
qed


lemma aligned_reads:
  assumes "aligned ty lits P (x # cs)" shows "set (il_inputs x) \<inter> fused_outs ty lits P = {}"
proof (rule ccontr)
  let ?f = "fusable ty lits (input_use_counts P)"
  assume "set (il_inputs x) \<inter> fused_outs ty lits P \<noteq> {}"
  then obtain out pre k a b nxt post where out: "out \<in> set (il_inputs x)" "P = pre @ Compare k out a b None # nxt # post" "?f (Compare k out a b None) nxt"
    unfolding fused_outs_def by blast
  obtain pre' where p: "P = pre' @ x # cs" "pre' \<noteq> [] \<Longrightarrow> \<not> ?f (last pre') x" using assms by (auto simp: aligned_def)
  have nxt: "out \<in> set (il_inputs nxt)" "count_list (concat (map il_inputs P)) out = 1"
    using fusableD [OF out(3)] by (auto simp: il_inputs_def input_use_counts_def)
  have i: "P ! length pre' = x" "length pre' < length P" by (simp_all add: p(1))
  have j: "P ! Suc (length pre) = nxt" "Suc (length pre) < length P" "P ! length pre = Compare k out a b None"
    by (simp_all add: out(2) nth_append)
  have e: "length pre' = Suc (length pre)"
    by (rule single_use [OF nxt(2) i(2) j(2)]) (simp_all add: i(1) j(1) out(1) nxt(1))
  then have "pre' \<noteq> []" by auto
  moreover have "last pre' = pre' ! length pre" using e \<open>pre' \<noteq> []\<close> by (simp add: last_conv_nth)
  then have "last pre' = P ! length pre" using e by (simp add: p(1) nth_append)
  moreover have "x = nxt" using i(1) j(1) e by simp
  ultimately show False using p(2) out(3) j(3) by simp
qed

lemma aligned_start: "aligned ty lits P P"
  by (auto simp: aligned_def)

lemma aligned_skip: "aligned ty lits P (c # nxt # cs) \<Longrightarrow> \<not> fusable ty lits (input_use_counts P) c nxt \<Longrightarrow> aligned ty lits P (nxt # cs)"
  unfolding aligned_def
proof (elim exE conjE)
  fix pre assume "P = pre @ c # nxt # cs" "\<not> fusable ty lits (input_use_counts P) c nxt"
  then show "\<exists>pre. P = pre @ nxt # cs \<and> (pre \<noteq> [] \<longrightarrow> nxt # cs \<noteq> [] \<longrightarrow> \<not> fusable ty lits (input_use_counts P) (last pre) (hd (nxt # cs)))"
    by (intro exI [of _ "pre @ [c]"]) simp
qed

lemma aligned_tail: "aligned ty lits P (c # cs) \<Longrightarrow> (\<forall>nxt. \<not> fusable ty lits (input_use_counts P) c nxt) \<Longrightarrow> aligned ty lits P cs"
  unfolding aligned_def
proof (elim exE conjE)
  fix pre assume "P = pre @ c # cs" "\<forall>nxt. \<not> fusable ty lits (input_use_counts P) c nxt"
  then show "\<exists>pre. P = pre @ cs \<and> (pre \<noteq> [] \<longrightarrow> cs \<noteq> [] \<longrightarrow> \<not> fusable ty lits (input_use_counts P) (last pre) (hd cs))"
    by (intro exI [of _ "pre @ [c]"]) simp
qed

lemma aligned_pair: "aligned ty lits P (c # nxt # cs) \<Longrightarrow> fusable ty lits (input_use_counts P) c nxt \<Longrightarrow> aligned ty lits P cs"
proof -
  assume a: "aligned ty lits P (c # nxt # cs)" and f: "fusable ty lits (input_use_counts P) c nxt"
  obtain pre where p: "P = pre @ c # nxt # cs" using a by (auto simp: aligned_def)
  have "\<not> fusable ty lits (input_use_counts P) nxt x" for x using fusableD [OF f] by (auto simp: fusable_def)
  then show ?thesis unfolding aligned_def using p by (intro exI [of _ "pre @ [c, nxt]"]) simp
qed

lemma after_il_Some: "after_il l cs = Some rest \<longleftrightarrow> (\<exists>pre. cs = pre @ Label l # rest \<and> (\<forall>c \<in> set pre. il_label c \<noteq> Some l))"
proof -
  have lab: "il_label c = Some l \<longleftrightarrow> c = Label l" for c by (auto simp: il_label_def split: il.splits)
  show ?thesis
  proof (induction cs)
    case (Cons c cs)
    then show ?case
    proof (cases "c = Label l")
      case True
      then show ?thesis by (auto simp: after_il_def il_label_def Cons_eq_append_conv)
    next
      case False
      then have "after_il l (c # cs) = after_il l cs" using lab [of c] by (simp add: after_il_def)
      then show ?thesis using Cons.IH False lab [of c] by (auto simp: Cons_eq_append_conv)
    qed
  qed (simp add: after_il_def)
qed

lemma aligned_after: "after_il l P = Some rest \<Longrightarrow> aligned ty lits P rest"
proof -
  assume "after_il l P = Some rest"
  then obtain pre where "P = pre @ Label l # rest" unfolding after_il_Some by blast
  moreover have "\<not> fusable ty lits (input_use_counts P) (Label l) x" for x by (simp add: fusable_def)
  ultimately show ?thesis unfolding aligned_def by (intro exI [of _ "pre @ [Label l]"]) simp
qed

text \<open>A label is where it was.\<close>

lemma after_il_fuse: "after_il l (fuse_from ty lits uses cs) = map_option (fuse_from ty lits uses) (after_il l cs)"
proof (induction ty lits uses cs rule: fuse_from.induct)
  case (1 ty lits uses c nxt cs)
  show ?case
  proof (cases "fusable ty lits uses c nxt")
    case True
    obtain k out a b m where c: "c = Compare k out a b None" "nxt = JumpZero out m \<or> nxt = JumpNotZero out m" using fusableD [OF True] by blast
    then have "il_label (fused c nxt) = None" "il_label c = None" "il_label nxt = None" by (auto simp: fused_def il_label_def)
    then show ?thesis using 1(1) [OF True] True by (simp add: after_il_def)
  next
    case False
    then show ?thesis using 1(2) [OF False] by (cases "il_label c = Some l") (simp_all add: after_il_def)
  qed
qed (auto simp: after_il_def)

lemma fuse_from_Cons: "fuse_from ty lits uses (c # cs) =
    (if cs \<noteq> [] \<and> fusable ty lits uses c (hd cs) then fused c (hd cs) # fuse_from ty lits uses (tl cs) else c # fuse_from ty lits uses cs)"
  by (cases cs) simp_all

lemma aligned_next:
  assumes "aligned ty lits P (c # cs)" "\<not> (cs \<noteq> [] \<and> fusable ty lits (input_use_counts P) c (hd cs))"
  shows "aligned ty lits P cs"
  using assms aligned_skip [of ty lits P c "hd cs" "tl cs"] by (cases cs) (auto simp: aligned_def)

lemma agree_sym: "agree D E E' \<Longrightarrow> agree D E' E" by (simp add: agree_def)

text \<open>The two steps of a pair and the one step of the fused comparison.\<close>

lemma fused_pair:
  assumes "fusable ty lits uses c nxt"
  shows "\<exists>k out a b. c = Compare k out a b None \<and> set (il_inputs c) = {a, b} \<and>
    il_next ty A X c E w = Some (E(out := of_bool (cmp_val k (unsigned_cmp (ty_of ty a)) (isize ty a) (E a) (E b))), w, None) \<and>
    (\<exists>j. (\<forall>E1. E1 out = of_bool (cmp_val k (unsigned_cmp (ty_of ty a)) (isize ty a) (E a) (E b)) \<longrightarrow> il_next ty A X nxt E1 w = Some (E1, w, j)) \<and>
      (\<forall>E'. E' a = E a \<longrightarrow> E' b = E b \<longrightarrow> il_next ty A X (fused c nxt) E' w = Some (E', w, j)))"
proof -
  obtain k out a b l where c: "c = Compare k out a b None" "nxt = JumpZero out l \<or> nxt = JumpNotZero out l" using fusableD [OF assms] by blast
  let ?t = "cmp_val k (unsigned_cmp (ty_of ty a)) (isize ty a) (E a) (E b)"
  have n: "il_next ty A X nxt E1 w = Some (E1, w, if (if nxt = JumpZero out l then \<not> ?t else ?t) then Some l else None)"
    if "E1 out = of_bool ?t" for E1
    using c(2) that by (auto simp: il_next_def)
  have f: "il_next ty A X (fused c nxt) E' w = Some (E', w, if (if nxt = JumpZero out l then \<not> ?t else ?t) then Some l else None)"
    if "E' a = E a" "E' b = E b" for E'
    using c(2) that by (auto simp: il_next_def fused_def c(1))
  have i: "set (il_inputs c) = {a, b}" by (simp add: c(1) il_inputs_def)
  have s: "il_next ty A X c E w = Some (E(out := of_bool ?t), w, None)" by (simp add: c(1) il_next_def il_value_def)
  show ?thesis
    by (intro exI [of _ k] exI [of _ out] exI [of _ a] exI [of _ b] conjI c(1) i s, rule exI, rule conjI, (intro allI impI, erule n), (intro allI impI, erule (1) f))
qed

lemma il_returns_goI:
  "il_next ty A X c E w = Some (E', w', j) \<Longrightarrow> (case j of None \<Rightarrow> il_returns ty A X P cs E' w' res
     | Some l \<Rightarrow> \<exists>rest. after_il l P = Some rest \<and> il_returns ty A X P rest E' w' res) \<Longrightarrow> il_returns ty A X P (c # cs) E w res"
  by (cases j) (auto intro: il_returns.go il_returns.jump)

lemma fused_out: "aligned ty lits P (Compare k out a b None # nxt # cs) \<Longrightarrow>
    fusable ty lits (input_use_counts P) (Compare k out a b None) nxt \<Longrightarrow> out \<in> fused_outs ty lits P"
  unfolding aligned_def fused_outs_def by blast

lemma fuse_forward:
  assumes "il_returns ty A X P rest E w res"
  shows "(\<forall>E'. aligned ty lits P rest \<longrightarrow> agree (fused_outs ty lits P) E E' \<longrightarrow>
      il_returns ty A X (fuse_compare_jumps ty lits P) (fuse_from ty lits (input_use_counts P) rest) E' w res) \<and>
    (\<forall>c nxt cs j E'. rest = nxt # cs \<longrightarrow> aligned ty lits P (c # nxt # cs) \<longrightarrow> fusable ty lits (input_use_counts P) c nxt \<longrightarrow>
      il_next ty A X nxt E w = Some (E, w, j) \<longrightarrow> il_next ty A X (fused c nxt) E' w = Some (E', w, j) \<longrightarrow> agree (fused_outs ty lits P) E E' \<longrightarrow>
      il_returns ty A X (fuse_compare_jumps ty lits P) (fused c nxt # fuse_from ty lits (input_use_counts P) cs) E' w res)"
  using assms
proof (induction rule: il_returns.induct)
  case (ret r cs E w)
  have "map_option E r = map_option E' r" if "aligned ty lits P (Return r # cs)" "agree (fused_outs ty lits P) E E'" for E'
    using aligned_reads [OF that(1)] that(2) by (cases r) (auto simp: il_inputs_def opt_list_def agree_def)
  moreover have "\<not> fusable ty lits (input_use_counts P) (Return r) x" for x by (simp add: fusable_def)
  ultimately show ?case by (auto simp: fuse_from_Cons intro: il_returns.ret)
next
  case (go c E w E1 w1 cs res)
  let ?D = "fused_outs ty lits P" and ?u = "input_use_counts P"
  have 1: "il_returns ty A X (fuse_compare_jumps ty lits P) (fuse_from ty lits ?u (c # cs)) E' w res"
    if al: "aligned ty lits P (c # cs)" and ag: "agree ?D E E'" for E'
  proof (cases "cs \<noteq> [] \<and> fusable ty lits ?u c (hd cs)")
    case False
    obtain E1' where "il_next ty A X c E' w = Some (E1', w1, None)" "agree ?D E1 E1'"
      using il_next_agree [OF ag aligned_reads [OF al] go(1)] by blast
    then show ?thesis using go.IH aligned_next [OF al False] False by (auto simp: fuse_from_Cons intro: il_returns.go)
  next
    case True
    then obtain nxt cs' where cs: "cs = nxt # cs'" by (cases cs) auto
    then have f: "fusable ty lits ?u c nxt" using True by simp
    obtain k out a b j where c: "c = Compare k out a b None" "set (il_inputs c) = {a, b}"
      "il_next ty A X c E w = Some (E(out := of_bool (cmp_val k (unsigned_cmp (ty_of ty a)) (isize ty a) (E a) (E b))), w, None)"
      "\<forall>E1. E1 out = of_bool (cmp_val k (unsigned_cmp (ty_of ty a)) (isize ty a) (E a) (E b)) \<longrightarrow> il_next ty A X nxt E1 w = Some (E1, w, j)"
      "\<forall>E'. E' a = E a \<longrightarrow> E' b = E b \<longrightarrow> il_next ty A X (fused c nxt) E' w = Some (E', w, j)"
      using fused_pair [OF f, of A X E w] by blast
    have E1: "E1 = E(out := of_bool (cmp_val k (unsigned_cmp (ty_of ty a)) (isize ty a) (E a) (E b)))" "w1 = w" using c(3) go(1) by simp_all
    have "out \<in> ?D" using fused_out al f by (simp add: c(1) cs)
    then have ag1: "agree ?D E1 E'" using ag by (simp add: E1 agree_def)
    have "a \<notin> ?D" "b \<notin> ?D" using aligned_reads [OF al] c(2) by blast+
    then have "E' a = E a" "E' b = E b" using ag by (simp_all add: agree_def)
    then have "il_next ty A X (fused c nxt) E' w = Some (E', w, j)" using c(5) by blast
    moreover have "il_next ty A X nxt E1 w = Some (E1, w, j)" using c(4) by (simp add: E1)
    ultimately show ?thesis using go.IH f al ag1 cs E1(2) by (simp add: fuse_from_Cons)
  qed
  have 2: "il_returns ty A X (fuse_compare_jumps ty lits P) (fused c' c # fuse_from ty lits ?u cs) E' w res"
    if "aligned ty lits P (c' # c # cs)" "fusable ty lits ?u c' c" "il_next ty A X c E w = Some (E, w, j)"
      "il_next ty A X (fused c' c) E' w = Some (E', w, j)" "agree ?D E E'" for c' j E'
  proof -
    have "j = None" "E1 = E" "w1 = w" using that(3) go(1) by simp_all
    then show ?thesis using that(4,5) go.IH aligned_pair [OF that(1,2)] by (auto intro: il_returns.go)
  qed
  show ?case using 1 2 by blast
next
  case (jump c E w E1 w1 l rest res cs)
  let ?D = "fused_outs ty lits P" and ?u = "input_use_counts P"
  have al: "aligned ty lits P rest" by (rule aligned_after [OF jump(2)])
  have af: "after_il l (fuse_compare_jumps ty lits P) = Some (fuse_from ty lits ?u rest)"
    using jump(2) by (simp add: fuse_compare_jumps_def after_il_fuse)
  have 1: "il_returns ty A X (fuse_compare_jumps ty lits P) (fuse_from ty lits ?u (c # cs)) E' w res"
    if a: "aligned ty lits P (c # cs)" and ag: "agree ?D E E'" for E'
  proof -
    have "\<not> fusable ty lits ?u c x" for x using jump(1) by (auto simp: fusable_def il_next_def il_value_def split: il.splits option.splits)
    moreover obtain E1' where "il_next ty A X c E' w = Some (E1', w1, Some l)" "agree ?D E1 E1'"
      using il_next_agree [OF ag aligned_reads [OF a] jump(1)] by blast
    ultimately show ?thesis using jump.IH al af by (auto simp: fuse_from_Cons intro: il_returns.jump)
  qed
  have 2: "il_returns ty A X (fuse_compare_jumps ty lits P) (fused c' c # fuse_from ty lits ?u cs) E' w res"
    if "aligned ty lits P (c' # c # cs)" "fusable ty lits ?u c' c" "il_next ty A X c E w = Some (E, w, j)"
      "il_next ty A X (fused c' c) E' w = Some (E', w, j)" "agree ?D E E'" for c' j E'
  proof -
    have "j = Some l" "E1 = E" "w1 = w" using that(3) jump(1) by simp_all
    then show ?thesis using that(4,5) jump.IH al af by (auto intro: il_returns.jump)
  qed
  show ?case using 1 2 by blast
qed

lemma fuse_from_shape:
  assumes "fuse_from ty lits uses rest = c' # cs'"
  shows "(\<exists>c nxt cs. rest = c # nxt # cs \<and> fusable ty lits uses c nxt \<and> c' = fused c nxt \<and> cs' = fuse_from ty lits uses cs) \<or>
    (\<exists>cs. rest = c' # cs \<and> \<not> (cs \<noteq> [] \<and> fusable ty lits uses c' (hd cs)) \<and> cs' = fuse_from ty lits uses cs)"
proof (cases rest)
  case (Cons c cs)
  then show ?thesis using assms by (cases "cs \<noteq> [] \<and> fusable ty lits uses c (hd cs)") (auto simp: fuse_from_Cons neq_Nil_conv)
qed (use assms in simp)

text \<open>What comes after a command, whether it jumps or not.\<close>

definition then_returns :: "types \<Rightarrow> (spot \<Rightarrow> 64 word) \<Rightarrow> 'w effects \<Rightarrow> il list \<Rightarrow> il list \<Rightarrow> env \<Rightarrow> 'w \<Rightarrow> string option \<Rightarrow> 64 word option \<times> 'w \<Rightarrow> bool" where
  "then_returns ty A X P cs E w j res = (case j of None \<Rightarrow> il_returns ty A X P cs E w res
     | Some l \<Rightarrow> \<exists>rest. after_il l P = Some rest \<and> il_returns ty A X P rest E w res)"

lemma il_returns_then: "il_next ty A X c E w = Some (E', w', j) \<Longrightarrow> then_returns ty A X P cs E' w' j res \<Longrightarrow> il_returns ty A X P (c # cs) E w res"
  unfolding then_returns_def by (rule il_returns_goI)

lemma fuse_back_step:
  assumes n: "il_next ty A X c' E' w = Some (E1', w1, j)" and f: "fuse_from ty lits (input_use_counts P) rest = c' # cs'"
    and al: "aligned ty lits P rest" and ag: "agree (fused_outs ty lits P) E E'"
    and on: "\<And>cs E1. cs' = fuse_from ty lits (input_use_counts P) cs \<Longrightarrow> aligned ty lits P cs \<Longrightarrow> agree (fused_outs ty lits P) E1 E1' \<Longrightarrow>
      then_returns ty A X P cs E1 w1 j res"
  shows "il_returns ty A X P rest E w res"
  using fuse_from_shape [OF f]
proof (elim disjE exE conjE)
  let ?D = "fused_outs ty lits P" and ?u = "input_use_counts P"
  fix c nxt cs assume r: "rest = c # nxt # cs" "fusable ty lits ?u c nxt" "c' = fused c nxt" "cs' = fuse_from ty lits ?u cs"
  have al': "aligned ty lits P (c # nxt # cs)" using al r(1) by simp
  obtain k out a b i where c: "c = Compare k out a b None" "set (il_inputs c) = {a, b}"
      "il_next ty A X c E w = Some (E(out := of_bool (cmp_val k (unsigned_cmp (ty_of ty a)) (isize ty a) (E a) (E b))), w, None)"
      "\<forall>E1. E1 out = of_bool (cmp_val k (unsigned_cmp (ty_of ty a)) (isize ty a) (E a) (E b)) \<longrightarrow> il_next ty A X nxt E1 w = Some (E1, w, i)"
      "\<forall>E'. E' a = E a \<longrightarrow> E' b = E b \<longrightarrow> il_next ty A X (fused c nxt) E' w = Some (E', w, i)"
    using fused_pair [OF r(2), of A X E w] by blast
  have "a \<notin> ?D" "b \<notin> ?D" using aligned_reads [OF al'] c(2) by blast+
  then have "il_next ty A X c' E' w = Some (E', w, i)" using c(5) ag r(3) by (simp add: agree_def)
  then have e: "E1' = E'" "w1 = w" "j = i" using n by simp_all
  let ?E = "E(out := of_bool (cmp_val k (unsigned_cmp (ty_of ty a)) (isize ty a) (E a) (E b)))"
  have "out \<in> ?D" using fused_out al' r(2) by (simp add: c(1))
  then have "agree ?D ?E E1'" using ag e by (simp add: agree_def)
  then have "then_returns ty A X P cs ?E w1 j res" by (rule on [OF r(4) aligned_pair [OF al' r(2)]])
  then have "il_returns ty A X P (nxt # cs) ?E w res" using c(4) e by (intro il_returns_then [of ty A X nxt ?E w ?E w j]) simp_all
  then show ?thesis unfolding r(1) by (rule il_returns.go [OF c(3)])
next
  fix cs assume r: "rest = c' # cs" "\<not> (cs \<noteq> [] \<and> fusable ty lits (input_use_counts P) c' (hd cs))" "cs' = fuse_from ty lits (input_use_counts P) cs"
  obtain E1 where E1: "il_next ty A X c' E w = Some (E1, w1, j)" "agree (fused_outs ty lits P) E1' E1"
    using il_next_agree [OF agree_sym [OF ag] aligned_reads [OF al [unfolded r(1)]] n] by blast
  show ?thesis unfolding r(1)
    by (rule il_returns_then [OF E1(1) on [OF r(3) aligned_next [OF al [unfolded r(1)] r(2)] agree_sym [OF E1(2)]]])
qed

lemma fuse_backward:
  assumes "il_returns ty A X (fuse_compare_jumps ty lits P) q E' w res"
  shows "q = fuse_from ty lits (input_use_counts P) rest \<Longrightarrow> aligned ty lits P rest \<Longrightarrow> agree (fused_outs ty lits P) E E' \<Longrightarrow>
    il_returns ty A X P rest E w res"
  using assms
proof (induction arbitrary: rest E rule: il_returns.induct)
  case (ret r cs E' w)
  have "fused c nxt \<noteq> Return r" if "fusable ty lits (input_use_counts P) c nxt" for c nxt
    using fusableD [OF that] by (auto simp: fused_def)
  then obtain cs0 where "rest = Return r # cs0" using fuse_from_shape [OF ret(1) [symmetric]] by metis
  moreover have "map_option E' r = map_option E r"
    using aligned_reads [OF ret(2) [unfolded calculation]] ret(3) by (cases r) (auto simp: il_inputs_def opt_list_def agree_def)
  ultimately show ?case by (simp add: il_returns.ret)
next
  case (go c' E' w E1' w1 cs' res)
  show ?case
    by (rule fuse_back_step [OF go(1) go(4) [symmetric] go(5,6)]) (simp add: then_returns_def go.IH)
next
  case (jump c' E' w E1' w1 l rest' res cs')
  have "after_il l (fuse_compare_jumps ty lits P) = map_option (fuse_from ty lits (input_use_counts P)) (after_il l P)"
    by (simp add: fuse_compare_jumps_def after_il_fuse)
  then obtain q where q: "after_il l P = Some q" "rest' = fuse_from ty lits (input_use_counts P) q" using jump(2) by (cases "after_il l P") auto
  show ?case
    by (rule fuse_back_step [OF jump(1) jump(5) [symmetric] jump(6,7)]) (simp add: then_returns_def q(1) jump.IH [OF q(2) aligned_after [OF q(1)]])
qed

lemma fuse_keeps_runs: "il_returns ty A X (fuse_compare_jumps ty lits P) (fuse_compare_jumps ty lits P) E w res \<longleftrightarrow> il_returns ty A X P P E w res"
proof -
  have a: "agree (fused_outs ty lits P) E E" by (simp add: agree_def)
  have F: "fuse_compare_jumps ty lits P = fuse_from ty lits (input_use_counts P) P" by (simp add: fuse_compare_jumps_def)
  show ?thesis
  proof
    assume r: "il_returns ty A X P P E w res"
    show "il_returns ty A X (fuse_compare_jumps ty lits P) (fuse_compare_jumps ty lits P) E w res"
      using fuse_forward [OF r, of lits] aligned_start a F by metis
  next
    assume "il_returns ty A X (fuse_compare_jumps ty lits P) (fuse_compare_jumps ty lits P) E w res"
    then show "il_returns ty A X P P E w res" by (rule fuse_backward [OF _ F aligned_start a])
  qed
qed

section \<open>Arithmetic identities\<close>

text \<open>Literals have their values, no command writes one, and arithmetic is on operands of the size of its result.\<close>

definition literals_hold :: "types \<Rightarrow> lits \<Rightarrow> env \<Rightarrow> bool" where
  "literals_hold ty lits E = (\<forall>v i. lit_of lits v = Some i \<longrightarrow> E v = take_bit (8 * isize ty v) (word_of_int i))"

definition typed_arith :: "types \<Rightarrow> lits \<Rightarrow> il \<Rightarrow> bool" where
  "typed_arith ty lits c = ((\<forall>v \<in> set (il_outputs c). lit_of lits v = None) \<and>
     (case c of Arith op out a b \<Rightarrow> 0 < isize ty out \<and> vsize ty a = vsize ty out \<and> vsize ty b = vsize ty out \<and> \<not> to_bool ty out | _ \<Rightarrow> True))"

lemma simplify_next:
  assumes t: "typed_arith ty lits c" and l: "literals_hold ty lits E"
  shows "il_next ty A X (simplify_cmd lits c) E w = il_next ty A X c E w"
proof (cases c)
  case (Arith op out a b)
  have n: "isize ty a = isize ty out" "isize ty b = isize ty out" "0 < isize ty out" "\<not> to_bool ty out"
    using t Arith by (simp_all add: typed_arith_def isize_def)
  have one: "E v = 1" if "lit_of lits v = Some 1" "isize ty v = isize ty out" for v
  proof -
    have "take_bit (8 * isize ty out) (1 :: 64 word) = 1"
      using n(3) by (cases "isize ty out") (simp_all add: take_bit_Suc)
    then show ?thesis using that l by (simp add: literals_hold_def)
  qed
  have zero: "E v = 0" if "lit_of lits v = Some 0" for v using that l by (simp add: literals_hold_def)
  have set: "il_value ty A (SetCmd out v) E = Some (out, take_bit (8 * isize ty out) (E v))" if "isize ty v = isize ty out" for v
    using that n(4) by (simp add: il_value_def set_val_def conv_val_def)
  have ar: "il_value ty A c E = Some (out, take_bit (8 * isize ty out) (arith_val op (E a) (E b)))" by (simp add: Arith il_value_def)
  show ?thesis
    using one [of a] one [of b] zero [of a] zero [of b] n(1,2) set [of a] set [of b] ar
    by (cases op) (simp_all add: Arith simplify_cmd_def il_next_def arith_val_def)
qed (simp_all add: simplify_cmd_def)

lemma write_all_other: "v \<notin> set outs \<Longrightarrow> write_all ty outs vs E v = E v"
proof -
  have "v \<notin> fst ` set ps \<Longrightarrow> fold (\<lambda>(v, x) E. E(v := take_bit (8 * isize ty v) x)) ps E v = E v" for ps
    by (induction ps arbitrary: E) auto
  then show "v \<notin> set outs \<Longrightarrow> ?thesis" unfolding write_all_def using set_zip_leftD [of v _ outs vs] by fastforce
qed

lemma il_value_out: "il_value ty A c E = Some (v, x) \<Longrightarrow> v \<in> set (il_outputs c) \<or> (\<exists>k a b f. c = Compare k v a b f \<and> f \<noteq> None)"
  by (cases c) (auto simp: il_value_def il_outputs_def simp del: not_None_eq split: if_splits option.splits)

lemma il_next_frame:
  assumes "il_next ty A X c E w = Some (E', w', j)" "v \<notin> set (il_outputs c)"
  shows "E' v = E v"
proof (cases "il_value ty A c E")
  case None
  then show ?thesis using assms by (cases c) (auto simp: il_next_def write_all_other split: option.splits)
next
  case (Some p)
  obtain o' x where p: "il_value ty A c E = Some (o', x)" using Some by (cases p) auto
  note il_value_out [OF p]
  then show ?thesis using assms p by (cases c) (auto simp: il_next_def write_all_other il_value_def split: option.splits)
qed

lemma literals_next:
  assumes "il_next ty A X c E w = Some (E', w', j)" "typed_arith ty lits c" "literals_hold ty lits E"
  shows "literals_hold ty lits E'"
  unfolding literals_hold_def
proof (intro allI impI)
  fix v i assume v: "lit_of lits v = Some i"
  then have "v \<notin> set (il_outputs c)" using assms(2) by (auto simp: typed_arith_def)
  then show "E' v = take_bit (8 * isize ty v) (word_of_int i)" using il_next_frame [OF assms(1)] v assms(3) by (simp add: literals_hold_def)
qed

lemma after_il_map: "after_il l (simplify_arith lits cs) = map_option (simplify_arith lits) (after_il l cs)"
proof -
  have "il_label (simplify_cmd lits c) = il_label c" for c
    by (cases c) (simp_all add: simplify_cmd_def il_label_def split: arith.split)
  then have "(\<lambda>c. il_label c \<noteq> Some l) \<circ> simplify_cmd lits = (\<lambda>c. il_label c \<noteq> Some l)" by (intro ext) simp
  then show ?thesis
    by (cases "dropWhile (\<lambda>c. il_label c \<noteq> Some l) cs") (simp_all add: after_il_def simplify_arith_def dropWhile_map del: dropWhile_eq_Nil_conv)
qed

lemma after_il_subset: "after_il l P = Some rest \<Longrightarrow> set rest \<subseteq> set P"
  by (auto simp: after_il_Some)

lemma simplify_forward:
  assumes "il_returns ty A X P rest E w res" "\<forall>c \<in> set P. typed_arith ty lits c"
  shows "set rest \<subseteq> set P \<Longrightarrow> literals_hold ty lits E \<Longrightarrow> il_returns ty A X (simplify_arith lits P) (simplify_arith lits rest) E w res"
  using assms
proof (induction rule: il_returns.induct)
  case (ret r cs E w)
  then show ?case by (simp add: simplify_arith_def simplify_cmd_def il_returns.ret)
next
  case (go c E w E' w' cs res)
  have t: "typed_arith ty lits c" using go.prems by simp
  have "il_next ty A X (simplify_cmd lits c) E w = Some (E', w', None)" using simplify_next [OF t go.prems(2), of A X w] go(1) by simp
  moreover have "il_returns ty A X (simplify_arith lits P) (simplify_arith lits cs) E' w' res"
    using go.IH go.prems literals_next [OF go(1) t] by simp
  ultimately show ?case by (simp add: simplify_arith_def il_returns.go)
next
  case (jump c E w E' w' l rest res cs)
  have t: "typed_arith ty lits c" using jump.prems by simp
  have "il_next ty A X (simplify_cmd lits c) E w = Some (E', w', Some l)" using simplify_next [OF t jump.prems(2), of A X w] jump(1) by simp
  moreover have "il_returns ty A X (simplify_arith lits P) (simplify_arith lits rest) E' w' res"
    using jump.IH jump.prems literals_next [OF jump(1) t] after_il_subset [OF jump(2)] by simp
  moreover have "after_il l (simplify_arith lits P) = Some (simplify_arith lits rest)" using jump(2) by (simp add: after_il_map)
  ultimately show ?case by (simp add: simplify_arith_def il_returns.jump)
qed

lemma simplify_backward:
  assumes "il_returns ty A X (simplify_arith lits P) q E w res" "\<forall>c \<in> set P. typed_arith ty lits c"
  shows "q = simplify_arith lits rest \<Longrightarrow> set rest \<subseteq> set P \<Longrightarrow> literals_hold ty lits E \<Longrightarrow> il_returns ty A X P rest E w res"
  using assms
proof (induction arbitrary: rest rule: il_returns.induct)
  case (ret r cs E w)
  then obtain c cs0 where r: "rest = c # cs0" "simplify_cmd lits c = Return r" by (cases rest) (auto simp: simplify_arith_def)
  then have "c = Return r" by (cases c) (auto simp: simplify_cmd_def split: arith.splits if_splits)
  then show ?case using r(1) by (simp add: il_returns.ret)
next
  case (go c' E w E' w' cs' res)
  then obtain c cs where r: "rest = c # cs" "c' = simplify_cmd lits c" "cs' = simplify_arith lits cs" by (cases rest) (auto simp: simplify_arith_def)
  have t: "typed_arith ty lits c" using go.prems r(1) by simp
  have n: "il_next ty A X c E w = Some (E', w', None)" using simplify_next [OF t go.prems(3), of A X w] go(1) r(2) by simp
  show ?case unfolding r(1) by (rule il_returns.go [OF n go.IH [OF r(3)]]) (use go.prems r(1) literals_next [OF n t] in simp_all)
next
  case (jump c' E w E' w' l rest' res cs')
  then obtain c cs where r: "rest = c # cs" "c' = simplify_cmd lits c" by (cases rest) (auto simp: simplify_arith_def)
  have t: "typed_arith ty lits c" using jump.prems r(1) by simp
  have n: "il_next ty A X c E w = Some (E', w', Some l)" using simplify_next [OF t jump.prems(3), of A X w] jump(1) r(2) by simp
  obtain q where q: "after_il l P = Some q" "rest' = simplify_arith lits q" using jump(2) unfolding after_il_map by auto
  show ?case unfolding r(1)
    by (rule il_returns.jump [OF n q(1) jump.IH [OF q(2)]]) (use jump.prems after_il_subset [OF q(1)] literals_next [OF n t] in simp_all)
qed

lemma simplify_keeps_runs:
  assumes "\<forall>c \<in> set P. typed_arith ty lits c" "literals_hold ty lits E"
  shows "il_returns ty A X (simplify_arith lits P) (simplify_arith lits P) E w res \<longleftrightarrow> il_returns ty A X P P E w res"
proof
  assume "il_returns ty A X P P E w res"
  then show "il_returns ty A X (simplify_arith lits P) (simplify_arith lits P) E w res"
    by (rule simplify_forward [OF _ assms(1) order.refl assms(2)])
next
  assume "il_returns ty A X (simplify_arith lits P) (simplify_arith lits P) E w res"
  then show "il_returns ty A X P P E w res" by (rule simplify_backward [OF _ assms(1) refl order.refl assms(2)])
qed

text \<open>C5: Of the peephole passes, the arithmetic identities and the fusion of a comparison with the jump after it
  change no run of a function: the changed function returns a value in a state of memory exactly when the
  original does, whatever its jumps, its calls and its accesses through pointers do.\<close>

theorem peephole_keeps_runs:
  fixes X :: "'w effects"
  assumes "\<forall>c \<in> set P. typed_arith ty lits c" "literals_hold ty lits E"
  shows "il_returns ty A X (fuse_compare_jumps ty lits (simplify_arith lits P)) (fuse_compare_jumps ty lits (simplify_arith lits P)) E w res \<longleftrightarrow>
    il_returns ty A X P P E w res"
  unfolding fuse_keeps_runs by (rule simplify_keeps_runs [OF assms])

section \<open>Evaluating runs\<close>

fun il_eval :: "nat \<Rightarrow> types \<Rightarrow> (spot \<Rightarrow> 64 word) \<Rightarrow> 'w effects \<Rightarrow> il list \<Rightarrow> il list \<Rightarrow> env \<Rightarrow> 'w \<Rightarrow> (64 word option \<times> 'w) option" where
  "il_eval 0 ty A X P rest E w = None"
| "il_eval (Suc n) ty A X P [] E w = None"
| "il_eval (Suc n) ty A X P (c # cs) E w = (case c of
     Return r \<Rightarrow> Some (map_option E r, w)
   | _ \<Rightarrow> (case il_next ty A X c E w of
       None \<Rightarrow> None
     | Some (E', w', None) \<Rightarrow> il_eval n ty A X P cs E' w'
     | Some (E', w', Some l) \<Rightarrow> (case after_il l P of None \<Rightarrow> None | Some rest \<Rightarrow> il_eval n ty A X P rest E' w')))"

lemma il_eval_Suc: "(\<And>r. c \<noteq> Return r) \<Longrightarrow> il_eval (Suc n) ty A X P (c # cs) E w = (case il_next ty A X c E w of None \<Rightarrow> None
    | Some (E', w', None) \<Rightarrow> il_eval n ty A X P cs E' w'
    | Some (E', w', Some l) \<Rightarrow> (case after_il l P of None \<Rightarrow> None | Some rest \<Rightarrow> il_eval n ty A X P rest E' w'))"
  by (cases c) (simp_all, metis)

lemma il_eval_returns: "il_eval n ty A X P rest E w = Some res \<Longrightarrow> il_returns ty A X P rest E w res"
proof (induction n arbitrary: rest E w)
  case (Suc n)
  obtain c cs where r: "rest = c # cs" using Suc.prems by (cases rest) simp_all
  show ?case
  proof (cases "\<exists>r. c = Return r")
    case True
    then obtain r where c: "c = Return r" by blast
    then have "res = (map_option E r, w)" using Suc.prems r by simp
    then show ?thesis unfolding r c by (simp add: il_returns.ret)
  next
    case False
    then have e: "(case il_next ty A X c E w of None \<Rightarrow> None
        | Some (E', w', None) \<Rightarrow> il_eval n ty A X P cs E' w'
        | Some (E', w', Some l) \<Rightarrow> (case after_il l P of None \<Rightarrow> None | Some rest \<Rightarrow> il_eval n ty A X P rest E' w')) = Some res"
      using Suc.prems il_eval_Suc [of c n ty A X P cs E w] r by metis
    then obtain p where p: "il_next ty A X c E w = Some p" by (cases "il_next ty A X c E w") simp_all
    obtain E' w' j where n: "il_next ty A X c E w = Some (E', w', j)" using p by (cases p) simp
    show ?thesis unfolding r
    proof (cases j)
      case None
      then show "il_returns ty A X P (c # cs) E w res" using e n Suc.IH by (intro il_returns.go [of ty A X c E w E' w']) simp_all
    next
      case (Some l)
      obtain q where q: "after_il l P = Some q" using e by (cases "after_il l P") (simp_all add: n Some)
      then show "il_returns ty A X P (c # cs) E w res" using e n Some Suc.IH by (intro il_returns.jump [of ty A X c E w E' w' l P q]) simp_all
    qed
  qed
qed simp

lemma il_returns_det: "il_returns ty A X P rest E w res \<Longrightarrow> il_returns ty A X P rest E w res' \<Longrightarrow> res' = res"
proof (induction arbitrary: res' rule: il_returns.induct)
  case (ret r cs E w)
  then show ?case by (auto elim: il_returnsE)
next
  case (go c E w E' w' cs res)
  have "c \<noteq> Return r" for r using go(1) by auto
  then have "il_returns ty A X P cs E' w' res'" using go(1,4) by (auto elim!: il_returnsE)
  then show ?case by (rule go.IH)
next
  case (jump c E w E' w' l rest res cs)
  have "c \<noteq> Return r" for r using jump(1) by auto
  then have "il_returns ty A X P rest E' w' res'" using jump(1,2,5) by (auto elim!: il_returnsE)
  then show ?case by (rule jump.IH)
qed

section \<open>An instance\<close>

text \<open>\<open>do { t = i + 1; i = t; x = i + 0; } while (x < 10); return x;\<close> from \<open>i\<close> = 8, with the literals 0, 1 and 10.\<close>

definition count_fn :: "il list" where
  "count_fn = [Label ''L'', Arith Add 2 0 1, SetCmd 0 2, Arith Add 3 0 5, Compare LessCmp 4 3 6 None, JumpNotZero 4 ''L'', Return (Some 3)]"

definition count_lits :: lits where
  "count_lits = [1 \<mapsto> LStr ''1'', 5 \<mapsto> LStr ''0'', 6 \<mapsto> LStr ''10'']"

definition count_env :: env where
  "count_env v = (if v = 0 then 8 else if v = 1 then 1 else if v = 6 then 10 else 0)"

theorem peephole_keeps_runs_witness:
  "fuse_compare_jumps sample_types count_lits (simplify_arith count_lits count_fn) =
     [Label ''L'', Arith Add 2 0 1, SetCmd 0 2, SetCmd 3 0, Compare LessCmp 4 3 6 (Some (''L'', False)), Return (Some 3)] \<and>
   il_returns sample_types (\<lambda>_. 0) (\<lambda>_ _ _. None)
     [Label ''L'', Arith Add 2 0 1, SetCmd 0 2, SetCmd 3 0, Compare LessCmp 4 3 6 (Some (''L'', False)), Return (Some 3)]
     [Label ''L'', Arith Add 2 0 1, SetCmd 0 2, SetCmd 3 0, Compare LessCmp 4 3 6 (Some (''L'', False)), Return (Some 3)]
     count_env () (Some 10, ())"
proof -
  have o: "fuse_compare_jumps sample_types count_lits (simplify_arith count_lits count_fn) =
     [Label ''L'', Arith Add 2 0 1, SetCmd 0 2, SetCmd 3 0, Compare LessCmp 4 3 6 (Some (''L'', False)), Return (Some 3)]"
    by code_simp
  have l: "lit_of count_lits v = (if v = 1 then Some 1 else if v = 5 then Some 0 else if v = 6 then Some 10 else None)" for v
  proof -
    have "lit_int (LStr ''1'') = Some 1" "lit_int (LStr ''0'') = Some 0" "lit_int (LStr ''10'') = Some 10" by code_simp+
    then show ?thesis by (simp add: lit_of_def count_lits_def)
  qed
  have "\<forall>c \<in> set count_fn. typed_arith sample_types count_lits c"
    by (simp add: count_fn_def typed_arith_def l il_outputs_def isize_def sample_ty to_bool_def) code_simp
  moreover have "literals_hold sample_types count_lits count_env"
    by (simp add: literals_hold_def l count_env_def isize_def sample_ty)
  moreover have "il_eval 20 sample_types (\<lambda>_. 0) (\<lambda>_ _ _. None) count_fn count_fn count_env () = Some (Some 10, ())" by code_simp
  ultimately show ?thesis using peephole_keeps_runs [of count_fn sample_types count_lits count_env] il_eval_returns o by metis
qed

section \<open>A loop that strength reduction changes\<close>

text \<open>\<open>int f(int *p, int n, int j) { int i = 0, s = 0; while (i < n) { s = s + p[i + j]; j = 2; i = i + 1; } return s; }\<close>
  The address of an access is traced to \<open>i\<close> through \<open>j\<close>, which the loop assigns after the access.\<close>

definition late_fn :: "il list" where
  "late_fn = [LoadArg 0 (Some RDI) None False, LoadArg 1 (Some RSI) None False, LoadArg 2 (Some RDX) None False,
     SetCmd 3 5, SetCmd 4 5, Label ''L'', Compare LessCmp 10 3 1 None, JumpZero 10 ''E'',
     Arith Add 11 3 2, SetCmd 12 11, Arith Mult 13 12 8, Arith Add 14 0 13, ReadAt 15 14, Arith Add 16 4 15, SetCmd 4 16,
     SetCmd 2 6, Arith Add 17 3 7, SetCmd 3 17, Jump ''L'', Label ''E'', Return (Some 4)]"

definition late_tables :: il_tables where
  "late_tables = \<lparr>it_lits = [5 \<mapsto> LStr ''0'', 6 \<mapsto> LStr ''2'', 7 \<mapsto> LStr ''1'', 8 \<mapsto> LStr ''4''],
     it_types = \<lparr>ty_heap = \<lambda>_. undefined, ty_of = \<lambda>v. if v = 0 \<or> v = 14 then PointerT integer_t 8 False else if v = 8 \<or> v = 12 \<or> v = 13 then longint else integer_t\<rparr>,
     it_next = 18\<rparr>"

definition late_env :: env where
  "late_env v = (if v = 6 then 2 else if v = 7 then 1 else if v = 8 \<or> v = 18 then 4 else 0)"

definition late_args :: "spot \<Rightarrow> 64 word" where
  "late_args r = (if r = RDI then 4096 else if r = RSI then 2 else 0)"

text \<open>A memory that is only read.\<close>

definition reads :: "(64 word \<Rightarrow> 64 word) effects" where
  "reads c vs mem = (case (c, vs) of (ReadAt _ _, [a]) \<Rightarrow> Some ([mem a], mem) | _ \<Rightarrow> None)"

definition late_mem :: "64 word \<Rightarrow> 64 word" where
  "late_mem a = (if a = 4096 then 10 else if a = 4100 then 20 else if a = 4108 then 40 else 0)"

definition late_reduced :: "il list" where
  "late_reduced = [LoadArg 0 (Some RDI) None False, LoadArg 1 (Some RSI) None False, LoadArg 2 (Some RDX) None False,
     SetCmd 3 5, SetCmd 4 5, Arith Add 11 3 2, SetCmd 12 11, Arith Mult 13 12 8, Arith Add 14 0 13, SetCmd 2 6,
     Label ''L'', Compare LessCmp 10 3 1 None, JumpZero 10 ''E'', ReadAt 15 14, Arith Add 16 4 15, SetCmd 4 16, Arith Add 17 3 7,
     SetCmd 3 17, Arith Add 19 14 18, SetCmd 14 19, Jump ''L'', Label ''E'', Return (Some 4)]"

definition late_after :: il_tables where
  "late_after = snd (new_value (PointerT integer_t 8 False) (register_literal_var 18 (LStr ''4'') (snd (new_value longint late_tables))))"

lemma first_some_skip: "list_all (\<lambda>x. Option.is_none (f x)) xs \<Longrightarrow> first_some f (xs @ ys) = first_some f ys"
  by (induction xs) (auto split: option.split)

lemma late_reduce_at: "reduce_at late_fn late_tables 18 = Some (late_reduced, late_after)"
proof -
  have "back_labels (il_labels 0 late_fn) 18 (late_fn ! 18) = [''L'']" "il_labels 0 late_fn ''L'' = Some 5" "target_counts late_fn ''L'' = 1"
    "single_block_loop_range late_fn 5 18 (il_labels 0 late_fn)" by code_simp+
  moreover have "first_some (reducible late_fn (it_lits late_tables) 5 18 (basic_ivs late_fn (it_lits late_tables) 5 18)) (slice (Suc 5) 18 late_fn) =
      Some (14, 4, [8, 9, 10, 11, 15])" by code_simp
  moreover have "reduce_commands late_fn 5 18 [8, 9, 10, 11, 15] [Arith Add 19 14 18, SetCmd 14 19] = late_reduced" by code_simp
  moreover have "int_str 4 = ''4''" by code_simp
  ultimately show ?thesis
    by (simp add: reduce_at_def Let_def new_value_def register_literal_var_def late_after_def late_tables_def)
qed

lemma late_optimized: "optimize late_fn late_tables = (fuse_compare_jumps (it_types late_after) (it_lits late_after) late_reduced, late_after)"
proof -
  have h: "hoist_loop_invariants (simplify_arith (it_lits late_tables) late_fn) = late_fn" by code_simp
  have "list_all (\<lambda>b. Option.is_none (reduce_at late_fn late_tables b)) [0..<18]" by code_simp
  moreover have "[0..<length late_fn] = [0..<18] @ 18 # [19, 20]" by code_simp
  ultimately have 1: "first_some (reduce_at late_fn late_tables) [0..<length late_fn] = Some (late_reduced, late_after)"
    by (simp only: first_some_skip first_some.simps late_reduce_at option.case)
  have "list_all (\<lambda>b. Option.is_none (reduce_at late_reduced late_after b)) [0..<length late_reduced]" by code_simp
  then have 2: "first_some (reduce_at late_reduced late_after) [0..<length late_reduced] = None"
    using first_some_skip [of "reduce_at late_reduced late_after" "[0..<length late_reduced]" "[]"] by simp
  have "reduce_loop (Suc (Suc n)) (late_fn, late_tables) = (late_reduced, late_after)" for n by (simp add: 1 2)
  moreover have "(20 :: nat) = Suc (Suc 18)" by simp
  ultimately have "strength_reduce_ivs late_fn late_tables = (late_reduced, late_after)" unfolding strength_reduce_ivs_def by metis
  then show ?thesis by (simp add: optimize_def h)
qed

lemma late_runs:
  "map_option fst (il_eval 60 (it_types late_tables) late_args reads late_fn late_fn late_env late_mem) = Some (Some 50)"
  "map_option fst (il_eval 60 (it_types late_after) late_args reads (fuse_compare_jumps (it_types late_after) (it_lits late_after) late_reduced)
     (fuse_compare_jumps (it_types late_after) (it_lits late_after) late_reduced) late_env late_mem) = Some (Some 30)"
  by code_simp+

text \<open>C39: Strength reduction changes what a loop computes: it traces an address through a value the loop assigns only
  after the access and moves that assignment out of the loop.  For a plain \<open>while\<close> loop over an array the
  commands return 50 and the commands \<open>optimize\<close> leaves return 30.\<close>

theorem strength_reduction_changes_a_loop:
  "\<exists>P T. optimize late_fn late_tables = (P, T) \<and> (\<exists>m. il_returns (it_types late_tables) late_args reads late_fn late_fn late_env late_mem (Some 50, m)) \<and>
     (\<exists>m. il_returns (it_types T) late_args reads P P late_env late_mem (Some 30, m)) \<and>
     \<not> (\<exists>m. il_returns (it_types T) late_args reads P P late_env late_mem (Some 50, m))"
proof -
  obtain P T where o: "optimize late_fn late_tables = (P, T)" by (cases "optimize late_fn late_tables")
  obtain m where a: "il_returns (it_types late_tables) late_args reads late_fn late_fn late_env late_mem (Some 50, m)"
    using late_runs(1) by (auto simp: map_option_eq_Some dest!: il_eval_returns)
  have "map_option fst (il_eval 60 (it_types T) late_args reads P P late_env late_mem) = Some (Some 30)" using late_optimized late_runs(2) o by simp
  then obtain n where b: "il_returns (it_types T) late_args reads P P late_env late_mem (Some 30, n)"
    by (auto simp: map_option_eq_Some dest!: il_eval_returns)
  have "\<not> il_returns (it_types T) late_args reads P P late_env late_mem (Some 50, k)" for k
    using il_returns_det [OF b, of "(Some 50, k)"] by auto
  then show ?thesis using o a b by blast
qed

end
