(* ===== verification/SymTab.thy ===== *)
theory SymTab
  imports CTypes AsmCmds
begin

text \<open>
  \<open>class SymbolTable\<close> of \<open>shivyc/il_gen.py\<close>: scopes of variables, typedefs, tags and enumerators, the
  linkage, definition state, storage and name of every variable, and the assembly labels.  A variable is an
  \<open>ILValue\<close>: a number with the type the table last gave it.
\<close>

section \<open>State\<close>

datatype def_status = Undefined | Tentative | Defined

text \<open>The class compares definition states as the numbers 1, 2 and 3.\<close>

definition rank :: "def_status \<Rightarrow> nat" where
  "rank d = (case d of Undefined \<Rightarrow> 1 | Tentative \<Rightarrow> 2 | Defined \<Rightarrow> 3)"

lemma rank_inject [simp]: "rank a = rank b \<longleftrightarrow> a = b"
  by (cases a; cases b) (simp_all add: rank_def)

instantiation def_status :: linorder
begin

definition less_eq_def_status :: "def_status \<Rightarrow> def_status \<Rightarrow> bool" where
  "less_eq_def_status a b = (rank a \<le> rank b)"

definition less_def_status :: "def_status \<Rightarrow> def_status \<Rightarrow> bool" where
  "less_def_status a b = (rank a < rank b)"

instance
  by standard (auto simp: less_eq_def_status_def less_def_status_def)

end

datatype linkage = Internal | External
datatype storage = Static | Automatic

datatype sym_entry = Var nat | Typedef ctype

record scope =
  sc_vars :: "string \<rightharpoonup> sym_entry"
  sc_structs :: "string \<rightharpoonup> ctype"
  sc_enums :: "string \<rightharpoonup> int"

text \<open>The innermost scope comes first.\<close>

record symtab =
  st_tables :: "scope list"
  st_linkage_type :: "nat \<rightharpoonup> linkage"
  st_linkages :: "linkage \<Rightarrow> string \<rightharpoonup> nat"
  st_def_state :: "nat \<rightharpoonup> def_status"
  st_storage :: "nat \<rightharpoonup> storage"
  st_names :: "nat \<rightharpoonup> string"
  st_asm_names :: "nat \<rightharpoonup> string"
  st_asm_counter :: nat
  st_ctype :: "nat \<Rightarrow> ctype"
  st_next :: nat

datatype sym_error =
    Undeclared string | TypedefAsVariable string | Redefinition string | DifferentLinkage string
  | IncompatibleType string | VariableAsTypedef string | IncompatibleTypedef string | EnumRedefinition string
  | UndeclaredType string

section \<open>Scopes\<close>

definition empty_scope :: scope where
  "empty_scope = \<lparr>sc_vars = Map.empty, sc_structs = Map.empty, sc_enums = Map.empty\<rparr>"

definition new_scope :: "symtab \<Rightarrow> symtab" where
  "new_scope s = s\<lparr>st_tables := empty_scope # st_tables s\<rparr>"

definition end_scope :: "symtab \<Rightarrow> symtab" where
  "end_scope s = s\<lparr>st_tables := tl (st_tables s)\<rparr>"

definition init_symtab :: symtab where
  "init_symtab = new_scope \<lparr>st_tables = [], st_linkage_type = Map.empty, st_linkages = (\<lambda>_. Map.empty), st_def_state = Map.empty,
     st_storage = Map.empty, st_names = Map.empty, st_asm_names = Map.empty, st_asm_counter = 0, st_ctype = (\<lambda>_. void_t), st_next = 0\<rparr>"

fun find_scope :: "(scope \<Rightarrow> string \<rightharpoonup> 'a) \<Rightarrow> scope list \<Rightarrow> string \<rightharpoonup> 'a" where
  "find_scope f [] name = None"
| "find_scope f (t # ts) name = (case f t name of Some x \<Rightarrow> Some x | None \<Rightarrow> find_scope f ts name)"

definition lookup_raw :: "symtab \<Rightarrow> string \<rightharpoonup> sym_entry" where
  "lookup_raw s name = find_scope sc_vars (st_tables s) name"

definition lookup_variable :: "symtab \<Rightarrow> string \<Rightarrow> sym_error + nat" where
  "lookup_variable s name = (case lookup_raw s name of Some (Var v) \<Rightarrow> Inr v | _ \<Rightarrow> Inl (Undeclared name))"

text \<open>The linkage table has values as keys: a typedef or an unknown name has no entry.\<close>

definition lookup_linkage :: "symtab \<Rightarrow> string \<Rightarrow> linkage option" where
  "lookup_linkage s name = (case lookup_raw s name of Some (Var v) \<Rightarrow> st_linkage_type s v | _ \<Rightarrow> None)"

definition lookup_enum_const :: "symtab \<Rightarrow> string \<Rightarrow> int option" where
  "lookup_enum_const s name = find_scope sc_enums (st_tables s) name"

definition lookup_struct_union :: "symtab \<Rightarrow> string \<Rightarrow> ctype option" where
  "lookup_struct_union s tag = find_scope sc_structs (st_tables s) tag"

definition lookup_typedef :: "symtab \<Rightarrow> string \<Rightarrow> sym_error + ctype" where
  "lookup_typedef s name = (case lookup_raw s name of Some (Typedef t) \<Rightarrow> Inr t | _ \<Rightarrow> Inl (UndeclaredType name))"

section \<open>Declarations\<close>

definition top_scope :: "symtab \<Rightarrow> scope" where
  "top_scope s = (case st_tables s of t # _ \<Rightarrow> t | [] \<Rightarrow> empty_scope)"

definition upd_top :: "(scope \<Rightarrow> scope) \<Rightarrow> symtab \<Rightarrow> symtab" where
  "upd_top f s = (case st_tables s of t # ts \<Rightarrow> s\<lparr>st_tables := f t # ts\<rparr> | [] \<Rightarrow> s)"

text \<open>\<open>ILValue(ctype)\<close>.\<close>

definition new_var :: "ctype \<Rightarrow> symtab \<Rightarrow> nat \<times> symtab" where
  "new_var t s = (st_next s, s\<lparr>st_next := Suc (st_next s), st_ctype := (st_ctype s)(st_next s := t)\<rparr>)"

text \<open>The variable an identifier stands for when it is declared: the one of this scope, the one another
  declaration gave its linkage, or a new one.\<close>

definition declared_var :: "string \<Rightarrow> ctype \<Rightarrow> def_status \<Rightarrow> linkage option \<Rightarrow> symtab \<Rightarrow> sym_error + (nat \<times> symtab)" where
  "declared_var name t d l s =
     (case sc_vars (top_scope s) name of
        Some (Typedef _) \<Rightarrow> Inl (TypedefAsVariable name)
      | Some (Var v) \<Rightarrow>
          (if d = Defined \<and> st_def_state s v = Some Defined then Inl (Redefinition name)
           else if l \<noteq> st_linkage_type s v then Inl (DifferentLinkage name) else Inr (v, s))
      | None \<Rightarrow>
          (case l of
             Some k \<Rightarrow> (case st_linkages s k name of Some v \<Rightarrow> Inr (v, s) | None \<Rightarrow> Inr (new_var t s))
           | None \<Rightarrow> Inr (new_var t s)))"

definition set_linkage :: "string \<Rightarrow> nat \<Rightarrow> linkage option \<Rightarrow> symtab \<Rightarrow> symtab" where
  "set_linkage name v l s = (case l of None \<Rightarrow> s
     | Some k \<Rightarrow> s\<lparr>st_linkages := (st_linkages s)(k := (st_linkages s k)(name \<mapsto> v)), st_linkage_type := (st_linkage_type s)(v \<mapsto> k)\<rparr>)"

definition join_status :: "nat \<Rightarrow> def_status \<Rightarrow> symtab \<Rightarrow> symtab" where
  "join_status v d s = s\<lparr>st_def_state := (st_def_state s)(v \<mapsto> (case st_def_state s v of None \<Rightarrow> d | Some d0 \<Rightarrow> max d0 d))\<rparr>"

definition set_storage :: "nat \<Rightarrow> storage option \<Rightarrow> symtab \<Rightarrow> symtab" where
  "set_storage v stg s = (case (st_storage s v, stg) of (None, Some g) \<Rightarrow> s\<lparr>st_storage := (st_storage s)(v \<mapsto> g)\<rparr> | _ \<Rightarrow> s)"

definition record_variable ::
  "string \<Rightarrow> nat \<Rightarrow> ctype \<Rightarrow> def_status \<Rightarrow> linkage option \<Rightarrow> storage option \<Rightarrow> symtab \<Rightarrow> symtab" where
  "record_variable name v t d l stg s =
     (let s = upd_top (\<lambda>sc. sc\<lparr>sc_vars := (sc_vars sc)(name \<mapsto> Var v)\<rparr>) (s\<lparr>st_ctype := (st_ctype s)(v := t)\<rparr>);
          s = set_storage v stg (join_status v d (set_linkage name v l s))
      in s\<lparr>st_names := (st_names s)(v \<mapsto> name)\<rparr>)"

definition add_variable ::
  "string \<Rightarrow> ctype \<Rightarrow> def_status \<Rightarrow> linkage option \<Rightarrow> storage option \<Rightarrow> symtab \<Rightarrow> sym_error + (nat \<times> symtab)" where
  "add_variable name t d l stg s =
     (case declared_var name t d l s of Inl e \<Rightarrow> Inl e
      | Inr (v, s) \<Rightarrow> (if \<not> compatible (st_ctype s v) t then Inl (IncompatibleType name) else Inr (v, record_variable name v t d l stg s)))"

definition add_enum_const :: "string \<Rightarrow> int \<Rightarrow> symtab \<Rightarrow> sym_error + symtab" where
  "add_enum_const name i s =
     (if sc_enums (top_scope s) name \<noteq> None \<or> sc_vars (top_scope s) name \<noteq> None then Inl (EnumRedefinition name)
      else Inr (upd_top (\<lambda>sc. sc\<lparr>sc_enums := (sc_enums sc)(name \<mapsto> i)\<rparr>) s))"

definition add_struct_union :: "string \<Rightarrow> ctype \<Rightarrow> symtab \<Rightarrow> ctype \<times> symtab" where
  "add_struct_union tag t s = (case sc_structs (top_scope s) tag of
       Some t0 \<Rightarrow> (t0, s)
     | None \<Rightarrow> (t, upd_top (\<lambda>sc. sc\<lparr>sc_structs := (sc_structs sc)(tag \<mapsto> t)\<rparr>) s))"

definition add_typedef :: "string \<Rightarrow> ctype \<Rightarrow> symtab \<Rightarrow> sym_error + symtab" where
  "add_typedef name t s = (case sc_vars (top_scope s) name of
       Some (Var _) \<Rightarrow> Inl (VariableAsTypedef name)
     | Some (Typedef t0) \<Rightarrow> (if compatible t0 t then Inr s else Inl (IncompatibleTypedef name))
     | None \<Rightarrow> Inr (upd_top (\<lambda>sc. sc\<lparr>sc_vars := (sc_vars sc)(name \<mapsto> Typedef t)\<rparr>) s))"

section \<open>Labels\<close>

text \<open>A variable without a name raises KeyError.\<close>

definition asm_name :: "nat \<Rightarrow> symtab \<Rightarrow> (string \<times> symtab) option" where
  "asm_name v s = (case st_names s v of None \<Rightarrow> None
     | Some base \<Rightarrow>
       (if st_linkage_type s v = Some External then Some (base, s)
        else case st_asm_names s v of
            Some n \<Rightarrow> Some (n, s)
          | None \<Rightarrow> (let k = Suc (st_asm_counter s); n = base @ ''.'' @ int_str (int k) in
              Some (n, s\<lparr>st_asm_counter := k, st_asm_names := (st_asm_names s)(v \<mapsto> n)\<rparr>))))"

end
