(* ===== verification/SymTabSound.thy ===== *)
theory SymTabSound
  imports SymTab MachineFacts
begin

text \<open>
  What the symbol table keeps: one variable for each name and linkage, scopes that come back when a block
  ends, and assembly labels that never collide.
\<close>

section \<open>Operations\<close>

text \<open>A declaration, a typedef, a tag, an enumerator or a label; one that raises leaves the table as it was.\<close>

inductive sym_op :: "symtab \<Rightarrow> symtab \<Rightarrow> bool" where
  declare_var: "add_variable name t d l stg s = Inr (v, s') \<Longrightarrow> sym_op s s'"
| declare_enum: "add_enum_const name i s = Inr s' \<Longrightarrow> sym_op s s'"
| declare_tag: "add_struct_union name t s = (t', s') \<Longrightarrow> sym_op s s'"
| declare_typedef: "add_typedef name t s = Inr s' \<Longrightarrow> sym_op s s'"
| give_label: "asm_name v s = Some (n, s') \<Longrightarrow> sym_op s s'"

text \<open>A block: operations and inner blocks, each with a scope of its own.\<close>

inductive sym_block :: "symtab \<Rightarrow> symtab \<Rightarrow> bool" where
  nothing: "sym_block s s"
| one: "sym_block s s1 \<Longrightarrow> sym_op s1 s2 \<Longrightarrow> sym_block s s2"
| nested: "sym_block s s1 \<Longrightarrow> sym_block (new_scope s1) s2 \<Longrightarrow> sym_block s (end_scope s2)"

inductive sym_reach :: "symtab \<Rightarrow> bool" where
  begin_unit: "sym_reach init_symtab"
| work: "sym_reach s \<Longrightarrow> sym_op s s' \<Longrightarrow> sym_reach s'"
| enter: "sym_reach s \<Longrightarrow> sym_reach (new_scope s)"
| leave: "sym_reach s \<Longrightarrow> sym_reach (end_scope s)"

inductive_cases sym_opE: "sym_op s s'"

lemma tables_upd_top: "st_tables (upd_top f s) = (case st_tables s of [] \<Rightarrow> [] | t # ts \<Rightarrow> f t # ts)"
  by (simp add: upd_top_def split: list.split)

lemma upd_top_sel [simp]:
  "st_linkage_type (upd_top f s) = st_linkage_type s" "st_linkages (upd_top f s) = st_linkages s" "st_def_state (upd_top f s) = st_def_state s"
  "st_storage (upd_top f s) = st_storage s" "st_names (upd_top f s) = st_names s" "st_asm_names (upd_top f s) = st_asm_names s"
  "st_asm_counter (upd_top f s) = st_asm_counter s" "st_ctype (upd_top f s) = st_ctype s" "st_next (upd_top f s) = st_next s"
  by (simp_all add: upd_top_def split: list.split)

lemma set_linkage_sel [simp]:
  "st_tables (set_linkage name v l s) = st_tables s" "st_def_state (set_linkage name v l s) = st_def_state s"
  "st_storage (set_linkage name v l s) = st_storage s" "st_names (set_linkage name v l s) = st_names s" "st_asm_names (set_linkage name v l s) = st_asm_names s"
  "st_asm_counter (set_linkage name v l s) = st_asm_counter s" "st_ctype (set_linkage name v l s) = st_ctype s" "st_next (set_linkage name v l s) = st_next s"
  by (simp_all add: set_linkage_def split: option.split)

text \<open>What a declaration that goes through has done.\<close>

lemma record_variable_sel:
  "st_tables (record_variable name v t d l stg s) = st_tables (upd_top (\<lambda>sc. sc\<lparr>sc_vars := (sc_vars sc)(name \<mapsto> Var v)\<rparr>) s)"
  "st_linkage_type (record_variable name v t d l stg s) = st_linkage_type (set_linkage name v l s)"
  "st_linkages (record_variable name v t d l stg s) = st_linkages (set_linkage name v l s)"
  "st_names (record_variable name v t d l stg s) = (st_names s)(v \<mapsto> name)" "st_next (record_variable name v t d l stg s) = st_next s"
  "st_asm_names (record_variable name v t d l stg s) = st_asm_names s" "st_asm_counter (record_variable name v t d l stg s) = st_asm_counter s"
  "dom (st_def_state (record_variable name v t d l stg s)) = insert v (dom (st_def_state s))"
  "st_ctype (record_variable name v t d l stg s) = (st_ctype s)(v := t)"
proof -
  have g: "st_tables (set_storage v stg s) = st_tables s" "st_linkage_type (set_storage v stg s) = st_linkage_type s"
    "st_linkages (set_storage v stg s) = st_linkages s" "st_names (set_storage v stg s) = st_names s" "st_next (set_storage v stg s) = st_next s"
    "st_asm_names (set_storage v stg s) = st_asm_names s" "st_asm_counter (set_storage v stg s) = st_asm_counter s"
    "st_def_state (set_storage v stg s) = st_def_state s" "st_ctype (set_storage v stg s) = st_ctype s" for s
    by (simp_all add: set_storage_def split: option.split)
  note d = record_variable_def Let_def g join_status_def
  show "st_tables (record_variable name v t d l stg s) = st_tables (upd_top (\<lambda>sc. sc\<lparr>sc_vars := (sc_vars sc)(name \<mapsto> Var v)\<rparr>) s)"
    by (simp add: d tables_upd_top)
  show "st_linkage_type (record_variable name v t d l stg s) = st_linkage_type (set_linkage name v l s)"
    by (simp add: d set_linkage_def split: option.split)
  show "st_linkages (record_variable name v t d l stg s) = st_linkages (set_linkage name v l s)"
    by (simp add: d set_linkage_def split: option.split)
qed (simp_all add: record_variable_def Let_def set_storage_def join_status_def split: option.split)

lemma add_variable_Inr:
  "add_variable name t d l stg s = Inr (v, s') \<longleftrightarrow>
    (\<exists>s1. declared_var name t d l s = Inr (v, s1) \<and> compatible (st_ctype s1 v) t \<and> s' = record_variable name v t d l stg s1)"
  by (auto simp: add_variable_def split: sum.split)

lemma declared_var_parts:
  assumes "declared_var name t d l s = Inr (v, s1)"
  shows "(s1 = s \<and> sc_vars (top_scope s) name = Some (Var v) \<and> l = st_linkage_type s v) \<or>
    (s1 = s \<and> (\<exists>k. l = Some k \<and> st_linkages s k name = Some v)) \<or>
    ((v, s1) = new_var t s \<and> (\<forall>k. l = Some k \<longrightarrow> st_linkages s k name = None))"
  using assms by (auto simp: declared_var_def split: option.split_asm sym_entry.split_asm if_split_asm)

section \<open>Blocks\<close>

lemma sym_op_tables: "sym_op s s' \<Longrightarrow> tl (st_tables s') = tl (st_tables s) \<and> (st_tables s' = [] \<longleftrightarrow> st_tables s = [])"
proof (induction rule: sym_op.induct)
  case (declare_var name t d l stg s v s')
  then obtain s1 where s1: "declared_var name t d l s = Inr (v, s1)" "s' = record_variable name v t d l stg s1"
    unfolding add_variable_Inr by blast
  have "st_tables s1 = st_tables s" using declared_var_parts [OF s1(1)] by (auto simp: new_var_def)
  then show ?case by (simp add: s1(2) record_variable_sel tables_upd_top split: list.split)
qed (auto simp: add_enum_const_def add_struct_union_def add_typedef_def asm_name_def Let_def tables_upd_top
      split: if_split_asm option.split_asm list.split list.split_asm sym_entry.split_asm)

lemma block_tables: "sym_block s s' \<Longrightarrow> tl (st_tables s') = tl (st_tables s) \<and> (st_tables s' = [] \<longleftrightarrow> st_tables s = [])"
proof (induction rule: sym_block.induct)
  case (one s s1 s2)
  then show ?case using sym_op_tables [OF one(2)] by simp
next
  case (nested s s1 s2)
  then show ?case by (simp add: end_scope_def new_scope_def)
qed simp

lemma leaving_restores: "sym_block (new_scope s) s' \<Longrightarrow> st_tables (end_scope s') = st_tables s"
  using block_tables [of "new_scope s" s'] by (simp add: end_scope_def new_scope_def)

section \<open>One variable for a name and a linkage\<close>

definition sym_inv :: "symtab \<Rightarrow> bool" where
  "sym_inv s =
     ((\<forall>v. v \<in> dom (st_names s) \<longrightarrow> v < st_next s \<and> v \<in> dom (st_def_state s)) \<and>
      (\<forall>k name v. st_linkages s k name = Some v \<longleftrightarrow> st_linkage_type s v = Some k \<and> st_names s v = Some name) \<and>
      (\<forall>v. st_linkage_type s v \<noteq> None \<longrightarrow> st_names s v \<noteq> None) \<and>
      (\<forall>sc \<in> set (st_tables s). \<forall>name v. sc_vars sc name = Some (Var v) \<longrightarrow> st_names s v = Some name) \<and>
      (\<exists>num. inj_on num (dom (st_asm_names s)) \<and> (\<forall>v n. st_asm_names s v = Some n \<longrightarrow>
         (\<exists>base. st_names s v = Some base \<and> n = base @ ''.'' @ int_str (int (num v)) \<and> num v \<le> st_asm_counter s))))"

lemma sym_invD:
  assumes "sym_inv s"
  shows "v \<in> dom (st_names s) \<Longrightarrow> v < st_next s" "v \<in> dom (st_names s) \<Longrightarrow> v \<in> dom (st_def_state s)"
    "st_linkages s k name = Some v \<longleftrightarrow> st_linkage_type s v = Some k \<and> st_names s v = Some name"
    "st_linkage_type s v = Some k \<Longrightarrow> \<exists>name. st_names s v = Some name"
    "sc \<in> set (st_tables s) \<Longrightarrow> sc_vars sc name = Some (Var v) \<Longrightarrow> st_names s v = Some name"
    "\<exists>num. inj_on num (dom (st_asm_names s)) \<and> (\<forall>v n. st_asm_names s v = Some n \<longrightarrow>
         (\<exists>base. st_names s v = Some base \<and> n = base @ ''.'' @ int_str (int (num v)) \<and> num v \<le> st_asm_counter s))"
  using assms unfolding sym_inv_def by blast+

lemma sym_inv_init: "sym_inv init_symtab"
  by (simp add: sym_inv_def init_symtab_def new_scope_def empty_scope_def)

lemma top_in: "sc_vars (top_scope s) name = Some e \<Longrightarrow> top_scope s \<in> set (st_tables s)"
  by (auto simp: top_scope_def empty_scope_def split: list.split_asm)

text \<open>The declared variable, old or new, carries the name and the linkage or nothing yet.\<close>

lemma declared_fits:
  assumes I: "sym_inv s" and d: "declared_var name t d l s = Inr (v, s1)"
  shows "(s1 = s \<and> st_names s v = Some name \<and> l = st_linkage_type s v) \<or>
    ((v, s1) = new_var t s \<and> v = st_next s \<and> (\<forall>k. l = Some k \<longrightarrow> st_linkages s k name = None))"
  using declared_var_parts [OF d]
proof (elim disjE conjE exE)
  assume "s1 = s" "sc_vars (top_scope s) name = Some (Var v)" "l = st_linkage_type s v"
  then show ?thesis using sym_invD(5) [OF I top_in] by blast
next
  fix k assume "s1 = s" "l = Some k" "st_linkages s k name = Some v"
  then show ?thesis using sym_invD(3) [OF I] by auto
qed (simp add: new_var_def)

lemma tables_member: "sc \<in> set (st_tables (upd_top f s)) \<Longrightarrow> sc \<in> set (st_tables s) \<or> (\<exists>t \<in> set (st_tables s). sc = f t)"
  by (cases "st_tables s") (auto simp: tables_upd_top)

text \<open>An invariant over the parts a declaration changes.\<close>

lemma sym_invI:
  assumes "\<And>v. v \<in> dom (st_names s) \<Longrightarrow> v < st_next s \<and> v \<in> dom (st_def_state s)"
    and "\<And>k name v. st_linkages s k name = Some v \<longleftrightarrow> st_linkage_type s v = Some k \<and> st_names s v = Some name"
    and "\<And>v. st_linkage_type s v \<noteq> None \<Longrightarrow> st_names s v \<noteq> None"
    and "\<And>sc name v. sc \<in> set (st_tables s) \<Longrightarrow> sc_vars sc name = Some (Var v) \<Longrightarrow> st_names s v = Some name"
    and "\<exists>num. inj_on num (dom (st_asm_names s)) \<and> (\<forall>v n. st_asm_names s v = Some n \<longrightarrow>
         (\<exists>base. st_names s v = Some base \<and> n = base @ ''.'' @ int_str (int (num v)) \<and> num v \<le> st_asm_counter s))"
  shows "sym_inv s"
  using assms unfolding sym_inv_def by blast

lemma record_inv:
  assumes I: "sym_inv s" and d: "declared_var name t d l s = Inr (v, s1)"
  shows "sym_inv (record_variable name v t d l stg s1)"
  using declared_fits [OF I d]
proof (elim disjE conjE)
  let ?r = "record_variable name v t d l stg s1"
  assume e: "s1 = s" "st_names s v = Some name" "l = st_linkage_type s v"
  have n: "st_names ?r = st_names s" using e by (auto simp: record_variable_sel)
  have "set_linkage name v l s = s"
  proof (cases l)
    case (Some k)
    then have "st_linkages s k name = Some v" "st_linkage_type s v = Some k" using sym_invD(3) [OF I] e by simp_all
    then have "(st_linkages s k)(name \<mapsto> v) = st_linkages s k" "(st_linkage_type s)(v \<mapsto> k) = st_linkage_type s" by auto
    then show ?thesis by (simp add: set_linkage_def Some)
  qed (simp add: set_linkage_def)
  then have k: "st_linkages ?r = st_linkages s" "st_linkage_type ?r = st_linkage_type s" using e by (simp_all add: record_variable_sel)
  show ?thesis
  proof (rule sym_invI, unfold n k)
    show "u \<in> dom (st_names s) \<Longrightarrow> u < st_next ?r \<and> u \<in> dom (st_def_state ?r)" for u
      using sym_invD(1,2) [OF I] e by (auto simp: record_variable_sel)
    show "st_linkages s k nm = Some u \<longleftrightarrow> st_linkage_type s u = Some k \<and> st_names s u = Some nm" for k nm u by (rule sym_invD(3) [OF I])
    show "st_linkage_type s u \<noteq> None \<Longrightarrow> st_names s u \<noteq> None" for u using sym_invD(4) [OF I] by fastforce
    fix sc nm u assume "sc \<in> set (st_tables ?r)" "sc_vars sc nm = Some (Var u)"
    then show "st_names s u = Some nm"
      using tables_member sym_invD(5) [OF I] e by (fastforce simp: record_variable_sel split: if_split_asm)
  qed (use sym_invD(6) [OF I] e in \<open>simp add: record_variable_sel\<close>)
next
  let ?r = "record_variable name v t d l stg s1"
  assume e: "(v, s1) = new_var t s" "v = st_next s" "\<forall>k. l = Some k \<longrightarrow> st_linkages s k name = None"
  have s1: "st_names s1 = st_names s" "st_linkages s1 = st_linkages s" "st_linkage_type s1 = st_linkage_type s" "st_tables s1 = st_tables s"
    "st_next s1 = Suc (st_next s)" "st_def_state s1 = st_def_state s" "st_asm_names s1 = st_asm_names s" "st_asm_counter s1 = st_asm_counter s"
    using e(1) by (simp_all add: new_var_def)
  have nv: "st_names s v = None" using sym_invD(1) [OF I, of v] e(2) by auto
  have lv: "st_linkage_type s v = None" using sym_invD(4) [OF I, of v] nv by (cases "st_linkage_type s v") auto
  have ll: "st_linkages s k nm \<noteq> Some v" for k nm using sym_invD(3) [OF I, of k nm v] nv by simp
  show ?thesis
  proof (rule sym_invI)
    show "u \<in> dom (st_names ?r) \<Longrightarrow> u < st_next ?r \<and> u \<in> dom (st_def_state ?r)" for u
    proof -
      assume "u \<in> dom (st_names ?r)"
      then have "u = v \<or> u \<in> dom (st_names s)" by (auto simp: record_variable_sel s1)
      then show ?thesis using sym_invD(1,2) [OF I, of u] e(2) by (elim disjE) (simp_all add: record_variable_sel s1 less_SucI)
    qed
    show "st_linkages ?r k nm = Some u \<longleftrightarrow> st_linkage_type ?r u = Some k \<and> st_names ?r u = Some nm" for k nm u
    proof (cases "u = v")
      case True
      then show ?thesis using ll lv by (cases l) (auto simp: record_variable_sel s1 set_linkage_def)
    next
      case False
      have "l = Some k \<Longrightarrow> st_linkages s k name = None" using e(3) by blast
      then show ?thesis using False sym_invD(3) [OF I, of k nm u] by (cases l) (auto simp: record_variable_sel s1 set_linkage_def)
    qed
    show "st_linkage_type ?r u \<noteq> None \<Longrightarrow> st_names ?r u \<noteq> None" for u
      using sym_invD(4) [OF I, of u] by (cases l) (auto simp: record_variable_sel s1 set_linkage_def split: if_split_asm)
    fix sc nm u assume sc: "sc \<in> set (st_tables ?r)" "sc_vars sc nm = Some (Var u)"
    have "sc \<in> set (st_tables s) \<or> (\<exists>t \<in> set (st_tables s). sc = t\<lparr>sc_vars := (sc_vars t)(name \<mapsto> Var v)\<rparr>)"
      using tables_member sc(1) s1(4) by (fastforce simp: record_variable_sel)
    then show "st_names ?r u = Some nm"
    proof (elim disjE bexE)
      assume "sc \<in> set (st_tables s)"
      then have "st_names s u = Some nm" using sym_invD(5) [OF I] sc(2) by blast
      then show ?thesis using nv by (auto simp: record_variable_sel s1)
    next
      fix t assume "t \<in> set (st_tables s)" "sc = t\<lparr>sc_vars := (sc_vars t)(name \<mapsto> Var v)\<rparr>"
      then show ?thesis using sc(2) sym_invD(5) [OF I, of t nm u] nv by (auto simp: record_variable_sel s1 split: if_split_asm)
    qed
  next
    obtain num where num: "inj_on num (dom (st_asm_names s))" "\<And>v n. st_asm_names s v = Some n \<Longrightarrow>
         \<exists>base. st_names s v = Some base \<and> n = base @ ''.'' @ int_str (int (num v)) \<and> num v \<le> st_asm_counter s"
      using sym_invD(6) [OF I] by blast
    have "\<exists>base. st_names ?r u = Some base \<and> n = base @ ''.'' @ int_str (int (num u)) \<and> num u \<le> st_asm_counter s"
      if "st_asm_names s u = Some n" for u n
      using num(2) [OF that] nv by (cases "u = v") (auto simp: record_variable_sel s1)
    then show "\<exists>num. inj_on num (dom (st_asm_names ?r)) \<and> (\<forall>v n. st_asm_names ?r v = Some n \<longrightarrow>
         (\<exists>base. st_names ?r v = Some base \<and> n = base @ ''.'' @ int_str (int (num v)) \<and> num v \<le> st_asm_counter ?r))"
      using num(1) by (intro exI [of _ num]) (auto simp: record_variable_sel s1)
  qed
qed

text \<open>A table that keeps its variables keeps the invariant.\<close>

lemma sym_inv_same:
  assumes I: "sym_inv s" and "st_names s' = st_names s" "st_next s' = st_next s" "st_def_state s' = st_def_state s"
    "st_linkages s' = st_linkages s" "st_linkage_type s' = st_linkage_type s" "st_asm_names s' = st_asm_names s" "st_asm_counter s' = st_asm_counter s"
    and v: "\<And>sc name v. sc \<in> set (st_tables s') \<Longrightarrow> sc_vars sc name = Some (Var v) \<Longrightarrow> \<exists>t \<in> set (st_tables s). sc_vars t name = Some (Var v)"
  shows "sym_inv s'"
proof (rule sym_invI, unfold assms(2-8))
  show "u \<in> dom (st_names s) \<Longrightarrow> u < st_next s \<and> u \<in> dom (st_def_state s)" for u using sym_invD(1,2) [OF I] by blast
  show "st_linkages s k nm = Some u \<longleftrightarrow> st_linkage_type s u = Some k \<and> st_names s u = Some nm" for k nm u by (rule sym_invD(3) [OF I])
  show "st_linkage_type s u \<noteq> None \<Longrightarrow> st_names s u \<noteq> None" for u using sym_invD(4) [OF I, of u] by auto
  show "sc \<in> set (st_tables s') \<Longrightarrow> sc_vars sc nm = Some (Var u) \<Longrightarrow> st_names s u = Some nm" for sc nm u using v sym_invD(5) [OF I] by blast
qed (rule sym_invD(6) [OF I])

lemma asm_name_inv:
  assumes I: "sym_inv s" and n: "asm_name v s = Some (n, s')"
  shows "sym_inv s'"
proof (cases "s' = s")
  case False
  obtain base where b: "st_names s v = Some base" "st_linkage_type s v \<noteq> Some External" "st_asm_names s v = None"
    "n = base @ ''.'' @ int_str (int (Suc (st_asm_counter s)))"
    "s' = s\<lparr>st_asm_counter := Suc (st_asm_counter s), st_asm_names := (st_asm_names s)(v \<mapsto> n)\<rparr>"
    using n False by (auto simp: asm_name_def Let_def split: option.split_asm if_split_asm)
  have s': "st_names s' = st_names s" "st_next s' = st_next s" "st_def_state s' = st_def_state s" "st_linkages s' = st_linkages s"
    "st_linkage_type s' = st_linkage_type s" "st_tables s' = st_tables s" "st_asm_counter s' = Suc (st_asm_counter s)"
    "st_asm_names s' = (st_asm_names s)(v \<mapsto> n)" by (simp_all add: b(5))
  obtain num where num: "inj_on num (dom (st_asm_names s))" "\<And>v n. st_asm_names s v = Some n \<Longrightarrow>
       \<exists>base. st_names s v = Some base \<and> n = base @ ''.'' @ int_str (int (num v)) \<and> num v \<le> st_asm_counter s"
    using sym_invD(6) [OF I] by blast
  let ?num = "num(v := Suc (st_asm_counter s))"
  have "num u \<noteq> Suc (st_asm_counter s)" if "u \<in> dom (st_asm_names s)" for u using num(2) that by fastforce
  then have inj: "inj_on ?num (insert v (dom (st_asm_names s)))" using num(1) b(3) unfolding inj_on_def by (metis domIff fun_upd_apply insertE)
  show ?thesis
  proof (rule sym_invI, unfold s'(1-6))
    show "u \<in> dom (st_names s) \<Longrightarrow> u < st_next s \<and> u \<in> dom (st_def_state s)" for u using sym_invD(1,2) [OF I] by blast
    show "st_linkages s k nm = Some u \<longleftrightarrow> st_linkage_type s u = Some k \<and> st_names s u = Some nm" for k nm u by (rule sym_invD(3) [OF I])
    show "st_linkage_type s u \<noteq> None \<Longrightarrow> st_names s u \<noteq> None" for u using sym_invD(4) [OF I, of u] by auto
    show "sc \<in> set (st_tables s) \<Longrightarrow> sc_vars sc nm = Some (Var u) \<Longrightarrow> st_names s u = Some nm" for sc nm u by (rule sym_invD(5) [OF I])
    have "\<exists>base. st_names s u = Some base \<and> m = base @ ''.'' @ int_str (int (?num u)) \<and> ?num u \<le> st_asm_counter s'"
      if "st_asm_names s' u = Some m" for u m
      using that num(2) [of u m] b(1,4) by (auto simp: s' split: if_split_asm)
    then show "\<exists>num. inj_on num (dom (st_asm_names s')) \<and> (\<forall>u m. st_asm_names s' u = Some m \<longrightarrow>
         (\<exists>base. st_names s u = Some base \<and> m = base @ ''.'' @ int_str (int (num u)) \<and> num u \<le> st_asm_counter s'))"
      using inj by (intro exI [of _ ?num]) (auto simp: s')
  qed
qed (use I in simp)

lemma upd_top_vars:
  assumes "sc \<in> set (st_tables (upd_top f s))" "sc_vars sc name = Some (Var v)" "\<And>t. sc_vars (f t) name = Some (Var v) \<Longrightarrow> sc_vars t name = Some (Var v)"
  shows "\<exists>t \<in> set (st_tables s). sc_vars t name = Some (Var v)"
  using tables_member [OF assms(1)] assms(2,3) by blast

lemma sym_op_inv: "sym_op s s' \<Longrightarrow> sym_inv s \<Longrightarrow> sym_inv s'"
proof (induction rule: sym_op.induct)
  case (declare_var name t d l stg s v s')
  then show ?case using record_inv by (auto simp: add_variable_Inr)
next
  case (declare_enum name i s s')
  then have e: "s' = upd_top (\<lambda>sc. sc\<lparr>sc_enums := (sc_enums sc)(name \<mapsto> i)\<rparr>) s" by (simp add: add_enum_const_def split: if_split_asm)
  show ?case by (rule sym_inv_same [OF declare_enum(2)]) (auto simp: e elim: upd_top_vars)
next
  case (declare_tag name t s t' s')
  show ?case
  proof (cases "sc_structs (top_scope s) name")
    case None
    then have e: "s' = upd_top (\<lambda>sc. sc\<lparr>sc_structs := (sc_structs sc)(name \<mapsto> t)\<rparr>) s" using declare_tag by (auto simp: add_struct_union_def)
    show ?thesis by (rule sym_inv_same [OF declare_tag(2)]) (auto simp: e elim: upd_top_vars)
  qed (use declare_tag in \<open>simp add: add_struct_union_def\<close>)
next
  case (declare_typedef name t s s')
  show ?case
  proof (cases "sc_vars (top_scope s) name")
    case None
    then have e: "s' = upd_top (\<lambda>sc. sc\<lparr>sc_vars := (sc_vars sc)(name \<mapsto> Typedef t)\<rparr>) s" using declare_typedef by (simp add: add_typedef_def)
    show ?thesis by (rule sym_inv_same [OF declare_typedef(2)]) (auto simp: e split: if_split_asm elim!: upd_top_vars)
  qed (use declare_typedef in \<open>auto simp: add_typedef_def split: sym_entry.split_asm if_split_asm\<close>)
next
  case (give_label v s n s')
  then show ?case using asm_name_inv by blast
qed

lemma in_set_tl: "x \<in> set (tl xs) \<Longrightarrow> x \<in> set xs"
  by (cases xs) simp_all

lemma reach_inv: "sym_reach s \<Longrightarrow> sym_inv s"
proof (induction rule: sym_reach.induct)
  case begin_unit
  show ?case by (rule sym_inv_init)
next
  case (work s s')
  then show ?case using sym_op_inv by blast
next
  case (enter s)
  show ?case by (rule sym_inv_same [OF enter(2)]) (auto simp: new_scope_def empty_scope_def)
next
  case (leave s)
  show ?case by (rule sym_inv_same [OF leave(2)]) (auto simp: end_scope_def dest: in_set_tl)
qed

section \<open>Properties\<close>

text \<open>C18: A block leaves no trace in the scopes: after \<open>new_scope\<close>, any declarations and inner blocks, and \<open>end_scope\<close>,
  every identifier, typedef, tag and enumerator looks up as before.\<close>

theorem block_scopes_roundtrip:
  assumes "sym_block (new_scope s) s'"
  shows "lookup_variable (end_scope s') x = lookup_variable s x \<and> lookup_typedef (end_scope s') x = lookup_typedef s x \<and>
    lookup_struct_union (end_scope s') x = lookup_struct_union s x \<and> lookup_enum_const (end_scope s') x = lookup_enum_const s x"
  using leaving_restores [OF assms]
  by (simp add: lookup_variable_def lookup_typedef_def lookup_struct_union_def lookup_enum_const_def lookup_raw_def)

lemma int_str_digits: "0 \<le> i \<Longrightarrow> CHR ''.'' \<notin> set (int_str i)"
proof -
  have "digit_char d \<noteq> CHR ''.''" if "d < 10" for d
  proof
    assume "digit_char d = CHR ''.''"
    then have "(of_char (digit_char d) :: nat) = of_char CHR ''.''" by simp
    then show False using that by (simp add: of_digit_char)
  qed
  then show "0 \<le> i \<Longrightarrow> ?thesis" using nat_str_digits [of "nat i"] unfolding int_str_def by (metis not_less)
qed

lemma dot_split: "CHR ''.'' \<notin> set xs \<Longrightarrow> CHR ''.'' \<notin> set ys \<Longrightarrow> xs @ CHR ''.'' # a = ys @ CHR ''.'' # b \<Longrightarrow> xs = ys \<and> a = b"
  by (auto simp: append_eq_append_conv2 Cons_eq_append_conv append_eq_Cons_conv)

lemma numbered_label:
  assumes "xs @ ''.'' @ int_str (int k) = ys @ ''.'' @ int_str (int m)" "CHR ''.'' \<notin> set xs" "CHR ''.'' \<notin> set ys"
  shows "k = m"
proof -
  have "int_str (int k) = int_str (int m)" using dot_split [OF assms(2,3)] assms(1) by simp
  then have "Some (int k) = Some (int m)" using parse_int_str by metis
  then show ?thesis by simp
qed

text \<open>A label is the plain name of an external variable, or the name with the number the variable got.\<close>

lemma asm_name_cases:
  assumes I: "sym_inv s" and n: "asm_name v s = Some (n, s')" and a: "st_names s v = Some a"
  shows "(st_linkage_type s v = Some External \<and> n = a \<and> s' = s) \<or>
    (st_linkage_type s v \<noteq> Some External \<and> st_asm_names s' v = Some n \<and> (\<exists>k. n = a @ ''.'' @ int_str (int k)))"
proof (cases "st_linkage_type s v = Some External")
  case False
  then have "st_asm_names s' v = Some n" using n a by (auto simp: asm_name_def Let_def split: option.split_asm)
  moreover have "st_names s' v = Some a" using n a False by (auto simp: asm_name_def Let_def split: option.split_asm)
  ultimately show ?thesis using sym_invD(6) [OF asm_name_inv [OF I n]] False by fastforce
qed (use n a in \<open>simp add: asm_name_def\<close>)

lemma asm_name_keeps:
  assumes "asm_name v s = Some (n, s')"
  shows "st_names s' = st_names s" "st_linkage_type s' = st_linkage_type s" "st_asm_names s u = Some m \<Longrightarrow> st_asm_names s' u = Some m"
  using assms by (auto simp: asm_name_def Let_def split: option.split_asm if_split_asm)

text \<open>C10: Two variables never share an assembly label, whatever declarations came before, and a variable keeps the label it
  was given (identifiers contain no dot).\<close>

theorem asm_labels_distinct:
  assumes "sym_reach s" "v \<noteq> w" "st_names s v = Some a" "st_names s w = Some b" "CHR ''.'' \<notin> set a" "CHR ''.'' \<notin> set b"
    and "asm_name v s = Some (n, s1)" "asm_name w s1 = Some (m, s2)"
  shows "n \<noteq> m \<and> asm_name v s2 = Some (n, s2)"
proof
  note I = reach_inv [OF assms(1)]
  note I1 = asm_name_inv [OF I assms(7)]
  note I2 = asm_name_inv [OF I1 assms(8)]
  note k1 = asm_name_keeps [OF assms(7)] and k2 = asm_name_keeps [OF assms(8)]
  have b1: "st_names s1 w = Some b" using assms(4) k1(1) by simp
  note V = asm_name_cases [OF I assms(7,3)] and W = asm_name_cases [OF I1 assms(8) b1, unfolded k1(2)]
  show "asm_name v s2 = Some (n, s2)"
    using V k1 k2 assms(3,7) by (auto simp: asm_name_def)
  show "n \<noteq> m"
  proof
    assume e: "n = m"
    consider "st_linkage_type s v = Some External" "st_linkage_type s w = Some External"
      | "st_linkage_type s v = Some External" "st_linkage_type s w \<noteq> Some External"
      | "st_linkage_type s v \<noteq> Some External" "st_linkage_type s w = Some External"
      | "st_linkage_type s v \<noteq> Some External" "st_linkage_type s w \<noteq> Some External" by blast
    then show False
    proof cases
      case 1
      then have "a = b" using V W e by simp
      then have "st_linkages s External a = Some v" "st_linkages s External a = Some w"
        using sym_invD(3) [OF I] 1 assms(3,4) by simp_all
      then show ?thesis using assms(2) by simp
    next
      case 2
      then have "n = a" "\<exists>k. n = b @ ''.'' @ int_str (int k)" using V W e by auto
      then show ?thesis using assms(5) by auto
    next
      case 3
      then have "n = b" "\<exists>k. n = a @ ''.'' @ int_str (int k)" using V W e by auto
      then show ?thesis using assms(6) by auto
    next
      case 4
      obtain num where num: "inj_on num (dom (st_asm_names s2))" "\<And>v n. st_asm_names s2 v = Some n \<Longrightarrow>
           \<exists>base. st_names s2 v = Some base \<and> n = base @ ''.'' @ int_str (int (num v))"
        using sym_invD(6) [OF I2] by blast
      have v: "st_asm_names s2 v = Some n" using V 4(1) k2(3) by simp
      have w: "st_asm_names s2 w = Some m" using W 4(2) by simp
      have "n = a @ ''.'' @ int_str (int (num v))" "m = b @ ''.'' @ int_str (int (num w))"
        using num(2) [OF v] num(2) [OF w] assms(3,4) k1(1) k2(1) by simp_all
      then have "a @ ''.'' @ int_str (int (num v)) = b @ ''.'' @ int_str (int (num w))" using e by metis
      then have "num v = num w" by (rule numbered_label [OF _ assms(5,6)])
      then show ?thesis using inj_onD [OF num(1), of v w] v w assms(2) by (simp add: domI)
    qed
  qed
qed

section \<open>Instances\<close>

definition one_static :: symtab where
  "one_static = (case add_variable ''x'' integer_t Defined (Some Internal) (Some Static) init_symtab of Inr (v, s) \<Rightarrow> s | Inl e \<Rightarrow> init_symtab)"

definition two_statics :: symtab where
  "two_statics = (case add_variable ''x'' integer_t Defined None (Some Static) (new_scope one_static) of Inr (v, s) \<Rightarrow> s | Inl e \<Rightarrow> init_symtab)"

lemma statics_ok:
  "case add_variable ''x'' integer_t Defined (Some Internal) (Some Static) init_symtab of Inr (v, s) \<Rightarrow> v = 0 | Inl e \<Rightarrow> False"
  "case add_variable ''x'' integer_t Defined None (Some Static) (new_scope one_static) of Inr (v, s) \<Rightarrow> v = 1 | Inl e \<Rightarrow> False"
  by code_simp+

lemma statics_ops: "sym_op init_symtab one_static" "sym_op (new_scope one_static) two_statics"
proof -
  obtain v s where "add_variable ''x'' integer_t Defined (Some Internal) (Some Static) init_symtab = Inr (v, s)"
    using statics_ok(1) by (cases "add_variable ''x'' integer_t Defined (Some Internal) (Some Static) init_symtab") auto
  then show "sym_op init_symtab one_static" by (simp add: one_static_def declare_var)
  obtain v s where "add_variable ''x'' integer_t Defined None (Some Static) (new_scope one_static) = Inr (v, s)"
    using statics_ok(2) by (cases "add_variable ''x'' integer_t Defined None (Some Static) (new_scope one_static)") auto
  then show "sym_op (new_scope one_static) two_statics" by (simp add: two_statics_def declare_var)
qed

theorem block_scopes_roundtrip_witness:
  "lookup_variable two_statics ''x'' = Inr 1 \<and> lookup_variable (end_scope two_statics) ''x'' = Inr 0"
proof -
  have "sym_block (new_scope one_static) two_statics" using sym_block.one [OF sym_block.nothing statics_ops(2)] .
  moreover have "lookup_variable two_statics ''x'' = Inr 1" "lookup_variable one_static ''x'' = Inr 0" by code_simp+
  ultimately show ?thesis using block_scopes_roundtrip [of one_static two_statics "''x''"] by simp
qed

theorem asm_labels_distinct_witness:
  "\<exists>s1 s2. asm_name 0 two_statics = Some (''x.1'', s1) \<and> asm_name 1 s1 = Some (''x.2'', s2) \<and> asm_name 0 s2 = Some (''x.1'', s2)"
proof -
  have r: "sym_reach two_statics" using sym_reach.work [OF sym_reach.enter [OF sym_reach.work [OF sym_reach.begin_unit statics_ops(1)]] statics_ops(2)] .
  have n: "st_names two_statics 0 = Some ''x''" "st_names two_statics 1 = Some ''x''" by code_simp+
  have "case asm_name 0 two_statics of Some (n, s1) \<Rightarrow> n = ''x.1'' \<and> (case asm_name 1 s1 of Some (m, s2) \<Rightarrow> m = ''x.2'' | None \<Rightarrow> False) | None \<Rightarrow> False"
    by code_simp
  then obtain s1 s2 where l: "asm_name 0 two_statics = Some (''x.1'', s1)" "asm_name 1 s1 = Some (''x.2'', s2)"
    by (auto split: option.split_asm prod.split_asm)
  then show ?thesis using asm_labels_distinct [OF r _ n _ _ l] by simp
qed

text \<open>C40: A redeclaration replaces the type of a variable, also by a less complete one: when an array of known size is declared
  again without its size, as in \<open>int a[3]; extern int a[];\<close>, the variable is left with an incomplete type of the
  size of one element.\<close>

theorem redeclaration_loses_size:
  assumes "sc_vars (top_scope s) name = Some (Var v)" "st_ctype s v = mk_array H el (Some n)" "st_linkage_type s v = l" "d \<noteq> Defined"
  shows "\<exists>s'. add_variable name (mk_array H el None) d l stg s = Inr (v, s') \<and> \<not> is_complete H (st_ctype s' v) \<and>
    size_of H (st_ctype s v) = n * size_of H el \<and> size_of H (st_ctype s' v) = size_of H el"
proof -
  have "declared_var name (mk_array H el None) d l s = Inr (v, s)" using assms by (simp add: declared_var_def)
  moreover have "compatible (st_ctype s v) (mk_array H el None)" using compatible_refl [of el] by (simp add: assms(2) mk_array_def)
  ultimately have "add_variable name (mk_array H el None) d l stg s = Inr (v, record_variable name v (mk_array H el None) d l stg s)"
    by (simp add: add_variable_def)
  then show ?thesis by (simp add: record_variable_sel assms(2) mk_array_def is_complete_def size_of_def)
qed

definition one_array :: symtab where
  "one_array = (case add_variable ''a'' (mk_array (\<lambda>_. None) integer_t (Some 3)) Tentative (Some External) (Some Static) init_symtab of Inr (v, s) \<Rightarrow> s | Inl e \<Rightarrow> init_symtab)"

theorem redeclaration_loses_size_witness:
  "\<exists>s'. add_variable ''a'' (mk_array (\<lambda>_. None) integer_t None) Undefined (Some External) (Some Static) one_array = Inr (0, s') \<and>
     size_of (\<lambda>_. None) (st_ctype one_array 0) = 12 \<and> size_of (\<lambda>_. None) (st_ctype s' 0) = 4"
proof -
  have "sc_vars (top_scope one_array) ''a'' = Some (Var 0)" "st_ctype one_array 0 = mk_array (\<lambda>_. None) integer_t (Some 3)"
    "st_linkage_type one_array 0 = Some External" "Undefined \<noteq> Defined" "size_of (\<lambda>_. None) integer_t = 4" by code_simp+
  then show ?thesis using redeclaration_loses_size [of one_array "''a''" 0 "\<lambda>_. None" integer_t 3 "Some External" Undefined "Some Static"] by auto
qed

end
