(* ===== verification/Numbers.thy ===== *)
theory Numbers
  imports CTypes AsmCmds
begin

text \<open>
  Integer constants: the scanner \<open>_match_int_const\<close> of \<open>shivyc/lexer.py\<close>, \<open>parse_c_int\<close> of \<open>shivyc/tokens.py\<close>, and
  the type and value \<open>Number.make_il\<close> of \<open>shivyc/tree/primary_exprs.py\<close> gives a constant.
\<close>

section \<open>Scanning\<close>

definition is_dig :: "char \<Rightarrow> bool" where
  "is_dig c = (digit_val c \<noteq> None)"

definition hex_val :: "char \<Rightarrow> nat option" where
  "hex_val c = (let k = (of_char c :: nat) in
     if digit_val c \<noteq> None then digit_val c
     else if 97 \<le> k \<and> k \<le> 102 then Some (k - 87) else if 65 \<le> k \<and> k \<le> 70 then Some (k - 55) else None)"

definition is_hex :: "char \<Rightarrow> bool" where
  "is_hex c = (hex_val c \<noteq> None)"

definition int_suffix_char :: "char \<Rightarrow> bool" where
  "int_suffix_char c = (c \<in> set ''uUlL'')"

text \<open>What \<open>_scan_digits\<close> and \<open>_scan_hex\<close> leave of the text, and whether they read anything.\<close>

definition scan_while :: "(char \<Rightarrow> bool) \<Rightarrow> string \<Rightarrow> string \<times> bool" where
  "scan_while P s = (dropWhile P s, takeWhile P s \<noteq> [])"

definition has_prefix :: "string list \<Rightarrow> string \<Rightarrow> bool" where
  "has_prefix ps s = (take 2 s \<in> set ps)"

definition match_int_const :: "string \<Rightarrow> bool" where
  "match_int_const s =
     (if s = [] then False
      else let (rest, ok) = (if has_prefix [''0x'', ''0X''] s then scan_while is_hex (drop 2 s)
             else if has_prefix [''0b'', ''0B''] s then scan_while (\<lambda>c. c \<in> set ''01'') (drop 2 s)
             else scan_while is_dig s) in
        ok \<and> dropWhile int_suffix_char rest = [])"

section \<open>The value\<close>

text \<open>\<open>int(core, base)\<close> of a digit string; no digit, or one outside the base, is ValueError.\<close>

fun digits_in :: "nat \<Rightarrow> int \<Rightarrow> string \<Rightarrow> int option" where
  "digits_in b acc [] = Some acc"
| "digits_in b acc (c # cs) = (case hex_val c of None \<Rightarrow> None | Some d \<Rightarrow> if d < b then digits_in b (int b * acc + int d) cs else None)"

definition int_base :: "nat \<Rightarrow> string \<Rightarrow> int option" where
  "int_base b s = (if s = [] then None else digits_in b 0 s)"

definition strip_suffix :: "string \<Rightarrow> string" where
  "strip_suffix s = rev (dropWhile int_suffix_char (rev s))"

text \<open>\<open>parse_c_int\<close> of a number token, or of the negative decimal that stands for a multi-character constant.\<close>

definition parse_c_int :: "string \<Rightarrow> int option" where
  "parse_c_int s =
     (let core = strip_suffix s in
      if has_prefix [''0x'', ''0X''] core then int_base 16 (drop 2 core)
      else if has_prefix [''0b'', ''0B''] core then int_base 2 (drop 2 core)
      else if length core > 1 \<and> take 1 core = ''0'' then int_base 8 core
      else if core = [] then Some 0
      else if take 1 core = ''-'' then map_option uminus (int_base 10 (drop 1 core))
      else int_base 10 core)"

section \<open>The type\<close>

definition int_range :: "ctype \<Rightarrow> int \<times> int" where
  "int_range t = (case t of
       IntegerT _ sz sg _ _ \<Rightarrow> (if sg then (- (2 ^ nat (8 * sz - 1)), 2 ^ nat (8 * sz - 1) - 1) else (0, 2 ^ nat (8 * sz) - 1))
     | _ \<Rightarrow> (0, 0))"

definition lower :: "char \<Rightarrow> char" where
  "lower c = (if 65 \<le> (of_char c :: nat) \<and> (of_char c :: nat) \<le> 90 then char_of ((of_char c :: nat) + 32) else c)"

definition suffix_of :: "string \<Rightarrow> string" where
  "suffix_of s = map lower (drop (length (strip_suffix s)) s)"

definition number_candidates :: "string \<Rightarrow> ctype list" where
  "number_candidates s =
     (let body = strip_suffix s; suffix = suffix_of s;
          has_u = CHR ''u'' \<in> set suffix; has_l = CHR ''l'' \<in> set suffix;
          is_decimal = (\<not> has_prefix [''0x'', ''0X'', ''0b'', ''0B''] body \<and> \<not> (length body > 1 \<and> take 1 body = ''0'')) in
      if has_u then (if has_l then [unsig_longint] else [unsig_int, unsig_longint])
      else if is_decimal then (if has_l then [longint] else [integer_t, longint])
      else (if has_l then [longint, unsig_longint] else [integer_t, unsig_int, longint, unsig_longint]))"

definition number_type :: "string \<Rightarrow> int \<Rightarrow> ctype option" where
  "number_type s v = List.find (\<lambda>t. fst (int_range t) \<le> v \<and> v \<le> snd (int_range t)) (number_candidates s)"

end
