(* ===== verification/ILGen.thy ===== *)
theory ILGen
  imports Complex_Main SymTab Peephole
begin

unbundle bit_operations_syntax

text \<open>
  What the syntax tree builds on to emit commands: \<open>class ILCode\<close> and \<open>class ILValue\<close> of \<open>shivyc/il_gen.py\<close> and
  the conversions and lvalues of \<open>shivyc/tree/utils.py\<close>.  \<open>gen_state\<close> is everything \<open>make_il\<close> may change: the
  symbol table (which also numbers the values and types them), the attributes of the values, the code of the current
  function with its literals, the labels handed out, and what the nodes and lvalues cache.  An operation that raises,
  or reports an error (\<open>report_err\<close>) after which the unit is rejected, is \<^const>\<open>None\<close>.  Floating constants
  are rationals: finite doubles, rounded to 53 bits.
\<close>

section \<open>State\<close>

datatype lit_const = IntLit int | FloatLit rat | StrLit

datatype lvalue =
    DirectLV nat
  | IndirectLV nat
  | RelativeLV nat ctype nat int "nat option"   \<comment> \<open>identity, ctype, base, chunk, count\<close>
  | BitFieldLV lvalue int bool                  \<comment> \<open>base, width, signed\<close>

record gen_state =
  g_syms :: symtab
  g_heap :: sheap
  g_members :: me_state
  g_literal :: "nat \<rightharpoonup> lit_const"        \<comment> \<open>\<open>ILValue.literal\<close>\<close>
  g_addr_of :: "nat \<rightharpoonup> nat"          \<comment> \<open>\<open>ILValue.addr_of\<close>\<close>
  g_code :: "il list"
  g_literals :: lits
  g_floats :: "nat \<rightharpoonup> rat"
  g_strings :: "nat \<rightharpoonup> int list"
  g_labels :: nat
  g_lvalues :: "nat \<rightharpoonup> lvalue"       \<comment> \<open>\<open>_cache_lvalue\<close> of a node\<close>
  g_fixed :: "nat \<rightharpoonup> int \<times> nat option" \<comment> \<open>\<open>fixed_chunk\<close> and \<open>fixed_count\<close> of a relative lvalue\<close>
  g_switches :: "((int \<times> string) list \<times> string option) list" \<comment> \<open>the \<open>_SwitchCollector\<close> objects\<close>
  g_gotos :: "string \<rightharpoonup> string"     \<comment> \<open>\<open>Context.labels\<close> of the function\<close>
  g_statics :: "nat \<rightharpoonup> lit_const"       \<comment> \<open>\<open>static_inits\<close>\<close>

abbreviation ctype_of :: "gen_state \<Rightarrow> nat \<Rightarrow> ctype" where
  "ctype_of st v \<equiv> st_ctype (g_syms st) v"

abbreviation next_val :: "gen_state \<Rightarrow> nat" where
  "next_val st \<equiv> st_next (g_syms st)"

definition gen_size :: "gen_state \<Rightarrow> ctype \<Rightarrow> int" where
  "gen_size st t = size_of (g_heap st) t"

section \<open>\<open>ILCode\<close> and \<open>ILValue\<close>\<close>

definition new_ilvalue :: "ctype \<Rightarrow> gen_state \<Rightarrow> nat \<times> gen_state" where
  "new_ilvalue t st = (let (v, s) = new_var t (g_syms st) in (v, st\<lparr>g_syms := s\<rparr>))"

definition add_cmd :: "il \<Rightarrow> gen_state \<Rightarrow> gen_state" where
  "add_cmd c st = st\<lparr>g_code := g_code st @ [c]\<rparr>"

text \<open>\<open>register_literal_var\<close> with an integer, or with the decimal text of one.\<close>

definition register_literal :: "nat \<Rightarrow> int \<Rightarrow> gen_state \<Rightarrow> gen_state" where
  "register_literal v i st = st\<lparr>g_literal := (g_literal st)(v \<mapsto> IntLit i), g_literals := (g_literals st)(v \<mapsto> LInt i)\<rparr>"

definition register_literal_text :: "nat \<Rightarrow> int \<Rightarrow> gen_state \<Rightarrow> gen_state" where
  "register_literal_text v i st =
     st\<lparr>g_literal := (g_literal st)(v \<mapsto> IntLit i), g_literals := (g_literals st)(v \<mapsto> LStr (int_str i))\<rparr>"

definition register_float :: "nat \<Rightarrow> rat \<Rightarrow> gen_state \<Rightarrow> gen_state" where
  "register_float v x st = st\<lparr>g_literal := (g_literal st)(v \<mapsto> FloatLit x), g_floats := (g_floats st)(v \<mapsto> x)\<rparr>"

definition register_string :: "nat \<Rightarrow> int list \<Rightarrow> gen_state \<Rightarrow> gen_state" where
  "register_string v chars st = st\<lparr>g_literal := (g_literal st)(v \<mapsto> StrLit), g_strings := (g_strings st)(v \<mapsto> chars)\<rparr>"

definition gen_label :: "gen_state \<Rightarrow> string \<times> gen_state" where
  "gen_label st = (let n = Suc (g_labels st) in (''__shivyc_label'' @ nat_str n, st\<lparr>g_labels := n\<rparr>))"

text \<open>A fresh value that stands for an integer literal.\<close>

definition literal_value :: "ctype \<Rightarrow> int \<Rightarrow> gen_state \<Rightarrow> nat \<times> gen_state" where
  "literal_value t i st = (let (v, st) = new_ilvalue t st in (v, register_literal v i st))"

definition literal_text_value :: "ctype \<Rightarrow> int \<Rightarrow> gen_state \<Rightarrow> nat \<times> gen_state" where
  "literal_text_value t i st = (let (v, st) = new_ilvalue t st in (v, register_literal_text v i st))"

section \<open>Constants\<close>

text \<open>Rounding to 53 bits, ties to even; \<open>float(i)\<close> and the quotient of two integers round like this.\<close>

function bit_length :: "int \<Rightarrow> nat" where
  "bit_length n = (if n \<le> 0 then 0 else Suc (bit_length (n div 2)))"
  by pat_completeness auto
termination by (relation "measure nat") auto

declare bit_length.simps [simp del]

definition fl_exp :: "rat \<Rightarrow> int" where
  "fl_exp x = (let (n, d) = quotient_of x; e = int (bit_length \<bar>n\<bar>) - int (bit_length d) - 53 in
     if \<bar>x\<bar> \<ge> 2 powi (e + 53) then e + 1 else e)"

definition round_even :: "rat \<Rightarrow> int" where
  "round_even x = (let f = \<lfloor>x\<rfloor>; r = x - of_int f in
     if r < 1 / 2 then f else if r > 1 / 2 then f + 1 else if even f then f else f + 1)"

definition fl_round :: "rat \<Rightarrow> rat" where
  "fl_round x = (if x = 0 then 0 else (let e = fl_exp x in of_int (round_even (x / 2 powi e)) * 2 powi e))"

definition fl_trunc :: "rat \<Rightarrow> int" where
  "fl_trunc x = (if x < 0 then \<lceil>x\<rceil> else \<lfloor>x\<rfloor>)"

definition lit_is_zero :: "lit_const option \<Rightarrow> bool" where
  "lit_is_zero l = (case l of Some (IntLit i) \<Rightarrow> i = 0 | Some (FloatLit x) \<Rightarrow> x = 0 | _ \<Rightarrow> False)"

definition shift_into_range :: "int \<Rightarrow> ctype \<Rightarrow> int" where
  "shift_into_range val t = (case t of
       IntegerT _ sz sg _ _ \<Rightarrow>
         (let bits = nat (sz * 8); mask = 2 ^ bits - 1; v = val AND mask in
          if sg \<and> v AND 2 ^ (bits - 1) \<noteq> 0 then v - 2 ^ bits else v)
     | _ \<Rightarrow> val)"

section \<open>Conversions\<close>

definition set_type :: "nat \<Rightarrow> ctype \<Rightarrow> nat option \<Rightarrow> gen_state \<Rightarrow> (nat \<times> gen_state) option" where
  "set_type v t output st =
     (if output = None \<and> compatible (ctype_of st v) t then Some (v, st)
      else if output = Some v then Some (v, st)
      else case (output, g_literal st v) of
        (None, Some l) \<Rightarrow>
          (let (out, st) = new_ilvalue t st in
           if is_floating t then (case l of
               IntLit i \<Rightarrow> Some (out, register_float out (fl_round (of_int i)) st)
             | FloatLit x \<Rightarrow> Some (out, register_float out x st)
             | StrLit \<Rightarrow> None)
           else if is_integral t then (case l of
               IntLit i \<Rightarrow> Some (out, register_literal out (shift_into_range i t) st)
             | FloatLit x \<Rightarrow> Some (out, register_literal out (shift_into_range (fl_trunc x) t) st)
             | StrLit \<Rightarrow> None)
           else (case l of IntLit i \<Rightarrow> Some (out, register_literal out i st) | _ \<Rightarrow> None))
      | (None, None) \<Rightarrow> (let (out, st) = new_ilvalue t st in Some (out, add_cmd (SetCmd out v) st))
      | (Some out, _) \<Rightarrow> Some (out, add_cmd (SetCmd out v) st))"

definition ctype_signed :: "ctype \<Rightarrow> bool option" where
  "ctype_signed t = (case t of IntegerT _ _ sg _ _ \<Rightarrow> Some sg | _ \<Rightarrow> None)"

definition arith_conversion_type :: "gen_state \<Rightarrow> ctype \<Rightarrow> ctype \<Rightarrow> ctype option" where
  "arith_conversion_type st t1 t2 =
     (if is_floating t1 \<or> is_floating t2 then
        Some (if is_floating t1 \<and> is_floating t2 then (if gen_size st t1 \<ge> gen_size st t2 then t1 else t2)
              else if is_floating t1 then t1 else t2)
      else let p1 = (if gen_size st t1 < 4 then integer_t else t1); p2 = (if gen_size st t2 < 4 then integer_t else t2);
               n1 = gen_size st p1; n2 = gen_size st p2 in
        if weak_compat p1 p2 then Some p1
        else case (ctype_signed p1, ctype_signed p2) of
          (Some sg1, Some sg2) \<Rightarrow>
            (if sg1 = sg2 then Some (if n1 \<ge> n2 then p1 else p2)
             else if \<not> sg1 \<and> n1 \<ge> n2 then Some p1
             else if \<not> sg2 \<and> n2 \<ge> n1 then Some p2
             else if sg1 \<and> n1 > n2 then Some p1
             else if sg2 \<and> n2 > n1 then Some p2 else None)
        | _ \<Rightarrow> None)"

definition arith_convert :: "nat \<Rightarrow> nat \<Rightarrow> gen_state \<Rightarrow> (nat \<times> nat \<times> gen_state) option" where
  "arith_convert l r st = do {
     t \<leftarrow> arith_conversion_type st (ctype_of st l) (ctype_of st r);
     (l, st) \<leftarrow> set_type l t None st;
     (r, st) \<leftarrow> set_type r t None st;
     Some (l, r, st) }"

definition get_size :: "ctype \<Rightarrow> nat \<Rightarrow> gen_state \<Rightarrow> (nat \<times> gen_state) option" where
  "get_size t num st = do {
     (long_num, st) \<leftarrow> set_type num longint None st;
     if gen_size st t = 1 then Some (long_num, st)
     else (let (total, st) = new_ilvalue longint st; (size, st) = literal_text_value longint (gen_size st t) st in
       Some (total, add_cmd (Arith Mult total long_num size) st)) }"

text \<open>The qualifiers of the pointed-to types: the target keeps the \<open>const\<close> of the source.\<close>

definition keeps_const :: "ctype \<Rightarrow> ctype \<Rightarrow> bool" where
  "keeps_const arg from_arg = (\<not> const_of from_arg \<or> const_of arg)"

definition pointer_cast_ok :: "ctype \<Rightarrow> ctype \<Rightarrow> bool" where
  "pointer_cast_ok arg from_arg = (keeps_const arg from_arg \<and>
     (weak_compat arg from_arg \<or> is_void arg \<and> is_object from_arg \<or> is_object arg \<and> is_void from_arg
      \<or> is_void arg \<and> is_function from_arg \<or> is_function arg \<and> is_void from_arg))"

definition pointee_type :: "ctype \<Rightarrow> ctype option" where
  "pointee_type t = (case t of PointerT arg _ _ \<Rightarrow> Some arg | _ \<Rightarrow> None)"

text \<open>\<open>ArrayCType\<close> has no \<open>weak_compat\<close>: a pointer to an array as the target raises.\<close>

definition check_cast :: "nat \<Rightarrow> ctype \<Rightarrow> gen_state \<Rightarrow> bool" where
  "check_cast v t st =
     (let t0 = ctype_of st v; l = g_literal st v in
      if is_array t0 then False
      else if weak_compat t0 t then True
      else if is_arith t \<and> is_arith t0 then True
      else case (pointee_type t, pointee_type t0) of
        (Some arg, Some arg0) \<Rightarrow> \<not> is_array arg \<and> (pointer_cast_ok arg arg0 \<or> lit_is_zero l)
      | (Some _, None) \<Rightarrow> is_integral t0 \<or> lit_is_zero l
      | (None, Some _) \<Rightarrow> is_integral t \<or> is_bool t
      | (None, None) \<Rightarrow> False)"

section \<open>Lvalues\<close>

fun lv_ctype :: "gen_state \<Rightarrow> lvalue \<Rightarrow> ctype option" where
  "lv_ctype st (DirectLV v) = Some (ctype_of st v)"
| "lv_ctype st (IndirectLV a) = pointee_type (ctype_of st a)"
| "lv_ctype st (RelativeLV i t b ch cnt) = Some t"
| "lv_ctype st (BitFieldLV b w sg) = lv_ctype st b"

definition const_member :: "sheap \<Rightarrow> ctype \<Rightarrow> bool" where
  "const_member H t = (case t of SUT _ a _ _ \<Rightarrow> (case H a of
       Some ob \<Rightarrow> (case so_members ob of Some ms \<Rightarrow> list_ex (\<lambda>(m, t). const_of t) ms | None \<Rightarrow> False) | None \<Rightarrow> False) | _ \<Rightarrow> False)"

definition modable :: "gen_state \<Rightarrow> ctype \<Rightarrow> bool" where
  "modable st t = (\<not> is_array t \<and> \<not> is_incomplete (g_heap st) t \<and> \<not> const_of t \<and> \<not> const_member (g_heap st) t)"

text \<open>\<open>_fix_chunk_count\<close>: the chunk and count of the lvalue with this identity, computed once.\<close>

definition legal_chunk :: "int \<Rightarrow> int" where
  "legal_chunk ch = (if ch mod 8 = 0 then 8 else if ch mod 4 = 0 then 4 else if ch mod 2 = 0 then 2 else 1)"

definition remember_fixed :: "nat \<Rightarrow> int \<times> nat option \<Rightarrow> gen_state \<Rightarrow> gen_state" where
  "remember_fixed i p st = st\<lparr>g_fixed := (g_fixed st)(i \<mapsto> p)\<rparr>"

definition fix_chunk_count :: "nat \<Rightarrow> int \<Rightarrow> nat option \<Rightarrow> gen_state \<Rightarrow> ((int \<times> nat option) \<times> gen_state) option" where
  "fix_chunk_count i ch cnt st =
     (case g_fixed st i of
        Some p \<Rightarrow> Some (p, st)
      | None \<Rightarrow> (case cnt of
          None \<Rightarrow> Some ((ch, None), if ch = 0 then st else remember_fixed i (ch, None) st)
        | Some k \<Rightarrow> do {
            (resized, st) \<leftarrow> set_type k longint None st;
            if ch \<in> {8, 4, 2, 1} then Some ((ch, Some resized), remember_fixed i (ch, Some resized) st)
            else (let (scale, st) = literal_text_value longint (ch div legal_chunk ch) st;
                      (count, st) = new_ilvalue longint st;
                      st = add_cmd (Arith Mult count resized scale) st in
              Some ((legal_chunk ch, Some count), remember_fixed i (legal_chunk ch, Some count) st)) }))"

definition direct_addr :: "nat \<Rightarrow> gen_state \<Rightarrow> nat \<times> gen_state" where
  "direct_addr v st =
     (let (out, st) = new_ilvalue (mk_pointer False (ctype_of st v) False) st; st = add_cmd (AddrOf out v) st in
      (out, st\<lparr>g_addr_of := (g_addr_of st)(out \<mapsto> v)\<rparr>))"

fun lv_addr :: "lvalue \<Rightarrow> gen_state \<Rightarrow> (nat \<times> gen_state) option" where
  "lv_addr (DirectLV v) st = Some (direct_addr v st)"
| "lv_addr (IndirectLV a) st = Some (a, st)"
| "lv_addr (RelativeLV i t b ch cnt) st = do {
     ((ch, cnt), st) \<leftarrow> fix_chunk_count i ch cnt st;
     let (out, st) = new_ilvalue (mk_pointer False t False) st in Some (out, add_cmd (AddrRel out b ch cnt) st) }"
| "lv_addr (BitFieldLV b w sg) st = None"

text \<open>Reading a bit field of the storage unit \<open>v\<close>: \<open>BitFieldLValue.val\<close>.\<close>

definition bitfield_read :: "ctype \<Rightarrow> int \<Rightarrow> bool \<Rightarrow> nat \<Rightarrow> gen_state \<Rightarrow> nat \<times> gen_state" where
  "bitfield_read t width sg v st =
     (let bits = gen_size st t * 8 in
      if width \<ge> bits then (v, st)
      else if sg then
        (let (sh, st) = literal_value t (bits - width) st; (tmp, st) = new_ilvalue t st;
             st = add_cmd (BitShift LBitShift tmp v sh) st; (out, st) = new_ilvalue t st in
         (out, add_cmd (BitShift RBitShift out tmp sh) st))
      else
        (let (mask, st) = literal_value t (2 ^ nat width - 1) st; (out, st) = new_ilvalue t st in
         (out, add_cmd (Arith BitAnd out v mask) st)))"

fun lv_val :: "lvalue \<Rightarrow> gen_state \<Rightarrow> (nat \<times> gen_state) option" where
  "lv_val (DirectLV v) st = Some (v, st)"
| "lv_val (IndirectLV a) st = do {
     t \<leftarrow> pointee_type (ctype_of st a);
     let (out, st) = new_ilvalue t st in Some (out, add_cmd (ReadAt out a) st) }"
| "lv_val (RelativeLV i t b ch cnt) st = do {
     ((ch, cnt), st) \<leftarrow> fix_chunk_count i ch cnt st;
     let (out, st) = new_ilvalue t st in Some (out, add_cmd (ReadRel out b ch cnt) st) }"
| "lv_val (BitFieldLV b w sg) st = do {
     t \<leftarrow> lv_ctype st b;
     (v, st) \<leftarrow> lv_val b st;
     Some (bitfield_read t w sg v st) }"

text \<open>\<open>set_to\<close>, after the check that the conversion is allowed.\<close>

definition cast_to :: "nat \<Rightarrow> ctype \<Rightarrow> nat option \<Rightarrow> gen_state \<Rightarrow> (nat \<times> gen_state) option" where
  "cast_to v t output st = (if check_cast v t st then set_type v t output st else None)"

fun lv_set_to :: "lvalue \<Rightarrow> nat \<Rightarrow> gen_state \<Rightarrow> (nat \<times> gen_state) option" where
  "lv_set_to (DirectLV v) r st = cast_to r (ctype_of st v) (Some v) st"
| "lv_set_to (IndirectLV a) r st = do {
     t \<leftarrow> pointee_type (ctype_of st a);
     (x, st) \<leftarrow> cast_to r t None st;
     Some (x, add_cmd (SetAt a x) st) }"
| "lv_set_to (RelativeLV i t b ch cnt) r st = do {
     ((ch, cnt), st) \<leftarrow> fix_chunk_count i ch cnt st;
     (x, st) \<leftarrow> cast_to r t None st;
     Some (x, add_cmd (SetRel x b ch cnt) st) }"
| "lv_set_to (BitFieldLV b w sg) r st = do {
     t \<leftarrow> lv_ctype st b;
     (x, st) \<leftarrow> set_type r t None st;
     let (masked, st) = (if w < gen_size st t * 8 then
           (let (mask, st) = literal_value t (2 ^ nat w - 1) st; (out, st) = new_ilvalue t st in
            (out, add_cmd (Arith BitAnd out x mask) st)) else (x, st));
     (y, st) \<leftarrow> lv_set_to b masked st;
     lv_val (BitFieldLV b w sg) st }"

end
