(* ===== verification/ExprGen.thy ===== *)
theory ExprGen
  imports ILGen Numbers
begin

unbundle bit_operations_syntax

text \<open>
  \<open>make_il\<close> and \<open>lvalue\<close> of the expression nodes (\<open>shivyc/tree/\<close>: \<open>expr_base.py\<close>, \<open>arithmetic_exprs.py\<close>,
  \<open>comparison_exprs.py\<close>, \<open>unary_exprs.py\<close>, \<open>boolean_exprs.py\<close>, \<open>assignment_exprs.py\<close>, \<open>primary_exprs.py\<close>,
  \<open>memory_exprs.py\<close>, \<open>call_exprs.py\<close>, \<open>type_exprs.py\<close>).  A node that caches its lvalue carries the number of its
  cache.  Length contracts, compound literals, statement expressions and the variadic builtins are left out.
\<close>

section \<open>The tree\<close>

datatype bin_op = OpArith arith | OpDiv div_mod | OpShift shift_dir | OpCmp cmp_kind
datatype un_op = UPlus | UMinus | UCompl
datatype incr_op = PreIncr | PostIncr | PreDecr | PostDecr

datatype expr =
    Number string
  | FloatNumber ctype rat            \<comment> \<open>a floating constant with its type and value\<close>
  | StringE nat "int list" bool
  | Identifier nat string
  | ParenExpr expr
  | MultiExpr expr expr
  | BinOp bin_op expr expr
  | UnOp un_op expr
  | BoolAnd expr expr
  | BoolOr expr expr
  | BoolNot expr
  | Conditional expr expr expr
  | Equals expr expr
  | Compound bin_op expr expr
  | IncrDecr incr_op expr
  | AddrOfE expr
  | Deref nat expr
  | ArraySubsc nat expr expr
  | ObjMember nat expr string
  | ObjPtrMember nat expr string
  | FuncCall expr "expr list"
  | Cast ctype expr                  \<comment> \<open>the type its declaration denotes\<close>
  | SizeofExpr expr
  | SizeofType ctype

section \<open>Binary operators\<close>

text \<open>\<open>_arith_const\<close>: \<^term>\<open>None\<close> when Python raises, \<^term>\<open>Some None\<close> for NotImplementedError.\<close>

definition c_mod :: "int \<Rightarrow> int \<Rightarrow> int" where
  "c_mod l r = (let q = \<bar>l\<bar> div \<bar>r\<bar>; q = (if (l < 0) \<noteq> (r < 0) then - q else q) in l - q * r)"

definition cmp_const :: "cmp_kind \<Rightarrow> int \<Rightarrow> int \<Rightarrow> bool" where
  "cmp_const k l r = (case k of NotEqualCmp \<Rightarrow> l \<noteq> r | EqualCmp \<Rightarrow> l = r | LessCmp \<Rightarrow> l < r | GreaterCmp \<Rightarrow> l > r
     | LessOrEqCmp \<Rightarrow> l \<le> r | GreaterOrEqCmp \<Rightarrow> l \<ge> r)"

definition arith_const :: "bin_op \<Rightarrow> int \<Rightarrow> int \<Rightarrow> ctype \<Rightarrow> int option option" where
  "arith_const op l r t = (case op of
       OpArith a \<Rightarrow> Some (Some (shift_into_range (case a of Add \<Rightarrow> l + r | Subtr \<Rightarrow> l - r | Mult \<Rightarrow> l * r
          | BitAnd \<Rightarrow> l AND r | BitOr \<Rightarrow> l OR r | BitXor \<Rightarrow> l XOR r) t))
     | OpDiv DivOp \<Rightarrow> (if r = 0 then None else Some (Some (shift_into_range (fl_trunc (fl_round (of_int l / of_int r))) t)))
     | OpDiv ModOp \<Rightarrow> (if r = 0 then Some None else Some (Some (shift_into_range (c_mod l r) t)))
     | OpShift d \<Rightarrow> (if r < 0 then None else Some (Some (shift_into_range
          (case d of LBitShift \<Rightarrow> l * 2 ^ nat r | RBitShift \<Rightarrow> l div 2 ^ nat r) t)))
     | OpCmp k \<Rightarrow> Some (Some (if cmp_const k l r then 1 else 0)))"

definition float_const :: "bin_op \<Rightarrow> rat \<Rightarrow> rat \<Rightarrow> rat option" where
  "float_const op l r = (case op of
       OpArith Add \<Rightarrow> Some (fl_round (l + r)) | OpArith Subtr \<Rightarrow> Some (fl_round (l - r)) | OpArith Mult \<Rightarrow> Some (fl_round (l * r))
     | OpDiv DivOp \<Rightarrow> if r \<noteq> 0 then Some (fl_round (l / r)) else None
     | _ \<Rightarrow> None)"

definition const_ctype :: "bin_op \<Rightarrow> ctype \<Rightarrow> ctype" where
  "const_ctype op t = (case op of OpCmp _ \<Rightarrow> integer_t | _ \<Rightarrow> t)"

definition il_binop :: "bin_op \<Rightarrow> nat \<Rightarrow> nat \<Rightarrow> nat \<Rightarrow> il" where
  "il_binop op out l r = (case op of OpArith a \<Rightarrow> Arith a out l r | OpDiv d \<Rightarrow> DivMod d out l r
     | OpShift d \<Rightarrow> BitShift d out l r | OpCmp k \<Rightarrow> Compare k out l r None)"

definition check_operands :: "bin_op \<Rightarrow> ctype \<Rightarrow> ctype \<Rightarrow> bool" where
  "check_operands op t1 t2 = (case op of
       OpDiv ModOp \<Rightarrow> is_integral t1 \<and> is_integral t2
     | OpShift _ \<Rightarrow> is_integral t1 \<and> is_integral t2
     | _ \<Rightarrow> is_arith t1 \<and> is_arith t2)"

text \<open>\<open>_arith\<close>: the operation at run time.\<close>

definition emit_binop :: "bin_op \<Rightarrow> nat \<Rightarrow> nat \<Rightarrow> gen_state \<Rightarrow> nat \<times> gen_state" where
  "emit_binop op l r st = (let (out, st) = new_ilvalue (const_ctype op (ctype_of st l)) st in (out, add_cmd (il_binop op out l r) st))"

definition fold_or_emit :: "bin_op \<Rightarrow> nat \<Rightarrow> nat \<Rightarrow> gen_state \<Rightarrow> (nat \<times> gen_state) option" where
  "fold_or_emit op l r st =
     (let t = ctype_of st l in
      case (g_literal st l, g_literal st r) of
        (Some (IntLit i), Some (IntLit j)) \<Rightarrow>
          if is_floating t then None
          else (case arith_const op (shift_into_range i t) (shift_into_range j (ctype_of st r)) t of
              None \<Rightarrow> None
            | Some (Some k) \<Rightarrow> Some (literal_value (const_ctype op t) k st)
            | Some None \<Rightarrow> Some (emit_binop op l r st))
      | (Some (FloatLit x), Some (FloatLit y)) \<Rightarrow>
          if \<not> is_floating t then None
          else (case float_const op x y of
              Some z \<Rightarrow> (let (out, st) = new_ilvalue (const_ctype op t) st in Some (out, register_float out z st))
            | None \<Rightarrow> Some (emit_binop op l r st))
      | (Some _, Some _) \<Rightarrow> None
      | _ \<Rightarrow> Some (emit_binop op l r st))"

text \<open>\<open>_nonarith\<close> of each operator.\<close>

definition unqual_compatible :: "ctype \<Rightarrow> ctype \<Rightarrow> bool" where
  "unqual_compatible t u = compatible (set_const False t) (set_const False u)"

definition pointer_step :: "arith \<Rightarrow> nat \<Rightarrow> nat \<Rightarrow> ctype \<Rightarrow> gen_state \<Rightarrow> (nat \<times> gen_state) option" where
  "pointer_step op p i arg st =
     (if \<not> is_complete (g_heap st) arg then None
      else (let (out, st) = new_ilvalue (ctype_of st p) st in do {
        (sh, st) \<leftarrow> get_size arg i st;
        Some (out, add_cmd (Arith op out p sh) st) }))"

definition plus_nonarith :: "nat \<Rightarrow> nat \<Rightarrow> gen_state \<Rightarrow> (nat \<times> gen_state) option" where
  "plus_nonarith l r st = (case (pointee_type (ctype_of st l), pointee_type (ctype_of st r)) of
       (Some arg, None) \<Rightarrow> if is_integral (ctype_of st r) then pointer_step Add l r arg st else None
     | (None, Some arg) \<Rightarrow> if is_integral (ctype_of st l) then pointer_step Add r l arg st else None
     | _ \<Rightarrow> None)"

definition pointer_difference :: "nat \<Rightarrow> nat \<Rightarrow> ctype \<Rightarrow> ctype \<Rightarrow> gen_state \<Rightarrow> (nat \<times> gen_state) option" where
  "pointer_difference l r arg arg' st =
     (if \<not> is_complete (g_heap st) arg \<or> \<not> is_complete (g_heap st) arg' then None
      else (let (raw, st) = new_ilvalue longint st; st = add_cmd (Arith Subtr raw l r) st; (out, st) = new_ilvalue longint st;
                (size, st) = literal_text_value longint (gen_size st arg) st in
        Some (out, add_cmd (DivMod DivOp out raw size) st)))"

definition minus_nonarith :: "nat \<Rightarrow> nat \<Rightarrow> gen_state \<Rightarrow> (nat \<times> gen_state) option" where
  "minus_nonarith l r st = (case (pointee_type (ctype_of st l), pointee_type (ctype_of st r)) of
       (Some arg, Some arg') \<Rightarrow> if unqual_compatible arg arg' then pointer_difference l r arg arg' st else None
     | (Some arg, None) \<Rightarrow> if is_integral (ctype_of st r) then pointer_step Subtr l r arg st else None
     | _ \<Rightarrow> None)"

definition null_to_pointer :: "nat \<Rightarrow> nat \<Rightarrow> gen_state \<Rightarrow> (nat \<times> nat \<times> gen_state) option" where
  "null_to_pointer l r st =
     (if is_pointer (ctype_of st l) \<and> lit_is_zero (g_literal st r)
      then map_option (\<lambda>(r, st). (l, r, st)) (set_type r (ctype_of st l) None st)
      else if is_pointer (ctype_of st r) \<and> lit_is_zero (g_literal st l)
      then map_option (\<lambda>(l, st). (l, r, st)) (set_type l (ctype_of st r) None st)
      else Some (l, r, st))"

definition common_pointer :: "nat \<Rightarrow> nat \<Rightarrow> gen_state \<Rightarrow> (nat \<times> nat \<times> gen_state) option" where
  "common_pointer l r st = (case (pointee_type (ctype_of st l), pointee_type (ctype_of st r)) of
       (Some arg, Some arg') \<Rightarrow>
         if is_void arg \<or> is_void arg' then
           (let vp = mk_pointer False (VoidT (const_of arg \<or> const_of arg')) False in do {
              (l, st) \<leftarrow> set_type l vp None st;
              (r, st) \<leftarrow> set_type r vp None st;
              Some (l, r, st) })
         else if unqual_compatible arg arg' then Some (l, r, st) else None
     | _ \<Rightarrow> None)"

definition equality_nonarith :: "cmp_kind \<Rightarrow> nat \<Rightarrow> nat \<Rightarrow> gen_state \<Rightarrow> (nat \<times> gen_state) option" where
  "equality_nonarith k l r st = (let lo = g_addr_of st l; ro = g_addr_of st r in do {
     (l, r, st) \<leftarrow> null_to_pointer l r st;
     (l, r, st) \<leftarrow> common_pointer l r st;
     (case (lo, ro) of
        (Some a, Some b) \<Rightarrow> Some (literal_value integer_t (if cmp_const k 0 (if a = b then 0 else 1) then 1 else 0) st)
      | _ \<Rightarrow> (let (out, st) = new_ilvalue integer_t st in Some (out, add_cmd (Compare k out l r None) st))) })"

definition relational_nonarith :: "cmp_kind \<Rightarrow> nat \<Rightarrow> nat \<Rightarrow> gen_state \<Rightarrow> (nat \<times> gen_state) option" where
  "relational_nonarith k l r st = (case (pointee_type (ctype_of st l), pointee_type (ctype_of st r)) of
       (Some arg, Some arg') \<Rightarrow>
         if unqual_compatible arg arg' then (let (out, st) = new_ilvalue integer_t st in Some (out, add_cmd (Compare k out l r None) st))
         else None
     | _ \<Rightarrow> None)"

definition nonarith :: "bin_op \<Rightarrow> nat \<Rightarrow> nat \<Rightarrow> gen_state \<Rightarrow> (nat \<times> gen_state) option" where
  "nonarith op l r st = (case op of
       OpArith Add \<Rightarrow> plus_nonarith l r st
     | OpArith Subtr \<Rightarrow> minus_nonarith l r st
     | OpCmp k \<Rightarrow> if k = EqualCmp \<or> k = NotEqualCmp then equality_nonarith k l r st else relational_nonarith k l r st
     | _ \<Rightarrow> None)"

text \<open>\<open>_ArithBinOp.make_il\<close> on the values of the operands.\<close>

definition binop_il :: "bin_op \<Rightarrow> nat \<Rightarrow> nat \<Rightarrow> gen_state \<Rightarrow> (nat \<times> gen_state) option" where
  "binop_il op l r st =
     (if check_operands op (ctype_of st l) (ctype_of st r) then do {
        (l, r, st) \<leftarrow> arith_convert l r st;
        fold_or_emit op l r st }
      else nonarith op l r st)"

section \<open>Unary operators\<close>

definition promote :: "nat \<Rightarrow> gen_state \<Rightarrow> (nat \<times> gen_state) option" where
  "promote v st = (if gen_size st (ctype_of st v) < 4 then set_type v integer_t None st else Some (v, st))"

definition unop_cmd :: "un_op \<Rightarrow> neg_not" where
  "unop_cmd op = (case op of UMinus \<Rightarrow> NegOp | _ \<Rightarrow> NotOp)"

definition unary_const :: "un_op \<Rightarrow> int \<Rightarrow> ctype \<Rightarrow> int" where
  "unary_const op i t = (case op of UMinus \<Rightarrow> - shift_into_range i t | _ \<Rightarrow> NOT (shift_into_range i t))"

definition unop_il :: "un_op \<Rightarrow> nat \<Rightarrow> gen_state \<Rightarrow> (nat \<times> gen_state) option" where
  "unop_il op v st =
     (if \<not> (if op = UCompl then is_integral (ctype_of st v) else is_arith (ctype_of st v)) then None
      else do {
        (v, st) \<leftarrow> promote v st;
        if op = UPlus then Some (v, st)
        else (let t = ctype_of st v; (out, st) = new_ilvalue t st in
          case g_literal st v of
            Some (IntLit i) \<Rightarrow> if is_floating t then None else Some (out, register_literal out (shift_into_range (unary_const op i t) t) st)
          | Some (FloatLit x) \<Rightarrow> if is_floating t then Some (out, register_float out (- x) st) else None
          | Some StrLit \<Rightarrow> None
          | None \<Rightarrow> Some (out, add_cmd (NegNot (unop_cmd op) out v) st)) })"

definition step_value :: "ctype \<Rightarrow> gen_state \<Rightarrow> (nat \<times> gen_state) option" where
  "step_value t st =
     (let (one, st) = new_ilvalue t st in
      if is_floating t then Some (one, register_float one 1 st)
      else if is_arith t then Some (one, register_literal one 1 st)
      else case pointee_type t of
          Some arg \<Rightarrow> if is_complete (g_heap st) arg then Some (one, register_literal one (gen_size st arg) st) else None
        | None \<Rightarrow> None)"

definition incr_cmd :: "incr_op \<Rightarrow> arith" where
  "incr_cmd op = (case op of PreIncr \<Rightarrow> Add | PostIncr \<Rightarrow> Add | _ \<Rightarrow> Subtr)"

definition incr_il :: "incr_op \<Rightarrow> lvalue \<Rightarrow> nat \<Rightarrow> gen_state \<Rightarrow> (nat \<times> gen_state) option" where
  "incr_il op lv v st = (let t = ctype_of st v in do {
     (one, st) \<leftarrow> step_value t st;
     let (new_val, st) = new_ilvalue t st in
     if op = PreIncr \<or> op = PreDecr then do {
        (_, st) \<leftarrow> lv_set_to lv new_val (add_cmd (Arith (incr_cmd op) new_val v one) st);
        Some (new_val, st) }
     else (let (old_val, st) = new_ilvalue t st; st = add_cmd (SetCmd old_val v) st in do {
        (_, st) \<leftarrow> lv_set_to lv new_val (add_cmd (Arith (incr_cmd op) new_val v one) st);
        Some (old_val, st) }) })"

section \<open>Assignments\<close>

definition modable_lv :: "gen_state \<Rightarrow> lvalue option \<Rightarrow> lvalue option" where
  "modable_lv st lv = (case lv of None \<Rightarrow> None
     | Some l \<Rightarrow> (case lv_ctype st l of None \<Rightarrow> None | Some t \<Rightarrow> if modable st t then Some l else None))"

definition accept_pointer :: "bin_op \<Rightarrow> bool" where
  "accept_pointer op = (op = OpArith Add \<or> op = OpArith Subtr)"

text \<open>\<open>_CompoundPlusMinus.make_il\<close> once the left operand is read: with a pointer, and with arithmetic types.\<close>

definition compound_pointer :: "bin_op \<Rightarrow> lvalue \<Rightarrow> nat \<Rightarrow> nat \<Rightarrow> gen_state \<Rightarrow> (nat \<times> gen_state) option" where
  "compound_pointer op lv l r st = do {
     arg \<leftarrow> pointee_type (ctype_of st l);
     if \<not> is_complete (g_heap st) arg then None
     else (let (out, st) = new_ilvalue (ctype_of st l) st in do {
        (sh, st) \<leftarrow> get_size arg r st;
        (_, st) \<leftarrow> lv_set_to lv out (add_cmd (il_binop op out l sh) st);
        Some (out, st) }) }"

definition compound_arith :: "bin_op \<Rightarrow> lvalue \<Rightarrow> nat \<Rightarrow> nat \<Rightarrow> gen_state \<Rightarrow> (nat \<times> gen_state) option" where
  "compound_arith op lv l r st =
     (let (out, st) = new_ilvalue (ctype_of st l) st in do {
        (l, r, st) \<leftarrow> arith_convert l r st;
        (_, st) \<leftarrow> lv_set_to lv out (add_cmd (il_binop op out l r) st);
        Some (out, st) })"

section \<open>Boolean operators\<close>

definition bool_literal :: "bool \<Rightarrow> gen_state \<Rightarrow> nat \<times> gen_state" where
  "bool_literal b st = literal_text_value integer_t (if b then 1 else 0) st"

text \<open>\<open>_probe_type\<close>: evaluation into a throwaway \<open>ILCode\<close>.  Its code and tables of literals are dropped; the
  values, the labels and what the nodes cache are not.\<close>

definition scratch_code :: "gen_state \<Rightarrow> gen_state" where
  "scratch_code st = st\<lparr>g_code := [], g_literals := Map.empty, g_floats := Map.empty, g_strings := Map.empty\<rparr>"

definition restore_code :: "gen_state \<Rightarrow> gen_state \<Rightarrow> gen_state" where
  "restore_code st0 st = st\<lparr>g_code := g_code st0, g_literals := g_literals st0, g_floats := g_floats st0, g_strings := g_strings st0\<rparr>"

text \<open>The jump of \<open>&&\<close> and \<open>||\<close>, which fires on a false respectively a true operand.\<close>

definition bool_jump :: "bool \<Rightarrow> nat \<Rightarrow> string \<Rightarrow> il" where
  "bool_jump is_and v l = (if is_and then JumpZero v l else JumpNotZero v l)"

definition jump_fires :: "bool \<Rightarrow> lit_const option \<Rightarrow> bool" where
  "jump_fires is_and l = (lit_is_zero l = is_and)"

definition bool_not_il :: "nat \<Rightarrow> gen_state \<Rightarrow> (nat \<times> gen_state) option" where
  "bool_not_il v st =
     (if \<not> is_scalar (ctype_of st v) then None
      else if g_literal st v \<noteq> None then Some (bool_literal (lit_is_zero (g_literal st v)) st)
      else (let (out, st) = new_ilvalue integer_t st; (zero, st) = bool_literal False st; (one, st) = bool_literal True st;
                (end_label, st) = gen_label st in
        Some (out, add_cmd (Label end_label) (add_cmd (SetCmd out zero) (add_cmd (JumpZero v end_label) (add_cmd (SetCmd out one) st))))))"

definition is_null_constant :: "gen_state \<Rightarrow> nat \<Rightarrow> bool" where
  "is_null_constant st v = (lit_is_zero (g_literal st v) \<and>
     (is_integral (ctype_of st v) \<or> (case pointee_type (ctype_of st v) of Some arg \<Rightarrow> is_void arg | None \<Rightarrow> False)))"

definition result_ctype :: "nat \<Rightarrow> nat \<Rightarrow> gen_state \<Rightarrow> ctype option" where
  "result_ctype a b st =
     (let t = ctype_of st a; e = ctype_of st b in
      if is_arith t \<and> is_arith e then arith_conversion_type st t e
      else if is_pointer t \<and> is_null_constant st b then Some t
      else if is_pointer e \<and> is_null_constant st a then Some e
      else let by_pointee = (case (pointee_type t, pointee_type e) of
            (Some x, Some y) \<Rightarrow> if is_void x then Some t else if is_void y then Some e else if unqual_compatible x y then Some t else None
          | _ \<Rightarrow> None) in
        if by_pointee \<noteq> None then by_pointee
        else if is_struct_union t \<and> is_struct_union e \<and> unqual_compatible t e then Some (set_const False t)
        else if compatible t e then Some t else None)"

section \<open>Members, calls and casts\<close>

definition mark_object :: "ctype \<Rightarrow> gen_state \<Rightarrow> gen_state" where
  "mark_object t st = (if is_struct_union t then st\<lparr>g_members := mark_ineligible (tag_of (g_heap st) t) (g_members st)\<rparr> else st)"

definition get_offset_info :: "ctype \<Rightarrow> string \<Rightarrow> gen_state \<Rightarrow> (int \<times> ctype \<times> gen_state) option" where
  "get_offset_info t m st = (case t of
       SUT _ a _ c \<Rightarrow> (case g_heap st a of None \<Rightarrow> None
         | Some ob \<Rightarrow> (let st = st\<lparr>g_members := record_access (so_tag ob) m (g_members st)\<rparr> in
             map_option (\<lambda>(off, mt). (off, if c then set_const True mt else mt, st)) (get_offset ob m)))
     | _ \<Rightarrow> None)"

definition wrap_bitfield :: "lvalue \<Rightarrow> ctype \<Rightarrow> string \<Rightarrow> gen_state \<Rightarrow> lvalue" where
  "wrap_bitfield lv t m st = (case t of
       SUT _ a _ _ \<Rightarrow> (case Option.bind (g_heap st a) (\<lambda>ob. get_bitfield ob m) of Some (w, sg) \<Rightarrow> BitFieldLV lv w sg | None \<Rightarrow> lv)
     | _ \<Rightarrow> lv)"

text \<open>The lvalue of a member of the object at an address.\<close>

definition member_at :: "nat \<Rightarrow> ctype \<Rightarrow> string \<Rightarrow> int \<Rightarrow> ctype \<Rightarrow> gen_state \<Rightarrow> lvalue \<times> gen_state" where
  "member_at addr_val t m off mt st =
     (let (sh, st) = literal_text_value longint off st; (out, st) = new_ilvalue (mk_pointer False mt False) st;
          st = add_cmd (Arith Add out addr_val sh) st in
      (wrap_bitfield (IndirectLV out) t m st, st))"

definition member_of_rvalue :: "nat \<Rightarrow> string \<Rightarrow> gen_state \<Rightarrow> (lvalue \<times> gen_state) option" where
  "member_of_rvalue v m st = (let t = ctype_of st v in do {
     (off, mt, st) \<leftarrow> get_offset_info t m st;
     let (tmp, st) = new_ilvalue t st; st = add_cmd (SetCmd tmp v) st; (struct_addr, st) = new_ilvalue (mk_pointer False t False) st;
         st = add_cmd (AddrOf struct_addr tmp) st in
     Some (member_at struct_addr t m off mt st) })"

definition pointer_subsc :: "nat \<Rightarrow> nat \<Rightarrow> gen_state \<Rightarrow> (lvalue \<times> gen_state) option" where
  "pointer_subsc p i st = do {
     arg \<leftarrow> pointee_type (ctype_of st p);
     if \<not> is_complete (g_heap st) arg then None
     else do {
       (sh, st) \<leftarrow> get_size arg i st;
       let (out, st) = new_ilvalue (ctype_of st p) st in Some (IndirectLV out, add_cmd (Arith Add out p sh) st) } }"

definition array_el :: "ctype \<Rightarrow> ctype option" where
  "array_el t = (case t of ArrayT el _ _ _ \<Rightarrow> Some el | _ \<Rightarrow> None)"

definition array_subsc :: "nat \<Rightarrow> nat \<Rightarrow> nat \<Rightarrow> gen_state \<Rightarrow> lvalue option" where
  "array_subsc i arr k st = map_option (\<lambda>el. RelativeLV i el arr (gen_size st el) (Some k)) (array_el (ctype_of st arr))"

definition direct_array :: "gen_state \<Rightarrow> lvalue option \<Rightarrow> bool" where
  "direct_array st lv = (case lv of Some (DirectLV v) \<Rightarrow> is_array (ctype_of st v) | _ \<Rightarrow> False)"

definition emit_call :: "nat \<Rightarrow> ctype list \<times> ctype \<times> bool \<times> bool \<Rightarrow> nat list \<Rightarrow> gen_state \<Rightarrow> nat \<times> gen_state" where
  "emit_call f sig args st = (case sig of (_, rt, _, va) \<Rightarrow>
     (let (ret, st) = new_ilvalue rt st; sret = (is_struct_union rt \<and> gen_size st rt > 16 \<and> \<not> va);
          (args, st) = (if sret then (let (a, st) = direct_addr ret st in (a # args, st)) else (args, st)) in
      (ret, add_cmd (Call \<lparr>call_func = f, call_args = args, call_ret = ret, call_void = is_void rt \<or> sret, call_direct = None,
         call_tail = False, call_variadic = va, call_pack = None\<rparr>) st)))"

text \<open>The signature of a called function pointer: parameter types, result, \<open>no_info\<close>, \<open>variadic\<close>.\<close>

definition call_sig :: "gen_state \<Rightarrow> ctype \<Rightarrow> (ctype list \<times> ctype \<times> bool \<times> bool) option" where
  "call_sig st t = (case t of PointerT (FunctionT ps rt ni va _) _ _ \<Rightarrow>
       if is_incomplete (g_heap st) rt \<and> \<not> is_void rt then None else Some (ps, rt, ni, va)
     | _ \<Rightarrow> None)"

definition call_param_types :: "ctype list \<times> ctype \<times> bool \<times> bool \<Rightarrow> nat \<Rightarrow> ctype option list option" where
  "call_param_types sig n = (case sig of (ps, _, ni, va) \<Rightarrow>
     if ni then Some (replicate n None)
     else if n < length ps \<or> (\<not> va \<and> length ps \<noteq> n) then None
     else Some (map Some ps @ replicate (n - length ps) None))"

definition convert_arg :: "ctype option \<Rightarrow> nat \<Rightarrow> gen_state \<Rightarrow> (nat \<times> gen_state) option" where
  "convert_arg t v st = (case t of
       Some pt \<Rightarrow> if check_cast v pt st then set_type v (set_const False pt) None st else None
     | None \<Rightarrow> if is_arith (ctype_of st v) then promote v st else Some (v, st))"

definition sizeof_ctype :: "ctype \<Rightarrow> gen_state \<Rightarrow> (nat \<times> gen_state) option" where
  "sizeof_ctype t st = (if is_function t \<or> is_incomplete (g_heap st) t then None
     else Some (literal_value unsig_longint (gen_size st t) (mark_object t st)))"

definition cast_il :: "ctype \<Rightarrow> nat \<Rightarrow> gen_state \<Rightarrow> (nat \<times> gen_state) option" where
  "cast_il t v st = (if is_void t then Some (v, st) else if \<not> is_scalar (ctype_of st v) then None else set_type v t None st)"

definition number_il :: "string \<Rightarrow> gen_state \<Rightarrow> (nat \<times> gen_state) option" where
  "number_il s st = do {
     v \<leftarrow> parse_c_int s;
     t \<leftarrow> number_type s v;
     Some (literal_value t v st) }"

section \<open>The nodes\<close>

definition keep_lvalue :: "nat \<Rightarrow> lvalue \<times> gen_state \<Rightarrow> lvalue option \<times> gen_state" where
  "keep_lvalue i p = (Some (fst p), (snd p)\<lparr>g_lvalues := (g_lvalues (snd p))(i \<mapsto> fst p)\<rparr>)"

text \<open>\<open>_LExprNode.make_il\<close>: arrays and functions decay to their address.\<close>

definition decay :: "lvalue option \<Rightarrow> gen_state \<Rightarrow> (nat \<times> gen_state) option" where
  "decay lv st = do {
     l \<leftarrow> lv;
     t \<leftarrow> lv_ctype st l;
     (case array_el t of
        Some el \<Rightarrow> do { (a, st) \<leftarrow> lv_addr l st; set_type a (mk_pointer False el False) None st }
      | None \<Rightarrow> if is_function t then lv_addr l st else lv_val l st) }"

definition conj_value :: "bool \<Rightarrow> int" where
  "conj_value b = (if b then 1 else 0)"

text \<open>The run-time code of \<open>&&\<close> (\<open>is_and\<close>) and \<open>||\<close> around the code of the right operand: before it, and after it.\<close>

definition bool_before :: "bool \<Rightarrow> nat \<Rightarrow> gen_state \<Rightarrow> (nat \<times> nat \<times> string \<times> string) \<times> gen_state" where
  "bool_before is_and v st =
     (let (out, st) = new_ilvalue integer_t st; (init, st) = literal_value integer_t (conj_value is_and) st;
          (other, st) = literal_value integer_t (conj_value (\<not> is_and)) st;
          (set_out, st) = gen_label st; (end_label, st) = gen_label st in
      ((out, other, set_out, end_label), add_cmd (bool_jump is_and v set_out) (add_cmd (SetCmd out init) st)))"

definition bool_after :: "bool \<Rightarrow> nat \<times> nat \<times> string \<times> string \<Rightarrow> nat \<Rightarrow> gen_state \<Rightarrow> (nat \<times> gen_state) option" where
  "bool_after is_and loc v st = (case loc of (out, other, set_out, end_label) \<Rightarrow>
     if \<not> is_scalar (ctype_of st v) then None
     else Some (out, add_cmd (Label end_label) (add_cmd (SetCmd out other) (add_cmd (Label set_out)
       (add_cmd (Jump end_label) (add_cmd (bool_jump is_and v set_out) st))))))"

text \<open>\<open>Conditional.make_il\<close> after the condition, between the arms, and after them.\<close>

definition cond_before :: "nat \<Rightarrow> gen_state \<Rightarrow> (string \<times> string \<times> string) \<times> gen_state" where
  "cond_before v st =
     (let (then_store, st) = gen_label st; (els_label, st) = gen_label st; (end_label, st) = gen_label st in
      ((then_store, els_label, end_label), add_cmd (JumpZero v els_label) st))"

definition cond_between :: "string \<times> string \<times> string \<Rightarrow> gen_state \<Rightarrow> gen_state" where
  "cond_between ls st = (case ls of (then_store, els_label, end_label) \<Rightarrow> add_cmd (Label els_label) (add_cmd (Jump then_store) st))"

definition cond_after :: "string \<times> string \<times> string \<Rightarrow> nat \<Rightarrow> nat \<Rightarrow> gen_state \<Rightarrow> (nat \<times> gen_state) option" where
  "cond_after ls a b st = (case ls of (then_store, els_label, end_label) \<Rightarrow> do {
     t \<leftarrow> result_ctype a b st;
     let (out, st) = new_ilvalue t st in do {
     (_, st) \<leftarrow> set_type b t (Some out) st;
     (_, st) \<leftarrow> set_type a t (Some out) (add_cmd (Label then_store) (add_cmd (Jump end_label) st));
     Some (out, add_cmd (Label end_label) st) } })"

function (sequential) gen :: "expr \<Rightarrow> gen_state \<Rightarrow> (nat \<times> gen_state) option"
  and gen_bool :: "bool \<Rightarrow> nat \<Rightarrow> expr \<Rightarrow> gen_state \<Rightarrow> (nat \<times> gen_state) option"
  and lval :: "expr \<Rightarrow> gen_state \<Rightarrow> (lvalue option \<times> gen_state) option"
  and raw :: "expr \<Rightarrow> gen_state \<Rightarrow> (nat \<times> gen_state) option"
  and gen_args :: "expr list \<Rightarrow> ctype option list \<Rightarrow> gen_state \<Rightarrow> (nat list \<times> gen_state) option" where
  "gen (Number s) st = number_il s st"
| "gen (FloatNumber t x) st = (let (v, st) = new_ilvalue t st in Some (v, register_float v x st))"
| "gen (Identifier i x) st = (case lookup_enum_const (g_syms st) x of
       Some k \<Rightarrow> Some (literal_text_value integer_t k st)
     | None \<Rightarrow> do { (lv, st) \<leftarrow> lval (Identifier i x) st; decay lv st })"
| "gen (ParenExpr e) st = gen e st"
| "gen (MultiExpr a b) st = do { (_, st) \<leftarrow> gen a st; gen b st }"
| "gen (BinOp op a b) st = do { (l, st) \<leftarrow> gen a st; (r, st) \<leftarrow> gen b st; binop_il op l r st }"
| "gen (UnOp op a) st = do { (v, st) \<leftarrow> gen a st; unop_il op v st }"
| "gen (BoolAnd a b) st = do { (v, st) \<leftarrow> gen a st; gen_bool True v b st }"
| "gen (BoolOr a b) st = do { (v, st) \<leftarrow> gen a st; gen_bool False v b st }"
| "gen (BoolNot a) st = do { (v, st) \<leftarrow> gen a st; bool_not_il v st }"
| "gen (Conditional c a b) st = do {
     (v, st) \<leftarrow> gen c st;
     if \<not> is_scalar (ctype_of st v) then None
     else if g_literal st v \<noteq> None then gen (if lit_is_zero (g_literal st v) then b else a) st
     else (let (ls, st) = cond_before v st in do {
       (x, st) \<leftarrow> gen a st;
       (y, st) \<leftarrow> gen b (cond_between ls st);
       cond_after ls x y st }) }"
| "gen (Equals a b) st = do {
     (r, st) \<leftarrow> gen b st;
     (lv, st) \<leftarrow> lval a st;
     l \<leftarrow> modable_lv st lv;
     lv_set_to l r st }"
| "gen (Compound op a b) st = do {
     (r, st) \<leftarrow> gen b st;
     (lv, st) \<leftarrow> lval a st;
     l \<leftarrow> modable_lv st lv;
     t \<leftarrow> lv_ctype st l;
     if is_pointer t \<and> is_integral (ctype_of st r) \<and> accept_pointer op
     then do { (v, st) \<leftarrow> gen a st; compound_pointer op l v r st }
     else if is_arith t \<and> is_arith (ctype_of st r)
     then do { (v, st) \<leftarrow> gen a st; compound_arith op l v r st }
     else None }"
| "gen (IncrDecr op a) st = do {
     (lv, st) \<leftarrow> lval a st;
     l \<leftarrow> modable_lv st lv;
     (v, st) \<leftarrow> gen a st;
     incr_il op l v st }"
| "gen (AddrOfE a) st = do {
     (lv, st) \<leftarrow> lval a st;
     l \<leftarrow> lv;
     lv_addr l (case lv_ctype st l of Some t \<Rightarrow> mark_object t st | None \<Rightarrow> st) }"
| "gen (FuncCall f args) st = do {
     (fv, st) \<leftarrow> gen f st;
     sig \<leftarrow> call_sig st (ctype_of st fv);
     ts \<leftarrow> call_param_types sig (length args);
     (vs, st) \<leftarrow> gen_args args ts st;
     Some (emit_call fv sig vs st) }"
| "gen (Cast t a) st = (if \<not> is_void t \<and> \<not> is_scalar t then None else do { (v, st) \<leftarrow> gen a st; cast_il t v st })"
| "gen (SizeofExpr a) st = do { (v, st') \<leftarrow> raw a (scratch_code st); sizeof_ctype (ctype_of st' v) (restore_code st st') }"
| "gen (SizeofType t) st = sizeof_ctype t st"
| "gen e st = do { (lv, st) \<leftarrow> lval e st; decay lv st }"

| "gen_bool is_and v b st =
     (if \<not> is_scalar (ctype_of st v) then None
      else if g_literal st v = None then
        (let (loc, st) = bool_before is_and v st in do { (w, st) \<leftarrow> gen b st; bool_after is_and loc w st })
      else do {
        (w, st') \<leftarrow> gen b (scratch_code st);
        let st' = restore_code st st' in
        if \<not> is_scalar (ctype_of st' w) then None
        else if jump_fires is_and (g_literal st' v) then Some (bool_literal (\<not> is_and) st')
        else if g_literal st' w \<noteq> None then Some (bool_literal (jump_fires is_and (g_literal st' w) \<noteq> is_and) st')
        else (let (loc, st') = bool_before is_and v st' in do { (w, st') \<leftarrow> gen b st'; bool_after is_and loc w st' }) })"

| "lval (StringE i chars wide) st = (case g_lvalues st i of Some lv \<Rightarrow> Some (Some lv, st)
     | None \<Rightarrow> (let el = (if wide then integer_t else char_t);
                   (v, st) = new_ilvalue (mk_array (g_heap st) el (Some (int (length chars)))) st in
         Some (keep_lvalue i (DirectLV v, register_string v chars st))))"
| "lval (Identifier i x) st = (case g_lvalues st i of Some lv \<Rightarrow> Some (Some lv, st)
     | None \<Rightarrow> if lookup_enum_const (g_syms st) x \<noteq> None then Some (None, st)
         else (case lookup_variable (g_syms st) x of Inl e \<Rightarrow> None | Inr v \<Rightarrow> Some (keep_lvalue i (DirectLV v, st))))"
| "lval (ParenExpr e) st = lval e st"
| "lval (Deref i a) st = (case g_lvalues st i of Some lv \<Rightarrow> Some (Some lv, st)
     | None \<Rightarrow> do {
         (v, st) \<leftarrow> gen a st;
         if is_pointer (ctype_of st v) then Some (keep_lvalue i (IndirectLV v, st)) else None })"
| "lval (ArraySubsc i a b) st = (case g_lvalues st i of Some lv \<Rightarrow> Some (Some lv, st)
     | None \<Rightarrow> do {
         (la, st) \<leftarrow> lval a st;
         (lb, st) \<leftarrow> lval b st;
         if direct_array st la \<or> direct_array st lb then do {
           (arr, st) \<leftarrow> (if direct_array st la then raw a st else raw b st);
           (k, st) \<leftarrow> (if direct_array st la then gen b st else gen a st);
           if is_integral (ctype_of st k) then map_option (\<lambda>lv. keep_lvalue i (lv, st)) (array_subsc i arr k st) else None }
         else do {
           (x, st) \<leftarrow> gen a st;
           (y, st) \<leftarrow> gen b st;
           if is_pointer (ctype_of st x) \<and> is_integral (ctype_of st y) \<or> is_pointer (ctype_of st y) \<and> is_integral (ctype_of st x)
           then map_option (keep_lvalue i) (pointer_subsc x y st) else None } })"
| "lval (ObjMember i a m) st = (case g_lvalues st i of Some lv \<Rightarrow> Some (Some lv, st)
     | None \<Rightarrow> do {
         (la, st) \<leftarrow> lval a st;
         (case la of
            None \<Rightarrow> do { (v, st) \<leftarrow> gen a st; map_option (keep_lvalue i) (member_of_rvalue v m st) }
          | Some l \<Rightarrow> do {
              t \<leftarrow> lv_ctype st l;
              (off, mt, st) \<leftarrow> get_offset_info t m st;
              (case l of
                 DirectLV _ \<Rightarrow> do { (v, st) \<leftarrow> gen a st; Some (keep_lvalue i (wrap_bitfield (RelativeLV i mt v off None) t m st, st)) }
               | _ \<Rightarrow> do { (addr_val, st) \<leftarrow> lv_addr l st; Some (keep_lvalue i (member_at addr_val t m off mt st)) }) }) })"
| "lval (ObjPtrMember i a m) st = (case g_lvalues st i of Some lv \<Rightarrow> Some (Some lv, st)
     | None \<Rightarrow> do {
         (v, st) \<leftarrow> gen a st;
         t \<leftarrow> pointee_type (ctype_of st v);
         (off, mt, st) \<leftarrow> get_offset_info t m st;
         Some (keep_lvalue i (member_at v t m off mt st)) })"
| "lval e st = Some (None, st)"

| "raw (Identifier i x) st = (if lookup_enum_const (g_syms st) x \<noteq> None then gen (Identifier i x) st
     else do { (lv, st) \<leftarrow> lval (Identifier i x) st; l \<leftarrow> lv; lv_val l st })"
| "raw (ParenExpr e) st = raw e st"
| "raw (StringE i chars wide) st = do { (lv, st) \<leftarrow> lval (StringE i chars wide) st; l \<leftarrow> lv; lv_val l st }"
| "raw (Deref i a) st = do { (lv, st) \<leftarrow> lval (Deref i a) st; l \<leftarrow> lv; lv_val l st }"
| "raw (ArraySubsc i a b) st = do { (lv, st) \<leftarrow> lval (ArraySubsc i a b) st; l \<leftarrow> lv; lv_val l st }"
| "raw (ObjMember i a m) st = do { (lv, st) \<leftarrow> lval (ObjMember i a m) st; l \<leftarrow> lv; lv_val l st }"
| "raw (ObjPtrMember i a m) st = do { (lv, st) \<leftarrow> lval (ObjPtrMember i a m) st; l \<leftarrow> lv; lv_val l st }"
| "raw e st = gen e st"

| "gen_args [] ts st = Some ([], st)"
| "gen_args (e # es) ts st = do {
     (v, st) \<leftarrow> gen e st;
     (v, st) \<leftarrow> convert_arg (case ts of [] \<Rightarrow> None | t # _ \<Rightarrow> t) v st;
     (vs, st) \<leftarrow> gen_args es (drop 1 ts) st;
     Some (v # vs, st) }"
  by pat_completeness auto
termination
  by (relation "measure (\<lambda>x. case x of Inl (Inl (e, _)) \<Rightarrow> 3 * size e + 1 | Inl (Inr (_, _, e, _)) \<Rightarrow> 3 * size e + 2
      | Inr (Inl (e, _)) \<Rightarrow> 3 * size e | Inr (Inr (Inl (e, _))) \<Rightarrow> 3 * size e + 2
      | Inr (Inr (Inr (es, _))) \<Rightarrow> 3 * size_list size es)") auto

end
