(* ===== verification/CSem.thy ===== *)
theory CSem
  imports ExprGen
begin

unbundle bit_operations_syntax

text \<open>
  What integer expressions mean in C, stated without reference to the commands: types by the usual arithmetic
  conversions (C11 6.3.1), values as integers in the range of their type.  Signed arithmetic wraps, and a shift
  out of range, a division by zero or a quotient out of range has no value.
\<close>

section \<open>Integer types\<close>

datatype ity = Ity nat bool bool  \<comment> \<open>bytes, signed, \<open>_Bool\<close>\<close>

fun bytes_of :: "ity \<Rightarrow> nat" where "bytes_of (Ity n sg b) = n"
fun is_signed :: "ity \<Rightarrow> bool" where "is_signed (Ity n sg b) = sg"
fun is_boolean :: "ity \<Rightarrow> bool" where "is_boolean (Ity n sg b) = b"

text \<open>The integer types of \<open>shivyc/ctypes.py\<close> by their identity; \<open>make_unsigned\<close> keeps the identity.\<close>

definition kind_size :: "nat \<Rightarrow> int option" where
  "kind_size og = map_of [(1, 1), (2, 1), (3, 1), (4, 2), (5, 2), (6, 4), (7, 4), (8, 8), (9, 8)] og"

definition ity_of :: "ctype \<Rightarrow> ity option" where
  "ity_of t = (case t of IntegerT og sz sg b _ \<Rightarrow>
       if kind_size og = Some sz \<and> (b \<longleftrightarrow> og = 1) \<and> \<not> (b \<and> sg) then Some (Ity (nat sz) sg b) else None
     | _ \<Rightarrow> None)"

definition int_ity :: ity where "int_ity = Ity 4 True False"

fun wrap :: "ity \<Rightarrow> int \<Rightarrow> int" where
  "wrap (Ity n sg b) i = (if b then of_bool (i \<noteq> 0) else if sg then signed_take_bit (8 * n - 1) i else take_bit (8 * n) i)"

definition in_range :: "ity \<Rightarrow> int \<Rightarrow> bool" where
  "in_range t i = (wrap t i = i)"

definition promoted :: "ity \<Rightarrow> ity" where
  "promoted t = (if bytes_of t < 4 then int_ity else t)"

definition common :: "ity \<Rightarrow> ity \<Rightarrow> ity" where
  "common t u = (let p = promoted t; q = promoted u in
     if is_signed p = is_signed q then (if bytes_of p \<ge> bytes_of q then p else q)
     else let (s, us) = (if is_signed p then (p, q) else (q, p)) in if bytes_of us \<ge> bytes_of s then us else s)"

section \<open>Expressions\<close>

text \<open>A C environment types the names in scope; a name without a value is not initialized.\<close>

type_synonym cenv = "string \<rightharpoonup> ity \<times> int option"

fun c_type :: "cenv \<Rightarrow> expr \<Rightarrow> ity option" where
  "c_type S (Number s) = do { v \<leftarrow> parse_c_int s; t \<leftarrow> number_type s v; ity_of t }"
| "c_type S (Identifier i x) = map_option fst (S x)"
| "c_type S (ParenExpr e) = c_type S e"
| "c_type S (MultiExpr a b) = do { _ \<leftarrow> c_type S a; c_type S b }"
| "c_type S (BinOp op a b) = do { t \<leftarrow> c_type S a; u \<leftarrow> c_type S b;
     Some (case op of OpCmp _ \<Rightarrow> int_ity | OpShift _ \<Rightarrow> promoted t | _ \<Rightarrow> common t u) }"
| "c_type S (UnOp op a) = map_option promoted (c_type S a)"
| "c_type S (BoolAnd a b) = do { _ \<leftarrow> c_type S a; _ \<leftarrow> c_type S b; Some int_ity }"
| "c_type S (BoolOr a b) = do { _ \<leftarrow> c_type S a; _ \<leftarrow> c_type S b; Some int_ity }"
| "c_type S (BoolNot a) = map_option (\<lambda>_. int_ity) (c_type S a)"
| "c_type S (Conditional c a b) = do { _ \<leftarrow> c_type S c; t \<leftarrow> c_type S a; u \<leftarrow> c_type S b; Some (common t u) }"
| "c_type S (Cast t a) = do { _ \<leftarrow> c_type S a; ity_of t }"
| "c_type S e = None"

definition c_arith :: "arith \<Rightarrow> int \<Rightarrow> int \<Rightarrow> int" where
  "c_arith op x y = (case op of Add \<Rightarrow> x + y | Subtr \<Rightarrow> x - y | Mult \<Rightarrow> x * y
     | BitAnd \<Rightarrow> x AND y | BitOr \<Rightarrow> x OR y | BitXor \<Rightarrow> x XOR y)"

text \<open>Operators on converted operands of type \<open>t\<close>; division truncates towards zero.\<close>

definition c_div :: "ity \<Rightarrow> div_mod \<Rightarrow> int \<Rightarrow> int \<Rightarrow> int option" where
  "c_div t d x y = (if y = 0 then None else let q = (if (x < 0) = (y < 0) then \<bar>x\<bar> div \<bar>y\<bar> else - (\<bar>x\<bar> div \<bar>y\<bar>)) in
     if \<not> in_range t q then None else Some (case d of DivOp \<Rightarrow> q | ModOp \<Rightarrow> x - q * y))"

definition c_shift :: "ity \<Rightarrow> shift_dir \<Rightarrow> int \<Rightarrow> int \<Rightarrow> int option" where
  "c_shift t d x k = (if 0 \<le> k \<and> k < int (8 * bytes_of t)
     then Some (wrap t (case d of LBitShift \<Rightarrow> x * 2 ^ nat k | RBitShift \<Rightarrow> x div 2 ^ nat k)) else None)"

definition c_binop :: "bin_op \<Rightarrow> ity \<Rightarrow> ity \<Rightarrow> int \<Rightarrow> int \<Rightarrow> int option" where
  "c_binop op t u x y = (let c = common t u; cx = wrap c x; cy = wrap c y in case op of
       OpArith a \<Rightarrow> Some (wrap c (c_arith a cx cy))
     | OpDiv d \<Rightarrow> c_div c d cx cy
     | OpShift d \<Rightarrow> c_shift (promoted t) d (wrap (promoted t) x) (wrap (promoted u) y)
     | OpCmp k \<Rightarrow> Some (of_bool (cmp_const k cx cy)))"

definition c_unop :: "un_op \<Rightarrow> ity \<Rightarrow> int \<Rightarrow> int" where
  "c_unop op t x = (let p = promoted t in case op of UPlus \<Rightarrow> wrap p x | UMinus \<Rightarrow> wrap p (- wrap p x) | UCompl \<Rightarrow> wrap p (- wrap p x - 1))"

fun c_val :: "cenv \<Rightarrow> expr \<Rightarrow> int option" where
  "c_val S (Number s) = parse_c_int s"
| "c_val S (Identifier i x) = Option.bind (S x) snd"
| "c_val S (ParenExpr e) = c_val S e"
| "c_val S (MultiExpr a b) = do { _ \<leftarrow> c_val S a; c_val S b }"
| "c_val S (BinOp op a b) = do { t \<leftarrow> c_type S a; u \<leftarrow> c_type S b; x \<leftarrow> c_val S a; y \<leftarrow> c_val S b; c_binop op t u x y }"
| "c_val S (UnOp op a) = do { t \<leftarrow> c_type S a; x \<leftarrow> c_val S a; Some (c_unop op t x) }"
| "c_val S (BoolAnd a b) = do { x \<leftarrow> c_val S a; if x = 0 then Some 0 else map_option (\<lambda>y. of_bool (y \<noteq> 0)) (c_val S b) }"
| "c_val S (BoolOr a b) = do { x \<leftarrow> c_val S a; if x \<noteq> 0 then Some 1 else map_option (\<lambda>y. of_bool (y \<noteq> 0)) (c_val S b) }"
| "c_val S (BoolNot a) = map_option (\<lambda>x. of_bool (x = 0)) (c_val S a)"
| "c_val S (Conditional c a b) = do { x \<leftarrow> c_val S c; t \<leftarrow> c_type S a; u \<leftarrow> c_type S b;
     y \<leftarrow> (if x \<noteq> 0 then c_val S a else c_val S b); Some (wrap (common t u) y) }"
| "c_val S (Cast t a) = do { x \<leftarrow> c_val S a; u \<leftarrow> ity_of t; Some (wrap u x) }"
| "c_val S e = None"

text \<open>The expressions the generator may turn into a literal.\<close>

fun may_fold :: "expr \<Rightarrow> bool" where
  "may_fold (Number s) = True"
| "may_fold (ParenExpr e) = may_fold e"
| "may_fold (MultiExpr a b) = may_fold b"
| "may_fold (BinOp op a b) = (may_fold a \<and> may_fold b)"
| "may_fold (UnOp op a) = may_fold a"
| "may_fold (BoolAnd a b) = may_fold a"
| "may_fold (BoolOr a b) = may_fold a"
| "may_fold (BoolNot a) = may_fold a"
| "may_fold (Conditional c a b) = (may_fold c \<and> (may_fold a \<or> may_fold b))"
| "may_fold (Cast t a) = may_fold a"
| "may_fold e = False"

text \<open>
  The expressions whose code is proved right.  Left out are four forms the generator treats differently from C: a
  shift whose operands promote to different types, a folded quotient of more than 32 bits, a conditional on a constant
  whose arms differ in type (one arm is selected without converting it), and a constant cast to \<open>_Bool\<close>.
\<close>

fun plain :: "cenv \<Rightarrow> expr \<Rightarrow> bool" where
  "plain S (Number s) = True"
| "plain S (Identifier i x) = True"
| "plain S (ParenExpr e) = plain S e"
| "plain S (MultiExpr a b) = (plain S a \<and> plain S b)"
| "plain S (BinOp op a b) = (plain S a \<and> plain S b \<and> (case (op, c_type S a, c_type S b) of
       (OpShift _, Some t, Some u) \<Rightarrow> promoted t = promoted u
     | (OpDiv DivOp, Some t, Some u) \<Rightarrow> bytes_of (common t u) = 4 \<or> \<not> (may_fold a \<and> may_fold b)
     | _ \<Rightarrow> True))"
| "plain S (UnOp op a) = plain S a"
| "plain S (BoolAnd a b) = (plain S a \<and> plain S b)"
| "plain S (BoolOr a b) = (plain S a \<and> plain S b)"
| "plain S (BoolNot a) = plain S a"
| "plain S (Conditional c a b) = (plain S c \<and> plain S a \<and> plain S b \<and>
     (may_fold c \<longrightarrow> c_type S a = c_type S b \<and> map_option promoted (c_type S a) = c_type S a))"
| "plain S (Cast t a) = (plain S a \<and> (case ity_of t of Some u \<Rightarrow> is_boolean u \<longrightarrow> \<not> may_fold a | None \<Rightarrow> False))"
| "plain S e = False"

text \<open>The numbers of the nodes that cache an lvalue.\<close>

fun cached_ids :: "expr \<Rightarrow> (nat \<times> string) list" where
  "cached_ids (Identifier i x) = [(i, x)]"
| "cached_ids (ParenExpr e) = cached_ids e"
| "cached_ids (MultiExpr a b) = cached_ids a @ cached_ids b"
| "cached_ids (BinOp op a b) = cached_ids a @ cached_ids b"
| "cached_ids (UnOp op a) = cached_ids a"
| "cached_ids (BoolAnd a b) = cached_ids a @ cached_ids b"
| "cached_ids (BoolOr a b) = cached_ids a @ cached_ids b"
| "cached_ids (BoolNot a) = cached_ids a"
| "cached_ids (Conditional c a b) = cached_ids c @ cached_ids a @ cached_ids b"
| "cached_ids (Cast t a) = cached_ids a"
| "cached_ids e = []"

end
