(* ===== verification/IntWords.thy ===== *)
theory IntWords
  imports CSem PeepholeSound
begin

unbundle bit_operations_syntax

text \<open>
  The integers of C as the 64-bit words the commands compute with: \<open>enc t i\<close> is the word that stands for the value
  \<open>i\<close> of type \<open>t\<close>, and the operations of the commands on such words are the operations of C.
\<close>

definition enc :: "ity \<Rightarrow> int \<Rightarrow> 64 word" where
  "enc t i = take_bit (8 * bytes_of t) (word_of_int i)"

definition ity_ok :: "ity \<Rightarrow> bool" where
  "ity_ok t = (size_ok (bytes_of t) \<and> (is_boolean t \<longrightarrow> \<not> is_signed t \<and> bytes_of t = 1))"

lemma ity_of_ok: "ity_of t = Some a \<Longrightarrow> ity_ok a"
  by (auto simp: ity_of_def kind_size_def ity_ok_def size_ok_def split: ctype.splits if_splits)

lemma ity_okD:
  assumes "ity_ok t"
  shows "0 < bytes_of t" "8 * bytes_of t \<le> 64" "size_ok (bytes_of t)"
  using assms by (auto simp: ity_ok_def size_ok_def)

lemma ity_ok_cases [consumes 1]:
  assumes "ity_ok t"
  obtains (int) n sg where "t = Ity n sg False" "size_ok n" | (bool) "t = Ity 1 False True"
  using assms by (cases t) (auto simp: ity_ok_def)

lemma int_ity_ok [simp]: "ity_ok int_ity" "\<not> is_boolean int_ity" "bytes_of int_ity = 4" "is_signed int_ity"
  by (simp_all add: int_ity_def ity_ok_def size_ok_def)

section \<open>Ranges\<close>

lemma wrap_in_range: "in_range t (wrap t i)"
  by (cases t) (simp add: in_range_def)

lemma wrap_idem [simp]: "wrap t (wrap t i) = wrap t i"
  using wrap_in_range [of t i] by (simp add: in_range_def)

lemma in_range_wrap: "in_range t i \<Longrightarrow> wrap t i = i"
  by (simp add: in_range_def)

lemma in_range_signed: "0 < n \<Longrightarrow> in_range (Ity n True False) i \<longleftrightarrow> - (2 ^ (8 * n - 1)) \<le> i \<and> i < 2 ^ (8 * n - 1)"
  unfolding in_range_def wrap.simps using signed_take_bit_int_eq_self_iff [of "8 * n - 1" i] by simp

lemma in_range_unsigned: "in_range (Ity n False False) i \<longleftrightarrow> 0 \<le> i \<and> i < 2 ^ (8 * n)"
  unfolding in_range_def wrap.simps using take_bit_int_eq_self_iff [of "8 * n" i] by simp

lemma in_range_bool: "in_range (Ity n False True) i \<longleftrightarrow> i = 0 \<or> i = 1"
  by (auto simp: in_range_def)

lemmas in_range_simps = in_range_signed in_range_unsigned in_range_bool

lemma in_range_small: "ity_ok t \<Longrightarrow> in_range t (of_bool b)"
  by (erule ity_ok_cases) (cases b; auto simp: in_range_def size_ok_def signed_take_bit_int_eq_self take_bit_int_eq_self)+

section \<open>Encoding\<close>

lemma take_enc [simp]: "take_bit (8 * bytes_of t) (enc t i) = enc t i"
  by (simp add: enc_def)

lemma enc_cong: "take_bit (8 * bytes_of t) i = take_bit (8 * bytes_of t) j \<Longrightarrow> enc t i = enc t j"
  by (simp add: enc_def take_bit_of_int)

lemma take_wrap: "ity_ok t \<Longrightarrow> \<not> is_boolean t \<Longrightarrow> take_bit (8 * bytes_of t) (wrap t i) = take_bit (8 * bytes_of t) i"
  by (erule ity_ok_cases) (auto simp: take_bit_signed_take_bit size_ok_def)

lemma enc_wrap: "ity_ok t \<Longrightarrow> \<not> is_boolean t \<Longrightarrow> enc t (wrap t i) = enc t i"
  by (intro enc_cong take_wrap)

lemma enc_bytes: "bytes_of t = bytes_of u \<Longrightarrow> enc t i = enc u i"
  by (simp add: enc_def)

lemma uint_enc: "ity_ok t \<Longrightarrow> uint (enc t i) = take_bit (8 * bytes_of t) i"
  using ity_okD [of t] by (simp add: enc_def unsigned_take_bit_eq unsigned_of_int take_bit_take_bit min_def)

lemma uint_enc_unsigned:
  assumes "ity_ok t" "in_range t i" "\<not> is_signed t"
  shows "uint (enc t i) = i"
  using assms(1)
proof (cases rule: ity_ok_cases)
  case (int n sg)
  then show ?thesis using assms uint_enc [of t i] by (simp add: in_range_def)
next
  case bool
  then show ?thesis using assms uint_enc [of t i] by (auto simp: in_range_bool)
qed

lemma sval_enc:
  assumes "ity_ok t" "in_range t i" "is_signed t"
  shows "sval (bytes_of t) (enc t i) = i"
  using assms(1)
proof (cases rule: ity_ok_cases)
  case (int n sg)
  then have "0 < n" by (auto simp: size_ok_def)
  then show ?thesis using int assms sval_take [of n i] by (simp add: in_range_signed enc_def)
qed (use assms in simp)

lemma enc_inj: "ity_ok t \<Longrightarrow> in_range t i \<Longrightarrow> in_range t j \<Longrightarrow> enc t i = enc t j \<longleftrightarrow> i = j"
  using uint_enc_unsigned [of t] sval_enc [of t] by metis

lemma enc_zero: "ity_ok t \<Longrightarrow> in_range t i \<Longrightarrow> enc t i = 0 \<longleftrightarrow> i = 0"
  using enc_inj [of t i 0] in_range_small [of t False] by (simp add: enc_def)

section \<open>Operations\<close>

lemma conv_enc:
  assumes "ity_ok a" "ity_ok b" "in_range a i"
  shows "conv_val (is_signed a) (bytes_of a) (bytes_of b) (enc a i) = enc b i"
proof -
  consider "bytes_of b \<le> bytes_of a" | "bytes_of a < bytes_of b" "is_signed a" | "bytes_of a < bytes_of b" "\<not> is_signed a" by linarith
  then show ?thesis
  proof cases
    case 1
    then show ?thesis by (simp add: conv_val_def enc_def take_bit_take_bit min_def)
  next
    case 2
    then show ?thesis using sval_enc [OF assms(1,3)] by (simp add: conv_val_def enc_def)
  next
    case 3
    then have "enc a i = word_of_int i" using uint_enc_unsigned [OF assms(1,3)] by (metis word_of_int_uint)
    then show ?thesis using 3 by (simp add: conv_val_def enc_def)
  qed
qed

lemma wi_bitops:
  "word_of_int a AND word_of_int b = (word_of_int (a AND b) :: 64 word)"
  "word_of_int a OR word_of_int b = (word_of_int (a OR b) :: 64 word)"
  "word_of_int a XOR word_of_int b = (word_of_int (a XOR b) :: 64 word)"
  by (simp_all add: word_wi_log_defs)

lemma wi_take:
  "take_bit k (word_of_int a + word_of_int b) = (word_of_int (take_bit k (a + b)) :: 64 word)"
  "take_bit k (word_of_int a - word_of_int b) = (word_of_int (take_bit k (a - b)) :: 64 word)"
  "take_bit k (word_of_int a * word_of_int b) = (word_of_int (take_bit k (a * b)) :: 64 word)"
  by (simp_all only: wi_homs take_bit_of_int)

lemma arith_enc: "take_bit (8 * bytes_of t) (arith_val op (enc t x) (enc t y)) = enc t (c_arith op x y)"
proof -
  have e: "enc t i = word_of_int (take_bit (8 * bytes_of t) i)" for i by (simp add: enc_def take_bit_of_int)
  show ?thesis
    by (cases op) (simp_all add: arith_val_def c_arith_def e wi_take take_bit_of_int take_bit_add take_bit_diff take_bit_mult
        wi_bitops take_bit_and take_bit_or take_bit_xor)
qed

lemma neg_enc: "take_bit (8 * bytes_of t) (neg_val NegOp (enc t x)) = enc t (- x)"
  "take_bit (8 * bytes_of t) (neg_val NotOp (enc t x)) = enc t (- x - 1)"
proof -
  let ?n = "8 * bytes_of t"
  show "take_bit ?n (neg_val NegOp (enc t x)) = enc t (- x)"
    by (simp add: neg_val_def enc_def take_bit_neg flip: wi_hom_neg)
  have "word_of_int (- x - 1) = NOT (word_of_int x :: 64 word)"
    by (simp add: not_eq_complement flip: wi_hom_neg wi_hom_sub)
  then show "take_bit ?n (neg_val NotOp (enc t x)) = enc t (- x - 1)"
    by (simp add: neg_val_def enc_def take_bit_not_take_bit)
qed

lemma cmp_enc:
  assumes "ity_ok t" "in_range t x" "in_range t y" "u = (\<not> is_signed t)"
  shows "cmp_val k u (bytes_of t) (enc t x) (enc t y) = cmp_const k x y"
  using assms enc_inj [OF assms(1-3)]
  by (cases k; cases "is_signed t") (simp_all add: cmp_val_def cmp_const_def Let_def uint_enc_unsigned sval_enc)

lemma shift_enc:
  assumes "ity_ok t" "in_range t x"
  shows "take_bit (8 * bytes_of t) (shift_val (is_signed t) d (bytes_of t) (enc t x) k) =
    enc t (case d of LBitShift \<Rightarrow> x * 2 ^ k | RBitShift \<Rightarrow> x div 2 ^ k)"
proof (cases d)
  case LBitShift
  have p: "(2 :: 64 word) ^ k = word_of_int (2 ^ k)" by simp
  have "take_bit (8 * bytes_of t) (word_of_int (take_bit (8 * bytes_of t) x) * 2 ^ k) = (word_of_int (take_bit (8 * bytes_of t) (x * 2 ^ k)) :: 64 word)"
    unfolding p wi_take(3) by (metis take_bit_mult take_bit_take_bit min.idem)
  then show ?thesis using LBitShift by (simp only: shift_val_def enc_def take_bit_of_int shift_dir.case)
next
  case RBitShift
  have "(if is_signed t then sval (bytes_of t) (enc t x) else uint (enc t x)) = x"
    using sval_enc [OF assms] uint_enc_unsigned [OF assms] by simp
  then have "shift_val (is_signed t) d (bytes_of t) (enc t x) k = word_of_int (x div 2 ^ k)"
    using RBitShift by (simp only: shift_val_def shift_dir.case)
  then show ?thesis using RBitShift by (simp add: enc_def [of t "x div 2 ^ k"])
qed

lemma trunc_sdiv: "(if (x < 0) = (y < 0) then \<bar>x\<bar> div \<bar>y\<bar> else - (\<bar>x\<bar> div \<bar>y\<bar>)) = (x :: int) sdiv y"
  by (auto simp: signed_divide_int_def sgn_if)

lemma div_enc:
  assumes "ity_ok t" "in_range t x" "in_range t y" "c_div t d x y = Some r"
  shows "div_defined (is_signed t) (bytes_of t) (enc t x) (enc t y)"
    and "take_bit (8 * bytes_of t) (word_of_int (div_result (is_signed t) d (bytes_of t) (enc t x) (enc t y))) = enc t r"
proof -
  have y: "y \<noteq> 0" and q: "in_range t (x sdiv y)" and r: "r = (case d of DivOp \<Rightarrow> x sdiv y | ModOp \<Rightarrow> x - (x sdiv y) * y)"
    using assms(4) by (auto simp: c_div_def Let_def trunc_sdiv split: if_splits)
  have v: "div_defined (is_signed t) (bytes_of t) (enc t x) (enc t y) \<and> div_result (is_signed t) d (bytes_of t) (enc t x) (enc t y) = r"
  proof (cases "is_signed t")
    case True
    then obtain n where n: "t = Ity n True False" "0 < n" using assms(1) by (cases t) (auto simp: ity_ok_def size_ok_def)
    have m: "x smod y = x - (x sdiv y) * y" using sdiv_mult_smod_eq [of x y] by simp
    have "div_defined True n (enc t x) (enc t y)"
      using q y True sval_enc [OF assms(1,2)] sval_enc [OF assms(1,3)] n by (simp add: div_defined_def in_range_signed)
    then show ?thesis using True sval_enc [OF assms(1,2)] sval_enc [OF assms(1,3)] n r m by (simp add: div_result_def split: div_mod.split)
  next
    case False
    then have u: "uint (enc t x) = x" "uint (enc t y) = y" using uint_enc_unsigned assms by auto
    then have "0 \<le> x" "0 \<le> y" using uint_ge_0 by metis+
    then have s: "x sdiv y = x div y" by (simp add: signed_divide_int_def sgn_if)
    then show ?thesis using False u y r by (simp add: div_defined_def div_result_def minus_div_mult_eq_mod split: div_mod.split)
  qed
  then show "div_defined (is_signed t) (bytes_of t) (enc t x) (enc t y)" by blast
  show "take_bit (8 * bytes_of t) (word_of_int (div_result (is_signed t) d (bytes_of t) (enc t x) (enc t y))) = enc t r"
    using v by (simp add: enc_def)
qed

end
