(* ===== verification/IntTypes.thy ===== *)
theory IntTypes
  imports IntWords
begin

unbundle bit_operations_syntax

text \<open>
  The integer types of \<open>shivyc/ctypes.py\<close> as the types of C, and the compile-time side of the conversions:
  \<open>arith_conversion_type\<close> is the usual arithmetic conversion and \<open>shift_into_range\<close> the conversion of a value.
\<close>

section \<open>Types\<close>

lemma ity_ofE:
  assumes "ity_of t = Some a"
  obtains og sz c where "t = IntegerT og sz (is_signed a) (is_boolean a) c" "kind_size og = Some sz" "bytes_of a = nat sz"
    "is_boolean a = (og = 1)" "0 < sz"
  using assms by (cases a) (auto simp: ity_of_def kind_size_def split: ctype.splits if_splits)

lemma ity_of_preds:
  assumes "ity_of t = Some a"
  shows "is_integral t" "is_arith t" "is_scalar t" "\<not> is_floating t" "\<not> is_array t" "\<not> is_function t" "\<not> is_pointer t" "\<not> is_void t"
    "is_bool t = is_boolean a" "ctype_signed t = Some (is_signed a)" "signed_of t = Some (is_signed a)"
    "signed_default t = is_signed a" "unsigned_cmp t = (\<not> is_signed a)" "pointee_type t = None" "array_el t = None" "\<not> is_struct_union t"
    "size_of H t = int (bytes_of a)"
  using assms by (auto elim!: ity_ofE simp: ctype_preds ctype_signed_def signed_of_def signed_default_def unsigned_cmp_def pointee_type_def array_el_def
      size_of_def)

lemma base_types [simp]:
  "ity_of integer_t = Some int_ity" "ity_of unsig_int = Some (Ity 4 False False)" "ity_of longint = Some (Ity 8 True False)"
  "ity_of unsig_longint = Some (Ity 8 False False)"
  by (simp_all add: ity_of_def kind_size_def int_ity_def integer_t_def unsig_int_def longint_def unsig_longint_def)

lemma compat_ity:
  assumes "ity_of t = Some a" "ity_of u = Some b" "weak_compat t u"
  shows "a = b"
  using assms by (cases a; cases b) (auto elim!: ity_ofE)

lemma compatible_weak: "\<not> is_array t \<Longrightarrow> compatible t u \<Longrightarrow> weak_compat t u"
  by (simp add: compatible_non_array)

lemma promoted_ok: "ity_ok t \<Longrightarrow> ity_ok (promoted t) \<and> \<not> is_boolean (promoted t) \<and> bytes_of (promoted t) \<in> {4, 8}"
  by (auto simp: promoted_def ity_ok_def size_ok_def int_ity_def)

lemma common_cases: "common t u = promoted t \<or> common t u = promoted u"
  by (auto simp: common_def Let_def)

lemma common_ok: "ity_ok t \<Longrightarrow> ity_ok u \<Longrightarrow> ity_ok (common t u) \<and> \<not> is_boolean (common t u) \<and> bytes_of (common t u) \<in> {4, 8}"
  using common_cases [of t u] promoted_ok by metis

lemma promoted_idem [simp]: "promoted (promoted t) = promoted t"
  by (auto simp: promoted_def int_ity_def)

lemma common_same: "promoted t = promoted u \<Longrightarrow> common t u = promoted t"
  by (simp add: common_def)

text \<open>Two promoted types of the same size and sign are the same; this is where \<open>weak_compat\<close> may be decided by identity.\<close>

lemma arith_conversion_ity:
  assumes "ity_of t1 = Some a" "ity_of t2 = Some b"
  shows "\<exists>t. arith_conversion_type st t1 t2 = Some t \<and> ity_of t = Some (common a b)"
proof -
  define p1 where "p1 = (if gen_size st t1 < 4 then integer_t else t1)"
  define p2 where "p2 = (if gen_size st t2 < 4 then integer_t else t2)"
  have p: "ity_of p1 = Some (promoted a)" "ity_of p2 = Some (promoted b)"
    using assms by (simp_all add: p1_def p2_def promoted_def gen_size_def ity_of_preds(17))
  note q = ity_of_preds [OF p(1)] ity_of_preds [OF p(2)]
  have wk: "weak_compat p1 p2 \<Longrightarrow> promoted a = promoted b" using p by (rule compat_ity)
  have d: "arith_conversion_type st t1 t2 = (let n1 = gen_size st p1; n2 = gen_size st p2 in
        if weak_compat p1 p2 then Some p1
        else if is_signed (promoted a) = is_signed (promoted b) then Some (if n1 \<ge> n2 then p1 else p2)
             else if \<not> is_signed (promoted a) \<and> n1 \<ge> n2 then Some p1
             else if \<not> is_signed (promoted b) \<and> n2 \<ge> n1 then Some p2
             else if is_signed (promoted a) \<and> n1 > n2 then Some p1
             else if is_signed (promoted b) \<and> n2 > n1 then Some p2 else None)"
    using ity_of_preds [OF assms(1)] ity_of_preds [OF assms(2)] q
    by (simp add: arith_conversion_type_def Let_def p1_def [symmetric] p2_def [symmetric])
  have n: "gen_size st p1 = int (bytes_of (promoted a))" "gen_size st p2 = int (bytes_of (promoted b))"
    using q by (simp_all add: gen_size_def)
  show ?thesis using p wk unfolding d n by (auto simp: common_def Let_def)
qed

section \<open>Values\<close>

lemma and_top_bit: "take_bit (Suc k) i AND 2 ^ k \<noteq> 0 \<longleftrightarrow> bit (i :: int) k"
  by (simp add: and_exp_eq_0_iff_not_bit bit_take_bit_iff)

lemma shift_into_range_wrap:
  assumes "ity_of t = Some a" "\<not> is_boolean a"
  shows "shift_into_range i t = wrap a i"
proof -
  obtain og sz c where t: "t = IntegerT og sz (is_signed a) False c" "bytes_of a = nat sz" "0 < sz"
    using ity_ofE [OF assms(1)] assms(2) by metis
  define k where "k = 8 * nat sz - 1"
  have k: "nat (sz * 8) = Suc k" "8 * bytes_of a = Suc k" using t(2,3) by (auto simp: k_def nat_mult_distrib)
  have m: "i AND (2 ^ Suc k - 1) = take_bit (Suc k) i" unfolding take_bit_eq_mask mask_eq_exp_minus_1 by simp
  have s: "signed_take_bit k i = (if bit i k then take_bit (Suc k) i - 2 ^ Suc k else take_bit (Suc k) i)"
    by (simp add: signed_take_bit_eq_take_bit_minus)
  show ?thesis
    using assms(2) k and_top_bit [of k i] s by (cases a) (simp add: t(1) shift_into_range_def Let_def m del: power_Suc)
qed

end
