(* ===== verification/FloatFold.thy ===== *)
theory FloatFold
  imports ILGen
begin

text \<open>
  The quotient of two integer constants, which \<open>Div._arith_const\<close> computes in floating point: exact when the dividend
  has at most 53 bits.
\<close>

lemma bit_length_bounds: "0 < n \<Longrightarrow> 2 ^ (bit_length n - 1) \<le> n \<and> n < 2 ^ bit_length n"
proof (induction n rule: bit_length.induct)
  case (1 n)
  show ?case
  proof (cases "n = 1")
    case True
    then show ?thesis by (simp add: bit_length.simps [of 1] bit_length.simps [of 0])
  next
    case False
    then have h: "0 < n div 2" using 1(2) by linarith
    then have ih: "2 ^ (bit_length (n div 2) - 1) \<le> n div 2" "n div 2 < 2 ^ bit_length (n div 2)" using 1(1) 1(2) by auto
    have "bit_length (n div 2) \<noteq> 0" using h by (subst bit_length.simps) simp
    then obtain k where k: "bit_length (n div 2) = Suc k" by (cases "bit_length (n div 2)") auto
    then have "bit_length n = Suc (Suc k)" using 1(2) by (subst bit_length.simps) simp
    moreover have "2 * 2 ^ k \<le> n" "n < 2 * 2 ^ Suc k" using ih unfolding k by simp_all
    ultimately show ?thesis by simp
  qed
qed

lemma bit_length_pos: "0 < n \<Longrightarrow> 0 < bit_length n"
  by (subst bit_length.simps) simp

lemma bit_length_rat:
  assumes "0 < n"
  shows "2 powi (int (bit_length n) - 1) \<le> (rat_of_int n)" "rat_of_int n < 2 powi (int (bit_length n))"
proof -
  obtain k where k: "bit_length n = Suc k" using bit_length_pos [OF assms] by (cases "bit_length n") auto
  have p: "2 powi int j = rat_of_int (2 ^ j)" for j by simp
  have "2 ^ k \<le> n" "n < 2 ^ Suc k" using bit_length_bounds [OF assms] by (simp_all add: k)
  then have "2 powi int k \<le> rat_of_int n" "rat_of_int n < 2 powi int (Suc k)" unfolding p of_int_le_iff of_int_less_iff by auto
  then show "2 powi (int (bit_length n) - 1) \<le> (rat_of_int n)" "rat_of_int n < 2 powi (int (bit_length n))" by (auto simp: k)
qed

lemma powi_two:
  "(2 :: rat) powi (i - j) = 2 powi i / 2 powi j" "(2 :: rat) powi (i + 1) = 2 * 2 powi i" "(2 :: rat) powi (i - 1) = 2 powi i / 2"
  by (simp_all add: power_int_diff power_int_add)

text \<open>The exponent puts the significand between \<open>2 ^ 52\<close> and \<open>2 ^ 53\<close>.\<close>

lemma fl_exp_bounds:
  assumes "x \<noteq> 0"
  shows "2 powi (fl_exp x + 52) \<le> \<bar>x\<bar>" "\<bar>x\<bar> < 2 powi (fl_exp x + 53)"
proof -
  obtain n d where nd: "quotient_of x = (n, d)" by force
  then have x: "x = of_int n / of_int d" and d: "0 < d" using quotient_of_div quotient_of_denom_pos by auto
  then have n: "0 < \<bar>n\<bar>" using assms by auto
  have ax: "\<bar>x\<bar> = of_int \<bar>n\<bar> / of_int d" using d by (simp add: x)
  let ?a = "int (bit_length \<bar>n\<bar>)" and ?b = "int (bit_length d)"
  have up: "\<bar>x\<bar> < 2 powi (?a - ?b + 1)"
  proof -
    have "of_int \<bar>n\<bar> / of_int d < 2 powi ?a / (2 powi (?b - 1) :: rat)"
      using bit_length_rat [OF n] bit_length_rat [OF d] by (intro frac_less) auto
    then show ?thesis unfolding ax powi_two by (simp add: field_simps)
  qed
  have lo: "2 powi (?a - ?b - 1) \<le> \<bar>x\<bar>"
  proof -
    have "2 powi (?a - 1) / (2 powi ?b :: rat) \<le> of_int \<bar>n\<bar> / of_int d"
      using bit_length_rat [OF n] bit_length_rat [OF d] d by (intro frac_le) auto
    then show ?thesis unfolding ax powi_two by (simp add: field_simps)
  qed
  have e: "fl_exp x = (if \<bar>x\<bar> \<ge> 2 powi (?a - ?b) then ?a - ?b - 52 else ?a - ?b - 53)" by (simp add: fl_exp_def nd Let_def)
  show "2 powi (fl_exp x + 52) \<le> \<bar>x\<bar>" using lo by (auto simp: e algebra_simps)
  show "\<bar>x\<bar> < 2 powi (fl_exp x + 53)" using up by (auto simp: e algebra_simps)
qed

lemma round_even_ge: "of_int m \<le> y \<Longrightarrow> m \<le> round_even y"
  by (simp add: round_even_def Let_def le_floor_iff) linarith

lemma round_even_near: "\<bar>of_int (round_even y) - y\<bar> \<le> 1 / 2"
proof -
  define r where "r = y - of_int \<lfloor>y\<rfloor>"
  have y: "y = of_int \<lfloor>y\<rfloor> + r" and r: "0 \<le> r" "r < 1" unfolding r_def by linarith+
  have "of_int (round_even y) - y = (if r < 1 / 2 then - r else if r > 1 / 2 then 1 - r else if even \<lfloor>y\<rfloor> then - r else 1 - r)"
    by (simp add: round_even_def Let_def r_def)
  then show ?thesis using r by (auto simp: abs_if)
qed

lemma round_even_minus: "round_even (- y) = - round_even y"
proof (cases "y = of_int \<lfloor>y\<rfloor>")
  case True
  then obtain m where "y = of_int m" by blast
  then show ?thesis by (simp add: round_even_def flip: of_int_minus)
next
  case False
  then have f: "\<lfloor>- y\<rfloor> = - \<lfloor>y\<rfloor> - 1" by (intro floor_unique) (simp_all, linarith+)
  show ?thesis unfolding round_even_def f Let_def by auto
qed

lemma fl_exp_minus [simp]: "fl_exp (- x) = fl_exp x"
  by (simp add: fl_exp_def rat_uminus_code Let_def split: prod.split)

lemma fl_round_minus: "fl_round (- x) = - fl_round x"
  using round_even_minus [of "x / 2 powi fl_exp x"] by (simp add: fl_round_def Let_def)

lemma fl_trunc_minus: "fl_trunc (- x) = - fl_trunc x"
  by (cases "x = 0") (auto simp: fl_trunc_def ceiling_minus floor_minus)

lemma fl_trunc_quotient:
  assumes "0 < i" "i < 2 ^ 53" "0 < j"
  shows "fl_trunc (fl_round (of_int i / of_int j)) = i div j"
proof -
  let ?x = "of_int i / of_int j :: rat"
  let ?e = "fl_exp ?x" and ?n = "i div j"
  have x: "?x \<noteq> 0" "\<bar>?x\<bar> = ?x" using assms by auto
  note b = fl_exp_bounds [OF x(1)]
  have le: "?x \<le> of_int i" using assms by (simp add: divide_le_eq)
  have "2 powi (?e + 52) < (2 powi 53 :: rat)"
  proof -
    have "rat_of_int i < rat_of_int (2 ^ 53)" using assms(2) unfolding of_int_less_iff .
    moreover have "2 powi (?e + 52) \<le> ?x" using b(1) unfolding x(2) .
    ultimately show ?thesis using le by simp
  qed
  then have e: "?e \<le> 0" using power_int_increasing [of 53 "?e + 52" "2 :: rat"] by (cases "?e \<le> 0") auto
  define k where "k = nat (- ?e)"
  have "?e = - int k" using e by (simp add: k_def)
  then have k: "(2 :: rat) powi ?e = 1 / 2 ^ k" by (simp only: power_int_minus power_int_of_nat inverse_eq_divide)
  define m where "m = round_even (?x * 2 ^ k)"
  have f: "fl_round ?x = of_int m / 2 ^ k" using x k by (simp add: fl_round_def Let_def m_def)
  have "?n * j \<le> i" using assms(3) by (simp add: minus_mod_eq_div_mult [symmetric])
  then have "rat_of_int (?n * j) \<le> rat_of_int i" by (simp only: of_int_le_iff)
  then have nx: "of_int ?n \<le> ?x" using assms(3) by (simp add: le_divide_eq)
  have "of_int (?n * 2 ^ k) \<le> ?x * 2 ^ k" using mult_right_mono [OF nx, of "2 ^ k"] by simp
  then have "?n * 2 ^ k \<le> m" unfolding m_def by (rule round_even_ge)
  then have "of_int (?n * 2 ^ k) \<le> (of_int m :: rat)" by (simp only: of_int_le_iff)
  then have lower: "of_int ?n \<le> fl_round ?x" by (simp add: f le_divide_eq)
  have near: "fl_round ?x - ?x \<le> 1 / 2 ^ k / 2"
  proof -
    have "of_int m - ?x * 2 ^ k \<le> 1 / 2" using round_even_near [of "?x * 2 ^ k"] unfolding m_def [symmetric] by linarith
    then have "(of_int m - ?x * 2 ^ k) / 2 ^ k \<le> 1 / 2 / 2 ^ k" by (rule divide_right_mono) simp
    then show ?thesis by (simp add: f diff_divide_distrib)
  qed
  have "2 powi (?e + 52) = 2 ^ 52 * (2 powi ?e :: rat)" by (simp add: power_int_add)
  then have "2 ^ 52 * (1 / 2 ^ k) \<le> ?x" using b(1) by (simp only: k x)
  then have "fl_round ?x - ?x \<le> ?x / 2 ^ 53" using near by simp
  also have "?x / 2 ^ 53 < 1 / of_int j"
  proof -
    have "rat_of_int i < rat_of_int (2 ^ 53)" using assms(2) unfolding of_int_less_iff .
    then have "of_int i / of_int j / 2 ^ 53 < (2 ^ 53 / of_int j / 2 ^ 53 :: rat)" using assms(3)
      by (intro divide_strict_right_mono) (simp_all only: of_int_power of_int_numeral of_int_0_less_iff zero_less_power zero_less_numeral)
    then show ?thesis by simp
  qed
  finally have up: "fl_round ?x < ?x + 1 / of_int j" by simp
  have "i + 1 \<le> (?n + 1) * j" using assms(3) pos_mod_bound [of j i] div_mult_mod_eq [of i j] unfolding distrib_right by linarith
  then have "rat_of_int (i + 1) \<le> rat_of_int ((?n + 1) * j)" by (simp only: of_int_le_iff)
  then have "of_int (i + 1) / of_int j \<le> of_int ?n + (1 :: rat)" using assms(3) by (simp add: divide_le_eq)
  then have "?x + 1 / of_int j \<le> of_int ?n + 1" by (simp add: add_divide_distrib)
  then have "\<lfloor>fl_round ?x\<rfloor> = ?n" using lower up by (intro floor_unique) auto
  moreover have "0 \<le> ?n" using assms by (simp add: pos_imp_zdiv_nonneg_iff)
  ultimately show ?thesis using lower by (auto simp: fl_trunc_def)
qed

theorem const_division_exact:
  assumes "\<bar>i\<bar> < 2 ^ 53" "j \<noteq> 0"
  shows "fl_trunc (fl_round (of_int i / of_int j)) = (if (i < 0) = (j < 0) then \<bar>i\<bar> div \<bar>j\<bar> else - (\<bar>i\<bar> div \<bar>j\<bar>))"
proof (cases "i = 0")
  case True
  then show ?thesis by (simp add: fl_round_def fl_trunc_def)
next
  case False
  have p: "fl_trunc (fl_round (of_int \<bar>i\<bar> / of_int \<bar>j\<bar>)) = \<bar>i\<bar> div \<bar>j\<bar>" using False assms by (intro fl_trunc_quotient) auto
  show ?thesis
  proof (cases "(i < 0) = (j < 0)")
    case True
    then have "of_int i / of_int j = (of_int \<bar>i\<bar> / of_int \<bar>j\<bar> :: rat)" by (cases "i < 0") auto
    then show ?thesis using True p by simp
  next
    case False
    then have "of_int i / of_int j = - (of_int \<bar>i\<bar> / of_int \<bar>j\<bar> :: rat)" by (cases "i < 0") auto
    then show ?thesis using False p by (simp add: fl_round_minus fl_trunc_minus)
  qed
qed

theorem const_division_rounds: "fl_trunc (fl_round (of_int 9007199254740993 / of_int 1)) = 9007199254740992"
  by code_simp

end
