(* ===== verification/CodeRuns.thy ===== *)
theory CodeRuns
  imports PeepholeSound
begin

text \<open>
  Runs of a piece of code inside the code of a function: \<open>il_step\<close> is one command of the run \<open>il_returns\<close> follows,
  \<open>reaches\<close> says where a piece whose jumps stay inside it gets, whatever surrounds it, and \<open>computes\<close> that it runs to its end.
\<close>

section \<open>Steps\<close>

definition label_names :: "il list \<Rightarrow> string list" where
  "label_names cs = List.map_filter il_label cs"

lemma label_names_simps [simp]:
  "label_names [] = []"
  "label_names (c # cs) = (case il_label c of None \<Rightarrow> label_names cs | Some l \<Rightarrow> l # label_names cs)"
  "label_names (cs @ ds) = label_names cs @ label_names ds"
  by (simp_all add: label_names_def map_filter_simps map_filter_def split: option.split)

inductive il_step :: "types \<Rightarrow> (spot \<Rightarrow> 64 word) \<Rightarrow> 'w effects \<Rightarrow> il list \<Rightarrow> il list \<times> env \<times> 'w \<Rightarrow> il list \<times> env \<times> 'w \<Rightarrow> bool"
  for ty A X P where
  next_cmd: "il_next ty A X c E w = Some (E', w', None) \<Longrightarrow> il_step ty A X P (c # cs, E, w) (cs, E', w')"
| jump_to: "il_next ty A X c E w = Some (E', w', Some l) \<Longrightarrow> after_il l P = Some rest \<Longrightarrow> il_step ty A X P (c # cs, E, w) (rest, E', w')"

inductive_cases il_stepE: "il_step ty A X P (c # cs, E, w) q"

lemma il_step_returns:
  assumes "il_step ty A X P p q" "il_returns ty A X P (fst q) (fst (snd q)) (snd (snd q)) res"
  shows "il_returns ty A X P (fst p) (fst (snd p)) (snd (snd p)) res"
  using assms by cases (auto intro: il_returns.go il_returns.jump)

lemma il_steps_returns:
  assumes "(il_step ty A X P)\<^sup>*\<^sup>* p q" "il_returns ty A X P (fst q) (fst (snd q)) (snd (snd q)) res"
  shows "il_returns ty A X P (fst p) (fst (snd p)) (snd (snd p)) res"
  using assms by (induction rule: converse_rtranclp_induct) (auto intro: il_step_returns)

lemma il_label_Some: "il_label c = Some l \<longleftrightarrow> c = Label l"
  by (auto simp: il_label_def split: il.splits)

lemma label_name_iff: "l \<in> set (label_names cs) \<longleftrightarrow> Label l \<in> set cs"
proof (induction cs)
  case (Cons c cs)
  then show ?case using il_label_Some [of c] by (cases "il_label c") (auto simp: il_label_def)
qed simp

lemma after_unique: "distinct (label_names (pre @ Label l # rest)) \<Longrightarrow> after_il l (pre @ Label l # rest) = Some rest"
proof -
  assume d: "distinct (label_names (pre @ Label l # rest))"
  have "il_label (Label l) = Some l" by (simp add: il_label_Some)
  then have "Label l \<notin> set pre" using d by (auto simp: label_name_iff)
  then show ?thesis unfolding after_il_Some by (intro exI [of _ pre]) (auto simp: il_label_Some)
qed

section \<open>Pieces of code\<close>

definition reaches :: "types \<Rightarrow> (spot \<Rightarrow> 64 word) \<Rightarrow> 'w effects \<Rightarrow> il list \<Rightarrow> il list \<times> env \<Rightarrow> il list \<times> env \<Rightarrow> bool" where
  "reaches ty A X code p q = (\<forall>P pre rest w. P = pre @ code @ rest \<longrightarrow> distinct (label_names P) \<longrightarrow>
     (il_step ty A X P)\<^sup>*\<^sup>* (fst p @ rest, snd p, w) (fst q @ rest, snd q, w))"

lemma reaches_refl: "reaches ty A X code p p"
  by (simp add: reaches_def)

lemma reaches_trans [trans]: "reaches ty A X code p q \<Longrightarrow> reaches ty A X code q r \<Longrightarrow> reaches ty A X code p r"
proof -
  assume "reaches ty A X code p q" "reaches ty A X code q r"
  then show ?thesis unfolding reaches_def by (metis (no_types, lifting) rtranclp_trans)
qed

lemma reaches_inside: "reaches ty A X c p q \<Longrightarrow> reaches ty A X (a @ c @ b) (fst p @ b, snd p) (fst q @ b, snd q)"
proof -
  assume r: "reaches ty A X c p q"
  have "(il_step ty A X (pre @ (a @ c @ b) @ rest))\<^sup>*\<^sup>* ((fst p @ b) @ rest, snd p, w) ((fst q @ b) @ rest, snd q, w)"
    if "distinct (label_names (pre @ (a @ c @ b) @ rest))" for pre rest w
    using r [unfolded reaches_def, rule_format, of "pre @ (a @ c @ b) @ rest" "pre @ a" "b @ rest" w] that by simp
  then show ?thesis by (simp add: reaches_def)
qed

lemma reaches_cmd: "(\<And>w. il_next ty A X c E w = Some (E', w, None)) \<Longrightarrow> reaches ty A X code (c # cs, E) (cs, E')"
  by (auto simp: reaches_def intro!: r_into_rtranclp il_step.next_cmd)

lemma reaches_jump:
  assumes "\<And>w. il_next ty A X c E w = Some (E', w, Some l)" "code = a @ Label l # b"
  shows "reaches ty A X code (c # cs, E) (b, E')"
proof -
  have "after_il l (pre @ code @ rest) = Some (b @ rest)" if "distinct (label_names (pre @ code @ rest))" for pre rest
    using after_unique [of "pre @ a" l "b @ rest"] that assms(2) by simp
  then show ?thesis using assms(1) by (auto simp: reaches_def intro!: r_into_rtranclp il_step.jump_to)
qed

section \<open>Code that runs to its end\<close>

definition outs :: "il list \<Rightarrow> nat set" where
  "outs cs = {v. \<exists>c \<in> set cs. v \<in> set (il_outputs c)}"

lemma outs_simps [simp]: "outs [] = {}" "outs (c # cs) = set (il_outputs c) \<union> outs cs" "outs (cs @ ds) = outs cs \<union> outs ds"
  by (auto simp: outs_def)

definition computes :: "types \<Rightarrow> (spot \<Rightarrow> 64 word) \<Rightarrow> 'w effects \<Rightarrow> il list \<Rightarrow> env \<Rightarrow> env \<Rightarrow> bool" where
  "computes ty A X code E E' = (reaches ty A X code (code, E) ([], E') \<and> agree (outs code) E E')"

lemma agree_trans: "agree D E E1 \<Longrightarrow> agree D' E1 E2 \<Longrightarrow> agree (D \<union> D') E E2"
  by (simp add: agree_def)

lemma agree_refl [simp]: "agree D E E"
  by (simp add: agree_def)

lemma agree_weaken: "agree D E E' \<Longrightarrow> D \<subseteq> D' \<Longrightarrow> agree D' E E'"
  by (auto simp: agree_def)

lemma computes_Nil [simp]: "computes ty A X [] E E' \<longleftrightarrow> E' = E"
  by (auto simp: computes_def reaches_refl agree_def)

lemma computes_append: "computes ty A X c E E1 \<Longrightarrow> computes ty A X d E1 E2 \<Longrightarrow> computes ty A X (c @ d) E E2"
proof -
  assume c: "computes ty A X c E E1" and d: "computes ty A X d E1 E2"
  have "reaches ty A X (c @ d) (c @ d, E) (d, E1)"
    using reaches_inside [of ty A X c "(c, E)" "([], E1)" "[]" d] c by (simp add: computes_def)
  also have "reaches ty A X (c @ d) (d, E1) ([], E2)"
    using reaches_inside [of ty A X d "(d, E1)" "([], E2)" c "[]"] d by (simp add: computes_def)
  finally show ?thesis using c d agree_trans [of "outs c" E E1 "outs d" E2] by (simp add: computes_def)
qed

lemma computes_cmd:
  assumes "il_value ty A c E = Some (v, x)" "set (il_outputs c) = {v}"
    and "\<And>w. il_next ty A X c E w = map_option (\<lambda>(v, x). (E(v := x), w, None)) (il_value ty A c E)"
  shows "computes ty A X [c] E (E(v := x))"
  using assms by (auto simp: computes_def agree_def intro: reaches_cmd)

lemma computes_arith: "computes ty A X [Arith op out a b] E (E(out := take_bit (8 * isize ty out) (arith_val op (E a) (E b))))"
  by (rule computes_cmd) (simp_all add: il_value_def il_next_def il_outputs_def)

lemma computes_neg: "computes ty A X [NegNot op out a] E (E(out := take_bit (8 * isize ty out) (neg_val op (E a))))"
  by (rule computes_cmd) (simp_all add: il_value_def il_next_def il_outputs_def)

lemma computes_compare:
  "computes ty A X [Compare k out a b None] E (E(out := of_bool (cmp_val k (unsigned_cmp (ty_of ty a)) (isize ty a) (E a) (E b))))"
  by (rule computes_cmd) (simp_all add: il_value_def il_next_def il_outputs_def)

lemma computes_set: "computes ty A X [SetCmd out a] E (E(out := set_val ty out (signed_src ty a) (isize ty a) (isize ty out) (E a)))"
  by (rule computes_cmd) (simp_all add: il_value_def il_next_def il_outputs_def)

lemma computes_shift:
  "uint (E b) < (if isize ty out = 8 then 64 else 32) \<Longrightarrow> computes ty A X [BitShift d out a b] E
    (E(out := take_bit (8 * isize ty out) (shift_val (signed_default (ty_of ty a)) d (isize ty out) (E a) (nat (uint (E b))))))"
  by (rule computes_cmd) (simp_all add: il_value_def il_next_def il_outputs_def)

lemma computes_div:
  "signed_of (ty_of ty a) = Some sg \<Longrightarrow> div_defined sg (isize ty out) (E a) (E b) \<Longrightarrow> computes ty A X [DivMod d out a b] E
    (E(out := take_bit (8 * isize ty out) (word_of_int (div_result sg d (isize ty out) (E a) (E b)))))"
  by (rule computes_cmd) (simp_all add: il_value_def il_next_def il_outputs_def)

end
