(* ===== verification/GenSteps.thy ===== *)
theory GenSteps
  imports IntTypes FloatFold CodeRuns
begin

unbundle bit_operations_syntax

text \<open>
  What one step of code generation keeps, and what the code it appends computes.  \<open>gives\<close> relates the states before
  and after a step: code is appended, values, labels and literals are added, and nothing known before changes.
\<close>

section \<open>Primitive steps\<close>

definition with_value :: "ctype \<Rightarrow> gen_state \<Rightarrow> gen_state" where
  "with_value t st = snd (new_ilvalue t st)"

definition with_label :: "gen_state \<Rightarrow> gen_state" where
  "with_label st = snd (gen_label st)"

definition nth_label :: "nat \<Rightarrow> string" where
  "nth_label k = ''__shivyc_label'' @ nat_str k"

lemma new_ilvalue_eq: "new_ilvalue t st = (next_val st, with_value t st)"
  by (simp add: with_value_def new_ilvalue_def new_var_def)

lemma gen_label_eq: "gen_label st = (nth_label (Suc (g_labels st)), with_label st)"
  by (simp add: with_label_def gen_label_def nth_label_def Let_def)

lemma nth_label_inject [simp]: "nth_label j = nth_label k \<longleftrightarrow> j = k"
  unfolding nth_label_def using parse_nat_str by (metis append_same_eq same_append_eq option.inject)

lemma with_value_sel [simp]:
  "next_val (with_value t st) = Suc (next_val st)" "st_ctype (g_syms (with_value t st)) = (st_ctype (g_syms st))(next_val st := t)"
  "st_tables (g_syms (with_value t st)) = st_tables (g_syms st)" "g_code (with_value t st) = g_code st"
  "g_literal (with_value t st) = g_literal st" "g_literals (with_value t st) = g_literals st" "g_labels (with_value t st) = g_labels st"
  "g_lvalues (with_value t st) = g_lvalues st" "g_heap (with_value t st) = g_heap st"
  by (simp_all add: with_value_def new_ilvalue_def new_var_def)

lemma with_label_sel [simp]:
  "g_syms (with_label st) = g_syms st" "g_code (with_label st) = g_code st" "g_literal (with_label st) = g_literal st"
  "g_literals (with_label st) = g_literals st" "g_labels (with_label st) = Suc (g_labels st)" "g_lvalues (with_label st) = g_lvalues st"
  "g_heap (with_label st) = g_heap st"
  by (simp_all add: with_label_def gen_label_def Let_def)

lemma add_cmd_sel [simp]:
  "g_syms (add_cmd c st) = g_syms st" "g_code (add_cmd c st) = g_code st @ [c]" "g_literal (add_cmd c st) = g_literal st"
  "g_literals (add_cmd c st) = g_literals st" "g_labels (add_cmd c st) = g_labels st" "g_lvalues (add_cmd c st) = g_lvalues st"
  "g_heap (add_cmd c st) = g_heap st"
  by (simp_all add: add_cmd_def)

definition with_literal :: "nat \<Rightarrow> int \<Rightarrow> literal \<Rightarrow> gen_state \<Rightarrow> gen_state" where
  "with_literal v i l st = st\<lparr>g_literal := (g_literal st)(v \<mapsto> IntLit i), g_literals := (g_literals st)(v \<mapsto> l)\<rparr>"

lemma register_literal_eq: "register_literal v i st = with_literal v i (LInt i) st" "register_literal_text v i st = with_literal v i (LStr (int_str i)) st"
  by (simp_all add: register_literal_def register_literal_text_def with_literal_def)

lemma with_literal_sel [simp]:
  "g_syms (with_literal v i l st) = g_syms st" "g_code (with_literal v i l st) = g_code st" "g_literal (with_literal v i l st) = (g_literal st)(v \<mapsto> IntLit i)"
  "g_literals (with_literal v i l st) = (g_literals st)(v \<mapsto> l)" "g_labels (with_literal v i l st) = g_labels st"
  "g_lvalues (with_literal v i l st) = g_lvalues st" "g_heap (with_literal v i l st) = g_heap st"
  by (simp_all add: with_literal_def)

lemma literal_value_eq:
  "literal_value t i st = (next_val st, with_literal (next_val st) i (LInt i) (with_value t st))"
  "literal_text_value t i st = (next_val st, with_literal (next_val st) i (LStr (int_str i)) (with_value t st))"
  by (simp_all add: literal_value_def literal_text_value_def new_ilvalue_eq register_literal_eq)

lemma lit_int_simps [simp]: "lit_int (LInt i) = Some i" "lit_int (LStr (int_str i)) = Some i"
  by (simp_all add: lit_int_def parse_int_str)

lemmas primitive_eqs = new_ilvalue_eq gen_label_eq literal_value_eq register_literal_eq

section \<open>States\<close>

definition named :: "gen_state \<Rightarrow> string \<Rightarrow> nat \<Rightarrow> bool" where
  "named st x v = (lookup_enum_const (g_syms st) x = None \<and> lookup_variable (g_syms st) x = Inr v)"

text \<open>The names of the environment are variables of the scope, and the nodes \<open>N\<close> cache those variables.\<close>

definition gen_ok :: "cenv \<Rightarrow> (nat \<rightharpoonup> string) \<Rightarrow> gen_state \<Rightarrow> bool" where
  "gen_ok S N st =
     ((\<forall>v \<ge> next_val st. g_literal st v = None \<and> g_literals st v = None) \<and>
      (\<forall>x t y. S x = Some (t, y) \<longrightarrow> (\<exists>v. named st x v \<and> v < next_val st \<and> ity_of (ctype_of st v) = Some t
         \<and> g_literal st v = None \<and> g_literals st v = None)) \<and>
      (\<forall>i x lv. N i = Some x \<longrightarrow> g_lvalues st i = Some lv \<longrightarrow> (\<exists>v. named st x v \<and> lv = DirectLV v)))"

definition gives :: "cenv \<Rightarrow> (nat \<rightharpoonup> string) \<Rightarrow> gen_state \<Rightarrow> il list \<Rightarrow> gen_state \<Rightarrow> bool" where
  "gives S N st code st' =
     (gen_ok S N st \<and> gen_ok S N st' \<and> st_tables (g_syms st') = st_tables (g_syms st) \<and> next_val st \<le> next_val st' \<and> g_labels st \<le> g_labels st' \<and>
      (\<forall>v < next_val st. ctype_of st' v = ctype_of st v \<and> g_literal st' v = g_literal st v \<and> g_literals st' v = g_literals st v) \<and>
      g_code st' = g_code st @ code \<and> distinct (label_names code) \<and>
      set (label_names code) \<subseteq> nth_label ` {g_labels st<..g_labels st'} \<and>
      (\<forall>v \<in> outs code. next_val st \<le> v \<and> v < next_val st' \<and> g_literals st' v = None))"

lemma gives_code: "gives S N st code st' \<Longrightarrow> gives S N st code' st' \<Longrightarrow> code = code'"
  by (simp add: gives_def)

lemma gives_ok: "gives S N st code st' \<Longrightarrow> gen_ok S N st'"
  by (simp add: gives_def)

lemma gives_refl: "gen_ok S N st \<Longrightarrow> gives S N st [] st"
  by (simp add: gives_def)

lemma gives_trans:
  assumes "gives S N st c st1" "gives S N st1 d st2"
  shows "gives S N st (c @ d) st2"
proof -
  have "set (label_names c) \<inter> set (label_names d) = {}"
    using assms by (force simp: gives_def)
  moreover have "nth_label ` {g_labels st<..g_labels st1} \<subseteq> nth_label ` {g_labels st<..g_labels st2}"
      "nth_label ` {g_labels st1<..g_labels st2} \<subseteq> nth_label ` {g_labels st<..g_labels st2}"
    using assms by (auto simp: gives_def)
  moreover have "distinct (label_names c)" "distinct (label_names d)"
      "set (label_names c) \<subseteq> nth_label ` {g_labels st<..g_labels st1}" "set (label_names d) \<subseteq> nth_label ` {g_labels st1<..g_labels st2}"
    using assms by (simp_all add: gives_def)
  ultimately have l: "distinct (label_names (c @ d))" "set (label_names (c @ d)) \<subseteq> nth_label ` {g_labels st<..g_labels st2}" by auto
  have o: "\<forall>v \<in> outs (c @ d). next_val st \<le> v \<and> v < next_val st2 \<and> g_literals st2 v = None"
  proof
    fix v assume "v \<in> outs (c @ d)"
    then consider "v \<in> outs c" | "v \<in> outs d" by auto
    then show "next_val st \<le> v \<and> v < next_val st2 \<and> g_literals st2 v = None"
    proof cases
      case 1
      then have "next_val st \<le> v" "v < next_val st1" "g_literals st1 v = None" using assms(1) by (simp_all add: gives_def)
      moreover have "next_val st1 \<le> next_val st2" "v < next_val st1 \<Longrightarrow> g_literals st2 v = g_literals st1 v" using assms(2) by (simp_all add: gives_def)
      ultimately show ?thesis by simp
    next
      case 2
      then have "next_val st1 \<le> v" "v < next_val st2" "g_literals st2 v = None" using assms(2) by (simp_all add: gives_def)
      moreover have "next_val st \<le> next_val st1" using assms(1) by (simp add: gives_def)
      ultimately show ?thesis by simp
    qed
  qed
  have le: "next_val st \<le> next_val st1" "next_val st1 \<le> next_val st2" "g_labels st \<le> g_labels st1" "g_labels st1 \<le> g_labels st2"
    using assms by (simp_all add: gives_def)
  have k: "ctype_of st2 v = ctype_of st v \<and> g_literal st2 v = g_literal st v \<and> g_literals st2 v = g_literals st v" if "v < next_val st" for v
  proof -
    have "v < next_val st1" using that le by simp
    then show ?thesis using that assms by (simp add: gives_def)
  qed
  have r: "gen_ok S N st" "gen_ok S N st2" "st_tables (g_syms st2) = st_tables (g_syms st)" "g_code st2 = g_code st @ c @ d"
    using assms by (simp_all add: gives_def)
  have "\<forall>v < next_val st. ctype_of st2 v = ctype_of st v \<and> g_literal st2 v = g_literal st v \<and> g_literals st2 v = g_literals st v"
    using k by blast
  then show ?thesis unfolding gives_def by (intro conjI r l o le_trans [OF le(1,2)] le_trans [OF le(3,4)])
qed

lemma named_cong: "st_tables (g_syms st') = st_tables (g_syms st) \<Longrightarrow> named st' x v = named st x v"
  by (simp add: named_def lookup_enum_const_def lookup_variable_def lookup_raw_def)

lemma gen_ok_names: "gen_ok S N st \<Longrightarrow> S x = Some (t, y) \<Longrightarrow>
    \<exists>v. named st x v \<and> v < next_val st \<and> ity_of (ctype_of st v) = Some t \<and> g_literal st v = None \<and> g_literals st v = None"
  by (simp add: gen_ok_def)

lemma gen_ok_nodes: "gen_ok S N st \<Longrightarrow> N i = Some x \<Longrightarrow> g_lvalues st i = Some lv \<Longrightarrow> \<exists>v. named st x v \<and> lv = DirectLV v"
  by (simp add: gen_ok_def)

lemma gen_ok_fresh: "gen_ok S N st \<Longrightarrow> next_val st \<le> v \<Longrightarrow> g_literal st v = None \<and> g_literals st v = None"
  by (simp add: gen_ok_def)

lemma gen_okI:
  assumes g: "gen_ok S N st" and t: "st_tables (g_syms st') = st_tables (g_syms st)" and l: "g_lvalues st' = g_lvalues st"
    and n: "next_val st \<le> next_val st'"
    and k: "\<And>x v. S x \<noteq> None \<Longrightarrow> named st x v \<Longrightarrow> v < next_val st \<Longrightarrow>
      ctype_of st' v = ctype_of st v \<and> g_literal st' v = g_literal st v \<and> g_literals st' v = g_literals st v"
    and f: "\<And>v. next_val st' \<le> v \<Longrightarrow> g_literal st' v = None \<and> g_literals st' v = None"
  shows "gen_ok S N st'"
proof -
  have "\<exists>v. named st' x v \<and> v < next_val st' \<and> ity_of (ctype_of st' v) = Some t \<and> g_literal st' v = None \<and> g_literals st' v = None"
    if s: "S x = Some (t, y)" for x t y
  proof -
    obtain v where v: "named st x v" "v < next_val st" "ity_of (ctype_of st v) = Some t \<and> g_literal st v = None \<and> g_literals st v = None"
      using gen_ok_names [OF g s] by blast
    show ?thesis using v(3) k [OF _ v(1,2)] s v(1,2) n by (intro exI [of _ v]) (simp add: named_cong [OF assms(2)])
  qed
  moreover have "\<exists>v. named st' x v \<and> lv = DirectLV v" if "N i = Some x" "g_lvalues st' i = Some lv" for i x lv
    using gen_ok_nodes [OF g that(1)] that(2) by (simp add: l named_cong [OF assms(2)])
  ultimately show ?thesis using f unfolding gen_ok_def by blast
qed

text \<open>Only the fields \<open>gives\<close> reads matter.\<close>

lemma gives_step:
  assumes g: "gives S N st code st1" and t: "st_tables (g_syms st2) = st_tables (g_syms st1)" "g_lvalues st2 = g_lvalues st1"
    and n: "next_val st1 \<le> next_val st2" "g_labels st1 \<le> g_labels st2"
    and k: "\<And>v. v < next_val st1 \<Longrightarrow> v < next_val st \<or> v \<in> outs code \<Longrightarrow>
      ctype_of st2 v = ctype_of st1 v \<and> g_literal st2 v = g_literal st1 v \<and> g_literals st2 v = g_literals st1 v"
    and f: "\<And>v. next_val st2 \<le> v \<Longrightarrow> g_literal st2 v = None \<and> g_literals st2 v = None"
    and c: "g_code st2 = g_code st1 @ d" "distinct (label_names (code @ d))" "set (label_names d) \<subseteq> nth_label ` {g_labels st<..g_labels st2}"
      "\<And>v. v \<in> outs d \<Longrightarrow> next_val st \<le> v \<and> v < next_val st2 \<and> g_literals st2 v = None"
  shows "gives S N st (code @ d) st2"
proof -
  have le: "next_val st \<le> next_val st1" "g_labels st \<le> g_labels st1" using g by (simp_all add: gives_def)
  have o: "next_val st \<le> v \<and> v < next_val st2 \<and> g_literals st2 v = None" if "v \<in> outs (code @ d)" for v
  proof (cases "v \<in> outs d")
    case False
    then have v: "v \<in> outs code" "next_val st \<le> v" "v < next_val st1" "g_literals st1 v = None" using that g by (auto simp: gives_def)
    then show ?thesis using k [OF v(3)] n by simp
  qed (use c(4) in simp)
  have s: "ctype_of st2 v = ctype_of st v \<and> g_literal st2 v = g_literal st v \<and> g_literals st2 v = g_literals st v" if "v < next_val st" for v
  proof -
    have "v < next_val st1" using that le by simp
    then show ?thesis using k [of v] that g by (simp add: gives_def)
  qed
  have "v < next_val st" if "S x \<noteq> None" "named st1 x v" for x v
  proof -
    have "named st x v" using named_cong [of st1 st x v] g that(2) by (simp add: gives_def)
    then show ?thesis using gen_ok_names [of S N st x] g that(1) by (auto simp: gives_def named_def)
  qed
  then have ok: "gen_ok S N st2" using k by (intro gen_okI [OF gives_ok [OF g] t n(1) _ f]) blast+
  have l: "set (label_names (code @ d)) \<subseteq> nth_label ` {g_labels st<..g_labels st2}"
  proof -
    have "set (label_names code) \<subseteq> nth_label ` {g_labels st<..g_labels st1}" using g by (simp add: gives_def)
    also have "\<dots> \<subseteq> nth_label ` {g_labels st<..g_labels st2}" using n(2) by auto
    finally show ?thesis using c(3) by simp
  qed
  have "st_tables (g_syms st2) = st_tables (g_syms st)" "g_code st2 = g_code st @ code @ d" "gen_ok S N st" using g t c(1) by (simp_all add: gives_def)
  then show ?thesis unfolding gives_def
    using ok s o le_trans [OF le(1) n(1)] le_trans [OF le(2) n(2)] c(2) l by blast
qed

lemma givesD:
  assumes "gives S N st code st'"
  shows "distinct (label_names code)" "next_val st \<le> next_val st'" "g_labels st \<le> g_labels st'" "g_code st' = g_code st @ code"
    "set (label_names code) \<subseteq> nth_label ` {g_labels st<..g_labels st'}" "st_tables (g_syms st') = st_tables (g_syms st)"
    "v < next_val st \<Longrightarrow> ctype_of st' v = ctype_of st v" "v < next_val st \<Longrightarrow> g_literal st' v = g_literal st v"
    "v < next_val st \<Longrightarrow> g_literals st' v = g_literals st v"
    "v \<in> outs code \<Longrightarrow> next_val st \<le> v" "v \<in> outs code \<Longrightarrow> v < next_val st'" "v \<in> outs code \<Longrightarrow> g_literals st' v = None"
  using assms by (simp_all add: gives_def)

lemma gives_value: assumes g: "gives S N st code st1" shows "gives S N st code (with_value t st1)"
proof -
  have "gives S N st (code @ []) (with_value t st1)"
    by (rule gives_step [OF g]) (use gen_ok_fresh [OF gives_ok [OF g]] in \<open>simp_all add: givesD(1) [OF g]\<close>)
  then show ?thesis by simp
qed

lemma gives_label: assumes g: "gives S N st code st1" shows "gives S N st code (with_label st1)"
proof -
  have "gives S N st (code @ []) (with_label st1)"
    by (rule gives_step [OF g]) (use gen_ok_fresh [OF gives_ok [OF g]] in \<open>simp_all add: givesD(1) [OF g]\<close>)
  then show ?thesis by simp
qed

lemma gives_literal:
  assumes g: "gives S N st code st1" and v: "next_val st \<le> v" "v < next_val st1" "v \<notin> outs code"
  shows "gives S N st code (with_literal v i l st1)"
proof -
  have "gives S N st (code @ []) (with_literal v i l st1)"
    by (rule gives_step [OF g]) (use gen_ok_fresh [OF gives_ok [OF g]] v in \<open>auto simp: givesD(1) [OF g]\<close>)
  then show ?thesis by simp
qed

lemma gives_cmd:
  assumes g: "gives S N st code st1" and c: "il_label c = None"
    and v: "\<And>v. v \<in> set (il_outputs c) \<Longrightarrow> next_val st \<le> v \<and> v < next_val st1 \<and> g_literals st1 v = None"
  shows "gives S N st (code @ [c]) (add_cmd c st1)"
  by (rule gives_step [OF g]) (use gen_ok_fresh [OF gives_ok [OF g]] v in \<open>auto simp: givesD(1) [OF g] c\<close>)

lemma gives_label_cmd:
  assumes g: "gives S N st code st1" and l: "l \<in> nth_label ` {g_labels st<..g_labels st1}" "l \<notin> set (label_names code)"
  shows "gives S N st (code @ [Label l]) (add_cmd (Label l) st1)"
  by (rule gives_step [OF g]) (use gen_ok_fresh [OF gives_ok [OF g]] l in \<open>auto simp: givesD(1) [OF g] il_label_def il_outputs_def\<close>)

end
