(* ===== verification/GenOps.thy ===== *)
theory GenOps
  imports GenSteps
begin

unbundle bit_operations_syntax

text \<open>
  The pieces of \<open>make_il\<close> for integer operands: what each adds to the state, and that the commands it adds compute
  the operation of C on the encoded values.
\<close>

section \<open>Values of integer type\<close>

definition typed :: "gen_state \<Rightarrow> nat \<Rightarrow> ity \<Rightarrow> bool" where
  "typed st v a = (v < next_val st \<and> ity_of (ctype_of st v) = Some a \<and>
     (\<forall>l. g_literal st v = Some l \<longrightarrow> (\<exists>j. l = IntLit j \<and> in_range a j \<and> lit_of (g_literals st) v = Some j)))"

text \<open>An environment for a state: the types are the state's, and the literals have their values.\<close>

definition models :: "types \<Rightarrow> env \<Rightarrow> gen_state \<Rightarrow> bool" where
  "models ty E st = ((\<forall>v < next_val st. ty_of ty v = ctype_of st v) \<and>
     (\<forall>v j. lit_of (g_literals st) v = Some j \<longrightarrow> E v = take_bit (8 * isize ty v) (word_of_int j)))"

lemma typed_gives: "typed st v a \<Longrightarrow> gives S N st code st' \<Longrightarrow> typed st' v a"
  using givesD(2,7-9) [of S N st code st'] by (simp add: typed_def lit_of_def)

lemma typedD: "typed st v a \<Longrightarrow> v < next_val st" "typed st v a \<Longrightarrow> ity_of (ctype_of st v) = Some a" "typed st v a \<Longrightarrow> ity_ok a"
  by (auto simp: typed_def intro: ity_of_ok)

lemma typed_literal: "typed st v a \<Longrightarrow> g_literal st v = Some l \<Longrightarrow> \<exists>j. l = IntLit j \<and> in_range a j \<and> lit_of (g_literals st) v = Some j"
  by (simp add: typed_def)

lemma models_ty:
  assumes "models ty E st" "typed st v a"
  shows "isize ty v = bytes_of a" "signed_src ty v = is_signed a" "to_bool ty v = is_boolean a"
    "signed_default (ty_of ty v) = is_signed a" "signed_of (ty_of ty v) = Some (is_signed a)" "unsigned_cmp (ty_of ty v) = (\<not> is_signed a)"
proof -
  have t: "ty_of ty v = ctype_of st v" using assms by (simp add: models_def typed_def)
  note p = ity_of_preds [OF typedD(2) [OF assms(2)]]
  show "isize ty v = bytes_of a" by (simp add: isize_def vsize_def t p(17))
  show "signed_src ty v = is_signed a" "signed_default (ty_of ty v) = is_signed a" "signed_of (ty_of ty v) = Some (is_signed a)"
    "unsigned_cmp (ty_of ty v) = (\<not> is_signed a)"
    by (simp_all add: signed_src_def t p)
  obtain og sz c where "ctype_of st v = IntegerT og sz (is_signed a) (is_boolean a) c" "is_boolean a = (og = 1)"
    using ity_ofE [OF typedD(2) [OF assms(2)]] by metis
  then show "to_bool ty v = is_boolean a" using typedD(3) [OF assms(2)] by (auto simp: to_bool_def t bool_t_def ity_ok_def)
qed

lemma agreeD: "agree D E E' \<Longrightarrow> v \<notin> D \<Longrightarrow> E' v = E v"
  by (simp add: agree_def)

lemma models_back: "models ty E st' \<Longrightarrow> gives S N st code st' \<Longrightarrow> models ty E st"
proof -
  assume m: "models ty E st'" and g: "gives S N st code st'"
  have "lit_of (g_literals st') v = Some j" if "lit_of (g_literals st) v = Some j" for v j
  proof -
    have "v < next_val st" using that g gen_ok_fresh [of S N st v] by (force simp: gives_def lit_of_def)
    then show ?thesis using that givesD(9) [OF g] by (simp add: lit_of_def)
  qed
  then show ?thesis using m givesD(2,7) [OF g] by (simp add: models_def)
qed

lemma models_run:
  assumes m: "models ty E st2" and g: "gives S N st code st1" "gives S N st1 d st2" and a: "agree (outs code) E E'"
  shows "models ty E' st2"
proof -
  have "lit_of (g_literals st2) v = None" if "v \<in> outs code" for v
    using givesD(9) [OF g(2), of v] givesD(11,12) [OF g(1) that] by (simp add: lit_of_def)
  then have "E' v = E v" if "lit_of (g_literals st2) v = Some j" for v j using that by (intro agreeD [OF a]) auto
  then show ?thesis using m by (simp add: models_def)
qed

lemma lit_enc: "models ty E st \<Longrightarrow> typed st v a \<Longrightarrow> g_literal st v = Some l \<Longrightarrow> \<exists>j. l = IntLit j \<and> in_range a j \<and> E v = enc a j"
  using typed_literal [of st v a l] models_ty(1) [of ty E st v a] by (auto simp: models_def enc_def)

lemma lit_value: "models ty E st \<Longrightarrow> typed st v a \<Longrightarrow> g_literal st v = Some l \<Longrightarrow> E v = enc a i \<Longrightarrow> in_range a i \<Longrightarrow> l = IntLit i"
  using lit_enc [of ty E st v a l] enc_inj [OF typedD(3)] by metis

lemma kept_value: "typed st v a \<Longrightarrow> gives S N st code st' \<Longrightarrow> agree (outs code) E E' \<Longrightarrow> E' v = E v"
  using givesD(10) [of S N st code st' v] typedD(1) [of st v a] agreeD [of "outs code" E E' v] by fastforce

section \<open>Literals\<close>

lemma gives_fresh_literal:
  assumes "gives S N st code st1"
  shows "gives S N st code (with_literal (next_val st1) i l (with_value t st1))"
  using givesD(2,11) [OF assms] by (intro gives_literal gives_value assms) auto

lemma typed_fresh_literal:
  "ity_of t = Some a \<Longrightarrow> in_range a i \<Longrightarrow> lit_int l = Some i \<Longrightarrow> typed (with_literal (next_val st1) i l (with_value t st1)) (next_val st1) a"
  by (simp add: typed_def lit_of_def)

lemma models_literal:
  "models ty E (with_literal (next_val st1) i l (with_value t st1)) \<Longrightarrow> ity_of t = Some a \<Longrightarrow> lit_int l = Some i \<Longrightarrow> E (next_val st1) = enc a i"
proof -
  assume m: "models ty E (with_literal (next_val st1) i l (with_value t st1))" and t: "ity_of t = Some a" "lit_int l = Some i"
  then have "ty_of ty (next_val st1) = t" by (simp add: models_def)
  then have "isize ty (next_val st1) = bytes_of a" using ity_of_preds(17) [OF t(1)] by (simp add: isize_def vsize_def)
  then show ?thesis using m t by (simp add: models_def lit_of_def enc_def)
qed

lemma bool_literal_eq: "bool_literal b st = (next_val st, with_literal (next_val st) (of_bool b) (LStr (int_str (of_bool b))) (with_value integer_t st))"
  by (cases b) (simp_all add: bool_literal_def literal_value_eq)

section \<open>Conversions\<close>

lemma set_type_cases [consumes 4]:
  assumes "typed st v a" "ity_of t = Some b" "set_type v t None st = Some (v', st')" "g_literal st v \<noteq> None \<longrightarrow> \<not> is_boolean b"
  obtains (same) "v' = v" "st' = st" "a = b"
    | (lit) i where "g_literal st v = Some (IntLit i)" "v' = next_val st" "st' = with_literal (next_val st) (wrap b i) (LInt (wrap b i)) (with_value t st)"
    | (cmd) "g_literal st v = None" "v' = next_val st" "st' = add_cmd (SetCmd (next_val st) v) (with_value t st)"
proof (cases "compatible (ctype_of st v) t")
  case True
  then have "a = b" using compat_ity typedD(2) [OF assms(1)] assms(2) compatible_weak ity_of_preds(5) by blast
  then show ?thesis using True assms(3) by (intro same) (simp_all add: set_type_def)
next
  case False
  note p = ity_of_preds [OF assms(2)]
  show ?thesis
  proof (cases "g_literal st v")
    case None
    then show ?thesis using False assms(3) by (intro cmd) (auto simp: set_type_def new_ilvalue_eq)
  next
    case (Some l)
    then obtain i where "l = IntLit i" using typed_literal [OF assms(1)] by blast
    then show ?thesis using False Some assms(3,4) shift_into_range_wrap [OF assms(2)]
      by (intro lit) (auto simp: set_type_def new_ilvalue_eq register_literal_eq p)
  qed
qed

lemma typed_new: "ity_of t = Some b \<Longrightarrow> g_literal st (next_val st) = None \<Longrightarrow> typed (add_cmd c (with_value t st)) (next_val st) b"
  by (simp add: typed_def)

lemma set_type_gives:
  assumes "gen_ok S N st" "typed st v a" "ity_of t = Some b" "set_type v t None st = Some (v', st')" "g_literal st v \<noteq> None \<longrightarrow> \<not> is_boolean b"
  shows "\<exists>code. gives S N st code st' \<and> typed st' v' b \<and> (g_literal st' v' = None \<longleftrightarrow> g_literal st v = None)"
  using assms(2-5)
proof (cases rule: set_type_cases)
  case same
  then show ?thesis using gives_refl [OF assms(1)] assms(2) by (intro exI [of _ "[]"]) simp
next
  case (lit i)
  show ?thesis unfolding lit(2,3) using lit(1) gives_fresh_literal [OF gives_refl [OF assms(1)]] typed_fresh_literal [OF assms(3) wrap_in_range, of _ i st]
    by (intro exI [of _ "[]"]) simp
next
  case cmd
  have "gives S N st ([] @ [SetCmd (next_val st) v]) (add_cmd (SetCmd (next_val st) v) (with_value t st))"
    using gen_ok_fresh [OF assms(1), of "next_val st"] by (intro gives_cmd gives_value gives_refl assms(1)) (simp_all add: il_label_def il_outputs_def)
  then show ?thesis unfolding cmd(2,3) using gen_ok_fresh [OF assms(1), of "next_val st"] cmd(1) typed_new [OF assms(3)] by auto
qed

lemma set_val_enc:
  assumes m: "models ty E st" and out: "typed st out b" and v: "typed st v a" and e: "E v = enc a i" "in_range a i"
  shows "set_val ty out (signed_src ty v) (isize ty v) (isize ty out) (E v) = enc b (wrap b i)"
proof -
  note tv = models_ty [OF m v] and tw = models_ty [OF m out]
  show ?thesis
  proof (cases "is_boolean b")
    case True
    then have "b = Ity (bytes_of b) (is_signed b) True" "wrap b i = of_bool (i \<noteq> 0)" by (cases b; simp)+
    then show ?thesis using True tw e enc_zero [OF typedD(3) [OF v] e(2)] ity_okD [OF typedD(3) [OF out]] by (auto simp: set_val_def enc_def)
  next
    case False
    then show ?thesis using tv tw e conv_enc [OF typedD(3) [OF v] typedD(3) [OF out] e(2)] enc_wrap [OF typedD(3) [OF out] False]
      by (simp add: set_val_def)
  qed
qed

lemma set_type_computes:
  assumes "gen_ok S N st" "typed st v a" "ity_of t = Some b" "set_type v t None st = Some (v', st')" "g_literal st v \<noteq> None \<longrightarrow> \<not> is_boolean b"
    and g: "gives S N st code st'" and m: "models ty E st'" and e: "E v = enc a i" "in_range a i"
  shows "\<exists>E'. computes ty A X code E E' \<and> E' v' = enc b (wrap b i)"
  using assms(2-5)
proof (cases rule: set_type_cases)
  case same
  then have "code = []" using givesD(4) [OF g] by simp
  then show ?thesis using e same by (auto simp: in_range_wrap)
next
  case (lit j)
  have "code = []" using givesD(4) [OF g] by (simp add: lit(3))
  moreover have "j = i" using lit_value [OF models_back [OF m g] assms(2) lit(1) e] by simp
  moreover have "E v' = enc b (wrap b j)" unfolding lit(2) by (rule models_literal [OF m [unfolded lit(3)] assms(3)]) simp
  ultimately show ?thesis by simp
next
  case cmd
  have c: "code = [SetCmd v' v]" using givesD(4) [OF g] cmd by simp
  obtain d where d: "gives S N st d st'" "typed st' v' b" using set_type_gives [OF assms(1-5)] by blast
  note sv = set_val_enc [OF m d(2) typed_gives [OF assms(2) g] e]
  show ?thesis unfolding c using computes_set [of ty A X v' v E] sv by (metis fun_upd_same)
qed

end
