(* ===== verification/GenBin.thy ===== *)
theory GenBin
  imports GenOps
begin

unbundle bit_operations_syntax

text \<open>Binary operators on operands of one type: folding two constants, and the command for anything else.\<close>

section \<open>The operation on converted operands\<close>

definition result_ity :: "bin_op \<Rightarrow> ity \<Rightarrow> ity" where
  "result_ity op c = (case op of OpCmp _ \<Rightarrow> int_ity | _ \<Rightarrow> c)"

definition c_op :: "bin_op \<Rightarrow> ity \<Rightarrow> int \<Rightarrow> int \<Rightarrow> int option" where
  "c_op op c x y = (case op of
       OpArith a \<Rightarrow> Some (wrap c (c_arith a x y))
     | OpDiv d \<Rightarrow> c_div c d x y
     | OpShift d \<Rightarrow> c_shift c d x y
     | OpCmp k \<Rightarrow> Some (of_bool (cmp_const k x y)))"

lemma in_range_between:
  assumes "ity_ok t" "\<not> is_boolean t" "in_range t x" "in_range t z" "x \<le> y" "y \<le> z"
  shows "in_range t y"
proof -
  obtain n sg where t: "t = Ity n sg False" "0 < n" using assms(1,2) by (cases t) (auto simp: ity_ok_def size_ok_def)
  then show ?thesis using assms(3-6) by (cases sg) (auto simp: in_range_signed in_range_unsigned)
qed

lemma c_div_range:
  assumes "ity_ok t" "\<not> is_boolean t" "in_range t x" "in_range t y" "c_div t d x y = Some r"
  shows "in_range t r"
proof -
  have y: "y \<noteq> 0" and q: "in_range t (x sdiv y)" and r: "r = (case d of DivOp \<Rightarrow> x sdiv y | ModOp \<Rightarrow> x - (x sdiv y) * y)"
    using assms(5) by (auto simp: c_div_def Let_def trunc_sdiv split: if_splits)
  have m: "x - (x sdiv y) * y = sgn x * (\<bar>x\<bar> mod \<bar>y\<bar>)" using sdiv_mult_smod_eq [of x y] by (simp add: signed_modulo_int_def)
  have le: "\<bar>x\<bar> mod \<bar>y\<bar> \<le> \<bar>x\<bar>" "0 \<le> \<bar>x\<bar> mod \<bar>y\<bar>" using y by (auto simp: zmod_le_nonneg_dividend)
  have z: "in_range t 0" using in_range_small [OF assms(1), of False] by simp
  have "in_range t (sgn x * (\<bar>x\<bar> mod \<bar>y\<bar>))"
  proof (cases "0 \<le> x")
    case True
    then have "0 \<le> sgn x * (\<bar>x\<bar> mod \<bar>y\<bar>)" "sgn x * (\<bar>x\<bar> mod \<bar>y\<bar>) \<le> x" using le by (auto simp: sgn_if)
    then show ?thesis by (rule in_range_between [OF assms(1,2) z assms(3)])
  next
    case False
    then have "x \<le> sgn x * (\<bar>x\<bar> mod \<bar>y\<bar>)" "sgn x * (\<bar>x\<bar> mod \<bar>y\<bar>) \<le> 0" using le by (auto simp: sgn_if)
    then show ?thesis by (rule in_range_between [OF assms(1,2) assms(3) z])
  qed
  then show ?thesis using q r m by (cases d) simp_all
qed

lemma c_op_range:
  assumes "ity_ok c" "\<not> is_boolean c" "in_range c x" "in_range c y" "c_op op c x y = Some z"
  shows "in_range (result_ity op c) z"
proof (cases op)
  case (OpDiv d)
  then have "c_div c d x y = Some z" using assms(5) by (simp add: c_op_def)
  then show ?thesis using c_div_range [OF assms(1-4)] OpDiv by (simp add: result_ity_def)
qed (use assms(5) in_range_small [OF int_ity_ok(1)] in \<open>auto simp: c_op_def result_ity_def c_shift_def wrap_in_range split: if_splits\<close>)

section \<open>Constants\<close>

lemma c_mod_eq: "c_mod x y = x - (x sdiv y) * y"
  by (auto simp: c_mod_def Let_def signed_divide_int_def sgn_if)

lemma small_range: "ity_ok c \<Longrightarrow> bytes_of c = 4 \<Longrightarrow> in_range c x \<Longrightarrow> \<bar>x\<bar> < 2 ^ 53"
  by (erule ity_ok_cases; cases "is_signed c") (auto simp: in_range_signed in_range_unsigned)

lemma arith_const_ok:
  assumes t: "ity_of t = Some c" "\<not> is_boolean c" and x: "in_range c x" "in_range c y"
    and k: "arith_const op x y t = Some (Some k)"
    and d: "op = OpDiv DivOp \<longrightarrow> bytes_of c = 4"
  shows "in_range (result_ity op c) k" and "c_op op c x y = Some z \<Longrightarrow> k = z"
proof -
  note w = shift_into_range_wrap [OF t] and ok = ity_of_ok [OF t(1)]
  show "in_range (result_ity op c) k"
    using k in_range_small [OF int_ity_ok(1), of True] in_range_small [OF int_ity_ok(1), of False]
    by (auto simp: arith_const_def w wrap_in_range result_ity_def split: bin_op.splits div_mod.splits if_splits)
  show "k = z" if z: "c_op op c x y = Some z"
  proof (cases op)
    case (OpArith a)
    then show ?thesis using k z by (cases a) (simp_all add: arith_const_def w c_op_def c_arith_def)
  next
    case (OpDiv dm)
    then have q: "c_div c dm x y = Some z" using z by (simp add: c_op_def)
    then have y: "y \<noteq> 0" by (auto simp: c_div_def)
    have zr: "wrap c z = z" using c_div_range [OF ok t(2) x q] by (rule in_range_wrap)
    show ?thesis
    proof (cases dm)
      case DivOp
      have "k = wrap c (fl_trunc (fl_round (of_int x / of_int y)))" using k y OpDiv DivOp by (simp add: arith_const_def w)
      also have "\<dots> = wrap c (x sdiv y)" using const_division_exact [of x y] small_range [OF ok] d OpDiv DivOp x y trunc_sdiv [of x y] by simp
      also have "\<dots> = z" using q zr DivOp by (auto simp: c_div_def Let_def trunc_sdiv split: if_splits)
      finally show ?thesis .
    next
      case ModOp
      have "k = wrap c (c_mod x y)" using k y OpDiv ModOp by (simp add: arith_const_def w)
      then show ?thesis using q zr ModOp by (auto simp: c_div_def Let_def trunc_sdiv c_mod_eq split: if_splits)
    qed
  next
    case (OpShift s)
    then show ?thesis using k z by (cases s) (auto simp: arith_const_def w c_op_def c_shift_def split: if_splits)
  next
    case (OpCmp m)
    then show ?thesis using k z by (auto simp: arith_const_def c_op_def)
  qed
qed

section \<open>Commands\<close>

lemma il_binop_computes:
  assumes m: "models ty E st" and l: "typed st l c" "E l = enc c x" "in_range c x" and r: "typed st r c" "E r = enc c y" "in_range c y"
    and out: "typed st out (result_ity op c)" and c: "\<not> is_boolean c" "bytes_of c \<in> {4, 8}" and z: "c_op op c x y = Some z"
  shows "computes ty A X [il_binop op out l r] E (E(out := enc (result_ity op c) z))"
proof -
  note tl = models_ty [OF m l(1)] and tr = models_ty [OF m r(1)] and tout = models_ty [OF m out] and ok = typedD(3) [OF l(1)]
  show ?thesis
  proof (cases op)
    case (OpArith a)
    then have o: "isize ty out = bytes_of c" using tout by (simp add: result_ity_def)
    show ?thesis using computes_arith [of ty A X a out l r E] OpArith z arith_enc [of c a x y] enc_wrap [OF ok c(1)]
      by (simp add: il_binop_def o l(2) r(2) c_op_def result_ity_def) metis
  next
    case (OpDiv d)
    then have o: "isize ty out = bytes_of c" using tout by (simp add: result_ity_def)
    have q: "c_div c d x y = Some z" using z OpDiv by (simp add: c_op_def)
    note e = div_enc [OF ok l(3) r(3) q]
    show ?thesis using computes_div [of ty l "is_signed c" out E r A X d] OpDiv e tl(5)
      by (simp add: il_binop_def o l(2) r(2) result_ity_def)
  next
    case (OpShift s)
    then have o: "isize ty out = bytes_of c" using tout by (simp add: result_ity_def)
    have k: "0 \<le> y" "y < int (8 * bytes_of c)"
      and zz: "z = wrap c (case s of LBitShift \<Rightarrow> x * 2 ^ nat y | RBitShift \<Rightarrow> x div 2 ^ nat y)"
      using z OpShift by (auto simp: c_op_def c_shift_def split: if_splits)
    have "y < 2 ^ (8 * bytes_of c)" using k c(2) by auto
    then have u: "uint (enc c y) = y" using k uint_enc [OF ok] by (simp add: take_bit_int_eq_self)
    have n: "uint (E r) < (if isize ty out = 8 then 64 else 32)" using k c(2) by (auto simp: o r(2) u)
    show ?thesis using computes_shift [of E r ty out A X s l, OF n] OpShift shift_enc [OF ok l(3), of s "nat y"] enc_wrap [OF ok c(1)] tl(4)
      by (simp add: il_binop_def o l(2) r(2) result_ity_def u zz)
  next
    case (OpCmp k)
    have "enc int_ity (of_bool b) = (of_bool b :: 64 word)" for b by (cases b) (simp_all add: enc_def)
    moreover have "z = of_bool (cmp_const k x y)" using z OpCmp by (simp add: c_op_def)
    ultimately show ?thesis using computes_compare [of ty A X k out l r E] OpCmp cmp_enc [OF ok l(3) r(3) refl] tl(1,6)
      by (simp add: il_binop_def l(2) r(2) result_ity_def)
  qed
qed

lemma const_ctype_ity: "ity_of t = Some c \<Longrightarrow> ity_of (const_ctype op t) = Some (result_ity op c)"
  by (simp add: const_ctype_def result_ity_def split: bin_op.split)

lemma fold_or_emit_cases [consumes 4]:
  assumes "typed st l c" "typed st r c" "fold_or_emit op l r st = Some (v, st')" "\<not> is_boolean c"
  obtains (folded) i j k where "g_literal st l = Some (IntLit i)" "g_literal st r = Some (IntLit j)"
      "arith_const op i j (ctype_of st l) = Some (Some k)" "v = next_val st"
      "st' = with_literal (next_val st) k (LInt k) (with_value (const_ctype op (ctype_of st l)) st)"
    | (emitted) "v = next_val st" "st' = add_cmd (il_binop op (next_val st) l r) (with_value (const_ctype op (ctype_of st l)) st)"
proof -
  have f: "\<not> is_floating (ctype_of st l)" using ity_of_preds(4) typedD(2) assms(1) by blast
  have r: "shift_into_range i (ctype_of st u) = i" if "typed st u c" "g_literal st u = Some (IntLit i)" for u i
    using typed_literal [OF that] shift_into_range_wrap [OF typedD(2) [OF that(1)] assms(4)] in_range_wrap by auto
  show ?thesis
  proof (cases "\<exists>i j. g_literal st l = Some (IntLit i) \<and> g_literal st r = Some (IntLit j)")
    case True
    then obtain i j where ij: "g_literal st l = Some (IntLit i)" "g_literal st r = Some (IntLit j)" by blast
    show ?thesis
      using assms(3) f r [OF assms(1) ij(1)] r [OF assms(2) ij(2)] folded [OF ij] emitted
      by (auto simp: fold_or_emit_def ij Let_def emit_binop_def primitive_eqs split: option.splits)
  next
    case False
    then have "g_literal st l = None \<or> g_literal st r = None" using typed_literal [OF assms(1)] typed_literal [OF assms(2)] by (metis not_None_eq)
    then have "fold_or_emit op l r st = Some (emit_binop op l r st)" by (auto simp: fold_or_emit_def Let_def split: option.split lit_const.split)
    then show ?thesis using assms(3) by (intro emitted) (simp_all add: emit_binop_def primitive_eqs)
  qed
qed

lemma il_binop_outputs [simp]: "il_outputs (il_binop op out l r) = [out]" "il_label (il_binop op out l r) = None"
  by (simp_all add: il_binop_def il_outputs_def il_label_def split: bin_op.split)

lemma gives_emit:
  assumes "gen_ok S N st" "il_label c = None" "set (il_outputs c) \<subseteq> {next_val st}"
  shows "gives S N st [c] (add_cmd c (with_value t st))"
proof -
  have "gives S N st ([] @ [c]) (add_cmd c (with_value t st))"
    using assms gen_ok_fresh [OF assms(1), of "next_val st"] by (intro gives_cmd gives_value gives_refl) auto
  then show ?thesis by simp
qed

lemma fold_or_emit_gives:
  assumes "gen_ok S N st" "typed st l c" "typed st r c" "fold_or_emit op l r st = Some (v, st')" "\<not> is_boolean c"
    "op = OpDiv DivOp \<longrightarrow> g_literal st l \<noteq> None \<and> g_literal st r \<noteq> None \<longrightarrow> bytes_of c = 4"
  shows "\<exists>code. gives S N st code st' \<and> typed st' v (result_ity op c)
    \<and> (g_literal st' v \<noteq> None \<longrightarrow> g_literal st l \<noteq> None \<and> g_literal st r \<noteq> None)"
  using assms(2-5)
proof (cases rule: fold_or_emit_cases)
  case (folded i j k)
  have r: "in_range c i" "in_range c j" using typed_literal [OF assms(2) folded(1)] typed_literal [OF assms(3) folded(2)] by auto
  have "in_range (result_ity op c) k"
    using arith_const_ok(1) [OF typedD(2) [OF assms(2)] assms(5) r folded(3)] assms(6) folded(1,2) by simp
  then show ?thesis unfolding folded(4,5)
    using gives_fresh_literal [OF gives_refl [OF assms(1)]] typed_fresh_literal [OF const_ctype_ity [OF typedD(2) [OF assms(2)]]] folded(1,2)
    by (intro exI [of _ "[]"]) simp
next
  case emitted
  then show ?thesis
    using gives_emit [OF assms(1)] typed_new [OF const_ctype_ity [OF typedD(2) [OF assms(2)]]] gen_ok_fresh [OF assms(1), of "next_val st"]
    by (intro exI [of _ "[il_binop op (next_val st) l r]"]) simp
qed

lemma fold_or_emit_computes:
  assumes ok: "gen_ok S N st" and l: "typed st l c" and r: "typed st r c" and f: "fold_or_emit op l r st = Some (v, st')"
    and c: "\<not> is_boolean c" "bytes_of c \<in> {4, 8}"
    and d: "op = OpDiv DivOp \<longrightarrow> g_literal st l \<noteq> None \<and> g_literal st r \<noteq> None \<longrightarrow> bytes_of c = 4"
    and g: "gives S N st code st'" and m: "models ty E st'" and e: "E l = enc c x" "in_range c x" "E r = enc c y" "in_range c y"
    and z: "c_op op c x y = Some z"
  shows "\<exists>E'. computes ty A X code E E' \<and> E' v = enc (result_ity op c) z"
  using l r f c(1)
proof (cases rule: fold_or_emit_cases)
  case (folded i j k)
  have "code = []" using givesD(4) [OF g] by (simp add: folded(5))
  moreover have "i = x" "j = y"
    using lit_value [OF models_back [OF m g] l folded(1) e(1,2)] lit_value [OF models_back [OF m g] r folded(2) e(3,4)] by simp_all
  moreover from this have "k = z" using arith_const_ok(2) [OF typedD(2) [OF l] c(1) e(2,4) _ _ z] folded(1-3) d by simp
  moreover have "E v = enc (result_ity op c) k"
    unfolding folded(4) by (rule models_literal [OF m [unfolded folded(5)] const_ctype_ity [OF typedD(2) [OF l]]]) simp
  ultimately show ?thesis by simp
next
  case emitted
  have code: "code = [il_binop op v l r]" using givesD(4) [OF g] by (simp add: emitted)
  have "typed st' v (result_ity op c)"
    using emitted typed_new [OF const_ctype_ity [OF typedD(2) [OF l]]] gen_ok_fresh [OF ok, of "next_val st"] by simp
  then have "computes ty A X code E (E(v := enc (result_ity op c) z))"
    unfolding code by (rule il_binop_computes [OF m typed_gives [OF l g] e(1,2) typed_gives [OF r g] e(3,4) _ c z])
  then show ?thesis by (metis fun_upd_same)
qed

end
