(* ===== verification/GenUn.thy ===== *)
theory GenUn
  imports GenBin
begin

unbundle bit_operations_syntax

text \<open>The other operators: conversions of both operands, unary operators, \<open>!\<close>, casts, constants and names.\<close>

section \<open>Binary operators\<close>

lemma models_between:
  "models ty E st2 \<Longrightarrow> gives S N st c1 st1 \<Longrightarrow> gives S N st1 c2 st2 \<Longrightarrow> computes ty A X c1 E E1 \<Longrightarrow> models ty E1 st2"
  using models_run by (auto simp: computes_def)

lemma computes_kept: "computes ty A X code E E' \<Longrightarrow> gives S N st code st' \<Longrightarrow> typed st v a \<Longrightarrow> E' v = E v"
  using kept_value by (auto simp: computes_def)

lemma arith_convertE:
  assumes "gen_ok S N st" "typed st l a" "typed st r b" "arith_convert l r st = Some (l', r', st')"
  obtains t c1 st1 c2 where "ity_of t = Some (common a b)" "set_type l t None st = Some (l', st1)" "set_type r t None st1 = Some (r', st')"
    "gives S N st c1 st1" "gives S N st1 c2 st'" "typed st1 l' (common a b)" "typed st' l' (common a b)" "typed st' r' (common a b)" "typed st1 r b"
    "g_literal st' l' = None \<longleftrightarrow> g_literal st l = None" "g_literal st' r' = None \<longleftrightarrow> g_literal st r = None" "\<not> is_boolean (common a b)"
proof -
  obtain t where t: "arith_conversion_type st (ctype_of st l) (ctype_of st r) = Some t" "ity_of t = Some (common a b)"
    using arith_conversion_ity [OF typedD(2) [OF assms(2)] typedD(2) [OF assms(3)]] by blast
  obtain st1 where s: "set_type l t None st = Some (l', st1)" "set_type r t None st1 = Some (r', st')"
    using assms(4) t(1) by (auto simp: arith_convert_def split: Option.bind_splits)
  have b: "\<not> is_boolean (common a b)" using common_ok typedD(3) assms(2,3) by blast
  obtain c1 where c1: "gives S N st c1 st1" "typed st1 l' (common a b)" "g_literal st1 l' = None \<longleftrightarrow> g_literal st l = None"
    using set_type_gives [OF assms(1,2) t(2) s(1)] b by auto
  note r1 = typed_gives [OF assms(3) c1(1)]
  obtain c2 where c2: "gives S N st1 c2 st'" "typed st' r' (common a b)" "g_literal st' r' = None \<longleftrightarrow> g_literal st1 r = None"
    using set_type_gives [OF gives_ok [OF c1(1)] r1 t(2) s(2)] b by auto
  have "g_literal st' l' = None \<longleftrightarrow> g_literal st l = None" using c1(3) givesD(8) [OF c2(1) typedD(1) [OF c1(2)]] by simp
  moreover have "g_literal st' r' = None \<longleftrightarrow> g_literal st r = None" using c2(3) givesD(8) [OF c1(1) typedD(1) [OF assms(3)]] by simp
  ultimately show ?thesis using b by (intro that [OF t(2) s c1(1) c2(1) c1(2) typed_gives [OF c1(2) c2(1)] c2(2) r1])
qed

lemma arith_convert_computes:
  assumes "gen_ok S N st" "typed st l a" "typed st r b" "arith_convert l r st = Some (l', r', st')"
    and g: "gives S N st code st'" and m: "models ty E st'"
    and e: "E l = enc a x" "in_range a x" "E r = enc b y" "in_range b y"
  shows "\<exists>E'. computes ty A X code E E' \<and> E' l' = enc (common a b) (wrap (common a b) x) \<and> E' r' = enc (common a b) (wrap (common a b) y)"
proof -
  obtain t c1 st1 c2 where s: "ity_of t = Some (common a b)" "set_type l t None st = Some (l', st1)" "set_type r t None st1 = Some (r', st')"
    and c: "gives S N st c1 st1" "gives S N st1 c2 st'" and l': "typed st1 l' (common a b)" and r1: "typed st1 r b" and b: "\<not> is_boolean (common a b)"
    using arith_convertE [OF assms(1-4)] by metis
  have code: "code = c1 @ c2" by (rule gives_code [OF g gives_trans [OF c]])
  obtain E1 where E1: "computes ty A X c1 E E1" "E1 l' = enc (common a b) (wrap (common a b) x)"
    using set_type_computes [OF assms(1,2) s(1,2) _ c(1) models_back [OF m c(2)] e(1,2)] b by auto
  have "E1 r = enc b y" using computes_kept [OF E1(1) c(1) assms(3)] e(3) by simp
  then obtain E2 where E2: "computes ty A X c2 E1 E2" "E2 r' = enc (common a b) (wrap (common a b) y)"
    using set_type_computes [OF gives_ok [OF c(1)] r1 s(1,3) _ c(2) models_between [OF m c E1(1)] _ e(4)] b by auto
  have "E2 l' = E1 l'" by (rule computes_kept [OF E2(1) c(2) l'])
  then show ?thesis unfolding code using computes_append [OF E1(1) E2(1)] E1(2) E2(2) by auto
qed

text \<open>The operators with the type the tree gives them.\<close>

definition op_ity :: "bin_op \<Rightarrow> ity \<Rightarrow> ity \<Rightarrow> ity" where
  "op_ity op a b = (case op of OpCmp _ \<Rightarrow> int_ity | OpShift _ \<Rightarrow> promoted a | _ \<Rightarrow> common a b)"

definition plain_op :: "bin_op \<Rightarrow> ity \<Rightarrow> ity \<Rightarrow> bool \<Rightarrow> bool" where
  "plain_op op a b folds = (case op of OpShift _ \<Rightarrow> promoted a = promoted b | OpDiv DivOp \<Rightarrow> bytes_of (common a b) = 4 \<or> \<not> folds | _ \<Rightarrow> True)"

lemma plain_op_ity: "plain_op op a b f \<Longrightarrow> op_ity op a b = result_ity op (common a b)"
  by (auto simp: plain_op_def op_ity_def result_ity_def common_same split: bin_op.splits)

lemma plain_op_val: "plain_op op a b f \<Longrightarrow> c_binop op a b x y = c_op op (common a b) (wrap (common a b) x) (wrap (common a b) y)"
  by (auto simp: plain_op_def c_binop_def c_op_def Let_def common_same split: bin_op.splits)

lemma binop_il_convert:
  assumes "typed st l a" "typed st r b"
  shows "binop_il op l r st = do { (l, r, st) \<leftarrow> arith_convert l r st; fold_or_emit op l r st }"
proof -
  have "check_operands op (ctype_of st l) (ctype_of st r)"
    using ity_of_preds(1,2) typedD(2) assms by (auto simp: check_operands_def split: bin_op.split div_mod.split)
  then show ?thesis by (simp add: binop_il_def)
qed

lemma binop_gives:
  assumes "gen_ok S N st" "typed st l a" "typed st r b" "binop_il op l r st = Some (v, st')"
    and p: "plain_op op a b (g_literal st l \<noteq> None \<and> g_literal st r \<noteq> None)"
  shows "\<exists>code. gives S N st code st' \<and> typed st' v (op_ity op a b)
    \<and> (g_literal st' v \<noteq> None \<longrightarrow> g_literal st l \<noteq> None \<and> g_literal st r \<noteq> None)"
proof -
  obtain l' r' st2 where f: "arith_convert l r st = Some (l', r', st2)" "fold_or_emit op l' r' st2 = Some (v, st')"
    using assms(4) unfolding binop_il_convert [OF assms(2,3)] by (auto split: Option.bind_splits)
  obtain t c1 st1 c2 where s: "ity_of t = Some (common a b)" "set_type l t None st = Some (l', st1)" "set_type r t None st1 = Some (r', st2)"
    and c: "gives S N st c1 st1" "gives S N st1 c2 st2" and t: "typed st1 l' (common a b)" "typed st2 l' (common a b)" "typed st2 r' (common a b)" "typed st1 r b"
    and lit: "g_literal st2 l' = None \<longleftrightarrow> g_literal st l = None" "g_literal st2 r' = None \<longleftrightarrow> g_literal st r = None" and b: "\<not> is_boolean (common a b)"
    by (rule arith_convertE [OF assms(1-3) f(1)])
  have "op = OpDiv DivOp \<longrightarrow> g_literal st2 l' \<noteq> None \<and> g_literal st2 r' \<noteq> None \<longrightarrow> bytes_of (common a b) = 4"
    using p lit by (auto simp: plain_op_def)
  then obtain c3 where c3: "gives S N st2 c3 st'" "typed st' v (result_ity op (common a b))"
    "g_literal st' v \<noteq> None \<longrightarrow> g_literal st2 l' \<noteq> None \<and> g_literal st2 r' \<noteq> None"
    using fold_or_emit_gives [OF gives_ok [OF c(2)] t(2,3) f(2) b] by blast
  show ?thesis using gives_trans [OF gives_trans [OF c] c3(1)] c3(2,3) lit plain_op_ity [OF p] by auto
qed

lemma binop_computes:
  assumes "gen_ok S N st" "typed st l a" "typed st r b" "binop_il op l r st = Some (v, st')"
    and p: "plain_op op a b (g_literal st l \<noteq> None \<and> g_literal st r \<noteq> None)"
    and g: "gives S N st code st'" and m: "models ty E st'"
    and e: "E l = enc a x" "in_range a x" "E r = enc b y" "in_range b y" and z: "c_binop op a b x y = Some z"
  shows "\<exists>E'. computes ty A X code E E' \<and> E' v = enc (op_ity op a b) z"
proof -
  let ?c = "common a b"
  obtain l' r' st2 where f: "arith_convert l r st = Some (l', r', st2)" "fold_or_emit op l' r' st2 = Some (v, st')"
    using assms(4) unfolding binop_il_convert [OF assms(2,3)] by (auto split: Option.bind_splits)
  obtain t c1 st1 c2 where s: "ity_of t = Some ?c" "set_type l t None st = Some (l', st1)" "set_type r t None st1 = Some (r', st2)"
    and c: "gives S N st c1 st1" "gives S N st1 c2 st2" and t: "typed st1 l' ?c" "typed st2 l' ?c" "typed st2 r' ?c" "typed st1 r b"
    and lit: "g_literal st2 l' = None \<longleftrightarrow> g_literal st l = None" "g_literal st2 r' = None \<longleftrightarrow> g_literal st r = None" and b: "\<not> is_boolean ?c"
    by (rule arith_convertE [OF assms(1-3) f(1)])
  have d: "op = OpDiv DivOp \<longrightarrow> g_literal st2 l' \<noteq> None \<and> g_literal st2 r' \<noteq> None \<longrightarrow> bytes_of ?c = 4"
    using p lit by (auto simp: plain_op_def)
  then obtain c3 where c3: "gives S N st2 c3 st'" using fold_or_emit_gives [OF gives_ok [OF c(2)] t(2,3) f(2) b] by blast
  note c12 = gives_trans [OF c]
  have code: "code = (c1 @ c2) @ c3" by (rule gives_code [OF g gives_trans [OF c12 c3]])
  obtain E1 where E1: "computes ty A X (c1 @ c2) E E1" "E1 l' = enc ?c (wrap ?c x)" "E1 r' = enc ?c (wrap ?c y)"
    using arith_convert_computes [OF assms(1-3) f(1) c12 models_back [OF m c3] e] by blast
  have sz: "bytes_of ?c \<in> {4, 8}" using common_ok [OF typedD(3) [OF assms(2)] typedD(3) [OF assms(3)]] by blast
  obtain E2 where E2: "computes ty A X c3 E1 E2" "E2 v = enc (result_ity op ?c) z"
    using fold_or_emit_computes [OF gives_ok [OF c(2)] t(2,3) f(2) b sz d c3 models_between [OF m c12 c3 E1(1)] E1(2) wrap_in_range E1(3) wrap_in_range]
      z plain_op_val [OF p] by metis
  show ?thesis unfolding code plain_op_ity [OF p] using computes_append [OF E1(1) E2(1)] E2(2) by blast
qed

section \<open>Unary operators\<close>

lemma promote_gives:
  assumes "gen_ok S N st" "typed st v a" "promote v st = Some (v', st')"
  shows "\<exists>code. gives S N st code st' \<and> typed st' v' (promoted a) \<and> (g_literal st' v' = None \<longleftrightarrow> g_literal st v = None)"
proof (cases "bytes_of a < 4")
  case True
  then show ?thesis using assms set_type_gives [OF assms(1,2) base_types(1), of v' st'] ity_of_preds(17) [OF typedD(2) [OF assms(2)]]
    by (simp add: promote_def gen_size_def promoted_def)
next
  case False
  then show ?thesis using assms gives_refl [OF assms(1)] ity_of_preds(17) [OF typedD(2) [OF assms(2)]]
    by (auto simp: promote_def gen_size_def promoted_def)
qed

lemma promote_computes:
  assumes "gen_ok S N st" "typed st v a" "promote v st = Some (v', st')"
    and g: "gives S N st code st'" and m: "models ty E st'" and e: "E v = enc a i" "in_range a i"
  shows "\<exists>E'. computes ty A X code E E' \<and> E' v' = enc (promoted a) (wrap (promoted a) i)"
proof (cases "bytes_of a < 4")
  case True
  then have s: "set_type v integer_t None st = Some (v', st')" and p: "promoted a = int_ity"
    using assms(3) ity_of_preds(17) [OF typedD(2) [OF assms(2)]] by (simp_all add: promote_def gen_size_def promoted_def)
  show ?thesis unfolding p by (rule set_type_computes [OF assms(1,2) base_types(1) s _ g m e]) simp
next
  case False
  then have "v' = v" "st' = st" using assms(3) ity_of_preds(17) [OF typedD(2) [OF assms(2)]] by (simp_all add: promote_def gen_size_def)
  moreover have "code = []" using givesD(4) [OF g] \<open>st' = st\<close> by simp
  ultimately show ?thesis using e False by (simp add: promoted_def in_range_wrap)
qed

lemma unop_cases:
  assumes "gen_ok S N st" "typed st v a" "unop_il op v st = Some (v', st')"
  obtains u st1 c1 where "promote v st = Some (u, st1)" "gives S N st c1 st1" "typed st1 u (promoted a)" "g_literal st1 u = None \<longleftrightarrow> g_literal st v = None"
    "op = UPlus \<and> v' = u \<and> st' = st1 \<or> op \<noteq> UPlus \<and> v' = next_val st1 \<and>
      (case g_literal st1 u of Some (IntLit i) \<Rightarrow> let k = wrap (promoted a) (unary_const op i (ctype_of st1 u)) in
           st' = with_literal (next_val st1) k (LInt k) (with_value (ctype_of st1 u) st1)
       | _ \<Rightarrow> st' = add_cmd (NegNot (unop_cmd op) (next_val st1) u) (with_value (ctype_of st1 u) st1))"
proof -
  have i: "is_integral (ctype_of st v)" "is_arith (ctype_of st v)" using ity_of_preds(1,2) typedD(2) [OF assms(2)] by blast+
  obtain u st1 where p: "promote v st = Some (u, st1)"
    using assms(3) by (cases "promote v st") (auto simp: unop_il_def split: if_splits)
  obtain c1 where c1: "gives S N st c1 st1" "typed st1 u (promoted a)" "g_literal st1 u = None \<longleftrightarrow> g_literal st v = None"
    using promote_gives [OF assms(1,2) p] by auto
  have f: "\<not> is_floating (ctype_of st1 u)" using ity_of_preds(4) typedD(2) [OF c1(2)] by blast
  have w: "shift_into_range k (ctype_of st1 u) = wrap (promoted a) k" for k
    using shift_into_range_wrap [OF typedD(2) [OF c1(2)]] promoted_ok [OF typedD(3) [OF assms(2)]] by blast
  have r: "unop_il op v st = (if op = UPlus then Some (u, st1) else let t = ctype_of st1 u; (out, st) = new_ilvalue t st1 in
          case g_literal st u of
            Some (IntLit i) \<Rightarrow> if is_floating t then None else Some (out, register_literal out (shift_into_range (unary_const op i t) t) st)
          | Some (FloatLit x) \<Rightarrow> if is_floating t then Some (out, register_float out (- x) st) else None
          | Some StrLit \<Rightarrow> None
          | None \<Rightarrow> Some (out, add_cmd (NegNot (unop_cmd op) out u) st))"
    using i p by (simp add: unop_il_def)
  show ?thesis
  proof (rule that [OF p c1])
    show "op = UPlus \<and> v' = u \<and> st' = st1 \<or> op \<noteq> UPlus \<and> v' = next_val st1 \<and>
      (case g_literal st1 u of Some (IntLit i) \<Rightarrow> let k = wrap (promoted a) (unary_const op i (ctype_of st1 u)) in
           st' = with_literal (next_val st1) k (LInt k) (with_value (ctype_of st1 u) st1)
       | _ \<Rightarrow> st' = add_cmd (NegNot (unop_cmd op) (next_val st1) u) (with_value (ctype_of st1 u) st1))"
    proof (cases "g_literal st1 u")
      case None
      then show ?thesis using assms(3) unfolding r by (auto simp: primitive_eqs Let_def split: if_splits)
    next
      case (Some l)
      then obtain i where "l = IntLit i" using typed_literal [OF c1(2)] by blast
      then show ?thesis using assms(3) Some f unfolding r by (auto simp: primitive_eqs Let_def w split: if_splits)
    qed
  qed
qed

lemma unop_gives:
  assumes "gen_ok S N st" "typed st v a" "unop_il op v st = Some (v', st')"
  shows "\<exists>code. gives S N st code st' \<and> typed st' v' (promoted a) \<and> (g_literal st' v' \<noteq> None \<longrightarrow> g_literal st v \<noteq> None)"
proof -
  obtain u st1 c1 where p: "promote v st = Some (u, st1)" and c1: "gives S N st c1 st1" "typed st1 u (promoted a)"
      "g_literal st1 u = None \<longleftrightarrow> g_literal st v = None"
    and r: "op = UPlus \<and> v' = u \<and> st' = st1 \<or> op \<noteq> UPlus \<and> v' = next_val st1 \<and>
      (case g_literal st1 u of Some (IntLit i) \<Rightarrow> let k = wrap (promoted a) (unary_const op i (ctype_of st1 u)) in
           st' = with_literal (next_val st1) k (LInt k) (with_value (ctype_of st1 u) st1)
       | _ \<Rightarrow> st' = add_cmd (NegNot (unop_cmd op) (next_val st1) u) (with_value (ctype_of st1 u) st1))"
    by (rule unop_cases [OF assms])
  note ok = gives_ok [OF c1(1)] and ty = typedD(2) [OF c1(2)]
  show ?thesis
  proof (cases "op = UPlus")
    case True
    then show ?thesis using r c1 by auto
  next
    case False
    show ?thesis
    proof (cases "g_literal st1 u")
      case None
      then have s: "v' = next_val st1" "st' = add_cmd (NegNot (unop_cmd op) (next_val st1) u) (with_value (ctype_of st1 u) st1)" using False r by auto
      have "gives S N st1 [NegNot (unop_cmd op) (next_val st1) u] st'"
        unfolding s by (rule gives_emit [OF ok]) (simp_all add: il_label_def il_outputs_def)
      then show ?thesis using gives_trans [OF c1(1)] s typed_new [OF ty] gen_ok_fresh [OF ok, of "next_val st1"] by auto
    next
      case (Some l)
      then obtain i where l: "l = IntLit i" using typed_literal [OF c1(2)] by blast
      define k where "k = wrap (promoted a) (unary_const op i (ctype_of st1 u))"
      have s: "v' = next_val st1" "st' = with_literal (next_val st1) k (LInt k) (with_value (ctype_of st1 u) st1)"
        using False r Some l by (auto simp: k_def Let_def)
      have "typed st' v' (promoted a)" unfolding s by (rule typed_fresh_literal [OF ty]) (simp_all add: k_def wrap_in_range)
      moreover have "gives S N st1 [] st'" unfolding s by (rule gives_fresh_literal [OF gives_refl [OF ok]])
      ultimately show ?thesis using gives_trans [OF c1(1)] Some c1(3) by fastforce
    qed
  qed
qed

lemma unop_computes:
  assumes "gen_ok S N st" "typed st v a" "unop_il op v st = Some (v', st')"
    and g: "gives S N st code st'" and m: "models ty E st'" and e: "E v = enc a i" "in_range a i"
  shows "\<exists>E'. computes ty A X code E E' \<and> E' v' = enc (promoted a) (c_unop op a i)"
proof -
  let ?p = "promoted a"
  obtain u st1 c1 where p: "promote v st = Some (u, st1)" and c1: "gives S N st c1 st1" "typed st1 u ?p"
      "g_literal st1 u = None \<longleftrightarrow> g_literal st v = None"
    and r: "op = UPlus \<and> v' = u \<and> st' = st1 \<or> op \<noteq> UPlus \<and> v' = next_val st1 \<and>
      (case g_literal st1 u of Some (IntLit i) \<Rightarrow> let k = wrap (promoted a) (unary_const op i (ctype_of st1 u)) in
           st' = with_literal (next_val st1) k (LInt k) (with_value (ctype_of st1 u) st1)
       | _ \<Rightarrow> st' = add_cmd (NegNot (unop_cmd op) (next_val st1) u) (with_value (ctype_of st1 u) st1))"
    by (rule unop_cases [OF assms(1-3)])
  note ok = gives_ok [OF c1(1)] and ty = typedD(2) [OF c1(2)] and pk = typedD(3) [OF c1(2)]
  have nb: "\<not> is_boolean ?p" using promoted_ok [OF typedD(3) [OF assms(2)]] by blast
  show ?thesis
  proof (cases "op = UPlus")
    case True
    then have "v' = u" "st' = st1" using r by auto
    then show ?thesis using promote_computes [of S N st v a v' st' code ty E i A X] assms(1,2) p g m e True by (simp add: c_unop_def Let_def)
  next
    case False
    have "\<exists>c2. gives S N st1 c2 st'"
    proof (cases "g_literal st1 u")
      case None
      then have "st' = add_cmd (NegNot (unop_cmd op) (next_val st1) u) (with_value (ctype_of st1 u) st1)" using False r by auto
      then show ?thesis using gives_emit [OF ok, of "NegNot (unop_cmd op) (next_val st1) u"] by (auto simp: il_label_def il_outputs_def)
    next
      case (Some l)
      then obtain i where "l = IntLit i" using typed_literal [OF c1(2)] by blast
      then show ?thesis using False r Some gives_fresh_literal [OF gives_refl [OF ok]] by (auto simp: Let_def)
    qed
    then obtain c2 where c2: "gives S N st1 c2 st'" by blast
    obtain E1 where E1: "computes ty A X c1 E E1" "E1 u = enc ?p (wrap ?p i)"
      using promote_computes [OF assms(1,2) p c1(1) models_back [OF m c2] e] by blast
    note m1 = models_between [OF m c1(1) c2 E1(1)]
    have "\<exists>E2. computes ty A X c2 E1 E2 \<and> E2 v' = enc ?p (c_unop op a i)"
    proof (cases "g_literal st1 u")
      case None
      then have s: "v' = next_val st1" "st' = add_cmd (NegNot (unop_cmd op) (next_val st1) u) (with_value (ctype_of st1 u) st1)" using False r by auto
      have c: "c2 = [NegNot (unop_cmd op) v' u]" using givesD(4) [OF c2] by (simp add: s)
      have "typed st' v' ?p" using s typed_new [OF ty] gen_ok_fresh [OF ok, of "next_val st1"] by simp
      then have o: "isize ty v' = bytes_of ?p" using models_ty [OF m1] by blast
      have "take_bit (8 * bytes_of ?p) (neg_val (unop_cmd op) (E1 u)) = enc ?p (c_unop op a i)"
        using False neg_enc [of ?p "wrap ?p i"] enc_wrap [OF pk nb] by (cases op) (simp_all add: E1(2) unop_cmd_def c_unop_def Let_def)
      then show ?thesis unfolding c using computes_neg [of ty A X "unop_cmd op" v' u E1] o by (metis fun_upd_same)
    next
      case (Some l)
      then obtain j where l: "l = IntLit j" using typed_literal [OF c1(2)] by blast
      define k where "k = wrap ?p (unary_const op j (ctype_of st1 u))"
      have s: "v' = next_val st1" "st' = with_literal (next_val st1) k (LInt k) (with_value (ctype_of st1 u) st1)"
        using False r Some l by (auto simp: k_def Let_def)
      have "c2 = []" using givesD(4) [OF c2] by (simp add: s)
      moreover have "j = wrap ?p i" using lit_value [OF models_back [OF m1 c2] c1(2) Some E1(2) wrap_in_range] l by simp
      moreover have "k = c_unop op a i" using False shift_into_range_wrap [OF ty nb] \<open>j = wrap ?p i\<close>
        by (cases op) (simp_all add: k_def unary_const_def c_unop_def Let_def not_int_def)
      moreover have "E1 v' = enc ?p k" unfolding s(1) by (rule models_literal [OF m1 [unfolded s(2)] ty]) simp
      ultimately show ?thesis by simp
    qed
    then obtain E2 where E2: "computes ty A X c2 E1 E2" "E2 v' = enc ?p (c_unop op a i)" by blast
    have "code = c1 @ c2" by (rule gives_code [OF g gives_trans [OF c1(1) c2]])
    then show ?thesis using computes_append [OF E1(1) E2(1)] E2(2) by blast
  qed
qed

end
