(* ===== verification/GenFlow.thy ===== *)
theory GenFlow
  imports GenUn
begin

unbundle bit_operations_syntax

text \<open>The operators with control flow: \<open>!\<close>, \<open>&&\<close>, \<open>||\<close> and \<open>?:\<close>.\<close>

section \<open>Steps\<close>

lemma reaches_set:
  assumes "models ty E st" "typed st out b" "typed st v a" "E v = enc a i" "in_range a i"
  shows "reaches ty A X code (SetCmd out v # cs, E) (cs, E(out := enc b (wrap b i)))"
  using set_val_enc [OF assms] by (intro reaches_cmd) (simp add: il_next_def il_value_def)

lemma reaches_label: "reaches ty A X code (Label l # cs, E) (cs, E)"
  by (intro reaches_cmd) (simp add: il_next_def)

lemma reaches_goto: "code = a @ Label l # b \<Longrightarrow> reaches ty A X code (Jump l # cs, E) (b, E)"
  by (rule reaches_jump [of ty A X "Jump l"]) (simp add: il_next_def)

lemma bool_jump_next: "il_next ty A X (bool_jump is_and v l) E w = Some (E, w, if (E v = 0) = is_and then Some l else None)"
  by (simp add: il_next_def bool_jump_def)

lemma reaches_fires: "(E v = 0) = is_and \<Longrightarrow> code = a @ Label l # b \<Longrightarrow> reaches ty A X code (bool_jump is_and v l # cs, E) (b, E)"
  by (rule reaches_jump [of ty A X "bool_jump is_and v l"]) (simp add: bool_jump_next)

lemma reaches_passes: "(E v = 0) \<noteq> is_and \<Longrightarrow> reaches ty A X code (bool_jump is_and v l # cs, E) (cs, E)"
  by (rule reaches_cmd) (simp add: bool_jump_next)

lemma jump_zero_bool: "JumpZero v l = bool_jump True v l"
  by (simp add: bool_jump_def)

lemma bool_jump_sel [simp]: "il_outputs (bool_jump is_and v l) = []" "il_label (bool_jump is_and v l) = None"
  by (simp_all add: bool_jump_def il_outputs_def il_label_def)

lemma il_sel [simp]:
  "il_outputs (SetCmd out v) = [out]" "il_label (SetCmd out v) = None" "il_outputs (Jump l) = []" "il_label (Jump l) = None"
  "il_outputs (Label l) = []" "il_label (Label l) = Some l"
  by (simp_all add: il_outputs_def il_label_def)

lemma enc_bool: "enc int_ity (of_bool b) = of_bool b"
  by (cases b) (simp_all add: enc_def)

lemma int_bool_range: "in_range int_ity (of_bool b)" "wrap int_ity (of_bool b) = of_bool b"
  using in_range_small [OF int_ity_ok(1)] in_range_wrap by blast+

text \<open>The value of a fresh literal, of a state later in the run.\<close>

lemma typed_later: "typed st v a \<Longrightarrow> gives S N st code st' \<Longrightarrow> typed st' v a \<and> g_literal st' v = g_literal st v"
  using typed_gives givesD(8) typedD(1) by metis

section \<open>\<open>!\<close>\<close>

lemma bool_not_cases:
  assumes "typed st v a" "bool_not_il v st = Some (v', st')"
  obtains (lit) "g_literal st v \<noteq> None" "(v', st') = bool_literal (lit_is_zero (g_literal st v)) st"
    | (cmd) "g_literal st v = None" "v' = next_val st"
      "st' = add_cmd (Label (nth_label (Suc (g_labels st)))) (add_cmd (SetCmd (next_val st) (Suc (next_val st)))
        (add_cmd (JumpZero v (nth_label (Suc (g_labels st)))) (add_cmd (SetCmd (next_val st) (Suc (Suc (next_val st))))
          (with_label (with_literal (Suc (Suc (next_val st))) 1 (LStr (int_str 1)) (with_value integer_t
             (with_literal (Suc (next_val st)) 0 (LStr (int_str 0)) (with_value integer_t (with_value integer_t st)))))))))"
  using assms ity_of_preds(3) [OF typedD(2) [OF assms(1)]]
  by (auto simp: bool_not_il_def primitive_eqs bool_literal_eq split: if_splits)

text \<open>The values these operators make: the result, then two literals.\<close>

definition out_and_literals :: "int \<Rightarrow> literal \<Rightarrow> int \<Rightarrow> literal \<Rightarrow> gen_state \<Rightarrow> gen_state" where
  "out_and_literals i li j lj st = with_literal (Suc (Suc (next_val st))) j lj (with_value integer_t
     (with_literal (Suc (next_val st)) i li (with_value integer_t (with_value integer_t st))))"

lemma out_and_literals_gives:
  assumes "gen_ok S N st" "in_range int_ity i" "in_range int_ity j" "lit_int li = Some i" "lit_int lj = Some j" "st1 = out_and_literals i li j lj st"
  shows "gives S N st [] st1" "typed st1 (next_val st) int_ity" "g_literals st1 (next_val st) = None" "g_literal st1 (next_val st) = None"
    "typed st1 (Suc (next_val st)) int_ity" "typed st1 (Suc (Suc (next_val st))) int_ity"
    "g_literal st1 (Suc (next_val st)) = Some (IntLit i)" "g_literal st1 (Suc (Suc (next_val st))) = Some (IntLit j)"
    "g_labels st1 = g_labels st" "next_val st1 = Suc (Suc (Suc (next_val st)))"
proof -
  let ?s0 = "with_value integer_t st"
  let ?s1 = "with_literal (next_val ?s0) i li (with_value integer_t ?s0)"
  have "gives S N st [] ?s1" by (intro gives_fresh_literal gives_value gives_refl assms)
  then have "gives S N st [] (with_literal (next_val ?s1) j lj (with_value integer_t ?s1))" by (rule gives_fresh_literal)
  then show "gives S N st [] st1" by (simp add: assms(6) out_and_literals_def)
  show "typed st1 (next_val st) int_ity" "g_literals st1 (next_val st) = None" "g_literal st1 (next_val st) = None"
    "typed st1 (Suc (next_val st)) int_ity" "typed st1 (Suc (Suc (next_val st))) int_ity"
    "g_literal st1 (Suc (next_val st)) = Some (IntLit i)" "g_literal st1 (Suc (Suc (next_val st))) = Some (IntLit j)"
    "g_labels st1 = g_labels st" "next_val st1 = Suc (Suc (Suc (next_val st)))"
    using gen_ok_fresh [OF assms(1), of "next_val st"] assms(2-6) by (simp_all add: out_and_literals_def typed_def lit_of_def)
qed

definition not_values :: "gen_state \<Rightarrow> gen_state" where
  "not_values st = with_label (out_and_literals 0 (LStr (int_str 0)) 1 (LStr (int_str 1)) st)"

lemma typed_label [simp]: "typed (with_label st) v a = typed st v a"
  by (simp add: typed_def)

lemma not_values_gives:
  assumes "gen_ok S N st"
  shows "gives S N st [] (not_values st)" "typed (not_values st) (next_val st) int_ity" "g_literals (not_values st) (next_val st) = None"
    "typed (not_values st) (Suc (next_val st)) int_ity" "typed (not_values st) (Suc (Suc (next_val st))) int_ity"
    "g_literal (not_values st) (Suc (next_val st)) = Some (IntLit 0)" "g_literal (not_values st) (Suc (Suc (next_val st))) = Some (IntLit 1)"
    "g_literal (not_values st) (next_val st) = None"
    "g_labels (not_values st) = Suc (g_labels st)" "next_val (not_values st) = Suc (Suc (Suc (next_val st)))"
proof -
  note o = out_and_literals_gives [OF assms, of 0 1 "LStr (int_str 0)" "LStr (int_str 1)", OF _ _ _ _ refl]
  have r: "in_range int_ity 0" "in_range int_ity 1" using int_bool_range(1) [of False] int_bool_range(1) [of True] by simp_all
  show "gives S N st [] (not_values st)" unfolding not_values_def using r by (intro gives_label o) simp_all
  show "typed (not_values st) (next_val st) int_ity" "g_literals (not_values st) (next_val st) = None"
    "typed (not_values st) (Suc (next_val st)) int_ity" "typed (not_values st) (Suc (Suc (next_val st))) int_ity"
    "g_literal (not_values st) (Suc (next_val st)) = Some (IntLit 0)" "g_literal (not_values st) (Suc (Suc (next_val st))) = Some (IntLit 1)"
    "g_literal (not_values st) (next_val st) = None"
    "g_labels (not_values st) = Suc (g_labels st)" "next_val (not_values st) = Suc (Suc (Suc (next_val st)))"
    using r o by (simp_all add: not_values_def)
qed

lemma bool_literal_gives:
  assumes "gen_ok S N st" "(v', st') = bool_literal b st"
  shows "gives S N st [] st' \<and> typed st' v' int_ity \<and> (models ty E st' \<longrightarrow> E v' = enc int_ity (of_bool b))"
  using assms(2) gives_fresh_literal [OF gives_refl [OF assms(1)]] typed_fresh_literal [OF base_types(1) int_bool_range(1) [of b], of "LStr (int_str (of_bool b))" st]
    models_literal [OF _ base_types(1), of ty E st "of_bool b" "LStr (int_str (of_bool b))"]
  by (auto simp: bool_literal_eq)

lemma bool_not_gives:
  assumes "gen_ok S N st" "typed st v a" "bool_not_il v st = Some (v', st')"
  shows "\<exists>code. gives S N st code st' \<and> typed st' v' int_ity \<and> (g_literal st' v' \<noteq> None \<longrightarrow> g_literal st v \<noteq> None)"
  using assms(2,3)
proof (cases rule: bool_not_cases)
  case lit
  then show ?thesis using bool_literal_gives [OF assms(1) lit(2)] by blast
next
  case cmd
  let ?l = "nth_label (Suc (g_labels st))"
  note nv = not_values_gives [OF assms(1)]
  have "gives S N st ([] @ [SetCmd (next_val st) (Suc (Suc (next_val st)))]) (add_cmd (SetCmd (next_val st) (Suc (Suc (next_val st)))) (not_values st))"
    by (rule gives_cmd [OF nv(1)]) (auto simp: nv)
  then have "gives S N st (([] @ [SetCmd (next_val st) (Suc (Suc (next_val st)))]) @ [JumpZero v ?l])
      (add_cmd (JumpZero v ?l) (add_cmd (SetCmd (next_val st) (Suc (Suc (next_val st)))) (not_values st)))"
    by (rule gives_cmd) (auto simp: jump_zero_bool)
  then have "gives S N st ((([] @ [SetCmd (next_val st) (Suc (Suc (next_val st)))]) @ [JumpZero v ?l]) @ [SetCmd (next_val st) (Suc (next_val st))])
      (add_cmd (SetCmd (next_val st) (Suc (next_val st))) (add_cmd (JumpZero v ?l) (add_cmd (SetCmd (next_val st) (Suc (Suc (next_val st)))) (not_values st))))"
    by (rule gives_cmd) (auto simp: nv)
  then have "gives S N st (((([] @ [SetCmd (next_val st) (Suc (Suc (next_val st)))]) @ [JumpZero v ?l]) @ [SetCmd (next_val st) (Suc (next_val st))]) @ [Label ?l]) st'"
    unfolding cmd(3) not_values_def [unfolded out_and_literals_def, symmetric] by (rule gives_label_cmd) (auto simp: nv jump_zero_bool)
  moreover have "typed st' v' int_ity" "g_literal st' v' = None" using nv(2,8) by (simp_all add: cmd not_values_def out_and_literals_def typed_def)
  ultimately show ?thesis by blast
qed

lemma bool_not_computes:
  assumes "gen_ok S N st" "typed st v a" "bool_not_il v st = Some (v', st')"
    and g: "gives S N st code st'" and m: "models ty E st'" and e: "E v = enc a i" "in_range a i"
  shows "\<exists>E'. computes ty A X code E E' \<and> E' v' = enc int_ity (of_bool (i = 0))"
  using assms(2,3)
proof (cases rule: bool_not_cases)
  case lit
  obtain l where l: "g_literal st v = Some l" using lit(1) by blast
  have "l = IntLit i" by (rule lit_value [OF models_back [OF m g] assms(2) l e])
  then have "lit_is_zero (g_literal st v) = (i = 0)" using l by (simp add: lit_is_zero_def)
  moreover have "code = []" using givesD(4) [OF g] lit(2) by (simp add: bool_literal_eq)
  ultimately show ?thesis using bool_literal_gives [OF assms(1) lit(2), of ty E] m by simp
next
  case cmd
  let ?l = "nth_label (Suc (g_labels st))" and ?n = "next_val st"
  note nv = not_values_gives [OF assms(1)]
  have code: "code = [SetCmd ?n (Suc (Suc ?n)), JumpZero v ?l, SetCmd ?n (Suc ?n), Label ?l]" using givesD(4) [OF g] by (simp add: cmd(3))
  have mn: "models ty E (not_values st)" using m by (simp add: cmd(3) not_values_def out_and_literals_def models_def)
  have z: "E (Suc ?n) = enc int_ity 0" "E (Suc (Suc ?n)) = enc int_ity 1" using lit_enc [OF mn nv(4) nv(6)] lit_enc [OF mn nv(5) nv(7)] by auto
  let ?E1 = "E(?n := enc int_ity (wrap int_ity 1))"
  have m1: "models ty ?E1 (not_values st)" using mn nv(3) by (simp add: models_def lit_of_def)
  have vn: "v \<noteq> ?n" using typedD(1) [OF assms(2)] by simp
  have "reaches ty A X code (code, E) (tl code, ?E1)"
    unfolding code list.sel by (rule reaches_set [OF mn nv(2,5) z(2)]) (use int_bool_range(1) [of True] in simp)
  also have "reaches ty A X code (tl code, ?E1) ([], if i = 0 then ?E1 else ?E1(?n := enc int_ity (wrap int_ity 0)))"
  proof (cases "i = 0")
    case True
    then have "(?E1 v = 0) = True" using e enc_zero [OF typedD(3) [OF assms(2)]] vn by simp
    then show ?thesis using True reaches_fires [of ?E1 v True code "[SetCmd ?n (Suc (Suc ?n)), JumpZero v ?l, SetCmd ?n (Suc ?n)]" ?l "[]"]
      by (simp add: code jump_zero_bool)
  next
    case False
    then have "(?E1 v = 0) \<noteq> True" using e enc_zero [OF typedD(3) [OF assms(2)]] vn by simp
    then have "reaches ty A X code (tl code, ?E1) ([SetCmd ?n (Suc ?n), Label ?l], ?E1)"
      using reaches_passes [of ?E1 v True] by (simp add: code jump_zero_bool)
    also have "reaches ty A X code ([SetCmd ?n (Suc ?n), Label ?l], ?E1) ([Label ?l], ?E1(?n := enc int_ity (wrap int_ity 0)))"
      by (rule reaches_set [OF m1 nv(2,4)]) (use z(1) int_bool_range(1) [of False] in simp_all)
    also have "reaches ty A X code ([Label ?l], ?E1(?n := enc int_ity (wrap int_ity 0))) ([], ?E1(?n := enc int_ity (wrap int_ity 0)))" by (rule reaches_label)
    finally show ?thesis using False by simp
  qed
  finally have "computes ty A X code E (if i = 0 then ?E1 else ?E1(?n := enc int_ity (wrap int_ity 0)))"
    by (auto simp: computes_def agree_def code jump_zero_bool)
  then show ?thesis using int_bool_range(2) [of True] int_bool_range(2) [of False] by (auto simp: cmd(2))
qed

end
