(* ===== verification/GenBranch.thy ===== *)
theory GenBranch
  imports GenFlow
begin

unbundle bit_operations_syntax

text \<open>The code of \<open>&&\<close>, \<open>||\<close> and \<open>?:\<close> around the code of their operands.\<close>

section \<open>\<open>&&\<close> and \<open>||\<close>\<close>

definition bool_values :: "bool \<Rightarrow> gen_state \<Rightarrow> gen_state" where
  "bool_values is_and st = with_label (with_label
     (out_and_literals (conj_value is_and) (LInt (conj_value is_and)) (conj_value (\<not> is_and)) (LInt (conj_value (\<not> is_and))) st))"

abbreviation set_out_label :: "gen_state \<Rightarrow> string" where
  "set_out_label st \<equiv> nth_label (Suc (g_labels st))"

abbreviation end_label :: "gen_state \<Rightarrow> string" where
  "end_label st \<equiv> nth_label (Suc (Suc (g_labels st)))"

definition bool_pre :: "bool \<Rightarrow> nat \<Rightarrow> gen_state \<Rightarrow> il list" where
  "bool_pre is_and v st = [SetCmd (next_val st) (Suc (next_val st)), bool_jump is_and v (set_out_label st)]"

definition bool_post :: "bool \<Rightarrow> nat \<Rightarrow> gen_state \<Rightarrow> il list" where
  "bool_post is_and w st = [bool_jump is_and w (set_out_label st), Jump (end_label st), Label (set_out_label st),
     SetCmd (next_val st) (Suc (Suc (next_val st))), Label (end_label st)]"

lemma bool_before_eq:
  "bool_before is_and v st = ((next_val st, Suc (Suc (next_val st)), set_out_label st, end_label st),
     add_cmd (bool_jump is_and v (set_out_label st)) (add_cmd (SetCmd (next_val st) (Suc (next_val st))) (bool_values is_and st)))"
  by (simp add: bool_before_def bool_values_def out_and_literals_def primitive_eqs)

lemma conj_value_bool: "conj_value b = of_bool b"
  by (simp add: conj_value_def)

lemma bool_values_gives:
  assumes "gen_ok S N st" "st1 = bool_values is_and st"
  shows "gives S N st [] st1" "typed st1 (next_val st) int_ity" "g_literals st1 (next_val st) = None" "g_literal st1 (next_val st) = None"
    "typed st1 (Suc (next_val st)) int_ity" "typed st1 (Suc (Suc (next_val st))) int_ity"
    "g_literal st1 (Suc (next_val st)) = Some (IntLit (of_bool is_and))" "g_literal st1 (Suc (Suc (next_val st))) = Some (IntLit (of_bool (\<not> is_and)))"
    "g_labels st1 = Suc (Suc (g_labels st))" "next_val st1 = Suc (Suc (Suc (next_val st)))"
proof -
  note o = out_and_literals_gives [OF assms(1) int_bool_range(1) [of is_and] int_bool_range(1) [of "\<not> is_and"], of "LInt (conj_value is_and)"
    "LInt (conj_value (\<not> is_and))", OF _ _ refl]
  show "gives S N st [] st1" unfolding assms(2) bool_values_def conj_value_bool
    by (intro gives_label o(1) [unfolded conj_value_bool]) simp_all
  show "typed st1 (next_val st) int_ity" "g_literals st1 (next_val st) = None" "g_literal st1 (next_val st) = None"
    "typed st1 (Suc (next_val st)) int_ity" "typed st1 (Suc (Suc (next_val st))) int_ity"
    "g_literal st1 (Suc (next_val st)) = Some (IntLit (of_bool is_and))" "g_literal st1 (Suc (Suc (next_val st))) = Some (IntLit (of_bool (\<not> is_and)))"
    "g_labels st1 = Suc (Suc (g_labels st))" "next_val st1 = Suc (Suc (Suc (next_val st)))"
    using o by (simp_all add: assms(2) bool_values_def conj_value_bool)
qed

lemma gives_append_cmd:
  "gives S N st code st1 \<Longrightarrow> il_label c = None \<Longrightarrow> (\<And>v. v \<in> set (il_outputs c) \<Longrightarrow> next_val st \<le> v \<and> v < next_val st1 \<and> g_literals st1 v = None) \<Longrightarrow>
    code' = code @ [c] \<Longrightarrow> gives S N st code' (add_cmd c st1)"
  using gives_cmd by blast

lemma gives_append_label:
  "gives S N st code st1 \<Longrightarrow> l \<in> nth_label ` {g_labels st<..g_labels st1} \<Longrightarrow> l \<notin> set (label_names code) \<Longrightarrow>
    code' = code @ [Label l] \<Longrightarrow> gives S N st code' (add_cmd (Label l) st1)"
  using gives_label_cmd by blast

lemma bool_before_gives:
  assumes "gen_ok S N st" "bool_before is_and v st = (loc, st1)"
  shows "gives S N st (bool_pre is_and v st) st1" "typed st1 (next_val st) int_ity" "g_literals st1 (next_val st) = None" "g_literal st1 (next_val st) = None"
    "typed st1 (Suc (next_val st)) int_ity" "typed st1 (Suc (Suc (next_val st))) int_ity"
    "g_literal st1 (Suc (next_val st)) = Some (IntLit (of_bool is_and))" "g_literal st1 (Suc (Suc (next_val st))) = Some (IntLit (of_bool (\<not> is_and)))"
    "g_labels st1 = Suc (Suc (g_labels st))" "next_val st1 = Suc (Suc (Suc (next_val st)))"
proof -
  note b = bool_values_gives [OF assms(1) refl, of is_and]
  have "gives S N st ([] @ [SetCmd (next_val st) (Suc (next_val st))]) (add_cmd (SetCmd (next_val st) (Suc (next_val st))) (bool_values is_and st))"
    by (rule gives_cmd [OF b(1)]) (auto simp: b)
  then show "gives S N st (bool_pre is_and v st) st1"
    using assms(2) unfolding bool_before_eq by (auto simp: bool_pre_def intro: gives_append_cmd)
  show "typed st1 (next_val st) int_ity" "g_literals st1 (next_val st) = None" "g_literal st1 (next_val st) = None"
    "typed st1 (Suc (next_val st)) int_ity" "typed st1 (Suc (Suc (next_val st))) int_ity"
    "g_literal st1 (Suc (next_val st)) = Some (IntLit (of_bool is_and))" "g_literal st1 (Suc (Suc (next_val st))) = Some (IntLit (of_bool (\<not> is_and)))"
    "g_labels st1 = Suc (Suc (g_labels st))" "next_val st1 = Suc (Suc (Suc (next_val st)))"
    using b assms(2) by (auto simp: bool_before_eq typed_def)
qed

lemma label_not_later: "gives S N st code st' \<Longrightarrow> k \<le> g_labels st \<Longrightarrow> nth_label k \<notin> set (label_names code)"
  using givesD(5) [of S N st code st'] by auto

lemma bool_gives:
  assumes ok: "gen_ok S N st" and b: "bool_before is_and v st = (loc, st1)" and c: "gives S N st1 cb st2" and w: "typed st2 w t"
    and a: "bool_after is_and loc w st2 = Some (v', st')"
  shows "gives S N st (bool_pre is_and v st @ cb @ bool_post is_and w st) st'" "typed st' v' int_ity" "g_literal st' v' = None" "v' = next_val st"
proof -
  note p = bool_before_gives [OF ok b]
  have loc: "loc = (next_val st, Suc (Suc (next_val st)), set_out_label st, end_label st)" using b by (simp add: bool_before_eq)
  have s: "v' = next_val st" "st' = add_cmd (Label (end_label st)) (add_cmd (SetCmd (next_val st) (Suc (Suc (next_val st)))) (add_cmd (Label (set_out_label st))
       (add_cmd (Jump (end_label st)) (add_cmd (bool_jump is_and w (set_out_label st)) st2))))"
    using a ity_of_preds(3) [OF typedD(2) [OF w]] by (auto simp: bool_after_def loc)
  have out: "next_val st < next_val st2" "g_literals st2 (next_val st) = None" "g_literal st2 (next_val st) = None"
      "typed st2 (next_val st) int_ity" "Suc (Suc (g_labels st)) \<le> g_labels st2"
    using givesD(2,3) [OF c] givesD(8,9) [OF c, of "next_val st"] p typed_gives [OF p(2) c] by auto
  have nl: "set_out_label st \<notin> set (label_names cb)" "end_label st \<notin> set (label_names cb)"
    using label_not_later [OF c] p(9) by auto
  show "gives S N st (bool_pre is_and v st @ cb @ bool_post is_and w st) st'" unfolding s(2)
    apply (rule gives_append_label [where code = "bool_pre is_and v st @ cb @ butlast (bool_post is_and w st)"])
    apply (rule gives_append_cmd [where code = "bool_pre is_and v st @ cb @ take 3 (bool_post is_and w st)"])
    apply (rule gives_append_label [where code = "bool_pre is_and v st @ cb @ take 2 (bool_post is_and w st)"])
    apply (rule gives_append_cmd [where code = "bool_pre is_and v st @ cb @ take 1 (bool_post is_and w st)"])
    apply (rule gives_append_cmd [where code = "bool_pre is_and v st @ cb"])
    using gives_trans [OF p(1) c] out nl by (auto simp: bool_post_def bool_pre_def image_iff)
  show "typed st' v' int_ity" "g_literal st' v' = None" "v' = next_val st" using out(3,4) by (simp_all add: s typed_def)
qed

lemma bool_computes:
  assumes ok: "gen_ok S N st" and v: "typed st v ta" and b: "bool_before is_and v st = (loc, st1)" and c: "gives S N st1 cb st2" and w: "typed st2 w t"
    and a: "bool_after is_and loc w st2 = Some (v', st')" and m: "models ty E st'" and e: "E v = enc ta x" "in_range ta x"
    and r: "\<And>E1. (x \<noteq> 0) = is_and \<Longrightarrow> agree {next_val st} E E1 \<Longrightarrow> models ty E1 st2 \<Longrightarrow>
      \<exists>E2. computes ty A X cb E1 E2 \<and> E2 w = enc t y \<and> in_range t y"
  shows "\<exists>E'. computes ty A X (bool_pre is_and v st @ cb @ bool_post is_and w st) E E' \<and>
    E' v' = enc int_ity (if (x \<noteq> 0) \<noteq> is_and then of_bool (\<not> is_and) else of_bool (y \<noteq> 0))"
proof -
  note p = bool_before_gives [OF ok b] and q = bool_gives [OF ok b c w a]
  let ?n = "next_val st" and ?code = "bool_pre is_and v st @ cb @ bool_post is_and w st"
  have m': "models ty F st2" if "models ty F st'" for F
  proof -
    have "bool_after is_and loc w st2 = Some (v', st')" by (rule a)
    then have "g_syms st' = g_syms st2" "g_literals st' = g_literals st2"
      using ity_of_preds(3) [OF typedD(2) [OF w]] by (cases loc; simp add: bool_after_def; metis add_cmd_sel(1,4))+
    then show ?thesis using that by (simp add: models_def)
  qed
  note t2 = typed_gives [OF p(2) c] typed_gives [OF p(5) c] typed_gives [OF p(6) c]
  have l2: "g_literal st2 (Suc ?n) = Some (IntLit (of_bool is_and))" "g_literal st2 (Suc (Suc ?n)) = Some (IntLit (of_bool (\<not> is_and)))" "g_literals st2 ?n = None"
    using typed_later [OF p(5) c] typed_later [OF p(6) c] p(3,7,8) givesD(9) [OF c typedD(1) [OF p(2)]] by simp_all
  have z: "F (Suc ?n) = enc int_ity (of_bool is_and)" "F (Suc (Suc ?n)) = enc int_ity (of_bool (\<not> is_and))" if "models ty F st2" for F
    using lit_enc [OF that t2(2) l2(1)] lit_enc [OF that t2(3) l2(2)] by auto
  let ?E1 = "E(?n := enc int_ity (of_bool is_and))"
  note m2 = m' [OF m]
  have m1: "models ty ?E1 st2" using m2 l2(3) by (simp add: models_def lit_of_def)
  have s1: "reaches ty A X ?code (?code, E) (tl ?code, ?E1)"
    using reaches_set [OF m2 t2(1,2) z(1) [OF m2] int_bool_range(1), of A X ?code] by (simp add: bool_pre_def int_bool_range(2))
  have ev: "(?E1 v = 0) = (x = 0)" using e enc_zero [OF typedD(3) [OF v]] typedD(1) [OF v] by simp
  have fin: "reaches ty A X ?code ([SetCmd ?n (Suc (Suc ?n)), Label (end_label st)], F) ([], F(?n := enc int_ity (of_bool (\<not> is_and))))"
    if "models ty F st2" for F
  proof -
    have "reaches ty A X ?code ([SetCmd ?n (Suc (Suc ?n)), Label (end_label st)], F) ([Label (end_label st)], F(?n := enc int_ity (wrap int_ity (of_bool (\<not> is_and)))))"
      by (rule reaches_set [OF that t2(1,3) z(2) [OF that] int_bool_range(1)])
    also have "reaches ty A X ?code ([Label (end_label st)], F(?n := enc int_ity (wrap int_ity (of_bool (\<not> is_and))))) ([], F(?n := enc int_ity (of_bool (\<not> is_and))))"
      unfolding int_bool_range(2) by (rule reaches_label)
    finally show ?thesis .
  qed
  have at: "?code = (bool_pre is_and v st @ cb @ take 2 (bool_post is_and w st)) @ Label (set_out_label st) # [SetCmd ?n (Suc (Suc ?n)), Label (end_label st)]"
    "?code = (bool_pre is_and v st @ cb @ butlast (bool_post is_and w st)) @ Label (end_label st) # []"
    by (simp_all add: bool_post_def)
  have tl: "tl ?code = bool_jump is_and v (set_out_label st) # cb @ bool_post is_and w st" by (simp add: bool_pre_def)
  have post: "bool_post is_and w st = bool_jump is_and w (set_out_label st) # tl (bool_post is_and w st)"
    "tl (bool_post is_and w st) = Jump (end_label st) # drop 2 (bool_post is_and w st)" by (simp_all add: bool_post_def)
  show ?thesis
  proof (cases "(x \<noteq> 0) \<noteq> is_and")
    case True
    then have "(?E1 v = 0) = is_and" using ev by auto
    then have "reaches ty A X ?code (tl ?code, ?E1) ([SetCmd ?n (Suc (Suc ?n)), Label (end_label st)], ?E1)"
      unfolding tl by (rule reaches_fires [OF _ at(1)])
    note all = reaches_trans [OF reaches_trans [OF s1 this] fin [OF m1]]
    then have "computes ty A X ?code E (?E1(?n := enc int_ity (of_bool (\<not> is_and))))"
      by (auto simp: computes_def agree_def bool_pre_def bool_post_def)
    then show ?thesis using True q(4) by (metis fun_upd_same)
  next
    case False
    have "(?E1 v = 0) \<noteq> is_and" using ev False by auto
    then have s2: "reaches ty A X ?code (tl ?code, ?E1) (cb @ bool_post is_and w st, ?E1)"
      unfolding tl by (rule reaches_passes)
    have ag: "agree {?n} E ?E1" by (simp add: agree_def)
    have xa: "(x \<noteq> 0) = is_and" using False by simp
    obtain E2 where E2: "computes ty A X cb ?E1 E2" "E2 w = enc t y" "in_range t y" using r [OF xa ag m1] by blast
    have s3: "reaches ty A X ?code (cb @ bool_post is_and w st, ?E1) (bool_post is_and w st, E2)"
      using reaches_inside [of ty A X cb "(cb, ?E1)" "([], E2)" "bool_pre is_and v st" "bool_post is_and w st"] E2(1) by (simp add: computes_def)
    have m3: "models ty E2 st2" by (rule models_between [OF m1 c gives_refl [OF gives_ok [OF c]] E2(1)])
    have ew: "(E2 w = 0) = (y = 0)" using E2(2,3) enc_zero [OF typedD(3) [OF w]] by simp
    have out2: "E2 ?n = enc int_ity (of_bool is_and)" using computes_kept [OF E2(1) c p(2)] by simp
    let ?E3 = "if (y = 0) = is_and then E2(?n := enc int_ity (of_bool (\<not> is_and))) else E2"
    have "reaches ty A X ?code (bool_post is_and w st, E2) ([], ?E3)"
    proof (cases "(y = 0) = is_and")
      case True
      then have "(E2 w = 0) = is_and" using ew by simp
      then have "reaches ty A X ?code (bool_post is_and w st, E2) ([SetCmd ?n (Suc (Suc ?n)), Label (end_label st)], E2)"
        by (subst post(1)) (rule reaches_fires [OF _ at(1)])
      then show ?thesis using reaches_trans [OF _ fin [OF m3]] True by simp
    next
      case False
      then have "(E2 w = 0) \<noteq> is_and" using ew by simp
      then have "reaches ty A X ?code (bool_post is_and w st, E2) (tl (bool_post is_and w st), E2)"
        by (subst post(1)) (rule reaches_passes)
      also have "reaches ty A X ?code (tl (bool_post is_and w st), E2) ([], E2)"
        unfolding post(2) by (rule reaches_goto [OF at(2)])
      finally show ?thesis using False by simp
    qed
    note all = reaches_trans [OF reaches_trans [OF reaches_trans [OF s1 s2] s3] this]
    have "agree (outs cb) ?E1 E2" using E2(1) by (simp add: computes_def)
    then have "computes ty A X ?code E ?E3" using all by (auto simp: computes_def agree_def bool_pre_def bool_post_def)
    moreover have "?E3 ?n = enc int_ity (of_bool (y \<noteq> 0))" using out2 xa by (cases is_and) auto
    ultimately show ?thesis using xa q(4) by auto
  qed
qed

end
