(* ===== verification/GenCond.thy ===== *)
theory GenCond
  imports GenBranch
begin

unbundle bit_operations_syntax

text \<open>The code of \<open>?:\<close> around its arms, casts, constants and names.\<close>

section \<open>\<open>?:\<close>\<close>

definition cond_pre :: "nat \<Rightarrow> gen_state \<Rightarrow> il list" where
  "cond_pre v st = [JumpZero v (nth_label (Suc (Suc (g_labels st))))]"

definition cond_mid :: "gen_state \<Rightarrow> il list" where
  "cond_mid st = [Jump (nth_label (Suc (g_labels st))), Label (nth_label (Suc (Suc (g_labels st))))]"

definition cond_post :: "nat \<Rightarrow> nat \<Rightarrow> nat \<Rightarrow> gen_state \<Rightarrow> il list" where
  "cond_post out x y st = [SetCmd out y, Jump (nth_label (Suc (Suc (Suc (g_labels st))))), Label (nth_label (Suc (g_labels st))), SetCmd out x,
     Label (nth_label (Suc (Suc (Suc (g_labels st)))))]"

lemma cond_before_eq: "cond_before v st = ((nth_label (Suc (g_labels st)), nth_label (Suc (Suc (g_labels st))), nth_label (Suc (Suc (Suc (g_labels st))))),
    add_cmd (JumpZero v (nth_label (Suc (Suc (g_labels st))))) (with_label (with_label (with_label st))))"
  by (simp add: cond_before_def gen_label_eq)

lemma cond_before_gives:
  assumes "gen_ok S N st" "cond_before v st = (ls, st1)"
  shows "gives S N st (cond_pre v st) st1" "g_labels st1 = Suc (Suc (Suc (g_labels st)))" "next_val st1 = next_val st"
proof -
  have "gives S N st [] (with_label (with_label (with_label st)))" by (intro gives_label gives_refl assms)
  then show "gives S N st (cond_pre v st) st1" using assms(2)
    by (auto simp: cond_before_eq cond_pre_def jump_zero_bool intro: gives_append_cmd)
  show "g_labels st1 = Suc (Suc (Suc (g_labels st)))" "next_val st1 = next_val st" using assms(2) by (auto simp: cond_before_eq)
qed

lemma cond_between_gives:
  assumes "gen_ok S N st" "cond_before v st = (ls, st1)" "gives S N st1 ca st2"
  shows "gives S N st (cond_pre v st @ ca @ cond_mid st) (cond_between ls st2)" "gen_ok S N (cond_between ls st2)"
    "g_syms (cond_between ls st2) = g_syms st2" "g_literal (cond_between ls st2) = g_literal st2" "g_literals (cond_between ls st2) = g_literals st2"
    "g_labels (cond_between ls st2) = g_labels st2"
proof -
  note p = cond_before_gives [OF assms(1,2)] and le = givesD(3) [OF assms(3)]
  have nl: "nth_label (Suc (Suc (g_labels st))) \<notin> set (label_names ca)" using label_not_later [OF assms(3)] p(2) by simp
  have ls: "ls = (nth_label (Suc (g_labels st)), nth_label (Suc (Suc (g_labels st))), nth_label (Suc (Suc (Suc (g_labels st)))))"
    using assms(2) by (simp add: cond_before_eq)
  have "gives S N st (cond_pre v st @ ca @ [Jump (nth_label (Suc (g_labels st)))]) (add_cmd (Jump (nth_label (Suc (g_labels st)))) st2)"
    by (rule gives_append_cmd [OF gives_trans [OF p(1) assms(3)]]) simp_all
  then show "gives S N st (cond_pre v st @ ca @ cond_mid st) (cond_between ls st2)"
    unfolding ls cond_between_def prod.case
    by (rule gives_append_label) (use nl le p(2) in \<open>auto simp: cond_mid_def cond_pre_def jump_zero_bool\<close>)
  then show "gen_ok S N (cond_between ls st2)" by (rule gives_ok)
  show "g_syms (cond_between ls st2) = g_syms st2" "g_literal (cond_between ls st2) = g_literal st2" "g_literals (cond_between ls st2) = g_literals st2"
    "g_labels (cond_between ls st2) = g_labels st2"
    by (simp_all add: ls cond_between_def)
qed

lemma set_type_into: "out \<noteq> v \<Longrightarrow> set_type v t (Some out) st = Some (r, st') \<Longrightarrow> st' = add_cmd (SetCmd out v) st"
  by (auto simp: set_type_def split: if_splits)

lemma result_ctype_ity:
  assumes "typed st x a" "typed st y b"
  shows "\<exists>t. result_ctype x y st = Some t \<and> ity_of t = Some (common a b)"
  using arith_conversion_ity [OF typedD(2) [OF assms(1)] typedD(2) [OF assms(2)]] ity_of_preds(2) [OF typedD(2) [OF assms(1)]]
    ity_of_preds(2) [OF typedD(2) [OF assms(2)]]
  by (simp add: result_ctype_def Let_def)

lemma cond_after_eq:
  assumes "typed st x a" "typed st y b" "cond_after ls x y st = Some (v', st')" "ls = (l1, l2, l3)"
  obtains t where "ity_of t = Some (common a b)" "v' = next_val st"
    "st' = add_cmd (Label l3) (add_cmd (SetCmd (next_val st) x) (add_cmd (Label l1) (add_cmd (Jump l3) (add_cmd (SetCmd (next_val st) y) (with_value t st)))))"
proof -
  obtain t where t: "result_ctype x y st = Some t" "ity_of t = Some (common a b)" using result_ctype_ity [OF assms(1,2)] by blast
  obtain r2 st2 r3 st3 where s: "set_type y t (Some (next_val st)) (with_value t st) = Some (r2, st2)"
    "set_type x t (Some (next_val st)) (add_cmd (Label l1) (add_cmd (Jump l3) st2)) = Some (r3, st3)" "v' = next_val st" "st' = add_cmd (Label l3) st3"
    using assms(3) t(1) by (auto simp: cond_after_def assms(4) new_ilvalue_eq split: Option.bind_splits)
  have "next_val st \<noteq> x" "next_val st \<noteq> y" using typedD(1) assms(1,2) by blast+
  then show ?thesis using s set_type_into [OF _ s(1)] set_type_into [OF _ s(2)] by (intro that [OF t(2)]) auto
qed

lemma cond_gives:
  assumes ok: "gen_ok S N st" and b: "cond_before v st = (ls, st1)" and ca: "gives S N st1 ca st2" and x: "typed st2 x a"
    and cb: "gives S N (cond_between ls st2) cb st3" and y: "typed st3 y b" and f: "cond_after ls x y st3 = Some (v', st')"
  shows "gives S N st (cond_pre v st @ ca @ cond_mid st @ cb @ cond_post v' x y st) st'" "typed st' v' (common a b)" "g_literal st' v' = None"
    "next_val st3 \<le> v'" "typed st' x a" "typed st' y b" "\<And>ty E. models ty E st' \<Longrightarrow> models ty E st3"
proof -
  note p = cond_before_gives [OF ok b] and q = cond_between_gives [OF ok b ca]
  have ls: "ls = (nth_label (Suc (g_labels st)), nth_label (Suc (Suc (g_labels st))), nth_label (Suc (Suc (Suc (g_labels st)))))"
    using b by (simp add: cond_before_eq)
  have xm: "typed (cond_between ls st2) x a" using x q(3-5) by (simp add: typed_def)
  note x3 = typed_gives [OF xm cb]
  obtain t where t: "ity_of t = Some (common a b)" and s: "v' = next_val st3"
    "st' = add_cmd (Label (nth_label (Suc (Suc (Suc (g_labels st)))))) (add_cmd (SetCmd (next_val st3) x) (add_cmd (Label (nth_label (Suc (g_labels st))))
       (add_cmd (Jump (nth_label (Suc (Suc (Suc (g_labels st)))))) (add_cmd (SetCmd (next_val st3) y) (with_value t st3)))))"
    by (rule cond_after_eq [OF x3 y f ls])
  let ?pre = "cond_pre v st @ ca @ cond_mid st @ cb" and ?post = "cond_post v' x y st"
  have g: "gives S N st ?pre (with_value t st3)" using gives_value [OF gives_trans [OF q(1) cb]] by simp
  have lab: "nth_label (Suc (g_labels st)) \<notin> set (label_names ?pre)" "nth_label (Suc (Suc (Suc (g_labels st)))) \<notin> set (label_names ?pre)"
    using label_not_later [OF ca] label_not_later [OF cb] p(2) q(6) givesD(3) [OF ca] by (auto simp: cond_pre_def cond_mid_def jump_zero_bool)
  have le: "Suc (Suc (Suc (g_labels st))) \<le> g_labels st3" using p(2) q(6) givesD(3) [OF ca] givesD(3) [OF cb] by simp
  have nv: "next_val st \<le> next_val st3" "g_literals st3 (next_val st3) = None" "g_literal st3 (next_val st3) = None"
    using givesD(2) [OF gives_trans [OF q(1) cb]] gen_ok_fresh [OF gives_ok [OF cb], of "next_val st3"] by auto
  show "gives S N st (cond_pre v st @ ca @ cond_mid st @ cb @ cond_post v' x y st) st'" unfolding s(2)
    apply (rule gives_append_label [where code = "?pre @ butlast ?post"])
    apply (rule gives_append_cmd [where code = "?pre @ take 3 ?post"])
    apply (rule gives_append_label [where code = "?pre @ take 2 ?post"])
    apply (rule gives_append_cmd [where code = "?pre @ take 1 ?post"])
    apply (rule gives_append_cmd [OF g])
    using lab le nv by (auto simp: cond_post_def s(1) simp del: label_names_simps(3)) (auto simp: image_iff)
  have "typed st' v' (common a b)" using t nv by (simp add: s typed_def)
  then show "typed st' v' (common a b)" "g_literal st' v' = None" "next_val st3 \<le> v'" using nv by (simp_all add: s)
  show "typed st' x a" "typed st' y b" using x3 y by (auto simp: s typed_def)
  show "models ty E st3" if "models ty E st'" for ty E using that by (auto simp: s models_def)
qed

lemma cond_computes:
  assumes ok: "gen_ok S N st" and v: "typed st v tv" and b: "cond_before v st = (ls, st1)" and ca: "gives S N st1 ca st2" and x: "typed st2 x a"
    and cb: "gives S N (cond_between ls st2) cb st3" and y: "typed st3 y b" and f: "cond_after ls x y st3 = Some (v', st')"
    and m: "models ty E st'" and e: "E v = enc tv i" "in_range tv i"
    and r1: "i \<noteq> 0 \<Longrightarrow> models ty E st2 \<Longrightarrow> \<exists>E2. computes ty A X ca E E2 \<and> E2 x = enc a k \<and> in_range a k"
    and r2: "i = 0 \<Longrightarrow> models ty E st3 \<Longrightarrow> \<exists>E2. computes ty A X cb E E2 \<and> E2 y = enc b k \<and> in_range b k"
  shows "\<exists>E'. computes ty A X (cond_pre v st @ ca @ cond_mid st @ cb @ cond_post v' x y st) E E' \<and> E' v' = enc (common a b) (wrap (common a b) k)"
proof -
  note p = cond_before_gives [OF ok b] and q = cond_between_gives [OF ok b ca] and c = cond_gives [OF ok b ca x cb y f]
  let ?code = "cond_pre v st @ ca @ cond_mid st @ cb @ cond_post v' x y st"
  let ?l1 = "nth_label (Suc (g_labels st))" and ?l2 = "nth_label (Suc (Suc (g_labels st)))" and ?l3 = "nth_label (Suc (Suc (Suc (g_labels st))))"
  have at: "?code = (cond_pre v st @ ca @ take 1 (cond_mid st)) @ Label ?l2 # (cb @ cond_post v' x y st)"
    "?code = (cond_pre v st @ ca @ cond_mid st @ cb @ take 2 (cond_post v' x y st)) @ Label ?l1 # [SetCmd v' x, Label ?l3]"
    "?code = (cond_pre v st @ ca @ cond_mid st @ cb @ butlast (cond_post v' x y st)) @ Label ?l3 # []"
    by (simp_all add: cond_mid_def cond_post_def)
  have hd: "?code = bool_jump True v ?l2 # ca @ cond_mid st @ cb @ cond_post v' x y st" by (simp add: cond_pre_def jump_zero_bool)
  have mid: "cond_mid st @ rest = Jump ?l1 # Label ?l2 # rest" for rest by (simp add: cond_mid_def)
  have post: "cond_post v' x y st = SetCmd v' y # Jump ?l3 # drop 2 (cond_post v' x y st)" by (simp add: cond_post_def)
  note m3 = c(7) [OF m]
  have m2: "models ty E st2" using models_back [OF m3 cb] q(3-5) by (simp add: models_def)
  have cv: "v' \<notin> outs ca" "v' \<notin> outs cb" using c(4) givesD(11) [OF ca, of v'] givesD(11) [OF cb, of v'] givesD(2) [OF cb] q(3) by auto
  show ?thesis
  proof (cases "i = 0")
    case True
    then have "(E v = 0) = True" using e enc_zero [OF typedD(3) [OF v]] by simp
    then have s1: "reaches ty A X ?code (?code, E) (cb @ cond_post v' x y st, E)" by (subst (2) hd) (rule reaches_fires [OF _ at(1)])
    obtain E2 where E2: "computes ty A X cb E E2" "E2 y = enc b k" "in_range b k" using r2 [OF True m3] by blast
    have s2: "reaches ty A X ?code (cb @ cond_post v' x y st, E) (cond_post v' x y st, E2)"
      using reaches_inside [of ty A X cb "(cb, E)" "([], E2)" "cond_pre v st @ ca @ cond_mid st" "cond_post v' x y st"] E2(1) by (simp add: computes_def)
    have g': "models ty E2 st'"
    proof -
      have "agree (outs ?code) E E2" using E2(1) agree_weaken [of "outs cb" E E2 "outs ?code"] by (auto simp: computes_def)
      then show ?thesis by (rule models_run [OF m c(1) gives_refl [OF gives_ok [OF c(1)]]])
    qed
    have "reaches ty A X ?code (cond_post v' x y st, E2) (Jump ?l3 # drop 2 (cond_post v' x y st), E2(v' := enc (common a b) (wrap (common a b) k)))"
      by (subst (2) post) (rule reaches_set [OF g' c(2,6) E2(2,3)])
    also have "reaches ty A X ?code (Jump ?l3 # drop 2 (cond_post v' x y st), E2(v' := enc (common a b) (wrap (common a b) k)))
      ([], E2(v' := enc (common a b) (wrap (common a b) k)))" by (rule reaches_goto [OF at(3)])
    finally have "reaches ty A X ?code (?code, E) ([], E2(v' := enc (common a b) (wrap (common a b) k)))" using reaches_trans [OF s1 reaches_trans [OF s2]] by blast
    moreover have "agree (outs cb) E E2" using E2(1) by (simp add: computes_def)
    ultimately have "computes ty A X ?code E (E2(v' := enc (common a b) (wrap (common a b) k)))"
      by (auto simp: computes_def agree_def cond_post_def)
    then show ?thesis by (metis fun_upd_same)
  next
    case False
    then have "(E v = 0) \<noteq> True" using e enc_zero [OF typedD(3) [OF v]] by simp
    then have s1: "reaches ty A X ?code (?code, E) (ca @ cond_mid st @ cb @ cond_post v' x y st, E)" by (subst (2) hd) (rule reaches_passes)
    obtain E2 where E2: "computes ty A X ca E E2" "E2 x = enc a k" "in_range a k" using r1 [OF False m2] by blast
    have s2: "reaches ty A X ?code (ca @ cond_mid st @ cb @ cond_post v' x y st, E) (cond_mid st @ cb @ cond_post v' x y st, E2)"
      using reaches_inside [of ty A X ca "(ca, E)" "([], E2)" "cond_pre v st" "cond_mid st @ cb @ cond_post v' x y st"] E2(1) by (simp add: computes_def)
    have g': "models ty E2 st'"
    proof -
      have "agree (outs ?code) E E2" using E2(1) agree_weaken [of "outs ca" E E2 "outs ?code"] by (auto simp: computes_def)
      then show ?thesis by (rule models_run [OF m c(1) gives_refl [OF gives_ok [OF c(1)]]])
    qed
    have "reaches ty A X ?code (cond_mid st @ cb @ cond_post v' x y st, E2) ([SetCmd v' x, Label ?l3], E2)"
      by (subst (2) mid) (rule reaches_goto [OF at(2)])
    also have "reaches ty A X ?code ([SetCmd v' x, Label ?l3], E2) ([Label ?l3], E2(v' := enc (common a b) (wrap (common a b) k)))"
      by (rule reaches_set [OF g' c(2,5) E2(2,3)])
    also have "reaches ty A X ?code ([Label ?l3], E2(v' := enc (common a b) (wrap (common a b) k))) ([], E2(v' := enc (common a b) (wrap (common a b) k)))"
      by (rule reaches_label)
    finally have "reaches ty A X ?code (?code, E) ([], E2(v' := enc (common a b) (wrap (common a b) k)))" using reaches_trans [OF s1 reaches_trans [OF s2]] by blast
    moreover have "agree (outs ca) E E2" using E2(1) by (simp add: computes_def)
    ultimately have "computes ty A X ?code E (E2(v' := enc (common a b) (wrap (common a b) k)))"
      by (auto simp: computes_def agree_def cond_post_def)
    then show ?thesis by (metis fun_upd_same)
  qed
qed

section \<open>Constants, names and casts\<close>

lemma int_range_ity:
  assumes "ity_of t = Some a" "\<not> is_boolean a" "fst (int_range t) \<le> v" "v \<le> snd (int_range t)"
  shows "in_range a v"
proof -
  obtain og sz c where t: "t = IntegerT og sz (is_signed a) False c" "bytes_of a = nat sz" "0 < sz" using ity_ofE [OF assms(1)] assms(2) by metis
  have k: "nat (8 * sz - 1) = 8 * nat sz - 1" "nat (8 * sz) = 8 * nat sz" using t(3) by auto
  show ?thesis using assms(2-4) t k by (cases a; cases "is_signed a") (auto simp: int_range_def in_range_signed in_range_unsigned)
qed

lemma number_type_ity:
  assumes "number_type s v = Some t"
  shows "\<exists>a. ity_of t = Some a \<and> in_range a v"
proof -
  have "t \<in> set (number_candidates s)" "fst (int_range t) \<le> v" "v \<le> snd (int_range t)"
    using assms by (auto simp: number_type_def find_Some_iff)
  moreover from this have "t \<in> {integer_t, unsig_int, longint, unsig_longint}" by (auto simp: number_candidates_def Let_def split: if_splits)
  ultimately show ?thesis using int_range_ity [of t] by (auto simp: int_ity_def)
qed

lemma number_gives:
  assumes "gen_ok S N st" "number_il s st = Some (v', st')"
  shows "\<exists>i t a. parse_c_int s = Some i \<and> number_type s i = Some t \<and> ity_of t = Some a \<and> in_range a i \<and> gives S N st [] st' \<and> typed st' v' a
    \<and> g_literal st' v' \<noteq> None \<and> (models ty E st' \<longrightarrow> E v' = enc a i)"
proof -
  obtain i t where i: "parse_c_int s = Some i" "number_type s i = Some t" and s: "v' = next_val st"
      "st' = with_literal (next_val st) i (LInt i) (with_value t st)"
    using assms(2) by (auto simp: number_il_def literal_value_eq split: Option.bind_splits)
  obtain a where a: "ity_of t = Some a" "in_range a i" using number_type_ity [OF i(2)] by blast
  show ?thesis using i a gives_fresh_literal [OF gives_refl [OF assms(1)]] typed_fresh_literal [OF a, of "LInt i" st] models_literal [OF _ a(1), of ty E st i "LInt i"]
    by (auto simp: s)
qed

end
