(* ===== verification/GenSound.thy ===== *)
theory GenSound
  imports GenCond
begin

unbundle bit_operations_syntax

text \<open>
  The code \<open>make_il\<close> emits for an integer expression computes the value C gives it: by induction over the tree, first
  what every node keeps of the state and the type of its result, then the value.
\<close>

section \<open>Caches and throwaway code\<close>

definition node_names :: "(nat \<rightharpoonup> string) \<Rightarrow> expr \<Rightarrow> bool" where
  "node_names N e = (\<forall>p \<in> set (cached_ids e). N (fst p) = Some (snd p))"

lemma cache_gives:
  assumes "gen_ok S N st" "N i = Some x" "named st x v"
  shows "gives S N st [] (st\<lparr>g_lvalues := (g_lvalues st)(i \<mapsto> DirectLV v)\<rparr>)"
proof -
  let ?st = "st\<lparr>g_lvalues := (g_lvalues st)(i \<mapsto> DirectLV v)\<rparr>"
  have n: "named ?st y u = named st y u" for y u by (rule named_cong) simp
  have "\<exists>u. named ?st y u \<and> u < next_val ?st \<and> ity_of (ctype_of ?st u) = Some t \<and> g_literal ?st u = None \<and> g_literals ?st u = None"
    if "S y = Some (t, z)" for y t z using gen_ok_names [OF assms(1) that] n by simp
  moreover have "\<exists>u. named ?st y u \<and> lv = DirectLV u" if "N j = Some y" "g_lvalues ?st j = Some lv" for j y lv
    using gen_ok_nodes [OF assms(1) that(1)] that assms(2,3) n by (cases "j = i") auto
  moreover have "g_literal ?st u = None \<and> g_literals ?st u = None" if "next_val ?st \<le> u" for u
    using gen_ok_fresh [OF assms(1), of u] that by simp
  ultimately have "gen_ok S N ?st" unfolding gen_ok_def by blast
  then show ?thesis using assms(1) by (simp add: gives_def)
qed

lemma scratch_sel [simp]:
  "g_syms (scratch_code st) = g_syms st" "g_literal (scratch_code st) = g_literal st" "g_literals (scratch_code st) = Map.empty"
  "g_lvalues (scratch_code st) = g_lvalues st" "g_labels (scratch_code st) = g_labels st"
  by (simp_all add: scratch_code_def)

lemma restore_sel [simp]:
  "g_syms (restore_code st0 st) = g_syms st" "g_literal (restore_code st0 st) = g_literal st" "g_literals (restore_code st0 st) = g_literals st0"
  "g_lvalues (restore_code st0 st) = g_lvalues st" "g_labels (restore_code st0 st) = g_labels st" "g_code (restore_code st0 st) = g_code st0"
  by (simp_all add: restore_code_def)

lemma scratch_ok: "gen_ok S N st \<Longrightarrow> gen_ok S N (scratch_code st)"
proof -
  assume ok: "gen_ok S N st"
  have n: "named (scratch_code st) y u = named st y u" for y u by (rule named_cong) simp
  have "\<exists>u. named st y u \<and> u < next_val st \<and> ity_of (ctype_of st u) = Some t \<and> g_literal st u = None" if "S y = Some (t, z)" for y t z
    using gen_ok_names [OF ok that] by blast
  then show ?thesis using ok by (simp add: gen_ok_def n)
qed

lemma restore_gives:
  assumes ok: "gen_ok S N st" and g: "gives S N (scratch_code st) code st'"
  shows "gives S N st [] (restore_code st st')"
proof -
  have t: "st_tables (g_syms st') = st_tables (g_syms st)" "next_val st \<le> next_val st'" "g_labels st \<le> g_labels st'"
    using givesD(2,3,6) [OF g] by simp_all
  have k: "ctype_of st' v = ctype_of st v" "g_literal st' v = g_literal st v" if "v < next_val st" for v
    using givesD(7,8) [OF g, of v] that by simp_all
  have n: "named (restore_code st st') y u = named st y u" "named st' y u = named st y u" for y u by (rule named_cong; simp add: t)+
  have "\<exists>u. named st y u \<and> u < next_val st' \<and> ity_of (ctype_of st' u) = Some t \<and> g_literal st' u = None \<and> g_literals st u = None"
    if s: "S y = Some (t, z)" for y t z
  proof -
    obtain u where u: "named st y u" "u < next_val st" "ity_of (ctype_of st u) = Some t \<and> g_literal st u = None \<and> g_literals st u = None"
      using gen_ok_names [OF ok s] by blast
    show ?thesis using u(3) k [OF u(2)] t(2) u(1,2) by (intro exI [of _ u]) simp
  qed
  moreover have "\<exists>u. named st y u \<and> lv = DirectLV u" if "N i = Some y" "g_lvalues st' i = Some lv" for i y lv
    using gen_ok_nodes [OF gives_ok [OF g] that] n by simp
  moreover have "g_literal st' u = None \<and> g_literals st u = None" if "next_val st' \<le> u" for u
    using gen_ok_fresh [OF gives_ok [OF g] that] gen_ok_fresh [OF ok, of u] t(2) that by simp
  ultimately have "gen_ok S N (restore_code st st')" unfolding gen_ok_def by (simp add: n)
  then show ?thesis using ok t k by (simp add: gives_def)
qed

section \<open>Names\<close>

lemma named_unique: "named st x v \<Longrightarrow> named st x u \<Longrightarrow> u = v"
  by (simp add: named_def)

lemma identifier_gives:
  assumes ok: "gen_ok S N st" and x: "S x = Some (t, y)" "N i = Some x" and g: "gen (Identifier i x) st = Some (v, st')"
  shows "gives S N st [] st' \<and> typed st' v t \<and> g_literal st' v = None \<and> named st x v"
proof -
  obtain u where u: "named st x u" "u < next_val st" "ity_of (ctype_of st u) = Some t" "g_literal st u = None" using gen_ok_names [OF ok x(1)] by blast
  have l: "lookup_enum_const (g_syms st) x = None" "lookup_variable (g_syms st) x = Inr u" using u(1) by (simp_all add: named_def)
  obtain st1 where st1: "lval (Identifier i x) st = Some (Some (DirectLV u), st1)" "gives S N st [] st1"
  proof (cases "g_lvalues st i")
    case None
    then have "lval (Identifier i x) st = Some (Some (DirectLV u), st\<lparr>g_lvalues := (g_lvalues st)(i \<mapsto> DirectLV u)\<rparr>)"
      using l by (simp add: keep_lvalue_def)
    then show ?thesis using cache_gives [OF ok x(2) u(1)] that by blast
  next
    case (Some lv)
    then have "lval (Identifier i x) st = Some (Some (DirectLV u), st)" using gen_ok_nodes [OF ok x(2) Some] named_unique [OF u(1)] by auto
    then show ?thesis using gives_refl [OF ok] that by blast
  qed
  have c: "ctype_of st1 u = ctype_of st u" "g_literal st1 u = None" "u < next_val st1"
    using givesD(2,7,8) [OF st1(2)] u by (simp_all add: le_trans less_le_trans)
  then have i: "ity_of (ctype_of st1 u) = Some t" using u(3) by simp
  have "decay (Some (DirectLV u)) st1 = Some (u, st1)" using ity_of_preds(6,15) [OF i] by (simp add: decay_def)
  then have "v = u" "st' = st1" using g l st1(1) by (simp_all del: lval.simps)
  then show ?thesis using st1(2) u(1) i c by (simp add: typed_def)
qed

section \<open>What a node keeps\<close>

lemma bool_gen_cases [consumes 4]:
  assumes ok: "gen_ok S N st" and v: "typed st v ta" and g: "gen_bool is_and v b st = Some (w, st')"
    and IH: "\<forall>st u st'. gen_ok S N st \<longrightarrow> gen b st = Some (u, st') \<longrightarrow> (\<exists>code. gives S N st code st' \<and> typed st' u tb)"
  obtains (run) st0 loc st1 cb u st2 where "gives S N st [] st0" "typed st0 v ta" "bool_before is_and v st0 = (loc, st1)" "gen b st1 = Some (u, st2)"
      "gives S N st1 cb st2" "typed st2 u tb" "bool_after is_and loc u st2 = Some (w, st')"
    | (fires) cp u stp where "g_literal st v \<noteq> None" "gen b (scratch_code st) = Some (u, stp)" "gives S N (scratch_code st) cp stp" "typed stp u tb"
      "jump_fires is_and (g_literal st v)" "(w, st') = bool_literal (\<not> is_and) (restore_code st stp)"
    | (lits) cp u stp where "g_literal st v \<noteq> None" "gen b (scratch_code st) = Some (u, stp)" "gives S N (scratch_code st) cp stp" "typed stp u tb"
      "\<not> jump_fires is_and (g_literal st v)" "g_literal stp u \<noteq> None"
      "(w, st') = bool_literal (jump_fires is_and (g_literal stp u) \<noteq> is_and) (restore_code st stp)"
proof -
  have sc: "is_scalar (ctype_of st v)" using ity_of_preds(3) [OF typedD(2) [OF v]] .
  show ?thesis
  proof (cases "g_literal st v = None")
    case True
    obtain loc st1 where b: "bool_before is_and v st = (loc, st1)" by (cases "bool_before is_and v st")
    obtain u st2 where u: "gen b st1 = Some (u, st2)" "bool_after is_and loc u st2 = Some (w, st')"
      using g True sc b by (auto simp: Let_def split: Option.bind_splits)
    obtain cb where "gives S N st1 cb st2" "typed st2 u tb" using IH [rule_format, OF gives_ok [OF bool_before_gives(1) [OF ok b]] u(1)] by blast
    then show ?thesis using run [OF gives_refl [OF ok] v b u(1) _ _ u(2)] by blast
  next
    case False
    obtain u stp where u: "gen b (scratch_code st) = Some (u, stp)" using g False sc by (auto split: Option.bind_splits)
    obtain cp where cp: "gives S N (scratch_code st) cp stp" "typed stp u tb" using IH [rule_format, OF scratch_ok [OF ok] u] by blast
    have su: "is_scalar (ctype_of stp u)" using ity_of_preds(3) [OF typedD(2) [OF cp(2)]] .
    have vp: "g_literal stp v = g_literal st v" using givesD(8) [OF cp(1), of v] typedD(1) [OF v] by simp
    note r = restore_gives [OF ok cp(1)]
    show ?thesis
    proof (cases "jump_fires is_and (g_literal st v)")
      case True
      then have "Some (w, st') = Some (bool_literal (\<not> is_and) (restore_code st stp))" using g False sc u su vp by (simp add: Let_def)
      then show ?thesis using fires [OF False u cp True] by blast
    next
      case nf: False
      show ?thesis
      proof (cases "g_literal stp u = None")
        case ul: False
        then have "Some (w, st') = Some (bool_literal (jump_fires is_and (g_literal stp u) \<noteq> is_and) (restore_code st stp))"
          using g False sc u su vp nf by (simp add: Let_def)
        then show ?thesis using lits [OF False u cp nf ul] by blast
      next
        case ul: True
        let ?s0 = "restore_code st stp"
        obtain loc st1 where b: "bool_before is_and v ?s0 = (loc, st1)" by (cases "bool_before is_and v ?s0")
        obtain u2 st2 where u2: "gen b st1 = Some (u2, st2)" "bool_after is_and loc u2 st2 = Some (w, st')"
          using g False sc u su vp nf ul b by (auto simp: Let_def split: Option.bind_splits)
        note ok0 = gives_ok [OF r]
        obtain cb where "gives S N st1 cb st2" "typed st2 u2 tb" using IH [rule_format, OF gives_ok [OF bool_before_gives(1) [OF ok0 b]] u2(1)] by blast
        then show ?thesis using run [OF r typed_gives [OF v r] b u2(1) _ _ u2(2)] by blast
      qed
    qed
  qed
qed

lemma bool_gen_gives:
  assumes ok: "gen_ok S N st" and v: "typed st v ta" and g: "gen_bool is_and v b st = Some (w, st')"
    and IH: "\<forall>st u st'. gen_ok S N st \<longrightarrow> gen b st = Some (u, st') \<longrightarrow> (\<exists>code. gives S N st code st' \<and> typed st' u tb)"
  shows "\<exists>code. gives S N st code st' \<and> typed st' w int_ity \<and> (g_literal st' w \<noteq> None \<longrightarrow> g_literal st v \<noteq> None)"
  using ok v g IH
proof (cases rule: bool_gen_cases)
  case (run st0 loc st1 cb u st2)
  note b = bool_gives [OF gives_ok [OF run(1)] run(3,5,6,7)]
  show ?thesis using gives_trans [OF run(1) b(1)] b(2,3) by auto
next
  case (fires cp u stp)
  note r = restore_gives [OF ok fires(3)]
  show ?thesis using bool_literal_gives [OF gives_ok [OF r] fires(6)] gives_trans [OF r] fires(1) by blast
next
  case (lits cp u stp)
  note r = restore_gives [OF ok lits(3)]
  show ?thesis using bool_literal_gives [OF gives_ok [OF r] lits(7)] gives_trans [OF r] lits(1) by blast
qed

lemma gen_gives:
  assumes "gen e st = Some (v, st')" "plain S e" "c_type S e = Some t" "node_names N e" "gen_ok S N st"
  shows "\<exists>code. gives S N st code st' \<and> typed st' v t \<and> (g_literal st' v \<noteq> None \<longrightarrow> may_fold e)"
  using assms
proof (induction e arbitrary: st v st' t)
  case (Number s)
  then show ?case using number_gives [of S N st s v st'] by (fastforce split: Option.bind_splits)
next
  case (Identifier i x)
  then obtain y where "S x = Some (t, y)" "N i = Some x" by (auto simp: node_names_def)
  then show ?case using identifier_gives [OF Identifier.prems(5) _ _ Identifier.prems(1)] by blast
next
  case (ParenExpr e)
  then show ?case by (simp add: node_names_def)
next
  case (MultiExpr a b)
  obtain u st1 where a: "gen a st = Some (u, st1)" and b: "gen b st1 = Some (v, st')" using MultiExpr.prems(1) by (auto split: Option.bind_splits)
  obtain ta where t: "c_type S a = Some ta" "c_type S b = Some t" using MultiExpr.prems(3) by (auto split: Option.bind_splits)
  obtain c where c: "gives S N st c st1" using MultiExpr.IH(1) [OF a _ t(1)] MultiExpr.prems(2,4,5) by (auto simp: node_names_def)
  then obtain d where "gives S N st1 d st'" "typed st' v t" "g_literal st' v \<noteq> None \<longrightarrow> may_fold b"
    using MultiExpr.IH(2) [OF b _ t(2) _ gives_ok [OF c]] MultiExpr.prems(2,4) by (auto simp: node_names_def)
  then show ?case using gives_trans [OF c] by auto
next
  case (BinOp op a b)
  obtain l st1 r st2 where g: "gen a st = Some (l, st1)" "gen b st1 = Some (r, st2)" "binop_il op l r st2 = Some (v, st')"
    using BinOp.prems(1) by (auto split: Option.bind_splits)
  obtain ta tb where t: "c_type S a = Some ta" "c_type S b = Some tb" "t = op_ity op ta tb"
    using BinOp.prems(3) by (auto simp: op_ity_def split: Option.bind_splits)
  obtain c where c: "gives S N st c st1" "typed st1 l ta" "g_literal st1 l \<noteq> None \<longrightarrow> may_fold a"
    using BinOp.IH(1) [OF g(1) _ t(1)] BinOp.prems(2,4,5) by (auto simp: node_names_def)
  obtain d where d: "gives S N st1 d st2" "typed st2 r tb" "g_literal st2 r \<noteq> None \<longrightarrow> may_fold b"
    using BinOp.IH(2) [OF g(2) _ t(2) _ gives_ok [OF c(1)]] BinOp.prems(2,4) by (auto simp: node_names_def)
  note l = typed_later [OF c(2) d(1)]
  have "plain_op op ta tb (g_literal st2 l \<noteq> None \<and> g_literal st2 r \<noteq> None)"
    using BinOp.prems(2) t c(3) d(3) l by (auto simp: plain_op_def split: bin_op.splits div_mod.splits)
  then obtain f where "gives S N st2 f st'" "typed st' v t" "g_literal st' v \<noteq> None \<longrightarrow> g_literal st2 l \<noteq> None \<and> g_literal st2 r \<noteq> None"
    using binop_gives [OF gives_ok [OF d(1)] _ d(2) g(3)] l t(3) by blast
  then show ?case using gives_trans [OF gives_trans [OF c(1) d(1)]] c(3) d(3) l by auto
next
  case (UnOp op a)
  obtain u st1 where g: "gen a st = Some (u, st1)" "unop_il op u st1 = Some (v, st')" using UnOp.prems(1) by (auto split: Option.bind_splits)
  obtain ta where t: "c_type S a = Some ta" "t = promoted ta" using UnOp.prems(3) by auto
  obtain c where c: "gives S N st c st1" "typed st1 u ta" "g_literal st1 u \<noteq> None \<longrightarrow> may_fold a"
    using UnOp.IH [OF g(1) _ t(1)] UnOp.prems(2,4,5) by (auto simp: node_names_def)
  then show ?case using unop_gives [OF gives_ok [OF c(1)] c(2) g(2)] gives_trans [OF c(1)] t(2) by fastforce
next
  case (BoolAnd a b)
  obtain u st1 where g: "gen a st = Some (u, st1)" "gen_bool True u b st1 = Some (v, st')" using BoolAnd.prems(1) by (auto split: Option.bind_splits)
  obtain ta tb where t: "c_type S a = Some ta" "c_type S b = Some tb" "t = int_ity" using BoolAnd.prems(3) by (auto split: Option.bind_splits)
  obtain c where c: "gives S N st c st1" "typed st1 u ta" "g_literal st1 u \<noteq> None \<longrightarrow> may_fold a"
    using BoolAnd.IH(1) [OF g(1) _ t(1)] BoolAnd.prems(2,4,5) by (auto simp: node_names_def)
  have "\<forall>st u st'. gen_ok S N st \<longrightarrow> gen b st = Some (u, st') \<longrightarrow> (\<exists>code. gives S N st code st' \<and> typed st' u tb)"
    using BoolAnd.IH(2) [OF _ _ t(2)] BoolAnd.prems(2,4) by (fastforce simp: node_names_def)
  then show ?case using bool_gen_gives [OF gives_ok [OF c(1)] c(2) g(2)] gives_trans [OF c(1)] c(3) t(3) by fastforce
next
  case (BoolOr a b)
  obtain u st1 where g: "gen a st = Some (u, st1)" "gen_bool False u b st1 = Some (v, st')" using BoolOr.prems(1) by (auto split: Option.bind_splits)
  obtain ta tb where t: "c_type S a = Some ta" "c_type S b = Some tb" "t = int_ity" using BoolOr.prems(3) by (auto split: Option.bind_splits)
  obtain c where c: "gives S N st c st1" "typed st1 u ta" "g_literal st1 u \<noteq> None \<longrightarrow> may_fold a"
    using BoolOr.IH(1) [OF g(1) _ t(1)] BoolOr.prems(2,4,5) by (auto simp: node_names_def)
  have "\<forall>st u st'. gen_ok S N st \<longrightarrow> gen b st = Some (u, st') \<longrightarrow> (\<exists>code. gives S N st code st' \<and> typed st' u tb)"
    using BoolOr.IH(2) [OF _ _ t(2)] BoolOr.prems(2,4) by (fastforce simp: node_names_def)
  then show ?case using bool_gen_gives [OF gives_ok [OF c(1)] c(2) g(2)] gives_trans [OF c(1)] c(3) t(3) by fastforce
next
  case (BoolNot a)
  obtain u st1 where g: "gen a st = Some (u, st1)" "bool_not_il u st1 = Some (v, st')" using BoolNot.prems(1) by (auto split: Option.bind_splits)
  obtain ta where t: "c_type S a = Some ta" "t = int_ity" using BoolNot.prems(3) by auto
  obtain c where c: "gives S N st c st1" "typed st1 u ta" "g_literal st1 u \<noteq> None \<longrightarrow> may_fold a"
    using BoolNot.IH [OF g(1) _ t(1)] BoolNot.prems(2,4,5) by (auto simp: node_names_def)
  then show ?case using bool_not_gives [OF gives_ok [OF c(1)] c(2) g(2)] gives_trans [OF c(1)] t(2) by fastforce
next
  case (Conditional e a b)
  obtain u st1 where g: "gen e st = Some (u, st1)" using Conditional.prems(1) by (auto split: Option.bind_splits)
  obtain tc ta tb where t: "c_type S e = Some tc" "c_type S a = Some ta" "c_type S b = Some tb" "t = common ta tb"
    using Conditional.prems(3) by (auto split: Option.bind_splits)
  obtain c where c: "gives S N st c st1" "typed st1 u tc" "g_literal st1 u \<noteq> None \<longrightarrow> may_fold e"
    using Conditional.IH(1) [OF g _ t(1)] Conditional.prems(2,4,5) by (auto simp: node_names_def)
  note ok1 = gives_ok [OF c(1)] and sc = ity_of_preds(3) [OF typedD(2) [OF c(2)]]
  have A: "\<exists>code. gives S N st code st' \<and> typed st' u ta \<and> (g_literal st' u \<noteq> None \<longrightarrow> may_fold a)"
    if "gen_ok S N st" "gen a st = Some (u, st')" for st u st'
    using Conditional.IH(2) [OF that(2) _ t(2) _ that(1)] Conditional.prems(2,4) by (auto simp: node_names_def)
  have B: "\<exists>code. gives S N st code st' \<and> typed st' u tb \<and> (g_literal st' u \<noteq> None \<longrightarrow> may_fold b)"
    if "gen_ok S N st" "gen b st = Some (u, st')" for st u st'
    using Conditional.IH(3) [OF that(2) _ t(3) _ that(1)] Conditional.prems(2,4) by (auto simp: node_names_def)
  show ?case
  proof (cases "g_literal st1 u = None")
    case True
    obtain ls st2 where b: "cond_before u st1 = (ls, st2)" by (cases "cond_before u st1")
    obtain x st3 y st4 where f: "gen a st2 = Some (x, st3)" "gen b (cond_between ls st3) = Some (y, st4)" "cond_after ls x y st4 = Some (v, st')"
      using Conditional.prems(1) g True sc b by (auto simp: Let_def split: Option.bind_splits)
    obtain ca where ca: "gives S N st2 ca st3" "typed st3 x ta" using A [OF gives_ok [OF cond_before_gives(1) [OF ok1 b]] f(1)] by blast
    obtain cb where cb: "gives S N (cond_between ls st3) cb st4" "typed st4 y tb" using B [OF cond_between_gives(2) [OF ok1 b ca(1)] f(2)] by blast
    note r = cond_gives [OF ok1 b ca cb f(3)]
    then show ?thesis using gives_trans [OF c(1) r(1)] r(2,3) t(4) by auto
  next
    case False
    then have k: "may_fold e" using c(3) by blast
    then have tt: "t = ta" "t = tb" using Conditional.prems(2) t common_same [of ta tb] by auto
    have "gen (if lit_is_zero (g_literal st1 u) then b else a) st1 = Some (v, st')" using Conditional.prems(1) g False sc by simp
    then show ?thesis using A [OF ok1] B [OF ok1] gives_trans [OF c(1)] k tt by (fastforce split: if_splits)
  qed
next
  case (Cast ct a)
  have ct: "ity_of ct = Some t" using Cast.prems(3) by (auto split: Option.bind_splits)
  obtain u st1 where g: "gen a st = Some (u, st1)" "cast_il ct u st1 = Some (v, st')"
    using Cast.prems(1) ity_of_preds(3,8) [OF ct] by (auto split: Option.bind_splits)
  obtain ta where ta: "c_type S a = Some ta" using Cast.prems(3) by (auto split: Option.bind_splits)
  obtain c where c: "gives S N st c st1" "typed st1 u ta" "g_literal st1 u \<noteq> None \<longrightarrow> may_fold a"
    using Cast.IH [OF g(1) _ ta] Cast.prems(2,4,5) by (auto simp: node_names_def)
  have s: "set_type u ct None st1 = Some (v, st')"
    using g(2) ity_of_preds(8) [OF ct] ity_of_preds(3) [OF typedD(2) [OF c(2)]] by (simp add: cast_il_def)
  have "g_literal st1 u \<noteq> None \<longrightarrow> \<not> is_boolean t" using Cast.prems(2) ct c(3) by auto
  then obtain d where "gives S N st1 d st'" "typed st' v t" "g_literal st' v = None \<longleftrightarrow> g_literal st1 u = None"
    using set_type_gives [OF gives_ok [OF c(1)] c(2) ct s] by auto
  then show ?case using gives_trans [OF c(1)] c(3) by auto
qed simp_all

end
