(* ===== verification/ExprSound.thy ===== *)
theory ExprSound
  imports GenSound
begin

unbundle bit_operations_syntax

text \<open>The value of an integer expression: the code \<open>make_il\<close> emits for it computes the value C gives it.\<close>

section \<open>Values of expressions\<close>

definition cenv_ok :: "cenv \<Rightarrow> bool" where
  "cenv_ok S = (\<forall>x t y. S x = Some (t, y) \<longrightarrow> ity_ok t \<and> (\<forall>i. y = Some i \<longrightarrow> in_range t i))"

text \<open>The variables hold the values of the environment.\<close>

definition holds :: "cenv \<Rightarrow> gen_state \<Rightarrow> env \<Rightarrow> bool" where
  "holds S st E = (\<forall>x t i v. S x = Some (t, Some i) \<longrightarrow> named st x v \<longrightarrow> E v = enc t i)"

lemma c_type_ok: "cenv_ok S \<Longrightarrow> c_type S e = Some t \<Longrightarrow> ity_ok t"
proof (induction e arbitrary: t)
  case (Number s)
  then show ?case by (auto split: Option.bind_splits intro: ity_of_ok)
next
  case (BinOp op a b)
  then obtain ta tb where "c_type S a = Some ta" "c_type S b = Some tb" "t = op_ity op ta tb"
    by (auto simp: op_ity_def split: Option.bind_splits)
  then show ?case using BinOp.IH BinOp.prems(1) promoted_ok common_ok by (auto simp: op_ity_def split: bin_op.split)
next
  case (Conditional c a b)
  then show ?case using common_ok by (auto split: Option.bind_splits)
next
  case (Identifier i x)
  then show ?case by (auto simp: cenv_ok_def)
next
  case (UnOp op a)
  then show ?case using promoted_ok by auto
next
  case (Cast ct a)
  then show ?case by (auto split: Option.bind_splits intro: ity_of_ok)
qed (auto split: Option.bind_splits)

lemma c_unop_range: "in_range (promoted t) (c_unop op t x)"
  by (cases op) (simp_all add: c_unop_def Let_def wrap_in_range)

lemma c_binop_range:
  assumes "ity_ok a" "ity_ok b" "c_binop op a b x y = Some z"
  shows "in_range (op_ity op a b) z"
proof -
  have c: "ity_ok (common a b)" "\<not> is_boolean (common a b)" using common_ok assms(1,2) by blast+
  show ?thesis
  proof (cases op)
    case (OpDiv d)
    then have "c_div (common a b) d (wrap (common a b) x) (wrap (common a b) y) = Some z" using assms(3) by (simp add: c_binop_def Let_def)
    then show ?thesis using c_div_range [OF c wrap_in_range wrap_in_range] OpDiv by (simp add: op_ity_def)
  qed (use assms(3) in_range_small [OF int_ity_ok(1)] in \<open>auto simp: c_binop_def c_shift_def op_ity_def wrap_in_range Let_def split: if_splits\<close>)
qed

lemma c_val_range: "cenv_ok S \<Longrightarrow> c_type S e = Some t \<Longrightarrow> c_val S e = Some i \<Longrightarrow> in_range t i"
proof (induction e arbitrary: t i)
  case (Number s)
  then obtain u where "number_type s i = Some u" "ity_of u = Some t" by (auto split: Option.bind_splits)
  then show ?case using number_type_ity by fastforce
next
  case (Identifier n x)
  then show ?case by (auto simp: cenv_ok_def split: Option.bind_splits)
next
  case (BinOp op a b)
  then obtain ta tb x y where "c_type S a = Some ta" "c_type S b = Some tb" "t = op_ity op ta tb" "c_binop op ta tb x y = Some i"
    by (auto simp: op_ity_def split: Option.bind_splits)
  then show ?case using c_binop_range c_type_ok [OF BinOp.prems(1)] by blast
next
  case (UnOp op a)
  then show ?case using c_unop_range by (auto split: Option.bind_splits)
next
  case (BoolAnd a b)
  then show ?case using in_range_small [OF int_ity_ok(1)] in_range_small [OF int_ity_ok(1), of False] by (auto split: Option.bind_splits if_splits)
next
  case (BoolOr a b)
  then show ?case using in_range_small [OF int_ity_ok(1)] in_range_small [OF int_ity_ok(1), of True] by (auto split: Option.bind_splits if_splits)
next
  case (BoolNot a)
  then show ?case using in_range_small [OF int_ity_ok(1)] by auto
next
  case (Conditional c a b)
  then show ?case by (auto simp: wrap_in_range split: Option.bind_splits)
next
  case (Cast ct a)
  then show ?case by (auto simp: wrap_in_range split: Option.bind_splits)
qed (auto split: Option.bind_splits)

section \<open>The environment along the code\<close>

lemma holds_later:
  assumes "holds S st E" "gives S N st code st'" "computes ty A X code E E'"
  shows "holds S st' E'"
proof -
  have ok: "gen_ok S N st" using assms(2) by (simp add: gives_def)
  have "E' v = enc t i" if "S x = Some (t, Some i)" "named st' x v" for x t i v
  proof -
    have n: "named st x v" using that(2) named_cong [OF givesD(6) [OF assms(2)]] by simp
    then have "v < next_val st" using gen_ok_names [OF ok that(1)] by (auto simp: named_def)
    then have "v \<notin> outs code" using givesD(10) [OF assms(2)] by fastforce
    then show ?thesis using agreeD [of "outs code" E E' v] assms(1,3) that(1) n by (simp add: computes_def holds_def)
  qed
  then show ?thesis by (simp add: holds_def)
qed

lemma holds_same: "st_tables (g_syms st') = st_tables (g_syms st) \<Longrightarrow> holds S st' E = holds S st E"
  using named_cong [of st' st] by (simp add: holds_def)

text \<open>An environment in which the literals of a throwaway evaluation have their values.\<close>

definition probe_env :: "types \<Rightarrow> gen_state \<Rightarrow> env \<Rightarrow> env" where
  "probe_env ty st E = (\<lambda>v. case lit_of (g_literals st) v of Some j \<Rightarrow> take_bit (8 * isize ty v) (word_of_int j) | None \<Rightarrow> E v)"

lemma probe_models: "\<forall>v < next_val st. ty_of ty v = ctype_of st v \<Longrightarrow> models ty (probe_env ty st E) st"
  by (simp add: models_def probe_env_def)

lemma probe_holds:
  assumes "gen_ok S N st" "holds S st E"
  shows "holds S st (probe_env ty st E)"
proof -
  have "lit_of (g_literals st) v = None" if "S x = Some (t, Some i)" "named st x v" for x t i v
    using gen_ok_names [OF assms(1) that(1)] that(2) by (auto simp: named_def lit_of_def)
  then show ?thesis using assms(2) by (simp add: holds_def probe_env_def)
qed

section \<open>The value\<close>

lemma bool_gen_computes:
  assumes ok: "gen_ok S N st" and v: "typed st v ta" and g: "gen_bool is_and v b st = Some (w, st')"
    and IH: "\<forall>st u st'. gen_ok S N st \<longrightarrow> gen b st = Some (u, st') \<longrightarrow> (\<exists>code. gives S N st code st' \<and> typed st' u tb)"
    and gc: "gives S N st code st'" and m: "models ty E st'" and h: "holds S st E" and e: "E v = enc ta x" "in_range ta x"
    and IV: "\<And>st u st' code E. (x \<noteq> 0) = is_and \<Longrightarrow> gen_ok S N st \<Longrightarrow> gen b st = Some (u, st') \<Longrightarrow> gives S N st code st' \<Longrightarrow> models ty E st' \<Longrightarrow> holds S st E \<Longrightarrow>
      (\<exists>E'. computes ty A X code E E' \<and> E' u = enc tb y)"
    and y: "(x \<noteq> 0) = is_and \<Longrightarrow> in_range tb y"
  shows "\<exists>E'. computes ty A X code E E' \<and> E' w = enc int_ity (if (x \<noteq> 0) \<noteq> is_and then of_bool (\<not> is_and) else of_bool (y \<noteq> 0))"
  using ok v g IH
proof (cases rule: bool_gen_cases)
  case (run st0 loc st1 cb u st2)
  note ok0 = gives_ok [OF run(1)]
  note bg = bool_gives [OF ok0 run(3,5,6,7)]
  have code: "code = bool_pre is_and v st0 @ cb @ bool_post is_and u st0"
    using gives_code [OF gc gives_trans [OF run(1) bg(1)]] by simp
  have h0: "holds S st0 E" using h holds_same [OF givesD(6) [OF run(1)]] by simp
  have r: "\<exists>E2. computes ty A X cb E1 E2 \<and> E2 u = enc tb y \<and> in_range tb y"
    if "(x \<noteq> 0) = is_and" "agree {next_val st0} E E1" "models ty E1 st2" for E1
  proof -
    have "named st0 z n \<Longrightarrow> S z = Some (t, o') \<Longrightarrow> n < next_val st0" for z n t o' using gen_ok_names [OF ok0] by (fastforce simp: named_def)
    then have "holds S st0 E1" using h0 that(2) by (fastforce simp: holds_def agree_def)
    then have "holds S st1 E1" using holds_same [OF givesD(6) [OF bool_before_gives(1) [OF ok0 run(3)]]] by simp
    then show ?thesis using IV [OF that(1) gives_ok [OF bool_before_gives(1) [OF ok0 run(3)]] run(4,5) that(3)] y [OF that(1)] by blast
  qed
  show ?thesis unfolding code by (rule bool_computes [OF ok0 run(2,3,5,6,7) m e r])
next
  case (fires cp u stp)
  note r = restore_gives [OF ok fires(3)]
  obtain l where l: "g_literal st v = Some l" using fires(1) by blast
  have "l = IntLit x" by (rule lit_value [OF models_back [OF m gc] v l e])
  then have "(x \<noteq> 0) \<noteq> is_and" using fires(5) l by (auto simp: jump_fires_def lit_is_zero_def)
  moreover have "code = []" using givesD(4) [OF gc] fires(6) by (simp add: bool_literal_eq)
  ultimately show ?thesis using bool_literal_gives [OF gives_ok [OF r] fires(6), of ty E] m by simp
next
  case (lits cp u stp)
  note r = restore_gives [OF ok lits(3)]
  obtain l where l: "g_literal st v = Some l" using lits(1) by blast
  have "l = IntLit x" by (rule lit_value [OF models_back [OF m gc] v l e])
  then have x: "(x \<noteq> 0) = is_and" using lits(5) l by (auto simp: jump_fires_def lit_is_zero_def)
  have code: "code = []" using givesD(4) [OF gc] lits(7) by (simp add: bool_literal_eq)
  have st': "next_val st' = Suc (next_val stp)" "\<forall>n < next_val stp. ctype_of st' n = ctype_of stp n" using lits(7) by (auto simp: bool_literal_eq)
  let ?F = "probe_env ty stp E"
  have mp: "models ty ?F stp" using m st' by (intro probe_models) (simp add: models_def)
  have "holds S (scratch_code st) ?F"
  proof -
    have "holds S stp ?F" using h holds_same [OF givesD(6) [OF lits(3)]] holds_same [of "scratch_code st" st] by (intro probe_holds [OF gives_ok [OF lits(3)]]) simp
    then show ?thesis using holds_same [OF givesD(6) [OF lits(3)]] by simp
  qed
  then obtain F' where F: "computes ty A X cp ?F F'" "F' u = enc tb y" using IV [OF x scratch_ok [OF ok] lits(2,3) mp] by blast
  obtain k where k: "g_literal stp u = Some k" using lits(6) by blast
  have "models ty F' stp" by (rule models_between [OF mp lits(3) gives_refl [OF gives_ok [OF lits(3)]] F(1)])
  then have "k = IntLit y" using lit_value [of ty F' stp u tb k y] lits(4) k F(2) y [OF x] by simp
  then have "(jump_fires is_and (g_literal stp u) \<noteq> is_and) = (y \<noteq> 0)" using k by (auto simp: jump_fires_def lit_is_zero_def)
  then show ?thesis using bool_literal_gives [OF gives_ok [OF r] lits(7), of ty E] m x code by simp
qed

text \<open>An operand followed by the rest of its node.\<close>

lemma computes_then:
  assumes "gives S N st c st1" "gives S N st1 d st'" "gives S N st code st'" "models ty E st'"
    and "models ty E st1 \<Longrightarrow> \<exists>E1. computes ty A X c E E1 \<and> P E1"
    and "\<And>E1. computes ty A X c E E1 \<Longrightarrow> P E1 \<Longrightarrow> models ty E1 st' \<Longrightarrow> \<exists>E2. computes ty A X d E1 E2 \<and> Q E2"
  shows "\<exists>E'. computes ty A X code E E' \<and> Q E'"
proof -
  obtain E1 where E1: "computes ty A X c E E1" "P E1" using assms(5) models_back [OF assms(4,2)] by blast
  obtain E2 where "computes ty A X d E1 E2" "Q E2" using assms(6) [OF E1 models_between [OF assms(4,1,2) E1(1)]] by blast
  moreover have "code = c @ d" by (rule gives_code [OF assms(3) gives_trans [OF assms(1,2)]])
  ultimately show ?thesis using computes_append [OF E1(1)] by blast
qed

lemma gen_computes:
  assumes "gen e st = Some (v, st')" "plain S e" "c_type S e = Some t" "node_names N e" "gen_ok S N st" "cenv_ok S"
    and "gives S N st code st'" "models ty E st'" "holds S st E" "c_val S e = Some i"
  shows "\<exists>E'. computes ty A X code E E' \<and> E' v = enc t i"
  using assms
proof (induction e arbitrary: st v st' t i code E)
  case (Number s)
  obtain j u a where j: "parse_c_int s = Some j" "number_type s j = Some u" "ity_of u = Some a" "gives S N st [] st'" "models ty E st' \<longrightarrow> E v = enc a j"
    using number_gives [of S N st s v st' ty E] Number.prems(1,5) by auto
  then have "t = a" "i = j" "code = []" using Number.prems(3,10) gives_code [OF Number.prems(7)] by auto
  then show ?case using j Number.prems(8) by simp
next
  case (Identifier n x)
  then obtain y where x: "S x = Some (t, y)" "N n = Some x" by (auto simp: node_names_def)
  note g = identifier_gives [OF Identifier.prems(5) x Identifier.prems(1)]
  then have "code = []" using gives_code [OF Identifier.prems(7)] by blast
  moreover have "y = Some i" using x Identifier.prems(10) by simp
  ultimately show ?case using Identifier.prems(9) x g by (auto simp: holds_def)
next
  case (ParenExpr e)
  then show ?case by (simp add: node_names_def)
next
  case (MultiExpr a b)
  obtain u st1 where a: "gen a st = Some (u, st1)" and b: "gen b st1 = Some (v, st')" using MultiExpr.prems(1) by (auto split: Option.bind_splits)
  obtain ta where t: "c_type S a = Some ta" "c_type S b = Some t" using MultiExpr.prems(3) by (auto split: Option.bind_splits)
  have n: "node_names N a" "node_names N b" and p: "plain S a" "plain S b" using MultiExpr.prems(2,4) by (auto simp: node_names_def)
  obtain x where x: "c_val S a = Some x" "c_val S b = Some i" using MultiExpr.prems(10) by (auto split: Option.bind_splits)
  obtain c where c: "gives S N st c st1" using gen_gives [OF a p(1) t(1) n(1) MultiExpr.prems(5)] by blast
  note ok1 = gives_ok [OF c]
  obtain d where d: "gives S N st1 d st'" using gen_gives [OF b p(2) t(2) n(2) ok1] by blast
  show ?case
  proof (rule computes_then [OF c d MultiExpr.prems(7,8), where P = "\<lambda>_. True"])
    show "\<exists>E1. computes ty A X c E E1 \<and> True" if "models ty E st1"
      using MultiExpr.IH(1) [OF a p(1) t(1) n(1) MultiExpr.prems(5,6) c that MultiExpr.prems(9) x(1)] by blast
    show "\<exists>E2. computes ty A X d E1 E2 \<and> E2 v = enc t i" if "computes ty A X c E E1" "models ty E1 st'" for E1
      using MultiExpr.IH(2) [OF b p(2) t(2) n(2) ok1 MultiExpr.prems(6) d that(2) holds_later [OF MultiExpr.prems(9) c that(1)] x(2)] by blast
  qed
next
  case (BinOp op a b)
  obtain l st1 r st2 where g: "gen a st = Some (l, st1)" "gen b st1 = Some (r, st2)" "binop_il op l r st2 = Some (v, st')"
    using BinOp.prems(1) by (auto split: Option.bind_splits)
  obtain ta tb where t: "c_type S a = Some ta" "c_type S b = Some tb" "t = op_ity op ta tb"
    using BinOp.prems(3) by (auto simp: op_ity_def split: Option.bind_splits)
  have n: "node_names N a" "node_names N b" and p: "plain S a" "plain S b" using BinOp.prems(2,4) by (auto simp: node_names_def)
  obtain x y where x: "c_val S a = Some x" "c_val S b = Some y" "c_binop op ta tb x y = Some i" using BinOp.prems(10) t by (auto split: Option.bind_splits)
  have rg: "in_range ta x" "in_range tb y" using c_val_range [OF BinOp.prems(6)] t x by blast+
  obtain c where c: "gives S N st c st1" "typed st1 l ta" "g_literal st1 l \<noteq> None \<longrightarrow> may_fold a" using gen_gives [OF g(1) p(1) t(1) n(1) BinOp.prems(5)] by blast
  note ok1 = gives_ok [OF c(1)]
  obtain d where d: "gives S N st1 d st2" "typed st2 r tb" "g_literal st2 r \<noteq> None \<longrightarrow> may_fold b" using gen_gives [OF g(2) p(2) t(2) n(2) ok1] by blast
  note l = typed_later [OF c(2) d(1)]
  have po: "plain_op op ta tb (g_literal st2 l \<noteq> None \<and> g_literal st2 r \<noteq> None)"
    using BinOp.prems(2) t c(3) d(3) l by (auto simp: plain_op_def split: bin_op.splits div_mod.splits)
  obtain f where f: "gives S N st2 f st'" using binop_gives [OF gives_ok [OF d(1)] _ d(2) g(3) po] l by blast
  note cd = gives_trans [OF c(1) d(1)]
  show ?case
  proof (rule computes_then [OF cd f BinOp.prems(7,8), where P = "\<lambda>E. E l = enc ta x \<and> E r = enc tb y"])
    show "\<exists>E1. computes ty A X (c @ d) E E1 \<and> E1 l = enc ta x \<and> E1 r = enc tb y" if m: "models ty E st2"
    proof (rule computes_then [OF c(1) d(1) cd m, where P = "\<lambda>E. E l = enc ta x"])
      show "\<exists>E1. computes ty A X c E E1 \<and> E1 l = enc ta x" if "models ty E st1"
        by (rule BinOp.IH(1) [OF g(1) p(1) t(1) n(1) BinOp.prems(5,6) c(1) that BinOp.prems(9) x(1)])
      show "\<exists>E2. computes ty A X d E1 E2 \<and> E2 l = enc ta x \<and> E2 r = enc tb y" if "computes ty A X c E E1" "E1 l = enc ta x" "models ty E1 st2" for E1
        using BinOp.IH(2) [OF g(2) p(2) t(2) n(2) ok1 BinOp.prems(6) d(1) that(3) holds_later [OF BinOp.prems(9) c(1) that(1)] x(2)]
          computes_kept [OF _ d(1) c(2)] that(2) by metis
    qed
    show "\<exists>E2. computes ty A X f E1 E2 \<and> E2 v = enc t i" if "E1 l = enc ta x \<and> E1 r = enc tb y" "models ty E1 st'" for E1
      unfolding t(3) by (rule binop_computes [OF gives_ok [OF d(1)] conjunct1 [OF l] d(2) g(3) po f that(2) conjunct1 [OF that(1)] rg(1) conjunct2 [OF that(1)] rg(2) x(3)])
  qed
next
  case (UnOp op a)
  obtain u st1 where g: "gen a st = Some (u, st1)" "unop_il op u st1 = Some (v, st')" using UnOp.prems(1) by (auto split: Option.bind_splits)
  obtain ta where t: "c_type S a = Some ta" "t = promoted ta" using UnOp.prems(3) by auto
  have n: "node_names N a" and p: "plain S a" using UnOp.prems(2,4) by (auto simp: node_names_def)
  obtain x where x: "c_val S a = Some x" "i = c_unop op ta x" using UnOp.prems(10) t by (auto split: Option.bind_splits)
  have rg: "in_range ta x" using c_val_range [OF UnOp.prems(6)] t x by blast
  obtain c where c: "gives S N st c st1" "typed st1 u ta" using gen_gives [OF g(1) p t(1) n UnOp.prems(5)] by blast
  obtain d where d: "gives S N st1 d st'" using unop_gives [OF gives_ok [OF c(1)] c(2) g(2)] by blast
  show ?case
  proof (rule computes_then [OF c(1) d UnOp.prems(7,8), where P = "\<lambda>E. E u = enc ta x"])
    show "\<exists>E1. computes ty A X c E E1 \<and> E1 u = enc ta x" if "models ty E st1"
      by (rule UnOp.IH [OF g(1) p t(1) n UnOp.prems(5,6) c(1) that UnOp.prems(9) x(1)])
    show "\<exists>E2. computes ty A X d E1 E2 \<and> E2 v = enc t i" if "E1 u = enc ta x" "models ty E1 st'" for E1
      unfolding t(2) x(2) by (rule unop_computes [OF gives_ok [OF c(1)] c(2) g(2) d that(2,1) rg])
  qed
next
  case (BoolNot a)
  obtain u st1 where g: "gen a st = Some (u, st1)" "bool_not_il u st1 = Some (v, st')" using BoolNot.prems(1) by (auto split: Option.bind_splits)
  obtain ta where t: "c_type S a = Some ta" "t = int_ity" using BoolNot.prems(3) by auto
  have n: "node_names N a" and p: "plain S a" using BoolNot.prems(2,4) by (auto simp: node_names_def)
  obtain x where x: "c_val S a = Some x" "i = of_bool (x = 0)" using BoolNot.prems(10) t by (auto split: Option.bind_splits)
  have rg: "in_range ta x" using c_val_range [OF BoolNot.prems(6)] t x by blast
  obtain c where c: "gives S N st c st1" "typed st1 u ta" using gen_gives [OF g(1) p t(1) n BoolNot.prems(5)] by blast
  obtain d where d: "gives S N st1 d st'" using bool_not_gives [OF gives_ok [OF c(1)] c(2) g(2)] by blast
  show ?case
  proof (rule computes_then [OF c(1) d BoolNot.prems(7,8), where P = "\<lambda>E. E u = enc ta x"])
    show "\<exists>E1. computes ty A X c E E1 \<and> E1 u = enc ta x" if "models ty E st1"
      by (rule BoolNot.IH [OF g(1) p t(1) n BoolNot.prems(5,6) c(1) that BoolNot.prems(9) x(1)])
    show "\<exists>E2. computes ty A X d E1 E2 \<and> E2 v = enc t i" if "E1 u = enc ta x" "models ty E1 st'" for E1
      unfolding t(2) x(2) by (rule bool_not_computes [OF gives_ok [OF c(1)] c(2) g(2) d that(2,1) rg])
  qed
next
  case (Cast ct a)
  have ct: "ity_of ct = Some t" using Cast.prems(3) by (auto split: Option.bind_splits)
  obtain u st1 where g: "gen a st = Some (u, st1)" "cast_il ct u st1 = Some (v, st')"
    using Cast.prems(1) ity_of_preds(3,8) [OF ct] by (auto split: Option.bind_splits)
  obtain ta where ta: "c_type S a = Some ta" using Cast.prems(3) by (auto split: Option.bind_splits)
  have n: "node_names N a" and p: "plain S a" using Cast.prems(2,4) by (auto simp: node_names_def)
  obtain x where x: "c_val S a = Some x" "i = wrap t x" using Cast.prems(10) ct by (auto split: Option.bind_splits)
  have rg: "in_range ta x" using c_val_range [OF Cast.prems(6)] ta x by blast
  obtain c where c: "gives S N st c st1" "typed st1 u ta" "g_literal st1 u \<noteq> None \<longrightarrow> may_fold a" using gen_gives [OF g(1) p ta n Cast.prems(5)] by blast
  have s: "set_type u ct None st1 = Some (v, st')"
    using g(2) ity_of_preds(8) [OF ct] ity_of_preds(3) [OF typedD(2) [OF c(2)]] by (simp add: cast_il_def)
  have b: "g_literal st1 u \<noteq> None \<longrightarrow> \<not> is_boolean t" using Cast.prems(2) ct c(3) by auto
  obtain d where d: "gives S N st1 d st'" using set_type_gives [OF gives_ok [OF c(1)] c(2) ct s b] by auto
  show ?case
  proof (rule computes_then [OF c(1) d Cast.prems(7,8), where P = "\<lambda>E. E u = enc ta x"])
    show "\<exists>E1. computes ty A X c E E1 \<and> E1 u = enc ta x" if "models ty E st1"
      by (rule Cast.IH [OF g(1) p ta n Cast.prems(5,6) c(1) that Cast.prems(9) x(1)])
    show "\<exists>E2. computes ty A X d E1 E2 \<and> E2 v = enc t i" if "E1 u = enc ta x" "models ty E1 st'" for E1
      unfolding x(2) by (rule set_type_computes [OF gives_ok [OF c(1)] c(2) ct s b d that(2,1) rg])
  qed
next
  case (BoolAnd a b)
  obtain u st1 where g: "gen a st = Some (u, st1)" "gen_bool True u b st1 = Some (v, st')" using BoolAnd.prems(1) by (auto split: Option.bind_splits)
  obtain ta tb where t: "c_type S a = Some ta" "c_type S b = Some tb" "t = int_ity" using BoolAnd.prems(3) by (auto split: Option.bind_splits)
  have n: "node_names N a" "node_names N b" and p: "plain S a" "plain S b" using BoolAnd.prems(2,4) by (auto simp: node_names_def)
  obtain x where x: "c_val S a = Some x" using BoolAnd.prems(10) by (auto split: Option.bind_splits)
  obtain y where y: "x \<noteq> 0 \<longrightarrow> c_val S b = Some y" "i = (if (x \<noteq> 0) \<noteq> True then of_bool (\<not> True) else of_bool (y \<noteq> 0))"
    using BoolAnd.prems(10) x by (cases "x = 0") auto
  have rg: "in_range ta x" "x \<noteq> 0 \<longrightarrow> in_range tb y" using c_val_range [OF BoolAnd.prems(6)] t x y by blast+
  obtain c where c: "gives S N st c st1" "typed st1 u ta" using gen_gives [OF g(1) p(1) t(1) n(1) BoolAnd.prems(5)] by blast
  have B: "\<forall>st u st'. gen_ok S N st \<longrightarrow> gen b st = Some (u, st') \<longrightarrow> (\<exists>code. gives S N st code st' \<and> typed st' u tb)"
    using gen_gives [OF _ p(2) t(2) n(2)] by blast
  obtain d where d: "gives S N st1 d st'" using bool_gen_gives [OF gives_ok [OF c(1)] c(2) g(2) B] by blast
  show ?case
  proof (rule computes_then [OF c(1) d BoolAnd.prems(7,8), where P = "\<lambda>E. E u = enc ta x"])
    show "\<exists>E1. computes ty A X c E E1 \<and> E1 u = enc ta x" if "models ty E st1"
      by (rule BoolAnd.IH(1) [OF g(1) p(1) t(1) n(1) BoolAnd.prems(5,6) c(1) that BoolAnd.prems(9) x])
    show "\<exists>E2. computes ty A X d E1 E2 \<and> E2 v = enc t i" if e: "computes ty A X c E E1" "E1 u = enc ta x" "models ty E1 st'" for E1
      unfolding t(3) y(2)
    proof (rule bool_gen_computes [OF gives_ok [OF c(1)] c(2) g(2) B d e(3) holds_later [OF BoolAnd.prems(9) c(1) e(1)] e(2) rg(1)])
      show "\<exists>E'. computes ty A X code E E' \<and> E' w = enc tb y" if "(x \<noteq> 0) = True" "gen_ok S N s" "gen b s = Some (w, s')" "gives S N s code s'" "models ty E s'" "holds S s E"
        for s w s' code E using BoolAnd.IH(2) [OF that(3) p(2) t(2) n(2) that(2) BoolAnd.prems(6) that(4-6)] y(1) that(1) by blast
      show "in_range tb y" if "(x \<noteq> 0) = True" using rg(2) that by blast
    qed
  qed
next
  case (BoolOr a b)
  obtain u st1 where g: "gen a st = Some (u, st1)" "gen_bool False u b st1 = Some (v, st')" using BoolOr.prems(1) by (auto split: Option.bind_splits)
  obtain ta tb where t: "c_type S a = Some ta" "c_type S b = Some tb" "t = int_ity" using BoolOr.prems(3) by (auto split: Option.bind_splits)
  have n: "node_names N a" "node_names N b" and p: "plain S a" "plain S b" using BoolOr.prems(2,4) by (auto simp: node_names_def)
  obtain x where x: "c_val S a = Some x" using BoolOr.prems(10) by (auto split: Option.bind_splits)
  obtain y where y: "x = 0 \<longrightarrow> c_val S b = Some y" "i = (if (x \<noteq> 0) \<noteq> False then of_bool (\<not> False) else of_bool (y \<noteq> 0))"
    using BoolOr.prems(10) x by (cases "x = 0") auto
  have rg: "in_range ta x" "x = 0 \<longrightarrow> in_range tb y" using c_val_range [OF BoolOr.prems(6)] t x y by blast+
  obtain c where c: "gives S N st c st1" "typed st1 u ta" using gen_gives [OF g(1) p(1) t(1) n(1) BoolOr.prems(5)] by blast
  have B: "\<forall>st u st'. gen_ok S N st \<longrightarrow> gen b st = Some (u, st') \<longrightarrow> (\<exists>code. gives S N st code st' \<and> typed st' u tb)"
    using gen_gives [OF _ p(2) t(2) n(2)] by blast
  obtain d where d: "gives S N st1 d st'" using bool_gen_gives [OF gives_ok [OF c(1)] c(2) g(2) B] by blast
  show ?case
  proof (rule computes_then [OF c(1) d BoolOr.prems(7,8), where P = "\<lambda>E. E u = enc ta x"])
    show "\<exists>E1. computes ty A X c E E1 \<and> E1 u = enc ta x" if "models ty E st1"
      by (rule BoolOr.IH(1) [OF g(1) p(1) t(1) n(1) BoolOr.prems(5,6) c(1) that BoolOr.prems(9) x])
    show "\<exists>E2. computes ty A X d E1 E2 \<and> E2 v = enc t i" if e: "computes ty A X c E E1" "E1 u = enc ta x" "models ty E1 st'" for E1
      unfolding t(3) y(2)
    proof (rule bool_gen_computes [OF gives_ok [OF c(1)] c(2) g(2) B d e(3) holds_later [OF BoolOr.prems(9) c(1) e(1)] e(2) rg(1)])
      show "\<exists>E'. computes ty A X code E E' \<and> E' w = enc tb y" if "(x \<noteq> 0) = False" "gen_ok S N s" "gen b s = Some (w, s')" "gives S N s code s'" "models ty E s'" "holds S s E"
        for s w s' code E using BoolOr.IH(2) [OF that(3) p(2) t(2) n(2) that(2) BoolOr.prems(6) that(4-6)] y(1) that(1) by blast
      show "in_range tb y" if "(x \<noteq> 0) = False" using rg(2) that by blast
    qed
  qed
next
  case (Conditional e a b)
  obtain u st1 where g: "gen e st = Some (u, st1)" using Conditional.prems(1) by (auto split: Option.bind_splits)
  obtain tc ta tb where t: "c_type S e = Some tc" "c_type S a = Some ta" "c_type S b = Some tb" "t = common ta tb"
    using Conditional.prems(3) by (auto split: Option.bind_splits)
  have n: "node_names N e" "node_names N a" "node_names N b" and p: "plain S e" "plain S a" "plain S b" using Conditional.prems(2,4) by (auto simp: node_names_def)
  obtain x k where x: "c_val S e = Some x" "c_val S (if x \<noteq> 0 then a else b) = Some k" "i = wrap (common ta tb) k"
    using Conditional.prems(10) t by (auto split: Option.bind_splits if_splits)
  have rg: "in_range tc x" "x \<noteq> 0 \<Longrightarrow> in_range ta k" "x = 0 \<Longrightarrow> in_range tb k" using c_val_range [OF Conditional.prems(6)] t x by auto
  obtain c where c: "gives S N st c st1" "typed st1 u tc" "g_literal st1 u \<noteq> None \<longrightarrow> may_fold e"
    using gen_gives [OF g p(1) t(1) n(1) Conditional.prems(5)] by blast
  note ok1 = gives_ok [OF c(1)] and sc = ity_of_preds(3) [OF typedD(2) [OF c(2)]]
  show ?case
  proof (cases "g_literal st1 u = None")
    case True
    obtain ls st2 where b: "cond_before u st1 = (ls, st2)" by (cases "cond_before u st1")
    obtain xa st3 xb st4 where f: "gen a st2 = Some (xa, st3)" "gen b (cond_between ls st3) = Some (xb, st4)" "cond_after ls xa xb st4 = Some (v, st')"
      using Conditional.prems(1) g True sc b by (auto simp: Let_def split: Option.bind_splits)
    note okb = gives_ok [OF cond_before_gives(1) [OF ok1 b]]
    obtain ca where ca: "gives S N st2 ca st3" "typed st3 xa ta" using gen_gives [OF f(1) p(2) t(2) n(2) okb] by blast
    note okm = cond_between_gives(2) [OF ok1 b ca(1)]
    obtain cb where cb: "gives S N (cond_between ls st3) cb st4" "typed st4 xb tb" using gen_gives [OF f(2) p(3) t(3) n(3) okm] by blast
    note r = cond_gives [OF ok1 b ca cb f(3)]
    show ?thesis
    proof (rule computes_then [OF c(1) r(1) Conditional.prems(7,8), where P = "\<lambda>E. E u = enc tc x"])
      show "\<exists>E1. computes ty A X c E E1 \<and> E1 u = enc tc x" if "models ty E st1"
        by (rule Conditional.IH(1) [OF g p(1) t(1) n(1) Conditional.prems(5,6) c(1) that Conditional.prems(9) x(1)])
      show "\<exists>E2. computes ty A X (cond_pre u st1 @ ca @ cond_mid st1 @ cb @ cond_post v xa xb st1) E1 E2 \<and> E2 v = enc t i"
        if e1: "computes ty A X c E E1" "E1 u = enc tc x" "models ty E1 st'" for E1
        unfolding t(4) x(3)
      proof (rule cond_computes [OF ok1 c(2) b ca cb f(3) e1(3,2) rg(1)])
        note h = holds_later [OF Conditional.prems(9) c(1) e1(1)]
        have h2: "holds S st2 E1" using h holds_same [OF givesD(6) [OF cond_before_gives(1) [OF ok1 b]]] by simp
        show "\<exists>E2. computes ty A X ca E1 E2 \<and> E2 xa = enc ta k \<and> in_range ta k" if "x \<noteq> 0" "models ty E1 st3"
          using Conditional.IH(2) [OF f(1) p(2) t(2) n(2) okb Conditional.prems(6) ca(1) that(2) h2] x(2) that(1) rg(2) by auto
        have "holds S (cond_between ls st3) E1" using h holds_same [OF givesD(6) [OF cond_between_gives(1) [OF ok1 b ca(1)]]] by simp
        then show "\<exists>E2. computes ty A X cb E1 E2 \<and> E2 xb = enc tb k \<and> in_range tb k" if "x = 0" "models ty E1 st4"
          using Conditional.IH(3) [OF f(2) p(3) t(3) n(3) okm Conditional.prems(6) cb(1) that(2)] x(2) that(1) rg(3) by auto
      qed
    qed
  next
    case False
    then have k: "may_fold e" using c(3) by blast
    then have tt: "t = ta" "t = tb" using Conditional.prems(2) t common_same [of ta tb] by auto
    let ?arm = "if lit_is_zero (g_literal st1 u) then b else a"
    have f: "gen ?arm st1 = Some (v, st')" using Conditional.prems(1) g False sc by simp
    have pa: "plain S ?arm" "c_type S ?arm = Some t" "node_names N ?arm" using p t(2,3) n tt by auto
    obtain d where d: "gives S N st1 d st'" using gen_gives [OF f pa ok1] by blast
    show ?thesis
    proof (rule computes_then [OF c(1) d Conditional.prems(7,8), where P = "\<lambda>E. E u = enc tc x"])
      show "\<exists>E1. computes ty A X c E E1 \<and> E1 u = enc tc x" if "models ty E st1"
        by (rule Conditional.IH(1) [OF g p(1) t(1) n(1) Conditional.prems(5,6) c(1) that Conditional.prems(9) x(1)])
      show "\<exists>E2. computes ty A X d E1 E2 \<and> E2 v = enc t i" if e1: "computes ty A X c E E1" "E1 u = enc tc x" "models ty E1 st'" for E1
      proof -
        obtain l where l: "g_literal st1 u = Some l" using False by blast
        have "l = IntLit x" by (rule lit_value [OF models_back [OF e1(3) d] c(2) l e1(2) rg(1)])
        then have z: "lit_is_zero (g_literal st1 u) = (x = 0)" using l by (simp add: lit_is_zero_def)
        then have "c_val S ?arm = Some k" "in_range t k" using x(2) rg(2,3) tt by auto
        then have v: "c_val S ?arm = Some i" using x(3) t(4) by (simp add: in_range_wrap)
        note h = holds_later [OF Conditional.prems(9) c(1) e1(1)]
        show ?thesis
        proof (cases "lit_is_zero (g_literal st1 u)")
          case True
          then show ?thesis using Conditional.IH(3) [of st1 v st' t d E1 i] f pa ok1 Conditional.prems(6) d e1(3) h v by simp
        next
          case False
          then show ?thesis using Conditional.IH(2) [of st1 v st' t d E1 i] f pa ok1 Conditional.prems(6) d e1(3) h v by simp
        qed
      qed
    qed
  qed
qed simp_all

end
