(* ===== verification/StmtGen.thy ===== *)
theory StmtGen
  imports ExprGen ControlAsm
begin

text \<open>
  \<open>make_il\<close> of the statements (\<open>shivyc/tree/control_flow_nodes.py\<close>), of blocks, expression statements and
  declarations of scalar objects, and \<open>do_body\<close> of a function definition (\<open>shivyc/tree/general_nodes.py\<close>).
  Type specifiers and declarators are resolved already: a declared name comes with its type and storage class.
  Brace initializers, string initializers of arrays, address constants of static objects, \<open>__auto_type\<close>, register bindings and the check against
  \<open>long double\<close> are left out.
\<close>

section \<open>Statements\<close>

datatype storage_class = AutoSpec | StaticSpec | ExternSpec | TypedefSpec

record decl_info =
  di_name :: string
  di_ctype :: ctype
  di_storage :: "storage_class option"
  di_init :: "expr option"

datatype stmt =
    SReturn "expr option"
  | SBreak
  | SContinue
  | SIf expr stmt "stmt option"
  | SWhile expr stmt
  | SFor "stmt option" "expr option" "expr option" stmt
  | SDoWhile expr stmt
  | SSwitch expr stmt
  | SCase expr stmt
  | SDefault stmt
  | SLabel string stmt
  | SGoto string
  | SCompound "stmt list"
  | SEmpty
  | SExpr expr
  | SDecl "decl_info list"

text \<open>The fields of \<open>Context\<close> (\<open>shivyc/il_gen.py\<close>) statements read; \<open>c_in_func\<close> is \<open>labels is not None\<close>, and
  \<open>c_switch\<close> numbers the collector of the enclosing switch.\<close>

record gen_context =
  c_break :: "string option"
  c_continue :: "string option"
  c_return :: ctype
  c_global :: bool
  c_switch :: "nat option"
  c_in_func :: bool
  c_sret :: "nat option"

section \<open>Declarations\<close>

text \<open>\<open>get_linkage\<close>, \<open>get_defined\<close> and \<open>get_storage\<close> of \<open>DeclInfo\<close>; \<open>body\<close> tells a function definition.\<close>

definition decl_linkage :: "symtab \<Rightarrow> gen_context \<Rightarrow> decl_info \<Rightarrow> linkage option" where
  "decl_linkage s c d =
     (if c_global c \<and> di_storage d = Some StaticSpec then Some Internal
      else if di_storage d = Some ExternSpec \<or> (is_function (di_ctype d) \<and> di_storage d = None)
      then (case lookup_linkage s (di_name d) of Some l \<Rightarrow> Some l | None \<Rightarrow> Some External)
      else if c_global c \<and> di_storage d = None then Some External else None)"

definition decl_defined :: "gen_context \<Rightarrow> bool \<Rightarrow> decl_info \<Rightarrow> def_status" where
  "decl_defined c body d =
     (if c_global c \<and> di_storage d \<in> {None, Some StaticSpec} \<and> is_object (di_ctype d) \<and> di_init d = None then Tentative
      else if di_storage d = Some ExternSpec \<and> \<not> (di_init d \<noteq> None \<or> body) then Undefined
      else if is_function (di_ctype d) \<and> \<not> body then Undefined else Defined)"

definition decl_storage :: "def_status \<Rightarrow> linkage option \<Rightarrow> decl_info \<Rightarrow> storage option" where
  "decl_storage df l d =
     (if df = Undefined \<or> \<not> is_object (di_ctype d) then None
      else if l \<noteq> None \<or> di_storage d = Some StaticSpec then Some Static else Some Automatic)"

definition declare_var :: "string \<Rightarrow> ctype \<Rightarrow> def_status \<Rightarrow> linkage option \<Rightarrow> storage option \<Rightarrow> gen_state \<Rightarrow> (nat \<times> gen_state) option" where
  "declare_var x t df l stg st = (case add_variable x t df l stg (g_syms st) of
       Inl e \<Rightarrow> None | Inr (v, s) \<Rightarrow> Some (v, st\<lparr>g_syms := s\<rparr>))"

definition init_var :: "nat \<Rightarrow> storage option \<Rightarrow> expr \<Rightarrow> gen_state \<Rightarrow> gen_state option" where
  "init_var v stg e st = do {
     (x, st) \<leftarrow> gen e st;
     if stg = Some Static then (case g_literal st x of
         None \<Rightarrow> None | Some l \<Rightarrow> Some (st\<lparr>g_statics := (g_statics st)(v \<mapsto> l)\<rparr>))
     else if is_arith (ctype_of st v) \<or> is_pointer (ctype_of st v) \<or> is_struct_union (ctype_of st v)
     then map_option snd (lv_set_to (DirectLV v) x st)
     else None }"

definition process_decl :: "gen_context \<Rightarrow> decl_info \<Rightarrow> gen_state \<Rightarrow> gen_state option" where
  "process_decl c d st =
     (if di_storage d = Some TypedefSpec then
        (if di_init d \<noteq> None then None
         else case add_typedef (di_name d) (di_ctype d) (g_syms st) of Inl e \<Rightarrow> None | Inr s \<Rightarrow> Some (st\<lparr>g_syms := s\<rparr>))
      else let l = decl_linkage (g_syms st) c d; df = decl_defined c False d; stg = decl_storage df l d in
        if \<not> c_global c \<and> di_init d \<noteq> None \<and> l \<noteq> None then None
        else do {
          (v, st) \<leftarrow> declare_var (di_name d) (di_ctype d) df l stg st;
          st \<leftarrow> (case di_init d of None \<Rightarrow> Some st | Some e \<Rightarrow> init_var v stg e st);
          if l = None \<and> is_incomplete (g_heap st) (di_ctype d) then None else Some st })"

section \<open>Pieces of the statements\<close>

definition on_syms :: "(symtab \<Rightarrow> symtab) \<Rightarrow> gen_state \<Rightarrow> gen_state" where
  "on_syms f st = st\<lparr>g_syms := f (g_syms st)\<rparr>"

text \<open>The condition of a statement and its jump.\<close>

definition gen_cond :: "expr \<Rightarrow> string \<Rightarrow> gen_state \<Rightarrow> gen_state option" where
  "gen_cond e l st = map_option (\<lambda>(v, st). add_cmd (JumpZero v l) st) (gen e st)"

definition gen_void :: "expr option \<Rightarrow> gen_state \<Rightarrow> gen_state option" where
  "gen_void e st = (case e of None \<Rightarrow> Some st | Some e \<Rightarrow> map_option snd (gen e st))"

definition gen_return :: "gen_context \<Rightarrow> expr option \<Rightarrow> gen_state \<Rightarrow> gen_state option" where
  "gen_return c e st = (case (e, c_sret c) of
       (Some e, Some p) \<Rightarrow> do {
         (v, st) \<leftarrow> gen e st;
         (v, st) \<leftarrow> cast_to v (c_return c) None st;
         (_, st) \<leftarrow> lv_set_to (IndirectLV p) v st;
         Some (add_cmd (Return (Some p)) st) }
     | (Some e, None) \<Rightarrow>
         if is_void (c_return c) then None
         else do {
           (v, st) \<leftarrow> gen e st;
           (v, st) \<leftarrow> cast_to v (c_return c) None st;
           Some (add_cmd (Return (Some v)) st) }
     | (None, _) \<Rightarrow> if is_void (c_return c) then Some (add_cmd (Return None) st) else None)"

text \<open>The dispatch chain of a switch.\<close>

definition dispatch_case :: "nat \<Rightarrow> int \<times> string \<Rightarrow> gen_state \<Rightarrow> gen_state" where
  "dispatch_case v p st =
     (let (diff, st) = new_ilvalue (ctype_of st v) st; (cval, st) = literal_text_value (ctype_of st v) (fst p) st in
      add_cmd (JumpZero diff (snd p)) (add_cmd (Arith Subtr diff v cval) st))"

definition new_collector :: "gen_state \<Rightarrow> nat \<times> gen_state" where
  "new_collector st = (length (g_switches st), st\<lparr>g_switches := g_switches st @ [([], None)]\<rparr>)"

definition upd_collector :: "nat \<Rightarrow> ((int \<times> string) list \<times> string option \<Rightarrow> (int \<times> string) list \<times> string option) \<Rightarrow> gen_state \<Rightarrow> gen_state" where
  "upd_collector k f st = st\<lparr>g_switches := (g_switches st)[k := f (g_switches st ! k)]\<rparr>"

definition switch_end :: "nat \<Rightarrow> nat \<Rightarrow> string \<Rightarrow> string \<Rightarrow> gen_state \<Rightarrow> gen_state" where
  "switch_end v k dispatch end_label st =
     (let st = add_cmd (Label dispatch) (add_cmd (Jump end_label) st);
          st = fold (dispatch_case v) (fst (g_switches st ! k)) st;
          st = (case snd (g_switches st ! k) of Some l \<Rightarrow> add_cmd (Jump l) st | None \<Rightarrow> st) in
      add_cmd (Label end_label) st)"

text \<open>The value of a case label; floating labels, which the source takes too, are left out.\<close>

definition case_value :: "expr \<Rightarrow> gen_state \<Rightarrow> (int \<times> gen_state) option" where
  "case_value e st = do {
     (v, st) \<leftarrow> gen e st;
     (case g_literal st v of Some (IntLit i) \<Rightarrow> Some (i, st) | _ \<Rightarrow> None) }"

text \<open>The IL label of a goto label, made on first use.\<close>

definition goto_label :: "string \<Rightarrow> gen_state \<Rightarrow> string \<times> gen_state" where
  "goto_label x st = (case g_gotos st x of Some l \<Rightarrow> (l, st)
     | None \<Rightarrow> (let (l, st) = gen_label st in (l, st\<lparr>g_gotos := (g_gotos st)(x \<mapsto> l)\<rparr>)))"

section \<open>\<open>make_il\<close>\<close>

fun gen_stmt :: "gen_context \<Rightarrow> stmt \<Rightarrow> gen_state \<Rightarrow> gen_state option"
  and gen_stmts :: "gen_context \<Rightarrow> stmt list \<Rightarrow> gen_state \<Rightarrow> gen_state option" where
  "gen_stmt c (SReturn e) st = gen_return c e st"
| "gen_stmt c SBreak st = map_option (\<lambda>l. add_cmd (Jump l) st) (c_break c)"
| "gen_stmt c SContinue st = map_option (\<lambda>l. add_cmd (Jump l) st) (c_continue c)"
| "gen_stmt c (SIf e a b) st =
     (let (endif_label, st) = gen_label st in do {
      st \<leftarrow> gen_cond e endif_label st;
      st \<leftarrow> gen_stmt c a st;
      (case b of
         None \<Rightarrow> Some (add_cmd (Label endif_label) st)
       | Some b \<Rightarrow> (let (end_label, st) = gen_label st; st = add_cmd (Label endif_label) (add_cmd (Jump end_label) st) in
           map_option (add_cmd (Label end_label)) (gen_stmt c b st))) })"
| "gen_stmt c (SWhile e a) st =
     (let (start, st) = gen_label st; (end_label, st) = gen_label st; st = add_cmd (Label start) st;
          c = c\<lparr>c_continue := Some start, c_break := Some end_label\<rparr> in do {
      st \<leftarrow> gen_cond e end_label st;
      st \<leftarrow> gen_stmt c a st;
      Some (add_cmd (Label end_label) (add_cmd (Jump start) st)) })"
| "gen_stmt c (SFor a e i b) st = do {
     st \<leftarrow> (case a of None \<Rightarrow> Some (on_syms new_scope st) | Some a \<Rightarrow> gen_stmt c a (on_syms new_scope st));
     let (start, st) = gen_label st; (cont, st) = gen_label st; (end_label, st) = gen_label st;
         c = c\<lparr>c_continue := Some cont, c_break := Some end_label\<rparr>; st = add_cmd (Label start) st in do {
     st \<leftarrow> (case e of None \<Rightarrow> Some st | Some e \<Rightarrow> gen_cond e end_label st);
     st \<leftarrow> gen_stmt c b st;
     st \<leftarrow> gen_void i (add_cmd (Label cont) st);
     Some (on_syms end_scope (add_cmd (Label end_label) (add_cmd (Jump start) st))) } }"
| "gen_stmt c (SDoWhile e a) st =
     (let (start, st) = gen_label st; (cont, st) = gen_label st; (end_label, st) = gen_label st; st = add_cmd (Label start) st;
          c = c\<lparr>c_continue := Some cont, c_break := Some end_label\<rparr> in do {
      st \<leftarrow> gen_stmt c a st;
      st \<leftarrow> gen_cond e end_label (add_cmd (Label cont) st);
      Some (add_cmd (Label end_label) (add_cmd (Jump start) st)) })"
| "gen_stmt c (SSwitch e a) st = do {
     (v, st) \<leftarrow> gen e st;
     if \<not> is_integral (ctype_of st v) then None
     else do {
     (v, st) \<leftarrow> promote v st;
     let (dispatch, st) = gen_label st; (end_label, st) = gen_label st; (k, st) = new_collector st in do {
     st \<leftarrow> gen_stmt (c\<lparr>c_break := Some end_label, c_switch := Some k\<rparr>) a (add_cmd (Jump dispatch) st);
     Some (switch_end v k dispatch end_label st) } } }"
| "gen_stmt c (SCase e a) st = (case c_switch c of None \<Rightarrow> None
     | Some k \<Rightarrow> do {
         (i, st) \<leftarrow> case_value e st;
         let (l, st) = gen_label st; st = upd_collector k (\<lambda>(cs, d). (cs @ [(i, l)], d)) st in
         gen_stmt c a (add_cmd (Label l) st) })"
| "gen_stmt c (SDefault a) st = (case c_switch c of None \<Rightarrow> None
     | Some k \<Rightarrow> (let (l, st) = gen_label st; st = upd_collector k (\<lambda>(cs, d). (cs, Some l)) st in
         gen_stmt c a (add_cmd (Label l) st)))"
| "gen_stmt c (SLabel x a) st =
     (if \<not> c_in_func c then None else let (l, st) = goto_label x st in gen_stmt c a (add_cmd (Label l) st))"
| "gen_stmt c (SGoto x) st = (if \<not> c_in_func c then None else let (l, st) = goto_label x st in Some (add_cmd (Jump l) st))"
| "gen_stmt c (SCompound ss) st = map_option (on_syms end_scope) (gen_stmts (c\<lparr>c_global := False\<rparr>) ss (on_syms new_scope st))"
| "gen_stmt c SEmpty st = Some st"
| "gen_stmt c (SExpr e) st = map_option snd (gen e st)"
| "gen_stmt c (SDecl ds) st = ofold (process_decl c) ds st"
| "gen_stmts c [] st = Some st"
| "gen_stmts c (a # as) st = Option.bind (gen_stmt c a st) (gen_stmts c as)"

section \<open>Function bodies\<close>

text \<open>Where \<open>do_body\<close> is in the two register sequences and on the stack.\<close>

record param_pos =
  pp_int :: nat
  pp_flt :: nat
  pp_stack :: nat
  pp_vstack :: nat

definition struct_slots :: "gen_state \<Rightarrow> ctype \<Rightarrow> nat" where
  "struct_slots st t = nat ((gen_size st t + 7) div 8)"

definition big_struct_type :: "gen_state \<Rightarrow> ctype \<Rightarrow> bool" where
  "big_struct_type st t = (is_struct_union t \<and> gen_size st t > 8)"

text \<open>The command that loads parameter number \<open>i\<close> into \<open>v\<close>.\<close>

definition load_param :: "bool \<Rightarrow> gen_state \<Rightarrow> ctype \<Rightarrow> nat \<Rightarrow> nat \<Rightarrow> param_pos \<Rightarrow> il \<times> param_pos" where
  "load_param variadic st t v i p =
     (let n = struct_slots st t in
      if variadic then
        (if big_struct_type st t then (LoadStructArg v None (int (pp_vstack p)), p\<lparr>pp_vstack := pp_vstack p + n\<rparr>)
         else (load_arg v (pp_vstack p) True None False None, p\<lparr>pp_vstack := pp_vstack p + 1\<rparr>))
      else if big_struct_type st t then
        (if gen_size st t \<le> 16 \<and> pp_int p + n \<le> length arg_regs
         then (LoadStructArg v (Some (map (\<lambda>k. arg_regs ! (pp_int p + k)) [0..<n])) 0, p\<lparr>pp_int := pp_int p + n\<rparr>)
         else (LoadStructArg v None (int (pp_stack p)), p\<lparr>pp_stack := pp_stack p + n\<rparr>))
      else if is_floating t \<and> pp_flt p < length xmm_arg_regs
      then (load_arg v i False (Some (xmm_arg_regs ! pp_flt p)) True None, p\<lparr>pp_flt := pp_flt p + 1\<rparr>)
      else if \<not> is_floating t \<and> pp_int p < length arg_regs
      then (load_arg v i False (Some (arg_regs ! pp_int p)) False None, p\<lparr>pp_int := pp_int p + 1\<rparr>)
      else (load_arg v i False None False (Some (int (pp_stack p))), p\<lparr>pp_stack := pp_stack p + 1\<rparr>))"

fun load_params :: "bool \<Rightarrow> nat \<Rightarrow> (ctype \<times> string) list \<Rightarrow> param_pos \<Rightarrow> gen_state \<Rightarrow> gen_state option" where
  "load_params variadic i [] p st = Some st"
| "load_params variadic i ((t, x) # ps) p st = do {
     (v, st) \<leftarrow> declare_var x t Defined None (Some Automatic) st;
     let (c, p) = load_param variadic st t v i p in load_params variadic (Suc i) ps p (add_cmd c st) }"

definition always_returns :: "gen_state \<Rightarrow> bool" where
  "always_returns st = (case rev (g_code st) of Return _ # _ \<Rightarrow> True | _ \<Rightarrow> False)"

definition final_return :: "bool \<Rightarrow> gen_state \<Rightarrow> gen_state" where
  "final_return is_main st =
     (if always_returns st then st
      else if is_main then (let (z, st) = literal_value integer_t 0 st in add_cmd (Return (Some z)) st)
      else add_cmd (Return None) st)"

definition hidden_result :: "ctype \<Rightarrow> gen_state \<Rightarrow> nat \<times> gen_state" where
  "hidden_result rt st =
     (let (p, st) = new_ilvalue (mk_pointer False rt False) st in (p, add_cmd (load_arg p 0 False (Some (arg_regs ! 0)) False None) st))"

text \<open>The body of a function with this type, parameter names and block items; the check of the type of \<open>main\<close> is
  left to the caller.\<close>

definition do_body :: "ctype \<Rightarrow> string list \<Rightarrow> stmt list \<Rightarrow> bool \<Rightarrow> gen_state \<Rightarrow> gen_state option" where
  "do_body ft names items is_main st = (case ft of
     FunctionT args rt ni variadic c \<Rightarrow>
       (let ctx = \<lparr>c_break = None, c_continue = None, c_return = rt, c_global = False, c_switch = None, c_in_func = True, c_sret = None\<rparr>;
            st = on_syms new_scope (st\<lparr>g_code := [], g_gotos := Map.empty\<rparr>);
            hidden = (\<not> variadic \<and> is_struct_union rt \<and> gen_size st rt > 16);
            (sret, st) = (if hidden then (let (p, st) = hidden_result rt st in (Some p, st)) else (None, st)) in do {
        st \<leftarrow> load_params variadic 0 (zip args names) \<lparr>pp_int = (if hidden then 1 else 0), pp_flt = 0, pp_stack = 0, pp_vstack = 0\<rparr> st;
        st \<leftarrow> gen_stmts (ctx\<lparr>c_sret := sret\<rparr>) items st;
        Some (on_syms end_scope (final_return is_main st)) })
   | _ \<Rightarrow> None)"

end
