(* ===== verification/Spec2Isabelle.thy ===== *)
theory Spec2Isabelle
  imports MemberElim CTypes FunctionSpots LinearScanSound StraightFunction ParallelMoves PeepholeSound SymTabSound Numbers
    ExprSound StmtGen
begin

text \<open>
  A verification library for the C compiler of this repository, the Python package under \<open>src/shivyc/\<close>.

  The program.  \<open>main.py\<close> runs, for each translation unit: the lexer and the preprocessor, the parser, the
  methods \<open>make_il\<close> of the syntax tree (which fill an \<open>ILCode\<close> and a \<open>SymbolTable\<close>), passes over the
  intermediate language (\<open>peephole.py\<close> and the whole-program options), and \<open>ASMGen\<close> of \<open>asm_gen.py\<close>, which
  allocates registers and frame slots for one function after the other and calls \<open>make_asm\<close> of each
  command.  The result is an \<open>ASMCode\<close> whose text goes to the assembler.  The library follows a function from
  its commands to the machine, with the tables the front end keeps beside it.

  The theories, bottom up.  Where a theory \<open>X\<close> is followed by \<open>XSound\<close>, the first holds the definitions
  translated from the source and the second the theorems about them.
    \<^item> \<open>Prelude\<close>: Python's containers as lists and partial functions, folds of operations that may raise
      (\<open>ofold\<close>), alignment, reachability by a work list.
    \<^item> \<open>CTypes\<close> (\<open>ctypes.py\<close>): types as a datatype, structs and unions as addresses into a store they are
      completed in; predicates, copies, compatibility, alignment, and the layout of members.
    \<^item> \<open>MemberElim\<close> (\<open>member_elim.py\<close>): the module's globals as a record and every operation on it.
    \<^item> \<open>SymTab\<close>, \<open>SymTabSound\<close> (\<open>il_gen.py\<close>): \<open>class SymbolTable\<close>.  A variable is a number; the dictionaries keyed by
      an \<open>ILValue\<close> are partial functions.
    \<^item> \<open>Spots\<close> (\<open>spots.py\<close>), \<open>AsmCmds\<close> (\<open>asm_cmds.py\<close>, \<open>ASMCode\<close>): operands, lines and their spelling, the sections.
    \<^item> \<open>ILCmds\<close> (\<open>il_cmds/\<close>): the commands with their fields and the answers each class gives to the allocator.
    \<^item> \<open>Peephole\<close>, \<open>PeepholeSound\<close> (\<open>peephole.py\<close>): the four passes; runs of a command list with jumps.
    \<^item> \<open>NodeGraph\<close>, \<open>RegAlloc\<close>, \<open>RegAllocSound\<close>, \<open>SpotMap\<close> (\<open>asm_gen.py\<close>): the interference graph, the phases
      simplify, coalesce, freeze and spill, and the spots handed out from the stack.
    \<^item> \<open>Liveness\<close>, \<open>LivenessSound\<close>, \<open>FunctionSpots\<close>: what \<open>_make_asm\<close> does before the allocation, and the allocation
      of a whole function.
    \<^item> \<open>LinearScan\<close>, \<open>LinearScanSound\<close>: the allocator the arm64 and riscv64 back ends share.
    \<^item> \<open>Machine\<close>, \<open>MachineFacts\<close>: the part of x86-64 the integer lines use.  It is the specification the emitted
      lines are held to, not code of the repository.
    \<^item> \<open>Codegen\<close>, \<open>Scratch\<close>, \<open>Emission\<close>: the state \<open>_generate_asm\<close> threads through the emission of a command, its
      \<open>get_reg\<close>, and the rules for following the emitted lines.
    \<^item> \<open>MathAsm\<close>, \<open>CompareAsm\<close>, \<open>ValueAsm\<close>, \<open>ControlAsm\<close> (\<open>il_cmds/math.py\<close>, \<open>compare.py\<close>, \<open>value.py\<close>,
      \<open>control.py\<close>): \<open>make_asm\<close> of every command; \<open>MathSound\<close>, \<open>MathCommands\<close>, \<open>CompareSound\<close>, \<open>ValueSound\<close> and
      \<open>ParallelMoves\<close> prove what the lines do.
    \<^item> \<open>FunctionAsm\<close>, \<open>FunctionSound\<close>: \<open>_generate_asm\<close>, with the frame, the prologue and the saved registers.
    \<^item> \<open>Placement\<close>, \<open>CmdRefines\<close>, \<open>StraightLine\<close>, \<open>StraightFunction\<close>: the composition.  A function of integer
      commands is allocated, emitted and run on the machine, and returns what its commands assign.

  Interfaces.  A command relies on \<open>get_reg\<close> only through the locale \<open>scratch_source\<close>, which the closure of
  \<open>_generate_asm\<close> interprets in \<open>Scratch\<close>; the other locales and their interpretations stand beside the
  components that provide them.

  Conventions.  An operation that may raise returns an \<open>option\<close> or a sum with the error; \<^const>\<open>None\<close> is the
  exception.  Python integers are \<open>int\<close>; machine values are 64-bit words read at the width of their type.  A
  dictionary whose order matters is an association list, one used as a set a list without duplicates.

  Fuel.  \<open>get_live_vars\<close> takes the number of rounds: \<open>forward_liveness_returns\<close> gives a number that is enough
  when every jump goes forward, \<open>liveness_oscillates\<close> a function on which no number is.  The pointers of the merge
  map are followed with as much fuel as there are nodes, and \<open>allocation_sound\<close> shows that allocation never runs
  out of it; \<open>alignment\<close> follows the nesting of structs, and \<open>alignment_terminates\<close> bounds it; the guard of 10000
  moves in \<open>emit_parallel_int_moves\<close> is the constant of the source, and \<open>parallel_moves_at_once\<close> shows it is never
  reached.  The other loops terminate by a measure.

  Not modelled.  Floating-point commands are translated, but the machine has no floating-point registers, so the
  theorems are about integers and pointers.  The lowering to arm64, riscv64 and m68k shares the linear scan only;
  SIMD bit packing, self-modifying returns, near-function scratch buffers and inline assembly are options whose
  code paths are left out.  The libraries written in Python for the compiled programs (\<open>musl/\<close>), the tools, the
  benchmarks and the examples are programs of their own.
\<close>

end
